(* ===== verification/Prelude.thy ===== *)
theory Prelude
  imports Main "HOL-Library.Word" "HOL-Library.Monad_Syntax"
begin

text \<open>
  Shared vocabulary of the development.

  \<^item> C integer types are words of their width (\<open>u8\<close>, \<open>u16\<close>, \<open>u32\<close>, \<open>u64\<close>); a quantity
    that the code keeps far below its width (a page index, a bit number) is a \<open>nat\<close>, and a
    C \<open>int\<close> result that could wrap is cut back to 32 bits with \<open>to_int32\<close>.
  \<^item> A C function that may not come back to its caller is a function into \<open>'a option\<close>:
    \<^const>\<open>None\<close> stands for a call that never returns to its caller as written, because
    \<open>panic()\<close> (kernel/debug.c) loops for ever, because a pointer is dereferenced that is NULL,
    or because the calling thread is put to sleep on a lock. \<open>ASSERT\<close> and \<open>PANIC\<close> are the
    two macros of include/kernel/debug.h.
\<close>

unbundle bit_operations_syntax

section \<open>Machine integers\<close>

type_synonym u8 = "8 word"
type_synonym u16 = "16 word"
type_synonym u32 = "32 word"
type_synonym u64 = "64 word"

text \<open>A C \<open>int\<close>: a mathematical integer cut to 32 bits, read as two's complement.\<close>

definition to_int32 :: "int \<Rightarrow> int" where
  "to_int32 x = sint (word_of_int x :: u32)"

lemma to_int32_id: "- 2147483648 \<le> x \<Longrightarrow> x < 2147483648 \<Longrightarrow> to_int32 x = x"
  by (simp add: to_int32_def sint_sbintrunc' signed_take_bit_int_eq_self)

text \<open>C's division and remainder truncate towards zero.\<close>

definition c_div :: "int \<Rightarrow> int \<Rightarrow> int" where
  "c_div a b = sgn a * sgn b * (\<bar>a\<bar> div \<bar>b\<bar>)"

definition c_mod :: "int \<Rightarrow> int \<Rightarrow> int" where
  "c_mod a b = a - c_div a b * b"

lemma c_div_nonneg: "0 \<le> a \<Longrightarrow> 0 < b \<Longrightarrow> c_div a b = a div b"
  by (cases "a = 0") (simp_all add: c_div_def)

lemma c_mod_nonneg: "0 \<le> a \<Longrightarrow> 0 < b \<Longrightarrow> c_mod a b = a mod b"
  by (simp add: c_mod_def c_div_nonneg minus_div_mult_eq_mod)

text \<open>\<open>DIV_ROUND_UP\<close> of include/kernel/global.h.\<close>

definition DIV_ROUND_UP :: "nat \<Rightarrow> nat \<Rightarrow> nat" where
  "DIV_ROUND_UP x step = (x + step - 1) div step"

lemma DIV_ROUND_UP_le_iff:
  assumes "0 < s" shows "DIV_ROUND_UP x s \<le> n \<longleftrightarrow> x \<le> n * s"
proof -
  have "DIV_ROUND_UP x s \<le> n \<longleftrightarrow> (x + s - 1) div s < Suc n"
    by (auto simp: DIV_ROUND_UP_def)
  also have "\<dots> \<longleftrightarrow> x + s - 1 < Suc n * s"
    using assms by (simp add: div_less_iff_less_mult)
  also have "\<dots> \<longleftrightarrow> x \<le> n * s"
    using assms by auto
  finally show ?thesis .
qed

lemma DIV_ROUND_UP_ge: "0 < s \<Longrightarrow> x \<le> DIV_ROUND_UP x s * s"
  using DIV_ROUND_UP_le_iff [of s x "DIV_ROUND_UP x s"] by simp

section \<open>Calls that may not return\<close>

definition ASSERT :: "bool \<Rightarrow> unit option" where
  "ASSERT c = (if c then Some () else None)"

abbreviation PANIC :: "'a option" where
  "PANIC \<equiv> None"

lemma ASSERT_True [simp]: "ASSERT True = Some ()"
  by (simp add: ASSERT_def)

lemma ASSERT_False [simp]: "ASSERT False = None"
  by (simp add: ASSERT_def)

lemma ASSERT_eq_Some [simp]: "ASSERT c = Some u \<longleftrightarrow> c"
  by (simp add: ASSERT_def)

lemma ASSERT_bind_Some [simp]:
  "(Option.bind (ASSERT c) f = Some r) \<longleftrightarrow> (c \<and> f () = Some r)"
  by (simp add: ASSERT_def)

lemma bind_if_distrib:
  "Option.bind (if c then x else y) f = (if c then Option.bind x f else Option.bind y f)"
  by simp

section \<open>Bits\<close>

named_theorems bits_at \<open>what each bit of a word operation is\<close>

text \<open>\<open>1 << n\<close> is \<^term>\<open>push_bit n 1\<close>, which the simplifier writes \<^term>\<open>2 ^ n\<close>.\<close>

lemma bit_or_push [bits_at]:
  "bit ((w :: 'a::len word) OR 2 ^ n) m \<longleftrightarrow> bit w m \<or> (m = n \<and> m < LENGTH('a))"
  by (auto simp: bit_simps)

lemma bit_andnot_push [bits_at]:
  "bit ((w :: 'a::len word) AND NOT (2 ^ n)) m \<longleftrightarrow> bit w m \<and> m \<noteq> n"
  by (auto simp: bit_simps dest: bit_imp_le_length)

lemma and_push_eq_0 [bits_at]:
  "(w :: 'a::len word) AND 2 ^ n = 0 \<longleftrightarrow> \<not> bit w n"
proof -
  have "w AND 2 ^ n = 0 \<longleftrightarrow> (\<forall>m. \<not> (bit w m \<and> m = n \<and> m < LENGTH('a)))"
    by (auto simp: bit_eq_iff bit_simps)
  then show ?thesis
    by (auto dest: bit_imp_le_length)
qed

lemma and_push_gt_0 [bits_at]:
  "0 < (w :: 'a::len word) AND 2 ^ n \<longleftrightarrow> bit w n"
  by (simp add: word_gt_0 and_push_eq_0)

lemma eq_minus_one_iff [bits_at]:
  "(w :: 'a::len word) = - 1 \<longleftrightarrow> (\<forall>n < LENGTH('a). bit w n)"
  by (auto simp: bit_eq_iff bit_simps dest: bit_imp_le_length)

section \<open>Lists\<close>

lemma in_set_tl: "x \<in> set (tl xs) \<Longrightarrow> x \<in> set xs"
  by (cases xs) auto

lemma distinct_last_notin_butlast:
  assumes "distinct xs" "xs \<noteq> []" shows "last xs \<notin> set (butlast xs)"
proof -
  have "distinct (butlast xs @ [last xs])" using assms by simp
  then show ?thesis by simp
qed

lemma distinct_hd_notin_tl: "distinct xs \<Longrightarrow> xs \<noteq> [] \<Longrightarrow> hd xs \<notin> set (tl xs)"
  by (cases xs) auto

lemma ends_neq: "x \<notin> set xs \<Longrightarrow> xs \<noteq> [] \<Longrightarrow> hd xs \<noteq> x \<and> last xs \<noteq> x"
  by (metis hd_in_set last_in_set)

lemma ends_notin: "set xs \<inter> set ys = {} \<Longrightarrow> xs \<noteq> [] \<Longrightarrow> hd xs \<notin> set ys \<and> last xs \<notin> set ys"
  by (metis disjoint_iff hd_in_set last_in_set)

lemma hd_append_if: "hd (xs @ ys) = (if xs = [] then hd ys else hd xs)"
  by simp

lemma last_append_if: "last (xs @ ys) = (if ys = [] then last xs else last ys)"
  by simp

lemma remove1_split:
  "distinct (xs @ x # ys) \<Longrightarrow> remove1 x (xs @ x # ys) = xs @ ys"
  by (simp add: remove1_append)

end
