(* ===== verification/Cpu.thy ===== *)
theory Cpu
  imports Prelude
begin

text \<open>
  The processor state the kernel's critical sections use: the EFLAGS register with its
  interrupt flag (kernel/interrupt.c, \<open>intr_enable\<close> to \<open>intr_get_status\<close>), and the locked
  read-modify-write operations on \<open>atomic_t\<close> counters (include/kernel/atomic.h), whose
  \<open>set\<close> instructions are modelled from the flags that \<open>incl\<close> and \<open>decl\<close> compute.
\<close>

section \<open>The interrupt flag\<close>

datatype intr_status = INTR_OFF | INTR_ON

record cpu =
  eflags :: u32

definition EFLAGS_IF :: u32 where
  "EFLAGS_IF = 0x200"

definition sti :: "'a cpu_scheme \<Rightarrow> 'a cpu_scheme" where
  "sti c = c\<lparr>eflags := eflags c OR EFLAGS_IF\<rparr>"

definition cli :: "'a cpu_scheme \<Rightarrow> 'a cpu_scheme" where
  "cli c = c\<lparr>eflags := eflags c AND NOT EFLAGS_IF\<rparr>"

definition intr_get_status :: "'a cpu_scheme \<Rightarrow> intr_status" where
  "intr_get_status c = (if EFLAGS_IF AND eflags c \<noteq> 0 then INTR_ON else INTR_OFF)"

definition intr_enable :: "'a cpu_scheme \<Rightarrow> intr_status \<times> 'a cpu_scheme" where
  "intr_enable c =
     (if intr_get_status c = INTR_ON then (INTR_ON, c) else (INTR_OFF, sti c))"

definition intr_disable :: "'a cpu_scheme \<Rightarrow> intr_status \<times> 'a cpu_scheme" where
  "intr_disable c =
     (if intr_get_status c = INTR_ON then (INTR_ON, cli c) else (INTR_OFF, c))"

definition intr_set_status :: "intr_status \<Rightarrow> 'a cpu_scheme \<Rightarrow> intr_status \<times> 'a cpu_scheme" where
  "intr_set_status s c = (if s = INTR_ON then intr_enable c else intr_disable c)"

lemma EFLAGS_IF_pow: "EFLAGS_IF = 2 ^ 9"
  by (simp add: EFLAGS_IF_def)

lemma bit_EFLAGS_IF [bits_at]:
  "bit (w OR EFLAGS_IF) m \<longleftrightarrow> bit w m \<or> m = 9"
  "bit (w AND NOT EFLAGS_IF) m \<longleftrightarrow> bit w m \<and> m \<noteq> 9"
  "EFLAGS_IF AND w = 0 \<longleftrightarrow> \<not> bit w 9"
  by (auto simp only: EFLAGS_IF_pow bits_at and.commute [of "2 ^ 9"]) simp

lemma intr_get_status_bit:
  "intr_get_status c = (if bit (eflags c) 9 then INTR_ON else INTR_OFF)"
  by (simp add: intr_get_status_def bits_at)

lemma intr_get_status_sti [simp]: "intr_get_status (sti c) = INTR_ON"
  by (simp add: intr_get_status_bit sti_def bits_at)

lemma intr_get_status_cli [simp]: "intr_get_status (cli c) = INTR_OFF"
  by (simp add: intr_get_status_bit cli_def bits_at)

lemma sti_cli:
  assumes "intr_get_status c = INTR_ON" shows "sti (cli c) = c"
proof -
  have "bit (eflags c) 9"
    using assms by (simp add: intr_get_status_bit split: if_splits)
  then have "(eflags c AND NOT EFLAGS_IF) OR EFLAGS_IF = eflags c"
    by (intro bit_word_eqI) (auto simp: bits_at)
  then show ?thesis
    by (simp add: sti_def cli_def)
qed

text \<open>
  The pattern around every critical section of the kernel: disable, work, restore. With the
  interrupt flag off the status is \<open>INTR_OFF\<close>, and restoring the saved status after the
  section gives back the EFLAGS register the section was entered with.
\<close>

lemma intr_disable_off [simp]: "intr_get_status (snd (intr_disable c)) = INTR_OFF"
  by (cases "intr_get_status c") (simp_all add: intr_disable_def)

lemma intr_disable_fst [simp]: "fst (intr_disable c) = intr_get_status c"
  by (cases "intr_get_status c") (simp_all add: intr_disable_def)

lemma intr_restore:
  "snd (intr_set_status (intr_get_status c) (snd (intr_disable c))) = c"
  by (cases "intr_get_status c")
    (simp_all add: intr_set_status_def intr_disable_def intr_enable_def sti_cli)

text \<open>
  The operations as functions of EFLAGS alone: inside a larger state they commute with every
  other field, and a critical section whose body leaves EFLAGS alone restores it.
\<close>

definition set_if :: "intr_status \<Rightarrow> u32 \<Rightarrow> u32" where
  "set_if s f = (if s = INTR_ON then f OR EFLAGS_IF else f AND NOT EFLAGS_IF)"

lemma and_not_IF_id: "\<not> bit f 9 \<Longrightarrow> f AND NOT EFLAGS_IF = f"
  by (intro bit_word_eqI) (auto simp: bits_at)

lemma or_IF_id: "bit f 9 \<Longrightarrow> f OR EFLAGS_IF = f"
  by (intro bit_word_eqI) (auto simp: bits_at)

lemma intr_disable_eq:
  "intr_disable c = (intr_get_status c, c\<lparr>eflags := set_if INTR_OFF (eflags c)\<rparr>)"
  by (simp add: intr_disable_def intr_get_status_bit cli_def set_if_def and_not_IF_id)

lemma intr_set_status_eq:
  "snd (intr_set_status s c) = c\<lparr>eflags := set_if s (eflags c)\<rparr>"
  by (cases s)
    (simp_all add: intr_set_status_def intr_disable_def intr_enable_def intr_get_status_bit
      sti_def cli_def set_if_def and_not_IF_id or_IF_id)

lemma set_if_restore: "set_if (intr_get_status c) (set_if INTR_OFF (eflags c)) = eflags c"
proof -
  have "bit (eflags c) 9 \<Longrightarrow> (eflags c AND NOT EFLAGS_IF) OR EFLAGS_IF = eflags c"
    by (intro bit_word_eqI) (auto simp: bits_at)
  then show ?thesis
    by (simp add: set_if_def intr_get_status_bit and_not_IF_id)
qed

lemma intr_get_status_set_if [simp]:
  "intr_get_status (c\<lparr>eflags := set_if s f\<rparr>) = s"
  by (cases s) (simp_all add: intr_get_status_bit set_if_def bits_at)

lemmas critical_section = intr_disable_eq intr_set_status_eq set_if_restore

section \<open>Atomic counters\<close>

record atomic_t =
  counter :: u32

text \<open>
  \<open>incl\<close> and \<open>decl\<close> set ZF, SF and OF; \<open>setg\<close> reads ZF=0 and SF=OF, \<open>setge\<close> SF=OF,
  \<open>sete\<close> ZF=1.
\<close>

record arith_flags =
  ZF :: bool
  SF :: bool
  OF_flag :: bool

definition incl :: "u32 \<Rightarrow> u32 \<times> arith_flags" where
  "incl v = (let r = v + 1 in
     (r, \<lparr>ZF = (r = 0), SF = bit r 31, OF_flag = (v = 0x7FFFFFFF)\<rparr>))"

definition decl :: "u32 \<Rightarrow> u32 \<times> arith_flags" where
  "decl v = (let r = v - 1 in
     (r, \<lparr>ZF = (r = 0), SF = bit r 31, OF_flag = (v = 0x80000000)\<rparr>))"

definition setg :: "arith_flags \<Rightarrow> bool" where
  "setg f = (\<not> ZF f \<and> SF f = OF_flag f)"

definition setge :: "arith_flags \<Rightarrow> bool" where
  "setge f = (SF f = OF_flag f)"

definition sete :: "arith_flags \<Rightarrow> bool" where
  "sete f = ZF f"

definition atomic_read :: "atomic_t \<Rightarrow> int" where
  "atomic_read v = sint (counter v)"

definition atomic_set :: "int \<Rightarrow> atomic_t \<Rightarrow> atomic_t" where
  "atomic_set i v = v\<lparr>counter := word_of_int i\<rparr>"

definition atomic_add :: "int \<Rightarrow> atomic_t \<Rightarrow> atomic_t" where
  "atomic_add i v = v\<lparr>counter := counter v + word_of_int i\<rparr>"

definition atomic_sub :: "int \<Rightarrow> atomic_t \<Rightarrow> atomic_t" where
  "atomic_sub i v = v\<lparr>counter := counter v - word_of_int i\<rparr>"

definition atomic_inc_and_setg :: "atomic_t \<Rightarrow> bool \<times> atomic_t" where
  "atomic_inc_and_setg v = (let (r, f) = incl (counter v) in (setg f, v\<lparr>counter := r\<rparr>))"

definition atomic_inc_and_sete :: "atomic_t \<Rightarrow> bool \<times> atomic_t" where
  "atomic_inc_and_sete v = (let (r, f) = incl (counter v) in (sete f, v\<lparr>counter := r\<rparr>))"

definition atomic_inc_and_setge :: "atomic_t \<Rightarrow> bool \<times> atomic_t" where
  "atomic_inc_and_setge v = (let (r, f) = incl (counter v) in (setge f, v\<lparr>counter := r\<rparr>))"

definition atomic_dec_and_setge :: "atomic_t \<Rightarrow> bool \<times> atomic_t" where
  "atomic_dec_and_setge v = (let (r, f) = decl (counter v) in (setge f, v\<lparr>counter := r\<rparr>))"

definition atomic_dec_and_sete :: "atomic_t \<Rightarrow> bool \<times> atomic_t" where
  "atomic_dec_and_sete v = (let (r, f) = decl (counter v) in (sete f, v\<lparr>counter := r\<rparr>))"

definition atomic_dec_and_setg :: "atomic_t \<Rightarrow> bool \<times> atomic_t" where
  "atomic_dec_and_setg v = (let (r, f) = decl (counter v) in (setg f, v\<lparr>counter := r\<rparr>))"

definition atomic_inc :: "atomic_t \<Rightarrow> atomic_t" where
  "atomic_inc v = v\<lparr>counter := fst (incl (counter v))\<rparr>"

definition atomic_dec :: "atomic_t \<Rightarrow> atomic_t" where
  "atomic_dec v = v\<lparr>counter := fst (decl (counter v))\<rparr>"

definition atomic_xchg_return :: "atomic_t \<Rightarrow> int \<Rightarrow> int \<times> atomic_t" where
  "atomic_xchg_return v i = (sint (counter v), v\<lparr>counter := word_of_int i\<rparr>)"

definition atomic_xchg :: "atomic_t \<Rightarrow> int \<Rightarrow> atomic_t" where
  "atomic_xchg v i = v\<lparr>counter := word_of_int i\<rparr>"

text \<open>
  The flags give the sign of the exact, unwrapped result: the OF bit corrects SF in the one
  case where the 32-bit result has wrapped.
\<close>

lemma bit31_sint: "bit (w :: u32) 31 \<longleftrightarrow> sint w < 0"
  using bit_last_iff [of w] by simp

lemma sint_lower: "- 2147483648 \<le> sint (w :: u32)"
  using sint_ge [of w] by simp

lemma sint_upper: "sint (w :: u32) \<le> 2147483647"
  using sint_lt [of w] by simp

lemma sint_plus_1: "w \<noteq> 0x7FFFFFFF \<Longrightarrow> sint ((w :: u32) + 1) = sint w + 1"
proof -
  assume w: "w \<noteq> 0x7FFFFFFF"
  have "sint w \<noteq> 2147483647"
  proof
    assume "sint w = 2147483647"
    then have "sint w = sint (0x7FFFFFFF :: u32)" by simp
    with w show False using signed_word_eqI by blast
  qed
  with sint_lower [of w] sint_upper [of w] have "sint w + 1 < 2147483648" by simp
  moreover have "sint (w + 1) = to_int32 (sint w + 1)"
    by (simp add: to_int32_def)
  ultimately show ?thesis
    using sint_lower [of w] by (simp add: to_int32_id)
qed

lemma sint_minus_1: "w \<noteq> 0x80000000 \<Longrightarrow> sint ((w :: u32) - 1) = sint w - 1"
proof -
  assume w: "w \<noteq> 0x80000000"
  have "sint w \<noteq> - 2147483648"
  proof
    assume "sint w = - 2147483648"
    then have "sint w = sint (0x80000000 :: u32)" by simp
    with w show False using signed_word_eqI by blast
  qed
  with sint_lower [of w] have "- 2147483648 \<le> sint w - 1" by simp
  moreover have "sint (w - 1) = to_int32 (sint w - 1)"
    by (simp add: to_int32_def)
  ultimately show ?thesis
    using sint_upper [of w] by (simp add: to_int32_id)
qed

lemma sint_eq_0_iff32: "sint (w :: u32) = 0 \<longleftrightarrow> w = 0"
  using signed_word_eqI [of w 0] by auto

lemma incl_sign:
  "setg (snd (incl v)) \<longleftrightarrow> 0 < sint v + 1" "setge (snd (incl v)) \<longleftrightarrow> 0 \<le> sint v + 1"
proof -
  consider "v = 0x7FFFFFFF" | "v \<noteq> 0x7FFFFFFF" by blast
  then have "(setg (snd (incl v)) \<longleftrightarrow> 0 < sint v + 1) \<and> (setge (snd (incl v)) \<longleftrightarrow> 0 \<le> sint v + 1)"
  proof cases
    case 1
    then show ?thesis by (simp add: incl_def setg_def setge_def)
  next
    case 2
    have "v + 1 = 0 \<longleftrightarrow> sint v + 1 = 0"
      using sint_plus_1 [OF 2] sint_eq_0_iff32 [of "v + 1"] by simp
    with 2 sint_plus_1 [OF 2] show ?thesis
      by (auto simp: incl_def setg_def setge_def bit31_sint)
  qed
  then show "setg (snd (incl v)) \<longleftrightarrow> 0 < sint v + 1" "setge (snd (incl v)) \<longleftrightarrow> 0 \<le> sint v + 1"
    by blast+
qed

lemma decl_sign:
  "setg (snd (decl v)) \<longleftrightarrow> 0 < sint v - 1" "setge (snd (decl v)) \<longleftrightarrow> 0 \<le> sint v - 1"
proof -
  consider "v = 0x80000000" | "v \<noteq> 0x80000000" by blast
  then have "(setg (snd (decl v)) \<longleftrightarrow> 0 < sint v - 1) \<and> (setge (snd (decl v)) \<longleftrightarrow> 0 \<le> sint v - 1)"
  proof cases
    case 1
    then show ?thesis by (simp add: decl_def setg_def setge_def)
  next
    case 2
    have "v - 1 = 0 \<longleftrightarrow> sint v - 1 = 0"
      using sint_minus_1 [OF 2] sint_eq_0_iff32 [of "v - 1"] by simp
    with 2 sint_minus_1 [OF 2] show ?thesis
      by (auto simp: decl_def setg_def setge_def bit31_sint)
  qed
  then show "setg (snd (decl v)) \<longleftrightarrow> 0 < sint v - 1" "setge (snd (decl v)) \<longleftrightarrow> 0 \<le> sint v - 1"
    by blast+
qed

lemma incl_decl_result [simp]: "fst (incl v) = v + 1" "fst (decl v) = v - 1"
  by (simp_all add: incl_def decl_def Let_def)

lemmas atomic_defs =
  atomic_inc_and_setg_def atomic_inc_and_sete_def atomic_inc_and_setge_def
  atomic_dec_and_setge_def atomic_dec_and_sete_def atomic_dec_and_setg_def
  atomic_inc_def atomic_dec_def atomic_set_def atomic_read_def atomic_xchg_return_def

text \<open>
  What the kernel relies on, over the counter read as a signed integer, with no bound on it:
  the returned condition is about the exact result.
\<close>

lemma atomic_inc_and_setg_fst: "fst (atomic_inc_and_setg v) \<longleftrightarrow> 0 < atomic_read v + 1"
  by (simp add: atomic_defs split_def incl_sign)

lemma atomic_dec_and_setge_fst: "fst (atomic_dec_and_setge v) \<longleftrightarrow> 0 \<le> atomic_read v - 1"
  by (simp add: atomic_defs split_def decl_sign)

lemma atomic_dec_and_setg_fst: "fst (atomic_dec_and_setg v) \<longleftrightarrow> 0 < atomic_read v - 1"
  by (simp add: atomic_defs split_def decl_sign)

lemma atomic_dec_and_sete_fst: "fst (atomic_dec_and_sete v) \<longleftrightarrow> atomic_read v = 1"
proof -
  have "counter v - 1 = 0 \<longleftrightarrow> sint (counter v) = 1"
    using signed_word_eqI [of "counter v" 1] by auto
  then show ?thesis
    by (simp add: atomic_defs split_def sete_def decl_def Let_def)
qed

end
