(* ===== verification/DList.thy ===== *)
theory DList
  imports Cpu
begin

text \<open>
  lib/kernel/list.c: the intrusive doubly linked list all kernel queues are made of. A
  \<open>struct list_elem\<close> is an address; the two link fields of every element form a split heap
  (\<open>nxt\<close> and \<open>prv\<close>), beside the EFLAGS register the operations save and restore. Reading or
  writing a link through NULL is a call that does not return.
\<close>

section \<open>State\<close>

type_synonym ptr = u32

definition NULL :: ptr where
  "NULL = 0"

record heap = cpu +
  nxt :: "ptr \<Rightarrow> ptr"
  prv :: "ptr \<Rightarrow> ptr"

record dlist =
  lhead :: ptr
  ltail :: ptr

definition ld_nxt :: "ptr \<Rightarrow> 'a heap_scheme \<Rightarrow> ptr option" where
  "ld_nxt p m = (if p = NULL then None else Some (nxt m p))"

definition ld_prv :: "ptr \<Rightarrow> 'a heap_scheme \<Rightarrow> ptr option" where
  "ld_prv p m = (if p = NULL then None else Some (prv m p))"

definition st_nxt :: "ptr \<Rightarrow> ptr \<Rightarrow> 'a heap_scheme \<Rightarrow> 'a heap_scheme option" where
  "st_nxt p v m = (if p = NULL then None else Some (m\<lparr>nxt := (nxt m)(p := v)\<rparr>))"

definition st_prv :: "ptr \<Rightarrow> ptr \<Rightarrow> 'a heap_scheme \<Rightarrow> 'a heap_scheme option" where
  "st_prv p v m = (if p = NULL then None else Some (m\<lparr>prv := (prv m)(p := v)\<rparr>))"

section \<open>Operations\<close>

definition list_init :: "dlist \<Rightarrow> dlist" where
  "list_init l = l\<lparr>lhead := NULL, ltail := NULL\<rparr>"

definition list_insert_back ::
  "dlist \<Rightarrow> ptr \<Rightarrow> ptr \<Rightarrow> 'a heap_scheme \<Rightarrow> (dlist \<times> 'a heap_scheme) option" where
  "list_insert_back l before_elem elem m = do {
     ASSERT (before_elem \<noteq> NULL);
     let (old_status, m) = intr_disable m;
     bn \<leftarrow> ld_nxt before_elem m;
     m \<leftarrow> st_nxt elem bn m;
     m \<leftarrow> st_prv elem before_elem m;
     m \<leftarrow> st_nxt before_elem elem m;
     en \<leftarrow> ld_nxt elem m;
     (l, m) \<leftarrow> (if en \<noteq> NULL
       then do { m \<leftarrow> st_prv en elem m; Some (l, m) }
       else do { ASSERT (ltail l = before_elem); Some (l\<lparr>ltail := elem\<rparr>, m) });
     Some (l, snd (intr_set_status old_status m)) }"

definition list_insert_front ::
  "dlist \<Rightarrow> ptr \<Rightarrow> ptr \<Rightarrow> 'a heap_scheme \<Rightarrow> (dlist \<times> 'a heap_scheme) option" where
  "list_insert_front l back_elem elem m = do {
     ASSERT (back_elem \<noteq> NULL);
     let (old_status, m) = intr_disable m;
     bp \<leftarrow> ld_prv back_elem m;
     m \<leftarrow> st_prv elem bp m;
     m \<leftarrow> st_nxt elem back_elem m;
     m \<leftarrow> st_prv back_elem elem m;
     ep \<leftarrow> ld_prv elem m;
     (l, m) \<leftarrow> (if ep \<noteq> NULL
       then do { m \<leftarrow> st_nxt ep elem m; Some (l, m) }
       else do { ASSERT (lhead l = back_elem); Some (l\<lparr>lhead := elem\<rparr>, m) });
     Some (l, snd (intr_set_status old_status m)) }"

text \<open>The range check at the end of \<open>list_push_back\<close>: both ends lie in kernel space.\<close>

definition KERNEL_BASE :: ptr where
  "KERNEL_BASE = 0xc0000000"

definition list_push_back ::
  "dlist \<Rightarrow> ptr \<Rightarrow> 'a heap_scheme \<Rightarrow> (dlist \<times> 'a heap_scheme) option" where
  "list_push_back l elem m = do {
     ASSERT (elem \<noteq> NULL);
     let (old_status, m) = intr_disable m;
     (l, m) \<leftarrow> (if ltail l = NULL
       then do {
         ASSERT (lhead l = NULL);
         m \<leftarrow> st_prv elem NULL m;
         m \<leftarrow> st_nxt elem NULL m;
         Some (l\<lparr>lhead := elem, ltail := elem\<rparr>, m) }
       else do {
         m \<leftarrow> st_nxt (ltail l) elem m;
         m \<leftarrow> st_prv elem (ltail l) m;
         m \<leftarrow> st_nxt elem NULL m;
         Some (l\<lparr>ltail := elem\<rparr>, m) });
     ASSERT (KERNEL_BASE \<le> ltail l \<and> KERNEL_BASE \<le> lhead l);
     Some (l, snd (intr_set_status old_status m)) }"

definition list_pop_back ::
  "dlist \<Rightarrow> 'a heap_scheme \<Rightarrow> (ptr \<times> dlist \<times> 'a heap_scheme) option" where
  "list_pop_back l m = do {
     let (old_status, m) = intr_disable m;
     ASSERT (ltail l \<noteq> NULL);
     let elem = ltail l;
     l \<leftarrow> (if ltail l = lhead l
       then Some (l\<lparr>lhead := NULL, ltail := NULL\<rparr>)
       else do { tp \<leftarrow> ld_prv (ltail l) m; Some (l\<lparr>ltail := tp\<rparr>) });
     Some (elem, l, snd (intr_set_status old_status m)) }"

definition list_front :: "dlist \<Rightarrow> ptr option" where
  "list_front l = (if lhead l = NULL \<or> ltail l = NULL then PANIC else Some (lhead l))"

definition list_back :: "dlist \<Rightarrow> ptr option" where
  "list_back l = (if lhead l = NULL \<or> ltail l = NULL then PANIC else Some (ltail l))"

definition list_pop_front ::
  "dlist \<Rightarrow> 'a heap_scheme \<Rightarrow> (ptr \<times> dlist \<times> 'a heap_scheme) option" where
  "list_pop_front l m = do {
     let (old_status, m) = intr_disable m;
     if lhead l = NULL
     then do {
       ASSERT (ltail l = NULL);
       Some (NULL, l, snd (intr_set_status old_status m)) }
     else do {
       let elem = lhead l;
       (l, m) \<leftarrow> (if lhead l = ltail l
         then Some (l\<lparr>lhead := NULL, ltail := NULL\<rparr>, m)
         else do {
           hn \<leftarrow> ld_nxt (lhead l) m;
           m \<leftarrow> st_nxt elem NULL m;
           Some (l\<lparr>lhead := hn\<rparr>, m) });
       let m = snd (intr_set_status old_status m);
       ASSERT (elem \<noteq> NULL);
       ASSERT (ltail l = NULL \<and> lhead l = NULL
               \<or> KERNEL_BASE \<le> ltail l \<and> KERNEL_BASE \<le> lhead l);
       Some (elem, l, m) } }"

definition list_empty :: "dlist \<Rightarrow> bool" where
  "list_empty l = (lhead l = NULL)"

definition list_forward ::
  "dlist \<Rightarrow> ptr \<Rightarrow> 'a heap_scheme \<Rightarrow> (dlist \<times> 'a heap_scheme) option" where
  "list_forward l elem m = do {
     let (old_status, m) = intr_disable m;
     ep \<leftarrow> ld_prv elem m;
     ASSERT (lhead l \<noteq> NULL \<and> ltail l \<noteq> NULL \<and> lhead l \<noteq> elem \<and> ep \<noteq> NULL);
     let elem_prev = ep;
     (l, m) \<leftarrow> (if ltail l = elem then Some (l\<lparr>ltail := elem_prev\<rparr>, m)
       else do { en \<leftarrow> ld_nxt elem m; m \<leftarrow> st_prv en elem_prev m; Some (l, m) });
     (l, m) \<leftarrow> (if lhead l = elem_prev then Some (l\<lparr>lhead := elem\<rparr>, m)
       else do { epp \<leftarrow> ld_prv elem_prev m; m \<leftarrow> st_nxt epp elem m; Some (l, m) });
     epp \<leftarrow> ld_prv elem_prev m;
     m \<leftarrow> st_prv elem epp m;
     en \<leftarrow> ld_nxt elem m;
     m \<leftarrow> st_nxt elem_prev en m;
     m \<leftarrow> st_nxt elem elem_prev m;
     m \<leftarrow> st_prv elem_prev elem m;
     Some (l, snd (intr_set_status old_status m)) }"

definition list_backward ::
  "dlist \<Rightarrow> ptr \<Rightarrow> 'a heap_scheme \<Rightarrow> (dlist \<times> 'a heap_scheme) option" where
  "list_backward l elem m = do {
     let (old_status, m) = intr_disable m;
     en \<leftarrow> ld_nxt elem m;
     ASSERT (lhead l \<noteq> NULL \<and> ltail l \<noteq> NULL \<and> ltail l \<noteq> elem \<and> en \<noteq> NULL);
     let elem_next = en;
     (l, m) \<leftarrow> (if ltail l = elem_next then Some (l\<lparr>ltail := elem\<rparr>, m)
       else do { enn \<leftarrow> ld_nxt elem_next m; m \<leftarrow> st_prv enn elem m; Some (l, m) });
     (l, m) \<leftarrow> (if lhead l = elem then Some (l\<lparr>lhead := elem_next\<rparr>, m)
       else do { ep \<leftarrow> ld_prv elem m; m \<leftarrow> st_nxt ep elem_next m; Some (l, m) });
     enp \<leftarrow> ld_prv elem_next m;
     m \<leftarrow> st_prv elem enp m;
     en' \<leftarrow> ld_nxt elem m;
     m \<leftarrow> st_nxt elem_next en' m;
     m \<leftarrow> st_nxt elem elem_next m;
     m \<leftarrow> st_prv elem_next elem m;
     Some (l, snd (intr_set_status old_status m)) }"

text \<open>The search loop: it need not end on a heap whose links form a cycle.\<close>

partial_function (option) list_find_from :: "(ptr \<Rightarrow> ptr) \<Rightarrow> ptr \<Rightarrow> ptr \<Rightarrow> bool option" where
  "list_find_from nx e elem =
     (if e = NULL then Some False
      else if e = elem then Some True
      else list_find_from nx (nx e) elem)"

definition list_find :: "dlist \<Rightarrow> ptr \<Rightarrow> 'a heap_scheme \<Rightarrow> bool option" where
  "list_find l elem m = list_find_from (nxt m) (lhead l) elem"

definition list_delete ::
  "dlist \<Rightarrow> ptr \<Rightarrow> 'a heap_scheme \<Rightarrow> (dlist \<times> 'a heap_scheme) option" where
  "list_delete l elem m = do {
     let (old_status, m) = intr_disable m;
     found \<leftarrow> list_find l elem m;
     ASSERT found;
     (l, m) \<leftarrow>
       (if lhead l = ltail l then do {
          ASSERT (lhead l = elem);
          Some (l\<lparr>lhead := NULL, ltail := NULL\<rparr>, m) }
        else if lhead l = elem then do {
          en \<leftarrow> ld_nxt elem m;
          m \<leftarrow> st_prv en NULL m;
          Some (l\<lparr>lhead := en\<rparr>, m) }
        else if ltail l = elem then do {
          ep \<leftarrow> ld_prv elem m;
          m \<leftarrow> st_nxt ep NULL m;
          Some (l\<lparr>ltail := ep\<rparr>, m) }
        else do {
          ep \<leftarrow> ld_prv elem m;
          en \<leftarrow> ld_nxt elem m;
          m \<leftarrow> st_nxt ep en m;
          ep' \<leftarrow> ld_prv elem m;
          en' \<leftarrow> ld_nxt elem m;
          m \<leftarrow> st_prv en' ep' m;
          m \<leftarrow> st_prv elem NULL m;
          m \<leftarrow> st_nxt elem NULL m;
          Some (l, m) });
     Some (l, snd (intr_set_status old_status m)) }"

text \<open>
  \<open>list_traversal\<close> hands each element to a callback that may change the state it is given
  (fs/fs.c mounts a partition from it) but not the links, and stops at the first \<open>true\<close>.
\<close>

partial_function (option) list_traversal_from ::
  "(ptr \<Rightarrow> ptr) \<Rightarrow> (ptr \<Rightarrow> 's \<Rightarrow> bool \<times> 's) \<Rightarrow> ptr \<Rightarrow> 's \<Rightarrow> 's option" where
  "list_traversal_from nx f head s =
     (if head = NULL then Some s
      else (case f head s of (stop, s') \<Rightarrow>
        if stop then Some s' else list_traversal_from nx f (nx head) s'))"

definition list_traversal ::
  "dlist \<Rightarrow> (ptr \<Rightarrow> 's \<Rightarrow> bool \<times> 's) \<Rightarrow> 'a heap_scheme \<Rightarrow> 's \<Rightarrow> 's option" where
  "list_traversal l f m s = list_traversal_from (nxt m) f (lhead l) s"

definition list_push_front ::
  "dlist \<Rightarrow> ptr \<Rightarrow> 'a heap_scheme \<Rightarrow> (dlist \<times> 'a heap_scheme) option" where
  "list_push_front l elem m = do {
     let (old_status, m) = intr_disable m;
     ASSERT (elem \<noteq> NULL);
     (l, m) \<leftarrow> (if lhead l = NULL \<and> ltail l = NULL
       then do {
         m \<leftarrow> st_prv elem NULL m;
         m \<leftarrow> st_nxt elem NULL m;
         Some (l\<lparr>lhead := elem, ltail := elem\<rparr>, m) }
       else do {
         m \<leftarrow> st_prv elem NULL m;
         m \<leftarrow> st_nxt elem (lhead l) m;
         m \<leftarrow> st_prv (lhead l) elem m;
         Some (l\<lparr>lhead := elem\<rparr>, m) });
     Some (l, snd (intr_set_status old_status m)) }"

text \<open>
  \<open>insert_in_order\<close> compares the 32-bit values found \<open>offset\<close> bytes after the elements;
  \<open>val\<close> reads the memory at an address. \<open>flag\<close> selects ascending order.
\<close>

partial_function (option) order_position ::
  "(ptr \<Rightarrow> ptr) \<Rightarrow> (ptr \<Rightarrow> u32) \<Rightarrow> ptr \<Rightarrow> u32 \<Rightarrow> bool \<Rightarrow> ptr \<Rightarrow> ptr option" where
  "order_position nx val elem offset flag head =
     (if head \<noteq> NULL \<and>
         (if flag then val (head + offset) \<le> val (elem + offset)
          else val (elem + offset) \<le> val (head + offset))
      then order_position nx val elem offset flag (nx head)
      else Some head)"

definition insert_in_order ::
  "(ptr \<Rightarrow> u32) \<Rightarrow> dlist \<Rightarrow> ptr \<Rightarrow> u32 \<Rightarrow> bool \<Rightarrow> 'a heap_scheme \<Rightarrow> (dlist \<times> 'a heap_scheme) option"
  where
  "insert_in_order val l elem offset flag m = do {
     let (old_status, m) = intr_disable m;
     head \<leftarrow> order_position (nxt m) val elem offset flag (lhead l);
     (l, m) \<leftarrow> (if head = NULL then list_push_back l elem m
                else list_insert_front l head elem m);
     Some (l, snd (intr_set_status old_status m)) }"

section \<open>Representation of a sequence\<close>

text \<open>
  \<open>seg m xs\<close>: neighbours in \<open>xs\<close> point to each other. \<open>dl_rep m l xs\<close>: the list \<open>l\<close> holds
  exactly the elements \<open>xs\<close> in this order, the forward chain ends with NULL, every element is a
  kernel address and occurs once. The \<open>prev\<close> link of the first element is left open:
  \<open>list_pop_front\<close> does not clear it. \<open>dl_rep0\<close> adds that it is NULL.
\<close>

fun seg :: "'a heap_scheme \<Rightarrow> ptr list \<Rightarrow> bool" where
  "seg m [] \<longleftrightarrow> True"
| "seg m [x] \<longleftrightarrow> True"
| "seg m (x # y # zs) \<longleftrightarrow> nxt m x = y \<and> prv m y = x \<and> seg m (y # zs)"

definition dl_rep :: "'a heap_scheme \<Rightarrow> dlist \<Rightarrow> ptr list \<Rightarrow> bool" where
  "dl_rep m l xs \<longleftrightarrow>
     (if xs = [] then lhead l = NULL \<and> ltail l = NULL
      else lhead l = hd xs \<and> ltail l = last xs \<and> nxt m (last xs) = NULL) \<and>
     seg m xs \<and> distinct xs \<and> (\<forall>x \<in> set xs. KERNEL_BASE \<le> x)"

definition dl_rep0 :: "'a heap_scheme \<Rightarrow> dlist \<Rightarrow> ptr list \<Rightarrow> bool" where
  "dl_rep0 m l xs \<longleftrightarrow> dl_rep m l xs \<and> (xs \<noteq> [] \<longrightarrow> prv m (hd xs) = NULL)"

lemma seg_Cons: "seg m (x # xs) \<longleftrightarrow> (xs \<noteq> [] \<longrightarrow> nxt m x = hd xs \<and> prv m (hd xs) = x) \<and> seg m xs"
  by (cases xs) auto

lemma seg_append:
  "seg m (xs @ ys) \<longleftrightarrow> seg m xs \<and> seg m ys \<and>
     (xs \<noteq> [] \<longrightarrow> ys \<noteq> [] \<longrightarrow> nxt m (last xs) = hd ys \<and> prv m (hd ys) = last xs)"
  by (induction xs) (auto simp: seg_Cons hd_append_if)

text \<open>A segment reads \<open>next\<close> of all but its last element and \<open>prev\<close> of all but its first.\<close>

lemma seg_cong:
  assumes "\<forall>x \<in> set (butlast xs). nxt m x = nxt m' x"
    and "\<forall>x \<in> set (tl xs). prv m x = prv m' x"
  shows "seg m xs = seg m' xs"
  using assms
proof (induction xs)
  case (Cons x xs)
  show ?case
  proof (cases xs)
    case (Cons y ys)
    moreover have "\<forall>x \<in> set (tl xs). prv m x = prv m' x"
      using Cons.prems Cons by auto
    ultimately show ?thesis
      using Cons.IH Cons.prems by auto
  qed simp
qed simp


section \<open>Correctness\<close>

lemma KERNEL_BASE_NULL [simp]: "KERNEL_BASE \<le> x \<Longrightarrow> x \<noteq> NULL"
  by (auto simp: KERNEL_BASE_def NULL_def)

lemma KERNEL_BASE_not_NULL [simp]: "\<not> KERNEL_BASE \<le> NULL"
  by (simp add: KERNEL_BASE_def NULL_def)

lemmas link_access = ld_nxt_def ld_prv_def st_nxt_def st_prv_def

lemma dl_rep_hd_last:
  assumes "dl_rep m l xs" "xs \<noteq> []"
  shows "lhead l = hd xs" "ltail l = last xs" "KERNEL_BASE \<le> hd xs" "KERNEL_BASE \<le> last xs"
    "hd xs \<noteq> NULL" "last xs \<noteq> NULL"
  using assms by (auto simp: dl_rep_def)

lemma dl_rep_not_NULL: "dl_rep m l xs \<Longrightarrow> NULL \<notin> set xs"
  unfolding dl_rep_def using KERNEL_BASE_not_NULL by blast

lemma dl_rep_distinct: "dl_rep m l xs \<Longrightarrow> distinct xs"
  and dl_rep_kernel: "dl_rep m l xs \<Longrightarrow> x \<in> set xs \<Longrightarrow> KERNEL_BASE \<le> x"
  by (simp_all add: dl_rep_def)

lemma list_push_back_eq:
  assumes "dl_rep m l xs" "KERNEL_BASE \<le> e"
  shows "list_push_back l e m =
    Some (l\<lparr>lhead := (if xs = [] then e else lhead l), ltail := e\<rparr>,
          if xs = [] then m\<lparr>nxt := (nxt m)(e := NULL), prv := (prv m)(e := NULL)\<rparr>
          else m\<lparr>nxt := (nxt m)(last xs := e, e := NULL), prv := (prv m)(e := last xs)\<rparr>)"
proof (cases "xs = []")
  case True
  with assms show ?thesis
    by (simp add: list_push_back_def critical_section link_access dl_rep_def)
next
  case False
  with assms show ?thesis
    by (simp add: list_push_back_def critical_section link_access dl_rep_hd_last)
qed

text \<open>What an operation on one list leaves alone: EFLAGS and the links of all elements outside \<open>A\<close>.\<close>

definition frame :: "ptr set \<Rightarrow> 'a heap_scheme \<Rightarrow> 'a heap_scheme \<Rightarrow> bool" where
  "frame A m m' \<longleftrightarrow> eflags m' = eflags m \<and>
     (\<forall>x. x \<notin> A \<longrightarrow> nxt m' x = nxt m x \<and> prv m' x = prv m x)"

lemma dl_rep_frame:
  assumes "dl_rep m l ys" "frame A m m'" "A \<inter> set ys = {}"
  shows "dl_rep m' l ys"
proof -
  have links: "\<forall>x \<in> set ys. nxt m x = nxt m' x \<and> prv m x = prv m' x"
    using assms(2,3) by (auto simp: frame_def)
  moreover have "seg m ys = seg m' ys"
    by (rule seg_cong) (use links in \<open>auto dest: in_set_butlastD in_set_tl\<close>)
  ultimately show ?thesis
    using assms(1) by (auto simp: dl_rep_def split: if_splits)
qed

lemma seg_upd_nxt: "e \<notin> set (butlast xs) \<Longrightarrow> seg (m\<lparr>nxt := (nxt m)(e := v)\<rparr>) xs = seg m xs"
  by (rule seg_cong) auto

lemma seg_upd_prv: "e \<notin> set (tl xs) \<Longrightarrow> seg (m\<lparr>prv := (prv m)(e := v)\<rparr>) xs = seg m xs"
  by (rule seg_cong) auto

lemma list_push_back_rep:
  assumes "dl_rep m l xs" "KERNEL_BASE \<le> e" "e \<notin> set xs"
  shows "\<exists>l' m'. list_push_back l e m = Some (l', m') \<and> dl_rep m' l' (xs @ [e]) \<and>
    frame (insert e (set xs)) m m'"
proof (cases "xs = []")
  case True
  with assms show ?thesis
    unfolding list_push_back_eq [OF assms(1,2)] by (auto simp: dl_rep_def frame_def)
next
  case False
  define m' where "m' = m\<lparr>nxt := (nxt m)(last xs := e, e := NULL), prv := (prv m)(e := last xs)\<rparr>"
  have "seg m' xs = seg m xs"
    using assms(1,3) False
    by (intro seg_cong)
      (auto simp: m'_def dl_rep_def distinct_last_notin_butlast dest: in_set_butlastD in_set_tl)
  moreover have "last xs \<noteq> e" using assms(3) False by auto
  ultimately have "dl_rep m' (l\<lparr>ltail := e\<rparr>) (xs @ [e])"
    using assms False by (auto simp: dl_rep_def seg_append m'_def)
  moreover have "frame (insert e (set xs)) m m'"
    using False by (auto simp: frame_def m'_def)
  ultimately show ?thesis
    using False unfolding list_push_back_eq [OF assms(1,2)] by (simp add: m'_def)
qed

text \<open>Appending the only element once more leaves the sequence as it is: the element's \<open>prev\<close> link
  then points to itself, and the \<open>prev\<close> link of a first element is never read.\<close>

lemma push_back_again:
  assumes "dl_rep m l [e]"
  shows "\<exists>m'. list_push_back l e m = Some (l, m') \<and> dl_rep m' l [e] \<and> frame {e} m m'"
proof -
  have e: "KERNEL_BASE \<le> e" using assms by (simp add: dl_rep_def)
  have "list_push_back l e m =
      Some (l, m\<lparr>nxt := (nxt m)(e := NULL), prv := (prv m)(e := e)\<rparr>)"
    unfolding list_push_back_eq [OF assms e] using assms by (simp add: dl_rep_def)
  then show ?thesis using assms by (auto simp: dl_rep_def frame_def)
qed

lemma list_push_front_rep:
  assumes "dl_rep m l xs" "KERNEL_BASE \<le> e" "e \<notin> set xs"
  shows "\<exists>l' m'. list_push_front l e m = Some (l', m') \<and> dl_rep0 m' l' (e # xs) \<and>
    frame (insert e (set xs)) m m'"
proof (cases xs)
  case Nil
  have "list_push_front l e m =
      Some (l\<lparr>lhead := e, ltail := e\<rparr>, m\<lparr>nxt := (nxt m)(e := NULL), prv := (prv m)(e := NULL)\<rparr>)"
    using assms Nil by (simp add: list_push_front_def critical_section link_access dl_rep_def)
  with assms Nil show ?thesis
    by (auto simp: dl_rep_def dl_rep0_def frame_def)
next
  case (Cons x ys)
  define m' where "m' = m\<lparr>nxt := (nxt m)(e := x), prv := (prv m)(e := NULL, x := e)\<rparr>"
  have "list_push_front l e m = Some (l\<lparr>lhead := e\<rparr>, m')"
    using assms Cons dl_rep_hd_last [OF assms(1)]
    by (simp add: list_push_front_def critical_section link_access m'_def)
  moreover have "seg m' xs = seg m xs"
    using assms Cons
    by (intro seg_cong) (auto simp: m'_def dl_rep_def dest: in_set_butlastD in_set_tl)
  then have "dl_rep0 m' (l\<lparr>lhead := e\<rparr>) (e # xs)"
    using assms Cons by (auto simp: dl_rep_def dl_rep0_def seg_Cons m'_def)
  moreover have "frame (insert e (set xs)) m m'"
    using Cons by (auto simp: frame_def m'_def)
  ultimately show ?thesis by blast
qed

text \<open>\<open>list_pop_front\<close> on an empty list gives NULL and changes nothing.\<close>

lemma list_pop_front_empty:
  assumes "dl_rep m l []" shows "list_pop_front l m = Some (NULL, l, m)"
  using assms by (simp add: list_pop_front_def critical_section dl_rep_def)

lemma list_pop_front_rep:
  assumes "dl_rep m l (x # xs)"
  shows "\<exists>l' m'. list_pop_front l m = Some (x, l', m') \<and> dl_rep m' l' xs \<and>
    frame (set (x # xs)) m m'"
proof (cases xs)
  case Nil
  have "list_pop_front l m = Some (x, l\<lparr>lhead := NULL, ltail := NULL\<rparr>, m)"
    using dl_rep_hd_last [OF assms] Nil
    by (simp add: list_pop_front_def critical_section)
  with Nil show ?thesis
    by (auto simp: dl_rep_def frame_def)
next
  case (Cons y ys)
  define m' where "m' = m\<lparr>nxt := (nxt m)(x := NULL)\<rparr>"
  have x: "x \<notin> set xs" and last: "last xs \<noteq> x" "nxt m x = y"
    using assms Cons by (auto simp: dl_rep_def)
  have "list_pop_front l m = Some (x, l\<lparr>lhead := y\<rparr>, m')"
    using dl_rep_hd_last [OF assms] assms Cons last
    by (auto simp: list_pop_front_def critical_section link_access m'_def dl_rep_def)
  moreover have "seg m' xs = seg m xs"
    unfolding m'_def using x by (intro seg_upd_nxt) (auto dest: in_set_butlastD)
  then have "dl_rep m' (l\<lparr>lhead := y\<rparr>) xs"
    using assms Cons last x by (auto simp: dl_rep_def m'_def)
  moreover have "frame (set (x # xs)) m m'"
    by (auto simp: frame_def m'_def)
  ultimately show ?thesis by blast
qed

text \<open>The two walks along the forward chain end, and visit the elements in order.\<close>

lemma seg_chain:
  "seg m (x # xs) \<Longrightarrow> nxt m (last (x # xs)) = NULL \<Longrightarrow>
     nxt m x = (if xs = [] then NULL else hd xs)"
  by (cases xs) auto

lemma list_find_from_rep:
  "seg m xs \<Longrightarrow> \<forall>x \<in> set xs. x \<noteq> NULL \<Longrightarrow> xs \<noteq> [] \<longrightarrow> nxt m (last xs) = NULL \<Longrightarrow>
     list_find_from (nxt m) (if xs = [] then NULL else hd xs) e = Some (e \<in> set xs)"
proof (induction xs)
  case Nil
  show ?case by (simp add: list_find_from.simps)
next
  case (Cons x xs)
  have next_eq: "nxt m x = (if xs = [] then NULL else hd xs)"
    using Cons.prems by (intro seg_chain) auto
  have "list_find_from (nxt m) (nxt m x) e = Some (e \<in> set xs)"
    using Cons by (auto simp: next_eq seg_Cons split: if_splits)
  with Cons.prems show ?case
    by (subst list_find_from.simps) auto
qed

lemma list_find_rep: "dl_rep m l xs \<Longrightarrow> list_find l e m = Some (e \<in> set xs)"
  using list_find_from_rep [of m xs e]
  by (auto simp: list_find_def dl_rep_def split: if_splits)

fun traverse :: "('e \<Rightarrow> 's \<Rightarrow> bool \<times> 's) \<Rightarrow> 'e list \<Rightarrow> 's \<Rightarrow> 's" where
  "traverse f [] s = s"
| "traverse f (x # xs) s = (case f x s of (stop, s') \<Rightarrow> if stop then s' else traverse f xs s')"

lemma list_traversal_from_rep:
  "seg m xs \<Longrightarrow> \<forall>x \<in> set xs. x \<noteq> NULL \<Longrightarrow> xs \<noteq> [] \<longrightarrow> nxt m (last xs) = NULL \<Longrightarrow>
     list_traversal_from (nxt m) f (if xs = [] then NULL else hd xs) s = Some (traverse f xs s)"
proof (induction xs arbitrary: s)
  case Nil
  show ?case by (simp add: list_traversal_from.simps)
next
  case (Cons x xs)
  have next_eq: "nxt m x = (if xs = [] then NULL else hd xs)"
    using Cons.prems by (intro seg_chain) auto
  have "list_traversal_from (nxt m) f (nxt m x) s' = Some (traverse f xs s')" for s'
    using Cons by (auto simp: next_eq seg_Cons split: if_splits)
  with Cons.prems show ?case
    by (subst list_traversal_from.simps) (auto split: prod.split)
qed

lemma list_traversal_rep: "dl_rep m l xs \<Longrightarrow> list_traversal l f m s = Some (traverse f xs s)"
  using list_traversal_from_rep [of m xs f s]
  by (auto simp: list_traversal_def dl_rep_def split: if_splits)

lemma list_empty_rep: "dl_rep m l xs \<Longrightarrow> list_empty l \<longleftrightarrow> xs = []"
  by (auto simp: list_empty_def dl_rep_def split: if_splits)

lemma list_front_rep: "dl_rep m l (x # xs) \<Longrightarrow> list_front l = Some x"
  using dl_rep_hd_last [of m l "x # xs"] by (simp add: list_front_def)

text \<open>Deleting: one case for each branch of the code.\<close>

lemma list_delete_found:
  assumes "dl_rep m l xs" "e \<in> set xs"
  shows "list_find l e (m\<lparr>eflags := f\<rparr>) = Some True"
  using list_find_rep [OF assms(1), of e] assms(2) by (simp add: list_find_def)

lemma list_delete_only_rep:
  assumes rep: "dl_rep m l [e]"
  shows "\<exists>l' m'. list_delete l e m = Some (l', m') \<and> dl_rep m' l' [] \<and> frame {e} m m'"
proof -
  have "list_delete l e m = Some (l\<lparr>lhead := NULL, ltail := NULL\<rparr>, m)"
    using dl_rep_hd_last [OF rep] list_delete_found [OF rep]
    by (simp add: list_delete_def critical_section)
  then show ?thesis
    by (auto simp: dl_rep_def frame_def)
qed

lemma list_delete_head_rep:
  assumes rep: "dl_rep m l (e # bs)" and bs: "bs \<noteq> []"
  shows "\<exists>l' m'. list_delete l e m = Some (l', m') \<and> dl_rep m' l' bs \<and> frame (set (e # bs)) m m'"
proof -
  define m' where "m' = m\<lparr>prv := (prv m)(hd bs := NULL)\<rparr>"
  have b: "nxt m e = hd bs" "last bs \<noteq> e" "hd bs \<noteq> NULL" "distinct bs"
    using rep bs by (auto simp: dl_rep_def seg_Cons)
  have "list_delete l e m = Some (l\<lparr>lhead := hd bs\<rparr>, m')"
    using dl_rep_hd_last [OF rep] list_delete_found [OF rep, of e] b bs
    by (auto simp: list_delete_def critical_section link_access m'_def)
  moreover have "seg m' bs = seg m bs"
    unfolding m'_def using distinct_hd_notin_tl [OF b(4) bs] by (intro seg_upd_prv)
  then have "dl_rep m' (l\<lparr>lhead := hd bs\<rparr>) bs"
    using rep bs by (simp add: dl_rep_def m'_def seg_Cons)
  moreover have "frame (set (e # bs)) m m'"
    using bs by (auto simp: frame_def m'_def)
  ultimately show ?thesis by blast
qed

lemma list_delete_tail_rep:
  assumes rep: "dl_rep m l (as @ [e])" and as: "as \<noteq> []"
  shows "\<exists>l' m'. list_delete l e m = Some (l', m') \<and> dl_rep m' l' as \<and> frame (set (as @ [e])) m m'"
proof -
  define m' where "m' = m\<lparr>nxt := (nxt m)(last as := NULL)\<rparr>"
  have a: "prv m e = last as" "last as \<noteq> NULL" "distinct as" and "e \<notin> set as"
    using rep as by (auto simp: dl_rep_def seg_append)
  then have hd: "hd as \<noteq> e"
    using hd_in_set [OF as] by metis
  have "list_delete l e m = Some (l\<lparr>ltail := last as\<rparr>, m')"
    using dl_rep_hd_last [OF rep] list_delete_found [OF rep, of e] a as hd
    by (auto simp: list_delete_def critical_section link_access m'_def)
  moreover have "seg m' as = seg m as"
    unfolding m'_def using distinct_last_notin_butlast [OF a(3) as] by (intro seg_upd_nxt)
  then have "dl_rep m' (l\<lparr>ltail := last as\<rparr>) as"
    using rep as by (simp add: dl_rep_def m'_def seg_append)
  moreover have "frame (set (as @ [e])) m m'"
    using as by (auto simp: frame_def m'_def)
  ultimately show ?thesis by blast
qed

lemma list_delete_mid_rep:
  assumes rep: "dl_rep m l (as @ e # bs)" and as: "as \<noteq> []" and bs: "bs \<noteq> []"
  shows "\<exists>l' m'. list_delete l e m = Some (l', m') \<and> dl_rep m' l' (as @ bs) \<and>
    frame (set (as @ e # bs)) m m'"
proof -
  define m' where "m' = m\<lparr>nxt := (nxt m)(last as := hd bs, e := NULL),
                           prv := (prv m)(hd bs := last as, e := NULL)\<rparr>"
  have links: "prv m e = last as" "nxt m e = hd bs"
    and e: "e \<notin> set as" "e \<notin> set bs" and disj: "set as \<inter> set bs = {}"
    and dist: "distinct as" "distinct bs"
    and nn: "e \<noteq> NULL" "last as \<noteq> NULL" "hd bs \<noteq> NULL"
    using rep as bs by (auto simp: dl_rep_def seg_append seg_Cons)
  have out: "e \<notin> set as" "e \<notin> set bs" "last as \<notin> set bs" "hd bs \<notin> set as"
    using e disj as bs by (metis disjoint_iff hd_in_set last_in_set)+
  have ends: "hd as \<noteq> e" "last bs \<noteq> e" "hd as \<noteq> last bs" "last as \<noteq> last bs"
      "last bs \<noteq> last as" "hd bs \<noteq> last as"
    using out as bs disj by (metis disjoint_iff hd_in_set last_in_set)+
  have "list_delete l e m = Some (l, m')"
    using dl_rep_hd_last [OF rep] list_delete_found [OF rep, of e] links nn ends out as bs
    by (auto simp: list_delete_def critical_section link_access m'_def hd_append_if)
  moreover have "seg m' as = seg m as"
    using distinct_last_notin_butlast [OF dist(1) as] out
    by (intro seg_cong) (auto simp: m'_def dest: in_set_butlastD in_set_tl)
  moreover have "seg m' bs = seg m bs"
    using distinct_hd_notin_tl [OF dist(2) bs] out
    by (intro seg_cong) (auto simp: m'_def dest: in_set_butlastD in_set_tl)
  ultimately have "dl_rep m' l (as @ bs)"
    using rep as bs ends out by (auto simp: dl_rep_def seg_append seg_Cons m'_def)
  moreover have "frame (set (as @ e # bs)) m m'"
    using as bs by (auto simp: frame_def m'_def)
  ultimately show ?thesis
    using \<open>list_delete l e m = Some (l, m')\<close> by blast
qed

lemma list_delete_rep:
  assumes rep: "dl_rep m l xs" and e: "e \<in> set xs"
  shows "\<exists>l' m'. list_delete l e m = Some (l', m') \<and> dl_rep m' l' (remove1 e xs) \<and>
    frame (set xs) m m'"
proof -
  obtain as bs where xs: "xs = as @ e # bs" and rm: "remove1 e xs = as @ bs"
    using e rep by (metis dl_rep_def remove1_split split_list)
  consider "as = []" "bs = []" | "as = []" "bs \<noteq> []" | "as \<noteq> []" "bs = []" | "as \<noteq> []" "bs \<noteq> []"
    by blast
  then show ?thesis
    unfolding rm using rep list_delete_only_rep list_delete_head_rep list_delete_tail_rep
      list_delete_mid_rep
    by cases (simp_all add: xs)
qed

text \<open>Inserting beside a known element.\<close>

lemma list_insert_back_rep:
  assumes rep: "dl_rep m l (as @ b # bs)" and e: "KERNEL_BASE \<le> e" "e \<notin> set (as @ b # bs)"
  shows "\<exists>l' m'. list_insert_back l b e m = Some (l', m') \<and> dl_rep m' l' (as @ b # e # bs)"
proof -
  have b: "b \<noteq> NULL" "e \<noteq> NULL" "b \<noteq> e" "b \<notin> set as" "b \<notin> set bs" "distinct bs"
    using rep e by (auto simp: dl_rep_def)
  show ?thesis
  proof (cases "bs = []")
    case True
    define m' where "m' = m\<lparr>nxt := (nxt m)(e := NULL, b := e), prv := (prv m)(e := b)\<rparr>"
    have "list_insert_back l b e m = Some (l\<lparr>ltail := e\<rparr>, m')"
      using dl_rep_hd_last [OF rep] rep b True
      by (simp add: list_insert_back_def critical_section link_access m'_def dl_rep_def
          fun_upd_twist)
    moreover have "seg m' as = seg m as"
      using b e by (intro seg_cong) (auto simp: m'_def dest: in_set_butlastD in_set_tl)
    moreover have "as = [] \<or> last as \<noteq> b \<and> last as \<noteq> e"
      using b e last_in_set [of as] by auto
    ultimately have "dl_rep m' (l\<lparr>ltail := e\<rparr>) (as @ b # e # bs)"
      using rep b e True by (auto simp: dl_rep_def seg_append m'_def hd_append_if)
    with \<open>list_insert_back l b e m = _\<close> show ?thesis by blast
  next
    case False
    define m' where
      "m' = m\<lparr>nxt := (nxt m)(e := hd bs, b := e), prv := (prv m)(e := b, hd bs := e)\<rparr>"
    have n: "nxt m b = hd bs" "hd bs \<noteq> NULL" "hd bs \<noteq> e" "hd bs \<noteq> b"
      using rep False e by (auto simp: dl_rep_def seg_append seg_Cons)
    have out: "hd bs \<notin> set as"
      using rep hd_in_set [OF False] by (auto simp: dl_rep_def)
    have "list_insert_back l b e m = Some (l, m')"
      using b n by (simp add: list_insert_back_def critical_section link_access m'_def
          fun_upd_twist)
    moreover have "seg m' as = seg m as"
      using b e out by (intro seg_cong) (auto simp: m'_def dest: in_set_butlastD in_set_tl)
    moreover have "seg m' bs = seg m bs"
      using b e distinct_hd_notin_tl [OF b(6) False]
      by (intro seg_cong) (auto simp: m'_def dest: in_set_butlastD in_set_tl)
    moreover have "last bs \<noteq> b" "last bs \<noteq> e"
      using b e last_in_set [OF False] by auto
    ultimately have "dl_rep m' l (as @ b # e # bs)"
      using rep b n e False
      by (auto simp: dl_rep_def seg_append seg_Cons m'_def hd_append_if)
    with \<open>list_insert_back l b e m = Some (l, m')\<close> show ?thesis by blast
  qed
qed

lemma list_insert_front_rep:
  assumes rep: "dl_rep0 m l (as @ b # bs)" and e: "KERNEL_BASE \<le> e" "e \<notin> set (as @ b # bs)"
  shows "\<exists>l' m'. list_insert_front l b e m = Some (l', m') \<and> dl_rep0 m' l' (as @ e # b # bs)"
proof -
  have rep': "dl_rep m l (as @ b # bs)"
    using rep by (simp add: dl_rep0_def)
  have b: "b \<noteq> NULL" "e \<noteq> NULL" "b \<noteq> e" "b \<notin> set as" "b \<notin> set bs" "distinct as"
    using rep' e by (auto simp: dl_rep_def)
  define m' where
    "m' = (if as = [] then m\<lparr>prv := (prv m)(e := NULL, b := e), nxt := (nxt m)(e := b)\<rparr>
           else m\<lparr>prv := (prv m)(e := last as, b := e), nxt := (nxt m)(e := b, last as := e)\<rparr>)"
  have bs: "seg m' bs = seg m bs" if "last as \<notin> set bs \<or> as = []"
    using b e that by (intro seg_cong) (auto simp: m'_def dest: in_set_butlastD in_set_tl)
  show ?thesis
  proof (cases "as = []")
    case True
    then have "prv m b = NULL"
      using rep by (simp add: dl_rep0_def)
    then have "list_insert_front l b e m = Some (l\<lparr>lhead := e\<rparr>, m')"
      using dl_rep_hd_last [OF rep'] b True
      by (simp add: list_insert_front_def critical_section link_access m'_def fun_upd_twist)
    moreover have "bs = [] \<or> hd bs \<noteq> b \<and> hd bs \<noteq> e"
      using b e hd_in_set [of bs] by auto
    then have "dl_rep0 m' (l\<lparr>lhead := e\<rparr>) (as @ e # b # bs)"
      using rep' b e True bs by (auto simp: dl_rep_def dl_rep0_def seg_Cons m'_def)
    ultimately show ?thesis by blast
  next
    case False
    have p: "prv m b = last as" "last as \<noteq> NULL" "last as \<noteq> e" "last as \<noteq> b" "nxt m (last as) = b"
      using rep' False e b by (auto simp: dl_rep_def seg_append)
    have out: "last as \<notin> set bs" "hd as \<noteq> b" "hd as \<noteq> e"
      using rep' last_in_set [OF False] hd_in_set [OF False] e by (auto simp: dl_rep_def)
    have "list_insert_front l b e m = Some (l, m')"
      using b p False
      by (simp add: list_insert_front_def critical_section link_access m'_def fun_upd_twist)
    moreover have "seg m' as = seg m as"
      using b e distinct_last_notin_butlast [OF b(6) False]
      by (intro seg_cong) (auto simp: m'_def dest: in_set_butlastD in_set_tl)
    ultimately show ?thesis
      using rep rep' b p e out False bs
      by (auto simp: dl_rep_def dl_rep0_def seg_append seg_Cons m'_def hd_append_if)
  qed
qed

text \<open>Moving an element one place towards the head.\<close>

lemma list_forward_rep:
  assumes rep: "dl_rep m l (as @ p # e # bs)"
  shows "\<exists>l' m'. list_forward l e m = Some (l', m') \<and> dl_rep m' l' (as @ e # p # bs)"
proof -
  have pe: "prv m e = p" "p \<noteq> NULL" "e \<noteq> NULL" "p \<noteq> e" "p \<notin> set as" "p \<notin> set bs"
      "e \<notin> set as" "e \<notin> set bs" "nxt m p = e" "distinct as" "distinct bs"
    using rep by (auto simp: dl_rep_def seg_append)
  have ends: "lhead l = (if as = [] then p else hd as)" "ltail l = (if bs = [] then e else last bs)"
      "lhead l \<noteq> NULL" "ltail l \<noteq> NULL"
    using dl_rep_hd_last [OF rep] by (auto simp: hd_append_if)
  have disj: "set as \<inter> set bs = {}"
    using rep by (auto simp: dl_rep_def)
  have null: "NULL \<notin> set as" "NULL \<notin> set bs"
    using dl_rep_not_NULL [OF rep] by auto
  have A: "as \<noteq> [] \<Longrightarrow> hd as \<noteq> p \<and> hd as \<noteq> e \<and> last as \<noteq> p \<and> last as \<noteq> e \<and> last as \<noteq> NULL
      \<and> prv m p = last as \<and> last as \<notin> set bs"
    using rep ends_neq [OF pe(5)] ends_neq [OF pe(7)] ends_neq [OF null(1)] ends_notin [OF disj]
    by (auto simp: dl_rep_def seg_append)
  have B: "bs \<noteq> [] \<Longrightarrow> last bs \<noteq> p \<and> last bs \<noteq> e \<and> hd bs \<noteq> p \<and> hd bs \<noteq> e \<and> hd bs \<noteq> NULL
      \<and> nxt m e = hd bs \<and> hd bs \<notin> set as"
    using rep ends_neq [OF pe(6)] ends_neq [OF pe(8)] ends_neq [OF null(2)]
      ends_notin [of bs as] disj
    by (auto simp: dl_rep_def seg_append seg_Cons)
  have last_next: "bs = [] \<Longrightarrow> nxt m e = NULL" "bs \<noteq> [] \<Longrightarrow> nxt m (last bs) = NULL"
    using rep by (auto simp: dl_rep_def)
  define pv where "pv = (if bs = [] then prv m else (prv m)(hd bs := p))"
  define nx where "nx = (if as = [] then nxt m else (nxt m)(last as := e))"
  define m' where
    "m' = m\<lparr>nxt := nx(p := nx e, e := p), prv := pv(e := pv p, p := e)\<rparr>"
  define l' where
    "l' = l\<lparr>lhead := (if as = [] then e else lhead l), ltail := (if bs = [] then p else ltail l)\<rparr>"
  have "list_forward l e m = Some (l', m')"
    using pe ends A B last_next
    by (cases "as = []"; cases "bs = []")
      (auto simp: list_forward_def critical_section link_access m'_def l'_def nx_def pv_def)
  moreover have "seg m' as = seg m as"
    using pe B distinct_last_notin_butlast [of as]
    by (intro seg_cong)
      (auto simp: m'_def nx_def pv_def dest: in_set_butlastD in_set_tl)
  moreover have "seg m' bs = seg m bs"
    using pe A distinct_hd_notin_tl [of bs]
    by (intro seg_cong)
      (auto simp: m'_def nx_def pv_def dest: in_set_butlastD in_set_tl)
  ultimately have "dl_rep m' l' (as @ e # p # bs)"
    using rep pe ends A B last_next
    by (cases "as = []"; cases "bs = []")
      (auto simp: dl_rep_def seg_append seg_Cons m'_def l'_def nx_def pv_def)
  with \<open>list_forward l e m = Some (l', m')\<close> show ?thesis by blast
qed

text \<open>
  A search that reaches an element whose \<open>next\<close> is itself never ends: no result can be the
  value of the call.
\<close>

lemma list_find_from_self_loop:
  assumes "nx n = n" "n \<noteq> NULL" "n \<noteq> x"
  shows "list_find_from nx n x = None"
proof -
  have "\<not> (nx e = e \<and> e \<noteq> NULL \<and> e \<noteq> x)" if "list_find_from nx e x = Some r" for e r
    by (rule list_find_from.raw_induct [where P = "\<lambda>nx e x r. \<not> (nx e = e \<and> e \<noteq> NULL \<and> e \<noteq> x)",
          OF _ that]) (metis option.distinct(1))
  with assms show ?thesis
    by (cases "list_find_from nx n x") auto
qed

text \<open>
  \<open>list_backward\<close> is not the mirror image of \<open>list_forward\<close>: it reads the links of the two
  elements after it should have read them, and leaves the successor pointing to itself.
\<close>

lemma list_backward_head:
  assumes rep: "dl_rep m l (e # n # bs)"
  shows "\<exists>l' m'. list_backward l e m = Some (l', m') \<and> lhead l' = n \<and> nxt m' n = n"
proof -
  have en: "nxt m e = n" "prv m n = e" "n \<noteq> NULL" "e \<noteq> NULL" "e \<noteq> n" "lhead l = e"
      "n \<notin> set bs" "e \<notin> set bs"
      "ltail l = (if bs = [] then n else last bs)"
    using rep by (auto simp: dl_rep_def)
  show ?thesis
  proof (cases "bs = []")
    case True
    with en show ?thesis
      by (auto simp: list_backward_def critical_section link_access)
  next
    case False
    have h: "nxt m n = hd bs" "hd bs \<noteq> NULL" "last bs \<noteq> NULL"
      using rep False dl_rep_not_NULL [OF rep] ends_neq [of NULL bs] by (auto simp: dl_rep_def seg_Cons)
    have d: "hd bs \<noteq> n" "hd bs \<noteq> e" "last bs \<noteq> e" "last bs \<noteq> n"
      using en False ends_neq by metis+
    show ?thesis
      using False en h d by (auto simp: list_backward_def critical_section link_access)
  qed
qed

text \<open>
  \<open>list_pop_back\<close> hands out the last element, but leaves the \<open>next\<close> link of the new last
  element pointing to it.
\<close>

lemma list_pop_back_single:
  assumes "dl_rep m l [e]"
  shows "\<exists>l'. list_pop_back l m = Some (e, l', m) \<and> dl_rep m l' []"
  using dl_rep_hd_last [OF assms]
  by (simp add: list_pop_back_def critical_section dl_rep_def)

lemma list_pop_back_more:
  assumes rep: "dl_rep m l (xs @ [e])" and xs: "xs \<noteq> []"
  shows "list_pop_back l m = Some (e, l\<lparr>ltail := last xs\<rparr>, m)" and "nxt m (last xs) = e"
proof -
  have "e \<notin> set xs" using rep by (simp add: dl_rep_def)
  then have "hd xs \<noteq> e" using ends_neq xs by metis
  moreover show "nxt m (last xs) = e"
    using rep xs by (auto simp: dl_rep_def seg_append)
  ultimately show "list_pop_back l m = Some (e, l\<lparr>ltail := last xs\<rparr>, m)"
    using rep xs dl_rep_hd_last [OF rep]
    by (auto simp: list_pop_back_def critical_section link_access dl_rep_def seg_append)
qed

text \<open>Insertion in order.\<close>

definition order_le :: "(ptr \<Rightarrow> u32) \<Rightarrow> u32 \<Rightarrow> bool \<Rightarrow> ptr \<Rightarrow> ptr \<Rightarrow> bool" where
  "order_le val offset flag x y =
     (if flag then val (x + offset) \<le> val (y + offset) else val (y + offset) \<le> val (x + offset))"

lemma order_position_rep:
  "seg m xs \<Longrightarrow> \<forall>x \<in> set xs. x \<noteq> NULL \<Longrightarrow> xs \<noteq> [] \<longrightarrow> nxt m (last xs) = NULL \<Longrightarrow>
     order_position (nxt m) val e offset flag (if xs = [] then NULL else hd xs) =
       Some (case dropWhile (\<lambda>x. order_le val offset flag x e) xs of [] \<Rightarrow> NULL | y # _ \<Rightarrow> y)"
proof (induction xs)
  case Nil
  show ?case by (simp add: order_position.simps)
next
  case (Cons x xs)
  have next_eq: "nxt m x = (if xs = [] then NULL else hd xs)"
    using Cons.prems by (intro seg_chain) auto
  have "order_position (nxt m) val e offset flag (nxt m x) =
      Some (case dropWhile (\<lambda>x. order_le val offset flag x e) xs of [] \<Rightarrow> NULL | y # _ \<Rightarrow> y)"
    using Cons by (auto simp: next_eq seg_Cons split: if_splits)
  with Cons.prems show ?case
    by (subst order_position.simps) (auto simp: order_le_def)
qed

lemma dl_rep_eflags [simp]: "dl_rep (m\<lparr>eflags := f\<rparr>) l ys = dl_rep m l ys"
proof -
  have "seg (m\<lparr>eflags := f\<rparr>) ys = seg m ys" by (rule seg_cong) auto
  then show ?thesis by (simp add: dl_rep_def)
qed

lemma insert_in_order_rep:
  assumes rep: "dl_rep0 m l xs" and e: "KERNEL_BASE \<le> e" "e \<notin> set xs"
  shows "\<exists>l' m'. insert_in_order val l e offset flag m = Some (l', m') \<and>
    dl_rep m' l' (takeWhile (\<lambda>x. order_le val offset flag x e) xs @ e #
                  dropWhile (\<lambda>x. order_le val offset flag x e) xs)"
proof -
  let ?le = "\<lambda>x. order_le val offset flag x e"
  define m0 where "m0 = m\<lparr>eflags := set_if INTR_OFF (eflags m)\<rparr>"
  have rep': "dl_rep m l xs" using rep by (simp add: dl_rep0_def)
  have pos: "order_position (nxt m0) val e offset flag (lhead l) =
      Some (case dropWhile ?le xs of [] \<Rightarrow> NULL | y # _ \<Rightarrow> y)"
    using order_position_rep [of m xs val e offset flag] rep' dl_rep_not_NULL [OF rep']
    by (auto simp: m0_def dl_rep_def split: if_splits)
  have restore: "snd (intr_set_status s m') = m'\<lparr>eflags := set_if s (eflags m')\<rparr>" for s m'
    by (rule intr_set_status_eq)
  show ?thesis
  proof (cases "dropWhile ?le xs")
    case Nil
    then have tw: "takeWhile ?le xs = xs"
      by (metis append.right_neutral takeWhile_dropWhile_id)
    have head: "order_position (nxt m0) val e offset flag (lhead l) = Some NULL"
      using pos Nil by (simp only: list.case)
    obtain l' m' where "list_push_back l e m0 = Some (l', m')" "dl_rep m' l' (xs @ [e])"
      using list_push_back_rep [of m0 l xs e] rep' e by (auto simp: m0_def)
    with head show ?thesis
      unfolding Nil tw
      by (auto simp: insert_in_order_def intr_disable_eq restore m0_def [symmetric])
  next
    case (Cons y ys)
    then have y: "y \<noteq> NULL" "xs = takeWhile ?le xs @ y # ys"
      using dl_rep_not_NULL [OF rep']
      by (metis list.set_intros(1) set_dropWhileD, metis takeWhile_dropWhile_id)
    have "dl_rep0 m0 l (takeWhile ?le xs @ y # ys)"
      using rep y(2) by (simp add: dl_rep0_def m0_def)
    then obtain l' m' where "list_insert_front l y e m0 = Some (l', m')"
        "dl_rep m' l' (takeWhile ?le xs @ e # y # ys)"
      using list_insert_front_rep [of m0 l "takeWhile ?le xs" y ys e] e y(2)
      by (metis dl_rep0_def)
    with Cons pos y(1) show ?thesis
      by (auto simp: insert_in_order_def intr_disable_eq restore m0_def [symmetric])
  qed
qed


section \<open>The interface the kernel's queues rely on\<close>

text \<open>
  What the clients of list.c (the scheduler, the locks, the page allocator, the block
  allocator) use: push at either end, pop from the front, delete a known member, each of them
  leaving every other list alone, and insert behind a member or move a member one place forward. \<open>rep\<close> relates the memory and the list header to the
  sequence held, \<open>ok\<close> says which elements may be queued, \<open>fr A\<close> which links may change.
\<close>

datatype 'e list_op = PushBack 'e | PushFront 'e | PopFront | Delete 'e | InsertBack 'e 'e | Forward 'e

text \<open>
  The same on sequences: \<open>insert_behind b e\<close> puts \<open>e\<close> behind the member \<open>b\<close>, \<open>one_forward e\<close>
  exchanges the member \<open>e\<close> with its predecessor.
\<close>

fun insert_behind :: "'e \<Rightarrow> 'e \<Rightarrow> 'e list \<Rightarrow> 'e list" where
  "insert_behind b e [] = []"
| "insert_behind b e (x # xs) = (if x = b then x # e # xs else x # insert_behind b e xs)"

fun one_forward :: "'e \<Rightarrow> 'e list \<Rightarrow> 'e list" where
  "one_forward e (p # x # xs) = (if x = e then x # p # xs else p # one_forward e (x # xs))"
| "one_forward e xs = xs"

lemma insert_behind_split: "b \<notin> set as \<Longrightarrow> insert_behind b e (as @ b # bs) = as @ b # e # bs"
  by (induction as) auto

lemma one_forward_split: "e \<notin> set as \<Longrightarrow> e \<noteq> p \<Longrightarrow> one_forward e (as @ p # e # bs) = as @ e # p # bs"
proof (induction as)
  case (Cons a as)
  then show ?case by (cases as) auto
qed simp

text \<open>
  The sequence after one operation, and the element popped (\<open>nil\<close> from an empty list);
  \<^const>\<open>None\<close> if the operation may not be called.
\<close>

fun abs_op :: "('e \<Rightarrow> bool) \<Rightarrow> 'e \<Rightarrow> 'e list_op \<Rightarrow> 'e list \<Rightarrow> ('e option \<times> 'e list) option" where
  "abs_op ok nil (PushBack e) xs = (if ok e \<and> e \<notin> set xs then Some (None, xs @ [e]) else None)"
| "abs_op ok nil (PushFront e) xs = (if ok e \<and> e \<notin> set xs then Some (None, e # xs) else None)"
| "abs_op ok nil PopFront xs = (case xs of [] \<Rightarrow> Some (Some nil, []) | x # ys \<Rightarrow> Some (Some x, ys))"
| "abs_op ok nil (Delete e) xs = (if e \<in> set xs then Some (None, remove1 e xs) else None)"
| "abs_op ok nil (InsertBack b e) xs =
     (if ok e \<and> e \<notin> set xs \<and> b \<in> set xs then Some (None, insert_behind b e xs) else None)"
| "abs_op ok nil (Forward e) xs = (if e \<in> set (tl xs) then Some (None, one_forward e xs) else None)"

fun abs_run :: "('e \<Rightarrow> bool) \<Rightarrow> 'e \<Rightarrow> 'e list_op list \<Rightarrow> 'e list \<Rightarrow> ('e list \<times> 'e list) option" where
  "abs_run ok nil [] xs = Some ([], xs)"
| "abs_run ok nil (c # cs) xs = do {
     (out, xs') \<leftarrow> abs_op ok nil c xs;
     (outs, xs'') \<leftarrow> abs_run ok nil cs xs';
     Some ((case out of None \<Rightarrow> outs | Some x \<Rightarrow> x # outs), xs'') }"

text \<open>A run of calls, over any implementation of the six operations.\<close>

fun run_op ::
  "('l \<Rightarrow> 'e \<Rightarrow> 's \<Rightarrow> ('l \<times> 's) option) \<Rightarrow> ('l \<Rightarrow> 'e \<Rightarrow> 's \<Rightarrow> ('l \<times> 's) option) \<Rightarrow>
   ('l \<Rightarrow> 's \<Rightarrow> ('e \<times> 'l \<times> 's) option) \<Rightarrow> ('l \<Rightarrow> 'e \<Rightarrow> 's \<Rightarrow> ('l \<times> 's) option) \<Rightarrow>
   ('l \<Rightarrow> 'e \<Rightarrow> 'e \<Rightarrow> 's \<Rightarrow> ('l \<times> 's) option) \<Rightarrow> ('l \<Rightarrow> 'e \<Rightarrow> 's \<Rightarrow> ('l \<times> 's) option) \<Rightarrow>
   'e list_op \<Rightarrow> 'l \<Rightarrow> 's \<Rightarrow> ('e option \<times> 'l \<times> 's) option" where
  "run_op pb pf pop del ib fw (PushBack e) l s = do { (l, s) \<leftarrow> pb l e s; Some (None, l, s) }"
| "run_op pb pf pop del ib fw (PushFront e) l s = do { (l, s) \<leftarrow> pf l e s; Some (None, l, s) }"
| "run_op pb pf pop del ib fw PopFront l s = do { (x, l, s) \<leftarrow> pop l s; Some (Some x, l, s) }"
| "run_op pb pf pop del ib fw (Delete e) l s = do { (l, s) \<leftarrow> del l e s; Some (None, l, s) }"
| "run_op pb pf pop del ib fw (InsertBack b e) l s = do { (l, s) \<leftarrow> ib l b e s; Some (None, l, s) }"
| "run_op pb pf pop del ib fw (Forward e) l s = do { (l, s) \<leftarrow> fw l e s; Some (None, l, s) }"

fun run_ops ::
  "('e list_op \<Rightarrow> 'l \<Rightarrow> 's \<Rightarrow> ('e option \<times> 'l \<times> 's) option) \<Rightarrow>
   'e list_op list \<Rightarrow> 'l \<Rightarrow> 's \<Rightarrow> ('e list \<times> 'l \<times> 's) option" where
  "run_ops step [] l s = Some ([], l, s)"
| "run_ops step (c # cs) l s = do {
     (out, l, s) \<leftarrow> step c l s;
     (outs, l, s) \<leftarrow> run_ops step cs l s;
     Some ((case out of None \<Rightarrow> outs | Some x \<Rightarrow> x # outs), l, s) }"

definition klist_run ::
  "ptr list_op list \<Rightarrow> dlist \<Rightarrow> 'a heap_scheme \<Rightarrow> (ptr list \<times> dlist \<times> 'a heap_scheme) option" where
  "klist_run = run_ops (run_op list_push_back list_push_front list_pop_front list_delete
     list_insert_back list_forward)"

locale intrusive_list =
  fixes rep :: "'s \<Rightarrow> 'l \<Rightarrow> 'e list \<Rightarrow> bool"
    and ok :: "'e \<Rightarrow> bool"
    and nil :: 'e
    and fr :: "'e set \<Rightarrow> 's \<Rightarrow> 's \<Rightarrow> bool"
    and push_back :: "'l \<Rightarrow> 'e \<Rightarrow> 's \<Rightarrow> ('l \<times> 's) option"
    and push_front :: "'l \<Rightarrow> 'e \<Rightarrow> 's \<Rightarrow> ('l \<times> 's) option"
    and pop_front :: "'l \<Rightarrow> 's \<Rightarrow> ('e \<times> 'l \<times> 's) option"
    and delete :: "'l \<Rightarrow> 'e \<Rightarrow> 's \<Rightarrow> ('l \<times> 's) option"
    and insert_back :: "'l \<Rightarrow> 'e \<Rightarrow> 'e \<Rightarrow> 's \<Rightarrow> ('l \<times> 's) option"
    and forward :: "'l \<Rightarrow> 'e \<Rightarrow> 's \<Rightarrow> ('l \<times> 's) option"
  assumes push_back_law: "rep s l xs \<Longrightarrow> ok e \<Longrightarrow> e \<notin> set xs \<Longrightarrow>
      \<exists>l' s'. push_back l e s = Some (l', s') \<and> rep s' l' (xs @ [e]) \<and> fr (insert e (set xs)) s s'"
    and push_front_law: "rep s l xs \<Longrightarrow> ok e \<Longrightarrow> e \<notin> set xs \<Longrightarrow>
      \<exists>l' s'. push_front l e s = Some (l', s') \<and> rep s' l' (e # xs) \<and> fr (insert e (set xs)) s s'"
    and pop_front_law: "rep s l (x # xs) \<Longrightarrow>
      \<exists>l' s'. pop_front l s = Some (x, l', s') \<and> rep s' l' xs \<and> fr (set (x # xs)) s s'"
    and pop_empty_law: "rep s l [] \<Longrightarrow> pop_front l s = Some (nil, l, s)"
    and insert_back_law: "rep s l xs \<Longrightarrow> ok e \<Longrightarrow> e \<notin> set xs \<Longrightarrow> b \<in> set xs \<Longrightarrow>
      \<exists>l' s'. insert_back l b e s = Some (l', s') \<and> rep s' l' (insert_behind b e xs)"
    and forward_law: "rep s l xs \<Longrightarrow> e \<in> set (tl xs) \<Longrightarrow>
      \<exists>l' s'. forward l e s = Some (l', s') \<and> rep s' l' (one_forward e xs)"
    and delete_law: "rep s l xs \<Longrightarrow> e \<in> set xs \<Longrightarrow>
      \<exists>l' s'. delete l e s = Some (l', s') \<and> rep s' l' (remove1 e xs) \<and> fr (set xs) s s'"
    and rep_distinct: "rep s l xs \<Longrightarrow> distinct xs"
    and rep_ok: "rep s l xs \<Longrightarrow> x \<in> set xs \<Longrightarrow> ok x"
    and frame_law: "rep s l ys \<Longrightarrow> fr A s s' \<Longrightarrow> A \<inter> set ys = {} \<Longrightarrow> rep s' l ys"
begin

lemma run_op_simulates:
  assumes "rep s l xs" "abs_op ok nil c xs = Some (out, ys)"
  shows "\<exists>l' s'. run_op push_back push_front pop_front delete insert_back forward c l s = Some (out, l', s') \<and> rep s' l' ys"
proof (cases c)
  case (PushBack e)
  with assms push_back_law [of s l xs e] show ?thesis by (auto split: if_splits)
next
  case (PushFront e)
  with assms push_front_law [of s l xs e] show ?thesis by (auto split: if_splits)
next
  case PopFront
  with assms pop_front_law [of s l "hd xs" "tl xs"] pop_empty_law show ?thesis
    by (auto split: list.splits)
next
  case (Delete e)
  with assms delete_law [of s l xs e] show ?thesis by (auto split: if_splits)
next
  case (InsertBack b e)
  with assms insert_back_law [of s l xs e b] show ?thesis by (auto split: if_splits)
next
  case (Forward e)
  with assms forward_law [of s l xs e] show ?thesis by (auto split: if_splits)
qed

lemma run_simulates:
  "rep s l xs \<Longrightarrow> abs_run ok nil cs xs = Some (outs, ys) \<Longrightarrow>
     \<exists>l' s'. run_ops (run_op push_back push_front pop_front delete insert_back forward) cs l s = Some (outs, l', s') \<and> rep s' l' ys"
proof (induction cs arbitrary: xs l s outs)
  case (Cons c cs)
  from Cons.prems(2) obtain out xs' outs' where
    step: "abs_op ok nil c xs = Some (out, xs')" and rest: "abs_run ok nil cs xs' = Some (outs', ys)"
    and outs: "outs = (case out of None \<Rightarrow> outs' | Some x \<Rightarrow> x # outs')"
    by (auto simp: bind_eq_Some_conv)
  obtain l1 s1 where "run_op push_back push_front pop_front delete insert_back forward c l s = Some (out, l1, s1)" "rep s1 l1 xs'"
    using run_op_simulates [OF Cons.prems(1) step] by blast
  with Cons.IH [OF _ rest] outs show ?case by fastforce
qed simp

text \<open>Waking: the first element of one list becomes the last element of another.\<close>

lemma move_to_back:
  assumes "rep s w (x # ws)" "rep s r rs" "set (x # ws) \<inter> set rs = {}"
  shows "\<exists>w' s1 r' s2. pop_front w s = Some (x, w', s1) \<and> push_back r x s1 = Some (r', s2) \<and>
    rep s2 w' ws \<and> rep s2 r' (rs @ [x])"
proof -
  have x: "x \<notin> set ws" "x \<notin> set rs" "ok x" "set (x # rs) \<inter> set ws = {}"
    using rep_distinct [OF assms(1)] rep_ok [OF assms(1)] assms(3) by auto
  obtain w' s1 where 1: "pop_front w s = Some (x, w', s1)" "rep s1 w' ws" "fr (set (x # ws)) s s1"
    using pop_front_law [OF assms(1)] by blast
  have "rep s1 r rs"
    using frame_law [OF assms(2) 1(3)] assms(3) by blast
  then obtain r' s2 where 2: "push_back r x s1 = Some (r', s2)" "rep s2 r' (rs @ [x])"
      "fr (insert x (set rs)) s1 s2"
    using push_back_law x by blast
  have "rep s2 w' ws"
    using frame_law [OF 1(2) 2(3)] x(4) by simp
  with 1 2 show ?thesis by blast
qed

end

lemma list_insert_behind_rep:
  assumes "dl_rep m l xs" "KERNEL_BASE \<le> e" "e \<notin> set xs" "b \<in> set xs"
  shows "\<exists>l' m'. list_insert_back l b e m = Some (l', m') \<and> dl_rep m' l' (insert_behind b e xs)"
proof -
  obtain as bs where xs: "xs = as @ b # bs" "b \<notin> set as"
    using split_list_first [OF assms(4)] by blast
  show ?thesis
    using list_insert_back_rep [OF assms(1)[unfolded xs(1)] assms(2) assms(3)[unfolded xs(1)]]
    by (simp add: xs insert_behind_split)
qed

lemma list_one_forward_rep:
  assumes "dl_rep m l xs" "e \<in> set (tl xs)"
  shows "\<exists>l' m'. list_forward l e m = Some (l', m') \<and> dl_rep m' l' (one_forward e xs)"
proof -
  obtain p ys where p: "xs = p # ys" "e \<in> set ys"
    using assms(2) by (cases xs) auto
  obtain as bs where ys: "ys = as @ e # bs" "e \<notin> set as"
    using split_list_first [OF p(2)] by blast
  define cs where "cs = butlast (p # as)"
  have xs: "xs = cs @ last (p # as) # e # bs"
    unfolding cs_def p(1) ys(1) by (metis append_Cons append_butlast_last_id append.assoc append_Nil list.distinct(1))
  have "e \<notin> set cs" "e \<noteq> last (p # as)"
    using dl_rep_distinct [OF assms(1)] unfolding xs by auto
  then show ?thesis
    using list_forward_rep [OF assms(1)[unfolded xs]] one_forward_split unfolding xs by metis
qed

interpretation klist: intrusive_list dl_rep "\<lambda>e. KERNEL_BASE \<le> e" NULL frame
  list_push_back list_push_front list_pop_front list_delete list_insert_back list_forward
proof unfold_locales
  show "\<exists>l' s'. list_push_front l e s = Some (l', s') \<and> dl_rep s' l' (e # xs) \<and>
      frame (insert e (set xs)) s s'"
    if "dl_rep s l xs" "KERNEL_BASE \<le> e" "e \<notin> set xs" for s l xs e
    using list_push_front_rep [OF that] by (auto simp: dl_rep0_def)
qed (rule list_push_back_rep list_pop_front_rep list_pop_front_empty list_insert_behind_rep
      list_one_forward_rep list_delete_rep dl_rep_frame dl_rep_distinct
      dl_rep_kernel; assumption)+

section \<open>Properties\<close>

definition heap0 :: heap where
  "heap0 = \<lparr>eflags = 0, nxt = (\<lambda>_. NULL), prv = (\<lambda>_. NULL)\<rparr>"

definition dlist0 :: dlist where
  "dlist0 = \<lparr>lhead = NULL, ltail = NULL\<rparr>"

lemma dlist0_rep: "dl_rep0 heap0 dlist0 []"
  by (simp add: dl_rep0_def dl_rep_def dlist0_def)

text \<open>C6: any run of \<open>list_push_back\<close> and \<open>list_push_front\<close> (of an element not in the list),
  \<open>list_pop_front\<close> (on an empty list it returns NULL), \<open>list_delete\<close> of a member,
  \<open>list_insert_back\<close> behind a member and \<open>list_forward\<close> of a member other than the first does to
  the linked cells what it does to the sequence of the elements: it returns, the elements popped
  are the same, and the links represent the resulting sequence. These six operations are the whole
  claim: \<open>list_pop_back\<close> and \<open>list_backward\<close> leave wrong links behind (shown below), and
  \<open>list_insert_front\<close> and \<open>insert_in_order\<close> need the back link of the first element to be NULL,
  which \<open>list_pop_front\<close> does not restore, and have lemmas of their own.\<close>

theorem list_runs_as_sequence:
  assumes "dl_rep m l xs" "abs_run (\<lambda>e. KERNEL_BASE \<le> e) NULL ops xs = Some (outs, ys)"
  shows "\<exists>l' m'. klist_run ops l m = Some (outs, l', m') \<and> dl_rep m' l' ys"
  unfolding klist_run_def by (rule klist.run_simulates [OF assms])

theorem list_runs_as_sequence_witness:
  "\<exists>l' m'. klist_run [PushBack 0xc0001000, PushFront 0xc0002000, PushBack 0xc0003000,
       InsertBack 0xc0002000 0xc0004000, Forward 0xc0003000, Delete 0xc0001000, PopFront,
       PopFront, PopFront, PopFront] dlist0 heap0 =
     Some ([0xc0002000, 0xc0004000, 0xc0003000, NULL], l', m') \<and> dl_rep m' l' []"
proof -
  have "dl_rep heap0 dlist0 []" using dlist0_rep by (simp add: dl_rep0_def)
  from list_runs_as_sequence [OF this, of "[PushBack 0xc0001000, PushFront 0xc0002000,
       PushBack 0xc0003000, InsertBack 0xc0002000 0xc0004000, Forward 0xc0003000,
       Delete 0xc0001000, PopFront, PopFront, PopFront, PopFront]"
       "[0xc0002000, 0xc0004000, 0xc0003000, NULL]" "[]"]
  show ?thesis by (simp add: KERNEL_BASE_def)
qed

text \<open>\<open>insert_in_order\<close> puts the element into a list in order, and the list stays in order.\<close>

theorem insert_in_order_sorted:
  assumes rep: "dl_rep0 m l xs" and e: "KERNEL_BASE \<le> e" "e \<notin> set xs"
    and sorted: "sorted_wrt (order_le val offset flag) xs"
  shows "\<exists>l' m' ys. insert_in_order val l e offset flag m = Some (l', m') \<and> dl_rep m' l' ys \<and>
    set ys = insert e (set xs) \<and> sorted_wrt (order_le val offset flag) ys"
proof -
  let ?le = "order_le val offset flag"
  let ?a = "takeWhile (\<lambda>x. ?le x e) xs" and ?b = "dropWhile (\<lambda>x. ?le x e) xs"
  have trans: "?le x z" if "?le x y" "?le y z" for x y z
    using that by (auto simp: order_le_def split: if_splits)
  have total: "?le x y \<or> ?le y x" for x y
    by (auto simp: order_le_def)
  have split: "xs = ?a @ ?b" by simp
  have "sorted_wrt ?le (?a @ ?b)" using sorted by simp
  then have ab: "sorted_wrt ?le ?a" "sorted_wrt ?le ?b" "\<forall>x \<in> set ?a. \<forall>y \<in> set ?b. ?le x y"
    unfolding sorted_wrt_append by blast+
  have a: "\<forall>x \<in> set ?a. ?le x e" by (auto dest: set_takeWhileD)
  have b: "\<forall>y \<in> set ?b. ?le e y"
  proof (cases ?b)
    case (Cons y ys)
    have "\<not> ?le y e" using Cons by (metis hd_dropWhile list.discI list.sel(1))
    then have "?le e y" using total by blast
    then show ?thesis using Cons ab(2) trans by auto
  next
    case Nil
    then show ?thesis by (simp only: list.set ball_empty)
  qed
  have "sorted_wrt ?le (?a @ e # ?b)"
    unfolding sorted_wrt_append sorted_wrt.simps list.set using ab a b by blast
  moreover have "set (?a @ e # ?b) = insert e (set xs)"
  proof -
    have "set xs = set ?a \<union> set ?b" by (metis set_append takeWhile_dropWhile_id)
    then show ?thesis by (simp only: set_append list.set Un_insert_right)
  qed
  ultimately show ?thesis using insert_in_order_rep [OF rep e, of val offset flag] by blast
qed

theorem insert_in_order_sorted_witness:
  "\<exists>l' m' ys. insert_in_order (\<lambda>p. p) dlist0 0xc0001000 8 True heap0 = Some (l', m') \<and>
     dl_rep m' l' ys \<and> set ys = {0xc0001000}"
  using insert_in_order_sorted [OF dlist0_rep, of "0xc0001000" "\<lambda>p. p" 8 True]
  by (auto simp: KERNEL_BASE_def)

text \<open>\<open>list_backward\<close> on the first element of a longer list makes the new first element its own
  successor: a later search for any other element never returns.\<close>

theorem list_backward_breaks_search:
  assumes "dl_rep m l (e # n # bs)" "x \<noteq> n"
  shows "\<exists>l' m'. list_backward l e m = Some (l', m') \<and> list_find l' x m' = None"
proof -
  obtain l' m' where b: "list_backward l e m = Some (l', m')" "lhead l' = n" "nxt m' n = n"
    using list_backward_head [OF assms(1)] by blast
  have "n \<noteq> NULL" using dl_rep_not_NULL [OF assms(1)] by auto
  then have "list_find l' x m' = None"
    using list_find_from_self_loop [of "nxt m'" n x] b assms(2) by (simp add: list_find_def)
  with b show ?thesis by blast
qed

lemma two_elements:
  "\<exists>l m. klist_run [PushBack 0xc0001000, PushBack 0xc0002000] dlist0 heap0 = Some ([], l, m) \<and>
     dl_rep m l [0xc0001000, 0xc0002000]"
  unfolding klist_run_def
  by (rule klist.run_simulates [where xs = "[]"])
     (use dlist0_rep in \<open>simp_all add: KERNEL_BASE_def dl_rep0_def\<close>)

theorem list_backward_breaks_search_witness:
  "\<exists>l m l' m'. dl_rep m (l :: dlist) [0xc0001000, 0xc0002000] \<and>
     list_backward l 0xc0001000 (m :: heap) = Some (l', m') \<and> list_find l' 0xc0001000 m' = None"
proof -
  obtain l and m :: heap where "dl_rep m l [0xc0001000, 0xc0002000]" using two_elements by blast
  with list_backward_breaks_search [OF this, of "0xc0001000"] show ?thesis by auto
qed

text \<open>\<open>list_pop_back\<close> from a list of several elements leaves the link to the popped element: the
  element is still found afterwards.\<close>

theorem list_pop_back_still_found:
  assumes "dl_rep m l (xs @ [e])" "xs \<noteq> []"
  shows "\<exists>l' m'. list_pop_back l m = Some (e, l', m') \<and> ltail l' = last xs \<and> list_find l' e m' = Some True"
proof -
  have "list_pop_back l m = Some (e, l\<lparr>ltail := last xs\<rparr>, m)"
    by (rule list_pop_back_more(1) [OF assms])
  moreover have "list_find (l\<lparr>ltail := last xs\<rparr>) e m = list_find l e m"
    by (simp add: list_find_def)
  ultimately show ?thesis using list_find_rep [OF assms(1), of e] by simp
qed

theorem list_pop_back_still_found_witness:
  "\<exists>l m l' m'. dl_rep m (l :: dlist) [0xc0001000, 0xc0002000] \<and>
     list_pop_back l (m :: heap) = Some (0xc0002000, l', m') \<and> list_find l' 0xc0002000 m' = Some True"
proof -
  obtain l and m :: heap where "dl_rep m l [0xc0001000, 0xc0002000]" using two_elements by blast
  with list_pop_back_still_found [of m l "[0xc0001000]" "0xc0002000"] show ?thesis by auto
qed

end
