(* ===== verification/Sync.thy ===== *)
theory Sync
  imports DList
begin

text \<open>
  kernel/sync.c and the part of kernel/kthread.c it calls: spin locks, semaphores, mutexes,
  condition variables and reader/writer locks over the scheduler's ready list. A wait list is
  the sequence of the waiting threads; theory DList shows that list.c implements the
  operations used on it (\<open>klist.move_to_back\<close> for a wake-up).

  Every function works on the lock and on the system state \<open>sys\<close>. A call that finds the lock
  taken goes to sleep inside \<open>thread_block\<close>: as a call it does not return (\<^const>\<open>None\<close>). What the
  critical sections of the sleeping calls do, and how calls of several threads interleave, is
  the subject of theory Lock_Protocol, which runs the same section functions.
\<close>

section \<open>Threads\<close>

type_synonym tid = ptr

datatype task_state = RUNNING | READY | BLOCKED | EXIT

record sys = cpu +
  current :: tid
  ready_list :: "tid list"
  tstate :: "tid \<Rightarrow> task_state"

definition thread_unblock :: "tid \<Rightarrow> 'a sys_scheme \<Rightarrow> 'a sys_scheme" where
  "thread_unblock blocked k =
     (let (old, k) = intr_disable k;
          k = k\<lparr>tstate := (tstate k)(blocked := READY)\<rparr>;
          k = k\<lparr>ready_list := ready_list k @ [blocked]\<rparr>
      in snd (intr_set_status old k))"

lemma thread_unblock_eq:
  "thread_unblock t k =
     k\<lparr>tstate := (tstate k)(t := READY), ready_list := ready_list k @ [t]\<rparr>"
  by (simp add: thread_unblock_def critical_section)

text \<open>The first half of \<open>thread_block\<close>, before it gives up the processor in \<open>schedule\<close>.\<close>

definition mark_blocked :: "'a sys_scheme \<Rightarrow> 'a sys_scheme" where
  "mark_blocked k = k\<lparr>tstate := (tstate k)(current k := BLOCKED)\<rparr>"

text \<open>\<open>list_pop_front\<close> on a wait list: NULL from an empty one.\<close>

fun pop_waiter :: "tid list \<Rightarrow> tid \<times> tid list" where
  "pop_waiter [] = (NULL, [])"
| "pop_waiter (t # ts) = (t, ts)"

section \<open>Spin locks\<close>

record slock =
  sl_is_lock :: atomic_t

definition slock_init :: "slock \<Rightarrow> slock" where
  "slock_init sl = sl\<lparr>sl_is_lock := atomic_set 0 (sl_is_lock sl)\<rparr>"

text \<open>One round of the loop of \<open>slock_lock\<close>: the exchange, \<open>True\<close> if it has to yield and retry.\<close>

definition slock_try :: "slock \<Rightarrow> bool \<times> slock" where
  "slock_try sl =
     (let (old, a) = atomic_xchg_return (sl_is_lock sl) 1 in (old \<noteq> 0, sl\<lparr>sl_is_lock := a\<rparr>))"

definition slock_unlock :: "slock \<Rightarrow> slock option" where
  "slock_unlock sl =
     (let (old, a) = atomic_xchg_return (sl_is_lock sl) 0
      in do { ASSERT (old \<noteq> 0); Some (sl\<lparr>sl_is_lock := a\<rparr>) })"

section \<open>Mutexes\<close>

record mutex =
  is_lock :: bool
  m_wait :: "tid list"
  holder :: tid
  repeat :: u32

definition mutex_lock_init :: mutex where
  "mutex_lock_init = \<lparr>is_lock = False, m_wait = [], holder = NULL, repeat = 0\<rparr>"

text \<open>
  The critical section of \<open>mutex_acquire\<close>: exchange the flag, and enter the wait list when it
  was set. \<open>True\<close> means the thread goes on to \<open>thread_block\<close>, and to another round after it.
\<close>

definition mutex_try :: "tid \<Rightarrow> mutex \<Rightarrow> bool \<times> mutex" where
  "mutex_try t m =
     (let flag = is_lock m;
          m = m\<lparr>is_lock := True\<rparr>
      in if flag then (True, m\<lparr>m_wait := m_wait m @ [t]\<rparr>) else (False, m))"

definition mutex_own :: "tid \<Rightarrow> mutex \<Rightarrow> mutex" where
  "mutex_own t m = m\<lparr>holder := t, repeat := 1\<rparr>"

definition mutex_acquire :: "'a sys_scheme \<Rightarrow> mutex \<Rightarrow> ('a sys_scheme \<times> mutex) option" where
  "mutex_acquire k m =
     (if holder m = current k then Some (k, m\<lparr>repeat := repeat m + 1\<rparr>)
      else (let (old, k) = intr_disable k;
                (flag, m) = mutex_try (current k) m
            in if flag then None
               else Some (snd (intr_set_status old k), mutex_own (current k) m)))"

text \<open>The critical section of \<open>mutex_release\<close>: clear the flag, take the first waiter.\<close>

definition mutex_unlock :: "mutex \<Rightarrow> (tid \<times> mutex) option" where
  "mutex_unlock m =
     (let flag = is_lock m;
          m = m\<lparr>is_lock := False\<rparr>
      in do {
           ASSERT flag;
           let (elem, ws) = pop_waiter (m_wait m);
           Some (elem, m\<lparr>m_wait := ws\<rparr>) })"

definition mutex_release :: "'a sys_scheme \<Rightarrow> mutex \<Rightarrow> ('a sys_scheme \<times> mutex) option" where
  "mutex_release k m = do {
     ASSERT (holder m = current k);
     let m = m\<lparr>repeat := repeat m - 1\<rparr>;
     if repeat m = 0
     then do {
       let m = m\<lparr>holder := NULL\<rparr>;
       let (old, k) = intr_disable k;
       (elem, m) \<leftarrow> mutex_unlock m;
       let k = snd (intr_set_status old k);
       Some (if elem \<noteq> NULL then thread_unblock elem k else k, m) }
     else Some (k, m) }"

definition mutex_lock_destory :: "mutex \<Rightarrow> unit option" where
  "mutex_lock_destory m = ASSERT (m_wait m = [])"

text \<open>
  The lock as its holder sees it when nobody else wants it: \<open>mutex_at t n\<close> is free for
  \<open>n = 0\<close> and held \<open>n\<close> times by \<open>t\<close> otherwise.
\<close>

definition mutex_at :: "tid \<Rightarrow> nat \<Rightarrow> mutex" where
  "mutex_at t n =
     (if n = 0 then \<lparr>is_lock = False, m_wait = [], holder = NULL, repeat = 0\<rparr>
      else \<lparr>is_lock = True, m_wait = [], holder = t, repeat = of_nat n\<rparr>)"

lemma mutex_init_at: "mutex_lock_init = mutex_at t 0"
  by (simp add: mutex_lock_init_def mutex_at_def)

lemma of_nat_u32_eq_0: "n < 2 ^ 32 \<Longrightarrow> (of_nat n :: u32) = 0 \<longleftrightarrow> n = 0"
  by (auto simp: word_of_nat_eq_0_iff dest: dvd_imp_le)

lemma mutex_acquire_at:
  assumes "current k \<noteq> NULL"
  shows "mutex_acquire k (mutex_at (current k) n) = Some (k, mutex_at (current k) (Suc n))"
  using assms by (simp add: mutex_acquire_def mutex_at_def mutex_try_def mutex_own_def
      critical_section add.commute)

lemma mutex_release_at:
  assumes "Suc n < 2 ^ 32"
  shows "mutex_release k (mutex_at (current k) (Suc n)) = Some (k, mutex_at (current k) n)"
proof -
  have "(of_nat (Suc n) :: u32) - 1 = of_nat n" by simp
  moreover have "(of_nat n :: u32) = 0 \<longleftrightarrow> n = 0"
    using assms by (intro of_nat_u32_eq_0) simp
  ultimately show ?thesis
    by (simp add: mutex_release_def mutex_at_def mutex_unlock_def critical_section)
qed

section \<open>Semaphores\<close>

record sem =
  s_count :: atomic_t
  s_wait :: "tid list"

definition sema_init :: "int \<Rightarrow> sem" where
  "sema_init v = \<lparr>s_count = atomic_set v \<lparr>counter = 0\<rparr>, s_wait = []\<rparr>"

text \<open>
  \<open>sema_post\<close> is one atomic increment followed, when the result is not positive, by a critical
  section that wakes the first waiter. The section does not look whether there is one: the
  NULL of an empty list would be turned into a task pointer and written through.
\<close>

definition sema_post_inc :: "sem \<Rightarrow> bool \<times> sem" where
  "sema_post_inc s =
     (let (pos, c) = atomic_inc_and_setg (s_count s) in (\<not> pos, s\<lparr>s_count := c\<rparr>))"

definition sema_post_pop :: "sem \<Rightarrow> (tid \<times> sem) option" where
  "sema_post_pop s =
     (let (elem, ws) = pop_waiter (s_wait s)
      in do { ASSERT (elem \<noteq> NULL); Some (elem, s\<lparr>s_wait := ws\<rparr>) })"

definition sema_post :: "'a sys_scheme \<Rightarrow> sem \<Rightarrow> ('a sys_scheme \<times> sem) option" where
  "sema_post k s =
     (let (wake, s) = sema_post_inc s
      in if wake
         then do {
           let (old, k) = intr_disable k;
           (elem, s) \<leftarrow> sema_post_pop s;
           let k = thread_unblock elem k;
           Some (snd (intr_set_status old k), s) }
         else Some (k, s))"

text \<open>The critical section of \<open>sema_wait\<close>: \<open>True\<close> if the thread goes on to \<open>thread_block\<close>.\<close>

definition sema_wait_section :: "tid \<Rightarrow> sem \<Rightarrow> bool \<times> sem" where
  "sema_wait_section t s =
     (let (ge, c) = atomic_dec_and_setge (s_count s);
          s = s\<lparr>s_count := c\<rparr>
      in if \<not> ge then (True, s\<lparr>s_wait := s_wait s @ [t]\<rparr>) else (False, s))"

definition sema_wait :: "'a sys_scheme \<Rightarrow> sem \<Rightarrow> ('a sys_scheme \<times> sem) option" where
  "sema_wait k s =
     (let (old, k) = intr_disable k;
          (sleep, s) = sema_wait_section (current k) s
      in if sleep then None else Some (snd (intr_set_status old k), s))"

definition sema_trywait :: "'a sys_scheme \<Rightarrow> sem \<Rightarrow> bool \<times> 'a sys_scheme \<times> sem" where
  "sema_trywait k s =
     (let (old, k) = intr_disable k;
          (ge, c) = atomic_dec_and_setge (s_count s);
          (success, c) = (if \<not> ge then (False, atomic_inc c) else (True, c))
      in (success, snd (intr_set_status old k), s\<lparr>s_count := c\<rparr>))"

definition sema_destory :: "sem \<Rightarrow> unit option" where
  "sema_destory s = ASSERT (s_wait s = [])"

section \<open>Condition variables\<close>

record cond =
  c_wait :: "tid list"

definition cond_init :: cond where
  "cond_init = \<lparr>c_wait = []\<rparr>"

text \<open>
  \<open>cond_wait\<close> always sleeps. Its critical section releases the mutex and enters the wait list
  in one go; after the wake-up the thread runs \<open>mutex_acquire\<close> on the mutex.
\<close>

definition cond_wait_section ::
  "'a sys_scheme \<Rightarrow> cond \<Rightarrow> mutex \<Rightarrow> ('a sys_scheme \<times> cond \<times> mutex) option" where
  "cond_wait_section k c m = do {
     let (old, k) = intr_disable k;
     ASSERT (current k \<notin> set (c_wait c));
     (k, m) \<leftarrow> mutex_release k m;
     let c = c\<lparr>c_wait := c_wait c @ [current k]\<rparr>;
     Some (mark_blocked k, c, m) }"

definition cond_signal :: "'a sys_scheme \<Rightarrow> cond \<Rightarrow> 'a sys_scheme \<times> cond" where
  "cond_signal k c =
     (let (old, k) = intr_disable k;
          (k, c) = (if c_wait c \<noteq> []
            then (let (elem, ws) = pop_waiter (c_wait c)
                  in (thread_unblock elem k, c\<lparr>c_wait := ws\<rparr>))
            else (k, c))
      in (snd (intr_set_status old k), c))"

fun wake_all :: "tid list \<Rightarrow> 'a sys_scheme \<Rightarrow> 'a sys_scheme" where
  "wake_all [] k = k"
| "wake_all (t # ts) k = wake_all ts (thread_unblock t k)"

definition cond_broadcast :: "'a sys_scheme \<Rightarrow> cond \<Rightarrow> 'a sys_scheme \<times> cond" where
  "cond_broadcast k c =
     (let (old, k) = intr_disable k;
          k = wake_all (c_wait c) k
      in (snd (intr_set_status old k), c\<lparr>c_wait := []\<rparr>))"

section \<open>Reader/writer locks\<close>

record rwlock =
  read_waiter_list :: "tid list"
  write_waiter_list :: "tid list"
  rw_count :: int
  ready_write :: bool

definition rwlock_init :: rwlock where
  "rwlock_init =
     \<lparr>read_waiter_list = [], write_waiter_list = [], rw_count = 0, ready_write = False\<rparr>"

text \<open>One round of the waiting loops: \<open>True\<close> if the thread sleeps and tries again when woken.\<close>

definition rwlock_read_try :: "tid \<Rightarrow> rwlock \<Rightarrow> bool \<times> rwlock" where
  "rwlock_read_try t rw =
     (if rw_count rw < 0 \<or> ready_write rw
      then (True, rw\<lparr>read_waiter_list := read_waiter_list rw @ [t]\<rparr>)
      else (False, rw\<lparr>rw_count := rw_count rw + 1\<rparr>))"

definition rwlock_read_acquire :: "'a sys_scheme \<Rightarrow> rwlock \<Rightarrow> ('a sys_scheme \<times> rwlock) option" where
  "rwlock_read_acquire k rw =
     (let (old, k) = intr_disable k;
          (sleep, rw) = rwlock_read_try (current k) rw
      in if sleep then None else Some (snd (intr_set_status old k), rw))"

definition rwlock_read_release :: "'a sys_scheme \<Rightarrow> rwlock \<Rightarrow> ('a sys_scheme \<times> rwlock) option" where
  "rwlock_read_release k rw = do {
     let (old, k) = intr_disable k;
     ASSERT (0 < rw_count rw);
     let rw = rw\<lparr>rw_count := rw_count rw - 1\<rparr>;
     let (k, rw) =
       (if rw_count rw = 0 then
          (if write_waiter_list rw \<noteq> []
           then (let (elem, ws) = pop_waiter (write_waiter_list rw)
                 in (thread_unblock elem k, rw\<lparr>write_waiter_list := ws\<rparr>))
           else if read_waiter_list rw \<noteq> []
           then (let (elem, ws) = pop_waiter (read_waiter_list rw)
                 in (thread_unblock elem k, rw\<lparr>read_waiter_list := ws\<rparr>))
           else (k, rw))
        else (k, rw));
     Some (snd (intr_set_status old k), rw) }"

definition rwlock_write_try :: "tid \<Rightarrow> rwlock \<Rightarrow> bool \<times> rwlock" where
  "rwlock_write_try t rw =
     (if rw_count rw \<noteq> 0
      then (True, rw\<lparr>ready_write := True, write_waiter_list := write_waiter_list rw @ [t]\<rparr>)
      else (False, rw\<lparr>rw_count := rw_count rw - 1\<rparr>))"

definition rwlock_write_acquire :: "'a sys_scheme \<Rightarrow> rwlock \<Rightarrow> ('a sys_scheme \<times> rwlock) option" where
  "rwlock_write_acquire k rw =
     (let (old, k) = intr_disable k;
          (sleep, rw) = rwlock_write_try (current k) rw
      in if sleep then None else Some (snd (intr_set_status old k), rw))"

definition rwlock_write_release :: "'a sys_scheme \<Rightarrow> rwlock \<Rightarrow> ('a sys_scheme \<times> rwlock) option" where
  "rwlock_write_release k rw = do {
     let (old, k) = intr_disable k;
     ASSERT (rw_count rw = - 1 \<and> ready_write rw);
     let rw = rw\<lparr>rw_count := rw_count rw + 1\<rparr>;
     let (k, rw) =
       (if write_waiter_list rw \<noteq> []
        then (let (elem, ws) = pop_waiter (write_waiter_list rw)
              in (thread_unblock elem k, rw\<lparr>write_waiter_list := ws\<rparr>))
        else (wake_all (read_waiter_list rw) k,
              rw\<lparr>ready_write := False, read_waiter_list := []\<rparr>));
     Some (snd (intr_set_status old k), rw) }"

lemma wake_all_eq:
  "wake_all ts k = k\<lparr>tstate := (\<lambda>t. if t \<in> set ts then READY else tstate k t),
                     ready_list := ready_list k @ ts\<rparr>"
proof (induction ts arbitrary: k)
  case (Cons t ts)
  show ?case
    by (simp add: Cons thread_unblock_eq) (rule arg_cong [where f = "\<lambda>f. k\<lparr>tstate := f, ready_list := _\<rparr>"], auto)
qed simp

lemma sema_trywait_spec:
  "sema_trywait k s =
     (0 < atomic_read (s_count s), k,
      if 0 < atomic_read (s_count s) then s\<lparr>s_count := atomic_dec (s_count s)\<rparr> else s)"
proof -
  have "atomic_dec_and_setge c = (0 < atomic_read c, atomic_dec c)" for c
    using atomic_dec_and_setge_fst [of c]
    by (intro prod_eqI) (simp_all add: atomic_dec_and_setge_def atomic_dec_def split_def)
  moreover have "atomic_inc (atomic_dec c) = c" for c
    by (simp add: atomic_inc_def atomic_dec_def)
  ultimately show ?thesis
    by (simp add: sema_trywait_def critical_section)
qed

end
