(* ===== verification/Lock_Protocol.thy ===== *)
theory Lock_Protocol
  imports Sync
begin

text \<open>
  Interleavings of the lock operations of kernel/sync.c. A thread gives up the processor only
  where interrupts are enabled, so one step of the relations below is what a thread does between
  two such points: a critical section of theory Sync, or a single instruction. The sections are
  the functions of theory Sync themselves.

  Shown: a mutex has at most one owner, none of its assertions fails, and no wake-up is lost; a
  semaphore lets at most as many threads pass as its initial value and the posts allow, and
  \<open>sema_post\<close> never takes a waiter from an empty list; readers and writers of a reader/writer
  lock exclude each other.
\<close>

section \<open>Mutex\<close>

text \<open>
  Where a thread is in the code of \<open>mutex_acquire\<close> and \<open>mutex_release\<close>: before the exchange
  (\<open>MTry\<close>), in \<open>thread_block\<close> (\<open>MBlocked\<close>), after a successful exchange (\<open>MWon\<close>), between acquire
  and release (\<open>MHold\<close>), after \<open>holder = NULL\<close> (\<open>MRelease\<close>), and before the \<open>thread_unblock\<close> of
  the waiter it took (\<open>MWake\<close>).
\<close>

datatype mphase = MIdle | MTry | MBlocked | MWon | MHold | MRelease | MWake tid

record mstate =
  mtx :: mutex
  mph :: "tid \<Rightarrow> mphase"

definition m_init :: mstate where
  "m_init = \<lparr>mtx = mutex_lock_init, mph = (\<lambda>_. MIdle)\<rparr>"

abbreviation m_goto :: "mstate \<Rightarrow> mutex \<Rightarrow> tid \<Rightarrow> mphase \<Rightarrow> mstate" where
  "m_goto s m t p \<equiv> s\<lparr>mtx := m, mph := (mph s)(t := p)\<rparr>"

inductive m_step :: "mstate \<Rightarrow> mstate \<Rightarrow> bool" where
  enter: "mph s t = MIdle \<Longrightarrow> t \<noteq> NULL \<Longrightarrow> holder (mtx s) \<noteq> t \<Longrightarrow> m_step s (m_goto s (mtx s) t MTry)"
| again: "mph s t = MHold \<Longrightarrow> holder (mtx s) = t \<Longrightarrow>
    m_step s (m_goto s ((mtx s)\<lparr>repeat := repeat (mtx s) + 1\<rparr>) t MHold)"
| attempt: "mph s t = MTry \<Longrightarrow> mutex_try t (mtx s) = (sleep, m) \<Longrightarrow>
    m_step s (m_goto s m t (if sleep then MBlocked else MWon))"
| own: "mph s t = MWon \<Longrightarrow> m_step s (m_goto s (mutex_own t (mtx s)) t MHold)"
| release: "mph s t = MHold \<Longrightarrow> holder (mtx s) = t \<Longrightarrow> m = (mtx s)\<lparr>repeat := repeat (mtx s) - 1\<rparr> \<Longrightarrow>
    m_step s (if repeat m = 0 then m_goto s (m\<lparr>holder := NULL\<rparr>) t MRelease else m_goto s m t MHold)"
| unlock: "mph s t = MRelease \<Longrightarrow> mutex_unlock (mtx s) = Some (elem, m) \<Longrightarrow>
    m_step s (m_goto s m t (if elem \<noteq> NULL then MWake elem else MIdle))"
| wake: "mph s t = MWake u \<Longrightarrow> m_step s (s\<lparr>mph := (mph s)(t := MIdle, u := MTry)\<rparr>)"

text \<open>The two assertions: of the holder in \<open>mutex_release\<close>, and of the flag in the exchange.\<close>

definition m_panics :: "mstate \<Rightarrow> tid \<Rightarrow> bool" where
  "m_panics s t \<longleftrightarrow> (mph s t = MHold \<and> holder (mtx s) \<noteq> t) \<or>
     (mph s t = MRelease \<and> mutex_unlock (mtx s) = None)"

inductive m_reach :: "mstate \<Rightarrow> bool" where
  m_reach_init: "m_reach m_init"
| m_reach_step: "m_reach s \<Longrightarrow> m_step s s' \<Longrightarrow> m_reach s'"

inductive_cases m_stepE: "m_step s s'"

definition owns :: "mphase \<Rightarrow> bool" where
  "owns p \<longleftrightarrow> p = MWon \<or> p = MHold \<or> p = MRelease"

lemma owns_simps [simp]: "owns MWon" "owns MHold" "owns MRelease" "\<not> owns MIdle" "\<not> owns MTry"
  "\<not> owns MBlocked" "\<not> owns (MWake u)"
  by (simp_all add: owns_def)

text \<open>Who owns the lock, and who waits for it.\<close>

definition m_owner_inv :: "mstate \<Rightarrow> bool" where
  "m_owner_inv s \<longleftrightarrow>
     (\<forall>t u. owns (mph s t) \<longrightarrow> owns (mph s u) \<longrightarrow> t = u) \<and>
     (is_lock (mtx s) \<longleftrightarrow> (\<exists>t. owns (mph s t))) \<and>
     (\<forall>t. mph s t = MHold \<longrightarrow> holder (mtx s) = t) \<and>
     (holder (mtx s) \<noteq> NULL \<longrightarrow> mph s (holder (mtx s)) = MHold) \<and>
     (\<forall>t. mph s t \<noteq> MIdle \<longrightarrow> t \<noteq> NULL)"

definition m_wait_inv :: "mstate \<Rightarrow> bool" where
  "m_wait_inv s \<longleftrightarrow>
     distinct (m_wait (mtx s)) \<and>
     (\<forall>t. t \<in> set (m_wait (mtx s)) \<longrightarrow> mph s t = MBlocked) \<and>
     (\<forall>t u. mph s u = MWake t \<longrightarrow> mph s t = MBlocked) \<and>
     (\<forall>t. mph s t = MBlocked \<longrightarrow> t \<in> set (m_wait (mtx s)) \<or> (\<exists>u. mph s u = MWake t)) \<and>
     (\<forall>t u. t \<in> set (m_wait (mtx s)) \<longrightarrow> mph s u \<noteq> MWake t) \<and>
     (\<forall>t u v. mph s t = MWake v \<longrightarrow> mph s u = MWake v \<longrightarrow> t = u) \<and>
     (m_wait (mtx s) \<noteq> [] \<longrightarrow> is_lock (mtx s) \<or> (\<exists>t. mph s t = MTry) \<or> (\<exists>t u. mph s t = MWake u))"

lemma m_inv_init: "m_owner_inv m_init" "m_wait_inv m_init"
  by (simp_all add: m_owner_inv_def m_wait_inv_def m_init_def mutex_lock_init_def)

lemma mutex_try_eq:
  "mutex_try t m = (is_lock m, if is_lock m then m\<lparr>is_lock := True, m_wait := m_wait m @ [t]\<rparr> else m\<lparr>is_lock := True\<rparr>)"
  by (simp add: mutex_try_def)

lemma mutex_unlock_eq:
  "mutex_unlock m = (if is_lock m then Some (case m_wait m of [] \<Rightarrow> (NULL, m\<lparr>is_lock := False, m_wait := []\<rparr>)
     | w # ws \<Rightarrow> (w, m\<lparr>is_lock := False, m_wait := ws\<rparr>)) else None)"
  by (cases "m_wait m") (simp_all add: mutex_unlock_def Let_def)

lemma m_owner_parts:
  assumes "m_owner_inv s"
  shows "\<forall>t u. owns (mph s t) \<longrightarrow> owns (mph s u) \<longrightarrow> t = u" "is_lock (mtx s) \<longleftrightarrow> (\<exists>t. owns (mph s t))"
    "\<forall>t. mph s t = MHold \<longrightarrow> holder (mtx s) = t" "holder (mtx s) \<noteq> NULL \<longrightarrow> mph s (holder (mtx s)) = MHold"
    "\<forall>t. mph s t \<noteq> MIdle \<longrightarrow> t \<noteq> NULL"
  using assms unfolding m_owner_inv_def by - (elim conjE, assumption)+

lemmas m_ownerD = m_owner_parts [rule_format]

lemma m_ownerI:
  assumes "\<And>t u. owns (mph s t) \<Longrightarrow> owns (mph s u) \<Longrightarrow> t = u" "is_lock (mtx s) \<longleftrightarrow> (\<exists>t. owns (mph s t))"
    "\<And>t. mph s t = MHold \<Longrightarrow> holder (mtx s) = t" "holder (mtx s) \<noteq> NULL \<Longrightarrow> mph s (holder (mtx s)) = MHold"
    "\<And>t. mph s t \<noteq> MIdle \<Longrightarrow> t \<noteq> NULL"
  shows "m_owner_inv s"
  unfolding m_owner_inv_def
  by (intro conjI allI impI) (erule (1) assms(1), rule assms(2), erule assms(3), erule assms(4), erule assms(5))

lemma m_wait_parts:
  assumes "m_wait_inv s"
  shows "distinct (m_wait (mtx s))" "\<forall>t. t \<in> set (m_wait (mtx s)) \<longrightarrow> mph s t = MBlocked"
    "\<forall>t u. mph s u = MWake t \<longrightarrow> mph s t = MBlocked"
    "\<forall>t. mph s t = MBlocked \<longrightarrow> t \<in> set (m_wait (mtx s)) \<or> (\<exists>u. mph s u = MWake t)"
    "\<forall>t u. t \<in> set (m_wait (mtx s)) \<longrightarrow> mph s u \<noteq> MWake t"
    "\<forall>t u v. mph s t = MWake v \<longrightarrow> mph s u = MWake v \<longrightarrow> t = u"
    "m_wait (mtx s) \<noteq> [] \<longrightarrow> is_lock (mtx s) \<or> (\<exists>t. mph s t = MTry) \<or> (\<exists>t u. mph s t = MWake u)"
  using assms unfolding m_wait_inv_def by - (elim conjE, assumption)+

lemmas m_waitD = m_wait_parts [rule_format]

lemma m_waitI:
  assumes "distinct (m_wait (mtx s))" "\<And>t. t \<in> set (m_wait (mtx s)) \<Longrightarrow> mph s t = MBlocked"
    "\<And>t u. mph s u = MWake t \<Longrightarrow> mph s t = MBlocked"
    "\<And>t. mph s t = MBlocked \<Longrightarrow> t \<in> set (m_wait (mtx s)) \<or> (\<exists>u. mph s u = MWake t)"
    "\<And>t u. t \<in> set (m_wait (mtx s)) \<Longrightarrow> mph s u \<noteq> MWake t"
    "\<And>t u v. mph s t = MWake v \<Longrightarrow> mph s u = MWake v \<Longrightarrow> t = u"
    "m_wait (mtx s) \<noteq> [] \<Longrightarrow> is_lock (mtx s) \<or> (\<exists>t. mph s t = MTry) \<or> (\<exists>t u. mph s t = MWake u)"
  shows "m_wait_inv s"
  unfolding m_wait_inv_def
  by (intro conjI allI impI) (rule assms(1), erule assms(2), erule assms(3), erule assms(4), erule assms(5),
      erule (1) assms(6), erule assms(7))

text \<open>A step that moves one thread from a phase outside the wait protocol to another such phase.\<close>

lemma m_wait_move:
  assumes inv: "m_wait_inv s" and start: "mph s t \<noteq> MBlocked" "\<And>u. mph s t \<noteq> MWake u"
    and to: "p \<noteq> MBlocked" "\<And>u. p \<noteq> MWake u"
    and m: "m_wait m = m_wait (mtx s)"
    and live: "m_wait m \<noteq> [] \<Longrightarrow> is_lock m \<or> p = MTry \<or> (\<exists>t' u. t' \<noteq> t \<and> (mph s t' = MTry \<or> mph s t' = MWake u))"
  shows "m_wait_inv (m_goto s m t p)"
proof (rule m_waitI)
  note D = m_waitD [OF inv]
  show "distinct (m_wait (mtx (m_goto s m t p)))" using D(1) m by simp
  show "mph (m_goto s m t p) x = MBlocked" if "x \<in> set (m_wait (mtx (m_goto s m t p)))" for x
    using that m D(2) [of x] start by auto
  show "mph (m_goto s m t p) x = MBlocked" if "mph (m_goto s m t p) u = MWake x" for x u
    using that D(3) [of u x] start to by (auto split: if_splits)
  show "x \<in> set (m_wait (mtx (m_goto s m t p))) \<or> (\<exists>u. mph (m_goto s m t p) u = MWake x)"
    if "mph (m_goto s m t p) x = MBlocked" for x
  proof -
    have x: "x \<noteq> t" "mph s x = MBlocked" using that to by (auto split: if_splits)
    then consider "x \<in> set (m_wait (mtx s))" | u where "mph s u = MWake x" using D(4) by blast
    then show ?thesis
    proof cases
      case (2 u)
      then have "u \<noteq> t" using start by auto
      then show ?thesis using 2 by auto
    qed (simp add: m)
  qed
  show "mph (m_goto s m t p) u \<noteq> MWake x" if "x \<in> set (m_wait (mtx (m_goto s m t p)))" for x u
    using that D(5) [of x u] to m by auto
  show "x = u" if "mph (m_goto s m t p) x = MWake v" "mph (m_goto s m t p) u = MWake v" for x u v
    using that D(6) to by (auto split: if_splits)
  show "is_lock (mtx (m_goto s m t p)) \<or> (\<exists>x. mph (m_goto s m t p) x = MTry) \<or> (\<exists>x u. mph (m_goto s m t p) x = MWake u)"
    if "m_wait (mtx (m_goto s m t p)) \<noteq> []"
    using live that by auto
qed

text \<open>The owner moves on, or gives the lock up, or there is none and a thread becomes the owner.\<close>

lemma m_owner_move:
  assumes inv: "m_owner_inv s" and t: "owns (mph s t)" and p: "owns p" and l: "is_lock m = is_lock (mtx s)"
    and h: "holder m = (if p = MHold then t else NULL)"
  shows "m_owner_inv (m_goto s m t p)"
proof (rule m_ownerI)
  note D = m_ownerD [OF inv]
  have owner: "owns (mph s u) \<longleftrightarrow> u = t" for u using D(1) t by blast
  show "is_lock (mtx (m_goto s m t p)) \<longleftrightarrow> (\<exists>u. owns (mph (m_goto s m t p) u))"
    using D(2) p l t by (auto intro: exI [of _ t])
  show "holder (mtx (m_goto s m t p)) = u" if "mph (m_goto s m t p) u = MHold" for u
    using that h owner [of u] by (auto split: if_splits)
  show "u \<noteq> NULL" if "mph (m_goto s m t p) u \<noteq> MIdle" for u
    using that D(5) [of u] D(5) [of t] t by (auto split: if_splits simp: owns_def)
qed (use m_ownerD(1) [OF inv] t h in \<open>auto split: if_splits\<close>)

lemma m_owner_other:
  assumes inv: "m_owner_inv s" and "\<not> owns (mph s t)" "\<not> owns p" and "is_lock m = is_lock (mtx s)" "holder m = holder (mtx s)"
    and "mph s t \<noteq> MIdle \<or> t \<noteq> NULL"
  shows "m_owner_inv (m_goto s m t p)"
proof (rule m_ownerI)
  note D = m_ownerD [OF inv]
  show "x = u" if "owns (mph (m_goto s m t p) x)" "owns (mph (m_goto s m t p) u)" for x u
    using that assms D(1) by (auto split: if_splits)
  show "is_lock (mtx (m_goto s m t p)) \<longleftrightarrow> (\<exists>u. owns (mph (m_goto s m t p) u))"
    using D(2) assms by (auto split: if_splits)
  show "holder (mtx (m_goto s m t p)) = u" if "mph (m_goto s m t p) u = MHold" for u
    using that assms D(3) by (auto split: if_splits)
  show "mph (m_goto s m t p) (holder (mtx (m_goto s m t p))) = MHold" if "holder (mtx (m_goto s m t p)) \<noteq> NULL"
    using that assms D(4) by (auto split: if_splits)
  show "u \<noteq> NULL" if "mph (m_goto s m t p) u \<noteq> MIdle" for u
    using that assms D(5) by (auto split: if_splits)
qed

lemma m_owner_step: "m_step s s' \<Longrightarrow> m_owner_inv s \<Longrightarrow> m_wait_inv s \<Longrightarrow> m_owner_inv s'"
proof (induction rule: m_step.induct)
  case (enter s t)
  then show ?case by (intro m_owner_other) simp_all
next
  case (again s t)
  then show ?case by (intro m_owner_move) (simp_all add: m_ownerD)
next
  case (attempt s t sleep m)
  note D = m_ownerD [OF attempt(3)]
  show ?case
  proof (cases "is_lock (mtx s)")
    case True
    with attempt show ?thesis by (auto simp: mutex_try_eq intro!: m_owner_other)
  next
    case False
    then have none: "\<not> owns (mph s u)" for u using D(2) by blast
    have "holder (mtx s) = NULL" using D(4) none by (metis owns_simps(2))
    moreover have "sleep = False" "m = (mtx s)\<lparr>is_lock := True\<rparr>" "t \<noteq> NULL"
      using attempt False D(5) [of t] by (auto simp: mutex_try_eq)
    ultimately show ?thesis
      using none D(5) by (intro m_ownerI) (auto split: if_splits simp: owns_def)
  qed
next
  case (own s t)
  then show ?case by (intro m_owner_move) (simp_all add: mutex_own_def)
next
  case (release s t m)
  then show ?case by (auto intro!: m_owner_move)
next
  case (unlock s t elem m)
  note D = m_ownerD [OF unlock(3)]
  have owner: "owns (mph s u) \<longleftrightarrow> u = t" for u using D(1) unlock(1) by (metis owns_simps(3))
  have "holder (mtx s) = NULL" using D(4) owner unlock(1) by (metis mphase.distinct(37) owns_simps(2))
  moreover have "is_lock m = False" "holder m = holder (mtx s)"
    using unlock(2) by (auto simp: mutex_unlock_eq split: if_splits list.splits)
  ultimately show ?case
    using owner D(5) unlock(1) by (intro m_ownerI) (auto split: if_splits simp: owns_def)
next
  case (wake s t u)
  have "mph s u = MBlocked" by (rule m_waitD(3) [OF wake(3) wake(1)])
  then have "m_owner_inv (m_goto s (mtx s) u MTry)"
    using wake by (intro m_owner_other) simp_all
  then have "m_owner_inv (m_goto (m_goto s (mtx s) u MTry) (mtx s) t MIdle)"
    by (rule m_owner_other) (use wake \<open>mph s u = MBlocked\<close> in \<open>auto dest: m_ownerD(5)\<close>)
  moreover have "t \<noteq> u" using wake(1) \<open>mph s u = MBlocked\<close> by auto
  ultimately show ?case by (simp add: fun_upd_twist)
qed

lemma m_wait_step: "m_step s s' \<Longrightarrow> m_owner_inv s \<Longrightarrow> m_wait_inv s \<Longrightarrow> m_wait_inv s'"
proof (induction rule: m_step.induct)
  case (enter s t)
  then show ?case by (intro m_wait_move) (simp_all add: m_waitD)
next
  case (again s t)
  have "is_lock (mtx s)" using again(1) m_ownerD(2) [OF again(3)] by (metis owns_simps(2))
  with again show ?case by (intro m_wait_move) simp_all
next
  case (attempt s t sleep m)
  note D = m_waitD [OF attempt(4)]
  show ?case
  proof (cases "is_lock (mtx s)")
    case True
    then have m: "sleep" "m_wait m = m_wait (mtx s) @ [t]" "is_lock m"
      using attempt by (auto simp: mutex_try_eq)
    have t: "t \<notin> set (m_wait (mtx s))" "mph s u \<noteq> MWake t" for u
      using D(2) [of t] D(3) [of u t] attempt(1) by auto
    show ?thesis
    proof (rule m_waitI)
      show "x \<in> set (m_wait (mtx (m_goto s m t (if sleep then MBlocked else MWon)))) \<or>
          (\<exists>u. mph (m_goto s m t (if sleep then MBlocked else MWon)) u = MWake x)"
        if "mph (m_goto s m t (if sleep then MBlocked else MWon)) x = MBlocked" for x
      proof (cases "x = t")
        case False
        then have "mph s x = MBlocked" using that by auto
        then consider "x \<in> set (m_wait (mtx s))" | u where "mph s u = MWake x"
          using D(4) [of x] by blast
        then show ?thesis
        proof cases
          case (2 u)
          then have "u \<noteq> t" using attempt(1) by auto
          then show ?thesis using 2 by auto
        qed (simp add: m)
      qed (simp add: m)
      show "x = u" if "mph (m_goto s m t (if sleep then MBlocked else MWon)) x = MWake v"
        "mph (m_goto s m t (if sleep then MBlocked else MWon)) u = MWake v" for x u v
        using that D(6) m by (auto split: if_splits)
      show "mph (m_goto s m t (if sleep then MBlocked else MWon)) u \<noteq> MWake x"
        if "x \<in> set (m_wait (mtx (m_goto s m t (if sleep then MBlocked else MWon))))" for x u
        using that D(5) [of x u] m t(2) [of u] by auto
    qed (use m t D(1,2,3) in \<open>auto split: if_splits\<close>)
  next
    case False
    then have "\<not> sleep" "m = (mtx s)\<lparr>is_lock := True\<rparr>"
      using attempt by (auto simp: mutex_try_eq)
    with attempt show ?thesis by (auto intro!: m_wait_move)
  qed
next
  case (own s t)
  have "is_lock (mtx s)" using own(1) m_ownerD(2) [OF own(2)] by (metis owns_simps(1))
  with own show ?case by (intro m_wait_move) (simp_all add: mutex_own_def)
next
  case (release s t m)
  have "is_lock (mtx s)" using release(1) m_ownerD(2) [OF release(4)] by (metis owns_simps(2))
  with release show ?case by (auto intro!: m_wait_move)
next
  case (unlock s t elem m)
  note D = m_waitD [OF unlock(4)]
  show ?case
  proof (cases "m_wait (mtx s)")
    case Nil
    then have "elem = NULL" "m_wait m = m_wait (mtx s)" using unlock(2) by (auto simp: mutex_unlock_eq split: if_splits)
    with unlock Nil show ?thesis by (auto intro!: m_wait_move)
  next
    case (Cons w ws)
    have w: "mph s w = MBlocked" using D(2) [of w] Cons by simp
    then have "w \<noteq> NULL" using m_ownerD(5) [OF unlock(3), of w] by simp
    then have m: "elem = w" "elem \<noteq> NULL" "m_wait m = ws" using unlock(2) Cons by (auto simp: mutex_unlock_eq split: if_splits)
    have nw: "w \<noteq> t" "mph s u \<noteq> MWake w" for u using w unlock(1) D(5) [of w u] Cons by auto
    let ?s = "m_goto s m t (MWake w)"
    have "m_wait_inv ?s"
    proof (rule m_waitI)
      show "distinct (m_wait (mtx ?s))" using D(1) Cons m by simp
      show "mph ?s x = MBlocked" if "x \<in> set (m_wait (mtx ?s))" for x
        using that D(2) [of x] Cons m unlock(1) by auto
      show "mph ?s x = MBlocked" if "mph ?s u = MWake x" for x u
        using that D(3) [of u x] w nw unlock(1) by (auto split: if_splits)
      show "x \<in> set (m_wait (mtx ?s)) \<or> (\<exists>u. mph ?s u = MWake x)" if "mph ?s x = MBlocked" for x
      proof (cases "x = w")
        case False
        have "x \<noteq> t" "mph s x = MBlocked" using that by (auto split: if_splits)
        then consider "x \<in> set (m_wait (mtx s))" | u where "mph s u = MWake x" using D(4) by blast
        then show ?thesis
        proof cases
          case (2 u)
          then have "u \<noteq> t" using unlock(1) by auto
          then show ?thesis using 2 by auto
        qed (use Cons m False in simp)
      qed (auto intro: exI [of _ t])
      show "mph ?s u \<noteq> MWake x" if "x \<in> set (m_wait (mtx ?s))" for x u
        using that D(1) D(5) [of x u] Cons m by auto
      show "x = u" if "mph ?s x = MWake v" "mph ?s u = MWake v" for x u v
        using that D(6) nw by (auto split: if_splits)
    qed (auto intro: exI [of _ t])
    with m show ?thesis by simp
  qed
next
  case (wake s t u)
  note D = m_waitD [OF wake(3)]
  have u: "mph s u = MBlocked" "u \<notin> set (m_wait (mtx s))" "t \<noteq> u" "mph s x = MWake u \<longleftrightarrow> x = t" for x
    using D(3) [OF wake(1)] D(5) [of u t] D(6) [of x u t] wake(1) by auto
  let ?s = "s\<lparr>mph := (mph s)(t := MIdle, u := MTry)\<rparr>"
  show ?case
  proof (rule m_waitI)
    show "mph ?s x = MBlocked" if "x \<in> set (m_wait (mtx ?s))" for x
      using that D(2) [of x] u(2) wake(1) by auto
    show "mph ?s x = MBlocked" if "mph ?s y = MWake x" for x y
      using that D(3) [of y x] u(4) [of y] wake(1) by (auto split: if_splits)
    show "x \<in> set (m_wait (mtx ?s)) \<or> (\<exists>y. mph ?s y = MWake x)" if "mph ?s x = MBlocked" for x
    proof -
      have x: "x \<noteq> t" "x \<noteq> u" "mph s x = MBlocked" using that by (auto split: if_splits)
      then consider "x \<in> set (m_wait (mtx s))" | y where "mph s y = MWake x" using D(4) by blast
      then show ?thesis
      proof cases
        case (2 y)
        then have "y \<noteq> t" "y \<noteq> u" using wake(1) x(2) u(1) by auto
        then show ?thesis using 2 by auto
      qed simp
    qed
    show "mph ?s y \<noteq> MWake x" if "x \<in> set (m_wait (mtx ?s))" for x y
      using that D(5) [of x y] by auto
    show "x = y" if "mph ?s x = MWake v" "mph ?s y = MWake v" for x y v
      using that D(6) by (auto split: if_splits)
  qed (use D(1) in auto)
qed

lemma m_reach_inv: "m_reach s \<Longrightarrow> m_owner_inv s \<and> m_wait_inv s"
proof (induction rule: m_reach.induct)
  case m_reach_init
  show ?case using m_inv_init by simp
next
  case (m_reach_step s s')
  then show ?case using m_owner_step m_wait_step by blast
qed

section \<open>Semaphore\<close>

text \<open>
  Phases: outside (\<open>SIdle\<close>), in the \<open>thread_block\<close> of \<open>sema_wait\<close> (\<open>SSleep\<close>), and in
  \<open>sema_post\<close> between the increment and the critical section that wakes (\<open>SPost\<close>). \<open>passed\<close> counts
  the threads that came through \<open>sema_wait\<close> or \<open>sema_trywait\<close>, \<open>posted\<close> the calls of
  \<open>sema_post\<close>. The counter is an \<open>int\<close> of the machine: a step that would carry it past its
  range is excluded (\<open>sem_room\<close>).
\<close>

datatype sphase = SIdle | SSleep | SPost

record sstate =
  sm :: sem
  sph :: "tid \<Rightarrow> sphase"
  passed :: nat
  posted :: nat

definition s_init :: "int \<Rightarrow> sstate" where
  "s_init v = \<lparr>sm = sema_init v, sph = (\<lambda>_. SIdle), passed = 0, posted = 0\<rparr>"

definition sem_room :: "sem \<Rightarrow> bool" where
  "sem_room s \<longleftrightarrow> - 2147483648 < atomic_read (s_count s) \<and> atomic_read (s_count s) < 2147483647"

inductive s_step :: "sstate \<Rightarrow> sstate \<Rightarrow> bool" where
  wait: "sph s t = SIdle \<Longrightarrow> t \<noteq> NULL \<Longrightarrow> sem_room (sm s) \<Longrightarrow> sema_wait_section t (sm s) = (sleep, m) \<Longrightarrow>
    s_step s (if sleep then s\<lparr>sm := m, sph := (sph s)(t := SSleep)\<rparr>
              else s\<lparr>sm := m, passed := passed s + 1\<rparr>)"
| trywait: "sph s t = SIdle \<Longrightarrow> sem_room (sm s) \<Longrightarrow> sema_trywait (k :: sys) (sm s) = (success, k', m) \<Longrightarrow>
    s_step s (s\<lparr>sm := m, passed := passed s + (if success then 1 else 0)\<rparr>)"
| post_inc: "sph s t = SIdle \<Longrightarrow> t \<noteq> NULL \<Longrightarrow> sem_room (sm s) \<Longrightarrow> sema_post_inc (sm s) = (wake, m) \<Longrightarrow>
    s_step s (s\<lparr>sm := m, posted := posted s + 1, sph := (if wake then (sph s)(t := SPost) else sph s)\<rparr>)"
| post_pop: "sph s t = SPost \<Longrightarrow> sema_post_pop (sm s) = Some (elem, m) \<Longrightarrow>
    s_step s (s\<lparr>sm := m, sph := (sph s)(t := SIdle, elem := SIdle), passed := passed s + 1\<rparr>)"

inductive s_reach :: "int \<Rightarrow> sstate \<Rightarrow> bool" for v where
  s_reach_init: "s_reach v (s_init v)"
| s_reach_step: "s_reach v s \<Longrightarrow> s_step s s' \<Longrightarrow> s_reach v s'"

definition posting :: "sstate \<Rightarrow> tid set" where
  "posting s = {t. sph s t = SPost}"

definition s_inv :: "int \<Rightarrow> sstate \<Rightarrow> bool" where
  "s_inv v s \<longleftrightarrow>
     distinct (s_wait (sm s)) \<and> finite (posting s) \<and>
     (\<forall>t. sph s t = SSleep \<longleftrightarrow> t \<in> set (s_wait (sm s))) \<and>
     (\<forall>t. sph s t \<noteq> SIdle \<longrightarrow> t \<noteq> NULL) \<and>
     int (length (s_wait (sm s))) = int (card (posting s)) + max 0 (- atomic_read (s_count (sm s))) \<and>
     atomic_read (s_count (sm s)) = v + int (posted s) - int (passed s) - int (length (s_wait (sm s)))"

lemma atomic_read_init: "- 2147483648 \<le> v \<Longrightarrow> v < 2147483648 \<Longrightarrow> atomic_read (s_count (sema_init v)) = v"
  using to_int32_id [of v] by (simp add: sema_init_def atomic_read_def atomic_set_def to_int32_def)

lemma s_inv_init: "0 \<le> v \<Longrightarrow> v < 2147483648 \<Longrightarrow> s_inv v (s_init v)"
  using atomic_read_init [of v]
  by (simp add: s_inv_def s_init_def posting_def) (simp add: sema_init_def)

lemma sem_dec:
  assumes "sem_room m" shows "atomic_read (s_count (snd (sema_wait_section t m))) = atomic_read (s_count m) - 1"
    "fst (sema_wait_section t m) \<longleftrightarrow> atomic_read (s_count m) \<le> 0"
    "s_wait (snd (sema_wait_section t m)) = (if atomic_read (s_count m) \<le> 0 then s_wait m @ [t] else s_wait m)"
proof -
  let ?c = "s_count m"
  have "counter ?c \<noteq> 2147483648" using assms by (auto simp: sem_room_def atomic_read_def)
  then have "sint (counter ?c - 1) = sint (counter ?c) - 1" by (rule sint_minus_1)
  then have "atomic_dec_and_setge ?c = (0 < atomic_read ?c, snd (atomic_dec_and_setge ?c))"
    "atomic_read (snd (atomic_dec_and_setge ?c)) = atomic_read ?c - 1"
    using atomic_dec_and_setge_fst [of ?c]
    by (auto intro!: prod_eqI simp: atomic_dec_and_setge_def atomic_read_def decl_def Let_def)
  then obtain c where c: "atomic_dec_and_setge ?c = (0 < atomic_read ?c, c)" "atomic_read c = atomic_read ?c - 1"
    by metis
  show "atomic_read (s_count (snd (sema_wait_section t m))) = atomic_read (s_count m) - 1"
    "fst (sema_wait_section t m) \<longleftrightarrow> atomic_read (s_count m) \<le> 0"
    "s_wait (snd (sema_wait_section t m)) = (if atomic_read (s_count m) \<le> 0 then s_wait m @ [t] else s_wait m)"
    by (auto simp: sema_wait_section_def c Let_def)
qed

lemma sem_inc:
  assumes "sem_room m" shows "atomic_read (s_count (snd (sema_post_inc m))) = atomic_read (s_count m) + 1"
    "fst (sema_post_inc m) \<longleftrightarrow> atomic_read (s_count m) < 0" "s_wait (snd (sema_post_inc m)) = s_wait m"
proof -
  let ?c = "s_count m"
  have "counter ?c \<noteq> 2147483647" using assms by (auto simp: sem_room_def atomic_read_def)
  then have "sint (counter ?c + 1) = sint (counter ?c) + 1" by (rule sint_plus_1)
  then have "atomic_inc_and_setg ?c = (0 < atomic_read ?c + 1, snd (atomic_inc_and_setg ?c))"
    "atomic_read (snd (atomic_inc_and_setg ?c)) = atomic_read ?c + 1"
    using atomic_inc_and_setg_fst [of ?c]
    by (auto intro!: prod_eqI simp: atomic_inc_and_setg_def atomic_read_def incl_def Let_def)
  then obtain c where c: "atomic_inc_and_setg ?c = (0 < atomic_read ?c + 1, c)" "atomic_read c = atomic_read ?c + 1"
    by metis
  show "atomic_read (s_count (snd (sema_post_inc m))) = atomic_read (s_count m) + 1"
    "fst (sema_post_inc m) \<longleftrightarrow> atomic_read (s_count m) < 0" "s_wait (snd (sema_post_inc m)) = s_wait m"
    by (auto simp: sema_post_inc_def c Let_def)
qed

lemma s_inv_conjs:
  assumes "s_inv v s"
  shows "distinct (s_wait (sm s))" "finite (posting s)" "\<forall>t. sph s t = SSleep \<longleftrightarrow> t \<in> set (s_wait (sm s))"
    "\<forall>t. sph s t \<noteq> SIdle \<longrightarrow> t \<noteq> NULL"
    "int (length (s_wait (sm s))) = int (card (posting s)) + max 0 (- atomic_read (s_count (sm s)))"
    "atomic_read (s_count (sm s)) = v + int (posted s) - int (passed s) - int (length (s_wait (sm s)))"
  using assms unfolding s_inv_def by - (elim conjE, assumption)+

lemmas s_inv_parts = s_inv_conjs [rule_format]

lemma s_invI:
  assumes "distinct (s_wait (sm s))" "finite (posting s)" "\<And>t. sph s t = SSleep \<longleftrightarrow> t \<in> set (s_wait (sm s))"
    "\<And>t. sph s t \<noteq> SIdle \<Longrightarrow> t \<noteq> NULL"
    "int (length (s_wait (sm s))) = int (card (posting s)) + max 0 (- atomic_read (s_count (sm s)))"
    "atomic_read (s_count (sm s)) = v + int (posted s) - int (passed s) - int (length (s_wait (sm s)))"
  shows "s_inv v s"
  unfolding s_inv_def
  by (intro conjI allI impI) (rule assms(1), rule assms(2), rule assms(3), erule assms(4), rule assms(5), rule assms(6))

text \<open>A thread that has announced a wake-up finds a waiter.\<close>

lemma post_finds_waiter:
  assumes "s_inv v s" "sph s t = SPost"
  obtains w ws where "s_wait (sm s) = w # ws" "sph s w = SSleep" "w \<noteq> NULL"
    "sema_post_pop (sm s) = Some (w, (sm s)\<lparr>s_wait := ws\<rparr>)"
proof -
  note D = s_inv_parts [OF assms(1)]
  have "t \<in> posting s" using assms(2) by (simp add: posting_def)
  then have "0 < card (posting s)" using D(2) by (auto simp: card_gt_0_iff)
  then have "s_wait (sm s) \<noteq> []" using D(5) by auto
  then obtain w ws where ws: "s_wait (sm s) = w # ws" by (cases "s_wait (sm s)") auto
  then have "sph s w = SSleep" using D(3) [of w] by simp
  moreover from this have "w \<noteq> NULL" using D(4) [of w] by simp
  ultimately show thesis using that ws by (simp add: sema_post_pop_def)
qed

lemma s_inv_step: "s_step s s' \<Longrightarrow> s_inv v s \<Longrightarrow> s_inv v s'"
proof (induction rule: s_step.induct)
  case (wait s t sleep m)
  note D = s_inv_parts [OF wait(5)]
  have m: "atomic_read (s_count m) = atomic_read (s_count (sm s)) - 1" "sleep \<longleftrightarrow> atomic_read (s_count (sm s)) \<le> 0"
    "s_wait m = (if sleep then s_wait (sm s) @ [t] else s_wait (sm s))"
    using sem_dec [OF wait(3), of t] wait(4) by auto
  show ?case
  proof (cases sleep)
    case True
    have post: "posting (s\<lparr>sm := m, sph := (sph s)(t := SSleep)\<rparr>) = posting s"
      using wait(1) by (auto simp: posting_def)
    have t: "t \<notin> set (s_wait (sm s))" using D(3) [of t] wait(1) by simp
    let ?s = "s\<lparr>sm := m, sph := (sph s)(t := SSleep)\<rparr>"
    have "s_inv v ?s"
    proof (rule s_invI)
      show "sph ?s x = SSleep \<longleftrightarrow> x \<in> set (s_wait (sm ?s))" for x using D(3) [of x] m(3) True by simp
      show "x \<noteq> NULL" if "sph ?s x \<noteq> SIdle" for x using that D(4) [of x] wait(2) by (cases "x = t") auto
      show "distinct (s_wait (sm ?s))" using D(1) m(3) True t by simp
      show "finite (posting ?s)" using D(2) post by simp
      show "int (length (s_wait (sm ?s))) = int (card (posting ?s)) + max 0 (- atomic_read (s_count (sm ?s)))"
        using D(5) m True by (simp add: post)
      show "atomic_read (s_count (sm ?s)) = v + int (posted ?s) - int (passed ?s) - int (length (s_wait (sm ?s)))"
        using D(6) m True by simp
    qed
    then show ?thesis using True by simp
  next
    case False
    have post: "posting (s\<lparr>sm := m, passed := passed s + 1\<rparr>) = posting s" by (simp add: posting_def)
    have same: "s_wait m = s_wait (sm s)" using m(3) False by simp
    have "s_inv v (s\<lparr>sm := m, passed := passed s + 1\<rparr>)" (is "s_inv v ?s")
    proof (rule s_invI)
      show "sph ?s x = SSleep \<longleftrightarrow> x \<in> set (s_wait (sm ?s))" for x using D(3) [of x] same by simp
      show "x \<noteq> NULL" if "sph ?s x \<noteq> SIdle" for x using that D(4) [of x] by simp
      show "distinct (s_wait (sm ?s))" "finite (posting ?s)" using D(1,2) same post by simp_all
      show "int (length (s_wait (sm ?s))) = int (card (posting ?s)) + max 0 (- atomic_read (s_count (sm ?s)))"
        unfolding post using D(5) m False same by simp
      show "atomic_read (s_count (sm ?s)) = v + int (posted ?s) - int (passed ?s) - int (length (s_wait (sm ?s)))"
        using D(6) m same by simp
    qed
    then show ?thesis using False by simp
  qed
next
  case (trywait s t k success k' m)
  note D = s_inv_parts [OF trywait(4)]
  have dec: "atomic_read (atomic_dec (s_count (sm s))) = atomic_read (s_count (sm s)) - 1"
  proof -
    have "counter (s_count (sm s)) \<noteq> 2147483648" using trywait(2) by (auto simp: sem_room_def atomic_read_def)
    then show ?thesis using sint_minus_1 by (simp add: atomic_read_def atomic_dec_def decl_def Let_def)
  qed
  have m: "success \<longleftrightarrow> 0 < atomic_read (s_count (sm s))"
    "m = (if success then (sm s)\<lparr>s_count := atomic_dec (s_count (sm s))\<rparr> else sm s)"
    using trywait(3) by (auto simp: sema_trywait_spec)
  have post: "posting (s\<lparr>sm := m, passed := passed s + (if success then 1 else 0)\<rparr>) = posting s"
    by (simp add: posting_def)
  show ?case
  proof (rule s_invI)
    let ?s = "s\<lparr>sm := m, passed := passed s + (if success then 1 else 0)\<rparr>"
    have same: "s_wait m = s_wait (sm s)" "atomic_read (s_count m) = atomic_read (s_count (sm s)) - (if success then 1 else 0)"
      using m(2) dec by simp_all
    show "sph ?s x = SSleep \<longleftrightarrow> x \<in> set (s_wait (sm ?s))" for x using D(3) [of x] same(1) by simp
    show "x \<noteq> NULL" if "sph ?s x \<noteq> SIdle" for x using that D(4) [of x] by simp
    show "distinct (s_wait (sm ?s))" "finite (posting ?s)" using D(1,2) same(1) post by simp_all
    show "int (length (s_wait (sm ?s))) = int (card (posting ?s)) + max 0 (- atomic_read (s_count (sm ?s)))"
      using D(5) same m(1) post by (cases success) simp_all
    show "atomic_read (s_count (sm ?s)) = v + int (posted ?s) - int (passed ?s) - int (length (s_wait (sm ?s)))"
      using D(6) same by (cases success) simp_all
  qed
next
  case (post_inc s t wake m)
  note D = s_inv_parts [OF post_inc(5)]
  have m: "atomic_read (s_count m) = atomic_read (s_count (sm s)) + 1" "wake \<longleftrightarrow> atomic_read (s_count (sm s)) < 0"
    "s_wait m = s_wait (sm s)"
    using sem_inc [OF post_inc(3)] post_inc(4) by auto
  let ?s = "s\<lparr>sm := m, posted := posted s + 1, sph := (if wake then (sph s)(t := SPost) else sph s)\<rparr>"
  have t: "t \<notin> set (s_wait (sm s))" using D(3) [of t] post_inc(1) by simp
  have post: "posting ?s = (if wake then insert t (posting s) else posting s)" "t \<notin> posting s"
    using post_inc(1) by (auto simp: posting_def)
  have card: "int (card (posting ?s)) = int (card (posting s)) + (if wake then 1 else 0)"
    using post D(2) by simp
  show ?case
  proof (rule s_invI)
    show "sph ?s x = SSleep \<longleftrightarrow> x \<in> set (s_wait (sm ?s))" for x
      using D(3) [of x] m(3) t by (cases "x = t") (auto simp: post_inc(1))
    show "x \<noteq> NULL" if "sph ?s x \<noteq> SIdle" for x using that D(4) [of x] post_inc(2) by (cases "x = t") (auto split: if_splits)
    show "distinct (s_wait (sm ?s))" "finite (posting ?s)" using D(1,2) m(3) post(1) by simp_all
    show "int (length (s_wait (sm ?s))) = int (card (posting ?s)) + max 0 (- atomic_read (s_count (sm ?s)))"
      unfolding card using D(5) m by (cases wake) simp_all
    show "atomic_read (s_count (sm ?s)) = v + int (posted ?s) - int (passed ?s) - int (length (s_wait (sm ?s)))"
      using D(6) m by simp
  qed
next
  case (post_pop s t elem m)
  note D = s_inv_parts [OF post_pop(3)]
  obtain w ws where w: "s_wait (sm s) = w # ws" "sph s w = SSleep" "w \<noteq> NULL"
    "sema_post_pop (sm s) = Some (w, (sm s)\<lparr>s_wait := ws\<rparr>)"
    using post_finds_waiter [OF post_pop(3,1)] .
  then have m: "elem = w" "m = (sm s)\<lparr>s_wait := ws\<rparr>" using post_pop(2) by auto
  let ?s = "s\<lparr>sm := m, sph := (sph s)(t := SIdle, elem := SIdle), passed := passed s + 1\<rparr>"
  have "posting ?s = posting s - {t}" "t \<in> posting s"
    using post_pop(1) w(2) m(1) by (auto simp: posting_def)
  then have post: "finite (posting ?s)" "int (card (posting s)) = int (card (posting ?s)) + 1"
    using D(2) card_Suc_Diff1 [OF D(2), of t] by auto
  show ?case
  proof (rule s_invI)
    show "sph ?s x = SSleep \<longleftrightarrow> x \<in> set (s_wait (sm ?s))" for x
      using D(3) [of x] D(1) w(1) m post_pop(1) by (cases "x = t"; cases "x = w") auto
    show "x \<noteq> NULL" if "sph ?s x \<noteq> SIdle" for x using that D(4) [of x] by (auto split: if_splits)
    show "distinct (s_wait (sm ?s))" "finite (posting ?s)" using D(1) w(1) m(2) post(1) by simp_all
    show "int (length (s_wait (sm ?s))) = int (card (posting ?s)) + max 0 (- atomic_read (s_count (sm ?s)))"
      using D(5) w(1) m(2) post(2) by simp
    show "atomic_read (s_count (sm ?s)) = v + int (posted ?s) - int (passed ?s) - int (length (s_wait (sm ?s)))"
      using D(6) w(1) m(2) by simp
  qed
qed

lemma s_reach_inv: "s_reach v s \<Longrightarrow> 0 \<le> v \<Longrightarrow> v < 2147483648 \<Longrightarrow> s_inv v s"
  by (induction rule: s_reach.induct) (auto intro: s_inv_init s_inv_step)

section \<open>Reader/writer lock\<close>

text \<open>
  Phases: reading and writing, asleep on one of the two lists, or woken and about to look again.
  A release wakes the threads it takes off the lists.
\<close>

datatype rphase = RIdle | RTry | RSleep | RRead | WTry | WSleep | WWrite

record rstate =
  rwl :: rwlock
  rph :: "tid \<Rightarrow> rphase"

definition r_init :: rstate where
  "r_init = \<lparr>rwl = rwlock_init, rph = (\<lambda>_. RIdle)\<rparr>"

definition woken :: "(tid \<Rightarrow> rphase) \<Rightarrow> rwlock \<Rightarrow> tid \<Rightarrow> rphase" where
  "woken ph rw u =
     (if ph u = RSleep \<and> u \<notin> set (read_waiter_list rw) then RTry
      else if ph u = WSleep \<and> u \<notin> set (write_waiter_list rw) then WTry else ph u)"

inductive r_step :: "rstate \<Rightarrow> rstate \<Rightarrow> bool" where
  read_try: "rph s t = RIdle \<or> rph s t = RTry \<Longrightarrow> rwlock_read_try t (rwl s) = (sleep, rw) \<Longrightarrow>
    r_step s (s\<lparr>rwl := rw, rph := (rph s)(t := (if sleep then RSleep else RRead))\<rparr>)"
| write_try: "rph s t = RIdle \<or> rph s t = WTry \<Longrightarrow> rwlock_write_try t (rwl s) = (sleep, rw) \<Longrightarrow>
    r_step s (s\<lparr>rwl := rw, rph := (rph s)(t := (if sleep then WSleep else WWrite))\<rparr>)"
| read_release: "rph s t = RRead \<Longrightarrow> rwlock_read_release (k :: sys) (rwl s) = Some (k', rw) \<Longrightarrow>
    r_step s (s\<lparr>rwl := rw, rph := woken ((rph s)(t := RIdle)) rw\<rparr>)"
| write_release: "rph s t = WWrite \<Longrightarrow> rwlock_write_release (k :: sys) (rwl s) = Some (k', rw) \<Longrightarrow>
    r_step s (s\<lparr>rwl := rw, rph := woken ((rph s)(t := RIdle)) rw\<rparr>)"

inductive r_reach :: "rstate \<Rightarrow> bool" where
  r_reach_init: "r_reach r_init"
| r_reach_step: "r_reach s \<Longrightarrow> r_step s s' \<Longrightarrow> r_reach s'"

definition readers :: "(tid \<Rightarrow> rphase) \<Rightarrow> tid set" where
  "readers ph = {t. ph t = RRead}"

definition writers :: "(tid \<Rightarrow> rphase) \<Rightarrow> tid set" where
  "writers ph = {t. ph t = WWrite}"

definition r_inv :: "rstate \<Rightarrow> bool" where
  "r_inv s \<longleftrightarrow> finite (readers (rph s)) \<and>
     (writers (rph s) = {} \<and> rw_count (rwl s) = int (card (readers (rph s))) \<or>
      (\<exists>w. writers (rph s) = {w}) \<and> readers (rph s) = {} \<and> rw_count (rwl s) = - 1)"

lemma readers_woken [simp]: "readers (woken ph rw) = readers ph" "writers (woken ph rw) = writers ph"
  by (auto simp: readers_def writers_def woken_def)

lemma readers_upd:
  "readers (ph(t := p)) = (if p = RRead then insert t (readers ph) else readers ph - {t})"
  "writers (ph(t := p)) = (if p = WWrite then insert t (writers ph) else writers ph - {t})"
  by (auto simp: readers_def writers_def)

lemma rwlock_read_release_count:
  "rwlock_read_release k rw = Some (k', rw') \<Longrightarrow> 0 < rw_count rw \<and> rw_count rw' = rw_count rw - 1"
  by (cases "write_waiter_list rw"; cases "read_waiter_list rw")
    (auto simp: rwlock_read_release_def Let_def split_def split: if_splits)

lemma rwlock_write_release_count:
  "rwlock_write_release k rw = Some (k', rw') \<Longrightarrow> rw_count rw = - 1 \<and> ready_write rw \<and> rw_count rw' = 0"
  by (cases "write_waiter_list rw") (auto simp: rwlock_write_release_def Let_def split_def)

lemma r_inv_writer:
  assumes "r_inv s" "t \<in> writers (rph s)"
  shows "writers (rph s) = {t}" "readers (rph s) = {}"
proof -
  have "writers (rph s) \<noteq> {}" using assms(2) by blast
  then have alt: "(\<exists>w. writers (rph s) = {w}) \<and> readers (rph s) = {}"
    using assms(1) by (simp add: r_inv_def)
  then obtain w where w: "writers (rph s) = {w}" by blast
  then have "t = w" using assms(2) by simp
  with w show "writers (rph s) = {t}" by simp
  show "readers (rph s) = {}" using alt by simp
qed

lemma r_inv_reader:
  assumes "r_inv s" "t \<in> readers (rph s)"
  shows "writers (rph s) = {}" "rw_count (rwl s) = int (card (readers (rph s)))" "finite (readers (rph s))"
proof -
  have "readers (rph s) \<noteq> {}" using assms(2) by blast
  then show "writers (rph s) = {}" "rw_count (rwl s) = int (card (readers (rph s)))" "finite (readers (rph s))"
    using assms(1) by (simp_all add: r_inv_def)
qed

lemma r_inv_step: "r_step s s' \<Longrightarrow> r_inv s \<Longrightarrow> r_inv s'"
proof (induction rule: r_step.induct)
  case (read_try s t sleep rw)
  have t: "t \<notin> readers (rph s)" "t \<notin> writers (rph s)" using read_try(1) by (auto simp: readers_def writers_def)
  then show ?case
    using read_try(2,3) by (auto simp: rwlock_read_try_def r_inv_def readers_upd split: if_splits)
next
  case (write_try s t sleep rw)
  have t: "t \<notin> readers (rph s)" "t \<notin> writers (rph s)" using write_try(1) by (auto simp: readers_def writers_def)
  then show ?case
    using write_try(2,3) by (auto simp: rwlock_write_try_def r_inv_def readers_upd split: if_splits)
next
  case (read_release s t k k' rw)
  have t: "t \<in> readers (rph s)" "t \<notin> writers (rph s)" using read_release(1) by (auto simp: readers_def writers_def)
  note rd = r_inv_reader [OF read_release(3) t(1)]
  have "int (card (readers (rph s))) = int (card (readers (rph s) - {t})) + 1"
    using card_Suc_Diff1 [OF rd(3) t(1)] by simp
  then show ?case
    using rwlock_read_release_count [OF read_release(2)] rd t by (simp add: r_inv_def readers_upd)
next
  case (write_release s t k k' rw)
  have t: "t \<notin> readers (rph s)" "t \<in> writers (rph s)" using write_release(1) by (auto simp: readers_def writers_def)
  note wr = r_inv_writer [OF write_release(3) t(2)]
  show ?case
    using wr rwlock_write_release_count [OF write_release(2)] by (simp add: r_inv_def readers_upd)
qed

lemma r_reach_inv: "r_reach s \<Longrightarrow> r_inv s"
proof (induction rule: r_reach.induct)
  case r_reach_init
  show ?case by (simp add: r_inv_def r_init_def rwlock_init_def readers_def writers_def)
next
  case (r_reach_step s s')
  then show ?case by (blast intro: r_inv_step)
qed

section \<open>Properties\<close>

text \<open>C3: however the calls of \<open>mutex_acquire\<close> and \<open>mutex_release\<close> of any threads interleave, at most
  one thread is between them, and it is the one recorded as the holder.\<close>

theorem mutex_exclusion:
  assumes "m_reach s" "mph s t = MHold" "mph s u = MHold"
  shows "t = u \<and> holder (mtx s) = t \<and> is_lock (mtx s)"
proof -
  note D = m_ownerD [OF conjunct1 [OF m_reach_inv [OF assms(1)]]]
  have "owns (mph s t)" "owns (mph s u)" using assms by auto
  then show ?thesis using D(1) D(2) D(3) [OF assms(2)] by blast
qed

definition m_held :: "tid \<Rightarrow> mstate" where
  "m_held t = m_goto (m_goto (m_goto m_init (mtx m_init) t MTry) ((mtx m_init)\<lparr>is_lock := True\<rparr>) t MWon)
     (mutex_own t ((mtx m_init)\<lparr>is_lock := True\<rparr>)) t MHold"

lemma m_held_reach: "t \<noteq> NULL \<Longrightarrow> m_reach (m_held t)"
proof -
  assume t: "t \<noteq> NULL"
  have 1: "m_reach (m_goto m_init (mtx m_init) t MTry)"
    by (rule m_reach_step [OF m_reach_init enter]) (use t in \<open>auto simp: m_init_def mutex_lock_init_def\<close>)
  have att: "mutex_try t (mtx (m_goto m_init (mtx m_init) t MTry)) = (False, (mtx m_init)\<lparr>is_lock := True\<rparr>)"
    by (simp add: mutex_try_eq m_init_def mutex_lock_init_def)
  have 2: "m_reach (m_goto (m_goto m_init (mtx m_init) t MTry) ((mtx m_init)\<lparr>is_lock := True\<rparr>) t MWon)"
    using m_reach_step [OF 1 attempt [OF _ att]] by simp
  show ?thesis
    using m_reach_step [OF 2 own [of _ t]] by (simp add: m_held_def)
qed

theorem mutex_exclusion_witness:
  "m_reach (m_held 4096) \<and> mph (m_held 4096) 4096 = MHold \<and> holder (mtx (m_held 4096)) = 4096"
proof -
  have "m_reach (m_held 4096)" by (rule m_held_reach) (simp add: NULL_def)
  moreover have "mph (m_held 4096) 4096 = MHold" by (simp add: m_held_def)
  ultimately show ?thesis using mutex_exclusion [of "m_held 4096" 4096 4096] by blast
qed

text \<open>neither assertion of \<open>mutex_release\<close> ever fails in such an interleaving: the releasing thread
  is the holder, and the flag it clears is set.\<close>

theorem mutex_never_panics:
  assumes "m_reach s" shows "\<not> m_panics s t"
proof -
  have inv: "m_owner_inv s" using m_reach_inv [OF assms] by simp
  have "is_lock (mtx s)" if "mph s t = MRelease" using m_ownerD(2) [OF inv] that by (metis owns_simps(3))
  then show ?thesis using m_ownerD(3) [OF inv, of t] by (auto simp: m_panics_def mutex_unlock_eq)
qed

theorem mutex_never_panics_witness: "\<not> m_panics (m_held 4096) 4096"
  by (rule mutex_never_panics [OF m_held_reach]) (simp add: NULL_def)

text \<open>C15: no wake-up is lost: while a thread sleeps in \<open>mutex_acquire\<close>, some other thread is still to
  act: it owns the mutex, is about to try it, or is about to wake a sleeper.\<close>

theorem mutex_no_lost_wakeup:
  assumes "m_reach s" "mph s t = MBlocked"
  shows "\<exists>u. u \<noteq> t \<and> (owns (mph s u) \<or> mph s u = MTry \<or> (\<exists>v. mph s u = MWake v))"
proof -
  have inv: "m_owner_inv s" "m_wait_inv s" using m_reach_inv [OF assms(1)] by auto
  have "\<exists>u. owns (mph s u) \<or> mph s u = MTry \<or> (\<exists>v. mph s u = MWake v)"
    using m_waitD(4) [OF inv(2) assms(2)]
  proof
    assume "t \<in> set (m_wait (mtx s))"
    then have "m_wait (mtx s) \<noteq> []" by auto
    from m_waitD(7) [OF inv(2) this] m_ownerD(2) [OF inv(1)] show ?thesis by blast
  qed blast
  then obtain u where u: "owns (mph s u) \<or> mph s u = MTry \<or> (\<exists>v. mph s u = MWake v)" ..
  then have "u \<noteq> t" using assms(2) by auto
  with u show ?thesis by blast
qed

definition m_contended :: mstate where
  "m_contended = (let s = m_held 4096; w = (mtx s)\<lparr>is_lock := True, m_wait := m_wait (mtx s) @ [8192]\<rparr>
     in m_goto (m_goto s (mtx s) 8192 MTry) w 8192 MBlocked)"

lemma m_contended_reach: "m_reach m_contended"
proof -
  have h: "mtx (m_held 4096) = \<lparr>is_lock = True, m_wait = [], holder = 4096, repeat = 1\<rparr>" "mph (m_held 4096) 8192 = MIdle"
    by (simp_all add: m_held_def m_init_def mutex_lock_init_def mutex_own_def)
  have held: "m_reach (m_held 4096)" by (rule m_held_reach) (simp add: NULL_def)
  have 1: "m_reach (m_goto (m_held 4096) (mtx (m_held 4096)) 8192 MTry)"
    by (rule m_reach_step [OF held enter]) (simp_all add: h NULL_def)
  have att: "mutex_try 8192 (mtx (m_goto (m_held 4096) (mtx (m_held 4096)) 8192 MTry))
      = (True, (mtx (m_held 4096))\<lparr>is_lock := True, m_wait := m_wait (mtx (m_held 4096)) @ [8192]\<rparr>)"
    by (simp add: mutex_try_eq h)
  show ?thesis
    using m_reach_step [OF 1 attempt [OF _ att]] by (simp add: m_contended_def Let_def)
qed

theorem mutex_no_lost_wakeup_witness:
  "\<exists>u. u \<noteq> 8192 \<and> (owns (mph m_contended u) \<or> mph m_contended u = MTry \<or> (\<exists>v. mph m_contended u = MWake v))"
  by (rule mutex_no_lost_wakeup [OF m_contended_reach]) (simp add: m_contended_def Let_def)

text \<open>C5: a semaphore that starts at \<open>v\<close> lets at most \<open>v\<close> threads more through \<open>sema_wait\<close> and
  \<open>sema_trywait\<close> than \<open>sema_post\<close> was called, and a thread sleeps only while the count is
  negative or a post is still on its way to wake a sleeper.\<close>

theorem semaphore_bound:
  assumes "s_reach v s" "0 \<le> v" "v < 2147483648"
  shows "int (passed s) \<le> v + int (posted s) \<and>
    (\<forall>t. sph s t = SSleep \<longrightarrow> atomic_read (s_count (sm s)) < 0 \<or> (\<exists>u. sph s u = SPost))"
proof -
  note D = s_inv_parts [OF s_reach_inv [OF assms]]
  have "int (passed s) \<le> v + int (posted s)" using D(5) D(6) by linarith
  moreover have "atomic_read (s_count (sm s)) < 0 \<or> (\<exists>u. sph s u = SPost)" if "sph s t = SSleep" for t
  proof -
    have "t \<in> set (s_wait (sm s))" using that D(3) by simp
    then have "0 < length (s_wait (sm s))" by (rule length_pos_if_in_set)
    then have "atomic_read (s_count (sm s)) < 0 \<or> 0 < card (posting s)" using D(5) by linarith
    then show ?thesis by (auto simp: posting_def card_gt_0_iff)
  qed
  ultimately show ?thesis by blast
qed

lemma sem_try_reach:
  "\<exists>s. s_reach 1 s \<and> passed s = 1 \<and> posted s = 0 \<and> sph s 4096 = SIdle \<and> atomic_read (s_count (sm s)) = 0 \<and> s_wait (sm s) = []"
proof -
  obtain sleep m where w: "sema_wait_section 4096 (sm (s_init 1)) = (sleep, m)" by fastforce
  have read: "atomic_read (s_count (sm (s_init 1))) = 1" using atomic_read_init [of 1] by (simp add: s_init_def)
  then have room: "sem_room (sm (s_init 1))" by (simp add: sem_room_def)
  have m: "\<not> sleep" "atomic_read (s_count m) = 0" "s_wait m = []"
    using sem_dec [OF room, of 4096] w read by (auto simp: s_init_def sema_init_def)
  have "s_step (s_init 1) (if sleep then (s_init 1)\<lparr>sm := m, sph := (sph (s_init 1))(4096 := SSleep)\<rparr>
      else (s_init 1)\<lparr>sm := m, passed := passed (s_init 1) + 1\<rparr>)"
    by (rule wait [OF _ _ room w]) (simp_all add: s_init_def NULL_def)
  then have "s_reach 1 ((s_init 1)\<lparr>sm := m, passed := passed (s_init 1) + 1\<rparr>)"
    using s_reach_step [OF s_reach_init] m(1) by simp
  then show ?thesis using m by (intro exI conjI) (auto simp: s_init_def)
qed

theorem semaphore_bound_witness:
  "\<exists>s. s_reach 1 s \<and> passed s = 1 \<and> int (passed s) \<le> 1 + int (posted s)"
proof -
  obtain s where s: "s_reach 1 s" "passed s = 1" using sem_try_reach by blast
  with semaphore_bound [OF s(1)] show ?thesis by auto
qed

text \<open>C29: the wake-up in \<open>sema_post\<close>, which does not test whether the list is empty, always finds a
  sleeping thread.\<close>

theorem sema_post_finds_sleeper:
  assumes "s_reach v s" "0 \<le> v" "v < 2147483648" "sph s t = SPost"
  shows "\<exists>u m. sema_post_pop (sm s) = Some (u, m) \<and> sph s u = SSleep"
  using post_finds_waiter [OF s_reach_inv [OF assms(1-3)] assms(4)] by metis

theorem sema_post_finds_sleeper_witness:
  "\<exists>s. s_reach 0 s \<and> sph s 8192 = SPost \<and> (\<exists>u m. sema_post_pop (sm s) = Some (u, m) \<and> sph s u = SSleep)"
proof -
  let ?s0 = "s_init 0"
  obtain sleep m where w: "sema_wait_section 4096 (sm ?s0) = (sleep, m)" by fastforce
  have read: "atomic_read (s_count (sm ?s0)) = 0" using atomic_read_init [of 0] by (simp add: s_init_def)
  then have room: "sem_room (sm ?s0)" by (simp add: sem_room_def)
  have m: "sleep" "atomic_read (s_count m) = - 1"
    using sem_dec [OF room, of 4096] w read by auto
  let ?s1 = "?s0\<lparr>sm := m, sph := (sph ?s0)(4096 := SSleep)\<rparr>"
  have "s_step ?s0 (if sleep then ?s1 else ?s0\<lparr>sm := m, passed := passed ?s0 + 1\<rparr>)"
    by (rule wait [OF _ _ room w]) (simp_all add: s_init_def NULL_def)
  then have r1: "s_reach 0 ?s1" using s_reach_step [OF s_reach_init] m(1) by simp
  obtain wake m2 where p: "sema_post_inc (sm ?s1) = (wake, m2)" by fastforce
  have room1: "sem_room (sm ?s1)" using m(2) by (simp add: sem_room_def)
  have wake: "wake" using sem_inc(2) [OF room1] p m(2) by simp
  let ?s2 = "?s1\<lparr>sm := m2, posted := posted ?s1 + 1, sph := (if wake then (sph ?s1)(8192 := SPost) else sph ?s1)\<rparr>"
  have "s_step ?s1 ?s2"
    by (rule post_inc [OF _ _ room1 p]) (simp_all add: s_init_def NULL_def)
  then have r2: "s_reach 0 ?s2" by (rule s_reach_step [OF r1])
  have "sph ?s2 8192 = SPost" using wake by simp
  with sema_post_finds_sleeper [OF r2, of 8192] r2 show ?thesis by auto
qed

text \<open>C28: a reader/writer lock never has a writer together with another writer or a reader.\<close>

theorem rwlock_exclusion:
  assumes "r_reach s" "rph s t = WWrite" "rph s u = WWrite \<or> rph s u = RRead"
  shows "u = t"
proof -
  have t: "t \<in> writers (rph s)" and u: "u \<in> writers (rph s) \<or> u \<in> readers (rph s)"
    using assms(2,3) unfolding readers_def writers_def by blast+
  show ?thesis using u by (simp add: r_inv_writer [OF r_reach_inv [OF assms(1)] t])
qed

definition r_writing :: "tid \<Rightarrow> rstate" where
  "r_writing t = r_init\<lparr>rwl := (rwl r_init)\<lparr>rw_count := - 1\<rparr>, rph := (rph r_init)(t := WWrite)\<rparr>"

lemma r_writing_reach: "r_reach (r_writing t)"
proof -
  have att: "rwlock_write_try t (rwl r_init) = (False, (rwl r_init)\<lparr>rw_count := - 1\<rparr>)"
    by (simp add: rwlock_write_try_def r_init_def rwlock_init_def)
  have "rph r_init t = RIdle \<or> rph r_init t = WTry" by (simp add: r_init_def)
  from r_reach_step [OF r_reach_init write_try [OF this att]] show ?thesis
    by (simp add: r_writing_def)
qed

theorem rwlock_exclusion_witness:
  "rph (r_writing 4096) 4096 = WWrite \<and> rph (r_writing 4096) 8192 \<noteq> RRead"
proof -
  have w: "rph (r_writing 4096) 4096 = WWrite" by (simp add: r_writing_def)
  have "rph (r_writing 4096) 8192 \<noteq> RRead"
    using rwlock_exclusion [OF r_writing_reach w, of 8192] by auto
  with w show ?thesis by blast
qed

text \<open>A writer that gets the lock without waiting can release it only if \<open>ready_write\<close>, which
  \<open>rwlock_write_release\<close> asserts, has been set by another writer that had to wait: otherwise it panics.\<close>

theorem rwlock_writer_panics:
  assumes "rw_count rw = 0"
  shows "\<exists>rw'. rwlock_write_acquire k rw = Some (k, rw') \<and>
    (rwlock_write_release k rw' = None \<longleftrightarrow> \<not> ready_write rw)"
  using assms
  by (cases "ready_write rw")
    (simp_all add: rwlock_write_acquire_def rwlock_write_try_def rwlock_write_release_def critical_section Let_def split_def)

end
