(* ===== verification/Id_Alloc.thy ===== *)
theory Id_Alloc
  imports Prelude
begin

text \<open>
  The contract of an allocator of numbers. The kernel has several: the addresses of
  \<open>kmalloc\<close>, the bits of lib/kernel/bitmap.c, the process numbers of user/process.c on top of one
  map, the inode and block numbers of fs/inode.c on top of two more. \<open>used\<close> is the set of numbers in
  use, \<open>ids\<close> bounds what is handed out, and a request may carry a parameter: the contract covers the
  requests that are \<open>fit\<close>.
\<close>

datatype 'r id_op = Alloc 'r | Free nat

locale allocator =
  fixes inv :: "'s \<Rightarrow> bool"
    and ids :: "nat set"
    and used :: "'s \<Rightarrow> nat set"
    and fit :: "'r \<Rightarrow> bool"
    and alloc :: "'r \<Rightarrow> 's \<Rightarrow> (nat \<times> 's) option"
    and free :: "'s \<Rightarrow> nat \<Rightarrow> 's option"
  assumes alloc_ok:
      "inv s \<Longrightarrow> fit r \<Longrightarrow> alloc r s = Some (i, s') \<Longrightarrow> inv s' \<and> i \<in> ids \<and> i \<notin> used s \<and> used s' = insert i (used s)"
    and free_ok: "inv s \<Longrightarrow> i \<in> used s \<Longrightarrow> i \<in> ids \<Longrightarrow>
      \<exists>s'. free s i = Some s' \<and> inv s' \<and> used s' = used s - {i}"
begin

text \<open>A number that was handed out can be given back, which restores the set in use.\<close>

lemma alloc_free:
  assumes "inv s" "fit r" "alloc r s = Some (i, s')"
  shows "\<exists>s''. free s' i = Some s'' \<and> inv s'' \<and> used s'' = used s"
proof -
  have "inv s'" "i \<in> ids" "i \<notin> used s" "used s' = insert i (used s)"
    using alloc_ok [OF assms] by auto
  then show ?thesis using free_ok [of s' i] by auto
qed

text \<open>
  A run of the allocator by clients that only give back what they hold: \<open>own\<close> is the list of
  numbers held. The run keeps the numbers held distinct and in use.
\<close>

fun run_ids :: "'s \<Rightarrow> nat list \<Rightarrow> 'r id_op list \<Rightarrow> ('s \<times> nat list) option" where
  "run_ids s own [] = Some (s, own)"
| "run_ids s own (Alloc r # ops) =
     (case alloc r s of None \<Rightarrow> None | Some (i, s') \<Rightarrow> run_ids s' (i # own) ops)"
| "run_ids s own (Free i # ops) =
     (if i \<in> set own
      then (case free s i of None \<Rightarrow> None | Some s' \<Rightarrow> run_ids s' (remove1 i own) ops)
      else run_ids s own ops)"

lemma run_distinct:
  "inv s \<Longrightarrow> distinct own \<Longrightarrow> set own \<subseteq> used s \<Longrightarrow> set own \<subseteq> ids \<Longrightarrow>
   run_ids s own ops = Some (s', own') \<Longrightarrow> (\<And>r. Alloc r \<in> set ops \<Longrightarrow> fit r) \<Longrightarrow>
   inv s' \<and> distinct own' \<and> set own' \<subseteq> ids \<and> set own' \<subseteq> used s' \<and>
   used s' - set own' = used s - set own"
proof (induction s own ops rule: run_ids.induct)
  case (2 s own r ops)
  then obtain i t where t: "alloc r s = Some (i, t)" "run_ids t (i # own) ops = Some (s', own')"
    by (auto split: option.splits)
  have ok: "inv t" "i \<in> ids" "i \<notin> used s" "used t = insert i (used s)"
    using alloc_ok [OF 2(2) _ t(1)] 2(7) [of r] by auto
  have "inv s' \<and> distinct own' \<and> set own' \<subseteq> ids \<and> set own' \<subseteq> used s' \<and>
      used s' - set own' = used t - set (i # own)"
    by (rule 2(1) [OF t(1) refl]) (use 2 ok t in auto)
  with ok show ?case by auto
next
  case (3 s own i ops)
  show ?case
  proof (cases "i \<in> set own")
    case True
    then obtain t where t: "free s i = Some t" "inv t" "used t = used s - {i}"
      using 3 free_ok [of s i] by blast
    have own: "distinct (remove1 i own)" "set (remove1 i own) = set own - {i}"
      using 3 by (auto simp: set_remove1_eq)
    have "inv s' \<and> distinct own' \<and> set own' \<subseteq> ids \<and> set own' \<subseteq> used s' \<and>
        used s' - set own' = used t - set (remove1 i own)"
      by (rule 3(1) [OF True t(1)]) (use 3 t own True in auto)
    with t own True show ?thesis by auto
  next
    case False
    then show ?thesis using 3 by simp
  qed
qed auto

end

text \<open>An allocator of the numbers below \<open>lim\<close> that fails only when all are in use.\<close>

locale id_allocator = allocator inv "{..<lim}" used "\<lambda>_ :: unit. True" "\<lambda>_ :: unit. alloc" free
  for inv :: "'s \<Rightarrow> bool" and lim used and alloc :: "'s \<Rightarrow> (nat \<times> 's) option" and free +
  assumes alloc_total: "inv s \<Longrightarrow> \<not> {..<lim} \<subseteq> used s \<Longrightarrow> \<exists>r. alloc s = Some r"
begin

lemma alloc_iff: "inv s \<Longrightarrow> (\<exists>r. alloc s = Some r) \<longleftrightarrow> \<not> {..<lim} \<subseteq> used s"
  using alloc_ok alloc_total by fastforce

lemma run_total:
  "inv s \<Longrightarrow> distinct own \<Longrightarrow> set own \<subseteq> used s \<Longrightarrow> set own \<subseteq> {..<lim} \<Longrightarrow> used s \<inter> {..<lim} = set own \<Longrightarrow>
   length own + length (List.filter (\<lambda>op. op = Alloc ()) ops) \<le> lim \<Longrightarrow>
   \<exists>s' own'. run_ids s own ops = Some (s', own')"
proof (induction s own ops rule: run_ids.induct)
  case (2 s own r ops)
  have "card (used s \<inter> {..<lim}) < lim"
    using 2 by (simp add: distinct_card)
  then have "\<not> {..<lim} \<subseteq> used s"
    by (metis card_lessThan inf.absorb_iff2 less_irrefl)
  then obtain i t where t: "alloc s = Some (i, t)"
    using alloc_total [OF 2(2)] by auto
  have ok: "inv t" "i < lim" "i \<notin> used s" "used t = insert i (used s)"
    using alloc_ok [OF 2(2) TrueI t(1)] by auto
  have "\<exists>s' own'. run_ids t (i # own) ops = Some (s', own')"
    by (rule 2(1) [OF t refl]) (use 2 ok in auto)
  with t show ?case by simp
next
  case (3 s own i ops)
  show ?case
  proof (cases "i \<in> set own")
    case True
    then obtain t where t: "free s i = Some t" "inv t" "used t = used s - {i}"
      using 3 free_ok [of s i] by blast
    have own: "distinct (remove1 i own)" "set (remove1 i own) = set own - {i}"
      "length (remove1 i own) \<le> length own"
      using 3 by (auto simp: set_remove1_eq length_remove1)
    have "\<exists>s' own'. run_ids t (remove1 i own) ops = Some (s', own')"
      by (rule 3(1) [OF True t(1)]) (use 3 t own True in auto)
    with t True show ?thesis by simp
  next
    case False
    then show ?thesis using 3 by simp
  qed
qed auto

end

text \<open>An allocator that stops the kernel when a free number is given back.\<close>

locale checked_allocator = id_allocator +
  assumes free_unused: "inv s \<Longrightarrow> i \<notin> used s \<Longrightarrow> free s i = None"
begin

lemma double_free:
  assumes "inv s" "i \<in> used s" "i < lim" "free s i = Some s'"
  shows "free s' i = None"
proof -
  have "inv s'" "i \<notin> used s'" using free_ok [OF assms(1,2)] assms(3,4) by auto
  then show ?thesis by (rule free_unused)
qed

end

end
