(* ===== verification/Bitmap.thy ===== *)
theory Bitmap
  imports Sync Id_Alloc
begin

text \<open>
  lib/kernel/bitmap.c: the allocation bitmaps of the page allocator, the process table and the
  file system. The bytes are the memory from \<open>bmap->bits\<close> on, so a read past \<open>byte_size\<close> reads
  whatever lies there; 32-bit reads are little endian. Every operation takes the bitmap's mutex
  as the code does, and the operations call each other under the lock.
\<close>

section \<open>State\<close>

record bitmap =
  bits :: "nat \<Rightarrow> u8"
  byte_size :: nat
  b_lock :: mutex

definition lock_bitmap :: "'a sys_scheme \<Rightarrow> bitmap \<Rightarrow> ('a sys_scheme \<times> bitmap) option" where
  "lock_bitmap k b = do { (k, l) \<leftarrow> mutex_acquire k (b_lock b); Some (k, b\<lparr>b_lock := l\<rparr>) }"

definition unlock_bitmap :: "'a sys_scheme \<Rightarrow> bitmap \<Rightarrow> ('a sys_scheme \<times> bitmap) option" where
  "unlock_bitmap k b = do { (k, l) \<leftarrow> mutex_release k (b_lock b); Some (k, b\<lparr>b_lock := l\<rparr>) }"

definition word32_at :: "(nat \<Rightarrow> u8) \<Rightarrow> nat \<Rightarrow> u32" where
  "word32_at f p = ucast (f p) OR push_bit 8 (ucast (f (p + 1)))
     OR push_bit 16 (ucast (f (p + 2))) OR push_bit 24 (ucast (f (p + 3)))"

section \<open>Operations\<close>

text \<open>The two loops of \<open>bitmap_init\<close>: clear all bytes but the last, pad the last one with ones.\<close>

function zero_bytes :: "nat \<Rightarrow> nat \<Rightarrow> (nat \<Rightarrow> u8) \<Rightarrow> nat \<Rightarrow> u8" where
  "zero_bytes i n f = (if i < n then zero_bytes (i + 1) n (f(i := 0)) else f)"
  by pat_completeness auto
termination
  by (relation "measure (\<lambda>(i, n, f). n - i)") auto

fun pad_bits :: "nat \<Rightarrow> nat \<Rightarrow> u8 \<Rightarrow> u8" where
  "pad_bits i lim w = (if lim < i then pad_bits (i - 1) lim (w OR push_bit i 1) else w)"

definition bitmap_init :: "bitmap \<Rightarrow> nat \<Rightarrow> bitmap option" where
  "bitmap_init b nbits = do {
     ASSERT (0 < nbits);
     let b = b\<lparr>byte_size := DIV_ROUND_UP nbits 8\<rparr>;
     let b = b\<lparr>bits := zero_bytes 0 (byte_size b - 1) (bits b)\<rparr>;
     let last_byte = pad_bits 7 ((nbits + 7) mod 8) 0;
     let b = b\<lparr>bits := (bits b)(byte_size b - 1 := last_byte)\<rparr>;
     Some (b\<lparr>b_lock := mutex_lock_init\<rparr>) }"

definition bitmap_set :: "'a sys_scheme \<Rightarrow> bitmap \<Rightarrow> nat \<Rightarrow> ('a sys_scheme \<times> bitmap) option" where
  "bitmap_set k b idx = do {
     (k, b) \<leftarrow> lock_bitmap k b;
     ASSERT (bits b (idx div 8) AND push_bit (idx mod 8) 1 = 0);
     let b = b\<lparr>bits := (bits b)(idx div 8 := bits b (idx div 8) OR push_bit (idx mod 8) 1)\<rparr>;
     unlock_bitmap k b }"

definition bitmap_reset :: "'a sys_scheme \<Rightarrow> bitmap \<Rightarrow> nat \<Rightarrow> ('a sys_scheme \<times> bitmap) option" where
  "bitmap_reset k b idx = do {
     (k, b) \<leftarrow> lock_bitmap k b;
     ASSERT (bits b (idx div 8) AND push_bit (idx mod 8) 1 \<noteq> 0);
     let b = b\<lparr>bits := (bits b)(idx div 8 := bits b (idx div 8) AND NOT (push_bit (idx mod 8) 1))\<rparr>;
     unlock_bitmap k b }"

text \<open>The inner loop of the scan: the first clear bit of a word from bit \<open>i\<close> below \<open>n\<close>.\<close>

function scan_bits :: "u32 \<Rightarrow> nat \<Rightarrow> nat \<Rightarrow> nat option" where
  "scan_bits w i n =
     (if i < n then (if w AND push_bit i 1 = 0 then Some i else scan_bits w (i + 1) n) else None)"
  by pat_completeness auto
termination
  by (relation "measure (\<lambda>(w, i, n). n - i)") auto

text \<open>The word loop from word \<open>idx\<close>: the bit number found, or the word after the last whole one.\<close>

function scan_words :: "(nat \<Rightarrow> u8) \<Rightarrow> nat \<Rightarrow> nat \<Rightarrow> nat option" where
  "scan_words f idx n =
     (if idx < n
      then (let w = word32_at f (4 * idx) in
        if w \<noteq> - 1
        then (case scan_bits w 0 32 of
                Some i \<Rightarrow> Some (idx * 32 + i)
              | None \<Rightarrow> scan_words f (idx + 1) n)
        else scan_words f (idx + 1) n)
      else None)"
  by pat_completeness auto
termination
  by (relation "measure (\<lambda>(f, idx, n). n - idx)") auto

definition bitmap_scan :: "'a sys_scheme \<Rightarrow> bitmap \<Rightarrow> (int \<times> 'a sys_scheme \<times> bitmap) option" where
  "bitmap_scan k b = do {
     (k, b) \<leftarrow> lock_bitmap k b;
     let n = byte_size b div 4;
     (case scan_words (bits b) 0 n of
        Some r \<Rightarrow> do { (k, b) \<leftarrow> unlock_bitmap k b; Some (to_int32 (int r), k, b) }
      | None \<Rightarrow>
          (case scan_bits (word32_at (bits b) (4 * n)) 0 (byte_size b mod 4 * 8) of
             Some i \<Rightarrow> do { (k, b) \<leftarrow> unlock_bitmap k b; Some (to_int32 (int (n * 32 + i)), k, b) }
           | None \<Rightarrow> do { (k, b) \<leftarrow> unlock_bitmap k b; PANIC })) }"

text \<open>
  The loops of \<open>bitmap_scan_series\<close>. \<open>series_bits\<close> runs over the 32 bits of a word with the
  countdown \<open>count\<close>: \<open>Inl i\<close> when it reaches zero at bit \<open>i\<close>, else \<open>Inr\<close> of the countdown left.
  \<open>series_words\<close> is the two nested \<open>while\<close> loops, one word at a time: the inner body for a word
  with a clear bit, the outer increment (which leaves \<open>count\<close> as it is) for a full word.
\<close>

function series_bits :: "u32 \<Rightarrow> nat \<Rightarrow> int \<Rightarrow> int \<Rightarrow> nat + int" where
  "series_bits w i cnt count =
     (if i < 32
      then (if w AND push_bit i 1 = 0
            then (if count - 1 = 0 then Inl i else series_bits w (i + 1) cnt (count - 1))
            else series_bits w (i + 1) cnt cnt)
      else Inr count)"
  by pat_completeness auto
termination
  by (relation "measure (\<lambda>(w, i, cnt, count). 32 - i)") auto

function series_words :: "(nat \<Rightarrow> u8) \<Rightarrow> nat \<Rightarrow> nat \<Rightarrow> int \<Rightarrow> int \<Rightarrow> (nat \<times> nat) + int" where
  "series_words f idx n cnt count =
     (if idx < n
      then (let w = word32_at f (4 * idx) in
        if w \<noteq> - 1
        then (case series_bits w 0 cnt count of
                Inl i \<Rightarrow> Inl (idx, i)
              | Inr count \<Rightarrow> series_words f (idx + 1) n cnt count)
        else series_words f (idx + 1) n cnt count)
      else Inr count)"
  by pat_completeness auto
termination
  by (relation "measure (\<lambda>(f, idx, n, cnt, count). n - idx)") auto

text \<open>The loop over the tail: its body is a whole pass over the word, repeated \<open>n\<close> times.\<close>

fun series_tail :: "nat \<Rightarrow> u32 \<Rightarrow> int \<Rightarrow> int \<Rightarrow> nat option" where
  "series_tail 0 w cnt count = None"
| "series_tail (Suc n) w cnt count =
     (case series_bits w 0 cnt count of
        Inl i \<Rightarrow> Some i
      | Inr count \<Rightarrow> series_tail n w cnt count)"

definition bitmap_scan_series ::
  "'a sys_scheme \<Rightarrow> bitmap \<Rightarrow> int \<Rightarrow> (int \<times> 'a sys_scheme \<times> bitmap) option" where
  "bitmap_scan_series k b cnt = do {
     (k, b) \<leftarrow> lock_bitmap k b;
     ASSERT (0 < cnt);
     if cnt = 1 then bitmap_scan k b
     else (let n = byte_size b div 4 in
       case series_words (bits b) 0 n cnt cnt of
         Inl (idx, i) \<Rightarrow> do {
           (k, b) \<leftarrow> unlock_bitmap k b;
           Some (to_int32 (int idx * 32 + int i - cnt + 1), k, b) }
       | Inr count \<Rightarrow>
           (case series_tail (byte_size b mod 4 * 8) (word32_at (bits b) (4 * n)) cnt count of
              Some i \<Rightarrow> do {
                (k, b) \<leftarrow> unlock_bitmap k b;
                Some (to_int32 (int n * 32 + int i - cnt + 1), k, b) }
            | None \<Rightarrow> PANIC)) }"

function set_loop ::
  "('a sys_scheme \<Rightarrow> bitmap \<Rightarrow> nat \<Rightarrow> ('a sys_scheme \<times> bitmap) option) \<Rightarrow> nat \<Rightarrow> nat \<Rightarrow> nat \<Rightarrow>
   'a sys_scheme \<Rightarrow> bitmap \<Rightarrow> ('a sys_scheme \<times> bitmap) option" where
  "set_loop f start_idx n cnt k b =
     (if n < cnt
      then (case f k b (start_idx + n) of
              None \<Rightarrow> None
            | Some (k, b) \<Rightarrow> set_loop f start_idx (n + 1) cnt k b)
      else Some (k, b))"
  by pat_completeness auto
termination
  by (relation "measure (\<lambda>(f, start_idx, n, cnt, k, b). cnt - n)") auto

definition bitmap_set_series ::
  "'a sys_scheme \<Rightarrow> bitmap \<Rightarrow> nat \<Rightarrow> nat \<Rightarrow> ('a sys_scheme \<times> bitmap) option" where
  "bitmap_set_series k b start_idx cnt = do {
     (k, b) \<leftarrow> lock_bitmap k b;
     ASSERT (0 < cnt);
     (k, b) \<leftarrow> set_loop bitmap_set start_idx 0 cnt k b;
     unlock_bitmap k b }"

definition bitmap_reset_series ::
  "'a sys_scheme \<Rightarrow> bitmap \<Rightarrow> nat \<Rightarrow> nat \<Rightarrow> ('a sys_scheme \<times> bitmap) option" where
  "bitmap_reset_series k b start_idx cnt = do {
     (k, b) \<leftarrow> lock_bitmap k b;
     ASSERT (0 < cnt);
     (k, b) \<leftarrow> set_loop bitmap_reset start_idx 0 cnt k b;
     unlock_bitmap k b }"

definition bitmap_scan_set :: "'a sys_scheme \<Rightarrow> bitmap \<Rightarrow> (int \<times> 'a sys_scheme \<times> bitmap) option" where
  "bitmap_scan_set k b = do {
     (k, b) \<leftarrow> lock_bitmap k b;
     (idx, k, b) \<leftarrow> bitmap_scan k b;
     ASSERT (0 \<le> idx);
     (k, b) \<leftarrow> bitmap_set k b (nat idx);
     (k, b) \<leftarrow> unlock_bitmap k b;
     Some (idx, k, b) }"

definition bitmap_scan_set_series ::
  "'a sys_scheme \<Rightarrow> bitmap \<Rightarrow> int \<Rightarrow> (int \<times> 'a sys_scheme \<times> bitmap) option" where
  "bitmap_scan_set_series k b cnt = do {
     (k, b) \<leftarrow> lock_bitmap k b;
     (idx, k, b) \<leftarrow> bitmap_scan_series k b cnt;
     ASSERT (0 \<le> idx);
     (k, b) \<leftarrow> bitmap_set_series k b (nat idx) (nat cnt);
     (k, b) \<leftarrow> unlock_bitmap k b;
     Some (idx, k, b) }"

definition bitmap_is_set :: "bitmap \<Rightarrow> nat \<Rightarrow> bool" where
  "bitmap_is_set b idx = (0 < bits b (idx div 8) AND push_bit (idx mod 8) 1)"

definition bitmap_reverse :: "'a sys_scheme \<Rightarrow> bitmap \<Rightarrow> nat \<Rightarrow> (int \<times> 'a sys_scheme \<times> bitmap) option" where
  "bitmap_reverse k b idx = do {
     (k, b) \<leftarrow> lock_bitmap k b;
     (ret, k, b) \<leftarrow> (if bitmap_is_set b idx
        then do { (k, b) \<leftarrow> bitmap_reset k b idx; Some (0, k, b) }
        else do { (k, b) \<leftarrow> bitmap_set k b idx; Some (1, k, b) });
     (k, b) \<leftarrow> unlock_bitmap k b;
     Some (ret, k, b) }"

declare zero_bytes.simps [simp del] pad_bits.simps [simp del] scan_bits.simps [simp del]
  scan_words.simps [simp del] series_bits.simps [simp del] series_words.simps [simp del]
  set_loop.simps [simp del]

section \<open>Bits of the map\<close>

definition bit_at :: "(nat \<Rightarrow> u8) \<Rightarrow> nat \<Rightarrow> bool" where
  "bit_at f i = bit (f (i div 8)) (i mod 8)"

definition bit_put :: "(nat \<Rightarrow> u8) \<Rightarrow> nat \<Rightarrow> bool \<Rightarrow> nat \<Rightarrow> u8" where
  "bit_put f i v = f(i div 8 := (if v then f (i div 8) OR push_bit (i mod 8) 1
                                 else f (i div 8) AND NOT (push_bit (i mod 8) 1)))"

lemma bit_at_put [simp]: "bit_at (bit_put f i v) j = (if j = i then v else bit_at f j)"
proof (cases "j div 8 = i div 8")
  case True
  then have "j mod 8 = i mod 8 \<longleftrightarrow> j = i"
    by (metis div_mult_mod_eq)
  with True show ?thesis
    by (auto simp: bit_at_def bit_put_def bits_at)
next
  case False
  then show ?thesis by (auto simp: bit_at_def bit_put_def)
qed

lemma bit_word32_at:
  "bit (word32_at f p) j \<longleftrightarrow> j < 32 \<and> bit (f (p + j div 8)) (j mod 8)"
proof (cases "j < 32")
  case True
  consider "j < 8" | "8 \<le> j" "j < 16" | "16 \<le> j" "j < 24" | "24 \<le> j" "j < 32"
    using True by linarith
  then show ?thesis
  proof cases
    case 1 then show ?thesis by (simp add: word32_at_def bit_simps)
  next
    case 2
    then have "j div 8 = 1" "j mod 8 = j - 8" by (auto simp: div_if mod_if)
    with 2 show ?thesis
      by (auto simp: word32_at_def bit_simps dest: bit_imp_le_length)
  next
    case 3
    then have "j div 8 = 2" "j mod 8 = j - 16" by (auto simp: div_if mod_if)
    with 3 show ?thesis
      by (auto simp: word32_at_def bit_simps dest: bit_imp_le_length)
  next
    case 4
    then have "j div 8 = 3" "j mod 8 = j - 24" by (auto simp: div_if mod_if)
    with 4 show ?thesis
      by (auto simp: word32_at_def bit_simps dest: bit_imp_le_length)
  qed
next
  case False
  then show ?thesis by (auto dest: bit_imp_le_length)
qed

lemma bit_word32_at_word:
  "j < 32 \<Longrightarrow> bit (word32_at f (4 * idx)) j \<longleftrightarrow> bit_at f (32 * idx + j)"
proof -
  have "32 * idx + j = j + 8 * (4 * idx)" by simp
  then have "(32 * idx + j) div 8 = 4 * idx + j div 8" "(32 * idx + j) mod 8 = j mod 8"
    by (simp_all only: div_mult_self2 mod_mult_self2 zero_neq_numeral not_False_eq_True)
  then show "j < 32 \<Longrightarrow> ?thesis" by (simp add: bit_word32_at bit_at_def)
qed

section \<open>The scan\<close>

abbreviation first_clear :: "(nat \<Rightarrow> u8) \<Rightarrow> nat \<Rightarrow> nat \<Rightarrow> nat option" where
  "first_clear f i n \<equiv> find (\<lambda>j. \<not> bit_at f j) [i..<n]"

lemma first_clear_split:
  "i \<le> m \<Longrightarrow> m \<le> n \<Longrightarrow>
   first_clear f i n = (case first_clear f i m of None \<Rightarrow> first_clear f m n | Some j \<Rightarrow> Some j)"
proof -
  assume "i \<le> m" "m \<le> n"
  then have "[i..<n] = [i..<m] @ [m..<n]"
    by (metis le_Suc_ex upt_add_eq_append)
  moreover have "find P (xs @ ys) = (case find P xs of None \<Rightarrow> find P ys | Some j \<Rightarrow> Some j)"
    for P :: "nat \<Rightarrow> bool" and xs ys
    by (induction xs) auto
  ultimately show ?thesis by simp
qed

lemma first_clear_SomeD:
  "first_clear f i n = Some j \<Longrightarrow> i \<le> j \<and> j < n \<and> \<not> bit_at f j \<and> (\<forall>l. i \<le> l \<and> l < j \<longrightarrow> bit_at f l)"
proof -
  assume "first_clear f i n = Some j"
  then obtain p where p: "p < length [i..<n]" "\<not> bit_at f ([i..<n] ! p)" "j = [i..<n] ! p"
    "\<forall>q<p. bit_at f ([i..<n] ! q)"
    by (auto simp: find_Some_iff)
  then have "j = i + p" "i + p < n" by auto
  moreover have "bit_at f l" if "i \<le> l" "l < j" for l
    using p(4) [rule_format, of "l - i"] that \<open>j = i + p\<close> \<open>i + p < n\<close> by simp
  ultimately show ?thesis using p by auto
qed

lemma scan_bits_find:
  "n \<le> 32 \<Longrightarrow> scan_bits w i n = find (\<lambda>j. \<not> bit w j) [i..<n]"
proof (induction w i n rule: scan_bits.induct)
  case (1 w i n)
  show ?case
  proof (cases "i < n")
    case True
    then show ?thesis
      using 1 by (subst scan_bits.simps) (simp add: and_push_eq_0 upt_conv_Cons)
  qed (subst scan_bits.simps, simp)
qed

lemma find_shift: "find P [a..<n + a] = map_option (\<lambda>j. j + a) (find (\<lambda>j. P (j + a)) [0..<n])"
proof -
  have "find P (map g xs) = map_option g (find (\<lambda>j. P (g j)) xs)" for g :: "nat \<Rightarrow> nat" and xs
    by (induction xs) auto
  from this [of "\<lambda>j. j + a" "[0..<n]"] show ?thesis by (simp add: map_add_upt)
qed

lemma scan_bits_word:
  assumes "m \<le> 32"
  shows "map_option ((+) (idx * 32)) (scan_bits (word32_at f (4 * idx)) 0 m)
           = first_clear f (32 * idx) (32 * idx + m)"
proof -
  have "find (\<lambda>j. \<not> bit (word32_at f (4 * idx)) j) [0..<m] = find (\<lambda>j. \<not> bit_at f (j + 32 * idx)) [0..<m]"
    using assms by (intro find_cong) (auto simp: bit_word32_at_word add.commute)
  with assms show ?thesis
    using find_shift [of "\<lambda>j. \<not> bit_at f j" "32 * idx" m]
    by (simp add: scan_bits_find add.commute mult.commute cong: map_option_cong)
qed

lemma scan_words_find:
  "idx \<le> n \<Longrightarrow> scan_words f idx n = first_clear f (32 * idx) (32 * n)"
proof (induction f idx n rule: scan_words.induct)
  case (1 f idx n)
  show ?case
  proof (cases "idx < n")
    case True
    let ?w = "word32_at f (4 * idx)"
    have word: "first_clear f (32 * idx) (32 * (idx + 1)) = map_option ((+) (idx * 32)) (scan_bits ?w 0 32)"
      using scan_bits_word [of 32 idx f] by (simp add: algebra_simps)
    have full: "?w = - 1 \<Longrightarrow> scan_bits ?w 0 32 = None"
      by (simp add: scan_bits_find find_None_iff)
    show ?thesis
      using 1 True word full
      by (subst scan_words.simps)
         (auto simp: Let_def first_clear_split [of "32 * idx" "32 * (idx + 1)" "32 * n"] split: option.splits)
  qed (use 1 in \<open>subst scan_words.simps, simp\<close>)
qed

text \<open>Both loops together: the whole map is searched in order, tail bytes included.\<close>

lemma scan_whole_map:
  "(case scan_words f 0 (sz div 4) of
      Some r \<Rightarrow> Some r
    | None \<Rightarrow> map_option ((+) (sz div 4 * 32)) (scan_bits (word32_at f (4 * (sz div 4))) 0 (sz mod 4 * 8)))
   = first_clear f 0 (8 * sz)"
proof -
  have split: "8 * sz = 32 * (sz div 4) + sz mod 4 * 8"
    using div_mult_mod_eq [of sz 4] by linarith
  have "sz mod 4 < 4" by simp
  then have "sz mod 4 * 8 \<le> 32" by linarith
  then have tail: "map_option ((+) (sz div 4 * 32)) (scan_bits (word32_at f (4 * (sz div 4))) 0 (sz mod 4 * 8))
      = first_clear f (32 * (sz div 4)) (8 * sz)"
    by (simp only: scan_bits_word split [symmetric])
  show ?thesis
    using first_clear_split [of 0 "32 * (sz div 4)" "8 * sz" f]
    by (simp only: tail scan_words_find) (simp add: split)
qed

section \<open>What each operation does for the thread that holds the lock \<open>n\<close> times\<close>

definition lock_at :: "nat \<Rightarrow> 'a sys_scheme \<Rightarrow> bitmap \<Rightarrow> bool" where
  "lock_at n k b \<longleftrightarrow> current k \<noteq> NULL \<and> b_lock b = mutex_at (current k) n \<and> n + 4 < 2 ^ 32"

lemma lock_bitmap_at: "lock_at n k b \<Longrightarrow> lock_bitmap k b = Some (k, b\<lparr>b_lock := mutex_at (current k) (Suc n)\<rparr>)"
  by (simp add: lock_bitmap_def lock_at_def mutex_acquire_at)

lemma unlock_bitmap_at:
  assumes "lock_at n k b"
  shows "unlock_bitmap k (b\<lparr>b_lock := mutex_at (current k) (Suc n)\<rparr>) = Some (k, b)"
    and "unlock_bitmap k (b\<lparr>b_lock := mutex_at (current k) (Suc n), bits := f\<rparr>) = Some (k, b\<lparr>bits := f\<rparr>)"
proof -
  have "b\<lparr>b_lock := mutex_at (current k) n\<rparr> = b"
    "b\<lparr>bits := f, b_lock := mutex_at (current k) n\<rparr> = b\<lparr>bits := f\<rparr>"
    using assms by (cases b; simp add: lock_at_def)+
  moreover have "Suc n < 2 ^ 32" using assms by (simp add: lock_at_def)
  ultimately show
    "unlock_bitmap k (b\<lparr>b_lock := mutex_at (current k) (Suc n)\<rparr>) = Some (k, b)"
    "unlock_bitmap k (b\<lparr>b_lock := mutex_at (current k) (Suc n), bits := f\<rparr>) = Some (k, b\<lparr>bits := f\<rparr>)"
    by (simp_all add: unlock_bitmap_def mutex_release_at)
qed

lemma lock_at_Suc:
  "lock_at n k b \<Longrightarrow> Suc n + 4 < 2 ^ 32 \<Longrightarrow> lock_at (Suc n) k (b\<lparr>b_lock := mutex_at (current k) (Suc n)\<rparr>)"
  by (simp add: lock_at_def)

lemmas under_lock = lock_bitmap_at unlock_bitmap_at

lemma byte_bit_clear: "bits b (i div 8) AND push_bit (i mod 8) 1 = 0 \<longleftrightarrow> \<not> bit_at (bits b) i"
  by (simp add: and_push_eq_0 bit_at_def)

lemma bitmap_is_set_eq: "bitmap_is_set b i \<longleftrightarrow> bit_at (bits b) i"
  by (simp add: bitmap_is_set_def and_push_gt_0 bit_at_def)

definition set_bits :: "bitmap \<Rightarrow> nat list \<Rightarrow> bool \<Rightarrow> bitmap" where
  "set_bits b is v = b\<lparr>bits := fold (\<lambda>i f. bit_put f i v) is (bits b)\<rparr>"

lemma set_bits_fields [simp]:
  "byte_size (set_bits b is v) = byte_size b" "b_lock (set_bits b is v) = b_lock b"
  by (simp_all add: set_bits_def)

lemma bit_at_set_bits [simp]:
  "bit_at (bits (set_bits b is v)) j = (if j \<in> set is then v else bit_at (bits b) j)"
proof -
  have "bit_at (fold (\<lambda>i f. bit_put f i v) is f) j = (if j \<in> set is then v else bit_at f j)" for f
    by (induction "is" arbitrary: f) auto
  then show ?thesis by (simp add: set_bits_def)
qed

lemma lock_at_set_bits [simp]: "lock_at n k (set_bits b is v) = lock_at n k b"
  by (simp add: lock_at_def)

lemma set_bits_Nil [simp]: "set_bits b [] v = b"
  by (simp add: set_bits_def)

lemma set_bits_Cons: "set_bits b (i # is) v = set_bits (set_bits b [i] v) is v"
  by (simp add: set_bits_def)

lemma bitmap_set_at:
  assumes "lock_at n k b"
  shows "bitmap_set k b i = (if bit_at (bits b) i then None else Some (k, set_bits b [i] True))"
  using under_lock [OF assms]
  by (simp add: bitmap_set_def byte_bit_clear [simplified] set_bits_def bit_put_def ASSERT_def)

lemma bitmap_reset_at:
  assumes "lock_at n k b"
  shows "bitmap_reset k b i = (if bit_at (bits b) i then Some (k, set_bits b [i] False) else None)"
  using under_lock [OF assms]
  by (simp add: bitmap_reset_def byte_bit_clear [simplified] set_bits_def bit_put_def ASSERT_def)

lemma bitmap_scan_at:
  assumes "lock_at n k b" "byte_size b < 2 ^ 28"
  shows "bitmap_scan k b = (case first_clear (bits b) 0 (8 * byte_size b) of
           None \<Rightarrow> None | Some i \<Rightarrow> Some (int i, k, b))"
proof -
  have int: "to_int32 (int i) = int i" if "first_clear (bits b) 0 (8 * byte_size b) = Some i" for i
    using assms(2) first_clear_SomeD [OF that] by (intro to_int32_id) auto
  then show ?thesis
    using under_lock [OF assms(1)] scan_whole_map [where f = "bits b" and sz = "byte_size b", symmetric]
    by (auto simp: bitmap_scan_def Let_def split: option.splits)
qed

lemma set_bits_b_lock: "set_bits (b\<lparr>b_lock := l\<rparr>) is v = (set_bits b is v)\<lparr>b_lock := l\<rparr>"
  by (cases b) (simp add: set_bits_def)

lemma lock_at_deeper: "lock_at n k b \<Longrightarrow> n + 5 < 2 ^ 32 \<Longrightarrow>
    lock_at (Suc n) k (b\<lparr>b_lock := mutex_at (current k) (Suc n)\<rparr>)"
  by (simp add: lock_at_def)

lemma bitmap_scan_set_at:
  assumes "lock_at n k b" "n + 5 < 2 ^ 32" "byte_size b < 2 ^ 28"
  shows "bitmap_scan_set k b = (case first_clear (bits b) 0 (8 * byte_size b) of
           None \<Rightarrow> None | Some i \<Rightarrow> Some (int i, k, set_bits b [i] True))"
proof (cases "first_clear (bits b) 0 (8 * byte_size b)")
  case None
  then show ?thesis
    using assms lock_at_deeper [OF assms(1,2)]
    by (simp add: bitmap_scan_set_def lock_bitmap_at bitmap_scan_at)
next
  case (Some i)
  then have "\<not> bit_at (bits b) i" by (auto dest: first_clear_SomeD)
  then show ?thesis
    using assms(3) Some lock_at_deeper [OF assms(1,2)] assms(1) unlock_bitmap_at(1) [of n k "set_bits b [i] True"]
    by (simp add: bitmap_scan_set_def lock_bitmap_at bitmap_scan_at bitmap_set_at set_bits_b_lock)
qed

lemma bitmap_reverse_at:
  assumes "lock_at n k b" "n + 5 < 2 ^ 32"
  shows "bitmap_reverse k b i =
    Some (if bit_at (bits b) i then 0 else 1, k, set_bits b [i] (\<not> bit_at (bits b) i))"
  using lock_at_deeper [OF assms] assms(1) unlock_bitmap_at(1) [of n k "set_bits b [i] True"]
    unlock_bitmap_at(1) [of n k "set_bits b [i] False"]
  by (simp add: bitmap_reverse_def lock_bitmap_at bitmap_set_at bitmap_reset_at bitmap_is_set_eq set_bits_b_lock)

text \<open>The loops of \<open>bitmap_set_series\<close> and \<open>bitmap_reset_series\<close>.\<close>

lemma set_loop_at:
  assumes step: "\<And>b i. lock_at n k b \<Longrightarrow>
      f k b i = (if bit_at (bits b) i = v then None else Some (k, set_bits b [i] v))"
  shows "lock_at n k b \<Longrightarrow> set_loop f s j cnt k b =
    (if \<exists>i \<in> {s + j..<s + cnt}. bit_at (bits b) i = v then None
     else Some (k, set_bits b [s + j..<s + cnt] v))"
proof (induction "cnt - j" arbitrary: j b)
  case 0
  then show ?case by (subst set_loop.simps) auto
next
  case (Suc d)
  then have j: "j < cnt" "d = cnt - Suc j" by auto
  have range: "{s + j..<s + cnt} = insert (s + j) {s + Suc j..<s + cnt}"
    "[s + j..<s + cnt] = (s + j) # [s + Suc j..<s + cnt]"
    using j by (auto simp: upt_conv_Cons)
  have IH: "set_loop f s (Suc j) cnt k (set_bits b [s + j] v) =
    (if \<exists>i \<in> {s + Suc j..<s + cnt}. bit_at (bits (set_bits b [s + j] v)) i = v then None
     else Some (k, set_bits (set_bits b [s + j] v) [s + Suc j..<s + cnt] v))"
    by (rule Suc(1) [OF j(2)]) (use Suc(3) in simp)
  have "(\<exists>i \<in> {s + Suc j..<s + cnt}. bit_at (bits (set_bits b [s + j] v)) i = v) \<longleftrightarrow>
      (\<exists>i \<in> {s + Suc j..<s + cnt}. bit_at (bits b) i = v)"
    by (intro bex_cong) auto
  then show ?case
    using j IH by (subst set_loop.simps)
      (simp add: step [OF Suc(3)] range set_bits_Cons [of b "s + j" "[Suc (s + j)..<s + cnt]" v] del: upt_Suc)
qed

lemma bitmap_set_series_at:
  assumes "lock_at n k b" "n + 5 < 2 ^ 32" "0 < cnt"
  shows "bitmap_set_series k b s cnt =
    (if \<exists>i \<in> {s..<s + cnt}. bit_at (bits b) i then None else Some (k, set_bits b [s..<s + cnt] True))"
  using assms(1,3) unlock_bitmap_at(1) [of n k "set_bits b [s..<s + cnt] True"]
    set_loop_at [where f = bitmap_set and v = True and j = 0 and s = s and cnt = cnt,
      OF _ lock_at_deeper [OF assms(1,2)]]
  by (simp add: bitmap_set_series_def lock_bitmap_at bitmap_set_at set_bits_b_lock)

lemma bitmap_reset_series_at:
  assumes "lock_at n k b" "n + 5 < 2 ^ 32" "0 < cnt"
  shows "bitmap_reset_series k b s cnt =
    (if \<exists>i \<in> {s..<s + cnt}. \<not> bit_at (bits b) i then None else Some (k, set_bits b [s..<s + cnt] False))"
  using assms(1,3) unlock_bitmap_at(1) [of n k "set_bits b [s..<s + cnt] False"]
    set_loop_at [where f = bitmap_reset and v = False and j = 0 and s = s and cnt = cnt,
      OF _ lock_at_deeper [OF assms(1,2)]]
  by (simp add: bitmap_reset_series_def lock_bitmap_at bitmap_reset_at set_bits_b_lock)

section \<open>Initialisation\<close>

lemma zero_bytes_eq: "zero_bytes i n f = (\<lambda>p. if i \<le> p \<and> p < n then 0 else f p)"
proof (induction i n f rule: zero_bytes.induct)
  case (1 i n f)
  show ?case
  proof (cases "i < n")
    case True
    then have "zero_bytes i n f = zero_bytes (i + 1) n (f(i := 0))"
      by (subst zero_bytes.simps) simp
    also have "\<dots> = (\<lambda>p. if i + 1 \<le> p \<and> p < n then 0 else (f(i := 0)) p)"
      by (rule 1 [OF True])
    finally show ?thesis using True by auto
  qed (subst zero_bytes.simps, auto simp: fun_eq_iff)
qed

lemma bit_pad_bits: "i < 8 \<Longrightarrow> bit (pad_bits i lim w) j \<longleftrightarrow> bit w j \<or> (lim < j \<and> j \<le> i)"
proof (induction i lim w rule: pad_bits.induct)
  case (1 i lim w)
  then show ?case by (subst pad_bits.simps) (auto simp: bits_at)
qed

lemma bitmap_init_spec:
  assumes "0 < nbits"
  shows "\<exists>b'. bitmap_init b nbits = Some b' \<and> byte_size b' = DIV_ROUND_UP nbits 8 \<and>
    b_lock b' = mutex_lock_init \<and> (\<forall>i < 8 * byte_size b'. bit_at (bits b') i \<longleftrightarrow> nbits \<le> i) \<and>
    (\<forall>p \<ge> byte_size b'. bits b' p = bits b p)"
proof -
  define m where "m = (nbits - 1) div 8"
  have m: "DIV_ROUND_UP nbits 8 = Suc m" "nbits = 8 * m + (nbits + 7) mod 8 + 1"
  proof -
    obtain t where t: "nbits = Suc t" using assms by (cases nbits) auto
    have "(t + 8) div 8 = Suc (t div 8)" "(t + 8) mod 8 = t mod 8" by simp_all
    then show "DIV_ROUND_UP nbits 8 = Suc m" "nbits = 8 * m + (nbits + 7) mod 8 + 1"
      by (simp_all add: DIV_ROUND_UP_def m_def t)
  qed
  let ?f = "(zero_bytes 0 m (bits b))(m := pad_bits 7 ((nbits + 7) mod 8) 0)"
  have "bit_at ?f i \<longleftrightarrow> nbits \<le> i" if "i < 8 * Suc m" for i
  proof (cases "i div 8 = m")
    case True
    then have "i = 8 * m + i mod 8" "i mod 8 \<le> 7" by auto
    then have "nbits \<le> i \<longleftrightarrow> (nbits + 7) mod 8 < i mod 8 \<and> i mod 8 \<le> 7"
      using m(2) by linarith
    with True show ?thesis by (simp add: bit_at_def bit_pad_bits)
  next
    case False
    moreover have "i div 8 < Suc m" using that by (simp add: less_mult_imp_div_less mult.commute)
    ultimately have "i div 8 < m" by simp
    moreover from this have "i < 8 * m" by (simp add: div_less_iff_less_mult mult.commute)
    ultimately have "i div 8 < m" "i < 8 * m" by simp_all
    then have "\<not> nbits \<le> i" using m(2) by linarith
    with False \<open>i div 8 < m\<close> show ?thesis by (simp add: bit_at_def zero_bytes_eq)
  qed
  then show ?thesis
    using assms by (simp add: bitmap_init_def m(1) zero_bytes_eq Let_def cong: if_cong)
qed

section \<open>The map as an allocator\<close>

definition map_inv :: "nat \<Rightarrow> 'a sys_scheme \<times> bitmap \<Rightarrow> bool" where
  "map_inv sz kb \<longleftrightarrow> lock_at 0 (fst kb) (snd kb) \<and> byte_size (snd kb) = sz \<and> sz < 2 ^ 28"

definition map_used :: "'a sys_scheme \<times> bitmap \<Rightarrow> nat set" where
  "map_used kb = {i. bit_at (bits (snd kb)) i}"

definition map_alloc :: "'a sys_scheme \<times> bitmap \<Rightarrow> (nat \<times> 'a sys_scheme \<times> bitmap) option" where
  "map_alloc kb = map_option (\<lambda>(i, k, b). (nat i, (k, b))) (bitmap_scan_set (fst kb) (snd kb))"

lemma first_clear_None: "first_clear f 0 n = None \<longleftrightarrow> (\<forall>i < n. bit_at f i)"
  by (auto simp: find_None_iff)

interpretation map_ids: checked_allocator "map_inv sz" "8 * sz" map_used map_alloc
    "\<lambda>kb. bitmap_reset (fst kb) (snd kb)" for sz
proof unfold_locales
  fix s :: "'a sys_scheme \<times> bitmap" and i s'
  assume inv: "map_inv sz s" and al: "map_alloc s = Some (i, s')"
  obtain k b where s: "s = (k, b)" by fastforce
  have scan: "bitmap_scan_set k b = (case first_clear (bits b) 0 (8 * byte_size b) of
      None \<Rightarrow> None | Some i \<Rightarrow> Some (int i, k, set_bits b [i] True))"
    by (rule bitmap_scan_set_at [of 0]) (use inv in \<open>auto simp: map_inv_def s\<close>)
  then have "first_clear (bits b) 0 (8 * sz) = Some i \<and> s' = (k, set_bits b [i] True)"
    using al inv by (auto simp: map_alloc_def s map_inv_def split: option.splits)
  then show "map_inv sz s' \<and> i \<in> {..<8 * sz} \<and> i \<notin> map_used s \<and> map_used s' = insert i (map_used s)"
    using inv first_clear_SomeD [of "bits b" 0 "8 * sz" i] by (auto simp: map_inv_def map_used_def s)
next
  fix s :: "'a sys_scheme \<times> bitmap"
  assume inv: "map_inv sz s" and free: "\<not> {..<8 * sz} \<subseteq> map_used s"
  have "bitmap_scan_set (fst s) (snd s) = (case first_clear (bits (snd s)) 0 (8 * byte_size (snd s)) of
      None \<Rightarrow> None | Some i \<Rightarrow> Some (int i, fst s, set_bits (snd s) [i] True))"
    by (rule bitmap_scan_set_at [of 0]) (use inv in \<open>auto simp: map_inv_def\<close>)
  moreover have "first_clear (bits (snd s)) 0 (8 * sz) \<noteq> None"
    using free by (auto simp: first_clear_None map_used_def)
  ultimately show "\<exists>r. map_alloc s = Some r"
    using inv by (auto simp: map_alloc_def map_inv_def)
next
  fix s :: "'a sys_scheme \<times> bitmap" and i
  assume "map_inv sz s" "i \<in> map_used s"
  then show "\<exists>s'. bitmap_reset (fst s) (snd s) i = Some s' \<and> map_inv sz s' \<and> map_used s' = map_used s - {i}"
    by (auto simp: map_inv_def map_used_def bitmap_reset_at split: prod.splits if_splits)
next
  fix s :: "'a sys_scheme \<times> bitmap" and i
  assume "map_inv sz s" "i \<notin> map_used s"
  then show "bitmap_reset (fst s) (snd s) i = None"
    by (auto simp: map_inv_def map_used_def bitmap_reset_at)
qed

section \<open>Properties\<close>

text \<open>\<open>bitmap_scan_set\<close> hands out the lowest clear bit of the map, tail bytes included, sets
  that bit and no other, and gives the lock back; it fails only on a full map.\<close>

theorem bitmap_scan_set_lowest:
  assumes "lock_at 0 k b" "byte_size b < 2 ^ 28"
  shows "case bitmap_scan_set k b of
      Some (idx, k', b') \<Rightarrow> k' = k \<and> b_lock b' = b_lock b \<and> byte_size b' = byte_size b \<and>
        0 \<le> idx \<and> idx < 8 * int (byte_size b) \<and> \<not> bit_at (bits b) (nat idx) \<and>
        (\<forall>j < nat idx. bit_at (bits b) j) \<and>
        (\<forall>j. bit_at (bits b') j \<longleftrightarrow> j = nat idx \<or> bit_at (bits b) j)
    | None \<Rightarrow> \<forall>j < 8 * byte_size b. bit_at (bits b) j"
proof (cases "first_clear (bits b) 0 (8 * byte_size b)")
  case None
  then have "\<forall>j < 8 * byte_size b. bit_at (bits b) j"
    by (simp only: first_clear_None simp_thms)
  with None show ?thesis
    using bitmap_scan_set_at [OF assms(1) _ assms(2)] by simp
next
  case (Some i)
  have "i < 8 * byte_size b" "\<not> bit_at (bits b) i" "\<forall>j < i. bit_at (bits b) j"
    using first_clear_SomeD [OF Some] by auto
  then show ?thesis
    using bitmap_scan_set_at [OF assms(1) _ assms(2)] Some by simp
qed

definition sys0 :: sys where
  "sys0 = \<lparr>eflags = 0, current = 4096, ready_list = [], tstate = (\<lambda>_. READY)\<rparr>"

definition map0 :: bitmap where
  "map0 = \<lparr>bits = (\<lambda>p. if p = 0 then 7 else 0), byte_size = 5, b_lock = mutex_lock_init\<rparr>"

lemma lock_at_map0: "lock_at 0 sys0 map0"
  by (simp add: lock_at_def sys0_def map0_def mutex_init_at NULL_def)

lemma map0_bits: "bit_at (bits map0) j \<longleftrightarrow> j < 3"
proof (cases "j < 8")
  case True
  then have "j \<in> {0, 1, 2, 3, 4, 5, 6, 7}" by auto
  then show ?thesis by (auto simp: bit_at_def map0_def)
qed (simp add: bit_at_def map0_def)

lemma map0_size: "byte_size map0 = 5"
  by (simp add: map0_def)

theorem bitmap_scan_set_lowest_witness:
  "\<exists>b'. bitmap_scan_set sys0 map0 = Some (3, sys0, b') \<and> bit_at (bits b') 3 \<and> \<not> bit_at (bits b') 4"
proof -
  note lowest = bitmap_scan_set_lowest [OF lock_at_map0, unfolded map0_size map0_bits, simplified]
  obtain idx b' where r: "bitmap_scan_set sys0 map0 = Some (idx, sys0, b')"
    using lowest by (cases "bitmap_scan_set sys0 map0") (auto dest: spec [where x = 3])
  then have "0 \<le> idx" "\<not> nat idx < 3" "\<forall>j < nat idx. j < 3"
    "\<forall>j. bit_at (bits b') j \<longleftrightarrow> j = nat idx \<or> j < 3"
    using lowest by auto
  moreover from this have "idx = 3" by (metis int_nat_eq less_irrefl linorder_neqE_nat of_nat_numeral)
  ultimately show ?thesis using r by auto
qed

text \<open>\<open>bitmap_init\<close> clears exactly the bits below the number asked for; the padding of the last
  byte is set, so no number beyond it is ever handed out. A map of no bits is refused.\<close>

theorem bitmap_init_correct:
  "if nbits = 0 then bitmap_init b nbits = None
   else \<exists>b'. bitmap_init b nbits = Some b' \<and> byte_size b' = DIV_ROUND_UP nbits 8 \<and>
     b_lock b' = mutex_lock_init \<and> (\<forall>i < 8 * byte_size b'. bit_at (bits b') i \<longleftrightarrow> nbits \<le> i)"
  using bitmap_init_spec [of nbits b] by (auto simp: bitmap_init_def)

theorem bitmap_init_correct_witness:
  "\<exists>b'. bitmap_init map0 20 = Some b' \<and> byte_size b' = 3 \<and> \<not> bit_at (bits b') 19 \<and> bit_at (bits b') 20"
  using bitmap_init_correct [of 20 map0] by (auto simp: DIV_ROUND_UP_def)

text \<open>C27: the numbers that clients of one bitmap hold, who take them with \<open>bitmap_scan_set\<close> and give
  them back with \<open>bitmap_reset\<close>, are always distinct, inside the map and marked as used, and
  the marks of all others stay as they were.\<close>

theorem bitmap_numbers_distinct:
  assumes "map_inv sz kb"
    and "allocator.run_ids (\<lambda>_ :: unit. map_alloc) (\<lambda>kb. bitmap_reset (fst kb) (snd kb)) kb [] ops = Some (kb', own)"
  shows "map_inv sz kb' \<and> distinct own \<and> (\<forall>i \<in> set own. i < 8 * sz \<and> bit_at (bits (snd kb')) i) \<and>
    map_used kb' - set own = map_used kb"
  using map_ids.run_distinct [OF assms(1) _ _ _ assms(2)] by (auto simp: map_used_def)

theorem bitmap_numbers_distinct_witness:
  "\<exists>kb' own. allocator.run_ids (\<lambda>_ :: unit. map_alloc) (\<lambda>kb. bitmap_reset (fst kb) (snd kb)) (sys0, map0) [] [Alloc (), Alloc ()]
     = Some (kb', own) \<and> distinct own \<and> map_inv 5 kb'"
proof -
  have inv: "map_inv 5 (sys0, map0)"
    using lock_at_map0 by (simp add: map_inv_def map0_size)
  obtain i kb1 where 1: "map_alloc (sys0, map0) = Some (i, kb1)"
  proof -
    have "3 \<notin> map_used (sys0, map0)" by (simp add: map_used_def map0_bits)
    then have "\<not> {..<8 * 5} \<subseteq> map_used (sys0, map0)" using subsetD [of "{..<8 * 5}" _ "3 :: nat"] by auto
    then show thesis using map_ids.alloc_total [OF inv] that by fastforce
  qed
  have a1: "map_inv 5 kb1" "map_used kb1 = insert i (map_used (sys0, map0))"
    using map_ids.alloc_ok [OF inv TrueI 1] by auto
  obtain j kb2 where 2: "map_alloc kb1 = Some (j, kb2)"
  proof -
    have "map_used kb1 \<subseteq> {i, 0, 1, 2}" using a1(2) by (auto simp: map_used_def map0_bits)
    then have "card (map_used kb1) \<le> card {i, 0, 1, 2}" by (intro card_mono) auto
    also have "\<dots> \<le> 4" using card_length [of "[i, 0, 1, 2]"] by simp
    finally have "card (map_used kb1) < card {..<8 * 5 :: nat}" by simp
    moreover have "finite (map_used kb1)" using a1(2) by (auto simp: map_used_def map0_bits)
    ultimately have "\<not> {..<8 * 5} \<subseteq> map_used kb1" using card_mono linorder_not_less by blast
    then show thesis using map_ids.alloc_total [OF a1(1)] that by fastforce
  qed
  have run: "allocator.run_ids (\<lambda>_ :: unit. map_alloc) (\<lambda>kb. bitmap_reset (fst kb) (snd kb)) (sys0, map0) [] [Alloc (), Alloc ()]
     = Some (kb2, [j, i])"
    using 1 2 by (simp add: map_ids.run_ids.simps)
  with bitmap_numbers_distinct [OF inv run] show ?thesis by blast
qed

text \<open>\<open>bitmap_scan_series\<close> for a single bit returns with the lock still held: the path that hands
  over to \<open>bitmap_scan\<close> has no release.\<close>

theorem bitmap_scan_series_keeps_lock:
  assumes "lock_at 0 k b" "byte_size b < 2 ^ 28" "i < 8 * byte_size b" "\<not> bit_at (bits b) i"
  shows "\<exists>j k' b'. bitmap_scan_series k b 1 = Some (j, k', b') \<and> b_lock b' = mutex_at (current k) 1 \<and> is_lock (b_lock b')"
proof -
  have "lock_at 1 k (b\<lparr>b_lock := mutex_at (current k) 1\<rparr>)"
    using lock_at_deeper [OF assms(1)] by simp
  moreover obtain j where "first_clear (bits b) 0 (8 * byte_size b) = Some j"
    using assms(3,4) first_clear_None [of "bits b" "8 * byte_size b"] by fastforce
  ultimately show ?thesis
    using assms(1,2) by (simp add: bitmap_scan_series_def lock_bitmap_at bitmap_scan_at) (simp add: mutex_at_def)
qed

theorem bitmap_scan_series_keeps_lock_witness:
  "\<exists>j k' b'. bitmap_scan_series sys0 map0 1 = Some (j, k', b') \<and> is_lock (b_lock b')"
  using bitmap_scan_series_keeps_lock [OF lock_at_map0, of 4] by (auto simp: map0_size map0_bits)

end
