(* ===== verification/Buddy.thy ===== *)
theory Buddy
  imports Bitmap
begin

text \<open>
  kernel/buddy.c: the buddy allocator of physical pages. A page is named by its index in
  \<open>mem_map\<close>; \<open>pg_list\<close> of a \<open>free_area\<close> is the sequence of first pages of its free blocks
  (theory DList shows that list.c implements the list operations used on it). The kernel pool
  is the index range below \<open>user_start_idx\<close>, the user pool the range from there on.

  The lemmas show that each step of the two loops, the pop and the splits of \<open>alloc_pages\<close> and
  the merges of \<open>__free_pages\<close>, preserves one invariant: free and allocated blocks tile the
  pool, are aligned to their size, two free buddies never stay unmerged, and the bit of a pair
  tells whether exactly one of its blocks is free.
\<close>

section \<open>State\<close>

definition MAX_ORDER :: nat where "MAX_ORDER = 10"
definition KERNEL_POOL :: u32 where "KERNEL_POOL = 0"
definition USER_POOL :: u32 where "USER_POOL = 1"
definition PG_SIZE :: nat where "PG_SIZE = 4096"
definition KERNEL_VADDR_START :: nat where "KERNEL_VADDR_START = 0xc0000000"
definition sizeof_page :: nat where "sizeof_page = 36"

record page =
  pg_count :: atomic_t
  pg_private :: u32

record free_area =
  nr_free :: int
  bmap :: bitmap
  pg_list :: "nat list"

record buddy =
  pages :: "nat \<Rightarrow> page"
  pg_cnt :: nat
  user_start_idx :: nat
  kernel_area :: "nat \<Rightarrow> free_area"
  user_area :: "nat \<Rightarrow> free_area"

section \<open>Operations\<close>

text \<open>\<open>bitmap_reverse(&area[o].bmap, q)\<close>.\<close>

definition area_reverse ::
  "'a sys_scheme \<Rightarrow> (nat \<Rightarrow> free_area) \<Rightarrow> nat \<Rightarrow> nat \<Rightarrow> (int \<times> 'a sys_scheme \<times> (nat \<Rightarrow> free_area)) option" where
  "area_reverse k ar ord q = do {
     (ret, k, b) \<leftarrow> bitmap_reverse k (bmap (ar ord)) q;
     Some (ret, k, ar(ord := (ar ord)\<lparr>bmap := b\<rparr>)) }"

text \<open>
  The loop \<open>while (--o >= order)\<close> of \<open>alloc_pages\<close>: \<open>d\<close> is \<open>o - order\<close> on entry and
  \<open>sz\<close> the variable \<open>size\<close>. The upper half of the block goes to the next smaller list.
\<close>

fun split_loop :: "nat \<Rightarrow> nat \<Rightarrow> nat \<Rightarrow> nat \<Rightarrow> 'a sys_scheme \<Rightarrow> (nat \<Rightarrow> free_area) \<Rightarrow>
    ('a sys_scheme \<times> (nat \<Rightarrow> free_area)) option" where
  "split_loop 0 ord idx sz k ar = Some (k, ar)"
| "split_loop (Suc d) ord idx sz k ar = (let i = ord + d in do {
     let ar = ar(i := (ar i)\<lparr>pg_list := pg_list (ar i) @ [idx + sz], nr_free := nr_free (ar i) + 1\<rparr>);
     (ret, k, ar) \<leftarrow> area_reverse k ar i (drop_bit (i + 1) idx);
     split_loop d ord idx (sz div 2) k ar })"

text \<open>The outer loop: \<open>d\<close> counts the orders left, so \<open>MAX_ORDER + 1 - d\<close> is the variable \<open>o\<close>.\<close>

fun alloc_loop :: "nat \<Rightarrow> nat \<Rightarrow> 'a sys_scheme \<Rightarrow> (nat \<Rightarrow> page) \<Rightarrow> (nat \<Rightarrow> free_area) \<Rightarrow>
    (nat \<times> 'a sys_scheme \<times> (nat \<Rightarrow> page) \<times> (nat \<Rightarrow> free_area)) option" where
  "alloc_loop 0 ord k pgs ar = PANIC"
| "alloc_loop (Suc d) ord k pgs ar = (let i = MAX_ORDER - d in
     if 0 < nr_free (ar i)
     then do {
       ASSERT (pg_list (ar i) \<noteq> []);
       let idx = hd (pg_list (ar i));
       let ar = ar(i := (ar i)\<lparr>nr_free := nr_free (ar i) - 1, pg_list := tl (pg_list (ar i))\<rparr>);
       let sz = push_bit i 1 div 2;
       let pgs = pgs(idx := (pgs idx)\<lparr>pg_private := of_nat ord\<rparr>);
       (ret, k, ar) \<leftarrow> area_reverse k ar i (drop_bit (i + 1) idx);
       (k, ar) \<leftarrow> split_loop (i - ord) ord idx sz k ar;
       let pgs = pgs(idx := (pgs idx)\<lparr>pg_count := atomic_set 1 (pg_count (pgs idx))\<rparr>);
       Some (idx, k, pgs, ar) }
     else alloc_loop d ord k pgs ar)"

definition alloc_pages :: "'a sys_scheme \<Rightarrow> buddy \<Rightarrow> u32 \<Rightarrow> int \<Rightarrow> (nat \<times> 'a sys_scheme \<times> buddy) option" where
  "alloc_pages k bd flag ord = (let (old, k) = intr_disable k in do {
     let user = (flag AND USER_POOL \<noteq> 0);
     let ar = (if user then user_area bd else kernel_area bd);
     ASSERT (0 \<le> ord \<and> ord \<le> int MAX_ORDER);
     (idx, k, pgs, ar) \<leftarrow> alloc_loop (MAX_ORDER + 1 - nat ord) (nat ord) k (pages bd) ar;
     let bd = (if user then bd\<lparr>pages := pgs, user_area := ar\<rparr> else bd\<lparr>pages := pgs, kernel_area := ar\<rparr>);
     Some (idx, snd (intr_set_status old k), bd) })"

text \<open>
  The merging loop of \<open>__free_pages\<close>; \<open>d\<close> is \<open>MAX_ORDER - order\<close>. Deleting a block that is not
  on the list would follow links that are not there: the model stops (\<open>ASSERT\<close>).
\<close>

fun merge_loop :: "nat \<Rightarrow> nat \<Rightarrow> 'a sys_scheme \<Rightarrow> (nat \<Rightarrow> free_area) \<Rightarrow>
    (nat \<times> nat \<times> 'a sys_scheme \<times> (nat \<Rightarrow> free_area)) option" where
  "merge_loop 0 idx k ar = Some (MAX_ORDER, idx, k, ar)"
| "merge_loop (Suc d) idx k ar = (let i = MAX_ORDER - Suc d in do {
     (ret, k, ar) \<leftarrow> area_reverse k ar i (drop_bit (i + 1) idx);
     if ret = 0
     then do {
       let bud = idx XOR push_bit i 1;
       ASSERT (bud \<in> set (pg_list (ar i)));
       let ar = ar(i := (ar i)\<lparr>pg_list := remove1 bud (pg_list (ar i)), nr_free := nr_free (ar i) - 1\<rparr>);
       merge_loop d (unset_bit i idx) k ar }
     else Some (i, idx, k, ar) })"

definition free_pages_idx :: "'a sys_scheme \<Rightarrow> buddy \<Rightarrow> nat \<Rightarrow> int \<Rightarrow> ('a sys_scheme \<times> buddy) option" where
  "free_pages_idx k bd pg ord =
     (let (pos, c) = atomic_dec_and_setg (pg_count (pages bd pg));
          bd = bd\<lparr>pages := (pages bd)(pg := (pages bd pg)\<lparr>pg_count := c\<rparr>)\<rparr>
      in if pos then Some (k, bd)
      else (let (old, k) = intr_disable k in do {
        let user = (user_start_idx bd \<le> pg);
        let ar = (if user then user_area bd else kernel_area bd);
        ASSERT (word_of_int ord = pg_private (pages bd pg));
        (i, idx, k, ar) \<leftarrow> merge_loop (MAX_ORDER - nat ord) pg k ar;
        let ar = ar(i := (ar i)\<lparr>pg_list := idx # pg_list (ar i), nr_free := nr_free (ar i) + 1\<rparr>);
        let bd = (if user then bd\<lparr>user_area := ar\<rparr> else bd\<lparr>kernel_area := ar\<rparr>);
        Some (snd (intr_set_status old k), bd) }))"

definition pg2paddr :: "nat \<Rightarrow> nat" where
  "pg2paddr pg = pg * PG_SIZE"

definition paddr2pg :: "nat \<Rightarrow> nat" where
  "paddr2pg paddr = paddr div PG_SIZE"

definition get_free_page :: "'a sys_scheme \<Rightarrow> buddy \<Rightarrow> u32 \<Rightarrow> (nat \<times> 'a sys_scheme \<times> buddy) option" where
  "get_free_page k bd flag = do {
     (pg, k, bd) \<leftarrow> alloc_pages k bd flag 0;
     Some (pg * PG_SIZE + KERNEL_VADDR_START, k, bd) }"

definition get_free_pages :: "'a sys_scheme \<Rightarrow> buddy \<Rightarrow> u32 \<Rightarrow> int \<Rightarrow> (nat \<times> 'a sys_scheme \<times> buddy) option" where
  "get_free_pages k bd flag ord = do {
     (pg, k, bd) \<leftarrow> alloc_pages k bd flag ord;
     Some (pg * PG_SIZE + KERNEL_VADDR_START, k, bd) }"

text \<open>
  \<open>buddy_init\<close>. The loop that sets up the bitmaps of one pool goes down from \<open>MAX_ORDER\<close>,
  doubling the number of bits and moving the address of the next bitmap.
\<close>

fun init_bitmaps :: "nat \<Rightarrow> nat \<Rightarrow> nat \<Rightarrow> (nat \<Rightarrow> free_area) \<Rightarrow> (nat \<times> (nat \<Rightarrow> free_area)) option" where
  "init_bitmaps 0 nr saddr ar = Some (saddr, ar)"
| "init_bitmaps (Suc i) nr saddr ar = do {
     let bmap_len = DIV_ROUND_UP nr 8;
     b \<leftarrow> bitmap_init (bmap (ar i)) nr;
     let ar = ar(i := (ar i)\<lparr>bmap := b\<rparr>);
     init_bitmaps i (nr * 2) (saddr + bmap_len) ar }"

definition buddy_init :: "buddy \<Rightarrow> nat \<Rightarrow> nat \<Rightarrow> (nat \<times> buddy) option" where
  "buddy_init bd saddr total_mem_size = do {
     let cnt = total_mem_size div PG_SIZE;
     let saddr = saddr + cnt * sizeof_page;
     let nr_max_order = drop_bit MAX_ORDER cnt;
     let kernel_nr = nr_max_order div 4;
     let user_nr = nr_max_order - kernel_nr;
     let ka = kernel_area bd;
     let ka = ka(MAX_ORDER := (ka MAX_ORDER)\<lparr>nr_free := int kernel_nr,
       pg_list := pg_list (ka MAX_ORDER) @ map (\<lambda>i. push_bit MAX_ORDER 1 * i) [0..<kernel_nr]\<rparr>);
     (saddr, ka) \<leftarrow> init_bitmaps (MAX_ORDER + 1) kernel_nr saddr ka;
     let ua = user_area bd;
     let ua = ua(MAX_ORDER := (ua MAX_ORDER)\<lparr>nr_free := int user_nr,
       pg_list := pg_list (ua MAX_ORDER) @ map (\<lambda>i. push_bit MAX_ORDER 1 * i) [kernel_nr..<nr_max_order]\<rparr>);
     (saddr, ua) \<leftarrow> init_bitmaps (MAX_ORDER + 1) user_nr saddr ua;
     Some (saddr, bd\<lparr>pg_cnt := cnt, user_start_idx := kernel_nr * push_bit MAX_ORDER 1,
       kernel_area := ka, user_area := ua\<rparr>) }"

section \<open>Blocks that tile a range of pages\<close>

fun blk :: "nat \<times> nat \<Rightarrow> nat set" where
  "blk (ord, i) = {i..<i + 2 ^ ord}"

definition tiles :: "nat \<Rightarrow> nat \<Rightarrow> (nat \<times> nat) set \<Rightarrow> bool" where
  "tiles lo hi B \<longleftrightarrow>
     (\<forall>(ord, i) \<in> B. ord \<le> MAX_ORDER \<and> 2 ^ ord dvd i \<and> lo \<le> i \<and> i + 2 ^ ord \<le> hi) \<and>
     (\<forall>b \<in> B. \<forall>c \<in> B. b \<noteq> c \<longrightarrow> blk b \<inter> blk c = {}) \<and>
     {lo..<hi} \<subseteq> \<Union> (blk ` B)"

lemma blk_Suc: "blk (Suc ord, i) = blk (ord, i) \<union> blk (ord, i + 2 ^ ord)"
  by auto

lemma blk_halves_disjoint: "blk (ord, i) \<inter> blk (ord, i + 2 ^ ord) = {}"
  by auto

lemma blk_nonempty: "i \<in> blk (ord, i)"
  by simp

declare blk.simps [simp del]

lemma tilesD:
  assumes "tiles lo hi B" "(ord, i) \<in> B"
  shows "ord \<le> MAX_ORDER" "2 ^ ord dvd i" "lo \<le> i" "i + 2 ^ ord \<le> hi"
  using assms by (auto simp: tiles_def)

lemma tiles_inter:
  "tiles lo hi B \<Longrightarrow> b \<in> B \<Longrightarrow> c \<in> B \<Longrightarrow> x \<in> blk b \<Longrightarrow> x \<in> blk c \<Longrightarrow> b = c"
  unfolding tiles_def by blast

lemma tiles_cover:
  assumes "tiles lo hi B" "lo \<le> x" "x < hi"
  obtains p j where "(p, j) \<in> B" "x \<in> blk (p, j)"
proof -
  have "{lo..<hi} \<subseteq> \<Union> (blk ` B)" using assms(1) by (simp add: tiles_def)
  moreover have "x \<in> {lo..<hi}" using assms(2,3) by simp
  ultimately have "x \<in> \<Union> (blk ` B)" by (rule subsetD)
  then obtain b where "b \<in> B" "x \<in> blk b" by blast
  then show thesis using that by (cases b) simp
qed

text \<open>Replacing some blocks by others that cover the same pages.\<close>

lemma tiles_replace:
  assumes B: "tiles lo hi B" and C: "C \<subseteq> B"
    and ok: "\<And>ord i. (ord, i) \<in> D \<Longrightarrow> ord \<le> MAX_ORDER \<and> 2 ^ ord dvd i \<and> lo \<le> i \<and> i + 2 ^ ord \<le> hi"
    and cover: "\<Union> (blk ` C) = \<Union> (blk ` D)"
    and disj: "\<And>b c. b \<in> D \<Longrightarrow> c \<in> D \<Longrightarrow> b \<noteq> c \<Longrightarrow> blk b \<inter> blk c = {}"
  shows "tiles lo hi ((B - C) \<union> D)"
proof -
  have B2: "blk b \<inter> blk c = {}" if "b \<in> B" "c \<in> B" "b \<noteq> c" for b c
    using B that by (simp add: tiles_def)
  have new_old: "blk b \<inter> blk d = {}" if b: "b \<in> B - C" and d: "d \<in> D" for b d
  proof -
    have "blk b \<inter> blk c = {}" if "c \<in> C" for c
      using that b C by (intro B2) auto
    then have "blk b \<inter> \<Union> (blk ` C) = {}" by blast
    with cover d show ?thesis by auto
  qed
  have "B = (B - C) \<union> C" using C by blast
  then have "\<Union> (blk ` B) = \<Union> (blk ` (B - C)) \<union> \<Union> (blk ` C)"
    by (metis Union_Un_distrib image_Un)
  then have "{lo..<hi} \<subseteq> \<Union> (blk ` (B - C)) \<union> \<Union> (blk ` C)"
    using B by (simp add: tiles_def)
  with cover have "{lo..<hi} \<subseteq> \<Union> (blk ` ((B - C) \<union> D))" by auto
  moreover have "blk b \<inter> blk c = {}" if "b \<in> (B - C) \<union> D" "c \<in> (B - C) \<union> D" "b \<noteq> c" for b c
    using that B2 [of b c] new_old [of b c] new_old [of c b] disj [of b c] by blast
  moreover have "\<forall>(ord, i) \<in> (B - C) \<union> D. ord \<le> MAX_ORDER \<and> 2 ^ ord dvd i \<and> lo \<le> i \<and> i + 2 ^ ord \<le> hi"
    using B ok by (auto simp: tiles_def)
  ultimately show ?thesis unfolding tiles_def by blast
qed

lemma tiles_split:
  assumes B: "tiles lo hi B" and b: "(Suc ord, i) \<in> B"
  shows "tiles lo hi ((B - {(Suc ord, i)}) \<union> {(ord, i), (ord, i + 2 ^ ord)})"
proof (rule tiles_replace [OF B])
  note d = tilesD [OF B b]
  have "2 ^ ord dvd i" using d(2) by (metis dvd_mult_right power_Suc)
  then have "2 ^ ord dvd i + 2 ^ ord" by simp
  then show "p \<le> MAX_ORDER \<and> 2 ^ p dvd j \<and> lo \<le> j \<and> j + 2 ^ p \<le> hi"
    if "(p, j) \<in> {(ord, i), (ord, i + 2 ^ ord)}" for p j
    using that d \<open>2 ^ ord dvd i\<close> by auto
  show "blk x \<inter> blk y = {}" if "x \<in> {(ord, i), (ord, i + 2 ^ ord)}" "y \<in> {(ord, i), (ord, i + 2 ^ ord)}" "x \<noteq> y" for x y
    using that blk_halves_disjoint [of ord i] by auto
qed (use b blk_Suc [of ord i] in auto)

lemma tiles_merge:
  assumes B: "tiles lo hi B" and b: "(ord, i) \<in> B" "(ord, i + 2 ^ ord) \<in> B"
    and ord: "Suc ord \<le> MAX_ORDER" "2 ^ Suc ord dvd i"
  shows "tiles lo hi ((B - {(ord, i), (ord, i + 2 ^ ord)}) \<union> {(Suc ord, i)})"
proof (rule tiles_replace [OF B])
  show "p \<le> MAX_ORDER \<and> 2 ^ p dvd j \<and> lo \<le> j \<and> j + 2 ^ p \<le> hi" if "(p, j) \<in> {(Suc ord, i)}" for p j
    using that ord tilesD [OF B b(1)] tilesD [OF B b(2)] by auto
qed (use b blk_Suc [of ord i] in auto)

section \<open>Pairs of buddies\<close>

definition pair :: "nat \<Rightarrow> nat \<Rightarrow> nat set" where
  "pair ord q = {2 ^ Suc ord * q, 2 ^ Suc ord * q + 2 ^ ord}"

definition buddy_of :: "nat \<Rightarrow> nat \<Rightarrow> nat" where
  "buddy_of ord i = i XOR push_bit ord 1"

lemma unset_bit_nat: "unset_bit n (i :: nat) = (if bit i n then i - 2 ^ n else i)"
proof (cases "bit i n")
  case True
  have "i = set_bit n (unset_bit n i)"
    using True by (intro bit_eqI) (auto simp: bit_simps)
  also have "\<dots> = unset_bit n i + 2 ^ n"
    by (simp add: set_bit_eq bit_simps)
  finally show ?thesis using True by simp
next
  case False
  then have "unset_bit n i = i" by (intro bit_eqI) (auto simp: bit_simps)
  with False show ?thesis by simp
qed

lemma buddy_of_eq: "buddy_of n i = (if bit i n then i - 2 ^ n else i + 2 ^ n)"
proof -
  have "buddy_of n i = flip_bit n i" by (simp add: buddy_of_def flip_bit_eq_xor)
  then show ?thesis
    by (simp add: flip_bit_eq_if unset_bit_nat set_bit_eq)
qed

lemma aligned_cases:
  assumes "2 ^ ord dvd (i :: nat)"
  obtains (low) "\<not> bit i ord" "i = 2 ^ Suc ord * (i div 2 ^ Suc ord)"
    | (high) "bit i ord" "i = 2 ^ Suc ord * (i div 2 ^ Suc ord) + 2 ^ ord"
proof -
  from assms obtain c where c: "i = 2 ^ ord * c" by (elim dvdE)
  have ev: "i div 2 ^ Suc ord = c div 2" by (simp add: c)
  have odd: "bit i ord = odd c" by (simp add: c bit_iff_odd)
  show thesis
  proof (cases "odd c")
    case True
    then have "c = 2 * (c div 2) + 1" by simp
    then have "2 ^ ord * c = 2 ^ ord * (2 * (c div 2) + 1)" by (rule arg_cong)
    then have "i = 2 ^ Suc ord * (c div 2) + 2 ^ ord"
      unfolding c by (simp only: power_Suc algebra_simps mult_1_right)
    then show thesis using True high odd ev by simp
  next
    case False
    then have "c = 2 * (c div 2)" by simp
    then have "2 ^ ord * c = 2 ^ ord * (2 * (c div 2))" by (rule arg_cong)
    then have "i = 2 ^ Suc ord * (c div 2)"
      unfolding c by (simp only: power_Suc mult.commute mult.left_commute)
    then show thesis using False low odd ev by simp
  qed
qed

lemma unset_bit_aligned:
  assumes "2 ^ ord dvd (i :: nat)" shows "unset_bit ord i = 2 ^ Suc ord * (i div 2 ^ Suc ord)"
  using assms
proof (cases rule: aligned_cases)
  case low
  then show ?thesis by (simp add: unset_bit_nat)
next
  case high
  then have "i - 2 ^ ord = 2 ^ Suc ord * (i div 2 ^ Suc ord)" by linarith
  with high(1) show ?thesis by (simp add: unset_bit_nat)
qed

lemma pair_eq:
  assumes "2 ^ ord dvd i" shows "pair ord (i div 2 ^ Suc ord) = {i, buddy_of ord i}"
  using assms
proof (cases rule: aligned_cases)
  case low
  have "buddy_of ord i = i + 2 ^ ord" using low(1) by (simp add: buddy_of_eq)
  then show ?thesis using low(2) unfolding pair_def by metis
next
  case high
  have "buddy_of ord i = 2 ^ Suc ord * (i div 2 ^ Suc ord)"
    using high by (metis add_diff_cancel_right' buddy_of_eq)
  then show ?thesis using high(2) unfolding pair_def by (metis insert_commute)
qed

lemma pair_mem: "2 ^ ord dvd i \<Longrightarrow> i \<in> pair ord q \<longleftrightarrow> q = i div 2 ^ Suc ord"
proof
  assume "2 ^ ord dvd i" "i \<in> pair ord q"
  then show "q = i div 2 ^ Suc ord"
    by (auto simp: pair_def div_mult_self2 add.commute)
qed (simp add: pair_eq del: power_Suc)

lemma buddy_of_neq: "2 ^ ord dvd i \<Longrightarrow> buddy_of ord i \<noteq> i"
  by (elim aligned_cases) (auto simp: buddy_of_eq, metis add_diff_cancel_right' add_eq_self_zero power_not_zero zero_neq_numeral)

section \<open>The invariant on blocks, pairs and bits\<close>

text \<open>
  \<open>F ord\<close> is the set of free blocks of an order, \<open>bt ord q\<close> the bit of pair number \<open>q\<close> and
  \<open>A\<close> the set of allocated blocks.
\<close>

type_synonym blocks = "(nat \<times> nat) set"

definition all_blocks :: "(nat \<Rightarrow> nat set) \<Rightarrow> blocks \<Rightarrow> blocks" where
  "all_blocks F A = A \<union> {(ord, i). i \<in> F ord}"

definition pair_ok :: "(nat \<Rightarrow> nat set) \<Rightarrow> (nat \<Rightarrow> nat \<Rightarrow> bool) \<Rightarrow> nat \<Rightarrow> nat \<Rightarrow> bool" where
  "pair_ok F bt ord q \<longleftrightarrow> bt ord q = (pair ord q \<inter> F ord \<noteq> {}) \<and> \<not> pair ord q \<subseteq> F ord"

definition in_range :: "nat \<Rightarrow> nat \<Rightarrow> nat \<Rightarrow> nat \<Rightarrow> bool" where
  "in_range lo hi ord q \<longleftrightarrow> lo \<le> 2 ^ Suc ord * q \<and> 2 ^ Suc ord * q < hi"

definition blocks_inv :: "nat \<Rightarrow> nat \<Rightarrow> (nat \<Rightarrow> nat set) \<Rightarrow> (nat \<Rightarrow> nat \<Rightarrow> bool) \<Rightarrow> blocks \<Rightarrow> bool" where
  "blocks_inv lo hi F bt A \<longleftrightarrow>
     2 ^ MAX_ORDER dvd lo \<and> (\<forall>(ord, i) \<in> A. i \<notin> F ord) \<and> tiles lo hi (all_blocks F A) \<and>
     (\<forall>ord q. ord < MAX_ORDER \<longrightarrow> in_range lo hi ord q \<longrightarrow> pair_ok F bt ord q)"

definition toggle :: "(nat \<Rightarrow> nat \<Rightarrow> bool) \<Rightarrow> nat \<Rightarrow> nat \<Rightarrow> nat \<Rightarrow> nat \<Rightarrow> bool" where
  "toggle bt ord q = bt(ord := (bt ord)(q := \<not> bt ord q))"

lemma in_range_block:
  assumes inv: "blocks_inv lo hi F bt A" and b: "(ord, i) \<in> all_blocks F A" and ord: "ord < MAX_ORDER"
  shows "in_range lo hi ord (i div 2 ^ Suc ord)"
proof -
  have t: "tiles lo hi (all_blocks F A)" and lo: "2 ^ MAX_ORDER dvd lo"
    using inv by (auto simp: blocks_inv_def)
  note d = tilesD [OF t b]
  have "(2 :: nat) ^ Suc ord dvd 2 ^ MAX_ORDER" using ord by (intro le_imp_power_dvd) simp
  then obtain c where c: "lo = 2 ^ Suc ord * c" using lo by (metis dvdE dvd_trans)
  have "c \<le> i div 2 ^ Suc ord" using d(3) c
    by (metis div_le_mono nonzero_mult_div_cancel_left power_not_zero zero_neq_numeral)
  then have "lo \<le> 2 ^ Suc ord * (i div 2 ^ Suc ord)" using c mult_le_mono2 by blast
  moreover have "2 ^ Suc ord * (i div 2 ^ Suc ord) \<le> i" by (rule times_div_less_eq_dividend)
  moreover have "0 < (2 :: nat) ^ ord" by simp
  then have "i < hi" using d(4) by linarith
  ultimately show ?thesis unfolding in_range_def by linarith
qed

lemma pair_okD:
  "blocks_inv lo hi F bt A \<Longrightarrow> (ord, i) \<in> all_blocks F A \<Longrightarrow> ord < MAX_ORDER \<Longrightarrow>
   pair_ok F bt ord (i div 2 ^ Suc ord)"
  using in_range_block [of lo hi F bt A ord i] by (simp add: blocks_inv_def)

text \<open>A change of one list at one pair and of the pair's bit keeps all other pairs as they are.\<close>

lemma pairs_update:
  assumes inv: "\<forall>ord q. ord < MAX_ORDER \<longrightarrow> in_range lo hi ord q \<longrightarrow> pair_ok F bt ord q"
    and al: "2 ^ ord dvd i" and eq: "F' - {i, buddy_of ord i} = F ord - {i, buddy_of ord i}"
    and here: "ord < MAX_ORDER \<Longrightarrow> pair_ok (F(ord := F')) (toggle bt ord (i div 2 ^ Suc ord)) ord (i div 2 ^ Suc ord)"
  shows "\<forall>p q. p < MAX_ORDER \<longrightarrow> in_range lo hi p q \<longrightarrow>
    pair_ok (F(ord := F')) (toggle bt ord (i div 2 ^ Suc ord)) p q"
proof (intro allI impI)
  fix p q assume p: "p < MAX_ORDER" "in_range lo hi p q"
  show "pair_ok (F(ord := F')) (toggle bt ord (i div 2 ^ Suc ord)) p q"
  proof (cases "p = ord \<and> q = i div 2 ^ Suc ord")
    case True
    then show ?thesis using here p by simp
  next
    case False
    have disj: "pair p q \<inter> {i, buddy_of ord i} = {}" if "p = ord"
    proof -
      have q: "q \<noteq> i div 2 ^ Suc ord" using False that by simp
      have "x \<notin> pair ord (i div 2 ^ Suc ord)" if x: "x \<in> pair ord q" for x
      proof -
        have "2 ^ ord dvd x" using x by (auto simp: pair_def)
        then show ?thesis using x q pair_mem by metis
      qed
      then show ?thesis using pair_eq [OF al] that by auto
    qed
    have same: "x \<in> F' \<longleftrightarrow> x \<in> F ord" if "x \<notin> {i, buddy_of ord i}" for x
      using eq that by (metis DiffD1 DiffI)
    have "X \<inter> F' = X \<inter> F ord" "X \<subseteq> F' \<longleftrightarrow> X \<subseteq> F ord" if "X \<inter> {i, buddy_of ord i} = {}" for X
      using that same by fast+
    then have "pair p q \<inter> (F(ord := F')) p = pair p q \<inter> F p"
      "pair p q \<subseteq> (F(ord := F')) p \<longleftrightarrow> pair p q \<subseteq> F p"
      using disj by (cases "p = ord"; simp)+
    moreover have "toggle bt ord (i div 2 ^ Suc ord) p q = bt p q"
      using False by (auto simp: toggle_def)
    ultimately show ?thesis using inv p by (simp add: pair_ok_def)
  qed
qed

lemma toggle_same [simp]: "toggle bt ord q ord q = (\<not> bt ord q)"
  by (simp add: toggle_def)

lemma blocks_inv_toggle_max: "blocks_inv lo hi F (toggle bt MAX_ORDER q) A = blocks_inv lo hi F bt A"
  by (auto simp: blocks_inv_def pair_ok_def toggle_def)

lemma blocks_invD:
  assumes "blocks_inv lo hi F bt A"
  shows "2 ^ MAX_ORDER dvd lo" "(ord, i) \<in> A \<Longrightarrow> i \<notin> F ord" "tiles lo hi (all_blocks F A)"
    "\<forall>ord q. ord < MAX_ORDER \<longrightarrow> in_range lo hi ord q \<longrightarrow> pair_ok F bt ord q"
  using assms by (auto simp: blocks_inv_def)

lemma free_in_all: "i \<in> F ord \<Longrightarrow> (ord, i) \<in> all_blocks F A"
  by (simp add: all_blocks_def)

lemma alloc_in_all: "b \<in> A \<Longrightarrow> b \<in> all_blocks F A"
  by (simp add: all_blocks_def)

text \<open>A free block is taken off its list, and the bit of its pair flipped.\<close>

lemma blocks_take:
  assumes inv: "blocks_inv lo hi F bt A" and i: "i \<in> F ord"
  shows "blocks_inv lo hi (F(ord := F ord - {i})) (toggle bt ord (i div 2 ^ Suc ord)) (insert (ord, i) A)"
proof -
  note d = blocks_invD [OF inv]
  have al: "2 ^ ord dvd i" using tilesD(2) [OF d(3) free_in_all [where F = F, OF i]] .
  have same: "all_blocks (F(ord := F ord - {i})) (insert (ord, i) A) = all_blocks F A"
    using i by (auto simp: all_blocks_def split: if_splits)
  have here: "pair_ok (F(ord := F ord - {i})) (toggle bt ord (i div 2 ^ Suc ord)) ord (i div 2 ^ Suc ord)"
    if "ord < MAX_ORDER"
    using pair_okD [OF inv free_in_all [where F = F, OF i] that] i
    by (auto simp: pair_ok_def pair_eq [OF al] simp del: power_Suc)
  have "\<forall>p q. p < MAX_ORDER \<longrightarrow> in_range lo hi p q \<longrightarrow>
      pair_ok (F(ord := F ord - {i})) (toggle bt ord (i div 2 ^ Suc ord)) p q"
    by (rule pairs_update [OF d(4) al _ here]) auto
  moreover have "\<forall>(p, j) \<in> insert (ord, i) A. j \<notin> (F(ord := F ord - {i})) p"
    using d(2) by (auto split: if_splits)
  ultimately show ?thesis
    using d(1,3) same by (simp add: blocks_inv_def)
qed

text \<open>An allocated block goes back on the list of its order.\<close>

lemma blocks_put:
  assumes inv: "blocks_inv lo hi F bt A" and i: "(ord, i) \<in> A"
    and bt: "ord < MAX_ORDER \<Longrightarrow> \<not> bt ord (i div 2 ^ Suc ord)"
  shows "blocks_inv lo hi (F(ord := insert i (F ord))) (toggle bt ord (i div 2 ^ Suc ord)) (A - {(ord, i)})"
proof -
  note d = blocks_invD [OF inv]
  have al: "2 ^ ord dvd i" using tilesD(2) [OF d(3) alloc_in_all [OF i]] .
  have same: "all_blocks (F(ord := insert i (F ord))) (A - {(ord, i)}) = all_blocks F A"
    using i by (auto simp: all_blocks_def split: if_splits)
  have here: "pair_ok (F(ord := insert i (F ord))) (toggle bt ord (i div 2 ^ Suc ord)) ord (i div 2 ^ Suc ord)"
    if "ord < MAX_ORDER"
    using pair_okD [OF inv alloc_in_all [OF i] that] bt [OF that] buddy_of_neq [OF al]
    by (auto simp: pair_ok_def pair_eq [OF al] simp del: power_Suc)
  have "\<forall>p q. p < MAX_ORDER \<longrightarrow> in_range lo hi p q \<longrightarrow>
      pair_ok (F(ord := insert i (F ord))) (toggle bt ord (i div 2 ^ Suc ord)) p q"
    by (rule pairs_update [OF d(4) al _ here]) auto
  moreover have "\<forall>(p, j) \<in> A - {(ord, i)}. j \<notin> (F(ord := insert i (F ord))) p"
    using d(2) by (auto split: if_splits)
  ultimately show ?thesis
    using d(1,3) same by (simp add: blocks_inv_def)
qed

text \<open>An allocated block is split: its upper half becomes free.\<close>

lemma blocks_split:
  assumes inv: "blocks_inv lo hi F bt A" and i: "(Suc ord, i) \<in> A"
  shows "i + 2 ^ ord \<notin> F ord"
    "blocks_inv lo hi (F(ord := insert (i + 2 ^ ord) (F ord))) (toggle bt ord (i div 2 ^ Suc ord))
       (insert (ord, i) (A - {(Suc ord, i)}))"
proof -
  note d = blocks_invD [OF inv]
  let ?B = "all_blocks F A" and ?F = "F(ord := insert (i + 2 ^ ord) (F ord))"
    and ?A = "insert (ord, i) (A - {(Suc ord, i)})"
  note t = tilesD [OF d(3) alloc_in_all [OF i]]
  have nb: "\<not> bit i ord" using t(2) by (auto simp: bit_iff_odd elim!: dvdE)
  have al: "2 ^ ord dvd i" using t(2) by (metis dvd_mult_right power_Suc)
  have pr: "pair ord (i div 2 ^ Suc ord) = {i, i + 2 ^ ord}" "buddy_of ord i = i + 2 ^ ord"
    using pair_eq [OF al] nb by (simp_all add: buddy_of_eq)
  have out: "(ord, j) \<notin> ?B" if "j = i \<or> j = i + 2 ^ ord" for j
  proof
    assume "(ord, j) \<in> ?B"
    moreover have "j \<in> blk (Suc ord, i)"
      using that blk_nonempty [of i ord] blk_nonempty [of "i + 2 ^ ord" ord] by (auto simp: blk_Suc)
    ultimately have "(ord, j) = (Suc ord, i)"
      using tiles_inter [OF d(3) _ alloc_in_all [OF i] blk_nonempty] by blast
    then show False by simp
  qed
  then have free: "i \<notin> F ord" "i + 2 ^ ord \<notin> F ord" "(ord, i + 2 ^ ord) \<notin> A"
    by (auto simp: all_blocks_def)
  then show "i + 2 ^ ord \<notin> F ord" by simp
  have ord: "ord < MAX_ORDER" using t(1) by simp
  have rng: "in_range lo hi ord (i div 2 ^ Suc ord)"
  proof -
    have "2 ^ Suc ord * (i div 2 ^ Suc ord) = i" using t(2) by simp
    moreover have "0 < (2 :: nat) ^ Suc ord" by simp
    ultimately show ?thesis using t(3,4) unfolding in_range_def by linarith
  qed
  have "\<not> bt ord (i div 2 ^ Suc ord)"
    using d(4) ord rng free by (auto simp: pair_ok_def pr simp del: power_Suc)
  then have here: "pair_ok ?F (toggle bt ord (i div 2 ^ Suc ord)) ord (i div 2 ^ Suc ord)"
    using free by (auto simp: pair_ok_def pr simp del: power_Suc)
  have pairs: "\<forall>p q. p < MAX_ORDER \<longrightarrow> in_range lo hi p q \<longrightarrow>
      pair_ok ?F (toggle bt ord (i div 2 ^ Suc ord)) p q"
    by (rule pairs_update [OF d(4) al _ here]) (auto simp: pr)
  have "(Suc ord, i) \<notin> {(p, j). j \<in> F p}" using d(2) [OF i] by simp
  then have "all_blocks ?F ?A = (?B - {(Suc ord, i)}) \<union> {(ord, i), (ord, i + 2 ^ ord)}"
    by (auto simp: all_blocks_def split: if_splits)
  then have "tiles lo hi (all_blocks ?F ?A)"
    using tiles_split [OF d(3) alloc_in_all [OF i]] by simp
  moreover have "\<forall>(p, j) \<in> ?A. j \<notin> ?F p"
    using d(2) free by (auto split: if_splits)
  ultimately show "blocks_inv lo hi ?F (toggle bt ord (i div 2 ^ Suc ord)) ?A"
    using d(1) pairs by (simp add: blocks_inv_def)
qed

text \<open>The buddy of an allocated block is free if the bit of the pair is set; both become one block.\<close>

lemma blocks_merge:
  assumes inv: "blocks_inv lo hi F bt A" and i: "(ord, i) \<in> A" and ord: "ord < MAX_ORDER"
    and bt: "bt ord (i div 2 ^ Suc ord)"
  shows "buddy_of ord i \<in> F ord"
    "blocks_inv lo hi (F(ord := F ord - {buddy_of ord i})) (toggle bt ord (i div 2 ^ Suc ord))
       (insert (Suc ord, unset_bit ord i) (A - {(ord, i)}))"
    "(Suc ord, unset_bit ord i) \<notin> A"
proof -
  note d = blocks_invD [OF inv]
  let ?B = "all_blocks F A" and ?b = "buddy_of ord i" and ?p = "unset_bit ord i"
  let ?F = "F(ord := F ord - {?b})" and ?A = "insert (Suc ord, ?p) (A - {(ord, i)})"
  note t = tilesD [OF d(3) alloc_in_all [OF i]]
  have al: "2 ^ ord dvd i" by (rule t(2))
  have iF: "i \<notin> F ord" by (rule d(2) [OF i])
  show b: "?b \<in> F ord"
    using pair_okD [OF inv alloc_in_all [OF i] ord] bt iF
    by (auto simp: pair_ok_def pair_eq [OF al] simp del: power_Suc)
  have bA: "(ord, ?b) \<notin> A" using d(2) b by auto
  have here: "pair_ok ?F (toggle bt ord (i div 2 ^ Suc ord)) ord (i div 2 ^ Suc ord)"
    using iF bt by (auto simp: pair_ok_def pair_eq [OF al] simp del: power_Suc)
  have pairs: "\<forall>p q. p < MAX_ORDER \<longrightarrow> in_range lo hi p q \<longrightarrow>
      pair_ok ?F (toggle bt ord (i div 2 ^ Suc ord)) p q"
    by (rule pairs_update [OF d(4) al _ here]) auto
  have p: "2 ^ Suc ord dvd ?p" "{(ord, i), (ord, ?b)} = {(ord, ?p), (ord, ?p + 2 ^ ord)}"
  proof -
    have "?p = 2 ^ Suc ord * (i div 2 ^ Suc ord)" by (rule unset_bit_aligned [OF al])
    then show "2 ^ Suc ord dvd ?p" by simp
    show "{(ord, i), (ord, ?b)} = {(ord, ?p), (ord, ?p + 2 ^ ord)}"
    proof (cases "bit i ord")
      case True
      then have "2 ^ ord \<le> i" using al
        by (metis bit_0_eq bot_apply bot_bool_def dvd_imp_le gr0I)
      with True show ?thesis by (auto simp: unset_bit_nat buddy_of_eq)
    qed (auto simp: unset_bit_nat buddy_of_eq)
  qed
  have "{(ord, i), (ord, ?b)} \<subseteq> ?B"
    using alloc_in_all [where F = F, OF i] free_in_all [where F = F and A = A, OF b] by simp
  then have in_B: "(ord, ?p) \<in> ?B" "(ord, ?p + 2 ^ ord) \<in> ?B"
    unfolding p(2) by simp_all
  have new: "(Suc ord, ?p) \<notin> ?B"
  proof
    assume "(Suc ord, ?p) \<in> ?B"
    then have "(Suc ord, ?p) = (ord, ?p)"
      by (rule tiles_inter [OF d(3) _ in_B(1) blk_nonempty blk_nonempty])
    then show False by simp
  qed
  then show "(Suc ord, ?p) \<notin> A" by (simp add: all_blocks_def)
  have "all_blocks ?F ?A = (?B - {(ord, i), (ord, ?b)}) \<union> {(Suc ord, ?p)}"
    using iF bA by (auto simp: all_blocks_def split: if_splits)
  then have "tiles lo hi (all_blocks ?F ?A)"
    using tiles_merge [OF d(3) in_B _ p(1)] ord p(2) by simp
  moreover have "\<forall>(q, j) \<in> ?A. j \<notin> ?F q"
    using d(2) new by (auto simp: all_blocks_def split: if_splits)
  ultimately show "blocks_inv lo hi ?F (toggle bt ord (i div 2 ^ Suc ord)) ?A"
    using d(1) pairs by (simp add: blocks_inv_def)
qed

section \<open>The invariant of a pool\<close>

definition free_sets :: "(nat \<Rightarrow> free_area) \<Rightarrow> nat \<Rightarrow> nat set" where
  "free_sets ar ord = (if ord \<le> MAX_ORDER then set (pg_list (ar ord)) else {})"

definition pair_bits :: "(nat \<Rightarrow> free_area) \<Rightarrow> nat \<Rightarrow> nat \<Rightarrow> bool" where
  "pair_bits ar ord q = bit_at (bits (bmap (ar ord))) q"

definition area_ok :: "'a sys_scheme \<Rightarrow> nat \<Rightarrow> (nat \<Rightarrow> free_area) \<Rightarrow> bool" where
  "area_ok k hi ar \<longleftrightarrow> (\<forall>ord \<le> MAX_ORDER. distinct (pg_list (ar ord)) \<and>
     nr_free (ar ord) = int (length (pg_list (ar ord))) \<and> lock_at 0 k (bmap (ar ord)) \<and>
     hi \<le> 2 ^ Suc ord * (8 * byte_size (bmap (ar ord))))"

definition area_inv :: "'a sys_scheme \<Rightarrow> nat \<Rightarrow> nat \<Rightarrow> (nat \<Rightarrow> free_area) \<Rightarrow> blocks \<Rightarrow> bool" where
  "area_inv k lo hi ar A \<longleftrightarrow> area_ok k hi ar \<and> blocks_inv lo hi (free_sets ar) (pair_bits ar) A"

text \<open>The bit of a pair of blocks of the pool lies in the bitmap.\<close>

lemma pair_bit_in_bounds:
  assumes "area_inv k lo hi ar A" "(ord, i) \<in> all_blocks (free_sets ar) A" "ord \<le> MAX_ORDER"
  shows "i div 2 ^ Suc ord < 8 * byte_size (bmap (ar ord))"
proof -
  have "tiles lo hi (all_blocks (free_sets ar) A)"
    using assms(1) by (auto simp: area_inv_def blocks_inv_def)
  then have "i + 2 ^ ord \<le> hi" using assms(2) by (rule tilesD)
  moreover have "hi \<le> 2 ^ Suc ord * (8 * byte_size (bmap (ar ord)))"
    using assms(1,3) by (auto simp: area_inv_def area_ok_def)
  moreover have "0 < (2 :: nat) ^ ord" by simp
  ultimately have "i < 2 ^ Suc ord * (8 * byte_size (bmap (ar ord)))" by linarith
  then show ?thesis by (simp add: less_mult_imp_div_less mult.commute)
qed

definition area_upd :: "(nat \<Rightarrow> free_area) \<Rightarrow> nat \<Rightarrow> nat list \<Rightarrow> nat \<Rightarrow> nat \<Rightarrow> free_area" where
  "area_upd ar ord L q = ar(ord := \<lparr>nr_free = int (length L),
     bmap = set_bits (bmap (ar ord)) [q] (\<not> pair_bits ar ord q), pg_list = L\<rparr>)"

lemma area_reverse_at:
  assumes "area_ok k hi ar" "ord \<le> MAX_ORDER" "bmap a = bmap (ar ord)" "nr_free a = int (length (pg_list a))"
  shows "area_reverse k (ar(ord := a)) ord q =
    Some (if pair_bits ar ord q then 0 else 1, k, area_upd ar ord (pg_list a) q)"
proof -
  have "lock_at 0 k (bmap a)" using assms by (simp add: area_ok_def)
  from bitmap_reverse_at [OF this] assms(3,4) show ?thesis
    by (cases a) (simp add: area_reverse_def pair_bits_def area_upd_def)
qed

lemma area_reverse_plain:
  assumes "area_ok k hi ar" "ord \<le> MAX_ORDER"
  shows "area_reverse k ar ord q =
    Some (if pair_bits ar ord q then 0 else 1, k, area_upd ar ord (pg_list (ar ord)) q)"
  using area_reverse_at [OF assms, of "ar ord" q] assms by (simp add: area_ok_def)

lemma area_upd_ok:
  assumes "area_ok k hi ar" "distinct L"
  shows "area_ok k hi (area_upd ar ord L q)"
  using assms by (auto simp: area_ok_def area_upd_def)

lemma area_upd_free:
  "ord \<le> MAX_ORDER \<Longrightarrow> free_sets (area_upd ar ord L q) = (free_sets ar)(ord := set L)"
  by (auto simp: fun_eq_iff free_sets_def area_upd_def)

lemma area_upd_bits: "pair_bits (area_upd ar ord L q) = toggle (pair_bits ar) ord q"
  by (auto simp: fun_eq_iff pair_bits_def area_upd_def toggle_def)

lemma area_upd_inv:
  assumes "area_inv k lo hi ar A" "ord \<le> MAX_ORDER" "distinct L"
    and "blocks_inv lo hi ((free_sets ar)(ord := set L)) (toggle (pair_bits ar) ord q) A'"
  shows "area_inv k lo hi (area_upd ar ord L q) A'"
  using assms by (simp add: area_inv_def area_upd_ok area_upd_free area_upd_bits)

section \<open>The splits of \<open>alloc_pages\<close>\<close>

lemma split_loop_inv:
  "area_inv k lo hi ar A \<Longrightarrow> (ord + d, idx) \<in> A \<Longrightarrow> sz = 2 ^ (ord + d) div 2 \<Longrightarrow>
   \<exists>ar'. split_loop d ord idx sz k ar = Some (k, ar') \<and>
     area_inv k lo hi ar' (insert (ord, idx) (A - {(ord + d, idx)}))"
proof (induction d arbitrary: ar A sz)
  case 0
  then show ?case by (auto simp: insert_absorb)
next
  case (Suc d)
  let ?i = "ord + d" and ?A = "insert (ord + d, idx) (A - {(Suc (ord + d), idx)})"
  let ?L = "pg_list (ar (ord + d)) @ [idx + 2 ^ (ord + d)]" and ?q = "idx div 2 ^ Suc (ord + d)"
  have inv: "blocks_inv lo hi (free_sets ar) (pair_bits ar) A" and ok: "area_ok k hi ar"
    and mem: "(Suc ?i, idx) \<in> A"
    using Suc.prems by (simp_all add: area_inv_def)
  have i: "?i \<le> MAX_ORDER"
    using tilesD(1) [OF blocks_invD(3) [OF inv] alloc_in_all [OF mem]] by simp
  note sp = blocks_split [OF inv mem]
  have "insert (idx + 2 ^ ?i) (free_sets ar ?i) = set ?L" using i by (simp add: free_sets_def)
  moreover have "distinct ?L" using ok sp(1) i by (auto simp: area_ok_def free_sets_def)
  ultimately have inv': "area_inv k lo hi (area_upd ar ?i ?L ?q) ?A"
    using area_upd_inv [OF Suc.prems(1) i _, of ?L ?q ?A] sp(2) by simp
  have notin: "(?i, idx) \<notin> A"
  proof
    assume "(?i, idx) \<in> A"
    then have "(?i, idx) = (Suc ?i, idx)"
      using tiles_inter [OF blocks_invD(3) [OF inv] alloc_in_all alloc_in_all [OF mem]] blk_nonempty
      by blast
    then show False by simp
  qed
  have step: "split_loop (Suc d) ord idx sz k ar = split_loop d ord idx (sz div 2) k (area_upd ar ?i ?L ?q)"
  proof -
    have "nr_free (ar ?i) + 1 = int (length ?L)" "sz = 2 ^ ?i"
      using ok i Suc.prems(3) by (simp_all add: area_ok_def)
    then show ?thesis
      using area_reverse_at [OF ok i, where q = ?q and
          a = "(ar ?i)\<lparr>pg_list := ?L, nr_free := nr_free (ar ?i) + 1\<rparr>"]
      by (simp add: Let_def drop_bit_eq_div)
  qed
  have "sz div 2 = 2 ^ ?i div 2" using Suc.prems(3) by simp
  from Suc.IH [OF inv' _ this] obtain ar' where
    "split_loop d ord idx (sz div 2) k (area_upd ar ?i ?L ?q) = Some (k, ar')"
    "area_inv k lo hi ar' (insert (ord, idx) (?A - {(?i, idx)}))" by auto
  moreover have "?A - {(?i, idx)} = A - {(ord + Suc d, idx)}" using notin by auto
  ultimately show ?case using step by auto
qed

section \<open>The search of \<open>alloc_pages\<close>\<close>

definition page_taken :: "(nat \<Rightarrow> page) \<Rightarrow> nat \<Rightarrow> nat \<Rightarrow> nat \<Rightarrow> page" where
  "page_taken pgs idx ord = pgs(idx := \<lparr>pg_count = \<lparr>counter = 1\<rparr>, pg_private = of_nat ord\<rparr>)"

lemma page_taken_eq:
  "pg\<lparr>pg_private := w, pg_count := (pg_count pg)\<lparr>counter := 1\<rparr>\<rparr>
     = \<lparr>pg_count = \<lparr>counter = 1\<rparr>, pg_private = w\<rparr>"
proof -
  obtain c p where "pg = \<lparr>pg_count = c, pg_private = p\<rparr>" by (cases pg)
  then show ?thesis by (cases c) simp
qed

lemma alloc_loop_none:
  "\<forall>j. MAX_ORDER + 1 - d \<le> j \<and> j \<le> MAX_ORDER \<longrightarrow> nr_free (ar j) \<le> 0 \<Longrightarrow> d \<le> MAX_ORDER + 1 \<Longrightarrow>
   alloc_loop d ord k pgs ar = None"
proof (induction d)
  case (Suc d)
  have "nr_free (ar (MAX_ORDER - d)) \<le> 0" using Suc.prems by auto
  moreover have "alloc_loop d ord k pgs ar = None"
    by (rule Suc.IH) (use Suc.prems in auto)
  ultimately show ?case by simp
qed simp

lemma alloc_loop_some:
  assumes inv: "area_inv k lo hi ar A"
  shows "d \<le> MAX_ORDER + 1 \<Longrightarrow> ord \<le> MAX_ORDER + 1 - d \<Longrightarrow>
    \<exists>j. MAX_ORDER + 1 - d \<le> j \<and> j \<le> MAX_ORDER \<and> pg_list (ar j) \<noteq> [] \<Longrightarrow>
    \<exists>idx ar'. alloc_loop d ord k pgs ar = Some (idx, k, page_taken pgs idx ord, ar') \<and>
      area_inv k lo hi ar' (insert (ord, idx) A) \<and>
      (\<forall>b \<in> A. blk b \<inter> blk (ord, idx) = {})"
proof (induction d)
  case (Suc d)
  let ?i = "MAX_ORDER - d"
  have ok: "area_ok k hi ar" and binv: "blocks_inv lo hi (free_sets ar) (pair_bits ar) A"
    using inv by (simp_all add: area_inv_def)
  have i: "?i \<le> MAX_ORDER" by simp
  have nr: "nr_free (ar ?i) = int (length (pg_list (ar ?i)))" and dist: "distinct (pg_list (ar ?i))"
    using ok by (simp_all add: area_ok_def)
  show ?case
  proof (cases "pg_list (ar ?i)")
    case Nil
    have "\<exists>j. MAX_ORDER + 1 - d \<le> j \<and> j \<le> MAX_ORDER \<and> pg_list (ar j) \<noteq> []"
    proof -
      from Suc.prems(3) obtain j where j: "MAX_ORDER + 1 - Suc d \<le> j" "j \<le> MAX_ORDER" "pg_list (ar j) \<noteq> []"
        by blast
      then have "j \<noteq> ?i" using Nil by auto
      then have "MAX_ORDER + 1 - d \<le> j" using j(1) by simp
      with j show ?thesis by blast
    qed
    then show ?thesis using Suc Nil nr by auto
  next
    case (Cons idx L)
    let ?q = "idx div 2 ^ Suc ?i"
    have mem: "idx \<in> free_sets ar ?i" and L: "free_sets ar ?i - {idx} = set L" "distinct L"
      using Cons dist by (auto simp: free_sets_def)
    note tk = blocks_take [OF binv mem]
    have notin: "(?i, idx) \<notin> A" using blocks_invD(2) [OF binv] mem by auto
    have inv': "area_inv k lo hi (area_upd ar ?i L ?q) (insert (?i, idx) A)"
      using area_upd_inv [OF inv i L(2)] tk L(1) by simp
    have ord: "ord + (?i - ord) = ?i" using Suc.prems by simp
    obtain ar' where split: "split_loop (?i - ord) ord idx (2 ^ ?i div 2) k (area_upd ar ?i L ?q) = Some (k, ar')"
      and final: "area_inv k lo hi ar' (insert (ord, idx) (insert (?i, idx) A - {(?i, idx)}))"
      using split_loop_inv [OF inv', of ord "?i - ord" idx "2 ^ ?i div 2"] unfolding ord by auto
    have "area_reverse k (ar(?i := (ar ?i)\<lparr>nr_free := nr_free (ar ?i) - 1, pg_list := L\<rparr>)) ?i ?q
        = Some (if pair_bits ar ?i ?q then 0 else 1, k, area_upd ar ?i L ?q)"
      using area_reverse_at [OF ok i, where a = "(ar ?i)\<lparr>nr_free := nr_free (ar ?i) - 1, pg_list := L\<rparr>"] nr Cons
      by simp
    then have "alloc_loop (Suc d) ord k pgs ar = Some (idx, k, page_taken pgs idx ord, ar')"
      using nr Cons split by (simp add: Let_def drop_bit_eq_div page_taken_def atomic_set_def page_taken_eq)
    moreover have "insert (?i, idx) A - {(?i, idx)} = A" using notin by auto
    moreover have "blk b \<inter> blk (ord, idx) = {}" if "b \<in> A" for b
    proof -
      have "b \<noteq> (?i, idx)" using that notin by auto
      then have "blk b \<inter> blk (?i, idx) = {}"
        using tiles_inter [OF blocks_invD(3) [OF binv] alloc_in_all [OF that] free_in_all [where F = "free_sets ar", OF mem]]
        by blast
      moreover have "(2 :: nat) ^ ord \<le> 2 ^ ?i" using ord by (intro power_increasing) auto
      then have "blk (ord, idx) \<subseteq> blk (?i, idx)" by (auto simp: blk.simps)
      ultimately show ?thesis by blast
    qed
    ultimately show ?thesis using final by auto
  qed
qed auto

section \<open>The merges of \<open>__free_pages\<close>\<close>

definition area_push :: "(nat \<Rightarrow> free_area) \<Rightarrow> nat \<Rightarrow> nat \<Rightarrow> nat \<Rightarrow> free_area" where
  "area_push ar i idx = ar(i := (ar i)\<lparr>pg_list := idx # pg_list (ar i), nr_free := nr_free (ar i) + 1\<rparr>)"

lemma area_push_upd:
  assumes "area_ok k hi ar" "i \<le> MAX_ORDER"
  shows "free_sets (area_push ar i idx) = (free_sets ar)(i := insert idx (free_sets ar i))"
    "pair_bits (area_push ar i idx) = pair_bits ar"
    "idx \<notin> free_sets ar i \<Longrightarrow> area_ok k hi (area_push ar i idx)"
  using assms by (auto simp: area_push_def free_sets_def pair_bits_def area_ok_def fun_eq_iff)

lemma merge_loop_inv:
  "area_inv k lo hi ar A \<Longrightarrow> (MAX_ORDER - d, idx) \<in> A \<Longrightarrow> d \<le> MAX_ORDER \<Longrightarrow>
   \<exists>i idx' ar'. merge_loop d idx k ar = Some (i, idx', k, ar') \<and>
     area_inv k lo hi (area_push ar' i idx') (A - {(MAX_ORDER - d, idx)})"
proof (induction d arbitrary: ar A idx)
  case 0
  then have ok: "area_ok k hi ar" and binv: "blocks_inv lo hi (free_sets ar) (pair_bits ar) A"
    and mem: "(MAX_ORDER, idx) \<in> A" by (simp_all add: area_inv_def)
  show ?case
    using blocks_put [OF binv mem] area_push_upd [OF ok, of MAX_ORDER idx] blocks_invD(2) [OF binv mem]
    by (simp add: area_inv_def blocks_inv_toggle_max)
next
  case (Suc d)
  let ?i = "MAX_ORDER - Suc d" let ?q = "idx div 2 ^ Suc ?i" and ?b = "buddy_of ?i idx"
  have ok: "area_ok k hi ar" and binv: "blocks_inv lo hi (free_sets ar) (pair_bits ar) A"
    and mem: "(?i, idx) \<in> A" using Suc.prems by (simp_all add: area_inv_def)
  have i: "?i \<le> MAX_ORDER" "?i < MAX_ORDER" "Suc ?i = MAX_ORDER - d" using Suc.prems(3) by auto
  have nr: "nr_free (ar ?i) = int (length (pg_list (ar ?i)))" and dist: "distinct (pg_list (ar ?i))"
    using ok by (simp_all add: area_ok_def)
  have rev: "area_reverse k ar ?i (drop_bit (?i + 1) idx) =
      Some (if pair_bits ar ?i ?q then 0 else 1, k, area_upd ar ?i (pg_list (ar ?i)) ?q)"
    using area_reverse_plain [OF ok i(1)] by (simp add: drop_bit_eq_div)
  show ?case
  proof (cases "pair_bits ar ?i ?q")
    case True
    note mg = blocks_merge [OF binv mem i(2) True]
    let ?L = "remove1 ?b (pg_list (ar ?i))"
    have b: "?b \<in> set (pg_list (ar ?i))" using mg(1) i by (simp add: free_sets_def)
    have "length ?L = length (pg_list (ar ?i)) - 1" "0 < length (pg_list (ar ?i))"
      using b length_pos_if_in_set [OF b] by (simp_all add: length_remove1)
    then have "int (length ?L) = nr_free (ar ?i) - 1"
      unfolding nr by linarith
    then have L: "set ?L = free_sets ar ?i - {?b}" "distinct ?L" "int (length ?L) = nr_free (ar ?i) - 1"
      using dist i by (simp_all add: free_sets_def set_remove1_eq)
    have inv': "area_inv k lo hi (area_upd ar ?i ?L ?q) (insert (MAX_ORDER - d, unset_bit ?i idx) (A - {(?i, idx)}))"
      using area_upd_inv [OF Suc.prems(1) i(1) L(2)] mg(2) L(1) i(3) by simp
    have "(area_upd ar ?i (pg_list (ar ?i)) ?q)(?i := (area_upd ar ?i (pg_list (ar ?i)) ?q ?i)
        \<lparr>pg_list := ?L, nr_free := nr_free (area_upd ar ?i (pg_list (ar ?i)) ?q ?i) - 1\<rparr>)
        = area_upd ar ?i ?L ?q"
      using nr L(3) by (simp add: area_upd_def)
    then have step: "merge_loop (Suc d) idx k ar = merge_loop d (unset_bit ?i idx) k (area_upd ar ?i ?L ?q)"
      using rev True b by (simp add: Let_def buddy_of_def area_upd_def)
    have "insert (MAX_ORDER - d, unset_bit ?i idx) (A - {(?i, idx)}) - {(MAX_ORDER - d, unset_bit ?i idx)}
        = A - {(?i, idx)}"
      using mg(3) i(3) by auto
    then show ?thesis
      using Suc.IH [OF inv', of "unset_bit ?i idx"] Suc.prems(3) step by auto
  next
    case False
    let ?ar = "area_upd ar ?i (pg_list (ar ?i)) ?q"
    have ok': "area_ok k hi ?ar" by (rule area_upd_ok [OF ok dist])
    have F: "free_sets ?ar = free_sets ar"
      using area_upd_free [OF i(1), of ar "pg_list (ar ?i)" ?q] i(1)
      by (auto simp: free_sets_def fun_eq_iff)
    have "blocks_inv lo hi ((free_sets ar)(?i := insert idx (free_sets ar ?i)))
        (toggle (pair_bits ar) ?i ?q) (A - {(?i, idx)})"
      using blocks_put [OF binv mem] False by simp
    then have "area_inv k lo hi (area_push ?ar ?i idx) (A - {(?i, idx)})"
      using area_push_upd [OF ok' i(1)] blocks_invD(2) [OF binv mem] F
      by (simp add: area_inv_def area_upd_bits)
    then show ?thesis using rev False by (simp add: Let_def)
  qed
qed

section \<open>The allocator as a whole\<close>

definition pool_end :: "buddy \<Rightarrow> nat" where
  "pool_end bd = pg_cnt bd div 2 ^ MAX_ORDER * 2 ^ MAX_ORDER"

definition blocks_below :: "nat \<Rightarrow> blocks \<Rightarrow> blocks" where
  "blocks_below n A = {b \<in> A. snd b < n}"

definition blocks_from :: "nat \<Rightarrow> blocks \<Rightarrow> blocks" where
  "blocks_from n A = {b \<in> A. n \<le> snd b}"

text \<open>\<open>A\<close> is the set of blocks handed out: each carries its order and a positive count.\<close>

definition buddy_inv :: "'a sys_scheme \<Rightarrow> buddy \<Rightarrow> blocks \<Rightarrow> bool" where
  "buddy_inv k bd A \<longleftrightarrow>
     area_inv k 0 (user_start_idx bd) (kernel_area bd) (blocks_below (user_start_idx bd) A) \<and>
     area_inv k (user_start_idx bd) (pool_end bd) (user_area bd) (blocks_from (user_start_idx bd) A) \<and>
     (\<forall>(ord, i) \<in> A. pg_private (pages bd i) = of_nat ord \<and> 0 < atomic_read (pg_count (pages bd i)))"

lemma area_inv_eflags [simp]: "area_inv (k\<lparr>eflags := e\<rparr>) lo hi ar A = area_inv k lo hi ar A"
  by (simp add: area_inv_def area_ok_def lock_at_def)

lemma area_inv_tiles: "area_inv k lo hi ar A \<Longrightarrow> tiles lo hi (all_blocks (free_sets ar) A)"
  by (simp add: area_inv_def blocks_inv_def)

lemma area_invD:
  assumes "area_inv k lo hi ar A" "(ord, i) \<in> A"
  shows "ord \<le> MAX_ORDER" "2 ^ ord dvd i" "lo \<le> i" "i + 2 ^ ord \<le> hi" "i < hi"
proof -
  note t = tilesD [OF area_inv_tiles [OF assms(1)] alloc_in_all [OF assms(2)]]
  show "ord \<le> MAX_ORDER" "2 ^ ord dvd i" "lo \<le> i" "i + 2 ^ ord \<le> hi" by (rule t)+
  have "0 < (2 :: nat) ^ ord" by simp
  with t(4) show "i < hi" by linarith
qed

lemma blocks_split_at: "A = blocks_below n A \<union> blocks_from n A"
  by (auto simp: blocks_below_def blocks_from_def)

lemma buddy_invD:
  assumes "buddy_inv k bd A" "(ord, i) \<in> A"
  shows "ord \<le> MAX_ORDER" "2 ^ ord dvd i" "i + 2 ^ ord \<le> max (user_start_idx bd) (pool_end bd)"
    "i < user_start_idx bd \<Longrightarrow> i + 2 ^ ord \<le> user_start_idx bd"
    "user_start_idx bd \<le> i \<Longrightarrow> i + 2 ^ ord \<le> pool_end bd"
    "pg_private (pages bd i) = of_nat ord" "0 < atomic_read (pg_count (pages bd i))"
proof -
  have kernel: "area_inv k 0 (user_start_idx bd) (kernel_area bd) (blocks_below (user_start_idx bd) A)"
    and user: "area_inv k (user_start_idx bd) (pool_end bd) (user_area bd) (blocks_from (user_start_idx bd) A)"
    using assms(1) by (simp_all add: buddy_inv_def)
  have "(ord, i) \<in> blocks_below (user_start_idx bd) A \<or> (ord, i) \<in> blocks_from (user_start_idx bd) A"
    using assms(2) blocks_split_at by blast
  then show "ord \<le> MAX_ORDER" "2 ^ ord dvd i" "i + 2 ^ ord \<le> max (user_start_idx bd) (pool_end bd)"
    "i < user_start_idx bd \<Longrightarrow> i + 2 ^ ord \<le> user_start_idx bd"
    "user_start_idx bd \<le> i \<Longrightarrow> i + 2 ^ ord \<le> pool_end bd"
    using area_invD [OF kernel, of ord i] area_invD [OF user, of ord i]
    by (auto simp: blocks_below_def blocks_from_def)
  show "pg_private (pages bd i) = of_nat ord" "0 < atomic_read (pg_count (pages bd i))"
    using assms by (auto simp: buddy_inv_def)
qed

lemma buddy_inv_disjoint:
  assumes inv: "buddy_inv k bd A" and b: "b \<in> A" and c: "c \<in> A" and neq: "b \<noteq> c"
  shows "blk b \<inter> blk c = {}"
proof -
  let ?us = "user_start_idx bd"
  have kernel: "area_inv k 0 ?us (kernel_area bd) (blocks_below ?us A)"
    and user: "area_inv k ?us (pool_end bd) (user_area bd) (blocks_from ?us A)"
    using inv by (simp_all add: buddy_inv_def)
  have low: "blk x \<subseteq> {..<?us}" if "x \<in> blocks_below ?us A" for x
    using area_invD(4) [OF kernel, of "fst x" "snd x"] that by (cases x) (auto simp: blk.simps)
  have high: "blk x \<subseteq> {?us..}" if "x \<in> blocks_from ?us A" for x
    using that by (cases x) (auto simp: blk.simps blocks_from_def)
  have same: "blk b \<inter> blk c = {}" if "b \<in> P" "c \<in> P" "area_inv k lo hi ar P" for lo hi ar P
    using tiles_inter [OF area_inv_tiles [OF that(3)] alloc_in_all [OF that(1)] alloc_in_all [OF that(2)]] neq
    by blast
  have "x \<in> blocks_below ?us A \<or> x \<in> blocks_from ?us A" if "x \<in> A" for x
    using that blocks_split_at by blast
  then consider "b \<in> blocks_below ?us A" "c \<in> blocks_below ?us A" | "b \<in> blocks_from ?us A" "c \<in> blocks_from ?us A"
    | "b \<in> blocks_below ?us A" "c \<in> blocks_from ?us A" | "b \<in> blocks_from ?us A" "c \<in> blocks_below ?us A"
    using b c by blast
  then show ?thesis
  proof cases
    case 1 then show ?thesis by (rule same [OF _ _ kernel])
  next
    case 2 then show ?thesis by (rule same [OF _ _ user])
  next
    case 3 then show ?thesis using low [of b] high [of c] by fastforce
  next
    case 4 then show ?thesis using low [of c] high [of b] by fastforce
  qed
qed

lemma page_taken_count: "atomic_read (pg_count (page_taken pgs idx ord idx)) = 1"
  by (simp add: page_taken_def atomic_read_def)

text \<open>Two blocks of the same pool that begin at the same page are the same.\<close>

lemma pages_after_alloc:
  assumes "\<forall>(p, i) \<in> A. pg_private (pgs i) = of_nat p \<and> 0 < atomic_read (pg_count (pgs i))"
    and "\<forall>b \<in> A. blk b \<inter> blk (ord, idx) = {}"
  shows "\<forall>(p, i) \<in> insert (ord, idx) A. pg_private (page_taken pgs idx ord i) = of_nat p \<and>
    0 < atomic_read (pg_count (page_taken pgs idx ord i))"
proof -
  have "i \<noteq> idx" if "(p, i) \<in> A" for p i
    using assms(2) that blk_nonempty by fast
  then show ?thesis
    using assms(1) by (auto simp: page_taken_def atomic_read_def)
qed

lemma blocks_part_insert:
  "idx < n \<Longrightarrow> blocks_below n (insert (ord, idx) A) = insert (ord, idx) (blocks_below n A)"
  "idx < n \<Longrightarrow> blocks_from n (insert (ord, idx) A) = blocks_from n A"
  "n \<le> idx \<Longrightarrow> blocks_below n (insert (ord, idx) A) = blocks_below n A"
  "n \<le> idx \<Longrightarrow> blocks_from n (insert (ord, idx) A) = insert (ord, idx) (blocks_from n A)"
  by (auto simp: blocks_below_def blocks_from_def)

lemma blocks_part_delete:
  "idx < n \<Longrightarrow> blocks_below n (A - {(ord, idx)}) = blocks_below n A - {(ord, idx)}"
  "idx < n \<Longrightarrow> blocks_from n (A - {(ord, idx)}) = blocks_from n A"
  "n \<le> idx \<Longrightarrow> blocks_below n (A - {(ord, idx)}) = blocks_below n A"
  "n \<le> idx \<Longrightarrow> blocks_from n (A - {(ord, idx)}) = blocks_from n A - {(ord, idx)}"
  by (auto simp: blocks_below_def blocks_from_def)

text \<open>A block at one side of \<open>user_start_idx\<close> is disjoint from those at the other side.\<close>

lemma blocks_sides_disjoint:
  assumes "area_inv k 0 us ka (blocks_below us A)" "area_inv k' us hi ua (blocks_from us A)"
    "\<forall>b \<in> blocks_from us A. blk b \<inter> blk (ord, idx) = {}" "us \<le> idx"
  shows "\<forall>b \<in> A. blk b \<inter> blk (ord, idx) = {}"
proof
  fix b assume b: "b \<in> A"
  show "blk b \<inter> blk (ord, idx) = {}"
  proof (cases "snd b < us")
    case True
    then have "snd b + 2 ^ fst b \<le> us"
      using area_invD(4) [OF assms(1), of "fst b" "snd b"] b by (simp add: blocks_below_def)
    then show ?thesis using assms(4) by (cases b) (auto simp: blk.simps)
  next
    case False
    then show ?thesis using assms(3) b by (cases b) (simp add: blocks_from_def)
  qed
qed

lemma blocks_sides_disjoint':
  assumes "\<forall>b \<in> blocks_below us A. blk b \<inter> blk (ord, idx) = {}" "idx + 2 ^ ord \<le> us"
  shows "\<forall>b \<in> A. blk b \<inter> blk (ord, idx) = {}"
proof
  fix b assume b: "b \<in> A"
  show "blk b \<inter> blk (ord, idx) = {}"
  proof (cases "snd b < us")
    case True
    then show ?thesis using assms(1) b by (cases b) (simp add: blocks_below_def)
  next
    case False
    then show ?thesis using assms(2) by (cases b) (auto simp: blk.simps)
  qed
qed

lemma alloc_pages_case:
  assumes inv: "buddy_inv k bd A" and ord: "ord \<le> MAX_ORDER"
    and ar: "ar = (if flag AND USER_POOL \<noteq> 0 then user_area bd else kernel_area bd)"
  shows "(\<forall>j. ord \<le> j \<and> j \<le> MAX_ORDER \<longrightarrow> pg_list (ar j) = []) \<Longrightarrow> alloc_pages k bd flag (int ord) = None"
    "\<exists>j. ord \<le> j \<and> j \<le> MAX_ORDER \<and> pg_list (ar j) \<noteq> [] \<Longrightarrow>
      \<exists>idx bd'. alloc_pages k bd flag (int ord) = Some (idx, k, bd') \<and> buddy_inv k bd' (insert (ord, idx) A) \<and>
        (\<forall>b \<in> A. blk b \<inter> blk (ord, idx) = {}) \<and> user_start_idx bd' = user_start_idx bd \<and> pg_cnt bd' = pg_cnt bd \<and>
        pages bd' = page_taken (pages bd) idx ord \<and>
        (flag AND USER_POOL \<noteq> 0 \<longleftrightarrow> user_start_idx bd \<le> idx)"
proof -
  let ?us = "user_start_idx bd" and ?user = "flag AND USER_POOL \<noteq> 0"
  let ?k = "k\<lparr>eflags := set_if INTR_OFF (eflags k)\<rparr>"
  have kinv: "area_inv ?k 0 ?us (kernel_area bd) (blocks_below ?us A)"
    and uinv: "area_inv ?k ?us (pool_end bd) (user_area bd) (blocks_from ?us A)"
    and pgs: "\<forall>(p, i) \<in> A. pg_private (pages bd i) = of_nat p \<and> 0 < atomic_read (pg_count (pages bd i))"
    using inv by (simp_all add: buddy_inv_def)
  define lo hi P where "lo = (if ?user then ?us else 0)" and "hi = (if ?user then pool_end bd else ?us)"
    and "P = (if ?user then blocks_from ?us A else blocks_below ?us A)"
  have arinv: "area_inv ?k lo hi ar P"
    using kinv uinv by (simp add: ar lo_def hi_def P_def)
  have d: "MAX_ORDER + 1 - (MAX_ORDER + 1 - ord) = ord" using ord by simp
  show "alloc_pages k bd flag (int ord) = None"
    if none: "\<forall>j. ord \<le> j \<and> j \<le> MAX_ORDER \<longrightarrow> pg_list (ar j) = []"
  proof -
    have "nr_free (ar j) \<le> 0" if "ord \<le> j" "j \<le> MAX_ORDER" for j
      using arinv none that by (simp add: area_inv_def area_ok_def)
    then have "alloc_loop (MAX_ORDER + 1 - ord) ord ?k (pages bd) ar = None"
      by (intro alloc_loop_none) (auto simp only: d)
    then show ?thesis using ord by (simp add: alloc_pages_def intr_disable_eq ar Let_def)
  qed
  assume some: "\<exists>j. ord \<le> j \<and> j \<le> MAX_ORDER \<and> pg_list (ar j) \<noteq> []"
  obtain idx ar' where r: "alloc_loop (MAX_ORDER + 1 - ord) ord ?k (pages bd) ar
        = Some (idx, ?k, page_taken (pages bd) idx ord, ar')"
      "area_inv ?k lo hi ar' (insert (ord, idx) P)" "\<forall>b \<in> P. blk b \<inter> blk (ord, idx) = {}"
    using alloc_loop_some [OF arinv, of "MAX_ORDER + 1 - ord" ord "pages bd"] some ord unfolding d by auto
  let ?bd = "if ?user then bd\<lparr>pages := page_taken (pages bd) idx ord, user_area := ar'\<rparr>
    else bd\<lparr>pages := page_taken (pages bd) idx ord, kernel_area := ar'\<rparr>"
  have res: "alloc_pages k bd flag (int ord) = Some (idx, k, ?bd)"
    using r(1) ord unfolding alloc_pages_def ar
    by (simp add: critical_section Let_def)
  have idx: "lo \<le> idx" "idx + 2 ^ ord \<le> hi" "idx < hi"
    using area_invD [OF r(2), of ord idx] by auto
  have disj: "\<forall>b \<in> A. blk b \<inter> blk (ord, idx) = {}"
  proof (cases ?user)
    case True
    then show ?thesis using blocks_sides_disjoint [OF kinv uinv] r(3) idx(1) by (simp add: P_def lo_def)
  next
    case False
    then show ?thesis using blocks_sides_disjoint' [of ?us A] r(3) idx(2) by (simp add: P_def hi_def)
  qed
  note pgs' = pages_after_alloc [OF pgs disj]
  have side: "?user \<longleftrightarrow> ?us \<le> idx"
    using idx by (auto simp: lo_def hi_def split: if_splits)
  have "buddy_inv k ?bd (insert (ord, idx) A)"
  proof (cases ?user)
    case True
    then show ?thesis
      using r(2) kinv pgs' side by (simp add: buddy_inv_def blocks_part_insert lo_def hi_def P_def pool_end_def)
  next
    case False
    then show ?thesis
      using r(2) uinv pgs' side by (simp add: buddy_inv_def blocks_part_insert lo_def hi_def P_def pool_end_def)
  qed
  then show "\<exists>idx bd'. alloc_pages k bd flag (int ord) = Some (idx, k, bd') \<and> buddy_inv k bd' (insert (ord, idx) A) \<and>
        (\<forall>b \<in> A. blk b \<inter> blk (ord, idx) = {}) \<and> user_start_idx bd' = user_start_idx bd \<and> pg_cnt bd' = pg_cnt bd \<and>
        pages bd' = page_taken (pages bd) idx ord \<and>
        (?user \<longleftrightarrow> user_start_idx bd \<le> idx)"
    using res disj side by (intro exI [of _ idx] exI [of _ ?bd]) simp
qed

lemma pages_update_others:
  assumes "\<forall>(p, i) \<in> A. pg_private (pgs i) = of_nat p \<and> 0 < atomic_read (pg_count (pgs i))"
    and "\<And>p. (p, pg) \<in> A \<Longrightarrow> (p, pg) = b"
  shows "\<forall>(p, i) \<in> A - {b}. pg_private ((pgs(pg := x)) i) = of_nat p \<and> 0 < atomic_read (pg_count ((pgs(pg := x)) i))"
  using assms by auto

lemma free_pages_case:
  assumes inv: "buddy_inv k bd A" and mem: "(ord, pg) \<in> A"
  shows "\<exists>bd'. free_pages_idx k bd pg (int ord) = Some (k, bd') \<and>
    user_start_idx bd' = user_start_idx bd \<and> pg_cnt bd' = pg_cnt bd \<and>
    (\<forall>i. i \<noteq> pg \<longrightarrow> pages bd' i = pages bd i) \<and>
    (if atomic_read (pg_count (pages bd pg)) = 1 then buddy_inv k bd' (A - {(ord, pg)})
     else buddy_inv k bd' A \<and>
       atomic_read (pg_count (pages bd' pg)) = atomic_read (pg_count (pages bd pg)) - 1)"
proof -
  let ?us = "user_start_idx bd" and ?c = "pg_count (pages bd pg)"
  let ?k = "k\<lparr>eflags := set_if INTR_OFF (eflags k)\<rparr>"
  have kinv: "area_inv ?k 0 ?us (kernel_area bd) (blocks_below ?us A)"
    and uinv: "area_inv ?k ?us (pool_end bd) (user_area bd) (blocks_from ?us A)"
    and pgs: "\<forall>(p, i) \<in> A. pg_private (pages bd i) = of_nat p \<and> 0 < atomic_read (pg_count (pages bd i))"
    using inv by (simp_all add: buddy_inv_def)
  define c where "c = snd (atomic_dec_and_setg ?c)"
  define pgs' where "pgs' = (pages bd)(pg := (pages bd pg)\<lparr>pg_count := c\<rparr>)"
  have dec: "atomic_dec_and_setg ?c = (1 < atomic_read ?c, c)"
    using atomic_dec_and_setg_fst [of ?c] by (intro prod_eqI) (auto simp: c_def)
  have c: "atomic_read c = atomic_read ?c - 1" if "1 < atomic_read ?c"
  proof -
    have "counter ?c \<noteq> 2147483648" using that by (auto simp: atomic_read_def)
    then show ?thesis
      using sint_minus_1 [of "counter ?c"]
      by (simp add: c_def atomic_dec_and_setg_def atomic_read_def decl_def Let_def)
  qed
  have priv: "pg_private (pages bd pg) = of_nat ord" and pos: "0 < atomic_read ?c" and le: "ord \<le> MAX_ORDER"
    using buddy_invD [OF inv mem] by auto
  show ?thesis
  proof (cases "atomic_read ?c = 1")
    case False
    then have gt: "1 < atomic_read ?c" using pos by simp
    have "\<forall>(p, i) \<in> A. pg_private (pgs' i) = of_nat p \<and> 0 < atomic_read (pg_count (pgs' i))"
      using pgs c [OF gt] gt by (auto simp: pgs'_def)
    then have "buddy_inv k (bd\<lparr>pages := pgs'\<rparr>) A"
      using kinv uinv by (simp add: buddy_inv_def pool_end_def)
    then show ?thesis
      using dec gt c [OF gt] by (simp add: free_pages_idx_def pgs'_def)
  next
    case True
    define user where "user \<longleftrightarrow> ?us \<le> pg"
    define lo hi P ar where "lo = (if user then ?us else 0)" and "hi = (if user then pool_end bd else ?us)"
      and "P = (if user then blocks_from ?us A else blocks_below ?us A)"
      and "ar = (if user then user_area bd else kernel_area bd)"
    have arinv: "area_inv ?k lo hi ar P"
      using kinv uinv by (simp add: ar_def lo_def hi_def P_def)
    have memP: "(ord, pg) \<in> P"
      using mem by (auto simp: P_def user_def blocks_from_def blocks_below_def)
    have d: "MAX_ORDER - (MAX_ORDER - ord) = ord" using le by simp
    obtain i idx ar' where r: "merge_loop (MAX_ORDER - ord) pg ?k ar = Some (i, idx, ?k, ar')"
        "area_inv ?k lo hi (area_push ar' i idx) (P - {(ord, pg)})"
      using merge_loop_inv [OF arinv, of "MAX_ORDER - ord" pg] memP unfolding d by auto
    let ?bd = "if user then bd\<lparr>pages := pgs', user_area := area_push ar' i idx\<rparr>
      else bd\<lparr>pages := pgs', kernel_area := area_push ar' i idx\<rparr>"
    have same: "(p, pg) = (ord, pg)" if "(p, pg) \<in> A" for p
    proof -
      have "(p, pg) \<in> P" using that by (auto simp: P_def user_def blocks_from_def blocks_below_def)
      from tiles_inter [OF area_inv_tiles [OF arinv] alloc_in_all [OF this] alloc_in_all [OF memP]
          blk_nonempty blk_nonempty]
      show ?thesis .
    qed
    have pgs2: "\<forall>(p, i) \<in> A - {(ord, pg)}. pg_private (pgs' i) = of_nat p \<and> 0 < atomic_read (pg_count (pgs' i))"
      unfolding pgs'_def by (rule pages_update_others [OF pgs same])
    have "buddy_inv k ?bd (A - {(ord, pg)})"
    proof (cases user)
      case True
      then show ?thesis
        using r(2) kinv pgs2 by (simp add: user_def buddy_inv_def blocks_part_delete lo_def hi_def P_def pool_end_def)
    next
      case False
      then show ?thesis
        using r(2) uinv pgs2 by (simp add: user_def buddy_inv_def blocks_part_delete lo_def hi_def P_def pool_end_def)
    qed
    moreover have "free_pages_idx k bd pg (int ord) = Some (k, ?bd)"
    proof (cases user)
      case True
      then show ?thesis
        using dec r(1) priv \<open>atomic_read ?c = 1\<close>
        by (simp add: free_pages_idx_def user_def ar_def critical_section Let_def area_push_def pgs'_def)
    next
      case False
      then show ?thesis
        using dec r(1) priv \<open>atomic_read ?c = 1\<close>
        by (simp add: free_pages_idx_def user_def ar_def critical_section Let_def area_push_def pgs'_def)
    qed
    ultimately show ?thesis using True by (intro exI [of _ ?bd]) (simp add: pgs'_def)
  qed
qed

section \<open>Complete merging\<close>

lemma in_blk_iff:
  assumes "2 ^ p dvd j" shows "x \<in> blk (p, j) \<longleftrightarrow> x div 2 ^ p = j div 2 ^ p"
proof -
  obtain c where c: "j = 2 ^ p * c" using assms by (elim dvdE)
  have "x div 2 ^ p = c \<longleftrightarrow> c \<le> x div 2 ^ p \<and> x div 2 ^ p < Suc c" by auto
  also have "\<dots> \<longleftrightarrow> c * 2 ^ p \<le> x \<and> x < Suc c * 2 ^ p"
    by (simp only: div_less_iff_less_mult less_eq_div_iff_mult_less_eq zero_less_power zero_less_numeral)
  also have "\<dots> \<longleftrightarrow> x \<in> blk (p, j)"
    by (auto simp: blk.simps c mult.commute)
  finally show ?thesis by (simp add: c)
qed

lemma div_pow_mono:
  assumes "x div 2 ^ p = y div (2 :: nat) ^ p" "p \<le> q" shows "x div 2 ^ q = y div 2 ^ q"
proof -
  have "(2 :: nat) ^ q = 2 ^ p * 2 ^ (q - p)" using assms(2) by (simp flip: power_add)
  then show ?thesis using assms(1) by (simp add: div_mult2_eq)
qed

lemma buddy_same_pair:
  assumes "2 ^ ord dvd i" shows "buddy_of ord i div 2 ^ Suc ord = i div 2 ^ Suc ord"
proof -
  have "buddy_of ord i \<in> pair ord (i div 2 ^ Suc ord)" using pair_eq [OF assms] by simp
  moreover from this have "2 ^ ord dvd buddy_of ord i" by (auto simp: pair_def)
  ultimately show ?thesis using pair_mem by metis
qed

text \<open>With nothing allocated all free blocks have the maximal order.\<close>

lemma all_merged:
  assumes inv: "blocks_inv lo hi F bt {}" and hi: "2 ^ MAX_ORDER dvd hi"
  shows "ord < MAX_ORDER \<Longrightarrow> F ord = {}"
proof (induction ord rule: less_induct)
  case (less ord)
  note d = blocks_invD [OF inv]
  show ?case
  proof (rule ccontr)
    assume "F ord \<noteq> {}"
    then obtain i where i: "i \<in> F ord" by auto
    note t = tilesD [OF d(3) free_in_all [where F = F, OF i]]
    have al: "2 ^ ord dvd i" by (rule t(2))
    let ?b = "buddy_of ord i"
    have ok: "pair_ok F bt ord (i div 2 ^ Suc ord)"
      by (rule pair_okD [OF inv free_in_all [where F = F, OF i] less.prems])
    have b_notin: "?b \<notin> F ord"
      using ok i by (simp add: pair_ok_def pair_eq [OF al] del: power_Suc)
    have "(2 :: nat) ^ Suc ord dvd 2 ^ MAX_ORDER" using less.prems by (intro le_imp_power_dvd) simp
    then obtain c where c: "hi = c * 2 ^ Suc ord" using hi by (metis dvd_def dvd_trans mult.commute)
    have rng: "in_range lo hi ord (i div 2 ^ Suc ord)"
      by (rule in_range_block [OF inv free_in_all [where F = F, OF i] less.prems])
    have "0 < (2 :: nat) ^ ord" by simp
    then have "i < c * 2 ^ Suc ord" using t(4) c by linarith
    then have "?b div 2 ^ Suc ord < c"
      by (simp only: buddy_same_pair [OF al] div_less_iff_less_mult zero_less_power zero_less_numeral)
    then have "?b < hi"
      unfolding c by (simp only: div_less_iff_less_mult zero_less_power zero_less_numeral)
    moreover have "lo \<le> ?b"
    proof -
      have "2 ^ Suc ord * (?b div 2 ^ Suc ord) \<le> ?b" by (rule times_div_less_eq_dividend)
      then show ?thesis using rng unfolding in_range_def buddy_same_pair [OF al] by linarith
    qed
    ultimately obtain p j where pj: "(p, j) \<in> all_blocks F {}" "?b \<in> blk (p, j)"
      using tiles_cover [OF d(3)] by blast
    then have pj: "j \<in> F p" "?b \<in> blk (p, j)" by (simp_all add: all_blocks_def)
    note tp = tilesD [OF d(3) free_in_all [where F = F, OF pj(1)]]
    have "ord \<le> p"
    proof (rule ccontr)
      assume "\<not> ord \<le> p"
      then have "F p = {}" using less by auto
      then show False using pj(1) by simp
    qed
    moreover have "p \<noteq> ord"
    proof
      assume "p = ord"
      moreover have "2 ^ ord dvd ?b"
      proof -
        have "?b \<in> pair ord (i div 2 ^ Suc ord)" using pair_eq [OF al] by simp
        then show ?thesis by (auto simp: pair_def)
      qed
      ultimately have "?b = j" using pj(2) tp(2) in_blk_iff by (metis dvd_div_mult_self)
      then show False using pj(1) b_notin \<open>p = ord\<close> by simp
    qed
    ultimately have "Suc ord \<le> p" by simp
    then have "i div 2 ^ p = ?b div 2 ^ p"
      using div_pow_mono [OF buddy_same_pair [OF al]] by simp
    then have "i \<in> blk (p, j)" using pj(2) tp(2) by (simp add: in_blk_iff)
    then have "(p, j) = (ord, i)"
      using tiles_inter [OF d(3) free_in_all [where F = F, OF pj(1)] free_in_all [where F = F, OF i] _ blk_nonempty] by simp
    then show False using \<open>p \<noteq> ord\<close> by simp
  qed
qed

lemma pool_merged:
  assumes inv: "area_inv k lo hi ar {}" and hi: "2 ^ MAX_ORDER dvd hi"
  shows "ord < MAX_ORDER \<Longrightarrow> pg_list (ar ord) = []"
    "set (pg_list (ar MAX_ORDER)) = {i. 2 ^ MAX_ORDER dvd i \<and> lo \<le> i \<and> i < hi}"
proof -
  have binv: "blocks_inv lo hi (free_sets ar) (pair_bits ar) {}" using inv by (simp add: area_inv_def)
  note merged = all_merged [OF binv hi]
  show "pg_list (ar ord) = []" if "ord < MAX_ORDER"
    using merged [OF that] that by (simp add: free_sets_def)
  note t = blocks_invD(3) [OF binv]
  have mem: "i \<in> set (pg_list (ar MAX_ORDER)) \<longleftrightarrow> (MAX_ORDER, i) \<in> all_blocks (free_sets ar) {}" for i
    by (simp add: all_blocks_def free_sets_def)
  show "set (pg_list (ar MAX_ORDER)) = {i. 2 ^ MAX_ORDER dvd i \<and> lo \<le> i \<and> i < hi}"
  proof (intro set_eqI iffI)
    fix i assume "i \<in> set (pg_list (ar MAX_ORDER))"
    then show "i \<in> {i. 2 ^ MAX_ORDER dvd i \<and> lo \<le> i \<and> i < hi}"
      using area_inv_tiles [OF inv] tilesD [OF t, of MAX_ORDER i] mem [of i]
      by (auto intro: less_le_trans [of _ "i + 2 ^ MAX_ORDER"])
  next
    fix i assume i: "i \<in> {i. 2 ^ MAX_ORDER dvd i \<and> lo \<le> i \<and> i < hi}"
    then obtain p j where pj: "(p, j) \<in> all_blocks (free_sets ar) {}" "i \<in> blk (p, j)"
      using tiles_cover [OF t, of i] by blast
    have "p = MAX_ORDER"
      using pj(1) merged [of p] by (cases "p < MAX_ORDER") (auto simp: all_blocks_def free_sets_def split: if_splits)
    moreover have "2 ^ p dvd j" using tilesD(2) [OF t pj(1)] .
    ultimately have "i = j" using pj(2) i by (simp add: in_blk_iff) (metis dvd_div_mult_self)
    then show "i \<in> set (pg_list (ar MAX_ORDER))" using pj(1) mem \<open>p = MAX_ORDER\<close> by simp
  qed
qed

section \<open>Initialisation\<close>

definition bmap_fresh :: "nat \<Rightarrow> free_area \<Rightarrow> free_area \<Rightarrow> bool" where
  "bmap_fresh nr a a' \<longleftrightarrow> pg_list a' = pg_list a \<and> nr_free a' = nr_free a \<and>
     b_lock (bmap a') = mutex_lock_init \<and> nr \<le> 8 * byte_size (bmap a') \<and>
     (\<forall>q < nr. \<not> bit_at (bits (bmap a')) q)"

lemma init_bitmaps_spec:
  "0 < nr \<Longrightarrow> \<exists>s' ar'. init_bitmaps n nr saddr ar = Some (s', ar') \<and> saddr \<le> s' \<and>
    (\<forall>j < n. bmap_fresh (nr * 2 ^ (n - 1 - j)) (ar j) (ar' j)) \<and> (\<forall>j \<ge> n. ar' j = ar j)"
proof (induction n arbitrary: nr saddr ar)
  case (Suc n)
  obtain b where b: "bitmap_init (bmap (ar n)) nr = Some b" "byte_size b = DIV_ROUND_UP nr 8"
    "b_lock b = mutex_lock_init" "\<forall>i < 8 * byte_size b. bit_at (bits b) i \<longleftrightarrow> nr \<le> i"
    using bitmap_init_spec [OF Suc.prems] by blast
  have len: "nr \<le> 8 * byte_size b"
    using DIV_ROUND_UP_ge [of 8 nr] b(2) by (simp add: mult.commute)
  define ar1 where "ar1 = ar(n := (ar n)\<lparr>bmap := b\<rparr>)"
  obtain s' ar' where IH: "init_bitmaps n (nr * 2) (saddr + DIV_ROUND_UP nr 8) ar1 = Some (s', ar')"
    "saddr + DIV_ROUND_UP nr 8 \<le> s'"
    "\<forall>j < n. bmap_fresh (nr * 2 * 2 ^ (n - 1 - j)) (ar1 j) (ar' j)" "\<forall>j \<ge> n. ar' j = ar1 j"
    using Suc.IH [of "nr * 2" "saddr + DIV_ROUND_UP nr 8" ar1] Suc.prems by auto
  have "bmap_fresh (nr * 2 ^ (Suc n - 1 - j)) (ar j) (ar' j)" if "j < Suc n" for j
  proof (cases "j = n")
    case True
    have "\<not> bit_at (bits b) q" if "q < nr" for q using b(4) len that by auto
    with True show ?thesis
      using IH(4) b(3) len by (simp add: ar1_def bmap_fresh_def)
  next
    case False
    with that have "j < n" "Suc n - 1 - j = Suc (n - 1 - j)" by auto
    then show ?thesis using IH(3) by (simp add: ar1_def mult.assoc)
  qed
  moreover have "ar' j = ar j" if "Suc n \<le> j" for j
    using IH(4) that by (simp add: ar1_def)
  ultimately show ?case
    using IH(1,2) b(1) by (simp add: ar1_def)
qed simp

lemma fresh_pool_inv:
  assumes lo: "lo = m * 2 ^ MAX_ORDER" and hi: "hi = n * 2 ^ MAX_ORDER"
    and nr: "n \<le> 2 * nr" and mn: "m \<le> n" and k: "current k \<noteq> NULL"
    and lists: "\<forall>j < MAX_ORDER. pg_list (ar j) = [] \<and> nr_free (ar j) = 0"
    and top: "pg_list (ar MAX_ORDER) = map (\<lambda>i. 2 ^ MAX_ORDER * i) [m..<n]" "nr_free (ar MAX_ORDER) = int (n - m)"
    and fresh: "\<forall>j \<le> MAX_ORDER. bmap_fresh (nr * 2 ^ (MAX_ORDER - j)) (ar j) (ar' j)"
  shows "area_inv k lo hi ar' {}"
proof -
  have F: "free_sets ar' = (\<lambda>j. if j = MAX_ORDER then (\<lambda>i. 2 ^ MAX_ORDER * i) ` {m..<n} else {})"
  proof
    fix j show "free_sets ar' j = (if j = MAX_ORDER then (\<lambda>i. 2 ^ MAX_ORDER * i) ` {m..<n} else {})"
      using fresh [rule_format, of j] lists top(1)
      by (cases "j = MAX_ORDER"; cases "j < MAX_ORDER") (auto simp: free_sets_def bmap_fresh_def)
  qed
  have pow: "2 ^ MAX_ORDER = 2 ^ Suc j * (2 :: nat) ^ (MAX_ORDER - Suc j)" if "j < MAX_ORDER" for j
    using that by (metis Suc_leI le_add_diff_inverse power_add)
  have small: "q < nr * 2 ^ (MAX_ORDER - j)" if j: "j < MAX_ORDER" and q: "2 ^ Suc j * q < hi" for j q
  proof -
    have "2 ^ Suc j * q < 2 ^ Suc j * (n * 2 ^ (MAX_ORDER - Suc j))"
      using q unfolding hi pow [OF j] by (simp only: mult.left_commute mult.commute)
    then have "q < n * 2 ^ (MAX_ORDER - Suc j)" by (simp only: nat_mult_less_cancel_disj)
    also have "\<dots> \<le> (2 * nr) * 2 ^ (MAX_ORDER - Suc j)" using nr by (rule mult_le_mono1)
    also have "\<dots> = nr * 2 ^ Suc (MAX_ORDER - Suc j)" by simp
    also have "Suc (MAX_ORDER - Suc j) = MAX_ORDER - j" using j by simp
    finally show ?thesis .
  qed
  have "pair_ok (free_sets ar') (pair_bits ar') j q" if "j < MAX_ORDER" "in_range lo hi j q" for j q
  proof -
    have "q < nr * 2 ^ (MAX_ORDER - j)" by (rule small) (use that in \<open>simp_all add: in_range_def\<close>)
    then have "\<not> pair_bits ar' j q"
      using fresh that(1) by (auto simp: bmap_fresh_def pair_bits_def)
    then show ?thesis using that(1) by (auto simp: pair_ok_def F pair_def)
  qed
  moreover have "tiles lo hi (all_blocks (free_sets ar') {})"
    unfolding tiles_def
  proof (intro conjI ballI impI)
    fix b assume "b \<in> all_blocks (free_sets ar') {}"
    then obtain i where i: "b = (MAX_ORDER, 2 ^ MAX_ORDER * i)" "m \<le> i" "Suc i \<le> n"
      by (auto simp: all_blocks_def F split: if_splits)
    have "m * 2 ^ MAX_ORDER \<le> i * 2 ^ MAX_ORDER" "Suc i * 2 ^ MAX_ORDER \<le> n * 2 ^ MAX_ORDER"
      using i by (simp_all only: mult_le_mono1)
    then show "case b of (ord, i) \<Rightarrow> ord \<le> MAX_ORDER \<and> 2 ^ ord dvd i \<and> lo \<le> i \<and> i + 2 ^ ord \<le> hi"
      by (simp add: i(1) lo hi mult.commute add.commute)
  next
    fix b c assume bc: "b \<in> all_blocks (free_sets ar') {}" "c \<in> all_blocks (free_sets ar') {}" "b \<noteq> c"
    obtain i where "b = (MAX_ORDER, 2 ^ MAX_ORDER * i)"
      using bc(1) by (auto simp: all_blocks_def F split: if_splits)
    moreover obtain j where "c = (MAX_ORDER, 2 ^ MAX_ORDER * j)"
      using bc(2) by (auto simp: all_blocks_def F split: if_splits)
    ultimately show "blk b \<inter> blk c = {}" using bc(3) by (auto simp: in_blk_iff)
  next
    show "{lo..<hi} \<subseteq> \<Union> (blk ` all_blocks (free_sets ar') {})"
    proof
      fix x assume x: "x \<in> {lo..<hi}"
      let ?i = "x div 2 ^ MAX_ORDER"
      have "m \<le> ?i" "?i < n"
        using x by (simp_all add: lo hi less_eq_div_iff_mult_less_eq div_less_iff_less_mult)
      then have "(MAX_ORDER, 2 ^ MAX_ORDER * ?i) \<in> all_blocks (free_sets ar') {}"
        by (auto simp: all_blocks_def F)
      moreover have "x \<in> blk (MAX_ORDER, 2 ^ MAX_ORDER * ?i)" by (simp add: in_blk_iff)
      ultimately show "x \<in> \<Union> (blk ` all_blocks (free_sets ar') {})" by blast
    qed
  qed
  ultimately have "blocks_inv lo hi (free_sets ar') (pair_bits ar') {}"
    using lo by (simp add: blocks_inv_def)
  moreover have "area_ok k hi ar'"
    unfolding area_ok_def
  proof (intro allI impI conjI)
    fix j assume j: "j \<le> MAX_ORDER"
    have f: "bmap_fresh (nr * 2 ^ (MAX_ORDER - j)) (ar j) (ar' j)" using fresh j by simp
    show "distinct (pg_list (ar' j))" "nr_free (ar' j) = int (length (pg_list (ar' j)))"
      using f lists top j by (cases "j = MAX_ORDER"; simp add: bmap_fresh_def distinct_map inj_on_def)+
    show "lock_at 0 k (bmap (ar' j))"
      using f k by (simp add: bmap_fresh_def lock_at_def mutex_lock_init_def mutex_at_def)
    have "hi \<le> 2 * nr * 2 ^ MAX_ORDER" using nr unfolding hi by (rule mult_le_mono1)
    also have "\<dots> = 2 ^ Suc j * (nr * 2 ^ (MAX_ORDER - j))"
    proof -
      have "(2 :: nat) ^ MAX_ORDER = 2 ^ j * 2 ^ (MAX_ORDER - j)" using j by (simp flip: power_add)
      then show ?thesis by simp
    qed
    also have "\<dots> \<le> 2 ^ Suc j * (8 * byte_size (bmap (ar' j)))"
      using f by (intro mult_le_mono2) (simp add: bmap_fresh_def)
    finally show "hi \<le> 2 ^ Suc j * (8 * byte_size (bmap (ar' j)))" .
  qed
  ultimately show ?thesis by (simp add: area_inv_def)
qed

text \<open>The areas are static data: before \<open>buddy_init\<close> all lists are empty and all counters zero.\<close>

definition areas_zero :: "buddy \<Rightarrow> bool" where
  "areas_zero bd \<longleftrightarrow> (\<forall>j. pg_list (kernel_area bd j) = [] \<and> nr_free (kernel_area bd j) = 0 \<and>
     pg_list (user_area bd j) = [] \<and> nr_free (user_area bd j) = 0)"

lemma top_list: "map (\<lambda>i. push_bit MAX_ORDER 1 * i) [m..<n] = map (\<lambda>i. 2 ^ MAX_ORDER * i) [m..<n]"
  by simp

lemma buddy_init_case:
  assumes zero: "areas_zero bd" and k: "current k \<noteq> NULL"
  shows "mem_size div PG_SIZE div 2 ^ MAX_ORDER < 4 \<Longrightarrow> buddy_init bd saddr mem_size = None"
    "4 \<le> mem_size div PG_SIZE div 2 ^ MAX_ORDER \<Longrightarrow> \<exists>saddr' bd'. buddy_init bd saddr mem_size = Some (saddr', bd') \<and>
      saddr + mem_size div PG_SIZE * sizeof_page \<le> saddr' \<and> buddy_inv k bd' {} \<and> pg_cnt bd' = mem_size div PG_SIZE \<and>
      user_start_idx bd' = mem_size div PG_SIZE div 2 ^ MAX_ORDER div 4 * 2 ^ MAX_ORDER"
proof -
  let ?cnt = "mem_size div PG_SIZE" let ?n = "drop_bit MAX_ORDER ?cnt" let ?m = "?n div 4"
  define ka where "ka = (kernel_area bd)(MAX_ORDER := (kernel_area bd MAX_ORDER)\<lparr>nr_free := int ?m,
    pg_list := pg_list (kernel_area bd MAX_ORDER) @ map (\<lambda>i. push_bit MAX_ORDER 1 * i) [0..<?m]\<rparr>)"
  define ua where "ua = (user_area bd)(MAX_ORDER := (user_area bd MAX_ORDER)\<lparr>nr_free := int (?n - ?m),
    pg_list := pg_list (user_area bd MAX_ORDER) @ map (\<lambda>i. push_bit MAX_ORDER 1 * i) [?m..<?n]\<rparr>)"
  have n: "?n = ?cnt div 2 ^ MAX_ORDER" by (simp add: drop_bit_eq_div)
  show "buddy_init bd saddr mem_size = None" if "?cnt div 2 ^ MAX_ORDER < 4"
  proof -
    have "?m = 0" using that n by simp
    then show ?thesis by (simp add: buddy_init_def Let_def bitmap_init_def)
  qed
  assume "4 \<le> ?cnt div 2 ^ MAX_ORDER"
  then have pos: "0 < ?m" "0 < ?n - ?m" "?n \<le> 2 * (?n - ?m)" using n by auto
  obtain s1 ka' where k1: "init_bitmaps (MAX_ORDER + 1) ?m (saddr + ?cnt * sizeof_page) ka = Some (s1, ka')"
    "saddr + ?cnt * sizeof_page \<le> s1" "\<forall>j < MAX_ORDER + 1. bmap_fresh (?m * 2 ^ (MAX_ORDER - j)) (ka j) (ka' j)"
    using init_bitmaps_spec [OF pos(1), of "MAX_ORDER + 1" "saddr + ?cnt * sizeof_page" ka] by auto
  obtain s2 ua' where u1: "init_bitmaps (MAX_ORDER + 1) (?n - ?m) s1 ua = Some (s2, ua')" "s1 \<le> s2"
    "\<forall>j < MAX_ORDER + 1. bmap_fresh ((?n - ?m) * 2 ^ (MAX_ORDER - j)) (ua j) (ua' j)"
    using init_bitmaps_spec [OF pos(2), of "MAX_ORDER + 1" s1 ua] by auto
  let ?us = "?m * push_bit MAX_ORDER 1"
  let ?bd = "bd\<lparr>pg_cnt := ?cnt, user_start_idx := ?us, kernel_area := ka', user_area := ua'\<rparr>"
  have us: "?us = ?m * 2 ^ MAX_ORDER" by simp
  have "area_inv k 0 ?us ka' {}"
  proof (rule fresh_pool_inv [where ar = ka and m = 0 and n = ?m and nr = ?m])
    show "\<forall>j < MAX_ORDER. pg_list (ka j) = [] \<and> nr_free (ka j) = 0"
      "pg_list (ka MAX_ORDER) = map (\<lambda>i. 2 ^ MAX_ORDER * i) [0..<?m]" "nr_free (ka MAX_ORDER) = int (?m - 0)"
      using zero by (simp_all add: ka_def areas_zero_def)
    show "\<forall>j \<le> MAX_ORDER. bmap_fresh (?m * 2 ^ (MAX_ORDER - j)) (ka j) (ka' j)" using k1(3) by auto
  qed (use k in simp_all)
  moreover have "area_inv k ?us (pool_end ?bd) ua' {}"
  proof (rule fresh_pool_inv [where ar = ua and m = ?m and n = ?n and nr = "?n - ?m"])
    show "\<forall>j < MAX_ORDER. pg_list (ua j) = [] \<and> nr_free (ua j) = 0"
      "pg_list (ua MAX_ORDER) = map (\<lambda>i. 2 ^ MAX_ORDER * i) [?m..<?n]" "nr_free (ua MAX_ORDER) = int (?n - ?m)"
      using zero by (simp_all add: ua_def areas_zero_def)
    show "\<forall>j \<le> MAX_ORDER. bmap_fresh ((?n - ?m) * 2 ^ (MAX_ORDER - j)) (ua j) (ua' j)" using u1(3) by auto
    show "pool_end ?bd = ?n * 2 ^ MAX_ORDER" by (simp add: pool_end_def n)
    show "?n \<le> 2 * (?n - ?m)" by (rule pos)
  qed (use k in simp_all)
  ultimately have inv: "buddy_inv k ?bd {}"
    by (simp add: buddy_inv_def blocks_below_def blocks_from_def pool_end_def)
  have "buddy_init bd saddr mem_size = Some (s2, ?bd)"
    using k1(1) u1(1) unfolding buddy_init_def ka_def ua_def Let_def by (simp del: init_bitmaps.simps)
  then show "\<exists>saddr' bd'. buddy_init bd saddr mem_size = Some (saddr', bd') \<and>
      saddr + ?cnt * sizeof_page \<le> saddr' \<and> buddy_inv k bd' {} \<and> pg_cnt bd' = ?cnt \<and>
      user_start_idx bd' = ?cnt div 2 ^ MAX_ORDER div 4 * 2 ^ MAX_ORDER"
    using inv k1(2) u1(2) by (intro exI [of _ s2] exI [of _ ?bd]) (simp add: n)
qed

section \<open>Runs of the allocator\<close>

datatype pg_op = Get u32 nat | Put nat

text \<open>
  Clients that take blocks and give them back: \<open>held\<close> lists the blocks held, each with one
  reference; \<open>Put n\<close> frees the one at position \<open>n\<close>, with its order.
\<close>

fun run_pages :: "'a sys_scheme \<Rightarrow> buddy \<Rightarrow> (nat \<times> nat) list \<Rightarrow> pg_op list \<Rightarrow>
    (buddy \<times> (nat \<times> nat) list) option" where
  "run_pages k bd held [] = Some (bd, held)"
| "run_pages k bd held (Get flag ord # ops) = do {
     (pg, k, bd) \<leftarrow> alloc_pages k bd flag (int ord);
     run_pages k bd ((ord, pg) # held) ops }"
| "run_pages k bd held (Put n # ops) =
     (if n < length held
      then do {
        (k, bd) \<leftarrow> free_pages_idx k bd (snd (held ! n)) (int (fst (held ! n)));
        run_pages k bd (take n held @ drop (Suc n) held) ops }
      else run_pages k bd held ops)"

definition held_ok :: "'a sys_scheme \<Rightarrow> buddy \<Rightarrow> (nat \<times> nat) list \<Rightarrow> bool" where
  "held_ok k bd held \<longleftrightarrow> buddy_inv k bd (set held) \<and> distinct held \<and>
     (\<forall>b \<in> set held. atomic_read (pg_count (pages bd (snd b))) = 1)"

lemma held_ok_get:
  assumes ok: "held_ok k bd held" and ord: "ord \<le> MAX_ORDER"
    and r: "alloc_pages k bd flag (int ord) = Some (pg, k', bd')"
  shows "k' = k \<and> held_ok k bd' ((ord, pg) # held) \<and> (\<forall>b \<in> set held. blk b \<inter> blk (ord, pg) = {})"
proof -
  have inv: "buddy_inv k bd (set held)" using ok by (simp add: held_ok_def)
  note cs = alloc_pages_case [OF inv ord refl, of flag]
  obtain pg2 bd2 where "alloc_pages k bd flag (int ord) = Some (pg2, k, bd2)"
    "buddy_inv k bd2 (insert (ord, pg2) (set held))" "\<forall>b \<in> set held. blk b \<inter> blk (ord, pg2) = {}"
    "pages bd2 = page_taken (pages bd) pg2 ord"
    using cs r by fastforce
  then have *: "k' = k" "buddy_inv k bd' (insert (ord, pg) (set held))"
    "\<forall>b \<in> set held. blk b \<inter> blk (ord, pg) = {}" "pages bd' = page_taken (pages bd) pg ord"
    using r by auto
  have "b \<noteq> (ord, pg)" if "b \<in> set held" for b
    using *(3) that blk_nonempty [of pg ord] by blast
  then have "(ord, pg) \<notin> set held" by blast
  moreover have "atomic_read (pg_count (pages bd' (snd b))) = 1" if "b \<in> insert (ord, pg) (set held)" for b
    using that ok by (auto simp: *(4) held_ok_def page_taken_def atomic_read_def)
  ultimately show ?thesis using * ok by (simp add: held_ok_def)
qed

lemma held_ok_put:
  assumes ok: "held_ok k bd held" and n: "n < length held"
  shows "\<exists>bd'. free_pages_idx k bd (snd (held ! n)) (int (fst (held ! n))) = Some (k, bd') \<and>
    held_ok k bd' (take n held @ drop (Suc n) held)"
proof -
  obtain ord pg where b: "held ! n = (ord, pg)" by fastforce
  have inv: "buddy_inv k bd (set held)" and dist: "distinct held" using ok by (auto simp: held_ok_def)
  have mem: "(ord, pg) \<in> set held" using n b by (metis nth_mem)
  have one: "atomic_read (pg_count (pages bd pg)) = 1" using ok mem by (auto simp: held_ok_def)
  obtain bd' where f: "free_pages_idx k bd pg (int ord) = Some (k, bd')"
    "\<forall>i. i \<noteq> pg \<longrightarrow> pages bd' i = pages bd i" "buddy_inv k bd' (set held - {(ord, pg)})"
    using free_pages_case [OF inv mem] one by auto
  have split: "held = take n held @ (ord, pg) # drop (Suc n) held"
    using id_take_nth_drop [OF n] b by simp
  have "distinct (take n held @ (ord, pg) # drop (Suc n) held)" using dist split by simp
  then have set: "set (take n held @ drop (Suc n) held) = set held - {(ord, pg)}"
    and "distinct (take n held @ drop (Suc n) held)"
    using arg_cong [OF split, of set] by auto
  moreover have "snd c \<noteq> pg" if "c \<in> set held - {(ord, pg)}" for c
  proof
    assume "snd c = pg"
    moreover from this have "(fst c, pg) \<in> set held" using that by auto
    moreover have "(p, pg) = (ord, pg)" if "(p, pg) \<in> set held" for p
    proof -
      have "p = ord"
      proof -
        have "of_nat p = (of_nat ord :: u32)" "p \<le> MAX_ORDER" "ord \<le> MAX_ORDER"
          using buddy_invD [OF inv that] buddy_invD [OF inv mem] by auto
        then show ?thesis by (simp add: MAX_ORDER_def word_of_nat_eq_iff take_bit_nat_eq_self)
      qed
      then show ?thesis by simp
    qed
    ultimately show False using that by (metis Diff_iff insertI1 prod.collapse)
  qed
  ultimately show ?thesis
    using f b ok by (auto simp: held_ok_def)
qed

section \<open>A concrete machine: 32 MB of memory, the pools as \<open>buddy_init\<close> leaves them\<close>

definition bd_zero :: buddy where
  "bd_zero = \<lparr>pages = (\<lambda>_. \<lparr>pg_count = \<lparr>counter = 0\<rparr>, pg_private = 0\<rparr>), pg_cnt = 0, user_start_idx = 0,
     kernel_area = (\<lambda>_. \<lparr>nr_free = 0, bmap = \<lparr>bits = (\<lambda>_. 0), byte_size = 0, b_lock = mutex_lock_init\<rparr>, pg_list = []\<rparr>),
     user_area = (\<lambda>_. \<lparr>nr_free = 0, bmap = \<lparr>bits = (\<lambda>_. 0), byte_size = 0, b_lock = mutex_lock_init\<rparr>, pg_list = []\<rparr>)\<rparr>"

definition bd32 :: buddy where
  "bd32 = snd (the (buddy_init bd_zero 0x101000 0x2000000))"

lemma areas_zero_bd: "areas_zero bd_zero"
  by (simp add: areas_zero_def bd_zero_def)

lemma current_sys0: "current sys0 \<noteq> NULL"
  by (simp add: sys0_def NULL_def)

lemma bd32_inv: "buddy_inv sys0 bd32 {}" "user_start_idx bd32 = 2048" "pg_cnt bd32 = 8192"
proof -
  have n: "0x2000000 div PG_SIZE div 2 ^ MAX_ORDER = 8" "0x2000000 div PG_SIZE = 8192"
    by (simp_all add: PG_SIZE_def MAX_ORDER_def)
  obtain s bd where "buddy_init bd_zero 0x101000 0x2000000 = Some (s, bd)" "buddy_inv sys0 bd {}"
    "pg_cnt bd = 8192" "user_start_idx bd = 8 div 4 * 2 ^ MAX_ORDER"
    using buddy_init_case(2) [OF areas_zero_bd current_sys0, of "0x2000000" "0x101000"] n by auto
  then show "buddy_inv sys0 bd32 {}" "user_start_idx bd32 = 2048" "pg_cnt bd32 = 8192"
    by (simp_all add: bd32_def MAX_ORDER_def)
qed

lemma bd32_top: "2048 \<in> set (pg_list (user_area bd32 MAX_ORDER))"
proof -
  have "area_inv sys0 2048 8192 (user_area bd32) {}"
    using bd32_inv by (simp add: buddy_inv_def blocks_from_def pool_end_def MAX_ORDER_def)
  from pool_merged(2) [OF this] show ?thesis by (simp add: MAX_ORDER_def)
qed

section \<open>Properties\<close>

text \<open>C1: what \<open>alloc_pages\<close> returns is a block of the size asked for, aligned to its size, inside
  the pool the flag names and disjoint from every block handed out before; it carries one
  reference, and free and allocated blocks still tile both pools. The call panics exactly when
  no free block of that size or larger is left.\<close>

theorem alloc_pages_correct:
  assumes "buddy_inv k bd A" "ord \<le> MAX_ORDER"
  shows "case alloc_pages k bd flag (int ord) of
      Some (pg, k', bd') \<Rightarrow> k' = k \<and> buddy_inv k bd' (insert (ord, pg) A) \<and>
        (\<forall>b \<in> A. blk b \<inter> {pg..<pg + 2 ^ ord} = {}) \<and> 2 ^ ord dvd pg \<and>
        (if flag AND USER_POOL \<noteq> 0 then user_start_idx bd \<le> pg \<and> pg + 2 ^ ord \<le> pool_end bd
         else pg + 2 ^ ord \<le> user_start_idx bd) \<and>
        atomic_read (pg_count (pages bd' pg)) = 1
    | None \<Rightarrow> \<forall>j. ord \<le> j \<and> j \<le> MAX_ORDER \<longrightarrow>
        pg_list ((if flag AND USER_POOL \<noteq> 0 then user_area bd else kernel_area bd) j) = []"
proof (cases "\<exists>j. ord \<le> j \<and> j \<le> MAX_ORDER \<and>
    pg_list ((if flag AND USER_POOL \<noteq> 0 then user_area bd else kernel_area bd) j) \<noteq> []")
  case True
  then obtain pg bd' where r: "alloc_pages k bd flag (int ord) = Some (pg, k, bd')"
      "buddy_inv k bd' (insert (ord, pg) A)" "\<forall>b \<in> A. blk b \<inter> blk (ord, pg) = {}"
      "user_start_idx bd' = user_start_idx bd" "pg_cnt bd' = pg_cnt bd"
      "pages bd' = page_taken (pages bd) pg ord" "flag AND USER_POOL \<noteq> 0 \<longleftrightarrow> user_start_idx bd \<le> pg"
    using alloc_pages_case(2) [OF assms refl, of flag] by blast
  have "(ord, pg) \<in> insert (ord, pg) A" by simp
  note d = buddy_invD [OF r(2) this]
  show ?thesis
    using r d by (auto simp: blk.simps page_taken_count pool_end_def not_le)
next
  case False
  then show ?thesis using alloc_pages_case(1) [OF assms refl, of flag] by simp
qed

theorem alloc_pages_correct_witness:
  "\<exists>pg bd'. alloc_pages sys0 bd32 USER_POOL 3 = Some (pg, sys0, bd') \<and> 8 dvd pg \<and> 2048 \<le> pg \<and> pg < 8192"
proof -
  have ord: "3 \<le> MAX_ORDER" by (simp add: MAX_ORDER_def)
  have user: "USER_POOL AND USER_POOL \<noteq> 0" by (simp add: USER_POOL_def)
  have "pg_list (user_area bd32 MAX_ORDER) \<noteq> []" using bd32_top by auto
  with alloc_pages_correct [OF bd32_inv(1) ord, of USER_POOL] user ord show ?thesis
    by (auto simp: bd32_inv pool_end_def MAX_ORDER_def split: option.splits)
qed

text \<open>C2: giving back a block that is handed out never panics. The last reference returns it to
  its pool, merged with its free buddies, so that the invariant holds without it; any earlier
  one only counts down.\<close>

theorem free_pages_correct:
  assumes "buddy_inv k bd A" "(ord, pg) \<in> A"
  shows "\<exists>bd'. free_pages_idx k bd pg (int ord) = Some (k, bd') \<and>
    (if atomic_read (pg_count (pages bd pg)) = 1 then buddy_inv k bd' (A - {(ord, pg)})
     else buddy_inv k bd' A \<and>
       atomic_read (pg_count (pages bd' pg)) = atomic_read (pg_count (pages bd pg)) - 1)"
  using free_pages_case [OF assms] by blast

theorem free_pages_correct_witness:
  "\<exists>pg bd1 bd2. alloc_pages sys0 bd32 USER_POOL 3 = Some (pg, sys0, bd1) \<and>
     free_pages_idx sys0 bd1 pg 3 = Some (sys0, bd2) \<and> buddy_inv sys0 bd2 {}"
proof -
  have ord: "3 \<le> MAX_ORDER" by (simp add: MAX_ORDER_def)
  have user: "USER_POOL AND USER_POOL \<noteq> 0" by (simp add: USER_POOL_def)
  have "pg_list (user_area bd32 MAX_ORDER) \<noteq> []" using bd32_top by auto
  then obtain pg bd1 where r: "alloc_pages sys0 bd32 USER_POOL (int 3) = Some (pg, sys0, bd1)"
      "buddy_inv sys0 bd1 {(3, pg)}" "pages bd1 = page_taken (pages bd32) pg 3"
    using alloc_pages_case(2) [OF bd32_inv(1) ord refl, of USER_POOL] user ord by auto
  have "atomic_read (pg_count (pages bd1 pg)) = 1" by (simp add: r(3) page_taken_count)
  with free_pages_correct [OF r(2), of 3 pg] obtain bd2 where
    "free_pages_idx sys0 bd1 pg (int 3) = Some (sys0, bd2)" "buddy_inv sys0 bd2 {}" by auto
  then show ?thesis using r(1) by auto
qed

text \<open>\<open>buddy_init\<close> on zeroed areas divides the memory into a kernel and a user pool, each tiled
  by free blocks of the maximal order with correct bitmaps; with less than 16 MB of memory the
  kernel pool is empty and the call panics in \<open>bitmap_init\<close>.\<close>

theorem buddy_init_correct:
  assumes "areas_zero bd" "current k \<noteq> NULL"
  shows "case buddy_init bd saddr mem_size of
      None \<Rightarrow> mem_size < 16 * 1024 * 1024
    | Some (saddr', bd') \<Rightarrow> 16 * 1024 * 1024 \<le> mem_size \<and> buddy_inv k bd' {} \<and>
        saddr + mem_size div PG_SIZE * sizeof_page \<le> saddr' \<and>
        4 * user_start_idx bd' \<le> pool_end bd' \<and> pool_end bd' * PG_SIZE \<le> mem_size"
proof -
  have lim: "4 \<le> mem_size div PG_SIZE div 2 ^ MAX_ORDER \<longleftrightarrow> 16 * 1024 * 1024 \<le> mem_size"
    by (simp add: PG_SIZE_def MAX_ORDER_def less_eq_div_iff_mult_less_eq)
  have le: "4 * (n div 4 * m) \<le> n * m" for n m :: nat
    by (metis div_times_less_eq_dividend mult.assoc mult.commute mult_le_mono1)
  have "mem_size div PG_SIZE div 2 ^ MAX_ORDER * 2 ^ MAX_ORDER * PG_SIZE \<le> mem_size"
    by (metis div_times_less_eq_dividend dual_order.trans mult_le_mono1)
  then show ?thesis
    using buddy_init_case [OF assms, of mem_size saddr] lim le
    by (cases "4 \<le> mem_size div PG_SIZE div 2 ^ MAX_ORDER") (auto simp: pool_end_def)
qed

theorem buddy_init_correct_witness:
  "buddy_init bd_zero 0x101000 0xf00000 = None \<and> (\<exists>s bd. buddy_init bd_zero 0x101000 0x2000000 = Some (s, bd) \<and> buddy_inv sys0 bd {})"
  using buddy_init_correct [OF areas_zero_bd current_sys0, of "0xf00000" "0x101000"]
    buddy_init_correct [OF areas_zero_bd current_sys0, of "0x2000000" "0x101000"]
  by (auto split: option.splits)

text \<open>when every block has been given back, both pools consist of blocks of the maximal order
  again: no fragment is left on a smaller list.\<close>

theorem buddy_all_free_merged:
  assumes "buddy_inv k bd {}"
  shows "(\<forall>j < MAX_ORDER. pg_list (kernel_area bd j) = [] \<and> pg_list (user_area bd j) = []) \<and>
    set (pg_list (kernel_area bd MAX_ORDER)) = {i. 2 ^ MAX_ORDER dvd i \<and> i < user_start_idx bd} \<and>
    set (pg_list (user_area bd MAX_ORDER)) = {i. 2 ^ MAX_ORDER dvd i \<and> user_start_idx bd \<le> i \<and> i < pool_end bd}"
proof -
  have kernel: "area_inv k 0 (user_start_idx bd) (kernel_area bd) {}"
    and user: "area_inv k (user_start_idx bd) (pool_end bd) (user_area bd) {}"
    using assms by (simp_all add: buddy_inv_def blocks_below_def blocks_from_def)
  have "2 ^ MAX_ORDER dvd user_start_idx bd" using user by (simp add: area_inv_def blocks_inv_def)
  moreover have "2 ^ MAX_ORDER dvd pool_end bd" by (simp add: pool_end_def)
  ultimately show ?thesis using pool_merged [OF kernel] pool_merged [OF user] by auto
qed

theorem buddy_all_free_merged_witness:
  "pg_list (kernel_area bd32 9) = [] \<and> 1024 \<in> set (pg_list (kernel_area bd32 MAX_ORDER))"
  using buddy_all_free_merged [OF bd32_inv(1)] by (auto simp: bd32_inv MAX_ORDER_def)

text \<open>C4: clients that take blocks of any sizes from both pools and give back what they hold, in
  any order, always hold pairwise disjoint blocks, and giving back never panics.\<close>

theorem run_pages_disjoint:
  assumes "held_ok k bd held" "\<forall>flag ord. Get flag ord \<in> set ops \<longrightarrow> ord \<le> MAX_ORDER"
    and "run_pages k bd held ops = Some (bd', held')"
  shows "held_ok k bd' held' \<and> (\<forall>b \<in> set held'. \<forall>c \<in> set held'. b \<noteq> c \<longrightarrow> blk b \<inter> blk c = {})"
proof -
  have "held_ok k bd' held'"
    using assms
  proof (induction k bd held ops rule: run_pages.induct)
    case (2 k bd held flag ord ops)
    then obtain pg k1 bd1 where r: "alloc_pages k bd flag (int ord) = Some (pg, k1, bd1)"
      "run_pages k1 bd1 ((ord, pg) # held) ops = Some (bd', held')"
      by (auto simp: bind_eq_Some_conv)
    have "k1 = k" "held_ok k bd1 ((ord, pg) # held)" using held_ok_get [OF 2(2) _ r(1)] 2(3) by auto
    then show ?case using 2(1) [OF r(1) refl refl] 2(3) r(2) by simp
  next
    case (3 k bd held n ops)
    show ?case
    proof (cases "n < length held")
      case True
      obtain bd1 where f: "free_pages_idx k bd (snd (held ! n)) (int (fst (held ! n))) = Some (k, bd1)"
        "held_ok k bd1 (take n held @ drop (Suc n) held)"
        using held_ok_put [OF 3(3) True] by blast
      show ?thesis using 3(1) [OF True f(1) refl f(2)] 3(4,5) f(1) True by simp
    next
      case False
      then show ?thesis using 3 by simp
    qed
  qed simp
  moreover have "blk b \<inter> blk c = {}" if "b \<in> set held'" "c \<in> set held'" "b \<noteq> c" for b c
  proof -
    have inv: "buddy_inv k bd' (set held')" using \<open>held_ok k bd' held'\<close> by (simp add: held_ok_def)
    show ?thesis using buddy_inv_disjoint [OF inv] that by blast
  qed
  ultimately show ?thesis by blast
qed

theorem run_pages_disjoint_witness:
  "\<exists>bd'. run_pages sys0 bd32 [] [Get USER_POOL 3, Put 0] = Some (bd', []) \<and> held_ok sys0 bd' []"
proof -
  have ok: "held_ok sys0 bd32 []" using bd32_inv by (simp add: held_ok_def)
  have user: "USER_POOL AND USER_POOL \<noteq> 0" by (simp add: USER_POOL_def)
  have ord: "3 \<le> MAX_ORDER" by (simp add: MAX_ORDER_def)
  have "pg_list (user_area bd32 MAX_ORDER) \<noteq> []" using bd32_top by auto
  then obtain a bd1 where r1: "alloc_pages sys0 bd32 USER_POOL (int 3) = Some (a, sys0, bd1)"
    using alloc_pages_case(2) [OF bd32_inv(1) ord refl, of USER_POOL] user ord by auto
  have ok1: "held_ok sys0 bd1 [(3, a)]" using held_ok_get [OF ok ord r1] by simp
  obtain bd2 where "free_pages_idx sys0 bd1 a (int 3) = Some (sys0, bd2)"
    using held_ok_put [OF ok1, of 0] by auto
  then have run: "run_pages sys0 bd32 [] [Get USER_POOL 3, Put 0] = Some (bd2, [])"
    using r1 by simp
  have "\<forall>flag ord. Get flag ord \<in> set [Get USER_POOL 3, Put 0] \<longrightarrow> ord \<le> MAX_ORDER"
    using ord by simp
  from run_pages_disjoint [OF ok this run] run show ?thesis by blast
qed

end
