(* ===== verification/Paging.thy ===== *)
theory Paging
  imports Prelude
begin

text \<open>
  The page tables as kernel/memory.c reads and writes them: \<open>get_pde\<close>, \<open>get_pte\<close> and \<open>get_paddr\<close>
  work through the last entry of the page directory, which maps the directory as a page table.
  The state is the directory's physical address (register CR3) and the 32-bit entries in
  physical memory; \<open>walk\<close> is the two-level translation of the processor (4 KB pages, no PSE, the
  translation cache left out). \<^const>\<open>None\<close> is a page fault.
\<close>

section \<open>The translation\<close>

record mmu =
  cr3 :: u32
  pm :: "u32 \<Rightarrow> u32"

definition PDE_IDX :: "u32 \<Rightarrow> u32" where
  "PDE_IDX addr = drop_bit 22 addr"

definition PTE_IDX :: "u32 \<Rightarrow> u32" where
  "PTE_IDX addr = drop_bit 12 addr AND 0x3ff"

definition frame_of :: "u32 \<Rightarrow> u32" where
  "frame_of e = e AND 0xfffff000"

definition present :: "u32 \<Rightarrow> bool" where
  "present e \<longleftrightarrow> e AND 1 \<noteq> 0"

definition pde_at :: "mmu \<Rightarrow> u32 \<Rightarrow> u32" where
  "pde_at m v = frame_of (cr3 m) OR push_bit 2 (PDE_IDX v)"

definition pte_at :: "mmu \<Rightarrow> u32 \<Rightarrow> u32" where
  "pte_at m v = frame_of (pm m (pde_at m v)) OR push_bit 2 (PTE_IDX v)"

definition walk :: "mmu \<Rightarrow> u32 \<Rightarrow> u32 option" where
  "walk m v =
     (if present (pm m (pde_at m v)) \<and> present (pm m (pte_at m v))
      then Some (frame_of (pm m (pte_at m v)) OR (v AND 0xfff)) else None)"

definition load :: "mmu \<Rightarrow> u32 \<Rightarrow> u32 option" where
  "load m v = map_option (pm m) (walk m v)"

definition store :: "mmu \<Rightarrow> u32 \<Rightarrow> u32 \<Rightarrow> mmu option" where
  "store m v x = map_option (\<lambda>a. m\<lparr>pm := (pm m)(a := x)\<rparr>) (walk m v)"

section \<open>The kernel's accessors\<close>

definition get_pde :: "u32 \<Rightarrow> u32" where
  "get_pde vaddr = push_bit 12 0xfffff + push_bit 2 (PDE_IDX vaddr)"

definition get_pte :: "u32 \<Rightarrow> u32" where
  "get_pte vaddr = push_bit 22 0x3ff + push_bit 12 (PDE_IDX vaddr) + push_bit 2 (PTE_IDX vaddr)"

definition get_paddr :: "mmu \<Rightarrow> u32 \<Rightarrow> u32 option" where
  "get_paddr m vaddr = do { e \<leftarrow> load m (get_pte vaddr); Some ((e AND 0xfffff000) OR (vaddr AND 0x00000fff)) }"

section \<open>Where the accessors lead\<close>

lemma masks: "(0x3ff :: u32) = mask 10" "(0xfff :: u32) = mask 12" "(0xfffff :: u32) = mask 20"
    "(0xfffff000 :: u32) = push_bit 12 (mask 20)"
  by (simp_all add: mask_eq_exp_minus_1 push_bit_eq_mult)

lemma bit_frame_of [bits_at]: "bit (frame_of e) n \<longleftrightarrow> bit e n \<and> 12 \<le> n"
  unfolding frame_of_def masks by (auto simp: bit_simps dest: bit_imp_le_length)

lemma bit_low [bits_at]: "bit ((e :: u32) AND 0xfff) n \<longleftrightarrow> bit e n \<and> n < 12"
  unfolding masks by (auto simp: bit_simps)

lemma bit_PDE_IDX [bits_at]: "bit (PDE_IDX v) n \<longleftrightarrow> bit v (n + 22)"
  by (simp add: PDE_IDX_def bit_simps add.commute)

lemma bit_PTE_IDX [bits_at]: "bit (PTE_IDX v) n \<longleftrightarrow> bit v (n + 12) \<and> n < 10"
  unfolding PTE_IDX_def masks by (auto simp: bit_simps add.commute)

lemma get_pde_or: "get_pde v = push_bit 12 (mask 20) OR push_bit 2 (PDE_IDX v)"
  unfolding get_pde_def masks
  by (intro disjunctive_add) (auto simp: bit_simps bits_at dest: bit_imp_le_length)

lemma get_pte_or:
  "get_pte v = (push_bit 22 (mask 10) OR push_bit 12 (PDE_IDX v)) OR push_bit 2 (PTE_IDX v)"
proof -
  have "push_bit 22 (mask 10) + push_bit 12 (PDE_IDX v) = (push_bit 22 (mask 10) OR push_bit 12 (PDE_IDX v))"
    by (intro disjunctive_add) (auto simp: bit_simps bits_at dest: bit_imp_le_length)
  moreover have "(push_bit 22 (mask 10) OR push_bit 12 (PDE_IDX v)) + push_bit 2 (PTE_IDX v)
      = (push_bit 22 (mask 10) OR push_bit 12 (PDE_IDX v)) OR push_bit 2 (PTE_IDX v)"
    by (intro disjunctive_add) (auto simp: bit_simps bits_at dest: bit_imp_le_length)
  ultimately show ?thesis unfolding get_pte_def masks by simp
qed

text \<open>The last entry of the directory leads back to the directory.\<close>

definition recursive :: "mmu \<Rightarrow> bool" where
  "recursive m \<longleftrightarrow> (let e = pm m (frame_of (cr3 m) OR push_bit 2 0x3ff) in present e \<and> frame_of e = frame_of (cr3 m))"

lemma get_pte_parts:
  "PDE_IDX (get_pte v) = 0x3ff" "PTE_IDX (get_pte v) = PDE_IDX v"
  "get_pte v AND 0xfff = push_bit 2 (PTE_IDX v)"
  unfolding get_pte_or masks(1,2)
  by (intro bit_word_eqI; force simp: bit_simps bits_at dest: bit_imp_le_length)+

lemma get_pde_parts:
  "PDE_IDX (get_pde v) = 0x3ff" "PTE_IDX (get_pde v) = 0x3ff" "get_pde v AND 0xfff = push_bit 2 (PDE_IDX v)"
  unfolding get_pde_or masks(1,2)
  by (intro bit_word_eqI; force simp: bit_simps bits_at dest: bit_imp_le_length)+

lemma pde_at_recursive:
  assumes "recursive m" "PDE_IDX a = 0x3ff"
  shows "present (pm m (pde_at m a))" "pte_at m a = frame_of (cr3 m) OR push_bit 2 (PTE_IDX a)"
  using assms by (simp_all add: recursive_def Let_def pde_at_def pte_at_def)

lemma frame_or_low:
  "frame_of e OR push_bit 2 (PTE_IDX v) = frame_of (frame_of e OR push_bit 2 (PTE_IDX v)) OR push_bit 2 (PTE_IDX v)"
  by (intro bit_word_eqI) (auto simp: bits_at bit_simps)

lemma walk_get_pde: "recursive m \<Longrightarrow> walk m (get_pde v) = Some (pde_at m v)"
  using pde_at_recursive [of m "get_pde v"]
  by (simp add: get_pde_parts walk_def) (simp add: recursive_def Let_def pde_at_def)

lemma walk_get_pte:
  assumes "recursive m"
  shows "walk m (get_pte v) = (if present (pm m (pde_at m v)) then Some (pte_at m v) else None)"
  using pde_at_recursive [OF assms get_pte_parts(1)]
  by (simp add: walk_def get_pte_parts flip: pde_at_def) (simp add: pte_at_def)

lemma get_paddr_eq:
  assumes "recursive m" "walk m v = Some p"
  shows "get_paddr m v = Some p"
  using assms walk_get_pte [of m v]
  by (auto simp: get_paddr_def load_def walk_def frame_of_def split: if_splits)

section \<open>The kernel's direct mapping\<close>

text \<open>
  The boot code puts the directory at 0x100000 and the kernel's tables behind it, one after the
  other: entry \<open>pg\<close> of the tables, taken as one array, is at 0x101000 + 4 pg.
\<close>

definition kernel_tables :: "mmu \<Rightarrow> nat \<Rightarrow> bool" where
  "kernel_tables m n \<longleftrightarrow> frame_of (cr3 m) = 0x100000 \<and> recursive m \<and>
     (\<forall>i < 255. let e = pm m (of_nat (0x100c00 + 4 * i)) in present e \<and> frame_of e = of_nat (0x101000 + 0x1000 * i)) \<and>
     (\<forall>pg < n. let e = pm m (of_nat (0x101000 + 4 * pg)) in present e \<and> frame_of e = of_nat (0x1000 * pg))"

lemma or_offset: "frame_of e OR push_bit 2 (PTE_IDX v) = frame_of e + push_bit 2 (PTE_IDX v)"
  by (rule disjunctive_add [symmetric]) (auto simp: bits_at bit_simps)

lemma or_offset_pde: "frame_of e OR push_bit 2 (PDE_IDX v) = frame_of e + push_bit 2 (PDE_IDX v)"
  by (rule disjunctive_add [symmetric]) (auto simp: bits_at bit_simps dest: bit_imp_le_length)

lemma take_unat_u32: "take_bit 32 (unat (v :: u32)) = unat v"
  using unsigned_less [where 'a = nat and w = v] by (simp add: take_bit_eq_mod)

lemma unat_PDE_IDX: "unat (PDE_IDX v) = unat v div 2 ^ 22"
  unfolding PDE_IDX_def by (simp only: unsigned_drop_bit_eq) (simp add: drop_bit_eq_div take_unat_u32)

lemma unat_PTE_IDX: "unat (PTE_IDX v) = unat v div 2 ^ 12 mod 2 ^ 10"
  unfolding PTE_IDX_def masks take_bit_eq_mask [symmetric]
  by (simp only: unsigned_take_bit_eq unsigned_drop_bit_eq) (simp add: drop_bit_eq_div take_unat_u32, simp add: take_bit_eq_mod)

lemma unat_low: "unat ((v :: u32) AND 0xfff) = unat v mod 2 ^ 12"
  unfolding masks take_bit_eq_mask [symmetric]
  by (simp only: unsigned_take_bit_eq) (simp add: take_bit_eq_mod)

lemma of_unat: "unat (w :: u32) = n \<Longrightarrow> w = of_nat n"
  by auto

lemma push_bit_2_nat: "push_bit 2 (of_nat x :: u32) = of_nat (4 * x)"
  by (simp add: push_bit_eq_mult)

lemma direct_walk:
  assumes t: "kernel_tables m n" and n: "n \<le> 255 * 1024" and pg: "pg < n"
  shows "walk m (of_nat (pg * 4096 + 0xc0000000)) = Some (of_nat (pg * 4096))"
proof -
  define v :: u32 where "v = of_nat (pg * 4096 + 0xc0000000)"
  define i j where "i = pg div 1024" and "j = pg mod 1024"
  have ij: "pg = 1024 * i + j" "i < 255" "j < 1024" using n pg by (auto simp: i_def j_def)
  have u: "unat v = (j + 1024 * (i + 768)) * 4096"
    unfolding v_def unat_of_nat using ij by simp
  have "unat (PDE_IDX v) = 0x300 + i" unfolding unat_PDE_IDX u using ij by simp
  then have d: "PDE_IDX v = of_nat (0x300 + i)" by (rule of_unat)
  have "unat (PTE_IDX v) = (j + 1024 * (i + 768)) mod 1024" unfolding unat_PTE_IDX u by simp
  also have "\<dots> = j" using ij by (simp only: mod_mult_self2 mod_less)
  finally have e: "PTE_IDX v = of_nat j" by (rule of_unat)
  have "unat (v AND 0xfff) = 0" unfolding unat_low u by simp
  then have low: "v AND 0xfff = 0" by (metis unat_0_iff)
  have "pde_at m v = of_nat (0x100c00 + 4 * i)"
    using t unfolding pde_at_def or_offset_pde [of "cr3 m"] unfolding d push_bit_2_nat
    by (simp add: kernel_tables_def)
  then have p1: "present (pm m (pde_at m v))" "frame_of (pm m (pde_at m v)) = of_nat (0x101000 + 0x1000 * i)"
    using t ij(2) by (simp_all only: kernel_tables_def Let_def)
  have "pte_at m v = of_nat (0x101000 + 4 * pg)"
    unfolding pte_at_def or_offset unfolding p1(2) e push_bit_2_nat ij(1) by simp
  then have p2: "present (pm m (pte_at m v))" "frame_of (pm m (pte_at m v)) = of_nat (0x1000 * pg)"
    using t pg by (simp_all only: kernel_tables_def Let_def)
  then have "walk m v = Some (of_nat (0x1000 * pg))" using p1(1) low by (simp add: walk_def)
  then show ?thesis by (simp add: v_def mult.commute)
qed

section \<open>Properties\<close>

text \<open>with the directory mapped into itself, \<open>get_pde\<close> and \<open>get_pte\<close> are the virtual addresses of
  the directory entry and the page-table entry of an address: writing through them changes these
  and nothing else.\<close>

theorem get_pte_store:
  assumes "recursive m" "present (pm m (pde_at m v))"
  shows "store m (get_pde v) e = Some (m\<lparr>pm := (pm m)(pde_at m v := e)\<rparr>) \<and>
    store m (get_pte v) e = Some (m\<lparr>pm := (pm m)(pte_at m v := e)\<rparr>)"
  using assms by (simp_all add: store_def walk_get_pde walk_get_pte)

text \<open>C38: \<open>get_paddr\<close> computes the processor's translation of every mapped address.\<close>

theorem get_paddr_correct:
  assumes "recursive m" "walk m v = Some p"
  shows "get_paddr m v = Some p"
  using get_paddr_eq [OF assms] .

text \<open>A directory at 0x100000 whose entry 0xc00 leads to a table at 0x101000 for the kernel image.\<close>

definition mmu1 :: mmu where
  "mmu1 = \<lparr>cr3 = 0x100000, pm = (\<lambda>a. if a = 0x100ffc then 0x100003
     else if a = 0x100c00 then 0x101003 else if a = 0x101010 then 0x4003 else 0)\<rparr>"

lemma mmu1_facts: "recursive mmu1" "present (pm mmu1 (pde_at mmu1 0xc0004abc))"
    "pte_at mmu1 0xc0004abc = 0x101010" "walk mmu1 0xc0004abc = Some 0x4abc"
  by (simp_all add: recursive_def mmu1_def frame_of_def present_def pde_at_def pte_at_def walk_def
      PDE_IDX_def PTE_IDX_def)

theorem get_pte_store_witness:
  "store mmu1 (get_pte 0xc0004abc) 0 = Some (mmu1\<lparr>pm := (pm mmu1)(0x101010 := 0)\<rparr>)"
  using get_pte_store [OF mmu1_facts(1,2), of 0] by (simp add: mmu1_facts(3))

theorem get_paddr_correct_witness: "get_paddr mmu1 0xc0004abc = Some 0x4abc"
  using get_paddr_correct [OF mmu1_facts(1,4)] .

end
