(* ===== verification/FizzStr.thy ===== *)
theory FizzStr
  imports Prelude
begin

text \<open>
  lib/fizzstr.c over a byte memory. Addresses are natural numbers: the buffers are taken not to
  wrap around the end of the 32-bit address space. \<open>char\<close> is signed, so differences of
  characters are differences of \<open>sint\<close>. Loops that stop at a NUL byte only are partial
  functions: without one they do not return.
\<close>

type_synonym mem = "nat \<Rightarrow> u8"

section \<open>Memory functions\<close>

primrec copy_down :: "nat \<Rightarrow> nat \<Rightarrow> nat \<Rightarrow> mem \<Rightarrow> mem" where
  "copy_down 0 dest src m = m"
| "copy_down (Suc n) dest src m = copy_down n dest src (m(dest + n := m (src + n)))"

function copy_up :: "nat \<Rightarrow> nat \<Rightarrow> nat \<Rightarrow> nat \<Rightarrow> mem \<Rightarrow> mem" where
  "copy_up i n dest src m =
     (if i < n then copy_up (i + 1) n dest src (m(dest + i := m (src + i))) else m)"
  by pat_completeness auto
termination
  by (relation "measure (\<lambda>(i, n, dest, src, m). n - i)") auto

definition memcpy :: "nat \<Rightarrow> nat \<Rightarrow> nat \<Rightarrow> mem \<Rightarrow> mem" where
  "memcpy dest src n m =
     (if src \<le> dest \<and> dest < src + n then copy_down n dest src m else copy_up 0 n dest src m)"

function memset_from :: "nat \<Rightarrow> nat \<Rightarrow> u8 \<Rightarrow> nat \<Rightarrow> mem \<Rightarrow> mem" where
  "memset_from i s c n m = (if i < n then memset_from (i + 1) s c n (m(s + i := c)) else m)"
  by pat_completeness auto
termination
  by (relation "measure (\<lambda>(i, s, c, n, m). n - i)") auto

definition memset :: "nat \<Rightarrow> u8 \<Rightarrow> nat \<Rightarrow> mem \<Rightarrow> mem" where
  "memset s c n m = memset_from 0 s c n m"

function memcmp_from :: "nat \<Rightarrow> nat \<Rightarrow> nat \<Rightarrow> nat \<Rightarrow> mem \<Rightarrow> int" where
  "memcmp_from idx s1 s2 n m =
     (if idx < n
      then (if m (s1 + idx) \<noteq> m (s2 + idx)
            then (if 0 < sint (m (s1 + idx)) - sint (m (s2 + idx)) then 1 else - 1)
            else memcmp_from (idx + 1) s1 s2 n m)
      else 0)"
  by pat_completeness auto
termination
  by (relation "measure (\<lambda>(idx, s1, s2, n, m). n - idx)") auto

definition memcmp :: "nat \<Rightarrow> nat \<Rightarrow> nat \<Rightarrow> mem \<Rightarrow> int" where
  "memcmp s1 s2 n m = memcmp_from 0 s1 s2 n m"

section \<open>String functions\<close>

partial_function (option) strcpy :: "nat \<Rightarrow> nat \<Rightarrow> mem \<Rightarrow> mem option" where
  "strcpy dest src m =
     (if m src \<noteq> 0 then strcpy (dest + 1) (src + 1) (m(dest := m src)) else Some (m(dest := 0)))"

function strncpy_from :: "nat \<Rightarrow> nat \<Rightarrow> nat \<Rightarrow> nat \<Rightarrow> mem \<Rightarrow> nat \<times> mem" where
  "strncpy_from i dest src n m =
     (if i < n \<and> m (src + i) \<noteq> 0 then strncpy_from (i + 1) dest src n (m(dest + i := m (src + i)))
      else (i, m))"
  by pat_completeness auto
termination
  by (relation "measure (\<lambda>(i, dest, src, n, m). n - i)") auto

definition strncpy :: "nat \<Rightarrow> nat \<Rightarrow> nat \<Rightarrow> mem \<Rightarrow> mem" where
  "strncpy dest src n m =
     (let (i, m) = strncpy_from 0 dest src n m in memset_from i dest 0 n m)"

text \<open>\<open>strlen\<close> gives up with \<open>(size_t)-1\<close> at 100 characters.\<close>

function strlen_from :: "nat \<Rightarrow> nat \<Rightarrow> mem \<Rightarrow> u32" where
  "strlen_from len s m =
     (if m (s + len) \<noteq> 0
      then (if 100 \<le> len + 1 then - 1 else strlen_from (len + 1) s m)
      else of_nat len)"
  by pat_completeness auto
termination
  by (relation "measure (\<lambda>(len, s, m). 100 - len)") auto

definition strlen :: "nat \<Rightarrow> mem \<Rightarrow> u32" where
  "strlen s m = strlen_from 0 s m"

partial_function (option) strcmp :: "mem \<Rightarrow> nat \<Rightarrow> nat \<Rightarrow> int option" where
  "strcmp m s1 s2 =
     (if m s1 \<noteq> 0 \<and> m s2 \<noteq> 0 \<and> m s1 = m s2 then strcmp m (s1 + 1) (s2 + 1)
      else Some (sint (m s1) - sint (m s2)))"

fun strncmp :: "mem \<Rightarrow> nat \<Rightarrow> nat \<Rightarrow> nat \<Rightarrow> int" where
  "strncmp m s1 s2 n =
     (if m s1 \<noteq> 0 \<and> m s2 \<noteq> 0 \<and> m s1 = m s2 \<and> n \<noteq> 0 then strncmp m (s1 + 1) (s2 + 1) (n - 1)
      else sint (m s1) - sint (m s2))"

partial_function (option) strchr_from :: "mem \<Rightarrow> nat \<Rightarrow> int \<Rightarrow> nat option" where
  "strchr_from m s c = (if m s \<noteq> 0 \<and> sint (m s) \<noteq> c then strchr_from m (s + 1) c else Some s)"

text \<open>The outer option: whether the call returns; the inner one: NULL or a pointer.\<close>

definition strchr :: "mem \<Rightarrow> nat \<Rightarrow> int \<Rightarrow> nat option option" where
  "strchr m s c = map_option (\<lambda>p. if sint (m p) \<noteq> c then None else Some p) (strchr_from m s c)"

text \<open>
  \<open>strpbrk\<close> marks the characters of \<open>s2\<close> in a table of 128 entries, which a negative \<open>char\<close>
  would leave: such a call is one whose behaviour is not defined (\<^const>\<open>None\<close>).
\<close>

partial_function (option) pbrk_table :: "mem \<Rightarrow> nat \<Rightarrow> u8 set \<Rightarrow> u8 set option" where
  "pbrk_table m s2 tmp =
     (if m s2 \<noteq> 0
      then Option.bind (ASSERT (0 \<le> sint (m s2))) (\<lambda>_. pbrk_table m (s2 + 1) (insert (m s2) tmp))
      else Some tmp)"

partial_function (option) pbrk_search :: "mem \<Rightarrow> u8 set \<Rightarrow> nat \<Rightarrow> nat option option" where
  "pbrk_search m tmp s1 =
     (if m s1 \<noteq> 0
      then Option.bind (ASSERT (0 \<le> sint (m s1)))
        (\<lambda>_. if m s1 \<in> tmp then Some (Some s1) else pbrk_search m tmp (s1 + 1))
      else Some None)"

definition strpbrk :: "mem \<Rightarrow> nat \<Rightarrow> nat \<Rightarrow> nat option option" where
  "strpbrk m s1 s2 = do { tmp \<leftarrow> pbrk_table m s2 {}; pbrk_search m tmp s1 }"

declare copy_up.simps [simp del] memset_from.simps [simp del] memcmp_from.simps [simp del]
  strncpy_from.simps [simp del] strlen_from.simps [simp del] strncmp.simps [simp del]

section \<open>user/usercopy.c\<close>

text \<open>The copies between user and kernel space do no check yet; they return the number of bytes.\<close>

definition copy_to_user :: "nat \<Rightarrow> nat \<Rightarrow> nat \<Rightarrow> mem \<Rightarrow> nat \<times> mem" where
  "copy_to_user dest src n m = (n, memcpy dest src n m)"

definition copy_from_user :: "nat \<Rightarrow> nat \<Rightarrow> nat \<Rightarrow> mem \<Rightarrow> nat \<times> mem" where
  "copy_from_user dest src n m = (n, memcpy dest src n m)"

definition strncpy_from_user :: "nat \<Rightarrow> nat \<Rightarrow> nat \<Rightarrow> mem \<Rightarrow> nat \<times> mem" where
  "strncpy_from_user dest src n m = (n, strncpy dest src n m)"

section \<open>What the memory functions do\<close>

lemma copy_down_eq:
  "src \<le> dest \<Longrightarrow> copy_down n dest src m = (\<lambda>a. if dest \<le> a \<and> a < dest + n then m (src + (a - dest)) else m a)"
proof (induction n arbitrary: m)
  case (Suc n)
  have "copy_down (Suc n) dest src m
      = (\<lambda>a. if dest \<le> a \<and> a < dest + n then (m(dest + n := m (src + n))) (src + (a - dest))
             else (m(dest + n := m (src + n))) a)"
    using Suc by simp
  also have "\<dots> = (\<lambda>a. if dest \<le> a \<and> a < dest + Suc n then m (src + (a - dest)) else m a)"
    using Suc.prems by (auto simp: fun_eq_iff)
  finally show ?case .
qed (auto simp: fun_eq_iff)

lemma copy_up_eq:
  "dest < src \<or> src + n \<le> dest \<Longrightarrow> i \<le> n \<Longrightarrow>
   copy_up i n dest src m = (\<lambda>a. if dest + i \<le> a \<and> a < dest + n then m (src + (a - dest)) else m a)"
proof (induction i n dest src m rule: copy_up.induct)
  case (1 i n dest src m)
  show ?case
  proof (cases "i < n")
    case True
    have "copy_up i n dest src m = copy_up (i + 1) n dest src (m(dest + i := m (src + i)))"
      using True by (subst copy_up.simps) simp
    also have "\<dots> = (\<lambda>a. if dest + (i + 1) \<le> a \<and> a < dest + n then (m(dest + i := m (src + i))) (src + (a - dest))
        else (m(dest + i := m (src + i))) a)"
      by (rule 1(1)) (use True 1 in auto)
    also have "\<dots> = (\<lambda>a. if dest + i \<le> a \<and> a < dest + n then m (src + (a - dest)) else m a)"
      using 1(2) True by (auto simp: fun_eq_iff)
    finally show ?thesis .
  next
    case False
    then show ?thesis by (subst copy_up.simps) (auto simp: fun_eq_iff)
  qed
qed

lemma memset_from_eq:
  "memset_from i s c n m = (\<lambda>a. if s + i \<le> a \<and> a < s + n then c else m a)"
proof (induction i s c n m rule: memset_from.induct)
  case (1 i s c n m)
  show ?case
  proof (cases "i < n")
    case True
    then have "memset_from i s c n m = memset_from (i + 1) s c n (m(s + i := c))"
      by (subst memset_from.simps) simp
    also have "\<dots> = (\<lambda>a. if s + (i + 1) \<le> a \<and> a < s + n then c else (m(s + i := c)) a)"
      by (rule 1(1) [OF True])
    also have "\<dots> = (\<lambda>a. if s + i \<le> a \<and> a < s + n then c else m a)"
      using True by (auto simp: fun_eq_iff)
    finally show ?thesis .
  next
    case False
    then show ?thesis by (subst memset_from.simps) (auto simp: fun_eq_iff)
  qed
qed

section \<open>Strings in memory\<close>

definition cstr :: "mem \<Rightarrow> nat \<Rightarrow> u8 list \<Rightarrow> bool" where
  "cstr m p xs \<longleftrightarrow> (\<forall>i < length xs. m (p + i) = xs ! i) \<and> 0 \<notin> set xs \<and> m (p + length xs) = 0"

lemma cstr_Nil [simp]: "cstr m p [] \<longleftrightarrow> m p = 0"
  by (simp add: cstr_def)

lemma cstr_Cons: "cstr m p (x # xs) \<longleftrightarrow> m p = x \<and> x \<noteq> 0 \<and> cstr m (p + 1) xs"
proof
  assume c: "cstr m p (x # xs)"
  then have "m (p + i) = (x # xs) ! i" if "i < Suc (length xs)" for i
    using that by (auto simp: cstr_def)
  from this [of 0] this [of "Suc _"] c show "m p = x \<and> x \<noteq> 0 \<and> cstr m (p + 1) xs"
    by (auto simp: cstr_def)
next
  assume c: "m p = x \<and> x \<noteq> 0 \<and> cstr m (p + 1) xs"
  then have "m (p + i) = (x # xs) ! i" if "i < Suc (length xs)" for i
    using that by (cases i) (auto simp: cstr_def)
  then show "cstr m p (x # xs)" using c by (auto simp: cstr_def)
qed

lemma cstr_cong: "(\<And>i. i \<le> length xs \<Longrightarrow> m' (p + i) = m (p + i)) \<Longrightarrow> cstr m' p xs = cstr m p xs"
  by (auto simp: cstr_def)

lemma strcpy_cstr:
  "cstr m src xs \<Longrightarrow> dest \<le> src \<or> src + length xs < dest \<Longrightarrow>
   \<exists>m'. strcpy dest src m = Some m' \<and> cstr m' dest xs \<and>
     (\<forall>a. a < dest \<or> dest + length xs < a \<longrightarrow> m' a = m a)"
proof (induction xs arbitrary: dest src m)
  case Nil
  then show ?case by (subst strcpy.simps) simp
next
  case (Cons x xs)
  then have x: "m src = x" "x \<noteq> 0" "cstr m (src + 1) xs" by (simp_all add: cstr_Cons)
  let ?m = "m(dest := x)"
  have "cstr ?m (src + 1) xs = cstr m (src + 1) xs"
    using Cons.prems(2) by (intro cstr_cong) auto
  with x(3) have c: "cstr ?m (src + 1) xs" by simp
  have "dest + 1 \<le> src + 1 \<or> src + 1 + length xs < dest + 1" using Cons.prems(2) by auto
  from Cons.IH [OF c this] obtain m' where
    m': "strcpy (dest + 1) (src + 1) ?m = Some m'" "cstr m' (dest + 1) xs"
    "\<forall>a. a < dest + 1 \<or> dest + 1 + length xs < a \<longrightarrow> m' a = ?m a" by blast
  have "strcpy dest src m = Some m'"
    using x m'(1) by (subst strcpy.simps) simp
  moreover have "cstr m' dest (x # xs)"
    using m'(2,3) x(2) by (simp add: cstr_Cons)
  ultimately show ?case using m'(3) by auto
qed

lemma strlen_from_cstr:
  "cstr m (s + len) xs \<Longrightarrow> len < 100 \<Longrightarrow>
   strlen_from len s m = (if len + length xs < 100 then of_nat (len + length xs) else - 1)"
proof (induction xs arbitrary: len)
  case Nil
  then show ?case by (subst strlen_from.simps) simp
next
  case (Cons x xs)
  then have x: "m (s + len) = x" "x \<noteq> 0" "cstr m (s + (len + 1)) xs" by (simp_all add: cstr_Cons)
  show ?case
  proof (cases "len + 1 < 100")
    case True
    then have "strlen_from len s m = strlen_from (len + 1) s m"
      using x by (subst strlen_from.simps) simp
    then show ?thesis using Cons.IH [OF x(3) True] by simp
  next
    case False
    then show ?thesis using x Cons.prems(2) by (subst strlen_from.simps) simp
  qed
qed

lemma sint_eq_iff_u8: "sint (x :: u8) = sint y \<longleftrightarrow> x = y"
  by (metis signed_word_eqI)

lemma strcmp_cstr:
  "cstr m s1 xs \<Longrightarrow> cstr m s2 ys \<Longrightarrow> \<exists>r. strcmp m s1 s2 = Some r \<and> (r = 0 \<longleftrightarrow> xs = ys)"
proof (induction xs arbitrary: s1 s2 ys)
  case Nil
  then show ?case
    by (subst strcmp.simps) (use sint_eq_iff_u8 [of _ 0] in \<open>cases ys; auto simp: cstr_Cons\<close>)
next
  case (Cons x xs)
  then have x: "m s1 = x" "x \<noteq> 0" "cstr m (s1 + 1) xs" by (simp_all add: cstr_Cons)
  show ?case
  proof (cases "m s2 = x")
    case True
    then obtain ys' where ys: "ys = x # ys'" "cstr m (s2 + 1) ys'"
      using Cons.prems(2) x(2) by (cases ys) (auto simp: cstr_Cons)
    have "strcmp m s1 s2 = strcmp m (s1 + 1) (s2 + 1)"
      using x True by (subst strcmp.simps) simp
    then show ?thesis using Cons.IH [OF x(3) ys(2)] ys(1) by simp
  next
    case False
    then have "strcmp m s1 s2 = Some (sint x - sint (m s2))"
      using x by (subst strcmp.simps) auto
    moreover have "sint x \<noteq> sint (m s2)" using False sint_eq_iff_u8 by metis
    moreover have "x # xs \<noteq> ys" using False Cons.prems(2) by (auto simp: cstr_Cons)
    ultimately show ?thesis by simp
  qed
qed

lemma strncmp_cstr:
  "cstr m s1 (ps @ xs) \<Longrightarrow> cstr m s2 (ps @ ys) \<Longrightarrow> length ps = n \<Longrightarrow>
   strncmp m s1 s2 n = sint (m (s1 + n)) - sint (m (s2 + n))"
proof (induction ps arbitrary: s1 s2 n)
  case Nil
  then show ?case by (subst strncmp.simps) simp
next
  case (Cons p ps)
  then have p: "m s1 = p" "m s2 = p" "p \<noteq> 0" "cstr m (s1 + 1) (ps @ xs)" "cstr m (s2 + 1) (ps @ ys)"
    by (simp_all add: cstr_Cons)
  have "strncmp m s1 s2 n = strncmp m (s1 + 1) (s2 + 1) (n - 1)"
    using p Cons.prems(3) by (subst strncmp.simps) auto
  then show ?case using Cons.IH [OF p(4,5), of "n - 1"] Cons.prems(3) by auto
qed

lemma strchr_from_cstr:
  "cstr m s xs \<Longrightarrow> strchr_from m s c = Some (s + length (takeWhile (\<lambda>x. sint x \<noteq> c) xs))"
proof (induction xs arbitrary: s)
  case Nil
  then show ?case by (subst strchr_from.simps) simp
next
  case (Cons x xs)
  then have x: "m s = x" "x \<noteq> 0" "cstr m (s + 1) xs" by (simp_all add: cstr_Cons)
  then show ?case using Cons.IH [OF x(3)] by (subst strchr_from.simps) simp
qed

section \<open>Properties\<close>

text \<open>\<open>memcpy\<close> copies \<open>n\<close> bytes whatever the overlap of source and destination, and changes no
  other byte.\<close>

theorem memcpy_correct:
  "memcpy dest src n m a = (if dest \<le> a \<and> a < dest + n then m (src + (a - dest)) else m a)"
proof (cases "src \<le> dest \<and> dest < src + n")
  case True
  then show ?thesis by (simp add: memcpy_def copy_down_eq)
next
  case False
  then have "dest < src \<or> src + n \<le> dest" by auto
  then show ?thesis using False by (auto simp: memcpy_def copy_up_eq)
qed

text \<open>\<open>strcpy\<close> of a string returns with the string at the destination, provided the destination
  does not begin inside the source, and changes nothing else.\<close>

theorem strcpy_correct:
  assumes "cstr m src xs" "dest \<le> src \<or> src + length xs < dest"
  shows "\<exists>m'. strcpy dest src m = Some m' \<and> cstr m' dest xs \<and>
    (\<forall>a. a < dest \<or> dest + length xs < a \<longrightarrow> m' a = m a)"
  by (rule strcpy_cstr [OF assms])

definition hello_mem :: mem where
  "hello_mem = (\<lambda>a. if a = 100 then 104 else if a = 101 then 105 else 0)"

lemma hello_cstr: "cstr hello_mem 100 [104, 105]"
  by (simp add: cstr_Cons hello_mem_def)

theorem strcpy_correct_witness:
  "\<exists>m'. strcpy 200 100 hello_mem = Some m' \<and> cstr m' 200 [104, 105]"
  using strcpy_correct [OF hello_cstr, of 200] by auto

text \<open>\<open>strlen\<close> is the length of a string of fewer than 100 characters, and \<open>(size_t)-1\<close> for any
  longer one.\<close>

theorem strlen_correct:
  assumes "cstr m s xs"
  shows "strlen s m = (if length xs < 100 then of_nat (length xs) else - 1)"
  using strlen_from_cstr [of m s 0 xs] assms by (simp add: strlen_def)

theorem strlen_correct_witness: "strlen 100 hello_mem = 2"
  using strlen_correct [OF hello_cstr] by simp

text \<open>C40: \<open>strcmp\<close> returns on any two strings, and returns zero exactly for equal ones.\<close>

theorem strcmp_correct:
  assumes "cstr m s1 xs" "cstr m s2 ys"
  shows "\<exists>r. strcmp m s1 s2 = Some r \<and> (r = 0 \<longleftrightarrow> xs = ys)"
  by (rule strcmp_cstr [OF assms])

theorem strcmp_correct_witness: "\<exists>r. strcmp hello_mem 100 101 = Some r \<and> r \<noteq> 0"
proof -
  have "cstr hello_mem 101 [105]" by (simp add: cstr_Cons hello_mem_def)
  from strcmp_correct [OF hello_cstr this] show ?thesis by auto
qed

text \<open>\<open>strncmp\<close> compares one character too many: two strings that agree in their first \<open>n\<close>
  characters and differ in the next are reported as different.\<close>

theorem strncmp_compares_beyond:
  assumes "cstr m s1 (ps @ x # xs)" "cstr m s2 (ps @ y # ys)" "x \<noteq> y"
  shows "strncmp m s1 s2 (length ps) \<noteq> 0"
proof -
  have "m (s1 + length ps) = x" "m (s2 + length ps) = y"
    using assms(1,2) by (auto simp: cstr_def nth_append)
  then show ?thesis
    using strncmp_cstr [OF assms(1,2) refl] assms(3) sint_eq_iff_u8 [of x y] by simp
qed

theorem strncmp_compares_beyond_witness: "strncmp hello_mem 100 101 0 \<noteq> 0"
proof -
  have "cstr hello_mem 100 ([] @ 104 # [105])" "cstr hello_mem 101 ([] @ 105 # [])"
    by (simp_all add: cstr_Cons hello_mem_def)
  from strncmp_compares_beyond [OF this] show ?thesis by simp
qed

end
