(* ===== verification/Kmalloc.thy ===== *)
theory Kmalloc
  imports Buddy Paging FizzStr
begin

text \<open>
  The kernel's memory blocks: \<open>kmalloc\<close>, \<open>kzalloc\<close> and \<open>kfree\<close> of kernel/memory.c, over the page
  allocator of theory Buddy and with \<open>free_page\<close>, \<open>free_pages\<close> and \<open>get_zeroed_page\<close> of kernel/buddy.c.
  Addresses are natural numbers. The 32-byte descriptor at the start of a page is the record
  kept for the page's address; its \<open>block_list\<close>, and the lists \<open>mblock_part\<close> and \<open>mblock_full\<close> of pages,
  are sequences of addresses (theory DList). The links that \<open>kmalloc\<close> writes into free blocks
  are in those sequences and not in the byte memory.
\<close>

section \<open>Pages by address\<close>

definition page_addr :: "nat \<Rightarrow> nat" where
  "page_addr pg = pg * PG_SIZE + KERNEL_VADDR_START"

definition get_zeroed_page :: "'a sys_scheme \<Rightarrow> buddy \<Rightarrow> mem \<Rightarrow> u32 \<Rightarrow> (nat \<times> 'a sys_scheme \<times> buddy \<times> mem) option" where
  "get_zeroed_page k b m flag = do {
     (pg, k, b) \<leftarrow> alloc_pages k b flag 0;
     let addr = pg * PG_SIZE + KERNEL_VADDR_START;
     Some (addr, k, b, memset addr 0 PG_SIZE m) }"

definition free_page :: "'a sys_scheme \<Rightarrow> buddy \<Rightarrow> mmu \<Rightarrow> nat \<Rightarrow> ('a sys_scheme \<times> buddy) option" where
  "free_page k b u addr = do {
     ASSERT (addr mod PG_SIZE = 0);
     p \<leftarrow> get_paddr u (of_nat addr);
     free_pages_idx k b (paddr2pg (unat p)) 0 }"

definition free_pages :: "'a sys_scheme \<Rightarrow> buddy \<Rightarrow> mmu \<Rightarrow> nat \<Rightarrow> int \<Rightarrow> ('a sys_scheme \<times> buddy) option" where
  "free_pages k b u addr ord = do {
     ASSERT (addr mod PG_SIZE = 0);
     p \<leftarrow> get_paddr u (of_nat addr);
     free_pages_idx k b (paddr2pg (unat p)) ord }"

section \<open>State\<close>

definition MAX_BLOCK_SIZE :: u32 where "MAX_BLOCK_SIZE = 2032"

definition mem_block_size :: "nat \<Rightarrow> nat" where
  "mem_block_size i = [32, 64, 116, 238, 508, 1016, 2032] ! i"

definition mem_block_count :: "nat \<Rightarrow> nat" where
  "mem_block_count i = [127, 63, 35, 17, 8, 4, 2] ! i"

text \<open>\<open>count\<close> and \<open>order\<close> are one field, as in the union of the C structure.\<close>

record mem_block_desc =
  block_list :: "nat list"
  count :: int
  remain :: int
  mlist_idx :: nat
  large :: bool

record kmem =
  bd :: buddy
  mblock_part :: "nat \<Rightarrow> nat list"
  mblock_full :: "nat \<Rightarrow> nat list"
  desc :: "nat \<Rightarrow> mem_block_desc"

definition set_desc :: "nat \<Rightarrow> mem_block_desc \<Rightarrow> kmem \<Rightarrow> kmem" where
  "set_desc p d km = km\<lparr>desc := (desc km)(p := d)\<rparr>"

section \<open>kmalloc\<close>

fun order_loop :: "nat \<Rightarrow> nat \<Rightarrow> nat" where
  "order_loop cnt order = (if 1 < cnt then order_loop (cnt div 2) (order + 1) else order)"

function find_class :: "nat \<Rightarrow> nat \<Rightarrow> nat" where
  "find_class sz idx = (if idx < 7 \<and> \<not> sz \<le> mem_block_size idx then find_class sz (idx + 1) else idx)"
  by pat_completeness auto
termination
  by (relation "measure (\<lambda>(sz, idx). 7 - idx)") auto

declare order_loop.simps [simp del] find_class.simps [simp del]

definition kmalloc_large :: "'a sys_scheme \<Rightarrow> kmem \<Rightarrow> u32 \<Rightarrow> (nat \<times> 'a sys_scheme \<times> kmem) option" where
  "kmalloc_large k km sz = do {
     let cnt = unat (sz + 32 + (of_nat PG_SIZE - 1)) div PG_SIZE;
     let order = order_loop cnt 0;
     (p, k, b) \<leftarrow> get_free_pages k (bd km) KERNEL_POOL (int order);
     let d = (desc km p)\<lparr>count := int order, large := True\<rparr>;
     Some (p, k, set_desc p d (km\<lparr>bd := b\<rparr>)) }"

text \<open>
  A page for an empty class. The code appends the page to \<open>mblock_part\<close> twice; the second time
  the page is already the last element of a list of one, and the list stays as it is
  (\<open>push_back_again\<close> of theory DList).
\<close>

definition kmalloc_new :: "'a sys_scheme \<Rightarrow> kmem \<Rightarrow> nat \<Rightarrow> (nat \<times> 'a sys_scheme \<times> kmem) option" where
  "kmalloc_new k km idx = do {
     (p, k, b) \<leftarrow> get_free_page k (bd km) KERNEL_POOL;
     let km = km\<lparr>bd := b, mblock_part := (mblock_part km)(idx := mblock_part km idx @ [p])\<rparr>;
     let d = (desc km p)\<lparr>count := int (mem_block_count idx), remain := int (mem_block_count idx) - 1,
       mlist_idx := idx, large := False,
       block_list := map (\<lambda>i. p + 32 + mem_block_size idx * i) [0..<mem_block_count idx]\<rparr>;
     Some (p, k, set_desc p d km) }"

definition kmalloc_part :: "kmem \<Rightarrow> nat \<Rightarrow> nat \<times> kmem" where
  "kmalloc_part km idx =
     (let p = hd (mblock_part km idx);
          d = (desc km p)\<lparr>remain := remain (desc km p) - 1\<rparr>;
          km = set_desc p d km
      in if remain d = 0
         then (p, km\<lparr>mblock_part := (mblock_part km)(idx := tl (mblock_part km idx)),
                     mblock_full := (mblock_full km)(idx := mblock_full km idx @ [p])\<rparr>)
         else (p, km))"

definition kmalloc :: "'a sys_scheme \<Rightarrow> kmem \<Rightarrow> u32 \<Rightarrow> (nat \<times> 'a sys_scheme \<times> kmem) option" where
  "kmalloc k km sz = (let (old, k) = intr_disable k in
     if MAX_BLOCK_SIZE < sz
     then do {
       (p, k, km) \<leftarrow> kmalloc_large k km sz;
       Some (p + 32, snd (intr_set_status old k), km) }
     else do {
       let idx = find_class (unat sz) 0;
       ASSERT (idx < 7);
       (p, k, km) \<leftarrow> (if mblock_part km idx = [] then kmalloc_new k km idx
         else (let (p, km) = kmalloc_part km idx in Some (p, k, km)));
       let k = snd (intr_set_status old k);
       let d = desc km p;
       case block_list d of
         [] \<Rightarrow> Some (0, k, km)
       | a # bl \<Rightarrow> Some (a, k, set_desc p (d\<lparr>block_list := bl\<rparr>) km) })"

definition kzalloc :: "'a sys_scheme \<Rightarrow> kmem \<Rightarrow> mem \<Rightarrow> u32 \<Rightarrow> (nat \<times> 'a sys_scheme \<times> kmem \<times> mem) option" where
  "kzalloc k km m sz = do {
     (addr, k, km) \<leftarrow> kmalloc k km sz;
     Some (addr, k, km, memset addr 0 (unat sz) m) }"

section \<open>kfree\<close>

definition kfree :: "'a sys_scheme \<Rightarrow> kmem \<Rightarrow> mmu \<Rightarrow> nat \<Rightarrow> ('a sys_scheme \<times> kmem) option" where
  "kfree k km u addr =
     (let p = addr div PG_SIZE * PG_SIZE; d = desc km p; idx = mlist_idx d
      in if large d
      then do {
        (k, b) \<leftarrow> free_pages k (bd km) u p (count d);
        Some (k, km\<lparr>bd := b\<rparr>) }
      else if p \<in> set (mblock_full km idx)
      then do {
        ASSERT (p \<notin> set (mblock_part km idx));
        let km = km\<lparr>mblock_full := (mblock_full km)(idx := remove1 p (mblock_full km idx)),
                    mblock_part := (mblock_part km)(idx := mblock_part km idx @ [p])\<rparr>;
        ASSERT (remain d = 0);
        Some (k, set_desc p (d\<lparr>remain := remain d + 1, block_list := block_list d @ [addr]\<rparr>) km) }
      else do {
        ASSERT (p \<in> set (mblock_part km idx));
        ASSERT (remain d < count d);
        let d = d\<lparr>remain := remain d + 1\<rparr>;
        if remain d = count d
        then do {
          let km = set_desc p d km;
          let km = km\<lparr>mblock_part := (mblock_part km)(idx := remove1 p (mblock_part km idx))\<rparr>;
          (k, b) \<leftarrow> free_page k (bd km) u p;
          Some (k, km\<lparr>bd := b\<rparr>) }
        else Some (k, set_desc p (d\<lparr>block_list := block_list d @ [addr]\<rparr>) km) })"

section \<open>The invariant\<close>

definition blocks_of :: "nat \<Rightarrow> nat \<Rightarrow> nat set" where
  "blocks_of idx p = (\<lambda>i. p + 32 + mem_block_size idx * i) ` {..<mem_block_count idx}"

definition class_pages :: "kmem \<Rightarrow> nat \<Rightarrow> nat set" where
  "class_pages km idx = set (mblock_part km idx) \<union> set (mblock_full km idx)"

text \<open>A page of class \<open>idx\<close>: an order-0 block of the page allocator with one user, whose descriptor
  lists distinct blocks of the page and counts them.\<close>

definition page_ok :: "kmem \<Rightarrow> blocks \<Rightarrow> nat \<Rightarrow> nat \<Rightarrow> bool" where
  "page_ok km A idx p \<longleftrightarrow>
     (\<exists>pg. p = page_addr pg \<and> (0, pg) \<in> A \<and> atomic_read (pg_count (pages (bd km) pg)) = 1) \<and>
     \<not> large (desc km p) \<and> mlist_idx (desc km p) = idx \<and> count (desc km p) = int (mem_block_count idx) \<and>
     distinct (block_list (desc km p)) \<and> set (block_list (desc km p)) \<subset> blocks_of idx p \<and>
     remain (desc km p) = int (length (block_list (desc km p)))"

definition class_ok :: "kmem \<Rightarrow> blocks \<Rightarrow> nat \<Rightarrow> bool" where
  "class_ok km A idx \<longleftrightarrow>
     distinct (mblock_part km idx @ mblock_full km idx) \<and>
     (\<forall>p \<in> class_pages km idx. page_ok km A idx p) \<and>
     (\<forall>p \<in> set (mblock_part km idx). block_list (desc km p) \<noteq> []) \<and>
     (\<forall>p \<in> set (mblock_full km idx). block_list (desc km p) = [])"

text \<open>The memory fits into the kernel's direct mapping above 3 GB.\<close>

definition small_mem :: "buddy \<Rightarrow> bool" where
  "small_mem b \<longleftrightarrow> user_start_idx b \<le> pg_cnt b \<and> pg_cnt b \<le> 2 ^ 18"

definition direct_map :: "mmu \<Rightarrow> nat \<Rightarrow> bool" where
  "direct_map u n \<longleftrightarrow> (\<forall>pg < n. get_paddr u (of_nat (page_addr pg)) = Some (of_nat (pg * PG_SIZE)))"

definition kmem_inv :: "'a sys_scheme \<Rightarrow> kmem \<Rightarrow> blocks \<Rightarrow> bool" where
  "kmem_inv k km A \<longleftrightarrow> buddy_inv k (bd km) A \<and> small_mem (bd km) \<and> (\<forall>idx < 7. class_ok km A idx)"

text \<open>The blocks handed out.\<close>

definition live :: "kmem \<Rightarrow> nat set" where
  "live km = {a. \<exists>idx < 7. \<exists>p \<in> class_pages km idx. a \<in> blocks_of idx p \<and> a \<notin> set (block_list (desc km p))}"

lemma lt7: "(idx :: nat) < 7 \<longleftrightarrow> idx \<in> {0, 1, 2, 3, 4, 5, 6}"
  by auto

lemma class_table: "idx < 7 \<Longrightarrow>
    2 \<le> mem_block_count idx \<and> 32 \<le> mem_block_size idx \<and> 32 + mem_block_count idx * mem_block_size idx \<le> PG_SIZE"
  unfolding lt7 by (auto simp: mem_block_count_def mem_block_size_def PG_SIZE_def)

lemma find_class_spec:
  "idx \<le> 7 \<Longrightarrow> find_class sz idx \<le> 7 \<and> (find_class sz idx < 7 \<longrightarrow> sz \<le> mem_block_size (find_class sz idx)) \<and>
     (\<forall>j. idx \<le> j \<and> j < find_class sz idx \<longrightarrow> mem_block_size j < sz)"
proof (induction sz idx rule: find_class.induct)
  case (1 sz idx)
  show ?case
  proof (cases "idx < 7 \<and> \<not> sz \<le> mem_block_size idx")
    case True
    then have "find_class sz idx = find_class sz (idx + 1)" by (subst find_class.simps) simp
    moreover have "mem_block_size j < sz" if "idx \<le> j" "j < find_class sz (idx + 1)" for j
      using that 1 True by (cases "j = idx") auto
    ultimately show ?thesis using 1 True by auto
  next
    case False
    then have "find_class sz idx = idx" by (subst find_class.simps) auto
    then show ?thesis using False 1(2) by auto
  qed
qed

lemma find_class_small:
  assumes "sz \<le> 2032" shows "find_class sz 0 < 7" "sz \<le> mem_block_size (find_class sz 0)"
proof -
  have "\<not> mem_block_size 6 < sz" using assms by (simp add: mem_block_size_def)
  then have "\<not> 6 < find_class sz 0" using find_class_spec [of 0 sz] by auto
  then show "find_class sz 0 < 7" by simp
  then show "sz \<le> mem_block_size (find_class sz 0)" using find_class_spec [of 0 sz] by simp
qed

text \<open>Blocks of a page lie behind the descriptor, inside the page, and do not overlap.\<close>

lemma block_in_page:
  assumes "a \<in> blocks_of idx p" "idx < 7"
  shows "p + 32 \<le> a" "a + mem_block_size idx \<le> p + PG_SIZE"
proof -
  obtain i where i: "a = p + 32 + mem_block_size idx * i" "i < mem_block_count idx"
    using assms(1) by (auto simp: blocks_of_def)
  have "mem_block_size idx * (i + 1) \<le> mem_block_size idx * mem_block_count idx"
    using i(2) by (intro mult_le_mono2) simp
  then show "p + 32 \<le> a" "a + mem_block_size idx \<le> p + PG_SIZE"
    using i(1) class_table [OF assms(2)] by (simp_all add: mult.commute)
qed

lemma page_base:
  assumes "a \<in> blocks_of idx (page_addr pg)" "idx < 7"
  shows "a div PG_SIZE * PG_SIZE = page_addr pg"
proof -
  have "KERNEL_VADDR_START = 786432 * PG_SIZE" by (simp add: PG_SIZE_def KERNEL_VADDR_START_def)
  then have p: "page_addr pg = (pg + 786432) * PG_SIZE" by (simp add: page_addr_def add_mult_distrib)
  have "page_addr pg \<le> a" "a < page_addr pg + PG_SIZE"
    using block_in_page [OF assms] class_table [OF assms(2)] by auto
  then have "a div PG_SIZE = pg + 786432"
    unfolding p by (intro div_nat_eqI) (simp_all add: PG_SIZE_def)
  then show ?thesis by (simp add: p)
qed

lemma finite_blocks_of [simp]: "finite (blocks_of idx p)"
  by (simp add: blocks_of_def)

lemma card_blocks_of: "idx < 7 \<Longrightarrow> card (blocks_of idx p) = mem_block_count idx"
  unfolding blocks_of_def using class_table [of idx] by (subst card_image) (auto simp: inj_on_def)

lemma page_addr_eq [simp]: "page_addr a = page_addr b \<longleftrightarrow> a = b"
  by (simp add: page_addr_def PG_SIZE_def)

section \<open>One page at a time\<close>

text \<open>
  Every operation changes the descriptor of one page and the class of that page: the other pages
  keep what is true of them.
\<close>

definition live_page :: "kmem \<Rightarrow> nat \<Rightarrow> nat \<Rightarrow> nat set" where
  "live_page km idx p = blocks_of idx p - set (block_list (desc km p))"

definition others :: "kmem \<Rightarrow> nat \<Rightarrow> nat set" where
  "others km p = {a. \<exists>j < 7. \<exists>q \<in> class_pages km j. q \<noteq> p \<and> a \<in> live_page km j q}"

definition touches :: "nat \<Rightarrow> nat \<Rightarrow> kmem \<Rightarrow> blocks \<Rightarrow> kmem \<Rightarrow> blocks \<Rightarrow> bool" where
  "touches idx p km A km' A' \<longleftrightarrow>
     (\<forall>j. j \<noteq> idx \<longrightarrow> mblock_part km' j = mblock_part km j \<and> mblock_full km' j = mblock_full km j) \<and>
     (\<forall>q. q \<noteq> p \<longrightarrow> desc km' q = desc km q) \<and>
     (\<forall>q. q \<noteq> p \<longrightarrow> q \<in> class_pages km' idx \<longleftrightarrow> q \<in> class_pages km idx) \<and>
     (\<forall>pg. (0, pg) \<in> A \<and> page_addr pg \<noteq> p \<longrightarrow> (0, pg) \<in> A' \<and> pages (bd km') pg = pages (bd km) pg)"

lemma page_ok_other: "touches idx p km A km' A' \<Longrightarrow> q \<noteq> p \<Longrightarrow> page_ok km A j q \<Longrightarrow> page_ok km' A' j q"
  unfolding touches_def page_ok_def by metis

lemma page_ok_class: "page_ok km A i p \<Longrightarrow> page_ok km A j p \<Longrightarrow> i = j"
  by (simp add: page_ok_def)

lemma class_page_ok: "kmem_inv k km A \<Longrightarrow> j < 7 \<Longrightarrow> q \<in> class_pages km j \<Longrightarrow> page_ok km A j q"
  by (simp add: kmem_inv_def class_ok_def)

lemma page_base_of: "page_ok km A j q \<Longrightarrow> j < 7 \<Longrightarrow> a \<in> blocks_of j q \<Longrightarrow> a div PG_SIZE * PG_SIZE = q"
  unfolding page_ok_def using page_base by blast

lemma class_ok_other:
  assumes t: "touches idx p km A km' A'" and j: "j \<noteq> idx" and ok: "class_ok km A j"
    and p: "p \<notin> class_pages km j"
  shows "class_ok km' A' j"
proof -
  have l: "mblock_part km' j = mblock_part km j" "mblock_full km' j = mblock_full km j"
    using t j by (simp_all add: touches_def)
  have d: "desc km' q = desc km q" if "q \<in> class_pages km j" for q
    using t p that by (auto simp: touches_def)
  have pg: "page_ok km' A' j q" if "q \<in> class_pages km j" for q
    using page_ok_other [OF t] p that ok by (metis class_ok_def)
  show ?thesis
    using ok d pg by (simp add: class_ok_def l class_pages_def)
qed

lemma kmem_inv_step:
  assumes inv: "kmem_inv k km A" and t: "touches idx p km A km' A'"
    and b: "buddy_inv k (bd km') A'" "pg_cnt (bd km') = pg_cnt (bd km)"
      "user_start_idx (bd km') = user_start_idx (bd km)"
    and ok: "class_ok km' A' idx" and p: "\<And>j. j < 7 \<Longrightarrow> j \<noteq> idx \<Longrightarrow> p \<notin> class_pages km j"
  shows "kmem_inv k km' A'"
proof -
  have "class_ok km' A' j" if "j < 7" for j
  proof (cases "j = idx")
    case False
    then show ?thesis using class_ok_other [OF t False _ p] inv that by (simp add: kmem_inv_def)
  qed (use ok in simp)
  then show ?thesis using inv b by (simp add: kmem_inv_def small_mem_def)
qed

lemma others_same: "touches idx p km A km' A' \<Longrightarrow> others km' p = others km p"
proof -
  assume t: "touches idx p km A km' A'"
  have c: "q \<in> class_pages km' j \<longleftrightarrow> q \<in> class_pages km j" if "q \<noteq> p" for q j
    using t that by (cases "j = idx") (auto simp: touches_def class_pages_def)
  have "live_page km' j q = live_page km j q" if "q \<noteq> p" for q j
    using t that by (simp add: touches_def live_page_def)
  with c show ?thesis unfolding others_def by blast
qed

lemma live_split:
  assumes "\<And>j. j < 7 \<Longrightarrow> j \<noteq> idx \<Longrightarrow> p \<notin> class_pages km j" "idx < 7"
  shows "live km = others km p \<union> (if p \<in> class_pages km idx then live_page km idx p else {})"
proof -
  have "(\<exists>j < 7. \<exists>q \<in> class_pages km j. a \<in> live_page km j q) \<longleftrightarrow>
      a \<in> others km p \<or> (p \<in> class_pages km idx \<and> a \<in> live_page km idx p)" for a
  proof
    assume "\<exists>j < 7. \<exists>q \<in> class_pages km j. a \<in> live_page km j q"
    then obtain j q where q: "j < 7" "q \<in> class_pages km j" "a \<in> live_page km j q" by blast
    show "a \<in> others km p \<or> (p \<in> class_pages km idx \<and> a \<in> live_page km idx p)"
    proof (cases "q = p")
      case True
      then have "j = idx" using assms(1) q by blast
      then show ?thesis using q True by blast
    next
      case False
      then show ?thesis using q unfolding others_def by blast
    qed
  next
    assume "a \<in> others km p \<or> (p \<in> class_pages km idx \<and> a \<in> live_page km idx p)"
    then show "\<exists>j < 7. \<exists>q \<in> class_pages km j. a \<in> live_page km j q"
      using assms(2) unfolding others_def by blast
  qed
  then show ?thesis unfolding live_def live_page_def by auto
qed

lemma others_disjoint:
  assumes "kmem_inv k km A" "p = page_addr pg" "idx < 7"
  shows "others km p \<inter> blocks_of idx p = {}"
proof -
  have False if o: "a \<in> others km p" and b: "a \<in> blocks_of idx p" for a
  proof -
    obtain j q where q: "j < 7" "q \<in> class_pages km j" "q \<noteq> p" "a \<in> blocks_of j q"
      using o unfolding others_def live_page_def by blast
    have "q = a div PG_SIZE * PG_SIZE"
      using page_base_of [OF class_page_ok [OF assms(1) q(1,2)] q(1,4)] by simp
    also have "\<dots> = p" using page_base b assms(2,3) by blast
    finally show False using q(3) by simp
  qed
  then show ?thesis by blast
qed

lemma live_change:
  assumes inv: "kmem_inv k km A" and t: "touches idx p km A km' A'" and i: "idx < 7"
    and p: "p = page_addr pg" "\<And>j. j < 7 \<Longrightarrow> j \<noteq> idx \<Longrightarrow> p \<notin> class_pages km j"
  shows "live km = others km p \<union> (if p \<in> class_pages km idx then live_page km idx p else {})"
    "live km' = others km p \<union> (if p \<in> class_pages km' idx then live_page km' idx p else {})"
    "others km p \<inter> blocks_of idx p = {}"
proof -
  show "live km = others km p \<union> (if p \<in> class_pages km idx then live_page km idx p else {})"
    by (rule live_split [OF p(2) i])
  have "p \<notin> class_pages km' j" if "j < 7" "j \<noteq> idx" for j
    using p(2) that t by (auto simp: touches_def class_pages_def)
  from live_split [OF this i]
  show "live km' = others km p \<union> (if p \<in> class_pages km' idx then live_page km' idx p else {})"
    by (simp add: others_same [OF t])
  show "others km p \<inter> blocks_of idx p = {}" by (rule others_disjoint [OF inv p(1) i])
qed

lemma page_in_one_class:
  assumes "kmem_inv k km A" "idx < 7" "p \<in> class_pages km idx"
  shows "\<exists>pg. p = page_addr pg \<and> (0, pg) \<in> A" "\<And>j. j < 7 \<Longrightarrow> j \<noteq> idx \<Longrightarrow> p \<notin> class_pages km j"
proof -
  have ok: "page_ok km A idx p" by (rule class_page_ok [OF assms])
  then show "\<exists>pg. p = page_addr pg \<and> (0, pg) \<in> A" unfolding page_ok_def by blast
  show "p \<notin> class_pages km j" if "j < 7" "j \<noteq> idx" for j
    using class_page_ok [OF assms(1) that(1)] page_ok_class [OF ok] that(2) by blast
qed

section \<open>kmalloc of a small block\<close>

definition pop_first :: "nat \<Rightarrow> kmem \<Rightarrow> kmem" where
  "pop_first p km = set_desc p ((desc km p)\<lparr>block_list := tl (block_list (desc km p))\<rparr>) km"

lemma kmalloc_small_eq:
  assumes "sz \<le> MAX_BLOCK_SIZE" "idx = find_class (unat sz) 0"
  shows "mblock_part km idx = [] \<Longrightarrow> kmalloc_new (k\<lparr>eflags := set_if INTR_OFF (eflags k)\<rparr>) km idx = None \<Longrightarrow>
      kmalloc k km sz = None"
    "mblock_part km idx = [] \<Longrightarrow> kmalloc_new (k\<lparr>eflags := set_if INTR_OFF (eflags k)\<rparr>) km idx =
        Some (p, k\<lparr>eflags := set_if INTR_OFF (eflags k)\<rparr>, km') \<Longrightarrow> block_list (desc km' p) \<noteq> [] \<Longrightarrow>
      kmalloc k km sz = Some (hd (block_list (desc km' p)), k, pop_first p km')"
    "mblock_part km idx \<noteq> [] \<Longrightarrow> kmalloc_part km idx = (p, km') \<Longrightarrow> block_list (desc km' p) \<noteq> [] \<Longrightarrow>
      kmalloc k km sz = Some (hd (block_list (desc km' p)), k, pop_first p km')"
proof -
  have "unat sz \<le> 2032" using assms(1) by (simp add: MAX_BLOCK_SIZE_def word_le_nat_alt)
  then have sz: "\<not> MAX_BLOCK_SIZE < sz" "idx < 7"
    using assms find_class_small(1) [of "unat sz"] by simp_all
  show "kmalloc k km sz = None" if "mblock_part km idx = []"
      "kmalloc_new (k\<lparr>eflags := set_if INTR_OFF (eflags k)\<rparr>) km idx = None"
    using sz that by (simp add: kmalloc_def critical_section flip: assms(2))
  show "kmalloc k km sz = Some (hd (block_list (desc km' p)), k, pop_first p km')"
    if "mblock_part km idx = []" "kmalloc_new (k\<lparr>eflags := set_if INTR_OFF (eflags k)\<rparr>) km idx =
        Some (p, k\<lparr>eflags := set_if INTR_OFF (eflags k)\<rparr>, km')" "block_list (desc km' p) \<noteq> []"
    using sz that
    by (simp add: kmalloc_def critical_section pop_first_def neq_Nil_conv flip: assms(2)) (auto simp: critical_section)
  show "kmalloc k km sz = Some (hd (block_list (desc km' p)), k, pop_first p km')"
    if "mblock_part km idx \<noteq> []" "kmalloc_part km idx = (p, km')" "block_list (desc km' p) \<noteq> []"
    using sz that
    by (simp add: kmalloc_def critical_section pop_first_def neq_Nil_conv flip: assms(2)) (auto simp: critical_section)
qed

lemma hd_block:
  assumes "distinct bl" "bl \<noteq> []" "set bl \<subseteq> B"
  shows "hd bl \<in> B" "B - set (tl bl) = insert (hd bl) (B - set bl)" "hd bl \<notin> B - set bl"
    "set (tl bl) \<subset> B" "distinct (tl bl)"
  using assms by (cases bl; auto)+

text \<open>The page served from keeps its invariant, and the block leaves its list.\<close>

lemma kmalloc_part_case:
  assumes inv: "kmem_inv k km A" and i: "idx < 7" and ne: "mblock_part km idx \<noteq> []"
  shows "\<exists>p km'. kmalloc_part km idx = (p, km') \<and> block_list (desc km' p) \<noteq> [] \<and>
    kmem_inv k (pop_first p km') A \<and> hd (block_list (desc km' p)) \<notin> live km \<and>
    live (pop_first p km') = insert (hd (block_list (desc km' p))) (live km) \<and>
    hd (block_list (desc km' p)) \<in> blocks_of idx p \<and> p \<in> class_pages (pop_first p km') idx \<and>
    pg_cnt (bd (pop_first p km')) = pg_cnt (bd km) \<and> user_start_idx (bd (pop_first p km')) = user_start_idx (bd km)"
proof -
  obtain p ps where ps: "mblock_part km idx = p # ps" using ne by (cases "mblock_part km idx") auto
  have c: "p \<in> class_pages km idx" using ps by (simp add: class_pages_def)
  have cok: "class_ok km A idx" using inv i by (simp add: kmem_inv_def)
  have pok: "page_ok km A idx p" by (rule class_page_ok [OF inv i c])
  let ?bl = "block_list (desc km p)"
  have bl: "?bl \<noteq> []" "distinct ?bl" "set ?bl \<subseteq> blocks_of idx p" "remain (desc km p) = int (length ?bl)"
    using cok pok ps by (auto simp: class_ok_def page_ok_def)
  obtain p' km' where k1: "kmalloc_part km idx = (p', km')" by fastforce
  define km2 where "km2 = pop_first p km'"
  have km': "p' = p" "desc km' = (desc km)(p := (desc km p)\<lparr>remain := int (length ?bl) - 1\<rparr>)" "bd km' = bd km"
    "mblock_part km' = (if length ?bl = 1 then (mblock_part km)(idx := ps) else mblock_part km)"
    "mblock_full km' = (if length ?bl = 1 then (mblock_full km)(idx := mblock_full km idx @ [p]) else mblock_full km)"
    using k1 ps bl(4) by (auto simp: kmalloc_part_def Let_def set_desc_def split: if_splits)
  have km2: "desc km2 = (desc km)(p := (desc km p)\<lparr>remain := int (length ?bl) - 1, block_list := tl ?bl\<rparr>)"
    "bd km2 = bd km" "mblock_part km2 = mblock_part km'" "mblock_full km2 = mblock_full km'"
    by (simp_all add: km2_def pop_first_def set_desc_def km')
  have t: "touches idx p km A km2 A"
    by (auto simp: touches_def km2 km'(4,5) class_pages_def ps)
  have cp: "class_pages km2 idx = class_pages km idx"
    by (auto simp: class_pages_def km2 km'(4,5) ps)
  have ok: "class_ok km2 A idx"
  proof -
    have d: "distinct (mblock_part km2 idx @ mblock_full km2 idx)"
      using cok ps by (auto simp: class_ok_def km2 km'(4,5))
    have "page_ok km2 A idx q" if "q \<in> class_pages km idx" for q
    proof (cases "q = p")
      case True
      then show ?thesis using pok bl hd_block(4,5) [OF bl(2,1,3)]
        by (auto simp: page_ok_def km2 Suc_leI of_nat_diff)
    next
      case False
      then show ?thesis using page_ok_other [OF t False] class_page_ok [OF inv i that] by simp
    qed
    moreover have "length ?bl = 1 \<longleftrightarrow> tl ?bl = []" using bl(1) by (cases ?bl) auto
    ultimately show ?thesis using cok d cp ps
      by (auto simp: class_ok_def km2 km'(4,5) split: if_splits)
  qed
  note one = page_in_one_class [OF inv i c]
  have "kmem_inv k km2 A"
    using kmem_inv_step [OF inv t _ _ _ ok one(2)] inv by (simp add: km2 kmem_inv_def)
  moreover obtain pg where pg: "p = page_addr pg" using one(1) by blast
  have "live_page km2 idx p = insert (hd ?bl) (live_page km idx p)"
    using hd_block(2) [OF bl(2,1,3)] by (simp add: live_page_def km2)
  then have "live km2 = insert (hd ?bl) (live km)" "hd ?bl \<notin> live km"
    using live_change [OF inv t i pg one(2)] c cp hd_block(1,3) [OF bl(2,1,3)]
    by (auto simp: live_page_def)
  moreover have "block_list (desc km' p) = ?bl" by (simp add: km')
  ultimately show ?thesis
    using k1 km'(1) bl(1) hd_block(1) [OF bl(2,1,3)] c cp km2(2) by (auto simp: km2_def)
qed

lemma buddy_inv_eflags [simp]: "buddy_inv (k\<lparr>eflags := e\<rparr>) b A = buddy_inv k b A"
  by (simp add: buddy_inv_def)

lemma fresh_block_notin: "\<forall>b \<in> A. blk b \<inter> blk (ord, pg) = {} \<Longrightarrow> (ord, pg) \<notin> A"
  using blk_nonempty [of pg ord] by blast

text \<open>A page for an empty class: the kernel pool is exhausted, or the class starts with this page.\<close>

lemma kmalloc_new_case:
  assumes inv: "kmem_inv k km A" and i: "idx < 7" and empty: "mblock_part km idx = []"
    and pool: "\<exists>j \<le> MAX_ORDER. pg_list (kernel_area (bd km) j) \<noteq> []"
  shows "\<exists>p km' pg. kmalloc_new k km idx = Some (p, k, km') \<and> p = page_addr pg \<and> block_list (desc km' p) \<noteq> [] \<and>
    kmem_inv k (pop_first p km') (insert (0, pg) A) \<and> hd (block_list (desc km' p)) \<notin> live km \<and>
    live (pop_first p km') = insert (hd (block_list (desc km' p))) (live km) \<and>
    hd (block_list (desc km' p)) \<in> blocks_of idx p \<and> p \<in> class_pages (pop_first p km') idx \<and>
    pg_cnt (bd (pop_first p km')) = pg_cnt (bd km) \<and> user_start_idx (bd (pop_first p km')) = user_start_idx (bd km)"
proof -
  have "buddy_inv k (bd km) A" using inv by (simp add: kmem_inv_def)
  from alloc_pages_case(2) [OF this, of 0 "kernel_area (bd km)" KERNEL_POOL] pool
  obtain pg b where al: "alloc_pages k (bd km) KERNEL_POOL 0 = Some (pg, k, b)"
    and b: "buddy_inv k b (insert (0, pg) A)" "pg_cnt b = pg_cnt (bd km)"
      "user_start_idx b = user_start_idx (bd km)"
    and fresh: "\<forall>b \<in> A. blk b \<inter> blk (0, pg) = {}"
    and pgs: "pages b = page_taken (pages (bd km)) pg 0"
    by (auto simp: KERNEL_POOL_def)
  define p where "p = page_addr pg"
  let ?bl = "map (\<lambda>i. p + 32 + mem_block_size idx * i) [0..<mem_block_count idx]"
  define A' where "A' = insert (0, pg) A"
  define km' where "km' = set_desc p ((desc km p)\<lparr>count := int (mem_block_count idx),
        remain := int (mem_block_count idx) - 1, mlist_idx := idx, large := False, block_list := ?bl\<rparr>)
        (km\<lparr>bd := b, mblock_part := (mblock_part km)(idx := [p])\<rparr>)"
  have k1: "kmalloc_new k km idx = Some (p, k, km')"
    by (simp add: kmalloc_new_def get_free_page_def al p_def page_addr_def empty km'_def)
  have km': "desc km' = (desc km)(p := (desc km p)\<lparr>count := int (mem_block_count idx),
        remain := int (mem_block_count idx) - 1, mlist_idx := idx, large := False, block_list := ?bl\<rparr>)"
      "bd km' = b" "mblock_part km' = (mblock_part km)(idx := [p])" "mblock_full km' = mblock_full km"
    by (simp_all add: km'_def set_desc_def)
  have bl: "?bl \<noteq> []" "distinct ?bl" "set ?bl \<subseteq> blocks_of idx p" "length ?bl = mem_block_count idx"
    "block_list (desc km' p) = ?bl"
    using class_table [OF i] by (auto simp: blocks_of_def distinct_map inj_on_def km')
  have all: "set ?bl = blocks_of idx p" by (auto simp: blocks_of_def)
  define km2 where "km2 = pop_first p km'"
  have km2: "desc km2 = (desc km)(p := (desc km p)\<lparr>count := int (mem_block_count idx),
        remain := int (mem_block_count idx) - 1, mlist_idx := idx, large := False, block_list := tl ?bl\<rparr>)"
      "bd km2 = b" "mblock_part km2 = (mblock_part km)(idx := [p])" "mblock_full km2 = mblock_full km"
    by (simp_all add: km2_def pop_first_def set_desc_def km')
  have notin: "p \<notin> class_pages km j" if j: "j < 7" for j
  proof
    assume "p \<in> class_pages km j"
    from class_page_ok [OF inv j this] obtain pg' where "p = page_addr pg'" "(0, pg') \<in> A"
      unfolding page_ok_def by blast
    then show False using fresh_block_notin [OF fresh] by (simp add: p_def)
  qed
  have t: "touches idx p km A km2 A'"
    using fresh_block_notin [OF fresh]
    by (auto simp: touches_def km2 class_pages_def empty A'_def pgs p_def page_taken_def)
  have cok: "class_ok km A idx" using inv i by (simp add: kmem_inv_def)
  have ok: "class_ok km2 A' idx"
  proof -
    have "page_ok km2 A' idx p"
      using bl hd_block(4,5) [OF bl(2,1)] class_table [OF i] page_taken_count [of "pages (bd km)" pg 0]
      by (auto simp: page_ok_def km2 A'_def p_def pgs all)
    moreover have "page_ok km2 A' idx q" if "q \<in> set (mblock_full km idx)" for q
      using page_ok_other [OF t] class_page_ok [OF inv i] notin [OF i] that by (metis UnCI class_pages_def)
    moreover have "p \<notin> set (mblock_full km idx)" using notin [OF i] by (simp add: class_pages_def)
    moreover have "tl ?bl \<noteq> []"
      using class_table [OF i] bl(4) by (cases ?bl) (auto simp del: upt_Suc)
    ultimately show ?thesis using cok by (auto simp: class_ok_def class_pages_def km2)
  qed
  have inv2: "kmem_inv k km2 A'"
    using kmem_inv_step [OF inv t _ _ _ ok notin] b by (simp add: km2 A'_def)
  have "live_page km2 idx p = {hd ?bl}"
    using hd_block(2) [OF bl(2,1,3)] unfolding all [symmetric] by (simp add: live_page_def km2 flip: all)
  moreover have c2: "p \<in> class_pages km2 idx" by (simp add: class_pages_def km2)
  ultimately have "live km2 = insert (hd ?bl) (live km)" "hd ?bl \<notin> live km"
    using live_change [OF inv t i p_def notin] notin [OF i] hd_block(1) [OF bl(2,1,3)] by auto
  then show ?thesis
    using k1 p_def bl(1,5) inv2 hd_block(1) [OF bl(2,1,3)] c2 b(2,3) km2(2)
    by (intro exI [of _ p] exI [of _ km'] exI [of _ pg]) (simp add: km2_def A'_def)
qed

section \<open>kfree of a small block\<close>

lemma page_index_bound:
  assumes "buddy_inv k b A" "small_mem b" "(ord, pg) \<in> A"
  shows "pg < pg_cnt b"
proof -
  have "pool_end b \<le> pg_cnt b" by (simp add: pool_end_def div_times_less_eq_dividend)
  then have "pg + 2 ^ ord \<le> pg_cnt b" using buddy_invD(3) [OF assms(1,3)] assms(2)
    by (auto simp: small_mem_def max_def split: if_splits)
  moreover have "0 < (2 :: nat) ^ ord" by simp
  ultimately show ?thesis by linarith
qed

lemma free_page_addr:
  assumes "small_mem b" "direct_map u (pg_cnt b)" "pg < pg_cnt b"
  shows "free_page k b u (page_addr pg) = free_pages_idx k b pg 0"
    "free_pages k b u (page_addr pg) ord = free_pages_idx k b pg ord"
proof -
  have p: "pg < 2 ^ 18" using assms(1,3) by (simp add: small_mem_def)
  then have "unat (of_nat (pg * PG_SIZE) :: u32) = pg * PG_SIZE"
    unfolding unat_of_nat by (simp add: PG_SIZE_def)
  moreover have "page_addr pg mod PG_SIZE = 0" by (simp add: page_addr_def PG_SIZE_def KERNEL_VADDR_START_def mod_add_eq)
  moreover have "get_paddr u (of_nat (page_addr pg)) = Some (of_nat (pg * PG_SIZE))"
    using assms(2,3) by (simp add: direct_map_def)
  moreover have "0 < PG_SIZE" by (simp add: PG_SIZE_def)
  ultimately show "free_page k b u (page_addr pg) = free_pages_idx k b pg 0"
    "free_pages k b u (page_addr pg) ord = free_pages_idx k b pg ord"
    by (simp_all add: free_page_def free_pages_def paddr2pg_def del: of_nat_mult)
qed

lemma append_block:
  assumes "a \<in> B" "a \<notin> set bl" "distinct bl" "set bl \<subset> B"
  shows "distinct (bl @ [a])" "set (bl @ [a]) \<subseteq> B" "B - set (bl @ [a]) = (B - set bl) - {a}"
  using assms by auto

text \<open>The block goes back on its page's list, and the page from the full to the part list if need be.\<close>

lemma put_back_case:
  assumes inv: "kmem_inv k km A" and i: "idx < 7" and c: "p \<in> class_pages km idx"
    and a: "a \<in> blocks_of idx p" "a \<notin> set (block_list (desc km p))"
    and more: "Suc (length (block_list (desc km p))) < mem_block_count idx"
    and d': "desc km' = (desc km)(p := (desc km p)\<lparr>remain := remain (desc km p) + 1, block_list := block_list (desc km p) @ [a]\<rparr>)"
    and b': "bd km' = bd km"
    and l: "\<And>j. j \<noteq> idx \<Longrightarrow> mblock_part km' j = mblock_part km j \<and> mblock_full km' j = mblock_full km j"
    and cp: "class_pages km' idx = class_pages km idx" "distinct (mblock_part km' idx @ mblock_full km' idx)"
      "p \<in> set (mblock_part km' idx)" "set (mblock_full km' idx) = set (mblock_full km idx) - {p}"
      "set (mblock_part km' idx) = insert p (set (mblock_part km idx))"
  shows "kmem_inv k km' A \<and> live km' = live km - {a}"
proof -
  let ?bl = "block_list (desc km p)"
  have pok: "page_ok km A idx p" by (rule class_page_ok [OF inv i c])
  then have bl: "distinct ?bl" "set ?bl \<subset> blocks_of idx p" "remain (desc km p) = int (length ?bl)"
    by (simp_all add: page_ok_def)
  note ab = append_block [OF a bl(1,2)]
  have t: "touches idx p km A km' A"
    using l cp(1) by (auto simp: touches_def d' b')
  have sub: "set (?bl @ [a]) \<subset> blocks_of idx p"
  proof -
    have "card (set (?bl @ [a])) = Suc (length ?bl)" using distinct_card [OF ab(1)] by simp
    then have "set (?bl @ [a]) \<noteq> blocks_of idx p" using more card_blocks_of [OF i, of p] by auto
    with ab(2) show ?thesis by blast
  qed
  have cok: "class_ok km A idx" using inv i by (simp add: kmem_inv_def)
  have "page_ok km' A idx q" if "q \<in> class_pages km idx" for q
  proof (cases "q = p")
    case True
    then show ?thesis using pok bl ab(1) sub by (auto simp: page_ok_def d' b')
  next
    case False
    then show ?thesis using page_ok_other [OF t False] class_page_ok [OF inv i that] by simp
  qed
  then have ok: "class_ok km' A idx"
    using cok cp by (auto simp: class_ok_def d')
  note one = page_in_one_class [OF inv i c]
  obtain pg where pg: "p = page_addr pg" using one(1) by blast
  have "kmem_inv k km' A"
    using kmem_inv_step [OF inv t _ _ _ ok one(2)] inv by (simp add: b' kmem_inv_def)
  moreover have "live_page km' idx p = live_page km idx p - {a}"
    using ab(3) by (simp add: live_page_def d')
  then have "live km' = live km - {a}"
    using live_change [OF inv t i pg one(2)] c cp(1) a(1) by auto
  ultimately show ?thesis by blast
qed

lemma last_block:
  assumes "distinct bl" "set bl \<subset> B" "finite B" "a \<in> B" "a \<notin> set bl" "Suc (length bl) = card B"
  shows "B - set bl = {a}"
proof -
  have "card (insert a (set bl)) = card B" using assms(1,5,6) by (simp add: distinct_card)
  then have "insert a (set bl) = B" using assms by (intro card_subset_eq) auto
  then show ?thesis using assms(5) by auto
qed

text \<open>The last block of a page gives the page back to the page allocator.\<close>

lemma page_back_case:
  assumes inv: "kmem_inv k km A" and i: "idx < 7" and c: "p \<in> set (mblock_part km idx)"
    and u: "direct_map u (pg_cnt (bd km))"
    and a: "a \<in> blocks_of idx p" "a \<notin> set (block_list (desc km p))"
    and full: "Suc (length (block_list (desc km p))) = mem_block_count idx"
  shows "\<exists>b pg. p = page_addr pg \<and> (0, pg) \<in> A \<and> free_page k (bd km) u p = Some (k, b) \<and>
    (\<forall>km'. desc km' = (desc km)(p := d) \<longrightarrow> bd km' = b \<longrightarrow> mblock_full km' = mblock_full km \<longrightarrow>
      mblock_part km' = (mblock_part km)(idx := remove1 p (mblock_part km idx)) \<longrightarrow>
      kmem_inv k km' (A - {(0, pg)}) \<and> live km' = live km - {a}) \<and>
    pg_cnt b = pg_cnt (bd km)"
proof -
  have cp: "p \<in> class_pages km idx" using c by (simp add: class_pages_def)
  have pok: "page_ok km A idx p" by (rule class_page_ok [OF inv i cp])
  then obtain pg where pg: "p = page_addr pg" "(0, pg) \<in> A" "atomic_read (pg_count (pages (bd km) pg)) = 1"
    unfolding page_ok_def by blast
  have binv: "buddy_inv k (bd km) A" and sm: "small_mem (bd km)" and cok: "class_ok km A idx"
    using inv i by (simp_all add: kmem_inv_def)
  obtain b where b: "free_pages_idx k (bd km) pg 0 = Some (k, b)" "buddy_inv k b (A - {(0, pg)})"
    "user_start_idx b = user_start_idx (bd km)" "pg_cnt b = pg_cnt (bd km)" "\<forall>i. i \<noteq> pg \<longrightarrow> pages b i = pages (bd km) i"
    using free_pages_case [OF binv pg(2)] pg(3) by auto
  have f: "free_page k (bd km) u p = Some (k, b)"
    using free_page_addr(1) [OF sm u page_index_bound [OF binv sm pg(2)], of k] b(1) pg(1) by simp
  have "kmem_inv k km' (A - {(0, pg)}) \<and> live km' = live km - {a}"
    if km': "desc km' = (desc km)(p := d)" "bd km' = b" "mblock_full km' = mblock_full km"
      "mblock_part km' = (mblock_part km)(idx := remove1 p (mblock_part km idx))" for km'
  proof -
    have dist: "distinct (mblock_part km idx)" "p \<notin> set (mblock_full km idx)"
      using cok c by (auto simp: class_ok_def)
    have cp': "class_pages km' idx = class_pages km idx - {p}"
      using dist by (auto simp: class_pages_def km')
    have t: "touches idx p km A km' (A - {(0, pg)})"
      using b(5) pg(1) cp' by (auto simp: touches_def km')
    have "page_ok km' (A - {(0, pg)}) idx q" if "q \<in> class_pages km' idx" for q
      using page_ok_other [OF t] class_page_ok [OF inv i] that cp' by blast
    then have ok: "class_ok km' (A - {(0, pg)}) idx"
      using cok dist by (auto simp: class_ok_def km')
    note one = page_in_one_class [OF inv i cp]
    have "kmem_inv k km' (A - {(0, pg)})"
      using kmem_inv_step [OF inv t _ _ _ ok one(2)] b by (simp add: km')
    moreover have "live_page km idx p = {a}"
      unfolding live_page_def using pok a full card_blocks_of [OF i, of p]
      by (intro last_block) (simp_all add: page_ok_def)
    then have "live km' = live km - {a}"
      using live_change [OF inv t i pg(1) one(2)] cp cp' a(1) by auto
    ultimately show ?thesis by blast
  qed
  then show ?thesis using pg b f by blast
qed

lemma kfree_case:
  assumes inv: "kmem_inv k km A" and u: "direct_map u (pg_cnt (bd km))" and a: "a \<in> live km"
  shows "\<exists>km' A'. kfree k km u a = Some (k, km') \<and> kmem_inv k km' A' \<and> live km' = live km - {a} \<and>
    pg_cnt (bd km') = pg_cnt (bd km) \<and> A' \<subseteq> A"
proof -
  obtain idx p where i: "idx < 7" and c: "p \<in> class_pages km idx" and ab: "a \<in> blocks_of idx p"
    and al: "a \<notin> set (block_list (desc km p))"
    using a unfolding live_def by blast
  have pok: "page_ok km A idx p" by (rule class_page_ok [OF inv i c])
  have cok: "class_ok km A idx" using inv i by (simp add: kmem_inv_def)
  have base: "a div PG_SIZE * PG_SIZE = p" by (rule page_base_of [OF pok i ab])
  have d: "\<not> large (desc km p)" "mlist_idx (desc km p) = idx" "count (desc km p) = int (mem_block_count idx)"
    "remain (desc km p) = int (length (block_list (desc km p)))"
    using pok by (simp_all add: page_ok_def)
  have dist: "distinct (mblock_part km idx)" "distinct (mblock_full km idx)"
    "set (mblock_part km idx) \<inter> set (mblock_full km idx) = {}"
    using cok by (simp_all add: class_ok_def)
  consider "p \<in> set (mblock_full km idx)" | "p \<in> set (mblock_part km idx)" "p \<notin> set (mblock_full km idx)"
    using c by (auto simp: class_pages_def)
  then show ?thesis
  proof cases
    case 1
    then have bl: "block_list (desc km p) = []" "p \<notin> set (mblock_part km idx)"
      using cok dist by (auto simp: class_ok_def)
    define km' where "km' = set_desc p ((desc km p)\<lparr>remain := 1, block_list := [a]\<rparr>)
      (km\<lparr>mblock_full := (mblock_full km)(idx := remove1 p (mblock_full km idx)),
          mblock_part := (mblock_part km)(idx := mblock_part km idx @ [p])\<rparr>)"
    have "kfree k km u a = Some (k, km')"
      using 1 bl d by (simp add: kfree_def base Let_def km'_def)
    moreover have "kmem_inv k km' A \<and> live km' = live km - {a}"
      using class_table [OF i] dist 1 bl d
      by (intro put_back_case [OF inv i c ab al]) (auto simp: km'_def set_desc_def class_pages_def)
    ultimately show ?thesis by (auto simp: km'_def set_desc_def)
  next
    case 2
    have len: "length (block_list (desc km p)) < mem_block_count idx"
      using pok psubset_card_mono [of "blocks_of idx p" "set (block_list (desc km p))"] card_blocks_of [OF i, of p]
      by (simp add: page_ok_def distinct_card)
    show ?thesis
    proof (cases "Suc (length (block_list (desc km p))) = mem_block_count idx")
      case True
      let ?d = "(desc km p)\<lparr>remain := remain (desc km p) + 1\<rparr>"
      obtain b pg where b: "free_page k (bd km) u p = Some (k, b)" "pg_cnt b = pg_cnt (bd km)"
        and step: "\<And>km'. desc km' = (desc km)(p := ?d) \<Longrightarrow> bd km' = b \<Longrightarrow> mblock_full km' = mblock_full km \<Longrightarrow>
          mblock_part km' = (mblock_part km)(idx := remove1 p (mblock_part km idx)) \<Longrightarrow>
          kmem_inv k km' (A - {(0, pg)}) \<and> live km' = live km - {a}"
        using page_back_case [OF inv i 2(1) u ab al True, of ?d] by blast
      define km' where "km' = (set_desc p ?d km)
        \<lparr>mblock_part := (mblock_part km)(idx := remove1 p (mblock_part km idx)), bd := b\<rparr>"
      have "kfree k km u a = Some (k, km')"
        using 2 d len True b(1) by (simp add: kfree_def base Let_def km'_def set_desc_def)
      moreover have "kmem_inv k km' (A - {(0, pg)}) \<and> live km' = live km - {a}"
        by (rule step) (simp_all add: km'_def set_desc_def)
      ultimately show ?thesis using b(2)
        by (intro exI [of _ km'] exI [of _ "A - {(0, pg)}"]) (auto simp: km'_def)
    next
      case False
      define km' where "km' = set_desc p ((desc km p)\<lparr>remain := remain (desc km p) + 1,
        block_list := block_list (desc km p) @ [a]\<rparr>) km"
      have "kfree k km u a = Some (k, km')"
        using 2 d len False by (simp add: kfree_def base Let_def km'_def)
      moreover have "kmem_inv k km' A \<and> live km' = live km - {a}"
        using dist 2 d len False
        by (intro put_back_case [OF inv i c ab al]) (auto simp: km'_def set_desc_def class_pages_def)
      ultimately show ?thesis by (auto simp: km'_def set_desc_def)
    qed
  qed
qed

end
