(* ===== verification/Kernel_Map.thy ===== *)
theory Kernel_Map
  imports Paging
begin

text \<open>
  The page tables \<open>pool_init\<close> of kernel/memory.c writes: from the tables of the boot loader, which map the
  first 2 MB, to a direct map of the whole memory above 3 GB.
\<close>

section \<open>The tables \<open>pool_init\<close> fills in\<close>

definition KPTES :: nat where "KPTES = 0x101000"
definition PG_P :: u32 where "PG_P = 1"

text \<open>The three loops at the start of \<open>pool_init\<close>: entries 512 to 1023, the tables after the first one, and
  zero from the end of the memory up to 2 MB.\<close>

definition pt_first :: "(u32 \<Rightarrow> u32) \<Rightarrow> u32 \<Rightarrow> u32" where
  "pt_first f = fold (\<lambda>i f. f(of_nat (KPTES + i * 4) := of_nat (i * 4096) OR PG_P)) [512..<1024] f"

definition pt_rest :: "nat \<Rightarrow> (u32 \<Rightarrow> u32) \<Rightarrow> u32 \<Rightarrow> u32" where
  "pt_rest total_mem_size f = fold (\<lambda>i f.
     fold (\<lambda>j f. f(of_nat (KPTES + 4096 * i + j * 4) := of_nat (i * 1024 * 4096 + j * 4096) OR PG_P)) [0..<1024] f)
     [1..<DIV_ROUND_UP total_mem_size (1024 * 4096)] f"

definition pt_clear :: "nat \<Rightarrow> (u32 \<Rightarrow> u32) \<Rightarrow> u32 \<Rightarrow> u32" where
  "pt_clear total_mem_size f = fold (\<lambda>a f. f(of_nat a := 0))
     (map (\<lambda>n. KPTES + total_mem_size div 4096 * 4 + 4 * n)
       [0..<DIV_ROUND_UP (0x200000 - (KPTES + total_mem_size div 4096 * 4)) 4]) f"

definition pool_tables :: "nat \<Rightarrow> mmu \<Rightarrow> mmu option" where
  "pool_tables total_mem_size m = do {
     ASSERT (512 * 4096 < total_mem_size);
     ASSERT (total_mem_size \<le> 1024 * 1024 * 1024);
     Some (m\<lparr>pm := pt_clear total_mem_size (pt_rest total_mem_size (pt_first (pm m)))\<rparr>) }"

section \<open>Loops that fill a table\<close>

lemma fold_upd_other: "x \<notin> a ` set xs \<Longrightarrow> fold (\<lambda>i f. f(a i := g i)) xs f x = f x"
  by (induction xs arbitrary: f) auto

lemma fold_upd_at:
  "inj_on a (set xs) \<Longrightarrow> i \<in> set xs \<Longrightarrow> fold (\<lambda>i f. f(a i := g i)) xs f (a i) = g i"
proof (induction xs arbitrary: f)
  case (Cons x xs)
  show ?case
  proof (cases "i \<in> set xs")
    case True
    then show ?thesis using Cons by simp
  next
    case False
    then have i: "i = x" "a x \<notin> a ` set xs" using Cons.prems by auto
    show ?thesis unfolding i(1) using fold_upd_other [OF i(2), of g "f(a x := g x)"]
      by (simp only: fold_simps fun_upd_same)
  qed
qed simp

lemma fold_product: "fold (\<lambda>i. fold (h i) js) xs f = fold (\<lambda>p. h (fst p) (snd p)) (List.product xs js) f"
  by (induction xs arbitrary: f) (simp_all add: fold_map comp_def)

definition pte :: "nat \<Rightarrow> u32" where
  "pte pg = of_nat (KPTES + 4 * pg)"

lemma pte_inj: "pg < 2 ^ 20 \<Longrightarrow> qg < 2 ^ 20 \<Longrightarrow> pte pg = pte qg \<longleftrightarrow> pg = qg"
proof -
  assume "pg < 2 ^ 20" "qg < 2 ^ 20"
  then have "unat (pte pg) = KPTES + 4 * pg" "unat (pte qg) = KPTES + 4 * qg"
    unfolding pte_def unat_of_nat by (simp_all add: KPTES_def)
  then show ?thesis by (metis add_left_cancel mult_left_cancel zero_neq_numeral)
qed

lemma pt_first_eq: "pt_first f = fold (\<lambda>i f. f(pte i := of_nat (i * 4096) OR PG_P)) [512..<1024] f"
  unfolding pt_first_def pte_def by (simp only: mult.commute)

lemma pt_rest_eq:
  "pt_rest msz f = fold (\<lambda>p f. f(pte (1024 * fst p + snd p) := of_nat ((1024 * fst p + snd p) * 4096) OR PG_P))
     (List.product [1..<DIV_ROUND_UP msz (1024 * 4096)] [0..<1024]) f"
proof -
  have "of_nat (KPTES + 4096 * i + j * 4) = pte (1024 * i + j)" for i j
    unfolding pte_def by (rule arg_cong [where f = of_nat]) simp
  moreover have "(of_nat (i * 1024 * 4096 + j * 4096) :: u32) = of_nat ((1024 * i + j) * 4096)" for i j
    by (rule arg_cong [where f = of_nat]) simp
  ultimately show ?thesis unfolding pt_rest_def fold_product by (simp only:)
qed

lemma pt_clear_eq:
  "pt_clear msz f = fold (\<lambda>n f. f(pte (msz div 4096 + n) := 0))
     [0..<DIV_ROUND_UP (0x200000 - (KPTES + msz div 4096 * 4)) 4] f"
  by (simp add: pt_clear_def fold_map comp_def pte_def algebra_simps)

text \<open>What a loop over page numbers leaves in the entry of page \<open>pg\<close>.\<close>

lemma fill_at:
  assumes "set xs \<subseteq> {..<2 ^ 20}" "pg < 2 ^ 20"
  shows "fold (\<lambda>i f. f(pte i := g i)) xs f (pte pg) = (if pg \<in> set xs then g pg else f (pte pg))"
proof (cases "pg \<in> set xs")
  case True
  have "inj_on pte (set xs)" using pte_inj assms(1) by (auto simp: inj_on_def)
  from fold_upd_at [OF this True] True show ?thesis by simp
next
  case False
  then have "pte pg \<notin> pte ` set xs" using pte_inj assms by auto
  from fold_upd_other [OF this] False show ?thesis by simp
qed

lemma fill_other:
  "x \<notin> pte ` set xs \<Longrightarrow> fold (\<lambda>i f. f(pte i := g i)) xs f x = f x"
  by (rule fold_upd_other)

definition first_pages :: "nat list" where "first_pages = [512..<1024]"

definition rest_pages :: "nat \<Rightarrow> nat list" where
  "rest_pages d = map (\<lambda>p. 1024 * fst p + snd p) (List.product [1..<d] [0..<1024])"

lemma set_first_pages: "set first_pages = {512..<1024}"
  by (simp only: first_pages_def set_upt)

lemma set_rest_pages: "set (rest_pages d) = {1024..<1024 * d}"
proof -
  have "x \<in> set (rest_pages d)" if "1024 \<le> x" "x < 1024 * d" for x
  proof -
    have "x = (\<lambda>p. 1024 * fst p + snd p) (x div 1024, x mod 1024)" by simp
    moreover have "1 \<le> x div 1024" "x div 1024 < d" using that by auto
    then have "(x div 1024, x mod 1024) \<in> set (List.product [1..<d] [0..<1024])"
      by (simp only: set_product set_upt mem_Sigma_iff atLeastLessThan_iff) simp
    ultimately show ?thesis unfolding rest_pages_def set_map by (rule image_eqI)
  qed
  moreover have "1024 \<le> x \<and> x < 1024 * d" if x: "x \<in> set (rest_pages d)" for x
  proof -
    obtain i j where "x = 1024 * i + j" "1 \<le> i" "i < d" "j < 1024"
      using x unfolding rest_pages_def set_map set_product set_upt by auto
    moreover have "1024 * i + 1024 \<le> 1024 * d" using \<open>i < d\<close> by (metis Suc_leI mult_Suc_right mult_le_mono2 add.commute)
    ultimately show ?thesis by linarith
  qed
  ultimately show ?thesis by auto
qed

lemma pt_first_fill: "pt_first f = fold (\<lambda>i f. f(pte i := of_nat (i * 4096) OR PG_P)) first_pages f"
  unfolding pt_first_eq first_pages_def ..

lemma pt_rest_fill:
  "pt_rest msz f = fold (\<lambda>i f. f(pte i := of_nat (i * 4096) OR PG_P)) (rest_pages (DIV_ROUND_UP msz (1024 * 4096))) f"
  unfolding pt_rest_eq rest_pages_def fold_map comp_def ..

definition clear_pages :: "nat \<Rightarrow> nat list" where
  "clear_pages n = map (\<lambda>i. n + i) [0..<DIV_ROUND_UP (0x200000 - (KPTES + n * 4)) 4]"

lemma set_clear_pages: "x \<in> set (clear_pages n) \<longleftrightarrow> n \<le> x \<and> x < 261120"
proof -
  have "0x200000 - (KPTES + n * 4) = 4 * (261120 - n)" by (simp add: KPTES_def)
  then have K: "DIV_ROUND_UP (0x200000 - (KPTES + n * 4)) 4 = 261120 - n" by (simp add: DIV_ROUND_UP_def)
  have "x \<in> set (clear_pages n) \<longleftrightarrow> (\<exists>i. i < 261120 - n \<and> x = n + i)"
    unfolding clear_pages_def set_map set_upt K image_iff Bex_def atLeastLessThan_iff by simp
  also have "\<dots> \<longleftrightarrow> n \<le> x \<and> x < 261120" by presburger
  finally show ?thesis .
qed

lemma pt_clear_fill: "pt_clear msz f = fold (\<lambda>i f. f(pte i := 0)) (clear_pages (msz div 4096)) f"
  unfolding pt_clear_eq clear_pages_def fold_map comp_def ..

definition boot_tables :: "mmu \<Rightarrow> bool" where
  "boot_tables m \<longleftrightarrow> kernel_tables m 512"

lemma unat_pte: "pg < 2 ^ 20 \<Longrightarrow> unat (pte pg) = KPTES + 4 * pg"
  unfolding pte_def unat_of_nat by (simp add: KPTES_def)

definition pool_pm :: "nat \<Rightarrow> (u32 \<Rightarrow> u32) \<Rightarrow> u32 \<Rightarrow> u32" where
  "pool_pm msz f = pt_clear msz (pt_rest msz (pt_first f))"

lemma pages_le: "msz \<le> 1024 * 1024 * 1024 \<Longrightarrow> DIV_ROUND_UP msz (1024 * 4096) \<le> 256"
  by (simp add: DIV_ROUND_UP_le_iff)

lemma pool_pm_pte:
  assumes "msz \<le> 1024 * 1024 * 1024" "pg < 2 ^ 20"
  shows "pool_pm msz f (pte pg) =
    (if msz div 4096 \<le> pg \<and> pg < 261120 then 0
     else if 512 \<le> pg \<and> pg < max 1024 (1024 * DIV_ROUND_UP msz (1024 * 4096)) then of_nat (pg * 4096) OR PG_P
     else f (pte pg))"
proof -
  let ?n = "msz div 4096" and ?D = "DIV_ROUND_UP msz (1024 * 4096)"
  note c = set_clear_pages [of _ "?n"]
  have s1: "set (clear_pages ?n) \<subseteq> {..<2 ^ 20}" 
    by (rule subsetI, drule set_clear_pages [THEN iffD1]) simp
  have s2: "set (rest_pages ?D) \<subseteq> {..<2 ^ 20}" unfolding set_rest_pages using pages_le [OF assms(1)] by auto
  have s3: "set first_pages \<subseteq> {..<2 ^ 20}" unfolding set_first_pages by auto
  have "pool_pm msz f (pte pg) =
    (if ?n \<le> pg \<and> pg < 261120 then 0
     else if 1024 \<le> pg \<and> pg < 1024 * ?D then of_nat (pg * 4096) OR PG_P
     else if 512 \<le> pg \<and> pg < 1024 then of_nat (pg * 4096) OR PG_P
     else f (pte pg))"
    unfolding pool_pm_def pt_clear_fill pt_rest_fill pt_first_fill
      fill_at [OF s1 assms(2)] fill_at [OF s2 assms(2)] fill_at [OF s3 assms(2)] c
      set_rest_pages set_first_pages by simp
  then show ?thesis by auto
qed

lemma pool_pm_below:
  assumes "msz \<le> 1024 * 1024 * 1024" "unat x < KPTES"
  shows "pool_pm msz f x = f x"
proof -
  let ?n = "msz div 4096" and ?D = "DIV_ROUND_UP msz (1024 * 4096)"
  have no: "x \<notin> pte ` set xs" if sub: "set xs \<subseteq> {..<2 ^ 20}" for xs
  proof
    assume "x \<in> pte ` set xs"
    then obtain pg where "x = pte pg" "pg < 2 ^ 20" using sub by blast
    then show False using assms(2) unat_pte by simp
  qed
  have s1: "set (clear_pages ?n) \<subseteq> {..<2 ^ 20}" 
    by (rule subsetI, drule set_clear_pages [THEN iffD1]) simp
  have s2: "set (rest_pages ?D) \<subseteq> {..<2 ^ 20}" unfolding set_rest_pages using pages_le [OF assms(1)] by auto
  have s3: "set first_pages \<subseteq> {..<2 ^ 20}" unfolding set_first_pages by auto
  show ?thesis
    unfolding pool_pm_def pt_clear_fill pt_rest_fill pt_first_fill
      fill_other [OF no [OF s1]] fill_other [OF no [OF s2]] fill_other [OF no [OF s3]] ..
qed

lemma pte_value: "present (of_nat (pg * 4096) OR PG_P) \<and> frame_of (of_nat (pg * 4096) OR PG_P) = of_nat (0x1000 * pg)"
proof -
  have e: "(of_nat (pg * 4096) :: u32) = push_bit 12 (of_nat pg)" by (simp add: push_bit_eq_mult)
  have "bit ((push_bit 12 (of_nat pg) OR PG_P :: u32) AND 1) 0" by (simp add: PG_P_def bit_simps)
  then have "present (push_bit 12 (of_nat pg) OR PG_P)" unfolding present_def by force
  moreover have "frame_of (push_bit 12 (of_nat pg) OR PG_P) = push_bit 12 (of_nat pg)"
    by (intro bit_word_eqI) (auto simp: bits_at bit_simps PG_P_def)
  ultimately show ?thesis unfolding e [symmetric] by (simp add: mult.commute)
qed

lemma pool_tables_map:
  assumes b: "boot_tables m" and sz: "512 * 4096 < msz" "msz \<le> 1020 * 1024 * 1024"
  shows "\<exists>m'. pool_tables msz m = Some m' \<and> cr3 m' = cr3 m \<and> kernel_tables m' (msz div 4096) \<and>
    (\<forall>pg. msz div 4096 \<le> pg \<and> pg < 255 * 1024 \<longrightarrow> pm m' (pte pg) = 0)"
proof -
  have le: "msz \<le> 1024 * 1024 * 1024" using sz by simp
  let ?m = "m\<lparr>pm := pool_pm msz (pm m)\<rparr>" and ?n = "msz div 4096"
  have n: "?n \<le> 261120" using sz(2) by (simp add: div_le_mono)
  have D: "?n \<le> 1024 * DIV_ROUND_UP msz (1024 * 4096)"
  proof -
    have "msz \<le> DIV_ROUND_UP msz (1024 * 4096) * (1024 * 4096)" by (rule DIV_ROUND_UP_ge) simp
    then have "msz div 4096 \<le> DIV_ROUND_UP msz (1024 * 4096) * (1024 * 4096) div 4096" by (rule div_le_mono)
    then show ?thesis by (simp add: mult.commute)
  qed
  have low: "pm ?m (of_nat (0x100c00 + 4 * i)) = pm m (of_nat (0x100c00 + 4 * i))" if "i < 256" for i
  proof -
    have "unat (of_nat (0x100c00 + 4 * i) :: u32) < KPTES" unfolding unat_of_nat using that by (simp add: KPTES_def)
    from pool_pm_below [OF le this] show ?thesis by simp
  qed
  have "frame_of (cr3 m) = 0x100000" using b by (simp add: boot_tables_def kernel_tables_def)
  then have "recursive ?m = recursive m"
    using low [of 255] by (simp add: recursive_def)
  moreover have "present (pm ?m (of_nat (0x101000 + 4 * pg))) \<and> frame_of (pm ?m (of_nat (0x101000 + 4 * pg))) = of_nat (0x1000 * pg)"
    if "pg < ?n" for pg
  proof -
    have e: "of_nat (0x101000 + 4 * pg) = pte pg" by (simp add: pte_def KPTES_def)
    have pg: "pg < 2 ^ 20" using that n by simp
    show ?thesis
    proof (cases "pg < 512")
      case True
      then have "pm ?m (pte pg) = pm m (pte pg)" using pool_pm_pte [OF le pg] that by simp
      then show ?thesis using b True unfolding e [symmetric] boot_tables_def kernel_tables_def Let_def by simp
    next
      case False
      then have "pm ?m (pte pg) = of_nat (pg * 4096) OR PG_P"
        using pool_pm_pte [OF le pg] that D by simp
      then show ?thesis unfolding e using pte_value by simp
    qed
  qed
  ultimately have k: "kernel_tables ?m ?n"
    using b low by (simp add: boot_tables_def kernel_tables_def Let_def)
  have "pm ?m (pte pg) = 0" if "?n \<le> pg" "pg < 255 * 1024" for pg
    using pool_pm_pte [OF le, of pg] that by simp
  moreover have "pool_tables msz m = Some ?m" using sz le by (simp add: pool_tables_def pool_pm_def)
  ultimately show ?thesis using k by auto
qed

section \<open>A boot directory\<close>

definition boot_mmu :: mmu where
  "boot_mmu = \<lparr>cr3 = 0x100000, pm = (\<lambda>a. let n = unat a in
     if n = 0x100ffc then 0x100003
     else if 0x100c00 \<le> n \<and> n < 0x100ffc then of_nat ((0x101 + (n - 0x100c00) div 4) * 4096) OR PG_P
     else if n < 0x101800 then of_nat ((n - 0x101000) div 4 * 4096) OR PG_P else 0)\<rparr>"

lemma boot_mmu_tables: "boot_tables boot_mmu"
proof -
  have "recursive boot_mmu"
    by (simp add: recursive_def boot_mmu_def frame_of_def present_def)
  moreover have "frame_of (cr3 boot_mmu) = 0x100000" by (simp add: boot_mmu_def frame_of_def)
  moreover have "present (pm boot_mmu (of_nat (0x100c00 + 4 * i))) \<and>
      frame_of (pm boot_mmu (of_nat (0x100c00 + 4 * i))) = of_nat (0x101000 + 0x1000 * i)" if i: "i < 255" for i
  proof -
    have "unat (of_nat (0x100c00 + 4 * i) :: u32) = 0x100c00 + 4 * i" unfolding unat_of_nat using i by simp
    then have "pm boot_mmu (of_nat (0x100c00 + 4 * i)) = of_nat ((0x101 + i) * 4096) OR PG_P"
      using i by (simp only: boot_mmu_def Let_def mmu.simps) simp
    moreover have "0x101000 + 0x1000 * i = 0x1000 * (0x101 + i)" by simp
    ultimately show ?thesis by (simp only: pte_value)
  qed
  moreover have "present (pm boot_mmu (of_nat (0x101000 + 4 * pg))) \<and>
      frame_of (pm boot_mmu (of_nat (0x101000 + 4 * pg))) = of_nat (0x1000 * pg)" if pg: "pg < 512" for pg
  proof -
    have "unat (of_nat (0x101000 + 4 * pg) :: u32) = 0x101000 + 4 * pg" unfolding unat_of_nat using pg by simp
    then have "pm boot_mmu (of_nat (0x101000 + 4 * pg)) = of_nat (pg * 4096) OR PG_P"
      using pg by (simp only: boot_mmu_def Let_def mmu.simps) simp
    then show ?thesis by (simp only: pte_value)
  qed
  ultimately show ?thesis
    unfolding boot_tables_def kernel_tables_def Let_def by blast
qed

section \<open>Properties\<close>

text \<open>after \<open>pool_init\<close> the kernel's view of a memory of at most 1020 MB is a direct map: \<open>get_paddr\<close>
  of an address is the address minus 3 GB for every page of the memory, and the page after the
  last one is not mapped.\<close>

theorem pool_init_direct_map:
  assumes "boot_tables m" "512 * 4096 < msz" "msz \<le> 1020 * 1024 * 1024"
  shows "\<exists>m'. pool_tables msz m = Some m' \<and>
    (\<forall>pg < msz div 4096. get_paddr m' (of_nat (pg * 4096 + 0xc0000000)) = Some (of_nat (pg * 4096))) \<and>
    (\<forall>pg. msz div 4096 \<le> pg \<and> pg < 255 * 1024 \<longrightarrow> \<not> present (pm m' (of_nat (0x101000 + 4 * pg))))"
proof -
  obtain m' where m': "pool_tables msz m = Some m'" "kernel_tables m' (msz div 4096)"
    "\<forall>pg. msz div 4096 \<le> pg \<and> pg < 255 * 1024 \<longrightarrow> pm m' (pte pg) = 0"
    using pool_tables_map [OF assms] by blast
  have n: "msz div 4096 \<le> 255 * 1024" using assms(3) by (simp add: div_le_mono)
  have "recursive m'" using m'(2) by (simp add: kernel_tables_def)
  then have "get_paddr m' (of_nat (pg * 4096 + 0xc0000000)) = Some (of_nat (pg * 4096))"
    if "pg < msz div 4096" for pg
    using get_paddr_eq direct_walk [OF m'(2) n that] by blast
  moreover have "\<not> present (pm m' (of_nat (0x101000 + 4 * pg)))" if "msz div 4096 \<le> pg" "pg < 255 * 1024" for pg
    using m'(3) that by (simp add: pte_def KPTES_def present_def)
  ultimately show ?thesis using m'(1) by blast
qed

theorem pool_init_direct_map_witness:
  "\<exists>m'. pool_tables 0x2000000 boot_mmu = Some m' \<and> get_paddr m' 0xc1fff000 = Some 0x1fff000"
proof -
  have "512 * 4096 < (0x2000000 :: nat)" "(0x2000000 :: nat) \<le> 1020 * 1024 * 1024" by simp_all
  from pool_init_direct_map [OF boot_mmu_tables this] obtain m' where
    m': "pool_tables 0x2000000 boot_mmu = Some m'"
      "\<forall>pg < 0x2000000 div 4096. get_paddr m' (of_nat (pg * 4096 + 0xc0000000)) = Some (of_nat (pg * 4096))" by blast
  from m'(2) [rule_format, of "0x1fff"] have "get_paddr m' 0xc1fff000 = Some 0x1fff000" by simp
  then show ?thesis using m'(1) by blast
qed

text \<open>\<open>pool_init\<close> lets 1 GB of memory through its assertion, but for more than 1020 MB it writes a
  256th table, from 0x200000 on, where \<open>mem_map\<close> begins.\<close>

theorem pool_init_table_overlap:
  assumes "1020 * 1024 * 1024 < msz" "msz \<le> 1024 * 1024 * 1024"
  shows "\<exists>m'. pool_tables msz m = Some m' \<and> pm m' 0x200000 = 0x3fc00001"
proof -
  have p: "(261120 :: nat) < 2 ^ 20" by simp
  have "\<not> DIV_ROUND_UP msz (1024 * 4096) \<le> 255"
    using assms(1) by (simp add: DIV_ROUND_UP_le_iff)
  then have D: "256 \<le> DIV_ROUND_UP msz (1024 * 4096)" by simp
  have "(0x200000 :: u32) = pte 261120" by (simp add: pte_def KPTES_def)
  then have "pool_pm msz (pm m) 0x200000 = of_nat (261120 * 4096) OR PG_P"
    using pool_pm_pte [OF assms(2) p, of "pm m"] D by simp
  then show ?thesis using assms by (simp add: pool_tables_def pool_pm_def PG_P_def)
qed

theorem pool_init_table_overlap_witness:
  "\<exists>m'. pool_tables 0x40000000 boot_mmu = Some m' \<and> pm m' 0x200000 = 0x3fc00001"
  by (rule pool_init_table_overlap) simp_all

end
