(* ===== verification/Kmalloc_Clients.thy ===== *)
theory Kmalloc_Clients
  imports Kmalloc Kernel_Map
begin

text \<open>
  What the clients of \<open>kmalloc\<close> and \<open>kfree\<close> see: \<open>kmalloc\<close> as an instance of the allocator contract of
  theory Id_Alloc, blocks that do not overlap, and the large blocks, which are too small.
\<close>

section \<open>Clients\<close>

lemma kmalloc_small_case:
  assumes inv: "kmem_inv k km A" and sz: "sz \<le> MAX_BLOCK_SIZE"
  shows "(kmalloc k km sz = None \<and> (\<forall>j \<le> MAX_ORDER. pg_list (kernel_area (bd km) j) = [])) \<or>
    (\<exists>a km' A' idx p. kmalloc k km sz = Some (a, k, km') \<and> kmem_inv k km' A' \<and> a \<notin> live km \<and>
      live km' = insert a (live km) \<and> idx = find_class (unat sz) 0 \<and> idx < 7 \<and> unat sz \<le> mem_block_size idx \<and>
      a \<in> blocks_of idx p \<and> p \<in> class_pages km' idx \<and> pg_cnt (bd km') = pg_cnt (bd km) \<and>
      user_start_idx (bd km') = user_start_idx (bd km) \<and> (A' = A \<or> (\<exists>pg. A' = insert (0, pg) A)))"
proof -
  define idx where "idx = find_class (unat sz) 0"
  have "unat sz \<le> 2032" using sz by (simp add: MAX_BLOCK_SIZE_def word_le_nat_alt)
  then have i: "idx < 7" "unat sz \<le> mem_block_size idx"
    using find_class_small by (simp_all add: idx_def)
  note eq = kmalloc_small_eq [OF sz idx_def]
  show ?thesis
  proof (cases "mblock_part km idx = []")
    case False
    from kmalloc_part_case [OF inv i(1) False] obtain p km' where
      p: "kmalloc_part km idx = (p, km')" "block_list (desc km' p) \<noteq> []" "kmem_inv k (pop_first p km') A"
        "hd (block_list (desc km' p)) \<notin> live km"
        "live (pop_first p km') = insert (hd (block_list (desc km' p))) (live km)"
        "hd (block_list (desc km' p)) \<in> blocks_of idx p" "p \<in> class_pages (pop_first p km') idx" "pg_cnt (bd (pop_first p km')) = pg_cnt (bd km)"
        "user_start_idx (bd (pop_first p km')) = user_start_idx (bd km)" by blast
    show ?thesis using eq(3) [OF False p(1,2)] p(3-) i idx_def by blast
  next
    case True
    define k0 where "k0 = k\<lparr>eflags := set_if INTR_OFF (eflags k)\<rparr>"
    have inv0: "kmem_inv k0 km A" using inv by (simp add: k0_def kmem_inv_def)
    have bk: "kmem_inv k0 km' A' = kmem_inv k km' A'" for km' A' by (simp add: k0_def kmem_inv_def)
    show ?thesis
    proof (cases "\<exists>j \<le> MAX_ORDER. pg_list (kernel_area (bd km) j) \<noteq> []")
      case pool: True
      from kmalloc_new_case [OF inv0 i(1) True pool] obtain p km' pg where
        p: "kmalloc_new k0 km idx = Some (p, k0, km')" "block_list (desc km' p) \<noteq> []"
          "kmem_inv k (pop_first p km') (insert (0, pg) A)"
          "hd (block_list (desc km' p)) \<notin> live km"
          "live (pop_first p km') = insert (hd (block_list (desc km' p))) (live km)"
          "hd (block_list (desc km' p)) \<in> blocks_of idx p" "p \<in> class_pages (pop_first p km') idx" "pg_cnt (bd (pop_first p km')) = pg_cnt (bd km)"
          "user_start_idx (bd (pop_first p km')) = user_start_idx (bd km)"
        unfolding bk by blast
      show ?thesis using eq(2) [OF True p(1) [unfolded k0_def] p(2)] p(3-) i idx_def by blast
    next
      case pool: False
      have "buddy_inv k0 (bd km) A" using inv0 by (simp add: kmem_inv_def)
      from alloc_pages_case(1) [OF this, of 0 "kernel_area (bd km)" KERNEL_POOL] pool
      have "alloc_pages k0 (bd km) KERNEL_POOL 0 = None" by (auto simp: KERNEL_POOL_def)
      then have "kmalloc_new k0 km idx = None" by (simp add: kmalloc_new_def get_free_page_def)
      then show ?thesis using eq(1) [OF True] pool by (auto simp: k0_def)
    qed
  qed
qed

text \<open>The bytes a block has room for, read off the descriptor of its page.\<close>

definition room :: "kmem \<Rightarrow> nat \<Rightarrow> nat set" where
  "room km a = {a..<a + mem_block_size (mlist_idx (desc km (a div PG_SIZE * PG_SIZE)))}"

lemma room_eq:
  assumes "kmem_inv k km A" "idx < 7" "p \<in> class_pages km idx" "a \<in> blocks_of idx p"
  shows "room km a = {a..<a + mem_block_size idx}"
  using class_page_ok [OF assms(1-3)] page_base_of [OF class_page_ok [OF assms(1-3)] assms(2,4)]
  by (simp add: room_def page_ok_def)

lemma live_blockE:
  assumes "kmem_inv k km A" "a \<in> live km"
  obtains idx pg where "idx < 7" "page_addr pg \<in> class_pages km idx" "a \<in> blocks_of idx (page_addr pg)"
    "(0, pg) \<in> A" "room km a = {a..<a + mem_block_size idx}"
proof -
  obtain idx p where i: "idx < 7" "p \<in> class_pages km idx" "a \<in> blocks_of idx p"
    using assms(2) unfolding live_def by blast
  obtain pg where "p = page_addr pg" "(0, pg) \<in> A"
    using page_in_one_class(1) [OF assms(1) i(1,2)] by blast
  then show thesis using that [of idx pg] i room_eq [OF assms(1) i] by simp
qed

lemma rooms_disjoint:
  assumes inv: "kmem_inv k km A" and a: "a \<in> live km" and b: "b \<in> live km" and neq: "a \<noteq> b"
  shows "room km a \<inter> room km b = {}"
proof -
  from live_blockE [OF inv a] obtain i pg where i: "i < 7" "page_addr pg \<in> class_pages km i"
    "a \<in> blocks_of i (page_addr pg)" "room km a = {a..<a + mem_block_size i}" by metis
  from live_blockE [OF inv b] obtain j qg where j: "j < 7" "page_addr qg \<in> class_pages km j"
    "b \<in> blocks_of j (page_addr qg)" "room km b = {b..<b + mem_block_size j}" by metis
  show ?thesis
  proof (cases "pg = qg")
    case True
    then have "i = j" using page_ok_class [OF class_page_ok [OF inv i(1,2)]] class_page_ok [OF inv j(1,2)] by simp
    moreover obtain x where "a = page_addr pg + 32 + mem_block_size i * x" using i(3) by (auto simp: blocks_of_def)
    moreover obtain y where "b = page_addr qg + 32 + mem_block_size j * y" using j(3) by (auto simp: blocks_of_def)
    moreover have "mem_block_size i * x + mem_block_size i \<le> mem_block_size i * y
        \<or> mem_block_size i * y + mem_block_size i \<le> mem_block_size i * x"
    proof (cases "x < y")
      case True
      then show ?thesis using mult_le_mono2 [of "Suc x" y "mem_block_size i"] by simp
    next
      case False
      then have "y < x" using neq calculation True by (cases "x = y") auto
      then show ?thesis using mult_le_mono2 [of "Suc y" x "mem_block_size i"] by simp
    qed
    ultimately show ?thesis using True i(4) j(4) by auto
  next
    case False
    then have "page_addr pg + PG_SIZE \<le> page_addr qg \<or> page_addr qg + PG_SIZE \<le> page_addr pg"
      by (auto simp: page_addr_def PG_SIZE_def)
    then show ?thesis using block_in_page [OF i(3,1)] block_in_page [OF j(3,1)] i(4) j(4) by auto
  qed
qed

definition kmalloc_of :: "u32 \<Rightarrow> 'a sys_scheme \<times> kmem \<Rightarrow> (nat \<times> 'a sys_scheme \<times> kmem) option" where
  "kmalloc_of sz s = kmalloc (fst s) (snd s) sz"

definition kfree_of :: "mmu \<Rightarrow> 'a sys_scheme \<times> kmem \<Rightarrow> nat \<Rightarrow> ('a sys_scheme \<times> kmem) option" where
  "kfree_of u s a = kfree (fst s) (snd s) u a"

definition kmem_usable :: "mmu \<Rightarrow> nat \<Rightarrow> 'a sys_scheme \<times> kmem \<Rightarrow> bool" where
  "kmem_usable u n s \<longleftrightarrow> (\<exists>A. kmem_inv (fst s) (snd s) A) \<and> pg_cnt (bd (snd s)) = n \<and> direct_map u n"

text \<open>\<open>kmalloc\<close> and \<open>kfree\<close> are an allocator of addresses for requests of at most 2032 bytes.\<close>

interpretation kmem_ids: allocator "kmem_usable u n" UNIV "\<lambda>s. live (snd s)" "\<lambda>sz. sz \<le> MAX_BLOCK_SIZE" kmalloc_of
  "kfree_of u" for u n
proof unfold_locales
  fix s :: "'a sys_scheme \<times> kmem" and r i s'
  assume inv: "kmem_usable u n s" and r: "r \<le> MAX_BLOCK_SIZE" and al: "kmalloc_of r s = Some (i, s')"
  then obtain A where A: "kmem_inv (fst s) (snd s) A" by (auto simp: kmem_usable_def)
  from kmalloc_small_case [OF A r] al obtain km' A' where
    "s' = (fst s, km')" "kmem_inv (fst s) km' A'" "i \<notin> live (snd s)" "live km' = insert i (live (snd s))"
    "pg_cnt (bd km') = pg_cnt (bd (snd s))" by (auto simp: kmalloc_of_def)
  then show "kmem_usable u n s' \<and> i \<in> UNIV \<and> i \<notin> live (snd s) \<and> live (snd s') = insert i (live (snd s))"
    using inv by (auto simp: kmem_usable_def)
next
  fix s :: "'a sys_scheme \<times> kmem" and i
  assume inv: "kmem_usable u n s" and i: "i \<in> live (snd s)"
  then obtain A where A: "kmem_inv (fst s) (snd s) A" by (auto simp: kmem_usable_def)
  have "direct_map u (pg_cnt (bd (snd s)))" using inv by (simp add: kmem_usable_def)
  from kfree_case [OF A this i] obtain km' A' where
    "kfree (fst s) (snd s) u i = Some (fst s, km')" "kmem_inv (fst s) km' A'" "live km' = live (snd s) - {i}"
    "pg_cnt (bd km') = pg_cnt (bd (snd s))" by blast
  then show "\<exists>s'. kfree_of u s i = Some s' \<and> kmem_usable u n s' \<and> live (snd s') = live (snd s) - {i}"
    using inv by (auto simp: kfree_of_def kmem_usable_def)
qed

section \<open>Large blocks\<close>

lemma order_loop_spec: "0 < cnt \<Longrightarrow> \<exists>j. order_loop cnt o' = o' + j \<and> 2 ^ j \<le> cnt \<and> cnt < 2 ^ Suc j"
proof (induction cnt o' rule: order_loop.induct)
  case (1 cnt o')
  show ?case
  proof (cases "1 < cnt")
    case True
    then obtain j where j: "order_loop (cnt div 2) (o' + 1) = o' + 1 + j" "2 ^ j \<le> cnt div 2" "cnt div 2 < 2 ^ Suc j"
      using 1(1) by auto
    have "order_loop cnt o' = o' + Suc j" using True j(1) by (subst order_loop.simps) simp
    moreover have "2 ^ Suc j \<le> cnt" "cnt < 2 ^ Suc (Suc j)" using j(2,3) by auto
    ultimately show ?thesis by blast
  next
    case False
    then have "cnt = 1" using 1(2) by simp
    then show ?thesis by (subst order_loop.simps) (auto intro: exI [of _ 0])
  qed
qed

lemma alloc_pages_order: "alloc_pages k b flag (int ord) = Some r \<Longrightarrow> ord \<le> MAX_ORDER"
  by (auto simp: alloc_pages_def Let_def split_def)

lemma alloc_pages_SomeD:
  assumes "buddy_inv k b A" "alloc_pages k b flag (int ord) = Some (idx, k', b')"
  shows "k' = k" "buddy_inv k b' (insert (ord, idx) A)"
proof -
  note o = alloc_pages_order [OF assms(2)]
  note c = alloc_pages_case [OF assms(1) o refl, of flag]
  from assms(2) have "\<exists>j. ord \<le> j \<and> j \<le> MAX_ORDER \<and> pg_list ((if flag AND USER_POOL \<noteq> 0 then user_area b else kernel_area b) j) \<noteq> []"
    using c(1) by fastforce
  from c(2) [OF this] assms(2) show "k' = k" "buddy_inv k b' (insert (ord, idx) A)" by auto
qed

lemma large_count:
  assumes "sz < 0x40000000"
  shows "unat (sz + 32 + (of_nat PG_SIZE - 1 :: u32)) div PG_SIZE = DIV_ROUND_UP (unat sz + 32) PG_SIZE"
proof -
  have "unat sz < 0x40000000" using assms by (simp add: word_less_nat_alt)
  then have "unat (sz + 32 + 4095) = unat sz + 32 + 4095" by (simp add: unat_word_ariths)
  moreover have "(of_nat PG_SIZE - 1 :: u32) = 4095" by (simp add: PG_SIZE_def)
  ultimately show ?thesis by (simp add: DIV_ROUND_UP_def PG_SIZE_def)
qed

text \<open>The order of the block for a large request: the number of pages rounded down to a power of two.\<close>

definition large_order :: "u32 \<Rightarrow> nat" where
  "large_order sz = order_loop (DIV_ROUND_UP (unat sz + 32) PG_SIZE) 0"

lemma large_order_pages:
  "2 ^ large_order sz \<le> DIV_ROUND_UP (unat sz + 32) PG_SIZE" "DIV_ROUND_UP (unat sz + 32) PG_SIZE < 2 ^ Suc (large_order sz)"
proof -
  have "0 < DIV_ROUND_UP (unat sz + 32) PG_SIZE" by (simp add: DIV_ROUND_UP_def PG_SIZE_def div_greater_zero_iff)
  then obtain j where "large_order sz = 0 + j" "2 ^ j \<le> DIV_ROUND_UP (unat sz + 32) PG_SIZE"
      "DIV_ROUND_UP (unat sz + 32) PG_SIZE < 2 ^ Suc j"
    using order_loop_spec [of _ 0] unfolding large_order_def by blast
  then show "2 ^ large_order sz \<le> DIV_ROUND_UP (unat sz + 32) PG_SIZE"
    "DIV_ROUND_UP (unat sz + 32) PG_SIZE < 2 ^ Suc (large_order sz)" by simp_all
qed

lemma large_room_iff:
  "page_addr pg + 32 + unat sz \<le> page_addr pg + 2 ^ large_order sz * PG_SIZE \<longleftrightarrow>
     DIV_ROUND_UP (unat sz + 32) PG_SIZE = 2 ^ large_order sz"
proof -
  have "page_addr pg + 32 + unat sz \<le> page_addr pg + 2 ^ large_order sz * PG_SIZE \<longleftrightarrow>
      DIV_ROUND_UP (unat sz + 32) PG_SIZE \<le> 2 ^ large_order sz"
    using DIV_ROUND_UP_le_iff [of PG_SIZE "unat sz + 32" "2 ^ large_order sz"] by (simp add: PG_SIZE_def add.commute)
  then show ?thesis using large_order_pages(1) [of sz] by auto
qed

lemma kmalloc_large_case:
  assumes inv: "kmem_inv k km A" and sz: "MAX_BLOCK_SIZE < sz" "sz < 0x40000000"
    and pool: "\<exists>j. large_order sz \<le> j \<and> j \<le> MAX_ORDER \<and> pg_list (kernel_area (bd km) j) \<noteq> []"
  shows "\<exists>pg km'. kmalloc k km sz = Some (page_addr pg + 32, k, km') \<and> kmem_inv k km' (insert (large_order sz, pg) A) \<and>
    (\<forall>b \<in> A. blk b \<inter> blk (large_order sz, pg) = {}) \<and> live km' = live km \<and> (\<forall>b \<in> live km. room km' b = room km b) \<and>
    large (desc km' (page_addr pg)) \<and> count (desc km' (page_addr pg)) = int (large_order sz) \<and>
    atomic_read (pg_count (pages (bd km') pg)) = 1 \<and> pg_cnt (bd km') = pg_cnt (bd km) \<and>
    user_start_idx (bd km') = user_start_idx (bd km) \<and> pages (bd km') = page_taken (pages (bd km)) pg (large_order sz) \<and>
    2 ^ large_order sz dvd pg \<and> pg + 2 ^ large_order sz \<le> user_start_idx (bd km)"
proof -
  let ?k = "k\<lparr>eflags := set_if INTR_OFF (eflags k)\<rparr>" and ?o = "large_order sz"
  have b: "buddy_inv ?k (bd km) A" using inv by (simp add: kmem_inv_def)
  have "?o \<le> MAX_ORDER" using pool by auto
  moreover have "kernel_area (bd km) = (if KERNEL_POOL AND USER_POOL \<noteq> 0 then user_area (bd km) else kernel_area (bd km))"
    by (simp add: KERNEL_POOL_def)
  ultimately obtain pg bd' where al: "alloc_pages ?k (bd km) KERNEL_POOL (int ?o) = Some (pg, ?k, bd')"
    and inv': "buddy_inv ?k bd' (insert (?o, pg) A)" and dis: "\<forall>b \<in> A. blk b \<inter> blk (?o, pg) = {}"
    and same: "user_start_idx bd' = user_start_idx (bd km)" "pg_cnt bd' = pg_cnt (bd km)" "pages bd' = page_taken (pages (bd km)) pg ?o"
    and low: "KERNEL_POOL AND USER_POOL \<noteq> 0 \<longleftrightarrow> user_start_idx (bd km) \<le> pg"
    using alloc_pages_case(2) [OF b, of ?o "kernel_area (bd km)" KERNEL_POOL] pool by blast
  have "pg < user_start_idx (bd km)" using low by (simp add: KERNEL_POOL_def)
  then have place: "2 ^ ?o dvd pg" "pg + 2 ^ ?o \<le> user_start_idx (bd km)"
    using buddy_invD [OF inv' insertI1] same(1) by auto
  define p where "p = page_addr pg"
  define km' where "km' = set_desc p ((desc km p)\<lparr>count := int ?o, large := True\<rparr>) (km\<lparr>bd := bd'\<rparr>)"
  have km': "desc km' = (desc km)(p := (desc km p)\<lparr>count := int ?o, large := True\<rparr>)" "bd km' = bd'"
    "mblock_part km' = mblock_part km" "mblock_full km' = mblock_full km"
    by (simp_all add: km'_def set_desc_def)
  have "kmalloc_large ?k km sz = Some (p, ?k, km')"
    unfolding kmalloc_large_def large_count [OF sz(2)] Let_def large_order_def [symmetric] using al
    by (simp add: get_free_pages_def p_def km'_def page_addr_def)
  then have eq: "kmalloc k km sz = Some (page_addr pg + 32, k, km')"
    using sz(1) by (simp add: kmalloc_def critical_section p_def)
  have fresh: "(0, pg) \<notin> A" using dis blk_nonempty [of pg 0] blk_nonempty [of pg "large_order sz"] by blast
  have notin: "p \<notin> class_pages km j" if "j < 7" for j
    using page_in_one_class(1) [OF inv that, of p] fresh by (auto simp: p_def)
  have t: "touches 7 p km A km' (insert (?o, pg) A)"
    by (auto simp: touches_def km' class_pages_def same page_taken_def p_def)
  have "class_ok km' (insert (?o, pg) A) j" if "j < 7" for j
    using class_ok_other [OF t _ _ notin [OF that]] inv that by (simp add: kmem_inv_def)
  then have inv2: "kmem_inv k km' (insert (?o, pg) A)"
    using inv inv' same by (simp add: kmem_inv_def small_mem_def km')
  have c: "class_pages km' j = class_pages km j" for j by (simp add: class_pages_def km')
  have d: "desc km' q = desc km q" if "j < 7" "q \<in> class_pages km j" for j q
    using notin [OF that(1)] that(2) by (auto simp: km')
  then have live: "live km' = live km" unfolding live_def c by (metis (no_types, lifting))
  moreover have "room km' x = room km x" if x: "x \<in> live km" for x
  proof -
    from live_blockE [OF inv x] obtain i qg where i: "i < 7" "page_addr qg \<in> class_pages km i" "x \<in> blocks_of i (page_addr qg)" by metis
    then show ?thesis using room_eq [OF inv i(1,2,3)] room_eq [OF inv2 i(1) _ i(3)] c by simp
  qed
  ultimately show ?thesis using eq inv2 dis same place page_taken_count
    by (intro exI [of _ pg] exI [of _ km']) (simp add: km' p_def)
qed

text \<open>A large block goes back as a whole.\<close>

lemma kfree_large_case:
  assumes inv: "kmem_inv k km A" and u: "direct_map u (pg_cnt (bd km))" and mem: "(ord, pg) \<in> A"
    and d: "large (desc km (page_addr pg))" "count (desc km (page_addr pg)) = int ord"
    and one: "atomic_read (pg_count (pages (bd km) pg)) = 1"
  shows "\<exists>km'. kfree k km u (page_addr pg + 32) = Some (k, km') \<and> kmem_inv k km' (A - {(ord, pg)}) \<and> live km' = live km \<and>
    pg_cnt (bd km') = pg_cnt (bd km) \<and> user_start_idx (bd km') = user_start_idx (bd km)"
proof -
  have binv: "buddy_inv k (bd km) A" and sm: "small_mem (bd km)" using inv by (simp_all add: kmem_inv_def)
  obtain b where b: "free_pages_idx k (bd km) pg (int ord) = Some (k, b)" "buddy_inv k b (A - {(ord, pg)})"
    "user_start_idx b = user_start_idx (bd km)" "pg_cnt b = pg_cnt (bd km)" "\<forall>i. i \<noteq> pg \<longrightarrow> pages b i = pages (bd km) i"
    using free_pages_case [OF binv mem] one by auto
  let ?km = "km\<lparr>bd := b\<rparr>"
  have "(page_addr pg + 32) div PG_SIZE * PG_SIZE = page_addr pg"
    by (simp add: page_addr_def PG_SIZE_def KERNEL_VADDR_START_def)
  then have "kfree k km u (page_addr pg + 32) = Some (k, ?km)"
    using d free_page_addr(2) [OF sm u page_index_bound [OF binv sm mem], of k "int ord"] b(1)
    by (simp add: kfree_def Let_def)
  moreover have t: "touches 7 (page_addr pg) km A ?km (A - {(ord, pg)})"
    using b(5) by (auto simp: touches_def class_pages_def)
  have "page_addr pg \<notin> class_pages km j" if "j < 7" for j
    using class_page_ok [OF inv that, of "page_addr pg"] d(1) by (auto simp: page_ok_def)
  then have "class_ok ?km (A - {(ord, pg)}) j" if "j < 7" for j
    using class_ok_other [OF t] inv that by (simp add: kmem_inv_def)
  then have "kmem_inv k ?km (A - {(ord, pg)})"
    using inv b by (simp add: kmem_inv_def small_mem_def)
  ultimately show ?thesis using b(3,4) by (intro exI [of _ ?km]) (simp add: live_def class_pages_def)
qed

text \<open>An empty set of lists over the 32 MB allocator of theory Buddy, and a direct map.\<close>

definition kmem0 :: kmem where
  "kmem0 = \<lparr>bd = bd32, mblock_part = (\<lambda>_. []), mblock_full = (\<lambda>_. []),
            desc = (\<lambda>_. \<lparr>block_list = [], count = 0, remain = 0, mlist_idx = 0, large = False\<rparr>)\<rparr>"

lemma kmem0_inv: "kmem_inv sys0 kmem0 {}"
  by (simp add: kmem_inv_def kmem0_def bd32_inv small_mem_def class_ok_def class_pages_def)

lemma bd32_kernel_top: "pg_list (kernel_area bd32 MAX_ORDER) \<noteq> []"
proof -
  have "area_inv sys0 0 2048 (kernel_area bd32) {}"
    using bd32_inv by (simp add: buddy_inv_def blocks_below_def)
  from pool_merged(2) [OF this] have "0 \<in> set (pg_list (kernel_area bd32 MAX_ORDER))" by (simp add: MAX_ORDER_def)
  then show ?thesis by auto
qed

lemma kmem0_pool: "\<exists>j \<le> MAX_ORDER. pg_list (kernel_area (bd kmem0) j) \<noteq> []"
  unfolding kmem0_def kmem.simps using bd32_kernel_top by blast

definition mmu32 :: mmu where
  "mmu32 = the (pool_tables 0x2000000 boot_mmu)"

lemma mmu32_map: "direct_map mmu32 8192"
proof -
  have "512 * 4096 < (0x2000000 :: nat)" "(0x2000000 :: nat) \<le> 1020 * 1024 * 1024" by simp_all
  from pool_tables_map [OF boot_mmu_tables this] have t: "kernel_tables mmu32 8192"
    by (auto simp: mmu32_def)
  have r: "recursive mmu32" using t by (simp add: kernel_tables_def)
  have "walk mmu32 (of_nat (page_addr pg)) = Some (of_nat (pg * PG_SIZE))" if "pg < 8192" for pg
    using direct_walk [OF t _ that] by (simp add: page_addr_def PG_SIZE_def KERNEL_VADDR_START_def)
  then show ?thesis unfolding direct_map_def using get_paddr_eq [OF r] by blast
qed

lemma kmem0_usable: "kmem_usable mmu32 8192 (sys0, kmem0)"
  using kmem0_inv mmu32_map bd32_inv by (auto simp: kmem_usable_def kmem0_def)

lemma sz100: "(100 :: u32) \<le> MAX_BLOCK_SIZE" by (simp add: MAX_BLOCK_SIZE_def)

lemma kmalloc_once: "\<exists>a s. kmalloc_of 100 (sys0, kmem0) = Some (a, s) \<and> kmem_usable mmu32 8192 s \<and> a \<in> live (snd s)"
proof -
  obtain a km' where "kmalloc sys0 kmem0 100 = Some (a, sys0, km')"
    using kmalloc_small_case [OF kmem0_inv sz100] kmem0_pool by blast
  then have "kmalloc_of 100 (sys0, kmem0) = Some (a, sys0, km')" by (simp add: kmalloc_of_def)
  then show ?thesis using kmem_ids.alloc_ok [OF kmem0_usable sz100] by blast
qed

section \<open>Properties\<close>

text \<open>C35: \<open>kmalloc\<close> of up to 1 GB. A request of at most 2032 bytes gets a block that was not in use, with room for
  the bytes asked for, apart from all blocks in use; the block is marked used and the invariant kept. A larger
  one gets the address 32 bytes into a fresh run of pages, away from all other pages in use; the blocks in use keep
  their room and the invariant is kept; but there are only as many pages as the largest power of two not above the number needed,
  so the bytes asked for fit into them exactly if the number needed is a power of two. Either way it returns
  if a free list of the kernel pool of the order needed or above has a block.\<close>

theorem kmalloc_correct:
  assumes "kmem_inv k km A" "sz < 0x40000000"
    and "\<exists>j. (if sz \<le> MAX_BLOCK_SIZE then 0 else large_order sz) \<le> j \<and> j \<le> MAX_ORDER \<and> pg_list (kernel_area (bd km) j) \<noteq> []"
  shows "(sz \<le> MAX_BLOCK_SIZE \<longrightarrow> (\<exists>a km' A'. kmalloc k km sz = Some (a, k, km') \<and> kmem_inv k km' A' \<and> a \<notin> live km \<and>
      live km' = insert a (live km) \<and> {a..<a + unat sz} \<subseteq> room km' a \<and>
      (\<forall>b \<in> live km. room km' a \<inter> room km' b = {}))) \<and>
    (MAX_BLOCK_SIZE < sz \<longrightarrow> (\<exists>pg km'. let a = page_addr pg + 32; n = DIV_ROUND_UP (unat sz + 32) PG_SIZE; ord = large_order sz in
      kmalloc k km sz = Some (a, k, km') \<and> kmem_inv k km' (insert (ord, pg) A) \<and>
      (\<forall>b \<in> A. blk b \<inter> blk (ord, pg) = {}) \<and> live km' = live km \<and> (\<forall>b \<in> live km. room km' b = room km b) \<and>
      2 ^ ord \<le> n \<and> n < 2 ^ Suc ord \<and>
      (a + unat sz \<le> page_addr pg + 2 ^ ord * PG_SIZE \<longleftrightarrow> n = 2 ^ ord)))"
proof (cases "sz \<le> MAX_BLOCK_SIZE")
  case True
  with kmalloc_small_case [OF assms(1) True] assms(3) obtain a km' A' idx p where
    k: "kmalloc k km sz = Some (a, k, km')" "kmem_inv k km' A'" "a \<notin> live km" "live km' = insert a (live km)"
      "idx < 7" "unat sz \<le> mem_block_size idx" "a \<in> blocks_of idx p" "p \<in> class_pages km' idx" by auto
  have "room km' a = {a..<a + mem_block_size idx}" by (rule room_eq [OF k(2,5,8,7)])
  moreover have "room km' a \<inter> room km' b = {}" if "b \<in> live km" for b
    using rooms_disjoint [OF k(2), of a b] that k(3,4) by auto
  ultimately have "\<exists>a km' A'. kmalloc k km sz = Some (a, k, km') \<and> kmem_inv k km' A' \<and> a \<notin> live km \<and>
      live km' = insert a (live km) \<and> {a..<a + unat sz} \<subseteq> room km' a \<and> (\<forall>b \<in> live km. room km' a \<inter> room km' b = {})"
    using k by (intro exI [of _ a] exI [of _ km'] exI [of _ A']) auto
  moreover have "\<not> MAX_BLOCK_SIZE < sz" using True by simp
  ultimately show ?thesis by blast
next
  case False
  then have "MAX_BLOCK_SIZE < sz" by simp
  from kmalloc_large_case [OF assms(1) this assms(2)] False assms(3) obtain pg km' where
    "kmalloc k km sz = Some (page_addr pg + 32, k, km')" "kmem_inv k km' (insert (large_order sz, pg) A)"
    "\<forall>b \<in> A. blk b \<inter> blk (large_order sz, pg) = {}" "live km' = live km" "\<forall>b \<in> live km. room km' b = room km b" by auto
  then have "\<exists>pg km'. let a = page_addr pg + 32; n = DIV_ROUND_UP (unat sz + 32) PG_SIZE; ord = large_order sz in
      kmalloc k km sz = Some (a, k, km') \<and> kmem_inv k km' (insert (ord, pg) A) \<and>
      (\<forall>b \<in> A. blk b \<inter> blk (ord, pg) = {}) \<and> live km' = live km \<and> (\<forall>b \<in> live km. room km' b = room km b) \<and>
      2 ^ ord \<le> n \<and> n < 2 ^ Suc ord \<and>
      (a + unat sz \<le> page_addr pg + 2 ^ ord * PG_SIZE \<longleftrightarrow> n = 2 ^ ord)"
    unfolding Let_def using large_order_pages [of sz] large_room_iff [of pg sz for pg] by blast
  then show ?thesis using False by blast
qed

theorem kmalloc_correct_witness:
  "\<exists>a km' A' pg km''. kmalloc sys0 kmem0 100 = Some (a, sys0, km') \<and> kmem_inv sys0 km' A' \<and> live km' = insert a (live kmem0) \<and>
     kmalloc sys0 kmem0 8192 = Some (page_addr pg + 32, sys0, km'') \<and> kmem_inv sys0 km'' {(1, pg)} \<and>
     \<not> page_addr pg + 32 + 8192 \<le> page_addr pg + 2 * PG_SIZE"
proof -
  have o: "large_order 8192 = 1"
    by (simp add: large_order_def DIV_ROUND_UP_def PG_SIZE_def order_loop.simps)
  have s: "(100 :: u32) < 0x40000000" "(8192 :: u32) < 0x40000000" "MAX_BLOCK_SIZE < 8192" "\<not> 8192 \<le> MAX_BLOCK_SIZE"
    by (simp_all add: MAX_BLOCK_SIZE_def)
  have t: "pg_list (kernel_area (bd kmem0) MAX_ORDER) \<noteq> []" "1 \<le> MAX_ORDER"
    using bd32_kernel_top by (simp_all add: kmem0_def MAX_ORDER_def)
  have p1: "\<exists>j. (if (100 :: u32) \<le> MAX_BLOCK_SIZE then 0 else large_order 100) \<le> j \<and> j \<le> MAX_ORDER \<and> pg_list (kernel_area (bd kmem0) j) \<noteq> []"
    using t sz100 by auto
  have p2: "\<exists>j. (if (8192 :: u32) \<le> MAX_BLOCK_SIZE then 0 else large_order 8192) \<le> j \<and> j \<le> MAX_ORDER \<and> pg_list (kernel_area (bd kmem0) j) \<noteq> []"
    using t s(4) o by auto
  have "DIV_ROUND_UP (unat (8192 :: u32) + 32) PG_SIZE = 3" by (simp add: DIV_ROUND_UP_def PG_SIZE_def)
  then have n: "DIV_ROUND_UP (unat (8192 :: u32) + 32) PG_SIZE \<noteq> 2 ^ 1" "unat (8192 :: u32) = 8192" by simp_all
  obtain a km' A' where "kmalloc sys0 kmem0 100 = Some (a, sys0, km')" "kmem_inv sys0 km' A'" "live km' = insert a (live kmem0)"
    using kmalloc_correct [OF kmem0_inv s(1) p1] sz100 by blast
  moreover obtain pg km'' where "kmalloc sys0 kmem0 8192 = Some (page_addr pg + 32, sys0, km'')" "kmem_inv sys0 km'' {(1, pg)}"
    "\<not> page_addr pg + 32 + 8192 \<le> page_addr pg + 2 ^ 1 * PG_SIZE"
    using conjunct2 [OF kmalloc_correct [OF kmem0_inv s(2) p2], rule_format, OF s(3)] n unfolding Let_def o by metis
  ultimately show ?thesis by (metis power_one_right)
qed

text \<open>\<open>kfree\<close> of a block in use returns, frees that block and no other, and keeps the invariant;
  the last block of a page gives the page back.\<close>

theorem kfree_correct:
  assumes "kmem_inv k km A" "direct_map u (pg_cnt (bd km))" "a \<in> live km"
  shows "\<exists>km' A'. kfree k km u a = Some (k, km') \<and> kmem_inv k km' A' \<and> live km' = live km - {a} \<and> A' \<subseteq> A"
  using kfree_case [OF assms] by blast

theorem kfree_correct_witness:
  "\<exists>a s km'. kmalloc_of 100 (sys0, kmem0) = Some (a, s) \<and> kfree (fst s) (snd s) mmu32 a = Some (fst s, km') \<and>
     live km' = live (snd s) - {a}"
proof -
  obtain a s where s: "kmalloc_of 100 (sys0, kmem0) = Some (a, s)" "kmem_usable mmu32 8192 s" "a \<in> live (snd s)"
    using kmalloc_once by blast
  then obtain A where "kmem_inv (fst s) (snd s) A" "direct_map mmu32 (pg_cnt (bd (snd s)))"
    by (auto simp: kmem_usable_def)
  from kfree_correct [OF this s(3)] show ?thesis using s(1) by blast
qed

text \<open>C36: whatever blocks of at most 2032 bytes clients allocate with \<open>kmalloc\<close> and free with \<open>kfree\<close>, in
  whatever order, the blocks they hold at any time are distinct and their bytes do not overlap. Larger requests are
  not part of the run: their blocks may be too small (C35) and then overlap what comes behind them.\<close>

theorem kmalloc_runs_disjoint:
  assumes "kmem_usable u n s" "\<And>sz. Alloc sz \<in> set ops \<Longrightarrow> sz \<le> MAX_BLOCK_SIZE"
    and "allocator.run_ids kmalloc_of (kfree_of u) s [] ops = Some (s', own)"
  shows "kmem_usable u n s' \<and> distinct own \<and>
    (\<forall>a \<in> set own. \<forall>b \<in> set own. a \<noteq> b \<longrightarrow> room (snd s') a \<inter> room (snd s') b = {})"
proof -
  from kmem_ids.run_distinct [OF assms(1) _ _ _ assms(3,2)]
  have r: "kmem_usable u n s'" "distinct own" "set own \<subseteq> live (snd s')" by auto
  then obtain A where "kmem_inv (fst s') (snd s') A" by (auto simp: kmem_usable_def)
  then show ?thesis using r rooms_disjoint by blast
qed

theorem kmalloc_runs_disjoint_witness:
  "\<exists>s' a. allocator.run_ids kmalloc_of (kfree_of mmu32) (sys0, kmem0) [] [Alloc 100] = Some (s', [a]) \<and>
     kmem_usable mmu32 8192 s'"
proof -
  obtain a s where s: "kmalloc_of 100 (sys0, kmem0) = Some (a, s)" using kmalloc_once by blast
  then have run: "allocator.run_ids kmalloc_of (kfree_of mmu32) (sys0, kmem0) [] [Alloc 100] = Some (s, [a])"
    by (simp add: kmem_ids.run_ids.simps)
  have "sz \<le> MAX_BLOCK_SIZE" if "Alloc sz \<in> set [Alloc (100 :: u32)]" for sz using that sz100 by simp
  from kmalloc_runs_disjoint [OF kmem0_usable this run] run show ?thesis by blast
qed

text \<open>a \<open>kmalloc\<close> of more than 2032 bytes rounds the number of pages down to a power of two: the
  block has room for the bytes asked for behind its descriptor only when the number of pages needed
  is itself a power of two.\<close>

theorem kmalloc_large_room:
  assumes "kmem_inv k km A" "MAX_BLOCK_SIZE < sz" "sz < 0x40000000" "kmalloc k km sz = Some (a, k', km')"
  shows "\<exists>ord pg A'. a = page_addr pg + 32 \<and> (ord, pg) \<in> A' \<and> buddy_inv k (bd km') A' \<and>
    (a + unat sz \<le> page_addr pg + 2 ^ ord * PG_SIZE \<longleftrightarrow> DIV_ROUND_UP (unat sz + 32) PG_SIZE = 2 ^ ord)"
proof -
  let ?cnt = "DIV_ROUND_UP (unat sz + 32) PG_SIZE" and ?k = "k\<lparr>eflags := set_if INTR_OFF (eflags k)\<rparr>"
  define ord where "ord = order_loop ?cnt 0"
  have inv: "buddy_inv ?k (bd km) A" using assms(1) by (simp add: kmem_inv_def)
  obtain pg k1 b where al: "alloc_pages ?k (bd km) KERNEL_POOL (int ord) = Some (pg, k1, b)"
    and r: "a = page_addr pg + 32" "bd km' = b"
  proof -
    have "kmalloc_large ?k km sz = do {
        (p, k, b) \<leftarrow> get_free_pages ?k (bd km) KERNEL_POOL (int ord);
        Some (p, k, set_desc p ((desc km p)\<lparr>count := int ord, large := True\<rparr>) (km\<lparr>bd := b\<rparr>)) }"
      unfolding kmalloc_large_def large_count [OF assms(3)] Let_def ord_def by (rule refl)
    then show thesis
      using assms(2,4) that
      by (auto simp: kmalloc_def critical_section get_free_pages_def set_desc_def page_addr_def split: bind_splits)
  qed
  have inv2: "buddy_inv k b (insert (ord, pg) A)" using alloc_pages_SomeD(2) [OF inv al] by simp
  have "0 < ?cnt" by (simp add: DIV_ROUND_UP_def PG_SIZE_def div_greater_zero_iff)
  then obtain j where j: "ord = j" "2 ^ j \<le> ?cnt" using order_loop_spec [of ?cnt 0] by (auto simp: ord_def)
  have "a + unat sz \<le> page_addr pg + 2 ^ ord * PG_SIZE \<longleftrightarrow> ?cnt \<le> 2 ^ ord"
    using DIV_ROUND_UP_le_iff [of PG_SIZE "unat sz + 32" "2 ^ ord"] by (simp add: r PG_SIZE_def add.commute)
  also have "\<dots> \<longleftrightarrow> ?cnt = 2 ^ ord" using j by auto
  finally show ?thesis using r inv2 by (intro exI [of _ ord] exI [of _ pg] exI [of _ "insert (ord, pg) A"]) simp
qed

text \<open>A request of 8192 bytes, the one \<open>pid_init\<close> makes: two pages for 8224 bytes.\<close>

lemma kmalloc_8192: "\<exists>a k' km'. kmalloc sys0 kmem0 8192 = Some (a, k', km')"
proof -
  let ?k = "sys0\<lparr>eflags := set_if INTR_OFF (eflags sys0)\<rparr>"
  have "1 \<le> MAX_ORDER" by (simp add: MAX_ORDER_def)
  moreover have "buddy_inv ?k bd32 {}" using bd32_inv by simp
  moreover have "kernel_area bd32 = (if KERNEL_POOL AND USER_POOL \<noteq> 0 then user_area bd32 else kernel_area bd32)"
    by (simp add: KERNEL_POOL_def)
  ultimately obtain pg b where al: "alloc_pages ?k bd32 KERNEL_POOL (int 1) = Some (pg, ?k, b)"
    using alloc_pages_case(2) [of ?k bd32 "{}" 1 "kernel_area bd32" KERNEL_POOL] bd32_kernel_top by blast
  have o: "order_loop 3 0 = 1" by (simp add: order_loop.simps)
  have "unat (8192 + 32 + (of_nat PG_SIZE - 1 :: u32)) div PG_SIZE = 3" by (simp add: PG_SIZE_def)
  then have "kmalloc_large ?k kmem0 8192 =
      Some (page_addr pg, ?k, set_desc (page_addr pg) ((desc kmem0 (page_addr pg))\<lparr>count := 1, large := True\<rparr>) (kmem0\<lparr>bd := b\<rparr>))"
    unfolding kmalloc_large_def Let_def using al
    by (simp only: o get_free_pages_def) (simp add: kmem0_def page_addr_def)
  then show ?thesis
    by (simp add: kmalloc_def MAX_BLOCK_SIZE_def critical_section)
qed

theorem kmalloc_large_room_witness:
  "\<exists>a k' km' ord pg. kmalloc sys0 kmem0 8192 = Some (a, k', km') \<and> a = page_addr pg + 32 \<and>
     \<not> a + 8192 \<le> page_addr pg + 2 ^ ord * PG_SIZE"
proof -
  obtain a k' km' where k: "kmalloc sys0 kmem0 8192 = Some (a, k', km')" using kmalloc_8192 by blast
  have 3: "DIV_ROUND_UP (unat (8192 :: u32) + 32) PG_SIZE = 3" by (simp add: DIV_ROUND_UP_def PG_SIZE_def)
  have ne: "(3 :: nat) \<noteq> 2 ^ ord" for ord by (cases ord) (auto, presburger)
  have "MAX_BLOCK_SIZE < 8192" "(8192 :: u32) < 0x40000000" by (simp_all add: MAX_BLOCK_SIZE_def)
  from kmalloc_large_room [OF kmem0_inv this k, unfolded 3] obtain ord pg where
    "a = page_addr pg + 32" "a + unat (8192 :: u32) \<le> page_addr pg + 2 ^ ord * PG_SIZE \<longleftrightarrow> 3 = (2 :: nat) ^ ord" by blast
  moreover have "unat (8192 :: u32) = 8192" by simp
  ultimately have "a = page_addr pg + 32 \<and> \<not> a + 8192 \<le> page_addr pg + 2 ^ ord * PG_SIZE" using ne by metis
  then show ?thesis using k by blast
qed

end
