(* ===== verification/Pool_Init.thy ===== *)
theory Pool_Init
  imports Kmalloc_Clients
begin

text \<open>
  \<open>pool_init\<close> of kernel/memory.c as a whole: the page tables (theory Kernel_Map), the page allocator
  above them (\<open>buddy_init\<close>), the reservation of the memory already in use, and the empty lists
  of \<open>kmalloc\<close>.
\<close>

text \<open>The loop that takes the first blocks of the largest order, which are never given back.\<close>

fun reserve :: "nat \<Rightarrow> 'a sys_scheme \<Rightarrow> buddy \<Rightarrow> ('a sys_scheme \<times> buddy) option" where
  "reserve 0 k b = Some (k, b)"
| "reserve (Suc n) k b = do {
     (pg, k, b) \<leftarrow> alloc_pages k b KERNEL_POOL 10;
     reserve n k b }"

definition pool_init :: "nat \<Rightarrow> 'a sys_scheme \<Rightarrow> mmu \<Rightarrow> kmem \<Rightarrow> ('a sys_scheme \<times> mmu \<times> kmem) option" where
  "pool_init total_mem_size k u km = do {
     let saddr = 0x200000;
     u \<leftarrow> pool_tables total_mem_size u;
     (saddr, b) \<leftarrow> buddy_init (bd km) saddr total_mem_size;
     let alloc_pg = (saddr + PG_SIZE - 1) div PG_SIZE;
     (k, b) \<leftarrow> reserve (DIV_ROUND_UP alloc_pg (push_bit MAX_ORDER 1)) k b;
     Some (k, u, km\<lparr>bd := b, mblock_part := (\<lambda>i. if i < 7 then [] else mblock_part km i),
       mblock_full := (\<lambda>i. if i < 7 then [] else mblock_full km i)\<rparr>) }"

lemma alloc_top:
  assumes "alloc_pages k b KERNEL_POOL 10 = Some (pg, k', b')" "nr_free (kernel_area b 10) \<le> 0 \<longrightarrow> pg_list (kernel_area b 10) = []"
  shows "pg_list (kernel_area b 10) = pg # pg_list (kernel_area b' 10)"
    "nr_free (kernel_area b' 10) = nr_free (kernel_area b 10) - 1"
proof -
  have 1: "MAX_ORDER + 1 - nat 10 = Suc 0" "nat 10 = 10" by (simp_all add: MAX_ORDER_def)
  from assms(1) have "0 < nr_free (kernel_area b 10) \<and> pg_list (kernel_area b 10) \<noteq> [] \<and>
      pg = hd (pg_list (kernel_area b 10)) \<and> pg_list (kernel_area b' 10) = tl (pg_list (kernel_area b 10)) \<and>
      nr_free (kernel_area b' 10) = nr_free (kernel_area b 10) - 1"
    unfolding alloc_pages_def 1
    by (auto simp: KERNEL_POOL_def MAX_ORDER_def Let_def split_def area_reverse_def split: if_splits bind_splits)
  then show "pg_list (kernel_area b 10) = pg # pg_list (kernel_area b' 10)"
    "nr_free (kernel_area b' 10) = nr_free (kernel_area b 10) - 1" by auto
qed

lemma init_bitmaps_lists:
  "init_bitmaps n nr s ar = Some (s', ar') \<Longrightarrow> pg_list (ar' j) = pg_list (ar j) \<and> nr_free (ar' j) = nr_free (ar j)"
proof (induction n arbitrary: nr s ar)
  case (Suc n)
  then obtain b where "init_bitmaps n (nr * 2) (s + DIV_ROUND_UP nr 8) (ar(n := (ar n)\<lparr>bmap := b\<rparr>)) = Some (s', ar')"
    by (auto split: bind_splits)
  from Suc.IH [OF this] show ?case by (cases "j = n") auto
qed simp

definition kernel_nr :: "nat \<Rightarrow> nat" where
  "kernel_nr msz = msz div PG_SIZE div 2 ^ MAX_ORDER div 4"

lemma buddy_init_top:
  assumes "buddy_init b saddr msz = Some (s', b')" "areas_zero b"
  shows "pg_list (kernel_area b' 10) = map (\<lambda>i. 1024 * i) [0..<kernel_nr msz]"
    "nr_free (kernel_area b' 10) = int (kernel_nr msz)"
proof -
  have n: "drop_bit MAX_ORDER (msz div PG_SIZE) div 4 = kernel_nr msz"
    by (simp add: kernel_nr_def drop_bit_eq_div)
  define ka where "ka = (kernel_area b)(MAX_ORDER := (kernel_area b MAX_ORDER)\<lparr>nr_free := int (kernel_nr msz),
    pg_list := pg_list (kernel_area b MAX_ORDER) @ map (\<lambda>i. push_bit MAX_ORDER 1 * i) [0..<kernel_nr msz]\<rparr>)"
  obtain s1 ka' where k: "init_bitmaps (MAX_ORDER + 1) (kernel_nr msz) (saddr + msz div PG_SIZE * sizeof_page) ka = Some (s1, ka')"
    and b': "kernel_area b' = ka'"
    using assms(1) unfolding buddy_init_def Let_def n ka_def by (auto split: bind_splits simp del: init_bitmaps.simps)
  have "kernel_area b' 10 = ka' MAX_ORDER" by (simp add: b' MAX_ORDER_def)
  then show "pg_list (kernel_area b' 10) = map (\<lambda>i. 1024 * i) [0..<kernel_nr msz]"
    "nr_free (kernel_area b' 10) = int (kernel_nr msz)"
    using init_bitmaps_lists [OF k, of MAX_ORDER] assms(2) by (simp_all add: ka_def areas_zero_def MAX_ORDER_def)
qed

lemma reserve_case:
  assumes "buddy_inv k b A" "pg_list (kernel_area b 10) = map (\<lambda>i. 1024 * i) [m..<kn]"
    "nr_free (kernel_area b 10) = int (kn - m)" "n \<le> kn - m"
  shows "\<exists>b'. reserve n k b = Some (k, b') \<and> buddy_inv k b' (A \<union> (\<lambda>i. (10, 1024 * i)) ` {m..<m + n}) \<and>
    pg_cnt b' = pg_cnt b \<and> user_start_idx b' = user_start_idx b"
  using assms
proof (induction n arbitrary: b A m)
  case (Suc n)
  have o: "(10 :: nat) \<le> MAX_ORDER" by (simp add: MAX_ORDER_def)
  have l: "[m..<kn] = m # [Suc m..<kn]" using Suc.prems(4) by (simp add: upt_conv_Cons)
  have "\<exists>j. 10 \<le> j \<and> j \<le> MAX_ORDER \<and> pg_list (kernel_area b j) \<noteq> []"
    using o Suc.prems(2) l by auto
  then obtain pg b1 where al: "alloc_pages k b KERNEL_POOL (int 10) = Some (pg, k, b1)"
    "buddy_inv k b1 (insert (10, pg) A)" "pg_cnt b1 = pg_cnt b" "user_start_idx b1 = user_start_idx b"
    using alloc_pages_case(2) [OF Suc.prems(1) o, of "kernel_area b" KERNEL_POOL] by (auto simp: KERNEL_POOL_def)
  have top: "map (\<lambda>i. 1024 * i) [m..<kn] = pg # pg_list (kernel_area b1 10)"
    "nr_free (kernel_area b1 10) = int (kn - m) - 1"
    using alloc_top [of k b pg k b1] al(1) Suc.prems(2,3) by auto
  then have pg: "pg = 1024 * m" "pg_list (kernel_area b1 10) = map (\<lambda>i. 1024 * i) [Suc m..<kn]"
    by (simp_all add: l)
  have "nr_free (kernel_area b1 10) = int (kn - Suc m)" using top(2) Suc.prems(4) by simp
  moreover have "n \<le> kn - Suc m" using Suc.prems(4) by linarith
  ultimately obtain b' where
    b': "reserve n k b1 = Some (k, b')" "buddy_inv k b' (insert (10, pg) A \<union> (\<lambda>i. (10, 1024 * i)) ` {Suc m..<Suc m + n})"
      "pg_cnt b' = pg_cnt b1" "user_start_idx b' = user_start_idx b1"
    using Suc.IH [OF al(2) pg(2)] by blast
  have "{m..<m + Suc n} = insert m {Suc m..<Suc m + n}" by auto
  then have "insert (10, pg) A \<union> (\<lambda>i. (10, 1024 * i)) ` {Suc m..<Suc m + n} = A \<union> (\<lambda>i. (10, 1024 * i)) ` {m..<m + Suc n}"
    using pg(1) by auto
  then show ?case using b' al by (intro exI [of _ b']) simp
qed simp

text \<open>The allocator's own data are small: 36 bytes and a few bits for each page.\<close>

lemma init_bitmaps_end:
  "init_bitmaps n nr s ar = Some (s', ar') \<Longrightarrow> s \<le> s' \<and> 8 * s' + nr \<le> 8 * s + nr * 2 ^ n + 7 * n"
proof (induction n arbitrary: nr s ar)
  case (Suc n)
  then obtain b where "init_bitmaps n (nr * 2) (s + DIV_ROUND_UP nr 8) (ar(n := (ar n)\<lparr>bmap := b\<rparr>)) = Some (s', ar')"
    by (auto split: bind_splits)
  from Suc.IH [OF this] have "s \<le> s'" "8 * s' + nr * 2 \<le> 8 * (s + DIV_ROUND_UP nr 8) + nr * 2 * 2 ^ n + 7 * n" by auto
  moreover have "8 * DIV_ROUND_UP nr 8 \<le> nr + 7" by (simp add: DIV_ROUND_UP_def)
  ultimately show ?case by auto
qed simp

lemma buddy_init_end:
  assumes "buddy_init b saddr msz = Some (s', b')"
  shows "8 * s' \<le> 8 * saddr + 290 * (msz div PG_SIZE) + 154"
proof -
  define P q where "P = msz div PG_SIZE" and "q = drop_bit MAX_ORDER P"
  obtain s1 ka ka' ua ua' where
    k: "init_bitmaps (MAX_ORDER + 1) (q div 4) (saddr + P * sizeof_page) ka = Some (s1, ka')"
    and u: "init_bitmaps (MAX_ORDER + 1) (q - q div 4) s1 ua = Some (s', ua')"
    using assms unfolding buddy_init_def Let_def P_def q_def by (auto split: bind_splits simp del: init_bitmaps.simps)
  have "8 * s' \<le> 8 * (saddr + P * sizeof_page) + ((q div 4) * 2 ^ 11 + (q - q div 4) * 2 ^ 11) + 154"
  proof -
    define c where "c = q - q div 4"
    show ?thesis using init_bitmaps_end [OF k] init_bitmaps_end [OF u] unfolding c_def [symmetric]
      by (simp add: MAX_ORDER_def)
  qed
  moreover have "(q div 4) * 2 ^ 11 + (q - q div 4) * 2 ^ 11 = q * 2 ^ 11"
    by (metis add_mult_distrib div_le_dividend le_add_diff_inverse)
  ultimately have "8 * s' \<le> 8 * (saddr + P * sizeof_page) + q * 2 ^ 11 + 154" by (simp only:)
  moreover have "q * 2 ^ 10 \<le> P" by (simp add: q_def drop_bit_eq_div MAX_ORDER_def)
  ultimately show ?thesis by (simp add: P_def sizeof_page_def)
qed

lemma reserved_fits:
  assumes "buddy_init b 0x200000 msz = Some (s', b')" "16 * 1024 * 1024 \<le> msz"
  shows "s' \<le> 2 ^ 22 * kernel_nr msz" "1 \<le> kernel_nr msz"
proof -
  let ?P = "msz div PG_SIZE"
  have kn: "kernel_nr msz = ?P div 4096" by (simp add: kernel_nr_def MAX_ORDER_def mult.commute flip: div_mult2_eq)
  have P: "4096 \<le> ?P" using assms(2) by (simp add: PG_SIZE_def less_eq_div_iff_mult_less_eq)
  then show "1 \<le> kernel_nr msz" by (simp add: kn less_eq_div_iff_mult_less_eq)
  then have "?P < 4096 * (kernel_nr msz + 1)" by (simp add: kn)
  then show "s' \<le> 2 ^ 22 * kernel_nr msz"
    using buddy_init_end [OF assms(1)] \<open>1 \<le> kernel_nr msz\<close> by simp
qed

section \<open>Properties\<close>

text \<open>C34: \<open>pool_init\<close> on a memory of 16 MB to 1020 MB returns, with the page tables a direct map, the
  invariants of the page allocator and of \<open>kmalloc\<close> established, no block of \<open>kmalloc\<close> in use, and every
  page below the end of the allocator's own data reserved: no page handed out later overlaps it.\<close>

theorem pool_init_correct:
  assumes "boot_tables u" "areas_zero (bd km)" "current k \<noteq> NULL"
    and "16 * 1024 * 1024 \<le> msz" "msz \<le> 1020 * 1024 * 1024"
  shows "\<exists>u' km' A saddr b. pool_init msz k u km = Some (k, u', km') \<and> direct_map u' (pg_cnt (bd km')) \<and>
    kmem_inv k km' A \<and> live km' = {} \<and> pg_cnt (bd km') = msz div PG_SIZE \<and>
    buddy_init (bd km) 0x200000 msz = Some (saddr, b) \<and> {pg. pg * PG_SIZE < saddr} \<subseteq> \<Union> (blk ` A)"
proof -
  have "4 \<le> msz div PG_SIZE div 2 ^ MAX_ORDER"
  proof -
    have "16 * 1024 * 1024 div (4096 * 1024) \<le> msz div (4096 * 1024)" using assms(4) by (rule div_le_mono)
    then show ?thesis by (simp add: PG_SIZE_def MAX_ORDER_def div_mult2_eq)
  qed
  from buddy_init_case(2) [OF assms(2,3) this, of "0x200000"] obtain saddr b where
    b: "buddy_init (bd km) 0x200000 msz = Some (saddr, b)" "buddy_inv k b {}" "pg_cnt b = msz div PG_SIZE"
      "user_start_idx b = msz div PG_SIZE div 2 ^ MAX_ORDER div 4 * 2 ^ MAX_ORDER" by blast
  obtain u' where u: "pool_tables msz u = Some u'" "kernel_tables u' (msz div 4096)"
    using pool_tables_map [OF assms(1) _ assms(5)] assms(4) by auto
  define n where "n = DIV_ROUND_UP ((saddr + PG_SIZE - 1) div PG_SIZE) (push_bit MAX_ORDER 1)"
  note top = buddy_init_top [OF b(1) assms(2)]
  note fits = reserved_fits [OF b(1) assms(4)]
  have "(saddr + PG_SIZE - 1) div PG_SIZE = DIV_ROUND_UP saddr PG_SIZE" by (simp add: DIV_ROUND_UP_def)
  then have n_iff: "n \<le> x \<longleftrightarrow> saddr \<le> x * 1024 * PG_SIZE" for x
    by (simp add: n_def DIV_ROUND_UP_le_iff MAX_ORDER_def PG_SIZE_def)
  have "n \<le> kernel_nr msz - 0" using n_iff fits by (simp add: PG_SIZE_def)
  from reserve_case [OF b(2) top(1) _ this] top(2) obtain b' where
    b': "reserve n k b = Some (k, b')" "buddy_inv k b' ((\<lambda>i. (10, 1024 * i)) ` {0..<n})"
      "pg_cnt b' = pg_cnt b" "user_start_idx b' = user_start_idx b" by auto
  define km' where "km' = km\<lparr>bd := b', mblock_part := (\<lambda>i. if i < 7 then [] else mblock_part km i),
       mblock_full := (\<lambda>i. if i < 7 then [] else mblock_full km i)\<rparr>"
  define A where "A = (\<lambda>i. (10 :: nat, 1024 * i)) ` {0..<n}"
  have run: "pool_init msz k u km = Some (k, u', km')"
    using u(1) b(1) b'(1) by (simp add: pool_init_def km'_def n_def)
  have le: "msz div 4096 \<le> 255 * 1024" using assms(5) by (simp add: div_le_mono)
  have "direct_map u' (pg_cnt (bd km'))"
  proof -
    have r: "recursive u'" using u(2) by (simp add: kernel_tables_def)
    have "walk u' (of_nat (page_addr pg)) = Some (of_nat (pg * PG_SIZE))" if "pg < msz div 4096" for pg
      using direct_walk [OF u(2) le that] by (simp add: page_addr_def PG_SIZE_def KERNEL_VADDR_START_def)
    then show ?thesis unfolding direct_map_def using get_paddr_eq [OF r] b(3) b'(3) by (simp add: km'_def PG_SIZE_def)
  qed
  moreover have "user_start_idx b \<le> pg_cnt b"
  proof -
    have "x div 2 ^ MAX_ORDER div 4 * 2 ^ MAX_ORDER \<le> x" for x :: nat
      using div_times_less_eq_dividend [of x "2 ^ MAX_ORDER"] div_le_dividend [of "x div 2 ^ MAX_ORDER" 4]
      by (meson mult_le_mono1 order_trans)
    then show ?thesis using b(3,4) by simp
  qed
  then have "kmem_inv k km' A"
    using b' b le by (simp add: kmem_inv_def km'_def small_mem_def class_ok_def class_pages_def A_def PG_SIZE_def)
  moreover have "live km' = {}" by (auto simp: live_def class_pages_def km'_def)
  moreover have "{pg. pg * PG_SIZE < saddr} \<subseteq> \<Union> (blk ` A)"
  proof
    fix pg assume "pg \<in> {pg. pg * PG_SIZE < saddr}"
    then have pg: "pg * PG_SIZE < saddr" by simp
    have "\<not> n \<le> pg div 1024"
    proof
      assume "n \<le> pg div 1024"
      then have "saddr \<le> pg div 1024 * 1024 * PG_SIZE" using n_iff by simp
      moreover have "pg div 1024 * 1024 * PG_SIZE \<le> pg * PG_SIZE" by (intro mult_le_mono1) simp
      ultimately show False using pg by simp
    qed
    then have "(10, 1024 * (pg div 1024)) \<in> A" by (simp add: A_def)
    moreover have "pg \<in> blk (10, 1024 * (pg div 1024))" by (simp add: blk.simps)
    ultimately show "pg \<in> \<Union> (blk ` A)" by blast
  qed
  ultimately show ?thesis using run b(1,3) b'(3) by (auto simp: km'_def)
qed

theorem pool_init_correct_witness:
  "\<exists>u' km'. pool_init 0x2000000 sys0 boot_mmu (kmem0\<lparr>bd := bd_zero\<rparr>) = Some (sys0, u', km') \<and>
     direct_map u' (pg_cnt (bd km')) \<and> live km' = {}"
proof -
  have "areas_zero (bd (kmem0\<lparr>bd := bd_zero\<rparr>))" using areas_zero_bd by simp
  moreover have "16 * 1024 * 1024 \<le> (0x2000000 :: nat)" "(0x2000000 :: nat) \<le> 1020 * 1024 * 1024" by simp_all
  ultimately show ?thesis using pool_init_correct [OF boot_mmu_tables _ current_sys0] by blast
qed

end
