(* ===== verification/Printk.thy ===== *)
theory Printk
  imports FizzStr
begin

text \<open>
  lib/fizzlib.c (numbers to digits) and the formatted output of lib/kernel/printk.c and
  lib/user/fizzio.c, over the byte memory of theory FizzStr. The variable arguments are the words
  on the stack: \<open>va_arg\<close> of include/lib/fizzarg.h takes one 32-bit word for each of the types used.
\<close>

section \<open>Numbers\<close>

text \<open>
  The two loops of \<open>itoa\<close> and \<open>uitoa\<close>: how many digits, then the digits from the last one on.
  The radix is taken to be at least 2 (the kernel passes 10 and 16): with 0 the division traps,
  and with 1 the loops do not end.
\<close>

definition radix_ok :: "int \<Rightarrow> bool" where
  "radix_ok radix \<longleftrightarrow> 2 \<le> radix"

lemma c_div_smaller: "v \<noteq> 0 \<Longrightarrow> 2 \<le> r \<Longrightarrow> \<bar>c_div v r\<bar> < \<bar>v\<bar>"
proof -
  assume v: "v \<noteq> 0" and r: "2 \<le> r"
  have n: "0 \<le> \<bar>v\<bar> div r" using r by (simp add: pos_imp_zdiv_nonneg_iff)
  have "\<bar>c_div v r\<bar> = \<bar>\<bar>v\<bar> div r\<bar>"
    using v r by (simp add: c_div_def abs_mult abs_sgn_eq)
  also have "\<dots> = \<bar>v\<bar> div r" using n by simp
  also have "\<dots> < \<bar>v\<bar>" using v r by (intro int_div_less_self) auto
  finally show ?thesis .
qed

function count_digits :: "int \<Rightarrow> int \<Rightarrow> nat" where
  "count_digits num radix =
     (if num \<noteq> 0 \<and> radix_ok radix then Suc (count_digits (c_div num radix) radix) else 0)"
  by pat_completeness auto
termination
  by (relation "measure (\<lambda>(num, radix). nat \<bar>num\<bar>)") (auto simp: radix_ok_def c_div_smaller)

definition digit_char :: "int \<Rightarrow> u8" where
  "digit_char d = (if 10 \<le> d then word_of_int (d + 97 - 10) else word_of_int (d + 48))"

function put_digits :: "int \<Rightarrow> int \<Rightarrow> nat \<Rightarrow> nat \<Rightarrow> mem \<Rightarrow> mem" where
  "put_digits v radix dest idx m =
     (if v \<noteq> 0 \<and> radix_ok radix
      then put_digits (c_div v radix) radix dest (idx - 1) (m(dest + (idx - 1) := digit_char (c_mod v radix)))
      else m)"
  by pat_completeness auto
termination
  by (relation "measure (\<lambda>(v, radix, dest, idx, m). nat \<bar>v\<bar>)") (auto simp: radix_ok_def c_div_smaller)

declare count_digits.simps [simp del] put_digits.simps [simp del]

definition itoa :: "int \<Rightarrow> nat \<Rightarrow> int \<Rightarrow> mem \<Rightarrow> (int \<times> mem) option" where
  "itoa v dest radix m = do {
     ASSERT (radix_ok radix);
     let (dest, v, n, m) = (if v < 0 then (dest + 1, to_int32 (- v), 1, m(dest := 45)) else (dest, v, 0, m));
     if v = 0 then Some (1, m(dest := 48))
     else (let idx = count_digits v radix
           in Some (n + int idx, put_digits v radix dest idx m)) }"

definition uitoa :: "u32 \<Rightarrow> nat \<Rightarrow> int \<Rightarrow> mem \<Rightarrow> (int \<times> mem) option" where
  "uitoa v dest radix m = do {
     ASSERT (radix_ok radix);
     if v = 0 then Some (1, m(dest := 48))
     else (let idx = count_digits (uint v) radix
           in Some (int idx, put_digits (uint v) radix dest idx m)) }"

section \<open>Formatted output\<close>

definition at_idx :: "nat \<Rightarrow> int \<Rightarrow> nat" where
  "at_idx dest i = nat (int dest + i)"

text \<open>
  One conversion: \<open>%d\<close>, \<open>%s\<close>, \<open>%c\<close>, \<open>%x\<close>; \<open>bad\<close> says what any other character does. An argument
  that was not passed is a call without a result.
\<close>

definition convert ::
  "(int \<Rightarrow> u32 list \<Rightarrow> mem \<Rightarrow> (int \<times> u32 list \<times> mem) option) \<Rightarrow> u8 \<Rightarrow> nat \<Rightarrow> int \<Rightarrow> u32 list \<Rightarrow> mem \<Rightarrow>
   (int \<times> u32 list \<times> mem) option" where
  "convert bad c dest i ap m =
     (if c = 100 then
        (case ap of [] \<Rightarrow> None | a # ap \<Rightarrow> do { (n, m) \<leftarrow> itoa (sint a) (at_idx dest i) 10 m; Some (i + n, ap, m) })
      else if c = 115 then
        (case ap of [] \<Rightarrow> None | a # ap \<Rightarrow> do {
           m \<leftarrow> strcpy (at_idx dest i) (unat a) m;
           Some (to_int32 (i + uint (strlen (unat a) m)), ap, m) })
      else if c = 99 then
        (case ap of [] \<Rightarrow> None | a # ap \<Rightarrow> Some (i + 1, ap, m(at_idx dest i := ucast a)))
      else if c = 120 then
        (case ap of [] \<Rightarrow> None | a # ap \<Rightarrow> do { (n, m) \<leftarrow> uitoa a (at_idx dest i) 16 m; Some (i + n, ap, m) })
      else bad i ap m)"

partial_function (option) vsn_loop ::
  "nat \<Rightarrow> u32 \<Rightarrow> nat \<Rightarrow> nat \<Rightarrow> int \<Rightarrow> bool \<Rightarrow> u32 list \<Rightarrow> mem \<Rightarrow> (int \<times> mem) option" where
  "vsn_loop dest sz format source i flag ap m =
     (if m (format + source) \<noteq> 0 \<and> word_of_int i < sz
      then (if m (format + source) \<noteq> 37 \<and> \<not> flag
            then vsn_loop dest sz format (source + 1) (i + 1) flag ap (m(at_idx dest i := m (format + source)))
            else if m (format + source) = 37
            then vsn_loop dest sz format (source + 1) i True ap m
            else Option.bind (convert (\<lambda>_ _ _. PANIC) (m (format + source)) dest i ap m)
              (\<lambda>(i, ap, m). if 500 \<le> i then PANIC else vsn_loop dest sz format (source + 1) i False ap m))
      else Some (i, m(at_idx dest i := 0)))"

definition vsnprint :: "nat \<Rightarrow> u32 \<Rightarrow> nat \<Rightarrow> u32 list \<Rightarrow> mem \<Rightarrow> (int \<times> mem) option" where
  "vsnprint dest sz format ap m = vsn_loop dest sz format 0 0 False ap m"

definition vsprint :: "nat \<Rightarrow> nat \<Rightarrow> u32 list \<Rightarrow> mem \<Rightarrow> (int \<times> mem) option" where
  "vsprint dest format ap m = vsnprint dest (- 1) format ap m"

text \<open>
  \<open>sprintk\<close> and \<open>snprintk\<close> pass their arguments on; \<open>vprintk\<close> formats into \<open>console_buf\<close> and hands
  the buffer to \<open>put_str\<close>: the model returns the memory with the formatted text there.
\<close>

definition sprintk :: "nat \<Rightarrow> nat \<Rightarrow> u32 list \<Rightarrow> mem \<Rightarrow> (int \<times> mem) option" where
  "sprintk dest format ap m = vsprint dest format ap m"

definition snprintk :: "nat \<Rightarrow> u32 \<Rightarrow> nat \<Rightarrow> u32 list \<Rightarrow> mem \<Rightarrow> (int \<times> mem) option" where
  "snprintk dest sz format ap m = vsnprint dest sz format ap m"

text \<open>The user library's copy: an unknown conversion is skipped, and overlong output gives 0.\<close>

partial_function (option) vsn1_loop ::
  "nat \<Rightarrow> u32 \<Rightarrow> nat \<Rightarrow> nat \<Rightarrow> int \<Rightarrow> bool \<Rightarrow> u32 list \<Rightarrow> mem \<Rightarrow> (int \<times> mem) option" where
  "vsn1_loop dest sz format source i flag ap m =
     (if m (format + source) \<noteq> 0 \<and> word_of_int i < sz
      then (if m (format + source) \<noteq> 37 \<and> \<not> flag
            then vsn1_loop dest sz format (source + 1) (i + 1) flag ap (m(at_idx dest i := m (format + source)))
            else if m (format + source) = 37
            then vsn1_loop dest sz format (source + 1) i True ap m
            else Option.bind (convert (\<lambda>i ap m. Some (i, ap, m)) (m (format + source)) dest i ap m)
              (\<lambda>(i, ap, m). if 500 \<le> i then Some (0, m) else vsn1_loop dest sz format (source + 1) i False ap m))
      else Some (i, m(at_idx dest i := 0)))"

definition vsnprint1 :: "nat \<Rightarrow> u32 \<Rightarrow> nat \<Rightarrow> u32 list \<Rightarrow> mem \<Rightarrow> (int \<times> mem) option" where
  "vsnprint1 dest sz format ap m = vsn1_loop dest sz format 0 0 False ap m"

definition vsprint1 :: "nat \<Rightarrow> nat \<Rightarrow> u32 list \<Rightarrow> mem \<Rightarrow> (int \<times> mem) option" where
  "vsprint1 dest format ap m = vsnprint1 dest (- 1) format ap m"

section \<open>Reference definitions\<close>

fun show_nat :: "nat \<Rightarrow> nat \<Rightarrow> u8 list" where
  "show_nat radix n =
     (if radix < 2 \<or> n < radix then [digit_char (int n)]
      else show_nat radix (n div radix) @ [digit_char (int (n mod radix))])"

declare show_nat.simps [simp del]

definition show_int :: "nat \<Rightarrow> int \<Rightarrow> u8 list" where
  "show_int radix v = (if v < 0 then 45 # show_nat radix (nat (- v)) else show_nat radix (nat v))"

definition digit_val :: "u8 \<Rightarrow> nat" where
  "digit_val b = (if 97 \<le> b then unat b - 87 else unat b - 48)"

definition read_nat :: "nat \<Rightarrow> u8 list \<Rightarrow> nat" where
  "read_nat radix bs = foldl (\<lambda>a b. a * radix + digit_val b) 0 bs"

definition read_int :: "nat \<Rightarrow> u8 list \<Rightarrow> int" where
  "read_int radix bs = (case bs of b # ds \<Rightarrow> if b = 45 then - int (read_nat radix ds) else int (read_nat radix bs) | [] \<Rightarrow> 0)"

lemma unat_word_of_int_u8: "n < 256 \<Longrightarrow> unat (word_of_int (int n) :: u8) = n"
  by (simp add: unat_of_nat)

lemma digit_char_nat:
  "digit_char (int d) = (if 10 \<le> d then word_of_int (int (d + 87)) else word_of_int (int (d + 48)))"
  by (simp add: digit_char_def add.commute)

lemma digit_val_char:
  assumes d: "d < 36" shows "digit_val (digit_char (int d)) = d"
proof -
  have "unat (digit_char (int d)) = (if 10 \<le> d then d + 87 else d + 48)"
    unfolding digit_char_nat using d by (auto simp only: unat_word_of_int_u8 split: if_splits)
  then show ?thesis
    using d by (simp add: digit_val_def word_le_nat_alt)
qed

lemma digit_char_not_minus: "d < 36 \<Longrightarrow> digit_char (int d) \<noteq> 45 \<and> digit_char (int d) \<noteq> 0"
proof -
  assume d: "d < 36"
  have "unat (digit_char (int d)) = (if 10 \<le> d then d + 87 else d + 48)"
    unfolding digit_char_nat using d by (auto simp only: unat_word_of_int_u8 split: if_splits)
  then have "unat (digit_char (int d)) \<noteq> unat (45 :: u8)" "unat (digit_char (int d)) \<noteq> unat (0 :: u8)" by auto
  then show ?thesis by metis
qed

section \<open>Reading back what is shown\<close>

lemma show_nat_nonempty [simp]: "show_nat radix n \<noteq> []"
  by (subst show_nat.simps) simp

lemma show_nat_chars:
  "2 \<le> radix \<Longrightarrow> radix \<le> 36 \<Longrightarrow> c \<in> set (show_nat radix n) \<Longrightarrow> \<exists>d < radix. c = digit_char (int d)"
proof (induction radix n rule: show_nat.induct)
  case (1 radix n)
  show ?case
  proof (cases "n < radix")
    case True
    then show ?thesis using 1(2-4) by (subst (asm) show_nat.simps) auto
  next
    case False
    then have "c \<in> set (show_nat radix (n div radix)) \<or> c = digit_char (int (n mod radix))"
      using 1(2,4) by (subst (asm) show_nat.simps) auto
    then show ?thesis
    proof
      assume "c \<in> set (show_nat radix (n div radix))"
      then show ?thesis using 1(1) [OF _ 1(2,3)] 1(2) False by auto
    next
      assume "c = digit_char (int (n mod radix))"
      moreover have "n mod radix < radix" using 1(2) by simp
      ultimately show ?thesis by blast
    qed
  qed
qed

lemma read_show_nat: "2 \<le> radix \<Longrightarrow> radix \<le> 36 \<Longrightarrow> read_nat radix (show_nat radix n) = n"
proof (induction radix n rule: show_nat.induct)
  case (1 radix n)
  show ?case
  proof (cases "n < radix")
    case True
    then show ?thesis using 1(2,3)
      by (subst show_nat.simps) (simp add: read_nat_def digit_val_char)
  next
    case False
    have "n mod radix < 36" using 1(2,3) mod_less_divisor [of radix n] by linarith
    then show ?thesis using 1 False
      by (subst show_nat.simps) (simp add: read_nat_def digit_val_char)
  qed
qed

lemma read_show_int: "2 \<le> radix \<Longrightarrow> radix \<le> 36 \<Longrightarrow> read_int radix (show_int radix v) = v"
proof -
  assume r: "2 \<le> radix" "radix \<le> 36"
  obtain c cs where c: "show_nat radix (nat v) = c # cs" by (cases "show_nat radix (nat v)") auto
  then have "c \<noteq> 45"
    using show_nat_chars [OF r, of c "nat v"] digit_char_not_minus r by force
  then show ?thesis
    using r c read_show_nat [OF r, of "nat v"] by (simp add: read_int_def show_int_def read_show_nat)
qed

section \<open>What the digit loops write\<close>

definition writes :: "mem \<Rightarrow> nat \<Rightarrow> u8 list \<Rightarrow> mem" where
  "writes m p xs = (\<lambda>a. if p \<le> a \<and> a < p + length xs then xs ! (a - p) else m a)"

lemma writes_Nil [simp]: "writes m p [] = m"
  by (auto simp: writes_def fun_eq_iff)

lemma writes_single: "writes m p [x] = m(p := x)"
  by (auto simp: writes_def fun_eq_iff)

lemma writes_append: "writes (writes m p xs) (p + length xs) ys = writes m p (xs @ ys)"
  by (auto simp: writes_def fun_eq_iff nth_append)

lemma writes_snoc: "writes (m(p + length xs := y)) p xs = writes m p (xs @ [y])"
  by (auto simp: writes_def fun_eq_iff nth_append)

lemma count_digits_show:
  "2 \<le> radix \<Longrightarrow> 0 < n \<Longrightarrow> count_digits (int n) (int radix) = length (show_nat radix n)"
proof (induction radix n rule: show_nat.induct)
  case (1 radix n)
  have e: "count_digits (int n) (int radix) = Suc (count_digits (int (n div radix)) (int radix))"
    using 1(2,3) by (subst count_digits.simps) (simp add: radix_ok_def c_div_nonneg zdiv_int)
  show ?case
  proof (cases "n < radix")
    case True
    then show ?thesis unfolding e using 1(2)
      by (subst count_digits.simps, subst show_nat.simps) simp
  next
    case False
    then have "0 < n div radix" using 1(2) by (simp add: div_greater_zero_iff)
    then show ?thesis unfolding e using 1 False by (subst show_nat.simps) simp
  qed
qed

lemma put_digits_show:
  "2 \<le> radix \<Longrightarrow> 0 < n \<Longrightarrow>
   put_digits (int n) (int radix) dest (length (show_nat radix n)) m = writes m dest (show_nat radix n)"
proof (induction radix n arbitrary: m rule: show_nat.induct)
  case (1 radix n)
  let ?k = "length (show_nat radix n)" and ?d = "digit_char (int (n mod radix))"
  have e: "put_digits (int n) (int radix) dest ?k m
      = put_digits (int (n div radix)) (int radix) dest (?k - 1) (m(dest + (?k - 1) := ?d))"
    using 1(2,3)
    by (subst put_digits.simps) (simp add: radix_ok_def c_div_nonneg c_mod_nonneg zdiv_int zmod_int)
  show ?case
  proof (cases "n < radix")
    case True
    then have "show_nat radix n = [digit_char (int n)]" by (subst show_nat.simps) simp
    then show ?thesis unfolding e using 1(2) True
      by (subst put_digits.simps) (simp add: writes_single)
  next
    case False
    then have p: "0 < n div radix" using 1(2) by (simp add: div_greater_zero_iff)
    have s: "show_nat radix n = show_nat radix (n div radix) @ [?d]"
      using False 1(2) by (subst show_nat.simps) simp
    have "put_digits (int n) (int radix) dest ?k m
        = writes (m(dest + length (show_nat radix (n div radix)) := ?d)) dest (show_nat radix (n div radix))"
      unfolding e using 1(1) [OF _ 1(2) p] 1(2) False by (simp add: s)
    then show ?thesis by (simp only: writes_snoc s)
  qed
qed

lemma writes_cons: "writes (m(p := x)) (p + 1) xs = writes m p (x # xs)"
  by (auto simp: writes_def fun_eq_iff nth_Cons' Suc_diff_le)

lemma writes_over:
  "length zs \<le> length ys \<Longrightarrow> writes (writes m p (xs @ zs)) (p + length xs) ys = writes m p (xs @ ys)"
  by (auto simp: writes_def fun_eq_iff nth_append)

lemma writes_outside: "a < p \<or> p + length xs \<le> a \<Longrightarrow> writes m p xs a = m a"
  by (auto simp: writes_def)

lemma show_nat_0: "2 \<le> radix \<Longrightarrow> show_nat radix 0 = [48]"
  by (subst show_nat.simps) (simp add: digit_char_def)

lemma itoa_show:
  assumes v: "- 2147483648 < v" "v < 2147483648" and r: "2 \<le> radix"
  shows "itoa v dest (int radix) m
       = Some (int (length (show_int radix v)), writes m dest (show_int radix v))"
proof -
  have ok: "radix_ok (int radix)" using r by (simp add: radix_ok_def)
  consider "v < 0" | "v = 0" | "0 < v" by linarith
  then show ?thesis
  proof cases
    case 1
    define n where "n = nat (- v)"
    have n: "- v = int n" "0 < n" "to_int32 (- v) = int n"
      using 1 v by (simp_all add: n_def to_int32_id)
    have "itoa v dest (int radix) m = Some (1 + int (length (show_nat radix n)),
        writes (m(dest := 45)) (dest + 1) (show_nat radix n))"
      using 1 n ok r by (simp add: itoa_def count_digits_show put_digits_show)
    also have "\<dots> = Some (int (length (45 # show_nat radix n)), writes m dest (45 # show_nat radix n))"
      by (simp only: writes_cons) simp
    finally show ?thesis using 1 by (simp add: show_int_def n_def)
  next
    case 2
    then show ?thesis using ok r by (simp add: itoa_def show_int_def show_nat_0 writes_single)
  next
    case 3
    then obtain n where n: "v = int n" "0 < n" by (metis zero_less_imp_eq_int)
    then show ?thesis using ok r
      by (simp add: itoa_def show_int_def count_digits_show put_digits_show)
  qed
qed

lemma uitoa_show:
  assumes r: "2 \<le> radix"
  shows "uitoa v dest (int radix) m
       = Some (int (length (show_nat radix (unat v))), writes m dest (show_nat radix (unat v)))"
proof (cases "v = 0")
  case True
  then show ?thesis using r by (simp add: uitoa_def radix_ok_def show_nat_0 writes_single)
next
  case False
  then have "uint v = int (unat v)" "0 < unat v" by (simp_all add: word_neq_0_conv unat_gt_0)
  then show ?thesis using r False
    by (simp add: uitoa_def radix_ok_def count_digits_show put_digits_show del: of_nat_unat uint_nat)
qed

section \<open>Format strings\<close>

text \<open>
  The reference: a format string is a sequence of items, each with its text in the format, the
  argument word it takes and the bytes it stands for.
\<close>

datatype item = Lit u8 | Dec u32 | Hex u32 | Chr u32 | Str nat "u8 list"

fun item_text :: "item \<Rightarrow> u8 list" where
  "item_text (Lit c) = [c]"
| "item_text (Dec _) = [37, 100]"
| "item_text (Hex _) = [37, 120]"
| "item_text (Chr _) = [37, 99]"
| "item_text (Str _ _) = [37, 115]"

fun item_arg :: "item \<Rightarrow> u32 list" where
  "item_arg (Lit _) = []"
| "item_arg (Dec w) = [w]"
| "item_arg (Hex w) = [w]"
| "item_arg (Chr w) = [w]"
| "item_arg (Str p _) = [of_nat p]"

fun item_out :: "item \<Rightarrow> u8 list" where
  "item_out (Lit c) = [c]"
| "item_out (Dec w) = show_int 10 (sint w)"
| "item_out (Hex w) = show_nat 16 (unat w)"
| "item_out (Chr w) = [ucast w]"
| "item_out (Str _ xs) = xs"

text \<open>
  The items the routine prints: no literal NUL or percent sign, not the smallest \<open>int\<close>, and strings of
  fewer than 100 bytes that lie outside the 500 bytes of output \<open>lo\<close> to \<open>lo + 499\<close>.
\<close>

fun item_ok :: "mem \<Rightarrow> nat \<Rightarrow> item \<Rightarrow> bool" where
  "item_ok m lo (Lit c) = (c \<noteq> 0 \<and> c \<noteq> 37)"
| "item_ok m lo (Dec w) = (w \<noteq> 0x80000000)"
| "item_ok m lo (Hex _) = True"
| "item_ok m lo (Chr _) = True"
| "item_ok m lo (Str p xs) =
     (cstr m p xs \<and> length xs < 100 \<and> p < 2 ^ 32 \<and> (p + length xs < lo \<or> lo + 500 \<le> p))"

definition items_text :: "item list \<Rightarrow> u8 list" where
  "items_text fs = concat (map item_text fs)"

definition items_args :: "item list \<Rightarrow> u32 list" where
  "items_args fs = concat (map item_arg fs)"

definition items_out :: "item list \<Rightarrow> u8 list" where
  "items_out fs = concat (map item_out fs)"

lemma items_simps [simp]:
  "items_text [] = []" "items_text (f # fs) = item_text f @ items_text fs"
  "items_args [] = []" "items_args (f # fs) = item_arg f @ items_args fs"
  "items_out [] = []" "items_out (f # fs) = item_out f @ items_out fs"
  by (simp_all add: items_text_def items_args_def items_out_def)

lemma item_ok_cong:
  "(\<And>a. a < lo \<or> lo + 500 \<le> a \<Longrightarrow> m' a = m a) \<Longrightarrow> item_ok m' lo f = item_ok m lo f"
proof (cases f)
  case (Str p xs)
  assume m: "\<And>a. a < lo \<or> lo + 500 \<le> a \<Longrightarrow> m' a = m a"
  have "p + length xs < lo \<or> lo + 500 \<le> p \<Longrightarrow> cstr m' p xs = cstr m p xs"
    by (intro cstr_cong m) auto
  then show ?thesis using Str by auto
qed auto

lemma strcpy_writes:
  assumes "cstr m src xs" "dest \<le> src \<or> src + length xs < dest"
  shows "strcpy dest src m = Some (writes m dest (xs @ [0]))"
proof -
  obtain m' where m': "strcpy dest src m = Some m'" "cstr m' dest xs"
    "\<forall>a. a < dest \<or> dest + length xs < a \<longrightarrow> m' a = m a"
    using strcpy_cstr [OF assms] by blast
  have "m' a = writes m dest (xs @ [0]) a" for a
  proof (cases "dest \<le> a \<and> a < dest + Suc (length xs)")
    case True
    define i where "i = a - dest"
    have i: "a = dest + i" "i \<le> length xs" using True by (auto simp: i_def)
    then show ?thesis using m'(2)
      by (cases "i = length xs") (auto simp: cstr_def writes_def nth_append)
  next
    case False
    then show ?thesis using m'(3) by (auto simp: writes_def)
  qed
  then show ?thesis using m'(1) by (simp add: fun_eq_iff)
qed

lemma strlen_uint:
  "cstr m s xs \<Longrightarrow> length xs < 100 \<Longrightarrow> uint (strlen s m) = int (length xs)"
  using strlen_from_cstr [of m s 0 xs] by (simp add: strlen_def uint_nat unat_of_nat)

text \<open>One conversion, with at most the closing NUL of \<open>strcpy\<close> after its output.\<close>

lemma convert_item:
  assumes f: "item_ok m lo f" "\<nexists>c. f = Lit c" and lo: "lo = dest"
    and l: "k + length (item_out f) < 500"
  shows "\<exists>zs. length zs \<le> 1 \<and>
    convert bad (item_text f ! 1) dest (int k) (item_arg f @ ap) m
      = Some (int (k + length (item_out f)), ap, writes m (dest + k) (item_out f @ zs))"
proof (cases f)
  case (Lit c)
  then show ?thesis using f by simp
next
  case (Dec w)
  have "sint w \<noteq> - 2147483648"
  proof
    assume "sint w = - 2147483648"
    then have "word_of_int (sint w) = (word_of_int (- 2147483648) :: u32)" by (rule arg_cong)
    then show False using f Dec by simp
  qed
  then have "- 2147483648 < sint w" "sint w < 2147483648"
    using sint_ge [of w] sint_lt [of w] by simp_all
  from itoa_show [OF this, of 10 "dest + k" m] show ?thesis
    using Dec by (intro exI [of _ "[]"]) (simp add: convert_def at_idx_def nat_int_add)
next
  case (Hex w)
  show ?thesis using Hex uitoa_show [of 16 w "dest + k" m]
    by (intro exI [of _ "[]"]) (simp add: convert_def at_idx_def nat_int_add)
next
  case (Chr w)
  then show ?thesis
    by (intro exI [of _ "[]"]) (simp add: convert_def at_idx_def nat_int_add writes_single)
next
  case (Str p xs)
  then have c: "cstr m p xs" "length xs < 100" "dest + k \<le> p \<or> p + length xs < dest + k"
    "unat (of_nat p :: u32) = p"
    using f l lo by (auto simp: unat_of_nat)
  let ?m = "writes m (dest + k) (xs @ [0])"
  have "cstr ?m p xs = cstr m p xs"
    using f l lo Str by (intro cstr_cong writes_outside) auto
  then have "uint (strlen p ?m) = int (length xs)" using c by (simp add: strlen_uint)
  moreover have "to_int32 (int k + int (length xs)) = int k + int (length xs)"
    using l Str by (intro to_int32_id) auto
  ultimately show ?thesis
    using Str c strcpy_writes [OF c(1,3)]
    by (intro exI [of _ "[0]"]) (simp add: convert_def at_idx_def nat_int_add)
qed

lemma cstr_append: "cstr m p (xs @ ys) \<longleftrightarrow> (\<forall>i < length xs. m (p + i) = xs ! i) \<and> 0 \<notin> set xs \<and> cstr m (p + length xs) ys"
proof (induction xs arbitrary: p)
  case (Cons x xs)
  have "(\<forall>i < length (x # xs). m (p + i) = (x # xs) ! i) \<longleftrightarrow>
      m p = x \<and> (\<forall>i < length xs. m (p + 1 + i) = xs ! i)"
    by (auto simp: nth_Cons split: nat.splits)
  then show ?case using Cons [of "p + 1"] by (auto simp: cstr_Cons)
qed simp

lemma less_max_word:
  assumes "i < 500" shows "word_of_int (int i) < (- 1 :: u32)"
proof -
  have "unat (word_of_int (int i) :: u32) = i" using assms by (simp add: unat_of_nat)
  moreover have "unat (4294967295 :: u32) = 4294967295" "(- 1 :: u32) = 4294967295" by simp_all
  ultimately show ?thesis using assms by (simp only: word_less_nat_alt)
qed

lemma vsn_loop_lit:
  assumes "item_ok m dest (Lit c)" "m (format + source) = c" "k < 500"
  shows "vsn_loop dest (- 1) format source (int k) False ap m
       = vsn_loop dest (- 1) format (source + 1) (int (k + 1)) False ap (writes m (dest + k) [c])"
  using assms less_max_word [of k]
  by (subst vsn_loop.simps) (simp add: at_idx_def nat_int_add writes_single add.commute)

lemma vsn_loop_conv:
  assumes "convert (\<lambda>_ _ _. PANIC) c dest (int k) ap m = Some (int n, ap', m')"
    "m (format + source) = 37" "m (format + (source + 1)) = c" "c \<noteq> 0" "c \<noteq> 37" "k < 500" "n < 500"
  shows "vsn_loop dest (- 1) format source (int k) False ap m
       = vsn_loop dest (- 1) format (source + 2) (int n) False ap' m'"
proof -
  have "vsn_loop dest (- 1) format source (int k) False ap m
      = vsn_loop dest (- 1) format (source + 1) (int k) True ap m"
    using assms less_max_word [of k] by (subst vsn_loop.simps) simp
  also have "\<dots> = vsn_loop dest (- 1) format (source + 2) (int n) False ap' m'"
    using assms less_max_word [of k] by (subst vsn_loop.simps) simp
  finally show ?thesis .
qed

lemma vsn_loop_items:
  assumes "\<And>f. f \<in> set fs \<Longrightarrow> item_ok m dest f"
    and "cstr m (format + source) (items_text fs)"
    and "format + source + length (items_text fs) < dest \<or> dest + 500 \<le> format + source"
    and "k + length (items_out fs) < 500"
  shows "vsn_loop dest (- 1) format source (int k) False (items_args fs) m
       = Some (int (k + length (items_out fs)), writes m (dest + k) (items_out fs @ [0]))"
  using assms
proof (induction fs arbitrary: source k m)
  case Nil
  then show ?case
    by (subst vsn_loop.simps) (simp add: at_idx_def nat_int_add writes_single)
next
  case (Cons f fs)
  let ?out = "item_out f"
  have ok: "item_ok m dest f" using Cons.prems(1) by simp
  have l: "k + length ?out + length (items_out fs) < 500" using Cons.prems(4) by simp
  have t: "\<forall>i < length (item_text f). m (format + source + i) = item_text f ! i" "0 \<notin> set (item_text f)"
    "cstr m (format + source + length (item_text f)) (items_text fs)"
    using Cons.prems(2) by (simp_all add: cstr_append)
  have "\<exists>zs. length zs \<le> 1 \<and> vsn_loop dest (- 1) format source (int k) False (items_args (f # fs)) m
      = vsn_loop dest (- 1) format (source + length (item_text f)) (int (k + length ?out)) False
          (items_args fs) (writes m (dest + k) (?out @ zs))"
  proof (cases "\<exists>c. f = Lit c")
    case True
    then obtain c where c: "f = Lit c" by blast
    then show ?thesis
      using vsn_loop_lit [of m dest c format source k "items_args fs"] ok t(1) l
      by (intro exI [of _ "[]"]) simp
  next
    case False
    then have "item_text f ! 0 = 37 \<and> item_text f ! 1 \<noteq> 37 \<and> item_text f ! 1 \<noteq> 0 \<and> length (item_text f) = 2"
      by (cases f) auto
    moreover from this have "m (format + source) = 37" "m (format + (source + 1)) = item_text f ! 1"
      using t(1) [rule_format, of 0] t(1) [rule_format, of 1] by (simp_all add: add.assoc)
    moreover obtain zs where "length zs \<le> 1"
      "convert (\<lambda>_ _ _. PANIC) (item_text f ! 1) dest (int k) (items_args (f # fs)) m
        = Some (int (k + length ?out), items_args fs, writes m (dest + k) (?out @ zs))"
      using convert_item [OF ok False refl, of k] l by auto
    ultimately show ?thesis
      using vsn_loop_conv [of "item_text f ! 1" dest k "items_args (f # fs)" m "k + length ?out"] l by auto
  qed
  then obtain zs where zs: "length zs \<le> 1"
    and step: "vsn_loop dest (- 1) format source (int k) False (items_args (f # fs)) m
      = vsn_loop dest (- 1) format (source + length (item_text f)) (int (k + length ?out)) False
          (items_args fs) (writes m (dest + k) (?out @ zs))" by blast
  let ?m = "writes m (dest + k) (?out @ zs)"
  have same: "?m a = m a" if "a < dest \<or> dest + 500 \<le> a" for a
    using that zs l by (intro writes_outside) auto
  have "vsn_loop dest (- 1) format (source + length (item_text f)) (int (k + length ?out)) False (items_args fs) ?m
      = Some (int (k + length ?out + length (items_out fs)),
              writes ?m (dest + (k + length ?out)) (items_out fs @ [0]))"
  proof (rule Cons.IH)
    show "item_ok ?m dest g" if "g \<in> set fs" for g
      using item_ok_cong [of dest ?m m g] same Cons.prems(1) that by simp
    have "cstr ?m (format + source + length (item_text f)) (items_text fs)
        = cstr m (format + source + length (item_text f)) (items_text fs)"
      using Cons.prems(3) by (intro cstr_cong same) auto
    then show "cstr ?m (format + (source + length (item_text f))) (items_text fs)"
      using t(3) by (simp add: add.assoc)
  qed (use Cons.prems l in auto)
  moreover have "writes ?m (dest + (k + length ?out)) (items_out fs @ [0])
      = writes m (dest + k) (items_out (f # fs) @ [0])"
    using writes_over [of zs "items_out fs @ [0]" m "dest + k" ?out] zs by (simp add: add.assoc)
  ultimately show ?case using step by (simp add: add.assoc)
qed

section \<open>The two copies agree\<close>

lemma vsn1_loop_refines:
  "vsn_loop dest sz format source i flag ap m = Some r \<Longrightarrow>
   vsn1_loop dest sz format source i flag ap m = Some r"
proof (rule vsn_loop.raw_induct [where P =
      "\<lambda>dest sz format source i flag ap m r. vsn1_loop dest sz format source i flag ap m = Some r",
      rotated], assumption, goal_cases)
  case (1 f dest sz format source i flag ap m r)
  note IH = 1(2) and prem = 1(3)
  let ?c = "m (format + source)"
  have conv: "convert (\<lambda>_ _ _. PANIC) ?c dest i ap m = Some x \<Longrightarrow>
      convert (\<lambda>i ap m. Some (i, ap, m)) ?c dest i ap m = Some x" for x
    by (auto simp: convert_def split: if_splits list.splits)
  consider "?c = 0 \<or> \<not> word_of_int i < sz" | "?c \<noteq> 0" "word_of_int i < sz" "?c \<noteq> 37" "\<not> flag"
    | "?c = 37" "word_of_int i < sz" | "?c \<noteq> 0" "word_of_int i < sz" "?c \<noteq> 37" flag by blast
  then show ?case
  proof cases
    case 1
    then show ?thesis using prem by (subst vsn1_loop.simps) auto
  next
    case 2
    then show ?thesis using prem by (subst vsn1_loop.simps) (simp add: IH)
  next
    case 3
    then show ?thesis using prem by (subst vsn1_loop.simps) (simp add: IH)
  next
    case 4
    then obtain j ap' m' where x: "convert (\<lambda>_ _ _. PANIC) ?c dest i ap m = Some (j, ap', m')" "\<not> 500 \<le> j"
      "f dest sz format (source + 1) j False ap' m' = Some r"
      using prem by (auto split: bind_splits if_splits)
    then show ?thesis using 4 conv [OF x(1)] IH [OF x(3)] by (subst vsn1_loop.simps) simp
  qed
qed
section \<open>Properties\<close>

text \<open>\<open>itoa\<close> writes the decimal (or other radix 2 to 36) notation of every \<open>int\<close> but the
  smallest, returns its length, and the number can be read back from it.\<close>

theorem itoa_correct:
  assumes "- 2147483648 < v" "v < 2147483648" "2 \<le> radix" "radix \<le> 36"
  shows "\<exists>ds. itoa v dest (int radix) m = Some (int (length ds), writes m dest ds) \<and>
    read_int radix ds = v"
  using itoa_show [OF assms(1-3)] read_show_int [OF assms(3,4)] by blast

theorem itoa_correct_witness: "\<exists>ds. itoa (- 42) 7 10 (\<lambda>_. 0) = Some (int (length ds), writes (\<lambda>_. 0) 7 ds) \<and> read_int 10 ds = - 42"
  using itoa_correct [of "- 42" 10 7 "\<lambda>_. 0"] by simp

text \<open>C37: \<open>vsprint\<close> of a format made of plain characters and of the conversions \<open>d\<close>, \<open>x\<close>, \<open>c\<close> and
  \<open>s\<close> returns with exactly the text the items stand for, closed by a NUL, and its length, and
  changes nothing else, as long as the text is shorter than 500 bytes.\<close>

theorem vsprint_correct:
  assumes "\<forall>f \<in> set fs. item_ok m dest f"
    and "cstr m format (items_text fs)"
    and "format + length (items_text fs) < dest \<or> dest + 500 \<le> format"
    and "length (items_out fs) < 500"
  shows "vsprint dest format (items_args fs) m
       = Some (int (length (items_out fs)), writes m dest (items_out fs @ [0]))"
  using vsn_loop_items [of fs m dest format 0 0] assms by (simp add: vsprint_def vsnprint_def)

definition fmt_mem :: mem where
  "fmt_mem = (\<lambda>a. if a \<in> {300, 302, 304} then [37, 100, 120, 37, 115] ! (a - 300)
                  else if a = 301 then 100 else if a = 303 then 37
                  else hello_mem a)"

lemma fmt_mem_cstr: "cstr fmt_mem 300 (items_text [Dec 42, Lit 120, Str 100 [104, 105]])"
  by (simp add: cstr_Cons fmt_mem_def hello_mem_def)

theorem vsprint_correct_witness:
  "vsprint 1000 300 [42, 100] fmt_mem = Some (5, writes fmt_mem 1000 [52, 50, 120, 104, 105, 0])"
proof -
  have s: "show_nat 10 42 = [52, 50]"
    by (simp add: show_nat.simps digit_char_def)
  have "cstr fmt_mem 100 [104, 105]"
    by (simp add: cstr_Cons fmt_mem_def hello_mem_def)
  then have "\<forall>f \<in> set [Dec 42, Lit 120, Str 100 [104, 105]]. item_ok fmt_mem 1000 f" by simp
  from vsprint_correct [OF this fmt_mem_cstr] show ?thesis
    by (simp add: show_int_def s)
qed

text \<open>whatever the kernel's \<open>vsprint\<close> prints, the user library's \<open>vsprint1\<close> prints as well: same
  memory, same count. The two copies differ only where the kernel's one panics.\<close>

theorem vsprint1_agrees:
  assumes "vsprint dest format ap m = Some r"
  shows "vsprint1 dest format ap m = Some r"
  using assms unfolding vsprint_def vsprint1_def vsnprint_def vsnprint1_def by (rule vsn1_loop_refines)

theorem vsprint1_agrees_witness: "vsprint1 1000 100 [] hello_mem = Some (2, writes hello_mem 1000 [104, 105, 0])"
proof -
  have ok: "item_ok hello_mem 1000 f" if "f \<in> set [Lit 104, Lit 105]" for f
    using that by auto
  have "vsprint 1000 100 [] hello_mem = Some (2, writes hello_mem 1000 [104, 105, 0])"
    using vsn_loop_items [of "[Lit 104, Lit 105]" hello_mem 1000 100 0 0, OF ok] hello_cstr
    by (simp add: vsprint_def vsnprint_def)
  then show ?thesis by (rule vsprint1_agrees)
qed

text \<open>for the smallest \<open>int\<close>, whose negation wraps, \<open>itoa\<close> writes bytes below the digits: the
  last one is a left parenthesis.\<close>

theorem itoa_smallest:
  "\<exists>m'. itoa (- 2147483648) dest 10 m = Some (11, m') \<and> m' (dest + 10) = 40"
  by (simp add: itoa_def radix_ok_def to_int32_def count_digits.simps put_digits.simps c_div_def c_mod_def
      digit_char_def)

end
