(* ===== verification/IoQueue.thy ===== *)
theory IoQueue
  imports Kmalloc_Clients Printk
begin

text \<open>
  device/ioqueue.c: the ring buffer between the keyboard interrupt and its readers. One slot is
  kept free; \<open>head\<close> is the slot before the oldest character, \<open>tail\<close> the slot of the next one. The
  buffer lies in the byte memory of theory FizzStr. A call that has to wait in \<open>cond_wait\<close> does
  not return (\<^const>\<open>None\<close>); what the wait does to the lock and the wait list is
  \<^const>\<open>cond_wait_section\<close> of theory Sync.
\<close>

section \<open>State and operations\<close>

record ioqueue =
  q_lock :: mutex
  char_cond :: cond
  line_cond :: cond
  buf :: nat
  buf_size :: int
  head :: int
  tail :: int

definition ioqueue_init :: "'a sys_scheme \<Rightarrow> kmem \<Rightarrow> mem \<Rightarrow> ioqueue \<Rightarrow> int \<Rightarrow>
    (ioqueue \<times> 'a sys_scheme \<times> kmem \<times> mem) option" where
  "ioqueue_init k km m q sz = do {
     (p, k, km) \<leftarrow> kmalloc k km (word_of_int sz);
     let q = q\<lparr>buf := p, buf_size := sz + 1, q_lock := mutex_lock_init, char_cond := cond_init,
       head := sz, tail := 0\<rparr>;
     Some (q, k, km, memset (buf q) 0 (nat (sz + 1)) m) }"

definition ioqueue_destroy :: "'a sys_scheme \<Rightarrow> kmem \<Rightarrow> mmu \<Rightarrow> ioqueue \<Rightarrow> ('a sys_scheme \<times> kmem) option" where
  "ioqueue_destroy k km u q = kfree k km u (buf q)"

text \<open>\<open>(tail + buf_size - head - 1) % buf_size\<close>, the number of characters.\<close>

definition q_count :: "ioqueue \<Rightarrow> int" where
  "q_count q = c_mod (tail q + buf_size q - head q - 1) (buf_size q)"

definition q_at :: "ioqueue \<Rightarrow> int \<Rightarrow> nat" where
  "q_at q i = buf q + nat i"

definition ioqueue_getchar :: "'a sys_scheme \<Rightarrow> ioqueue \<Rightarrow> mem \<Rightarrow> (u8 \<times> 'a sys_scheme \<times> ioqueue) option" where
  "ioqueue_getchar k q m = do {
     (k, l) \<leftarrow> mutex_acquire k (q_lock q);
     let q = q\<lparr>q_lock := l\<rparr>;
     ASSERT (0 \<le> head q);
     if q_count q = 0 then None
     else do {
       let q = q\<lparr>head := c_mod (head q + 1) (buf_size q)\<rparr>;
       let c = m (q_at q (head q));
       (k, l) \<leftarrow> mutex_release k (q_lock q);
       Some (c, k, q\<lparr>q_lock := l\<rparr>) } }"

definition q_store :: "ioqueue \<Rightarrow> mem \<Rightarrow> u8 \<Rightarrow> ioqueue \<times> mem" where
  "q_store q m c =
     (if q_count q < buf_size q - 1
      then (q\<lparr>tail := c_mod (tail q + 1) (buf_size q)\<rparr>, m(q_at q (tail q) := c))
      else (q, m))"

definition wake_line :: "'a sys_scheme \<Rightarrow> ioqueue \<Rightarrow> u8 \<Rightarrow> 'a sys_scheme \<times> ioqueue" where
  "wake_line k q c =
     (if c = 10 then (let (k, l) = cond_signal k (line_cond q) in (k, q\<lparr>line_cond := l\<rparr>)) else (k, q))"

definition ioqueue_putchar :: "'a sys_scheme \<Rightarrow> ioqueue \<Rightarrow> mem \<Rightarrow> u8 \<Rightarrow> ('a sys_scheme \<times> ioqueue \<times> mem) option" where
  "ioqueue_putchar k q m c = do {
     (k, l) \<leftarrow> mutex_acquire k (q_lock q);
     let q = q\<lparr>q_lock := l\<rparr>;
     ASSERT (0 \<le> tail q);
     let (q, m) = q_store q m c;
     let (k, q) = wake_line k q c;
     let (k, l) = cond_signal k (char_cond q);
     let q = q\<lparr>char_cond := l\<rparr>;
     (k, l) \<leftarrow> mutex_release k (q_lock q);
     Some (k, q\<lparr>q_lock := l\<rparr>, m) }"

definition ioqueue_pop_back_char :: "'a sys_scheme \<Rightarrow> ioqueue \<Rightarrow> ('a sys_scheme \<times> ioqueue) option" where
  "ioqueue_pop_back_char k q = do {
     (k, l) \<leftarrow> mutex_acquire k (q_lock q);
     let q = q\<lparr>q_lock := l\<rparr>;
     let q = (if 0 < q_count q then q\<lparr>tail := c_mod (tail q + buf_size q - 1) (buf_size q)\<rparr> else q);
     (k, l) \<leftarrow> mutex_release k (q_lock q);
     Some (k, q\<lparr>q_lock := l\<rparr>) }"

text \<open>The three loops of \<open>ioqueue_getline\<close>: is there a newline, copy up to it, skip up to it.\<close>

partial_function (option) line_scan :: "nat \<Rightarrow> int \<Rightarrow> mem \<Rightarrow> int \<Rightarrow> int \<Rightarrow> bool option" where
  "line_scan b sz m tp i =
     (if i \<noteq> tp
      then (if m (b + nat i) = 10 then Some True else line_scan b sz m tp (c_mod (i + 1) sz))
      else Some False)"

partial_function (option) line_copy ::
  "nat \<Rightarrow> int \<Rightarrow> int \<Rightarrow> int \<Rightarrow> nat \<Rightarrow> int \<Rightarrow> int \<Rightarrow> mem \<Rightarrow> (int \<times> int \<times> mem) option" where
  "line_copy b sz tp lim dest hp c m =
     (if lim = - 1 \<or> c < lim
      then (let m = m(dest := m (b + nat hp)) in
        if m dest \<noteq> 10
        then Option.bind (ASSERT (0 < c_mod (tp + sz - hp - 1) sz))
          (\<lambda>_. line_copy b sz tp lim (dest + 1) (c_mod (hp + 1) sz) (c + 1) m)
        else Some (hp, c, m))
      else Some (hp, c, m))"

partial_function (option) line_skip :: "nat \<Rightarrow> int \<Rightarrow> int \<Rightarrow> mem \<Rightarrow> int \<Rightarrow> int option" where
  "line_skip b sz tp m hp =
     (if m (b + nat hp) \<noteq> 10
      then Option.bind (ASSERT (0 < c_mod (tp + sz - hp - 1) sz)) (\<lambda>_. line_skip b sz tp m (c_mod (hp + 1) sz))
      else Some hp)"

definition ioqueue_getline :: "'a sys_scheme \<Rightarrow> ioqueue \<Rightarrow> mem \<Rightarrow> nat \<Rightarrow> int \<Rightarrow>
    (int \<times> 'a sys_scheme \<times> ioqueue \<times> mem) option" where
  "ioqueue_getline k q m dest lim = do {
     (k, l) \<leftarrow> mutex_acquire k (q_lock q);
     let q = q\<lparr>q_lock := l\<rparr>;
     found \<leftarrow> line_scan (buf q) (buf_size q) m (tail q) (c_mod (head q + 1) (buf_size q));
     if \<not> found then None
     else do {
       (h, c, m) \<leftarrow> line_copy (buf q) (buf_size q) (tail q) lim dest (c_mod (head q + 1) (buf_size q)) 0 m;
       h \<leftarrow> line_skip (buf q) (buf_size q) (tail q) m h;
       let q = q\<lparr>head := h\<rparr>;
       (k, l) \<leftarrow> mutex_release k (q_lock q);
       Some (c + 1, k, q\<lparr>q_lock := l\<rparr>, m) } }"

section \<open>The queue as a list\<close>

definition ring_ok :: "nat \<Rightarrow> nat \<Rightarrow> nat \<Rightarrow> bool" where
  "ring_ok n h t \<longleftrightarrow> h < n \<and> t < n"

definition ring_len :: "nat \<Rightarrow> nat \<Rightarrow> nat \<Rightarrow> nat" where
  "ring_len n h t = (t + n - h - 1) mod n"

definition ring :: "nat \<Rightarrow> mem \<Rightarrow> nat \<Rightarrow> nat \<Rightarrow> nat \<Rightarrow> u8 list" where
  "ring b m n h t = map (\<lambda>i. m (b + (h + 1 + i) mod n)) [0..<ring_len n h t]"

lemma mod_lt2: "a < 2 * n \<Longrightarrow> a mod n = (if a < n then a else a - n)" for a :: nat
  by (simp add: mod_if)

lemma ring_len_eq: "ring_ok n h t \<Longrightarrow> ring_len n h t = (if h < t then t - h - 1 else t + n - h - 1)"
  by (auto simp: ring_ok_def ring_len_def mod_lt2)

lemma ring_len_lt: "ring_ok n h t \<Longrightarrow> ring_len n h t < n"
  by (auto simp: ring_ok_def ring_len_def)

lemma length_ring [simp]: "length (ring b m n h t) = ring_len n h t"
  by (simp add: ring_def)

lemma ring_step:
  assumes "ring_ok n h t" "0 < ring_len n h t"
  shows "ring b m n h t = m (b + (h + 1) mod n) # ring b m n ((h + 1) mod n) t"
    "ring_ok n ((h + 1) mod n) t" "ring_len n h t = Suc (ring_len n ((h + 1) mod n) t)"
proof -
  have h: "(h + 1) mod n = (if h + 1 < n then h + 1 else 0)" using assms(1) by (auto simp: ring_ok_def mod_lt2)
  show ok: "ring_ok n ((h + 1) mod n) t" using assms(1) by (auto simp: ring_ok_def)
  show l: "ring_len n h t = Suc (ring_len n ((h + 1) mod n) t)"
    using assms unfolding h by (auto simp: ring_ok_def ring_len_eq split: if_splits)
  have "(h + 1 + Suc i) mod n = ((h + 1) mod n + 1 + i) mod n" for i
    using mod_add_left_eq [of "h + 1" n "1 + i"] by (simp add: add.assoc)
  then show "ring b m n h t = m (b + (h + 1) mod n) # ring b m n ((h + 1) mod n) t"
    unfolding ring_def l by (simp add: upt_conv_Cons map_Suc_upt [symmetric] del: upt_Suc)
qed

lemma ring_put:
  assumes "ring_ok n h t" "ring_len n h t < n - 1"
  shows "ring b (m(b + t := c)) n h ((t + 1) mod n) = ring b m n h t @ [c]" "ring_ok n h ((t + 1) mod n)"
proof -
  have t: "(t + 1) mod n = (if t + 1 < n then t + 1 else 0)" using assms(1) by (auto simp: ring_ok_def mod_lt2)
  show ok: "ring_ok n h ((t + 1) mod n)" using assms(1) by (auto simp: ring_ok_def)
  have l: "ring_len n h ((t + 1) mod n) = Suc (ring_len n h t)"
    using assms unfolding t by (auto simp: ring_ok_def ring_len_eq split: if_splits)
  have ix: "(h + 1 + i) mod n = (if h + 1 + i < n then h + 1 + i else h + 1 + i - n)" if "i < n" for i
    using that assms(1) by (intro mod_lt2) (auto simp: ring_ok_def)
  have "(h + 1 + ring_len n h t) mod n = t"
    using assms ring_len_lt [OF assms(1)] unfolding ix [OF ring_len_lt [OF assms(1)]] ring_len_eq [OF assms(1)]
    by (auto simp: ring_ok_def)
  moreover have "(h + 1 + i) mod n \<noteq> t" if i: "i < ring_len n h t" for i
  proof -
    have "i < n" using i ring_len_lt [OF assms(1)] by simp
    note e = ix [OF this]
    show ?thesis
    proof (cases "h < t")
      case True
      then have "h + 1 + i < t" using i unfolding ring_len_eq [OF assms(1)] by simp
      then show ?thesis using e assms(1) by (simp add: ring_ok_def)
    next
      case False
      then have "h + 1 + i < t + n" using i unfolding ring_len_eq [OF assms(1)] by simp
      then show ?thesis using e False by auto
    qed
  qed
  ultimately show "ring b (m(b + t := c)) n h ((t + 1) mod n) = ring b m n h t @ [c]"
    unfolding ring_def l by simp
qed

lemma ring_back:
  assumes "ring_ok n h t" "0 < ring_len n h t"
  shows "ring b m n h ((t + n - 1) mod n) = butlast (ring b m n h t)" "ring_ok n h ((t + n - 1) mod n)"
proof -
  have t: "(t + n - 1) mod n = (if t = 0 then n - 1 else t - 1)" using assms(1) by (auto simp: ring_ok_def mod_lt2)
  show ok: "ring_ok n h ((t + n - 1) mod n)" using assms(1) by (auto simp: ring_ok_def)
  have l: "ring_len n h t = Suc (ring_len n h ((t + n - 1) mod n))"
    using assms ok unfolding t ring_len_eq [OF assms(1)] ring_len_eq [OF ok, unfolded t]
    by (cases "t = 0") (auto simp: ring_ok_def split: if_splits)
  show "ring b m n h ((t + n - 1) mod n) = butlast (ring b m n h t)"
    unfolding ring_def l by (simp add: butlast_append)
qed

section \<open>The loops of \<open>ioqueue_getline\<close>\<close>

lemma c_mod_int: "0 < n \<Longrightarrow> c_mod (int a) (int n) = int (a mod n)"
  by (simp add: c_mod_nonneg zmod_int)

lemma ring_len_int:
  assumes "ring_ok n h t" shows "c_mod (int t + int n - int h - 1) (int n) = int (ring_len n h t)"
proof -
  have "int t + int n - int h - 1 = int (t + n - h - 1)" using assms by (simp add: ring_ok_def)
  then show ?thesis unfolding ring_len_def
    by (simp only:, intro c_mod_int) (use assms in \<open>simp add: ring_ok_def\<close>)
qed

lemma ring_next_int:
  assumes "ring_ok n h t" shows "c_mod (int h + 1) (int n) = int ((h + 1) mod n)"
  using c_mod_int [of n "h + 1"] assms by (simp add: ring_ok_def add.commute)

lemma ring_empty_iff:
  assumes "ring_ok n h t" shows "ring_len n h t = 0 \<longleftrightarrow> (h + 1) mod n = t"
  using assms by (auto simp: ring_len_eq ring_ok_def mod_lt2)

lemma line_scan_ring:
  "ring_ok n h t \<Longrightarrow> line_scan b (int n) m (int t) (int ((h + 1) mod n)) = Some (10 \<in> set (ring b m n h t))"
proof (induction "ring_len n h t" arbitrary: h)
  case 0
  then have "(h + 1) mod n = t" "ring b m n h t = []" using ring_empty_iff [of n h t] by (simp_all add: ring_def)
  then show ?case by (subst line_scan.simps) simp
next
  case (Suc l)
  let ?h = "(h + 1) mod n"
  note st = ring_step [OF Suc.prems]
  have ne: "?h \<noteq> t" using ring_empty_iff [OF Suc.prems] Suc.hyps(2) by simp
  have len: "0 < ring_len n h t" using Suc.hyps(2) by simp
  have "line_scan b (int n) m (int t) (c_mod (int ?h + 1) (int n)) = Some (10 \<in> set (ring b m n ?h t))"
    unfolding ring_next_int [OF st(2) [OF len]] by (rule Suc.hyps(1)) (use Suc.hyps(2) st(2,3) len in auto)
  then show ?case using ne st(1) [OF len] by (subst line_scan.simps) auto
qed

lemma ring_cong: "(\<And>a. b \<le> a \<Longrightarrow> a < b + n \<Longrightarrow> m' a = m a) \<Longrightarrow> 0 < n \<Longrightarrow> ring b m' n h t = ring b m n h t"
  unfolding ring_def by (rule map_cong) auto

lemma line_skip_ring:
  "ring_ok n h t \<Longrightarrow> ring b m n h t = pre @ 10 # rest \<Longrightarrow> 10 \<notin> set pre \<Longrightarrow>
   \<exists>h'. line_skip b (int n) (int t) m (int ((h + 1) mod n)) = Some (int h') \<and> ring_ok n h' t \<and> ring b m n h' t = rest"
proof (induction pre arbitrary: h)
  case Nil
  then have len: "0 < ring_len n h t" by (metis append_Nil length_ring length_greater_0_conv list.discI)
  note st = ring_step [OF Nil(1) len]
  have "m (b + (h + 1) mod n) = 10" "ring b m n ((h + 1) mod n) t = rest" using Nil(2) st(1) by simp_all
  then show ?case using st(2) by (subst line_skip.simps) auto
next
  case (Cons x pre)
  then have len: "0 < ring_len n h t" by (metis length_ring length_greater_0_conv append_Cons list.discI)
  let ?h = "(h + 1) mod n"
  note st = ring_step [OF Cons.prems(1) len]
  have x: "m (b + ?h) \<noteq> 10" "ring b m n ?h t = pre @ 10 # rest" using Cons.prems st(1) by auto
  have "0 < ring_len n ?h t" using x(2) by (metis length_ring length_greater_0_conv append_is_Nil_conv list.discI)
  then have "line_skip b (int n) (int t) m (int ?h) = line_skip b (int n) (int t) m (int ((?h + 1) mod n))"
    using x(1) ring_len_int [OF st(2)] ring_next_int [OF st(2)] by (subst line_skip.simps) simp
  then show ?case using Cons.IH [OF st(2) x(2)] Cons.prems(3) by simp
qed

text \<open>How many characters of the line \<open>pre\<close> are copied, and what is written.\<close>

definition line_out :: "int \<Rightarrow> u8 list \<Rightarrow> u8 list" where
  "line_out lim pre = (if lim = - 1 \<or> int (length pre) < lim then pre @ [10] else take (nat lim) pre)"

definition line_taken :: "int \<Rightarrow> u8 list \<Rightarrow> nat" where
  "line_taken lim pre = (if lim = - 1 then length pre else min (length pre) (nat lim))"

lemma line_copy_ring:
  assumes "ring_ok n h t" "ring b m n h t = pre @ 10 # rest" "10 \<notin> set pre" "0 < n"
    and "\<forall>a. dest \<le> a \<and> a \<le> dest + length pre \<longrightarrow> a < b \<or> b + n \<le> a"
    and "lim = - 1 \<or> int c \<le> lim"
  shows "\<exists>h' pre'. line_copy b (int n) (int t) lim dest (int ((h + 1) mod n)) (int c) m
      = Some (int ((h' + 1) mod n),
              int (c + line_taken (if lim = - 1 then - 1 else lim - int c) pre),
              writes m dest (line_out (if lim = - 1 then - 1 else lim - int c) pre)) \<and>
    ring_ok n h' t \<and> 10 \<notin> set pre' \<and>
    ring b (writes m dest (line_out (if lim = - 1 then - 1 else lim - int c) pre)) n h' t = pre' @ 10 # rest"
  using assms
proof (induction pre arbitrary: h m dest c)
  case Nil
  then have len: "0 < ring_len n h t" by (metis append_Nil length_ring length_greater_0_conv list.discI)
  have "m (b + (h + 1) mod n) = 10" using ring_step(1) [OF Nil(1) len, of b m] Nil(2) by simp
  moreover have "ring b (m(dest := 10)) n h t = ring b m n h t"
    using Nil(4,5) by (intro ring_cong) auto
  ultimately show ?case using Nil
    by (subst line_copy.simps) (auto simp: line_out_def line_taken_def writes_single intro!: exI [of _ h] exI [of _ "[]"])
next
  case (Cons x pre)
  let ?h = "(h + 1) mod n" and ?m = "m(dest := x)"
  have len: "0 < ring_len n h t"
    using Cons.prems(2) by (metis length_ring length_greater_0_conv append_Cons list.discI)
  note st = ring_step [OF Cons.prems(1) len]
  have x: "m (b + ?h) = x" "x \<noteq> 10" "ring b m n ?h t = pre @ 10 # rest"
    using Cons.prems(2,3) st(1) [of b m] by auto
  have same: "ring b ?m n g t = ring b m n g t" for g
    using Cons.prems(4) Cons.prems(5) [rule_format, of dest] by (intro ring_cong) auto
  have pos: "0 < c_mod (int t + int n - int ?h - 1) (int n)"
    unfolding ring_len_int [OF st(2)] using x(3)
    by (metis length_ring length_greater_0_conv append_is_Nil_conv list.discI of_nat_0_less_iff)
  show ?case
  proof (cases "lim = - 1 \<or> int c < lim")
    case True
    have np: "10 \<notin> set pre" using Cons.prems(3) by simp
    have r: "ring b ?m n ?h t = pre @ 10 # rest" using x(3) same by simp
    have d: "\<forall>a. dest + 1 \<le> a \<and> a \<le> dest + 1 + length pre \<longrightarrow> a < b \<or> b + n \<le> a"
      using Cons.prems(5) by simp
    have lc: "lim = - 1 \<or> int (c + 1) \<le> lim" using True by auto
    have go: "line_copy b (int n) (int t) lim dest (int ?h) (int c) m
        = line_copy b (int n) (int t) lim (dest + 1) (int ((?h + 1) mod n)) (int (c + 1)) ?m"
      using True x(1,2) pos ring_next_int [OF st(2)] by (subst line_copy.simps) (simp add: add.commute)
    have o: "line_out (if lim = - 1 then - 1 else lim - int c) (x # pre)
        = x # line_out (if lim = - 1 then - 1 else lim - int (c + 1)) pre"
    proof -
      have "nat (1 + int c) = Suc c" by simp
      then show ?thesis using lc by (auto simp: line_out_def take_Cons' nat_diff_distrib algebra_simps)
    qed
    have tk: "line_taken (if lim = - 1 then - 1 else lim - int c) (x # pre)
        = Suc (line_taken (if lim = - 1 then - 1 else lim - int (c + 1)) pre)"
      using lc by (auto simp: line_taken_def)
    obtain h' pre' where IH: "line_copy b (int n) (int t) lim (dest + 1) (int ((?h + 1) mod n)) (int (c + 1)) ?m
      = Some (int ((h' + 1) mod n),
              int (c + 1 + line_taken (if lim = - 1 then - 1 else lim - int (c + 1)) pre),
              writes ?m (dest + 1) (line_out (if lim = - 1 then - 1 else lim - int (c + 1)) pre))"
      "ring_ok n h' t" "10 \<notin> set pre'"
      "ring b (writes ?m (dest + 1) (line_out (if lim = - 1 then - 1 else lim - int (c + 1)) pre)) n h' t = pre' @ 10 # rest"
      using Cons.IH [OF st(2) r np Cons.prems(4) d lc] by blast
    show ?thesis unfolding go o tk using IH unfolding writes_cons by (intro exI [of _ h'] exI [of _ pre']) simp
  next
    case False
    then have "lim \<noteq> - 1" "lim = int c" using Cons.prems(6) by auto
    moreover have "line_copy b (int n) (int t) lim dest (int ?h) (int c) m = Some (int ?h, int c, m)"
      using False by (subst line_copy.simps) simp
    ultimately show ?thesis using Cons.prems
      by (intro exI [of _ h] exI [of _ "x # pre"]) (simp add: line_out_def line_taken_def)
  qed
qed

section \<open>The operations as operations on the list\<close>

text \<open>A queue between calls: the lock is free, the indices are in range.\<close>

definition q_ok :: "'a sys_scheme \<Rightarrow> ioqueue \<Rightarrow> bool" where
  "q_ok k q \<longleftrightarrow> current k \<noteq> NULL \<and> q_lock q = mutex_at (current k) 0 \<and> 0 \<le> head q \<and> 0 \<le> tail q \<and>
     head q < buf_size q \<and> tail q < buf_size q"

definition q_list :: "ioqueue \<Rightarrow> mem \<Rightarrow> u8 list" where
  "q_list q m = ring (buf q) m (nat (buf_size q)) (nat (head q)) (nat (tail q))"

definition q_cap :: "ioqueue \<Rightarrow> nat" where
  "q_cap q = nat (buf_size q - 1)"

lemma q_okE:
  assumes "q_ok k q"
  obtains n h t where "buf_size q = int n" "head q = int h" "tail q = int t" "ring_ok n h t" "0 < n"
    "q_lock q = mutex_at (current k) 0" "current k \<noteq> NULL"
    "q_count q = int (ring_len n h t)" "\<And>m. q_list q m = ring (buf q) m n h t" "q_cap q = n - 1"
proof -
  obtain n h t where e: "buf_size q = int n" "head q = int h" "tail q = int t"
    using assms unfolding q_ok_def by (metis le_less_trans less_imp_le nonneg_int_cases)
  have r: "ring_ok n h t" "0 < n" using assms e by (auto simp: q_ok_def ring_ok_def)
  have "q_count q = int (ring_len n h t)" using ring_len_int [OF r(1)] by (simp add: q_count_def e)
  moreover have "q_list q m = ring (buf q) m n h t" for m by (simp add: q_list_def e)
  moreover have "q_cap q = n - 1" by (simp add: q_cap_def e nat_diff_distrib')
  ultimately show thesis using that e r assms by (simp add: q_ok_def)
qed

lemma q_list_cap: "q_ok k q \<Longrightarrow> length (q_list q m) \<le> q_cap q"
  by (erule q_okE) (use ring_len_lt in \<open>fastforce simp: less_eq_Suc_le\<close>)

lemma cond_signal_eq:
  "cond_signal k c = (case c_wait c of [] \<Rightarrow> (k, c) | t # ts \<Rightarrow> (thread_unblock t k, c\<lparr>c_wait := ts\<rparr>))"
  by (cases "c_wait c") (simp_all add: cond_signal_def critical_section thread_unblock_eq)

lemma cond_signal_current: "current (fst (cond_signal k c)) = current k"
  by (simp add: cond_signal_eq thread_unblock_eq split: list.splits)

lemma q_acquire:
  "q_ok k q \<Longrightarrow> mutex_acquire k (q_lock q) = Some (k, mutex_at (current k) (Suc 0))"
  using mutex_acquire_at [of k 0] by (simp add: q_ok_def)

lemma q_release: "mutex_release k (mutex_at (current k) (Suc 0)) = Some (k, mutex_at (current k) 0)"
  using mutex_release_at [of 0 k] by simp

lemma q_release': "current k = c \<Longrightarrow> mutex_release k (mutex_at c (Suc 0)) = Some (k, mutex_at c 0)"
  using q_release by blast

lemma getchar_case:
  assumes q: "q_ok k q"
  shows "ioqueue_getchar k q m = (if q_list q m = [] then None
     else Some (hd (q_list q m), k, q\<lparr>head := c_mod (head q + 1) (buf_size q)\<rparr>))"
    "q_list q m \<noteq> [] \<Longrightarrow> q_ok k (q\<lparr>head := c_mod (head q + 1) (buf_size q)\<rparr>) \<and>
      q_list (q\<lparr>head := c_mod (head q + 1) (buf_size q)\<rparr>) m = tl (q_list q m)"
proof -
  obtain n h t where e: "buf_size q = int n" "head q = int h" "tail q = int t" "ring_ok n h t" "0 < n"
    "q_lock q = mutex_at (current k) 0" "current k \<noteq> NULL"
    "q_count q = int (ring_len n h t)" "\<And>m. q_list q m = ring (buf q) m n h t" by (rule q_okE [OF q]) blast
  have empty: "q_list q m = [] \<longleftrightarrow> ring_len n h t = 0" unfolding e(9) by (metis length_ring length_0_conv)
  have bk: "q\<lparr>q_lock := mutex_at (current k) (Suc 0), head := x, q_lock := mutex_at (current k) 0\<rparr> = q\<lparr>head := x\<rparr>" for x
    using e(6) by (cases q) simp
  have cnt: "q_count (q\<lparr>q_lock := l\<rparr>) = q_count q" for l by (simp add: q_count_def)
  note st = ring_step [OF e(4)]
  show "ioqueue_getchar k q m = (if q_list q m = [] then None
     else Some (hd (q_list q m), k, q\<lparr>head := c_mod (head q + 1) (buf_size q)\<rparr>))"
  proof (cases "ring_len n h t = 0")
    case True
    then show ?thesis using q empty cnt e(2,8) by (simp add: ioqueue_getchar_def q_acquire)
  next
    case False
    then have "hd (q_list q m) = m (buf q + (h + 1) mod n)" using st(1) [of "buf q" m] by (simp add: e(9))
    then show ?thesis using False q empty cnt e(2,8) ring_next_int [OF e(4)] bk
      by (simp add: ioqueue_getchar_def q_acquire q_release q_at_def e(1))
  qed
  show "q_ok k (q\<lparr>head := c_mod (head q + 1) (buf_size q)\<rparr>) \<and>
      q_list (q\<lparr>head := c_mod (head q + 1) (buf_size q)\<rparr>) m = tl (q_list q m)" if "q_list q m \<noteq> []"
    using that empty st(1) [of "buf q" m] st(2) ring_next_int [OF e(4)] e
    by (simp add: q_ok_def q_list_def ring_ok_def)
qed

lemma putchar_case:
  assumes q: "q_ok k q"
  shows "\<exists>k' q' m'. ioqueue_putchar k q m c = Some (k', q', m') \<and> q_ok k' q' \<and> current k' = current k \<and>
    q_list q' m' = (if length (q_list q m) < q_cap q then q_list q m @ [c] else q_list q m) \<and>
    q_cap q' = q_cap q \<and> buf q' = buf q \<and>
    (\<forall>a. a < buf q \<or> buf q + nat (buf_size q) \<le> a \<longrightarrow> m' a = m a) \<and>
    c_wait (char_cond q') = tl (c_wait (char_cond q)) \<and>
    c_wait (line_cond q') = (if c = 10 then tl (c_wait (line_cond q)) else c_wait (line_cond q))"
proof -
  obtain n h t where e: "buf_size q = int n" "head q = int h" "tail q = int t" "ring_ok n h t" "0 < n"
    "q_lock q = mutex_at (current k) 0" "current k \<noteq> NULL"
    "q_count q = int (ring_len n h t)" "\<And>m. q_list q m = ring (buf q) m n h t" "q_cap q = n - 1"
    by (rule q_okE [OF q]) blast
  have cnt: "q_count (q\<lparr>q_lock := l\<rparr>) = q_count q" for l by (simp add: q_count_def)
  let ?room = "ring_len n h t < n - 1"
  define t' m' where "t' = (if ?room then int ((t + 1) mod n) else int t)"
    and "m' = (if ?room then m(buf q + t := c) else m)"
  define k1 where "k1 = (if c = 10 then fst (cond_signal k (line_cond q)) else k)"
  define lc where "lc = (if c = 10 then snd (cond_signal k (line_cond q)) else line_cond q)"
  define k2 cc where "k2 = fst (cond_signal k1 (char_cond q))" and "cc = snd (cond_signal k1 (char_cond q))"
  define q' where "q' = q\<lparr>tail := t', line_cond := lc, char_cond := cc\<rparr>"
  have cur: "current k1 = current k" "current k2 = current k"
    by (simp_all add: k1_def k2_def cond_signal_current)
  have step: "q_store (q\<lparr>q_lock := l\<rparr>) m c = (q\<lparr>q_lock := l, tail := t'\<rparr>, m')" for l
  proof -
    have "q_count q < buf_size q - 1 \<longleftrightarrow> ?room" using e(5) unfolding e(1,8) by linarith
    moreover have "c_mod (int t + 1) (int n) = int ((t + 1) mod n)" using c_mod_int [OF e(5), of "t + 1"] by (simp add: add.commute)
    moreover have "q\<lparr>tail := int t\<rparr> = q" using e(3) by (cases q) simp
    then have "q\<lparr>q_lock := l, tail := int t\<rparr> = q\<lparr>q_lock := l\<rparr>" using e(3) by (cases q) simp
    ultimately show ?thesis by (simp add: q_store_def cnt t'_def m'_def e(1,3) q_at_def)
  qed
  have line: "wake_line k x c = (k1, x\<lparr>line_cond := lc\<rparr>)" if "line_cond x = line_cond q" for x
  proof (cases "c = 10")
    case True
    then show ?thesis using that by (simp add: wake_line_def Let_def k1_def lc_def split_def)
  next
    case False
    then show ?thesis using that by (cases x) (simp add: wake_line_def k1_def lc_def)
  qed
  have char: "cond_signal k1 (char_cond q) = (k2, cc)" by (simp add: k2_def cc_def)
  have rel: "mutex_release k2 (mutex_at (current k) (Suc 0)) = Some (k2, mutex_at (current k) 0)"
    by (rule q_release' [OF cur(2)])
  have fin: "q\<lparr>tail := t', line_cond := lc, char_cond := cc, q_lock := mutex_at (current k) 0\<rparr> = q'"
    using e(6) by (cases q) (simp add: q'_def)
  have tl0: "0 \<le> tail q" by (simp add: e(3))
  have "ioqueue_putchar k q m c = Some (k2, q', m')"
    by (simp add: ioqueue_putchar_def q_acquire [OF q] tl0 step line char rel fin)
  moreover have "q_ok k2 q'"
    using q e(4) unfolding q_ok_def q'_def t'_def cur by (auto simp: ring_ok_def e(1,3))
  moreover have "q_list q' m' = (if length (q_list q m) < q_cap q then q_list q m @ [c] else q_list q m)"
    using ring_put(1) [OF e(4), of "buf q" m c]
    by (simp add: q_list_def q'_def t'_def m'_def e(1,2,3,10))
  moreover have "\<forall>a. a < buf q \<or> buf q + nat (buf_size q) \<le> a \<longrightarrow> m' a = m a"
    using e(4) by (auto simp: m'_def e(1) ring_ok_def)
  moreover have "c_wait cc = tl (c_wait (char_cond q))" "c_wait lc = (if c = 10 then tl (c_wait (line_cond q)) else c_wait (line_cond q))"
    by (auto simp: cc_def lc_def cond_signal_eq split: list.splits)
  ultimately show ?thesis using cur(2)
    by (intro exI [of _ k2] exI [of _ q'] exI [of _ m']) (simp add: q'_def q_cap_def)
qed

lemma pop_back_case:
  assumes q: "q_ok k q"
  shows "\<exists>q'. ioqueue_pop_back_char k q = Some (k, q') \<and> q_ok k q' \<and> q_list q' m = butlast (q_list q m) \<and>
    q_cap q' = q_cap q \<and> buf q' = buf q"
proof -
  obtain n h t where e: "buf_size q = int n" "head q = int h" "tail q = int t" "ring_ok n h t" "0 < n"
    "q_lock q = mutex_at (current k) 0" "current k \<noteq> NULL"
    "q_count q = int (ring_len n h t)" "\<And>m. q_list q m = ring (buf q) m n h t" "q_cap q = n - 1"
    by (rule q_okE [OF q]) blast
  have cnt: "q_count (q\<lparr>q_lock := l\<rparr>) = q_count q" for l by (simp add: q_count_def)
  define t' where "t' = (if 0 < ring_len n h t then (t + n - 1) mod n else t)"
  have tn: "int t + int n - 1 = int (t + n - 1)" using e(5) by simp
  have cm: "c_mod (int t + int n - 1) (int n) = int ((t + n - 1) mod n)"
    unfolding tn by (rule c_mod_int [OF e(5)])
  have b1: "q\<lparr>q_lock := l, tail := x, q_lock := mutex_at (current k) 0\<rparr> = q\<lparr>tail := x\<rparr>" for l x
    using e(6) by (cases q) simp
  have b2: "q\<lparr>q_lock := mutex_at (current k) 0\<rparr> = q\<lparr>tail := int t\<rparr>"
    using e(3,6) by (cases q) simp
  have run: "ioqueue_pop_back_char k q = Some (k, q\<lparr>tail := int t'\<rparr>)"
  proof (cases "0 < ring_len n h t")
    case True
    then have "0 < q_count q" "t' = (t + n - 1) mod n" by (simp_all add: e(8) t'_def)
    then show ?thesis using cm b1
      by (simp add: ioqueue_pop_back_char_def q_acquire [OF q] q_release cnt e(1,3) del: One_nat_def)
  next
    case False
    then have "q_count q = 0" "t' = t" by (simp_all add: e(8) t'_def)
    then show ?thesis using b2
      by (simp add: ioqueue_pop_back_char_def q_acquire [OF q] q_release cnt)
  qed
  moreover have "q_ok k (q\<lparr>tail := int t'\<rparr>)" using q e(4,5) by (auto simp: q_ok_def t'_def e(1) ring_ok_def)
  moreover have "q_list (q\<lparr>tail := int t'\<rparr>) m = butlast (q_list q m)"
  proof (cases "0 < ring_len n h t")
    case True
    then show ?thesis using ring_back(1) [OF e(4) True, of "buf q" m] by (simp add: q_list_def t'_def e(1,2,3))
  next
    case False
    then have "ring (buf q) m n h t = []" by (simp add: ring_def)
    then show ?thesis using False by (simp add: q_list_def t'_def e(1,2,3))
  qed
  ultimately show ?thesis by (intro exI [of _ "q\<lparr>tail := int t'\<rparr>"]) (simp add: q_cap_def)
qed

lemma getline_case:
  assumes q: "q_ok k q" and l: "q_list q m = pre @ 10 # rest" "10 \<notin> set pre" and lim: "- 1 \<le> lim"
    and out: "dest + length pre < buf q \<or> buf q + nat (buf_size q) \<le> dest"
  shows "\<exists>q'. ioqueue_getline k q m dest lim
      = Some (int (line_taken lim pre) + 1, k, q', writes m dest (line_out lim pre)) \<and>
    q_ok k q' \<and> q_list q' (writes m dest (line_out lim pre)) = rest"
proof -
  obtain n h t where e: "buf_size q = int n" "head q = int h" "tail q = int t" "ring_ok n h t" "0 < n"
    "q_lock q = mutex_at (current k) 0" "current k \<noteq> NULL"
    "q_count q = int (ring_len n h t)" "\<And>m. q_list q m = ring (buf q) m n h t" "q_cap q = n - 1"
    by (rule q_okE [OF q]) blast
  let ?i = "int ((h + 1) mod n)" and ?m = "writes m dest (line_out lim pre)"
  have scan: "line_scan (buf q) (int n) m (int t) ?i = Some True"
    using line_scan_ring [OF e(4), of "buf q" m] l(1) by (simp add: e(9) [symmetric])
  have lim0: "(if lim = - 1 then - 1 else lim - int 0) = lim" by simp
  have r: "ring (buf q) m n h t = pre @ 10 # rest" using l(1) by (simp add: e(9))
  have d: "\<forall>a. dest \<le> a \<and> a \<le> dest + length pre \<longrightarrow> a < buf q \<or> buf q + n \<le> a"
    using out by (auto simp: e(1))
  have "lim = - 1 \<or> int 0 \<le> lim" using lim by auto
  from line_copy_ring [OF e(4) r l(2) e(5) d this, unfolded lim0] obtain h1 pre1 where
    cp: "line_copy (buf q) (int n) (int t) lim dest ?i 0 m = Some (int ((h1 + 1) mod n), int (line_taken lim pre), ?m)"
    and h1: "ring_ok n h1 t" "10 \<notin> set pre1" "ring (buf q) ?m n h1 t = pre1 @ 10 # rest" by auto
  obtain h2 where sk: "line_skip (buf q) (int n) (int t) ?m (int ((h1 + 1) mod n)) = Some (int h2)"
    and h2: "ring_ok n h2 t" "ring (buf q) ?m n h2 t = rest"
    using line_skip_ring [OF h1(1,3,2)] by blast
  have b: "q\<lparr>head := int h2, q_lock := mutex_at (current k) 0\<rparr> = q\<lparr>head := int h2\<rparr>"
    using e(6) by (cases q) simp
  have "ioqueue_getline k q m dest lim = Some (int (line_taken lim pre) + 1, k, q\<lparr>head := int h2\<rparr>, ?m)"
    using scan cp sk ring_next_int [OF e(4)] b
    by (simp add: ioqueue_getline_def q_acquire [OF q] q_release e(1,2,3) del: One_nat_def)
  moreover have "q_ok k (q\<lparr>head := int h2\<rparr>)" using q h2(1) by (simp add: q_ok_def e(1) ring_ok_def)
  moreover have "q_list (q\<lparr>head := int h2\<rparr>) ?m = rest" using h2(2) by (simp add: q_list_def e(1,3))
  ultimately show ?thesis by blast
qed

lemma getline_waits:
  assumes q: "q_ok k q" and l: "10 \<notin> set (q_list q m)"
  shows "ioqueue_getline k q m dest lim = None"
proof -
  obtain n h t where e: "buf_size q = int n" "head q = int h" "tail q = int t" "ring_ok n h t" "0 < n"
    "q_lock q = mutex_at (current k) 0" "current k \<noteq> NULL"
    "q_count q = int (ring_len n h t)" "\<And>m. q_list q m = ring (buf q) m n h t" "q_cap q = n - 1"
    by (rule q_okE [OF q]) blast
  have "line_scan (buf q) (int n) m (int t) (int ((h + 1) mod n)) = Some False"
    using line_scan_ring [OF e(4), of "buf q" m] l by (simp add: e(9) [symmetric])
  then show ?thesis
    using ring_next_int [OF e(4)]
    by (simp add: ioqueue_getline_def q_acquire [OF q] e(1,2,3) del: One_nat_def)
qed

section \<open>A bounded queue of characters\<close>

text \<open>
  What the keyboard needs of the queue: to append a character, which a full queue drops, and to
  take back the last one. The contents are a list of at most \<open>cap\<close> characters.
\<close>

fun edit :: "nat \<Rightarrow> u8 list \<Rightarrow> u8 \<Rightarrow> u8 list" where
  "edit n xs c = (if c = 8 then butlast xs else if length xs < n then xs @ [c] else xs)"

declare edit.simps [simp del]

locale char_queue =
  fixes inv :: "'s \<Rightarrow> bool"
    and content :: "'s \<Rightarrow> u8 list"
    and cap :: "'s \<Rightarrow> nat"
    and put :: "'s \<Rightarrow> u8 \<Rightarrow> 's option"
    and unput :: "'s \<Rightarrow> 's option"
  assumes put_ok: "inv s \<Longrightarrow> \<exists>s'. put s c = Some s' \<and> inv s' \<and> cap s' = cap s \<and>
      content s' = (if length (content s) < cap s then content s @ [c] else content s)"
    and unput_ok: "inv s \<Longrightarrow> \<exists>s'. unput s = Some s' \<and> inv s' \<and> cap s' = cap s \<and> content s' = butlast (content s)"
begin

text \<open>A keyboard that appends characters and takes one back for a backspace edits the line.\<close>

definition key :: "'s \<Rightarrow> u8 \<Rightarrow> 's option" where
  "key s c = (if c = 8 then unput s else put s c)"

lemma key_ok: "inv s \<Longrightarrow> \<exists>s'. key s c = Some s' \<and> inv s' \<and> cap s' = cap s \<and> content s' = edit (cap s) (content s) c"
  using put_ok [of s c] unput_ok [of s] by (simp add: key_def edit.simps)

fun keys :: "'s \<Rightarrow> u8 list \<Rightarrow> 's option" where
  "keys s [] = Some s"
| "keys s (c # cs) = Option.bind (key s c) (\<lambda>s. keys s cs)"

lemma keys_ok:
  "inv s \<Longrightarrow> \<exists>s'. keys s cs = Some s' \<and> inv s' \<and> cap s' = cap s \<and> content s' = foldl (edit (cap s)) (content s) cs"
proof (induction cs arbitrary: s)
  case (Cons c cs)
  obtain s1 where s1: "key s c = Some s1" "inv s1" "cap s1 = cap s" "content s1 = edit (cap s) (content s) c"
    using key_ok [OF Cons.prems] by blast
  show ?case using Cons.IH [OF s1(2)] s1 by simp
qed simp

lemma edit_bounded: "length xs \<le> n \<Longrightarrow> length (edit n xs c) \<le> n"
  by (auto simp: edit.simps)

end

interpretation q_chars: char_queue "\<lambda>(k, q, m). q_ok k q" "\<lambda>(k, q, m). q_list q m" "\<lambda>(k, q, m). q_cap q"
    "\<lambda>(k, q, m) c. ioqueue_putchar k q m c" "\<lambda>(k, q, m). map_option (\<lambda>(k, q). (k, q, m)) (ioqueue_pop_back_char k q)"
proof unfold_locales
  fix s :: "'a sys_scheme \<times> ioqueue \<times> mem" and c
  obtain k q m where s: "s = (k, q, m)" by (cases s) auto
  assume "(case s of (k, q, m) \<Rightarrow> q_ok k q)"
  then show "\<exists>s'. (case s of (k, q, m) \<Rightarrow> ioqueue_putchar k q m) c = Some s' \<and> (case s' of (k, q, m) \<Rightarrow> q_ok k q) \<and>
      (case s' of (k, q, m) \<Rightarrow> q_cap q) = (case s of (k, q, m) \<Rightarrow> q_cap q) \<and>
      (case s' of (k, q, m) \<Rightarrow> q_list q m) =
      (if length (case s of (k, q, m) \<Rightarrow> q_list q m) < (case s of (k, q, m) \<Rightarrow> q_cap q)
       then (case s of (k, q, m) \<Rightarrow> q_list q m) @ [c] else (case s of (k, q, m) \<Rightarrow> q_list q m))"
    using putchar_case [of k q m c] by (fastforce simp: s)
next
  fix s :: "'a sys_scheme \<times> ioqueue \<times> mem"
  obtain k q m where s: "s = (k, q, m)" by (cases s) auto
  assume "(case s of (k, q, m) \<Rightarrow> q_ok k q)"
  then show "\<exists>s'. (case s of (k, q, m) \<Rightarrow> map_option (\<lambda>(k, q). (k, q, m)) (ioqueue_pop_back_char k q)) = Some s' \<and>
      (case s' of (k, q, m) \<Rightarrow> q_ok k q) \<and>
      (case s' of (k, q, m) \<Rightarrow> q_cap q) = (case s of (k, q, m) \<Rightarrow> q_cap q) \<and>
      (case s' of (k, q, m) \<Rightarrow> q_list q m) = butlast (case s of (k, q, m) \<Rightarrow> q_list q m)"
    using pop_back_case [of k q m] by (fastforce simp: s)
qed

section \<open>Properties\<close>

text \<open>\<open>ioqueue_init\<close> for 1 to 2031 characters gives an empty queue of that capacity, whose buffer
  lies inside its block unless the size asked for is a block size of \<open>kmalloc\<close>: one byte more is
  used than was asked for.\<close>

theorem ioqueue_init_correct:
  assumes "kmem_inv k km A" "current k \<noteq> NULL" "0 < sz" "sz \<le> 2032"
    and "\<exists>j \<le> MAX_ORDER. pg_list (kernel_area (bd km) j) \<noteq> []"
  shows "\<exists>q' km' A' m'. ioqueue_init k km m q (int sz) = Some (q', k, km', m') \<and> kmem_inv k km' A' \<and>
    q_ok k q' \<and> q_list q' m' = [] \<and> q_cap q' = sz \<and>
    ({buf q'..<buf q' + nat (buf_size q')} \<subseteq> room km' (buf q') \<longleftrightarrow> sz < mem_block_size (find_class sz 0))"
proof -
  have u: "unat (word_of_int (int sz) :: u32) = sz" using assms(4) by (simp add: unat_of_nat)
  have "(word_of_int (int sz) :: u32) \<le> MAX_BLOCK_SIZE" using assms(4) u by (simp add: MAX_BLOCK_SIZE_def word_le_nat_alt)
  from kmalloc_small_case [OF assms(1) this] assms(5) u obtain a km' A' p where
    al: "kmalloc k km (word_of_int (int sz)) = Some (a, k, km')" "kmem_inv k km' A'" "find_class sz 0 < 7"
      "a \<in> blocks_of (find_class sz 0) p" "p \<in> class_pages km' (find_class sz 0)" by auto
  define q' where "q' = q\<lparr>buf := a, buf_size := int sz + 1, q_lock := mutex_lock_init, char_cond := cond_init,
       head := int sz, tail := 0\<rparr>"
  have room: "room km' a = {a..<a + mem_block_size (find_class sz 0)}" by (rule room_eq [OF al(2,3,5,4)])
  have "ioqueue_init k km m q (int sz) = Some (q', k, km', memset a 0 (nat (int sz + 1)) m)"
    using al(1) by (simp add: ioqueue_init_def q'_def Let_def)
  moreover have ok: "q_ok k q'" using assms(2) mutex_init_at [of "current k"] by (simp add: q_ok_def q'_def)
  moreover have "q_list q' m' = []" for m'
    by (simp add: q_list_def q'_def ring_def ring_len_def nat_add_distrib)
  moreover have "{a..<a + (sz + 1)} \<subseteq> {a..<a + mem_block_size (find_class sz 0)} \<longleftrightarrow> sz < mem_block_size (find_class sz 0)"
    by auto
  ultimately show ?thesis using al(2) room
    by (intro exI [of _ q'] exI [of _ km'] exI [of _ A'] exI [of _ "memset a 0 (nat (int sz + 1)) m"])
      (simp add: q_cap_def q'_def nat_add_distrib)
qed

definition q_any :: ioqueue where
  "q_any = \<lparr>q_lock = mutex_lock_init, char_cond = cond_init, line_cond = cond_init, buf = 0xc1000000,
     buf_size = 4, head = 3, tail = 2\<rparr>"

theorem ioqueue_init_correct_witness:
  "\<exists>q' km' m'. ioqueue_init sys0 kmem0 (\<lambda>_. 0) q_any 100 = Some (q', sys0, km', m') \<and> q_ok sys0 q' \<and> q_cap q' = 100 \<and>
     {buf q'..<buf q' + nat (buf_size q')} \<subseteq> room km' (buf q')"
proof -
  have "(100 :: nat) < mem_block_size (find_class 100 0)"
    by (simp add: find_class.simps mem_block_size_def)
  then show ?thesis
    using ioqueue_init_correct [OF kmem0_inv current_sys0 _ _ kmem0_pool, of 100 "\<lambda>_. 0" q_any] by auto
qed

text \<open>C30: characters come out of the queue in the order they went in: \<open>ioqueue_getchar\<close> returns the
  first character and removes it, and waits only on an empty queue; \<open>ioqueue_putchar\<close> and
  \<open>ioqueue_pop_back_char\<close> always return, and any sequence of them leaves in the queue the line edited by
  the characters, a full queue dropping what does not fit.\<close>

theorem ioqueue_fifo:
  assumes "q_ok k q"
  shows "(\<exists>k' q' m'. char_queue.keys (\<lambda>(k, q, m) c. ioqueue_putchar k q m c)
        (\<lambda>(k, q, m). map_option (\<lambda>(k, q). (k, q, m)) (ioqueue_pop_back_char k q)) (k, q, m) cs = Some (k', q', m') \<and>
      q_ok k' q' \<and> q_list q' m' = foldl (edit (q_cap q)) (q_list q m) cs) \<and>
    ioqueue_getchar k q m = (if q_list q m = [] then None
      else Some (hd (q_list q m), k, q\<lparr>head := c_mod (head q + 1) (buf_size q)\<rparr>)) \<and>
    (q_list q m \<noteq> [] \<longrightarrow> q_list (q\<lparr>head := c_mod (head q + 1) (buf_size q)\<rparr>) m = tl (q_list q m))"
  using q_chars.keys_ok [of "(k, q, m)" cs] getchar_case [OF assms, of m] assms by auto

definition q3 :: ioqueue where
  "q3 = \<lparr>q_lock = mutex_lock_init, char_cond = cond_init, line_cond = cond_init, buf = 0xc1000000,
     buf_size = 4, head = 3, tail = 0\<rparr>"

lemma q3_ok: "q_ok sys0 q3" "q_list q3 m = []" "q_cap q3 = 3" "q_ok sys0 q_any" "q_cap q_any = 3"
  using mutex_init_at [of "current sys0"] current_sys0
  by (simp_all add: q_ok_def q3_def q_any_def q_list_def ring_def ring_len_def q_cap_def)

theorem ioqueue_fifo_witness:
  "\<exists>k' q' m'. char_queue.keys (\<lambda>(k, q, m) c. ioqueue_putchar k q m c)
      (\<lambda>(k, q, m). map_option (\<lambda>(k, q). (k, q, m)) (ioqueue_pop_back_char k q)) (sys0, q3, \<lambda>_. 0)
      [97, 8, 98, 99, 100, 101] = Some (k', q', m') \<and> q_list q' m' = [98, 99, 100]"
  using ioqueue_fifo [OF q3_ok(1), of "\<lambda>_. 0" "[97, 8, 98, 99, 100, 101]"]
  by (simp add: q3_ok(2,3) edit.simps) blast

text \<open>\<open>ioqueue_getline\<close> waits until the queue holds a newline and then takes the first line from the
  queue. It copies the line with its newline when there is room for both, and otherwise only the first
  \<open>lim\<close> characters; it returns one more than the characters before the newline it copied, so one more
  than \<open>lim\<close> when the line did not fit.\<close>

theorem ioqueue_getline_correct:
  assumes "q_ok k q" "- 1 \<le> lim"
  shows "(10 \<notin> set (q_list q m) \<longrightarrow> ioqueue_getline k q m dest lim = None) \<and>
    (\<forall>pre rest. q_list q m = pre @ 10 # rest \<and> 10 \<notin> set pre \<and>
        (dest + length pre < buf q \<or> buf q + nat (buf_size q) \<le> dest) \<longrightarrow>
      (\<exists>q'. ioqueue_getline k q m dest lim
        = Some (int (line_taken lim pre) + 1, k, q', writes m dest (line_out lim pre)) \<and>
       q_ok k q' \<and> q_list q' (writes m dest (line_out lim pre)) = rest))"
  using getline_waits [OF assms(1)] getline_case [OF assms(1) _ _ assms(2)] by blast

theorem ioqueue_getline_correct_witness:
  "\<exists>q'. ioqueue_getline sys0 q_any ((\<lambda>_. 0)(0xc1000000 := 97, 0xc1000001 := 10)) 7 1
     = Some (2, sys0, q', writes ((\<lambda>_. 0)(0xc1000000 := 97, 0xc1000001 := 10)) 7 [97])"
proof -
  let ?m = "(\<lambda>_. 0)(0xc1000000 := 97, 0xc1000001 := 10) :: mem"
  have l: "q_list q_any ?m = [97] @ 10 # [] \<and> 10 \<notin> set [97 :: u8] \<and>
      (7 + length [97 :: u8] < buf q_any \<or> buf q_any + nat (buf_size q_any) \<le> 7)"
    by (simp add: q_list_def q_any_def ring_def ring_len_def upt_rec)
  have "- 1 \<le> (1 :: int)" by simp
  note c = ioqueue_getline_correct [OF q3_ok(4) this, of ?m 7, THEN conjunct2]
  from c [THEN spec, THEN spec, THEN mp, OF l] show ?thesis
    by (auto simp: line_taken_def line_out_def)
qed

end
