(* ===== verification/Console.thy ===== *)
theory Console
  imports Printk Sync
begin

text \<open>
  device/console.c and \<open>printk\<close>, \<open>vprintk\<close> of lib/kernel/printk.c: text goes through \<open>console_buf\<close>, whose
  address is a parameter, to the screen. \<open>put_str\<close> is assembly; here it appends the bytes of a
  string to the sequence of bytes sent to the screen.
\<close>

record console =
  console_lock :: mutex
  screen :: "u8 list"

partial_function (option) str_at :: "mem \<Rightarrow> nat \<Rightarrow> u8 list option" where
  "str_at m p = (if m p \<noteq> 0 then Option.bind (str_at m (p + 1)) (\<lambda>s. Some (m p # s)) else Some [])"

definition put_str :: "mem \<Rightarrow> nat \<Rightarrow> console \<Rightarrow> console option" where
  "put_str m p con = map_option (\<lambda>s. con\<lparr>screen := screen con @ s\<rparr>) (str_at m p)"

definition vprintk :: "nat \<Rightarrow> nat \<Rightarrow> u32 list \<Rightarrow> console \<times> mem \<Rightarrow> (int \<times> console \<times> mem) option" where
  "vprintk console_buf format ap = (\<lambda>(con, m). do {
     (ret, m) \<leftarrow> vsprint console_buf format ap m;
     con \<leftarrow> put_str m console_buf con;
     Some (ret, con, m) })"

definition printk :: "nat \<Rightarrow> nat \<Rightarrow> u32 list \<Rightarrow> console \<times> mem \<Rightarrow> (int \<times> console \<times> mem) option" where
  "printk console_buf format ap cm = vprintk console_buf format ap cm"

definition console_init :: "console \<Rightarrow> console" where
  "console_init con = con\<lparr>console_lock := mutex_lock_init\<rparr>"

definition console_acquire :: "'a sys_scheme \<Rightarrow> console \<Rightarrow> ('a sys_scheme \<times> console) option" where
  "console_acquire k con = do { (k, l) \<leftarrow> mutex_acquire k (console_lock con); Some (k, con\<lparr>console_lock := l\<rparr>) }"

definition console_release :: "'a sys_scheme \<Rightarrow> console \<Rightarrow> ('a sys_scheme \<times> console) option" where
  "console_release k con = do { (k, l) \<leftarrow> mutex_release k (console_lock con); Some (k, con\<lparr>console_lock := l\<rparr>) }"

definition console_printk :: "nat \<Rightarrow> nat \<Rightarrow> u32 list \<Rightarrow> 'a sys_scheme \<Rightarrow> console \<Rightarrow> mem \<Rightarrow>
    ('a sys_scheme \<times> console \<times> mem) option" where
  "console_printk console_buf format ap k con m = do {
     (k, con) \<leftarrow> console_acquire k con;
     (ret, con, m) \<leftarrow> vprintk console_buf format ap (con, m);
     (k, con) \<leftarrow> console_release k con;
     Some (k, con, m) }"

text \<open>
  \<open>console_print\<close> uses the caller's buffer as the format, and passes no arguments: what \<open>va_arg\<close>
  then reads is whatever lies on the stack above, the parameter \<open>stack\<close>.
\<close>

definition console_print :: "nat \<Rightarrow> u32 list \<Rightarrow> nat \<Rightarrow> int \<Rightarrow> 'a sys_scheme \<Rightarrow> console \<Rightarrow> mem \<Rightarrow>
    (int \<times> 'a sys_scheme \<times> console \<times> mem) option" where
  "console_print console_buf stack p lim k con m = do {
     (k, con) \<leftarrow> console_acquire k con;
     (c, m) \<leftarrow> snprintk console_buf (word_of_int lim) p stack m;
     con \<leftarrow> put_str m console_buf con;
     (k, con) \<leftarrow> console_release k con;
     Some (c, k, con, m) }"

section \<open>What is printed\<close>

lemma str_at_cstr: "cstr m p xs \<Longrightarrow> str_at m p = Some xs"
proof (induction xs arbitrary: p)
  case Nil
  then show ?case by (subst str_at.simps) simp
next
  case (Cons x xs)
  then show ?case by (subst str_at.simps) (simp add: cstr_Cons)
qed

lemma cstr_writes: "0 \<notin> set xs \<Longrightarrow> cstr (writes m p (xs @ [0])) p xs"
  by (auto simp: cstr_def writes_def nth_append)

definition con_ok :: "'a sys_scheme \<Rightarrow> console \<Rightarrow> bool" where
  "con_ok k con \<longleftrightarrow> current k \<noteq> NULL \<and> console_lock con = mutex_at (current k) 0"

lemma con_acquire: "con_ok k con \<Longrightarrow> console_acquire k con = Some (k, con\<lparr>console_lock := mutex_at (current k) (Suc 0)\<rparr>)"
  using mutex_acquire_at [of k 0] by (simp add: console_acquire_def con_ok_def)

lemma con_release: "console_release k (con\<lparr>console_lock := mutex_at (current k) (Suc 0)\<rparr>)
    = Some (k, con\<lparr>console_lock := mutex_at (current k) 0\<rparr>)"
  using mutex_release_at [of 0 k] by (simp add: console_release_def)

lemma console_printk_items:
  assumes k: "con_ok k con" and items: "\<forall>f \<in> set fs. item_ok m cb f" "cstr m fmt (items_text fs)"
    "fmt + length (items_text fs) < cb \<or> cb + 500 \<le> fmt" "length (items_out fs) < 500"
  shows "console_printk cb fmt (items_args fs) k con m
    = Some (k, con\<lparr>screen := screen con @ takeWhile (\<lambda>c. c \<noteq> 0) (items_out fs)\<rparr>, writes m cb (items_out fs @ [0]))"
proof -
  let ?m = "writes m cb (items_out fs @ [0])" and ?con = "con\<lparr>console_lock := mutex_at (current k) (Suc 0)\<rparr>"
  let ?s = "takeWhile (\<lambda>c. c \<noteq> 0) (items_out fs)"
  have v: "vsprint cb fmt (items_args fs) m = Some (int (length (items_out fs)), ?m)"
    using vsn_loop_items [of fs m cb fmt 0 0] items by (simp add: vsprint_def vsnprint_def)
  have "cstr ?m cb ?s"
  proof -
    have "\<exists>zs. items_out fs @ [0] = ?s @ 0 # zs"
    proof (cases "0 \<in> set (items_out fs)")
      case True
      then obtain ys zs where "items_out fs = ys @ 0 # zs" "0 \<notin> set ys" by (metis split_list_first)
      moreover from this have "?s = ys" by (auto simp: takeWhile_append)
      ultimately show ?thesis by simp
    next
      case False
      then have "?s = items_out fs" by (intro takeWhile_eq_all_conv [THEN iffD2]) auto
      then show ?thesis by (intro exI [of _ "[]"]) (simp only:)
    qed
    then obtain zs where zs: "items_out fs @ [0] = ?s @ 0 # zs" by blast
    have "0 \<notin> set ?s" by (auto dest: set_takeWhileD)
    then show ?thesis unfolding zs by (auto simp: cstr_def writes_def nth_append)
  qed
  then have "put_str ?m cb ?con = Some (?con\<lparr>screen := screen con @ ?s\<rparr>)"
    by (simp add: put_str_def str_at_cstr)
  then have "vprintk cb fmt (items_args fs) (?con, m) = Some (int (length (items_out fs)), ?con\<lparr>screen := screen con @ ?s\<rparr>, ?m)"
    by (simp add: vprintk_def v)
  moreover have "?con\<lparr>screen := x\<rparr> = con\<lparr>screen := x, console_lock := mutex_at (current k) (Suc 0)\<rparr>" for x
    by (cases con) simp
  moreover have "con\<lparr>screen := x, console_lock := mutex_at (current k) 0\<rparr> = con\<lparr>screen := x\<rparr>" for x
    using k by (cases con) (simp add: con_ok_def)
  ultimately show ?thesis
    by (simp add: console_printk_def con_acquire [OF k] con_release)
qed

section \<open>Properties\<close>

text \<open>\<open>console_printk\<close> with the console lock free prints exactly the text its format and arguments stand
  for, up to the first NUL, and gives the lock back.\<close>

theorem console_printk_correct:
  assumes "con_ok k con" "\<forall>f \<in> set fs. item_ok m cb f" "cstr m fmt (items_text fs)"
    "fmt + length (items_text fs) < cb \<or> cb + 500 \<le> fmt" "length (items_out fs) < 500"
  shows "\<exists>m'. console_printk cb fmt (items_args fs) k con m
    = Some (k, con\<lparr>screen := screen con @ takeWhile (\<lambda>c. c \<noteq> 0) (items_out fs)\<rparr>, m')"
  using console_printk_items [OF assms] by blast

definition con0 :: console where
  "con0 = \<lparr>console_lock = mutex_lock_init, screen = []\<rparr>"

lemma con0_ok: "current k \<noteq> NULL \<Longrightarrow> con_ok k con0"
  using mutex_init_at [of "current k"] by (simp add: con_ok_def con0_def)

definition sys1 :: sys where
  "sys1 = \<lparr>eflags = 0x202, current = 0xc009e000, ready_list = [], tstate = (\<lambda>_. RUNNING)\<rparr>"

lemma con0_sys1: "con_ok sys1 con0"
  by (rule con0_ok) (simp add: sys1_def NULL_def)

theorem console_printk_correct_witness:
  "\<exists>m'. console_printk 1000 100 [] sys1 con0 hello_mem = Some (sys1, con0\<lparr>screen := [104, 105]\<rparr>, m')"
proof -
  have "\<forall>f \<in> set [Lit 104, Lit 105]. item_ok hello_mem 1000 f" by simp
  from console_printk_correct [OF con0_sys1 this, of 100] show ?thesis
    using hello_cstr by (simp add: con0_def)
qed

text \<open>\<open>console_print\<close>, to which \<open>sys_write\<close> hands the user's bytes, reads them as a format: a percent
  sign with a letter that is no conversion stops the kernel.\<close>

theorem console_print_panics:
  assumes "m p = 37" "m (p + 1) \<notin> {0, 37, 100, 115, 99, 120}" "0 < lim" "lim < 2147483648"
  shows "console_print cb stack p lim k con m = None"
proof -
  have "0 < (word_of_int lim :: u32)"
  proof -
    have "uint (word_of_int lim :: u32) = lim" using assms(3,4) by (simp add: uint_word_of_int)
    then show ?thesis using assms(3) by (simp add: word_less_def)
  qed
  then have "vsn_loop cb (word_of_int lim) p 0 0 False stack m = None"
    using assms(1,2) by (subst vsn_loop.simps) (subst vsn_loop.simps, simp add: convert_def)
  then show ?thesis
    by (cases "console_acquire k con") (auto simp: console_print_def snprintk_def vsnprint_def)
qed

theorem console_print_panics_witness:
  "console_print 1000 [] 100 2 sys1 con0 (hello_mem(100 := 37, 101 := 113)) = None"
  by (rule console_print_panics) simp_all

end
