(* ===== verification/Keyboard.thy ===== *)
theory Keyboard
  imports IoQueue Console
begin

text \<open>
  device/keyboard.c: the keyboard interrupt. The state is the four modifier flags and the queue
  \<open>keyboard_buf\<close>; the scan code read from port 0x60 is the argument. The echo goes through
  \<open>console_printk\<close> with the format at address \<open>fmt\<close>; both the console lock and the queue lock are
  taken in the interrupt, so the handler is described for the case that no thread holds them.
\<close>

definition ESC :: u8 where "ESC = 27"
definition ENTER :: u8 where "ENTER = 0x0A"
definition L_CTRL_MAKE :: u8 where "L_CTRL_MAKE = 0x1D"
definition L_CTRL_BREAK :: u8 where "L_CTRL_BREAK = 0x9D"
definition L_SHFT_MAKE :: u8 where "L_SHFT_MAKE = 0x2A"
definition L_SHFT_BREAK :: u8 where "L_SHFT_BREAK = 0xAA"
definition R_SHFT_MAKE :: u8 where "R_SHFT_MAKE = 0x36"
definition R_SHFT_BREAK :: u8 where "R_SHFT_BREAK = 0xB6"
definition L_ALT_MAKE :: u8 where "L_ALT_MAKE = 0x38"
definition L_ALT_BREAK :: u8 where "L_ALT_BREAK = 0xB8"
definition CAPS_MAKE :: u8 where "CAPS_MAKE = 0x3A"

lemmas key_codes = ESC_def ENTER_def L_CTRL_MAKE_def L_CTRL_BREAK_def L_SHFT_MAKE_def L_SHFT_BREAK_def
  R_SHFT_MAKE_def R_SHFT_BREAK_def L_ALT_MAKE_def L_ALT_BREAK_def CAPS_MAKE_def

definition ch :: "char \<Rightarrow> u8" where "ch c = of_char c"

definition keymap :: "(u8 \<times> u8) list" where
  "keymap = [(0, 0), (ESC, ESC), (ch CHR ''1'', ch CHR ''!''), (ch CHR ''2'', ch CHR ''@''), (ch CHR ''3'', ch CHR ''#''),
     (ch CHR ''4'', ch CHR ''$''), (ch CHR ''5'', ch CHR ''%''), (ch CHR ''6'', ch CHR ''^''), (ch CHR ''7'', ch CHR ''&''),
     (ch CHR ''8'', ch CHR ''*''), (ch CHR ''9'', ch CHR ''(''), (ch CHR ''0'', ch CHR '')''), (ch CHR ''-'', ch CHR ''_''),
     (ch CHR ''='', ch CHR ''+''), (8, 8), (9, 9), (ch CHR ''q'', ch CHR ''Q''), (ch CHR ''w'', ch CHR ''W''),
     (ch CHR ''e'', ch CHR ''E''), (ch CHR ''r'', ch CHR ''R''), (ch CHR ''t'', ch CHR ''T''), (ch CHR ''y'', ch CHR ''Y''),
     (ch CHR ''u'', ch CHR ''U''), (ch CHR ''i'', ch CHR ''I''), (ch CHR ''o'', ch CHR ''O''), (ch CHR ''p'', ch CHR ''P''),
     (ch CHR ''['', ch CHR ''{''), (ch CHR '']'', ch CHR ''}''), (ENTER, ENTER), (L_CTRL_MAKE, L_CTRL_MAKE),
     (ch CHR ''a'', ch CHR ''A''), (ch CHR ''s'', ch CHR ''S''), (ch CHR ''d'', ch CHR ''D''), (ch CHR ''f'', ch CHR ''F''),
     (ch CHR ''g'', ch CHR ''G''), (ch CHR ''h'', ch CHR ''H''), (ch CHR ''j'', ch CHR ''J''), (ch CHR ''k'', ch CHR ''K''),
     (ch CHR ''l'', ch CHR ''L''), (ch CHR '';'', ch CHR '':''), (39, 34), (96, ch CHR ''~''), (L_SHFT_MAKE, L_SHFT_MAKE),
     (92, ch CHR ''|''), (ch CHR ''z'', ch CHR ''Z''), (ch CHR ''x'', ch CHR ''X''), (ch CHR ''c'', ch CHR ''C''),
     (ch CHR ''v'', ch CHR ''V''), (ch CHR ''b'', ch CHR ''B''), (ch CHR ''n'', ch CHR ''N''), (ch CHR ''m'', ch CHR ''M''),
     (ch CHR '','', ch CHR ''<''), (ch CHR ''.'', ch CHR ''>''), (ch CHR ''/'', ch CHR ''?''), (R_SHFT_MAKE, R_SHFT_MAKE),
     (ch CHR ''*'', ch CHR ''*''), (L_ALT_MAKE, L_ALT_MAKE), (ch CHR '' '', ch CHR '' ''), (CAPS_MAKE, CAPS_MAKE)]"

record kbd =
  keyboard_buf :: ioqueue
  shift_status :: bool
  ctrl_status :: bool
  alt_status :: bool
  caps_status :: bool

text \<open>The character of a code that is neither a break code nor a modifier.\<close>

definition key_char :: "kbd \<Rightarrow> u8 \<Rightarrow> u8" where
  "key_char kb code =
     (let c = (if shift_status kb then snd else fst) (keymap ! unat code)
      in if caps_status kb
         then (if 65 \<le> sint c \<and> sint c \<le> 90 then c + (97 - 65)
               else if 97 \<le> sint c \<and> sint c \<le> 122 then c - (97 - 65) else c)
         else c)"

type_synonym 'a kstate = "'a sys_scheme \<times> kbd \<times> console \<times> mem"

definition break_code :: "u8 \<Rightarrow> kbd \<Rightarrow> kbd" where
  "break_code code kb =
     (if code = L_SHFT_BREAK then kb\<lparr>shift_status := False\<rparr>
      else if code = R_SHFT_BREAK then kb\<lparr>shift_status := False\<rparr>
      else if code = L_CTRL_BREAK then kb\<lparr>ctrl_status := False\<rparr>
      else if code = L_ALT_BREAK then kb\<lparr>alt_status := False\<rparr>
      else kb)"

definition type_char :: "nat \<Rightarrow> nat \<Rightarrow> u8 \<Rightarrow> 'a kstate \<Rightarrow> 'a kstate option" where
  "type_char cb fmt code = (\<lambda>(k, kb, con, m). do {
     ASSERT (code \<le> 0x3a);
     let c = key_char kb code;
     (k, q, m) \<leftarrow> (if c = 8
       then do { (k, q) \<leftarrow> ioqueue_pop_back_char k (keyboard_buf kb); Some (k, q, m) }
       else ioqueue_putchar k (keyboard_buf kb) m c);
     let kb = kb\<lparr>keyboard_buf := q\<rparr>;
     (k, con, m) \<leftarrow> console_printk cb fmt [scast c] k con m;
     Some (k, kb, con, m) })"

definition keyboard_handler :: "nat \<Rightarrow> nat \<Rightarrow> u8 \<Rightarrow> 'a kstate \<Rightarrow> 'a kstate option" where
  "keyboard_handler cb fmt code = (\<lambda>(k, kb, con, m).
     if code = 0xE0 then Some (k, kb, con, m)
     else if code AND 0x80 \<noteq> 0 then Some (k, break_code code kb, con, m)
     else if code = L_SHFT_MAKE then Some (k, kb\<lparr>shift_status := True\<rparr>, con, m)
     else if code = R_SHFT_MAKE then Some (k, kb\<lparr>shift_status := True\<rparr>, con, m)
     else if code = L_CTRL_MAKE then Some (k, kb\<lparr>ctrl_status := True\<rparr>, con, m)
     else if code = L_ALT_MAKE then Some (k, kb\<lparr>alt_status := True\<rparr>, con, m)
     else if code = CAPS_MAKE then Some (k, kb\<lparr>caps_status := \<not> caps_status kb\<rparr>, con, m)
     else type_char cb fmt code (k, kb, con, m))"

definition keyboard_read :: "'a kstate \<Rightarrow> (u8 \<times> 'a kstate) option" where
  "keyboard_read = (\<lambda>(k, kb, con, m). do {
     (c, k, q) \<leftarrow> ioqueue_getchar k (keyboard_buf kb) m;
     Some (c, k, kb\<lparr>keyboard_buf := q\<rparr>, con, m) })"

definition keyboard_readline :: "nat \<Rightarrow> int \<Rightarrow> 'a kstate \<Rightarrow> (int \<times> 'a kstate) option" where
  "keyboard_readline dest lim = (\<lambda>(k, kb, con, m). do {
     (n, k, q, m) \<leftarrow> ioqueue_getline k (keyboard_buf kb) m dest lim;
     Some (n, k, kb\<lparr>keyboard_buf := q\<rparr>, con, m) })"

section \<open>What a run of key codes types\<close>

text \<open>The reference: the modifiers held, the characters a code stands for, and those of a run of codes.\<close>

datatype modifier = Shift | Ctrl | Alt | Caps

definition mods :: "kbd \<Rightarrow> modifier set" where
  "mods kb = {x. case x of Shift \<Rightarrow> shift_status kb | Ctrl \<Rightarrow> ctrl_status kb | Alt \<Rightarrow> alt_status kb | Caps \<Rightarrow> caps_status kb}"

definition held :: "modifier set \<Rightarrow> u8 \<Rightarrow> modifier set" where
  "held M code =
     (if code \<in> {0x2a, 0x36} then insert Shift M else if code \<in> {0xaa, 0xb6} then M - {Shift}
      else if code = 0x1d then insert Ctrl M else if code = 0x9d then M - {Ctrl}
      else if code = 0x38 then insert Alt M else if code = 0xb8 then M - {Alt}
      else if code = 0x3a then (if Caps \<in> M then M - {Caps} else insert Caps M)
      else M)"

definition key_of :: "modifier set \<Rightarrow> u8 \<times> u8 \<Rightarrow> u8" where
  "key_of M = (\<lambda>(lo, up).
     if lo \<in> {97..122} then (if (Shift \<in> M) \<noteq> (Caps \<in> M) then lo - 32 else lo)
     else if Shift \<in> M then up else lo)"

definition typed :: "modifier set \<Rightarrow> u8 \<Rightarrow> u8 list" where
  "typed M code = (if code < 0x3a \<and> code \<notin> {0x1d, 0x2a, 0x36, 0x38} then [key_of M (keymap ! unat code)] else [])"

fun typed_run :: "modifier set \<Rightarrow> u8 list \<Rightarrow> u8 list" where
  "typed_run M [] = []"
| "typed_run M (c # cs) = typed M c @ typed_run (held M c) cs"

fun handle_all :: "nat \<Rightarrow> nat \<Rightarrow> u8 list \<Rightarrow> 'a kstate \<Rightarrow> 'a kstate option" where
  "handle_all cb fmt [] s = Some s"
| "handle_all cb fmt (c # cs) s = do { s \<leftarrow> keyboard_handler cb fmt c s; handle_all cb fmt cs s }"

lemma mods_in [simp]:
  "Shift \<in> mods kb \<longleftrightarrow> shift_status kb" "Ctrl \<in> mods kb \<longleftrightarrow> ctrl_status kb"
  "Alt \<in> mods kb \<longleftrightarrow> alt_status kb" "Caps \<in> mods kb \<longleftrightarrow> caps_status kb"
  by (simp_all add: mods_def)

lemma mods_queue [simp]: "mods (kb\<lparr>keyboard_buf := q\<rparr>) = mods kb"
  by (auto simp: mods_def split: modifier.splits)

text \<open>The case shift of the code, against the reference, over every pair of the table.\<close>

definition swap_case :: "u8 \<Rightarrow> u8" where
  "swap_case c = (if 65 \<le> sint c \<and> sint c \<le> 90 then c + (97 - 65)
     else if 97 \<le> sint c \<and> sint c \<le> 122 then c - (97 - 65) else c)"

definition pair_ok :: "u8 \<times> u8 \<Rightarrow> bool" where
  "pair_ok = (\<lambda>(lo, up). if 97 \<le> lo \<and> lo \<le> 122 then up = lo - 32 \<and> swap_case lo = lo - 32 \<and> swap_case up = lo
     else swap_case lo = lo \<and> swap_case up = up)"

lemma keymap_ok: "list_all pair_ok keymap"
  unfolding keymap_def key_codes ch_def by (simp add: pair_ok_def swap_case_def)

lemma length_keymap: "length keymap = 0x3b"
  by (simp add: keymap_def)

lemma key_char_key_of:
  assumes "code < 0x3a" shows "key_char kb code = key_of (mods kb) (keymap ! unat code)"
proof -
  have "unat code < length keymap" using assms by (simp add: length_keymap word_less_nat_alt)
  then have "pair_ok (keymap ! unat code)" using keymap_ok by (simp add: list_all_length)
  moreover obtain lo up where "keymap ! unat code = (lo, up)" by (cases "keymap ! unat code")
  moreover have "key_char kb code = (let c = (if shift_status kb then snd else fst) (keymap ! unat code)
      in if caps_status kb then swap_case c else c)"
    by (simp only: key_char_def swap_case_def)
  ultimately show ?thesis
    by (auto simp: key_of_def pair_ok_def)
qed

text \<open>
  The handler can run when neither lock is held, the echo's format is \<open>%c\<close>, and the console buffer
  \<open>cb\<close>, the format and the buffer of the queue lie apart.
\<close>

fun kb_ok :: "nat \<Rightarrow> nat \<Rightarrow> 'a kstate \<Rightarrow> bool" where
  "kb_ok cb fmt (k, kb, con, m) \<longleftrightarrow> con_ok k con \<and> q_ok k (keyboard_buf kb) \<and> cstr m fmt [37, 99] \<and>
     (fmt + 2 < cb \<or> cb + 500 \<le> fmt) \<and>
     {buf (keyboard_buf kb)..buf (keyboard_buf kb) + q_cap (keyboard_buf kb)} \<inter> ({cb, cb + 1} \<union> {fmt..fmt + 2}) = {}"

definition kb_queue :: "'a kstate \<Rightarrow> u8 list" where
  "kb_queue = (\<lambda>(k, kb, con, m). q_list (keyboard_buf kb) m)"

definition kb_screen :: "'a kstate \<Rightarrow> u8 list" where
  "kb_screen = (\<lambda>(k, kb, con, m). screen con)"

definition kb_mods :: "'a kstate \<Rightarrow> modifier set" where
  "kb_mods = (\<lambda>(k, kb, con, m). mods kb)"

definition kb_cap :: "'a kstate \<Rightarrow> nat" where
  "kb_cap = (\<lambda>(k, kb, con, m). q_cap (keyboard_buf kb))"

lemmas kb_views = kb_queue_def kb_screen_def kb_mods_def kb_cap_def

lemma echo:
  assumes "con_ok k con" "cstr m fmt [37, 99]" "fmt + 2 < cb \<or> cb + 500 \<le> fmt"
  shows "\<exists>con'. console_printk cb fmt [scast c] k con m = Some (k, con', m(cb := c, cb + 1 := 0)) \<and>
    con_ok k con' \<and> screen con' = screen con @ filter (\<lambda>c. c \<noteq> 0) [c]"
proof -
  have sc: "ucast (scast c :: u32) = c" by (intro bit_word_eqI) (simp add: bit_simps)
  have "\<forall>f \<in> set [Chr (scast c)]. item_ok m cb f" by simp
  from console_printk_items [OF assms(1) this, of fmt] assms(2,3) show ?thesis
    using assms(1) writes_cons [of m cb c "[0]"] by (simp add: sc con_ok_def writes_single)
qed

lemma q_buf_size: "q_ok k q \<Longrightarrow> nat (buf_size q) = q_cap q + 1"
  by (auto simp: q_ok_def q_cap_def)

lemma type_char_case:
  assumes s: "kb_ok cb fmt s" and code: "code < 0x3a"
  shows "\<exists>s'. type_char cb fmt code s = Some s' \<and> kb_ok cb fmt s' \<and> kb_cap s' = kb_cap s \<and> kb_mods s' = kb_mods s \<and>
    kb_queue s' = edit (kb_cap s) (kb_queue s) (key_of (kb_mods s) (keymap ! unat code)) \<and>
    kb_screen s' = kb_screen s @ filter (\<lambda>c. c \<noteq> 0) [key_of (kb_mods s) (keymap ! unat code)]"
proof -
  obtain k kb con m where s_eq: "s = (k, kb, con, m)" by (cases s) auto
  define q c where "q = keyboard_buf kb" and "c = key_of (mods kb) (keymap ! unat code)"
  have o: "con_ok k con" "q_ok k q" "cstr m fmt [37, 99]" "fmt + 2 < cb \<or> cb + 500 \<le> fmt"
    "{buf q..buf q + q_cap q} \<inter> ({cb, cb + 1} \<union> {fmt..fmt + 2}) = {}"
    using s by (simp_all add: s_eq q_def)
  obtain k' q' m' where put: "(if c = 8
       then do { (k, q) \<leftarrow> ioqueue_pop_back_char k q; Some (k, q, m) }
       else ioqueue_putchar k q m c) = Some (k', q', m')"
    and q': "q_ok k' q'" "current k' = current k" "q_cap q' = q_cap q" "buf q' = buf q"
      "q_list q' m' = edit (q_cap q) (q_list q m) c"
      "\<forall>a. a < buf q \<or> buf q + q_cap q < a \<longrightarrow> m' a = m a"
  proof (cases "c = 8")
    case True
    note step = this
    obtain q1 where "ioqueue_pop_back_char k q = Some (k, q1)" "q_ok k q1" "q_list q1 m = butlast (q_list q m)"
      "q_cap q1 = q_cap q" "buf q1 = buf q" using pop_back_case [OF o(2), of m] by blast
    then show thesis using step by (intro that [of k q1 m]) (simp_all add: edit.simps)
  next
    case False
    note step = this
    obtain k1 q1 m1 where "ioqueue_putchar k q m c = Some (k1, q1, m1)" "q_ok k1 q1" "current k1 = current k"
      "q_list q1 m1 = (if length (q_list q m) < q_cap q then q_list q m @ [c] else q_list q m)"
      "q_cap q1 = q_cap q" "buf q1 = buf q" "\<forall>a. a < buf q \<or> buf q + nat (buf_size q) \<le> a \<longrightarrow> m1 a = m a"
      using putchar_case [OF o(2), of m c] by blast
    then show thesis using step by (intro that [of k1 q1 m1]) (simp_all add: edit.simps q_buf_size [OF o(2)])
  qed
  have "cstr m' fmt [37, 99]"
    using o(3) by (rule cstr_cong [THEN iffD2, rotated]) (use q'(6) o(5) in auto)
  moreover have "con_ok k' con" using o(1) q'(2) by (simp add: con_ok_def)
  ultimately obtain con' where con': "console_printk cb fmt [scast c] k' con m' = Some (k', con', m'(cb := c, cb + 1 := 0))"
    "con_ok k' con'" "screen con' = screen con @ filter (\<lambda>c. c \<noteq> 0) [c]"
    using echo [of k' con m' fmt cb c] o(4) by blast
  let ?m = "m'(cb := c, cb + 1 := 0)"
  have "cstr ?m fmt [37, 99]"
    using \<open>cstr m' fmt [37, 99]\<close> by (rule cstr_cong [THEN iffD2, rotated]) (use o(4) in auto)
  moreover have "q_list q' ?m = q_list q' m'"
    unfolding q_list_def using o(5) q'(1,3,4) q_buf_size [OF q'(1)] by (intro ring_cong) auto
  moreover have "code \<le> 0x3a" "c = key_char kb code"
    using code by (simp_all add: key_char_key_of c_def)
  moreover have "type_char cb fmt code s = Some (k', kb\<lparr>keyboard_buf := q'\<rparr>, con', ?m)"
    unfolding type_char_def s_eq prod.case q_def [symmetric] \<open>c = key_char kb code\<close> [symmetric] Let_def put
    using con'(1) \<open>code \<le> 0x3a\<close> by simp
  ultimately show ?thesis using con' q' o(4,5)
    by (intro exI [of _ "(k', kb\<lparr>keyboard_buf := q'\<rparr>, con', ?m)"])
      (simp add: s_eq kb_views q_def [symmetric] c_def [symmetric] del: filter.simps)
qed

lemma break_bit: "(code :: u8) AND 0x80 \<noteq> 0 \<longleftrightarrow> 0x80 \<le> code"
proof -
  have "(code AND 0x80 \<noteq> 0) = bit code 7" using and_push_eq_0 [of code 7] by simp
  also have "\<dots> = odd (uint code div 128)" using bit_uint_iff [of code 7] by (simp add: bit_iff_odd)
  also have "\<dots> \<longleftrightarrow> 128 \<le> uint code"
  proof (cases "128 \<le> uint code")
    case True
    then have "uint code div 128 = 1" using uint_bounded [of code] by simp
    then show ?thesis using True by simp
  qed (simp add: div_pos_pos_trivial)
  finally show ?thesis by (simp add: word_le_def)
qed

lemma modifier_key:
  assumes "code = 0x3a \<or> 0x80 \<le> code \<or> code \<in> {0x1d, 0x2a, 0x36, 0x38}"
  shows "\<exists>kb'. keyboard_handler cb fmt code (k, kb, con, m) = Some (k, kb', con, m) \<and>
    keyboard_buf kb' = keyboard_buf kb \<and> mods kb' = held (mods kb) code"
proof (cases "0x80 \<le> code")
  case True
  then show ?thesis
    by (auto simp: keyboard_handler_def break_bit break_code_def key_codes held_def set_eq_iff mods_def split: modifier.splits)
next
  case False
  then have "code = 0x3a \<or> code = 0x1d \<or> code = 0x2a \<or> code = 0x36 \<or> code = 0x38" using assms by auto
  then show ?thesis
    by (elim disjE) (auto simp: keyboard_handler_def key_codes held_def set_eq_iff mods_def split: modifier.splits)
qed

lemma handler_step:
  assumes s: "kb_ok cb fmt s" and code: "code \<le> 0x3a \<or> 0x80 \<le> code"
  shows "\<exists>s'. keyboard_handler cb fmt code s = Some s' \<and> kb_ok cb fmt s' \<and> kb_cap s' = kb_cap s \<and>
    kb_mods s' = held (kb_mods s) code \<and>
    kb_queue s' = foldl (edit (kb_cap s)) (kb_queue s) (typed (kb_mods s) code) \<and>
    kb_screen s' = kb_screen s @ filter (\<lambda>c. c \<noteq> 0) (typed (kb_mods s) code)"
proof (cases "code = 0x3a \<or> 0x80 \<le> code \<or> code \<in> {0x1d, 0x2a, 0x36, 0x38}")
  case True
  obtain k kb con m where s_eq: "s = (k, kb, con, m)" by (cases s) auto
  have "\<not> (code < 0x3a \<and> 0x80 \<le> code)" by (auto simp: word_less_nat_alt word_le_nat_alt)
  then have "typed M code = []" for M using True by (auto simp: typed_def)
  then show ?thesis using modifier_key [OF True, of cb fmt k kb con m] s by (auto simp: s_eq kb_views)
next
  case False
  then have c: "code < 0x3a" using code by (auto simp: order_less_le)
  have "\<not> 0x80 \<le> code" using False by blast
  then have h: "keyboard_handler cb fmt code s = type_char cb fmt code s"
    using False by (cases s) (auto simp: keyboard_handler_def break_bit key_codes)
  have "held M code = M" "typed M code = [key_of M (keymap ! unat code)]" for M
    using False c by (auto simp: held_def typed_def)
  then show ?thesis using type_char_case [OF s c] by (simp add: h)
qed

lemma handle_all_typed:
  "kb_ok cb fmt s \<Longrightarrow> \<forall>c \<in> set codes. c \<le> 0x3a \<or> 0x80 \<le> c \<Longrightarrow>
   \<exists>s'. handle_all cb fmt codes s = Some s' \<and> kb_ok cb fmt s' \<and> kb_mods s' = foldl held (kb_mods s) codes \<and>
     kb_queue s' = foldl (edit (kb_cap s)) (kb_queue s) (typed_run (kb_mods s) codes) \<and>
     kb_screen s' = kb_screen s @ filter (\<lambda>c. c \<noteq> 0) (typed_run (kb_mods s) codes)"
proof (induction codes arbitrary: s)
  case (Cons c cs)
  then obtain s1 where s1: "keyboard_handler cb fmt c s = Some s1" "kb_ok cb fmt s1" "kb_cap s1 = kb_cap s"
    "kb_mods s1 = held (kb_mods s) c"
    "kb_queue s1 = foldl (edit (kb_cap s)) (kb_queue s) (typed (kb_mods s) c)"
    "kb_screen s1 = kb_screen s @ filter (\<lambda>c. c \<noteq> 0) (typed (kb_mods s) c)"
    using handler_step [of cb fmt s c] by fastforce
  show ?case using Cons.IH [OF s1(2)] Cons.prems(2) s1 by simp
qed simp

section \<open>Properties\<close>

text \<open>C31: key codes that the table covers, in any order with break codes, never stop the keyboard interrupt:
  with both locks free each code is handled, the line in the queue is edited by exactly the characters
  typed - upper case when exactly one of shift and caps lock is on, backspace taking the last character
  back - and those characters are echoed on the screen.\<close>

theorem keyboard_types:
  assumes "kb_ok cb fmt s" "\<forall>c \<in> set codes. c \<le> 0x3a \<or> 0x80 \<le> c"
  shows "\<exists>s'. handle_all cb fmt codes s = Some s' \<and> kb_ok cb fmt s' \<and> kb_mods s' = foldl held (kb_mods s) codes \<and>
     kb_queue s' = foldl (edit (kb_cap s)) (kb_queue s) (typed_run (kb_mods s) codes) \<and>
     kb_screen s' = kb_screen s @ filter (\<lambda>c. c \<noteq> 0) (typed_run (kb_mods s) codes)"
  using assms by (rule handle_all_typed)

definition kb0 :: kbd where
  "kb0 = \<lparr>keyboard_buf = q3, shift_status = False, ctrl_status = False, alt_status = False, caps_status = False\<rparr>"

definition percent_c :: mem where
  "percent_c = (\<lambda>_. 0)(100 := 37, 101 := 99)"

lemma kb0_ok: "kb_ok 1000 100 (sys0, kb0, con0, percent_c)"
proof -
  have "cstr percent_c 100 [37, 99]" by (simp add: cstr_Cons percent_c_def)
  then show ?thesis
    using con0_ok [OF current_sys0] q3_ok by (simp add: kb0_def q3_def)
qed

text \<open>Shift down, a, shift up, b, s, backspace: the line is \<open>Ab\<close>.\<close>

theorem keyboard_types_witness:
  "\<exists>s'. handle_all 1000 100 [0x2a, 0x1e, 0x9e, 0xaa, 0x30, 0x1f, 0x0e] (sys0, kb0, con0, percent_c) = Some s' \<and>
     kb_queue s' = [65, 98] \<and> kb_screen s' = [65, 98, 115, 8]"
proof -
  have "\<forall>c \<in> set [0x2a, 0x1e, 0x9e, 0xaa, 0x30, 0x1f, 0x0e]. (c :: u8) \<le> 0x3a \<or> 0x80 \<le> c" by simp
  note t = keyboard_types [OF kb0_ok this]
  have m: "mods kb0 = {}" by (auto simp: mods_def kb0_def split: modifier.splits)
  have "typed_run {} [0x2a, 0x1e, 0x9e, 0xaa, 0x30, 0x1f, 0x0e] = [65, 98, 115, 8]"
    by (simp add: typed_def held_def key_of_def keymap_def ch_def)
  with t show ?thesis
    by (simp add: kb_views m del: typed_run.simps handle_all.simps kb_ok.simps)
      (auto simp: kb0_def q3_ok edit.simps con0_def simp del: typed_run.simps handle_all.simps kb_ok.simps)
qed

text \<open>a make code above 0x3A - the function keys, the keypad, and the second byte of the arrow keys, whose
  prefix 0xE0 alone is ignored - panics in the interrupt handler, whatever the state.\<close>

theorem keyboard_panics:
  assumes "0x3a < code" "code < 0x80"
  shows "keyboard_handler cb fmt code s = None \<and> handle_all cb fmt [0xe0, code] s = None"
proof -
  have "\<not> 0x80 \<le> code" "\<not> code \<le> 0x3a" using assms by (simp_all add: not_le)
  then show ?thesis
    by (cases s) (auto simp: keyboard_handler_def break_bit key_codes type_char_def)
qed

theorem keyboard_panics_witness:
  "handle_all 1000 100 [0xe0, 0x48] (sys0, kb0, con0, percent_c) = None"
  by (rule keyboard_panics [THEN conjunct2]) simp_all

end
