(* ===== verification/Vma.thy ===== *)
theory Vma
  imports Kmalloc_Clients
begin

text \<open>
  kernel/vma.c: the memory areas of a process, a linked list of \<open>struct vm_area_struct\<close> in blocks of
  \<open>kmalloc\<close>. The structures form a heap indexed by the address of their block, 0 is NULL; a block of
  \<open>kzalloc\<close> holds the structure with all fields zero. \<open>sizeof (struct vm_area_struct)\<close> is 36.
\<close>

section \<open>State\<close>

record vm_area_struct =
  vm_mm :: nat
  vm_start :: u32
  vm_end :: u32
  vm_next :: nat
  vm_page_prot :: u32
  vm_flags :: u32
  vm_pgoff :: u32
  vm_file :: nat
  vm_private_data :: nat

type_synonym vmas = "nat \<Rightarrow> vm_area_struct"

text \<open>The fields of \<open>mm_struct\<close> that the modelled code uses.\<close>

record mm_struct =
  mmap :: nat
  users :: int
  pg_dir :: nat
  start_code :: u32
  end_code :: u32
  start_data :: u32
  end_data :: u32

abbreviation mm_at :: "nat \<Rightarrow> nat \<Rightarrow> mm_struct" where
  "mm_at p d \<equiv> \<lparr>mmap = p, users = 1, pg_dir = d, start_code = 0, end_code = 0, start_data = 0, end_data = 0\<rparr>"

definition zero_vma :: vm_area_struct where
  "zero_vma = \<lparr>vm_mm = 0, vm_start = 0, vm_end = 0, vm_next = 0, vm_page_prot = 0, vm_flags = 0, vm_pgoff = 0,
     vm_file = 0, vm_private_data = 0\<rparr>"

definition VM_READ :: u32 where "VM_READ = 1"
definition VM_WRITE :: u32 where "VM_WRITE = 2"
definition VM_EXEC :: u32 where "VM_EXEC = 4"
definition TASK_SIZE :: u32 where "TASK_SIZE = 0xc0000000"
definition SIZEOF_VMA :: u32 where "SIZEOF_VMA = 36"

section \<open>Operations\<close>

partial_function (option) find_vma_from :: "vmas \<Rightarrow> nat \<Rightarrow> u32 \<Rightarrow> nat option" where
  "find_vma_from h vma addr =
     (if vma \<noteq> 0
      then (if addr < vm_end (h vma) then Some vma else find_vma_from h (vm_next (h vma)) addr)
      else Some 0)"

definition find_vma :: "vmas \<Rightarrow> mm_struct \<Rightarrow> u32 \<Rightarrow> nat option" where
  "find_vma h mm addr = find_vma_from h (mmap mm) addr"

definition find_inter_section :: "vmas \<Rightarrow> mm_struct \<Rightarrow> u32 \<Rightarrow> u32 \<Rightarrow> nat option" where
  "find_inter_section h mm start_addr end_addr = do {
     vma \<leftarrow> find_vma h mm start_addr;
     Some (if vma \<noteq> 0 \<and> end_addr \<le> vm_start (h vma) then 0 else vma) }"

text \<open>The search of \<open>do_mmap\<close> for the area to insert behind.\<close>

partial_function (option) gap_loop :: "vmas \<Rightarrow> u32 \<Rightarrow> nat \<Rightarrow> u32 \<Rightarrow> (nat \<times> u32) option" where
  "gap_loop h len vma addr =
     (let n = vm_next (h vma)
      in if n \<noteq> 0 \<and> (vm_start (h n) < addr \<or> vm_start (h n) - max (vm_end (h vma)) addr < len)
         then gap_loop h len n (max addr (vm_end (h vma)))
         else Some (vma, addr))"

definition link_vma :: "vmas \<Rightarrow> mm_struct \<Rightarrow> nat \<Rightarrow> u32 \<Rightarrow> u32 \<Rightarrow> (vmas \<times> mm_struct \<times> u32) option" where
  "link_vma h mm v addr len =
     (if mmap mm = 0 then Some (h(v := (h v)\<lparr>vm_next := 0\<rparr>), mm\<lparr>mmap := v\<rparr>, addr)
      else do {
        (vma, addr) \<leftarrow> gap_loop h len (mmap mm) addr;
        ASSERT (\<not> 0xc0000000 \<le> vm_end (h vma) + len);
        let next = vm_next (h vma);
        if vm_end (h vma) = addr \<and> next \<noteq> 0 \<and> vm_start (h next) = addr + len then PANIC
        else if vm_end (h vma) = addr then PANIC
        else if next \<noteq> 0 \<and> vm_start (h next) = addr + len then PANIC
        else do {
          let h = h(v := (h v)\<lparr>vm_next := next\<rparr>);
          let h = h(vma := (h vma)\<lparr>vm_next := v\<rparr>);
          Some (h, mm, addr) } })"

definition do_mmap :: "'a sys_scheme \<Rightarrow> kmem \<Rightarrow> vmas \<Rightarrow> mm_struct \<Rightarrow> nat \<Rightarrow> u32 \<Rightarrow> u32 \<Rightarrow> u32 \<Rightarrow> u32 \<Rightarrow> u32 \<Rightarrow>
    (int \<times> 'a sys_scheme \<times> kmem \<times> vmas \<times> mm_struct) option" where
  "do_mmap k km h mm file addr len prot flag offset = do {
     ASSERT (len \<noteq> 0);
     ASSERT (addr \<noteq> 0);
     ASSERT (\<not> TASK_SIZE < addr + len);
     (v, k, km) \<leftarrow> kmalloc k km SIZEOF_VMA;
     let h = h(v := zero_vma);
     (h, mm, addr) \<leftarrow> link_vma h mm v addr len;
     let h = h(v := (h v)\<lparr>vm_file := file, vm_pgoff := offset, vm_start := addr, vm_end := addr + len,
       vm_flags := VM_READ OR VM_WRITE OR VM_EXEC, vm_page_prot := prot\<rparr>);
     ASSERT (0x8048000 \<le> vm_start (h v) \<and> vm_end (h v) \<le> TASK_SIZE \<and> vm_start (h v) < vm_end (h v));
     Some (0, k, km, h, mm) }"

partial_function (option) dup_loop :: "'a sys_scheme \<Rightarrow> kmem \<Rightarrow> vmas \<Rightarrow> nat \<Rightarrow> nat \<Rightarrow> ('a sys_scheme \<times> kmem \<times> vmas) option" where
  "dup_loop k km h old_vma new_vma =
     (if old_vma \<noteq> 0
      then (if vm_next (h old_vma) \<noteq> 0
        then Option.bind (kmalloc k km SIZEOF_VMA) (\<lambda>(p, k, km).
          let h = h(new_vma := (h new_vma)\<lparr>vm_next := p\<rparr>);
              h = h(p := h (vm_next (h old_vma)))
          in dup_loop k km h (vm_next (h old_vma)) (vm_next (h new_vma)))
        else dup_loop k km h (vm_next (h old_vma)) (vm_next (h new_vma)))
      else Some (k, km, h))"

definition dup_mmap :: "'a sys_scheme \<Rightarrow> kmem \<Rightarrow> vmas \<Rightarrow> mm_struct \<Rightarrow> mm_struct \<Rightarrow>
    (int \<times> 'a sys_scheme \<times> kmem \<times> vmas \<times> mm_struct) option" where
  "dup_mmap k km h old new = do {
     (k, km, h, new, old_vma, new_vma) \<leftarrow> (if mmap old \<noteq> 0
       then do {
         (p, k, km) \<leftarrow> kmalloc k km SIZEOF_VMA;
         let new = new\<lparr>mmap := p\<rparr>;
         let h = h(mmap new := h (mmap old));
         Some (k, km, h, new, mmap old, mmap new) }
       else Some (k, km, h, new, 0, 0));
     (k, km, h) \<leftarrow> dup_loop k km h old_vma new_vma;
     Some (0, k, km, h, new) }"

section \<open>The list of areas\<close>

fun chain :: "vmas \<Rightarrow> nat \<Rightarrow> nat list \<Rightarrow> bool" where
  "chain h p [] \<longleftrightarrow> p = 0"
| "chain h p (v # vs) \<longleftrightarrow> p = v \<and> v \<noteq> 0 \<and> chain h (vm_next (h v)) vs"

definition area :: "vmas \<Rightarrow> nat \<Rightarrow> u32 \<times> u32" where
  "area h v = (vm_start (h v), vm_end (h v))"

text \<open>Areas in order that do not overlap.\<close>

fun areas_ok :: "(u32 \<times> u32) list \<Rightarrow> bool" where
  "areas_ok [] \<longleftrightarrow> True"
| "areas_ok ((s, e) # as) \<longleftrightarrow> s < e \<and> (\<forall>(s', e') \<in> set as. e \<le> s') \<and> areas_ok as"

definition mm_ok :: "vmas \<Rightarrow> mm_struct \<Rightarrow> nat list \<Rightarrow> bool" where
  "mm_ok h mm vs \<longleftrightarrow> chain h (mmap mm) vs \<and> distinct vs \<and> areas_ok (map (area h) vs)"

lemma chain_cong: "(\<And>v. v \<in> set vs \<Longrightarrow> vm_next (h' v) = vm_next (h v)) \<Longrightarrow> chain h' p vs = chain h p vs"
  by (induction vs arbitrary: p) auto

lemma chain_upd [simp]: "v \<notin> set vs \<Longrightarrow> chain (h(v := x)) p vs = chain h p vs"
  by (rule chain_cong) auto

lemma area_upd [simp]: "v \<notin> set vs \<Longrightarrow> map (area (h(v := x))) vs = map (area h) vs"
  by (auto simp: area_def)

lemma areas_ok_append:
  "areas_ok (as @ bs) \<longleftrightarrow> areas_ok as \<and> areas_ok bs \<and> (\<forall>(s, e) \<in> set as. \<forall>(s', e') \<in> set bs. e \<le> s')"
  by (induction as rule: areas_ok.induct) auto

lemma areas_ok_Cons: "areas_ok (p # as) \<longleftrightarrow> fst p < snd p \<and> (\<forall>q \<in> set as. snd p \<le> fst q) \<and> areas_ok as"
  by (cases p) auto

lemma areas_ok_less: "areas_ok as \<Longrightarrow> (s, e) \<in> set as \<Longrightarrow> s < e"
  by (induction as rule: areas_ok.induct) auto

lemma find_vma_chain:
  "chain h p vs \<Longrightarrow>
   find_vma_from h p addr = Some (case List.find (\<lambda>v. addr < vm_end (h v)) vs of None \<Rightarrow> 0 | Some v \<Rightarrow> v)"
proof (induction vs arbitrary: p)
  case Nil
  then show ?case by (subst find_vma_from.simps) simp
next
  case (Cons v vs)
  then show ?case by (subst find_vma_from.simps) auto
qed

lemma find_vma_least:
  "areas_ok (map (area h) vs) \<Longrightarrow> List.find (\<lambda>v. addr < vm_end (h v)) vs = Some v \<Longrightarrow>
   v \<in> set vs \<and> addr < vm_end (h v) \<and> (\<forall>w \<in> set vs. addr < vm_end (h w) \<longrightarrow> w = v \<or> vm_end (h v) \<le> vm_start (h w))"
  by (induction vs) (auto simp: area_def split: if_splits)

lemma chain_not_0: "chain h p vs \<Longrightarrow> 0 \<notin> set vs"
  by (induction vs arbitrary: p) auto

text \<open>A request \<open>addr\<close>, \<open>len\<close> that an area neither overlaps nor touches.\<close>

definition apart :: "vmas \<Rightarrow> u32 \<Rightarrow> u32 \<Rightarrow> nat \<Rightarrow> bool" where
  "apart h addr len v \<longleftrightarrow> vm_end (h v) < addr \<or> unat addr + unat len < unat (vm_start (h v))"

lemma apart_gap:
  fixes addr len s e :: u32
  assumes "unat addr + unat len < unat s" "e < addr"
  shows "\<not> s < addr" "\<not> s - max e addr < len" "s \<noteq> addr + len"
proof -
  have as: "addr \<le> s" using assms(1) by (simp add: word_le_nat_alt)
  then show "\<not> s < addr" by simp
  have "unat (s - addr) = unat s - unat addr" by (rule unat_sub [OF as])
  then show "\<not> s - max e addr < len" using assms
    by (simp add: max_def word_less_nat_alt word_le_nat_alt)
  have "unat addr + unat len < 2 ^ LENGTH(32)" using assms(1)
    unsigned_less [where 'a = nat and w = s] by (rule less_trans)
  then have "unat (addr + len) = unat addr + unat len"
    by (intro unat_add_lem [THEN iffD1]) simp
  then show "s \<noteq> addr + len" using assms(1) by auto
qed

lemma gap_loop_chain:
  "chain h p (v # vs) \<Longrightarrow> areas_ok (map (area h) (v # vs)) \<Longrightarrow> \<forall>w \<in> set (v # vs). apart h addr len w \<Longrightarrow>
   vm_end (h v) < addr \<Longrightarrow>
   \<exists>xs y ys. v # vs = xs @ y # ys \<and> gap_loop h len v addr = Some (y, addr) \<and>
     (\<forall>w \<in> set (xs @ [y]). vm_end (h w) < addr) \<and> (\<forall>w \<in> set ys. unat addr + unat len < unat (vm_start (h w)))"
proof (induction vs arbitrary: p v)
  case Nil
  then show ?case by (subst gap_loop.simps) (auto intro!: exI [of _ "[]"])
next
  case (Cons w vs)
  have n: "vm_next (h v) = w" "w \<noteq> 0" using Cons.prems(1) by auto
  have mx: "max addr (vm_end (h v)) = addr" using Cons.prems(4) by simp
  show ?case
  proof (cases "vm_end (h w) < addr")
    case True
    moreover have "vm_start (h w) < vm_end (h w)" using Cons.prems(2) by (simp add: area_def)
    ultimately have lt: "vm_start (h w) < addr" by (rule less_trans [rotated])
    have "chain h w (w # vs)" "areas_ok (map (area h) (w # vs))" "\<forall>x \<in> set (w # vs). apart h addr len x"
      using Cons.prems n areas_ok_Cons by auto
    from Cons.IH [OF this True] obtain xs y ys where ih: "w # vs = xs @ y # ys" "gap_loop h len w addr = Some (y, addr)"
      "\<forall>w \<in> set (xs @ [y]). vm_end (h w) < addr" "\<forall>w \<in> set ys. unat addr + unat len < unat (vm_start (h w))" by blast
    have "gap_loop h len v addr = Some (y, addr)"
      by (subst gap_loop.simps) (simp add: n lt mx ih(2) Let_def)
    then show ?thesis using ih Cons.prems(4) by (intro exI [of _ "v # xs"] exI [of _ y] exI [of _ ys]) simp
  next
    case False
    have ap: "unat addr + unat len < unat (vm_start (h w))"
      using Cons.prems(3) False by (auto simp: apart_def)
    have rest: "\<forall>x \<in> set vs. unat addr + unat len < unat (vm_start (h x))"
    proof
      fix x assume "x \<in> set vs"
      then have "vm_end (h w) \<le> vm_start (h x)" using Cons.prems(2) by (auto simp: area_def)
      moreover have "vm_start (h w) < vm_end (h w)" using Cons.prems(2) by (simp add: area_def)
      ultimately show "unat addr + unat len < unat (vm_start (h x))" using ap
        by (simp add: word_le_nat_alt word_less_nat_alt)
    qed
    have "gap_loop h len v addr = Some (v, addr)"
      using apart_gap [OF ap Cons.prems(4)] by (subst gap_loop.simps) (simp add: n Let_def)
    then show ?thesis using Cons.prems(4) ap rest by (intro exI [of _ "[]"]) simp
  qed
qed

lemma chain_app:
  "chain h p (xs @ y # ys) \<Longrightarrow> distinct (xs @ y # ys) \<Longrightarrow> v \<notin> set (xs @ y # ys) \<Longrightarrow> v \<noteq> 0 \<Longrightarrow>
   vm_next (h' y) = v \<Longrightarrow> vm_next (h' v) = vm_next (h y) \<Longrightarrow> (\<And>x. x \<noteq> y \<Longrightarrow> x \<noteq> v \<Longrightarrow> vm_next (h' x) = vm_next (h x)) \<Longrightarrow>
   chain h' p (xs @ y # v # ys)"
proof (induction xs arbitrary: p)
  case Nil
  moreover have "chain h' (vm_next (h y)) ys = chain h (vm_next (h y)) ys"
    by (rule chain_cong) (use Nil in \<open>metis append_Nil distinct.simps(2) list.set_intros(2)\<close>)
  ultimately show ?case by auto
qed auto

lemma apart_cong: "h' v = h v \<Longrightarrow> apart h' addr len v = apart h addr len v"
  by (simp add: apart_def)

text \<open>Linking in a request that is apart from every area and behind the first.\<close>

lemma link_vma_case:
  assumes ok: "mm_ok h mm vs" and v: "v \<notin> set vs" "v \<noteq> 0" and free: "\<forall>w \<in> set vs. apart h addr len w"
    and first: "vs = [] \<or> vm_end (h (hd vs)) < addr"
    and lim: "unat addr + unat len \<le> 0xc0000000"
  shows "\<exists>h' mm' xs ys. link_vma (h(v := zero_vma)) mm v addr len = Some (h', mm', addr) \<and> vs = xs @ ys \<and>
    mm' = mm\<lparr>mmap := mmap mm'\<rparr> \<and> chain h' (mmap mm') (xs @ v # ys) \<and> (\<forall>w \<in> set vs. h' w = (h w)\<lparr>vm_next := vm_next (h' w)\<rparr>) \<and>
    (\<forall>w. w \<notin> insert v (set vs) \<longrightarrow> h' w = h w) \<and>
    (\<forall>w \<in> set xs. vm_end (h w) < addr) \<and> (\<forall>w \<in> set ys. unat addr + unat len < unat (vm_start (h w)))"
proof (cases vs)
  case Nil
  let ?h = "h(v := zero_vma\<lparr>vm_next := 0\<rparr>)"
  have "mmap mm = 0" using ok Nil by (simp add: mm_ok_def)
  then show ?thesis using Nil v
    by (intro exI [of _ ?h] exI [of _ "mm\<lparr>mmap := v\<rparr>"] exI [of _ "[]"]) (simp add: link_vma_def)
next
  case (Cons u us)
  let ?h0 = "h(v := zero_vma)"
  have c: "chain ?h0 (mmap mm) vs" "mmap mm = u" "u \<noteq> 0" using ok Cons v by (auto simp: mm_ok_def)
  have ar: "areas_ok (map (area ?h0) vs)" using ok v by (simp add: mm_ok_def)
  have fr: "\<forall>w \<in> set vs. apart ?h0 addr len w" using free v by (auto simp: apart_def)
  have fst: "vm_end (?h0 u) < addr" using first Cons v by auto
  from gap_loop_chain [OF c(1) [unfolded Cons] ar [unfolded Cons] fr [unfolded Cons] fst]
  obtain xs y ys where g: "vs = xs @ y # ys" "gap_loop ?h0 len u addr = Some (y, addr)"
    "\<forall>w \<in> set (xs @ [y]). vm_end (?h0 w) < addr" "\<forall>w \<in> set ys. unat addr + unat len < unat (vm_start (?h0 w))"
    using Cons by blast
  have y: "y \<noteq> v" "vm_end (h y) < addr" using g(1,3) v by auto
  have nw: "\<not> 0xc0000000 \<le> vm_end (h y) + len"
  proof -
    have "unat (vm_end (h y)) + unat len < 0xc0000000" using y(2) lim by (simp add: word_less_nat_alt)
    moreover from this have "unat (vm_end (h y) + len) = unat (vm_end (h y)) + unat len"
      by (intro unat_add_lem [THEN iffD1]) simp
    ultimately show ?thesis by (simp add: word_le_nat_alt)
  qed
  have nx: "vm_next (h y) = 0 \<or> vm_start (h (vm_next (h y))) \<noteq> addr + len \<and> vm_next (h y) \<noteq> v"
  proof (cases ys)
    case Nil
    have "chain h p (xs @ [y]) \<Longrightarrow> vm_next (h y) = 0" for p by (induction xs arbitrary: p) auto
    then have "vm_next (h y) = 0" using ok g(1) Nil unfolding mm_ok_def by blast
    then show ?thesis ..
  next
    case (Cons z zs)
    have "chain h p (xs @ y # z # zs) \<Longrightarrow> vm_next (h y) = z" for p by (induction xs arbitrary: p) auto
    then have z: "vm_next (h y) = z" using ok g(1) Cons unfolding mm_ok_def by blast
    have "unat addr + unat len < unat (vm_start (h z))" "z \<noteq> v" using g(1,4) Cons v by auto
    then show ?thesis using apart_gap(3) [OF _ y(2)] z by auto
  qed
  define h' where "h' = h(v := zero_vma\<lparr>vm_next := vm_next (h y)\<rparr>, y := (h y)\<lparr>vm_next := v\<rparr>)"
  have link: "link_vma ?h0 mm v addr len = Some (h', mm, addr)"
    using c(2,3) g(2) y nw nx by (auto simp: link_vma_def h'_def Let_def)
  have "chain h' (mmap mm) (xs @ y # v # ys)"
  proof (rule chain_app [where h = h])
    show "chain h (mmap mm) (xs @ y # ys)" "distinct (xs @ y # ys)" using ok g(1) by (simp_all add: mm_ok_def)
  qed (use v g(1) y(1) in \<open>auto simp: h'_def\<close>)
  moreover have "?h0 w = h w" if "w \<in> set vs" for w using that v(1) by auto
  then have "\<forall>w \<in> set (xs @ [y]). vm_end (h w) < addr"
    "\<forall>w \<in> set ys. unat addr + unat len < unat (vm_start (h w))" using g(1,3,4) by simp_all
  ultimately show ?thesis using link g(1) v y(1)
    by - (rule exI [of _ h'], rule exI [of _ mm], rule exI [of _ "xs @ [y]"], rule exI [of _ ys],
        auto simp: h'_def)
qed

lemma area_same: "h' w = (h w)\<lparr>vm_next := n\<rparr> \<Longrightarrow> area h' w = area h w"
  by (simp add: area_def)

lemma kmalloc_vma:
  assumes "kmem_inv k km A"
  shows "kmalloc k km SIZEOF_VMA = None \<or>
    (\<exists>p km' A'. kmalloc k km SIZEOF_VMA = Some (p, k, km') \<and> kmem_inv k km' A' \<and> p \<notin> live km \<and>
      live km' = insert p (live km) \<and> p \<noteq> 0)"
proof -
  have "SIZEOF_VMA \<le> MAX_BLOCK_SIZE" by (simp add: SIZEOF_VMA_def MAX_BLOCK_SIZE_def)
  from kmalloc_small_case [OF assms this] show ?thesis by (fastforce simp: blocks_of_def)
qed

lemma do_mmap_case:
  assumes inv: "kmem_inv k km A" "kmalloc k km SIZEOF_VMA \<noteq> None"
    and ok: "mm_ok h mm vs" "set vs \<subseteq> live km" and free: "\<forall>w \<in> set vs. apart h addr len w"
    and first: "vs = [] \<or> vm_end (h (hd vs)) < addr"
    and lim: "0 < len" "0x8048000 \<le> addr" "unat addr + unat len \<le> 0xc0000000"
  shows "\<exists>v km' A' h' mm' xs ys. do_mmap k km h mm file addr len prot flag offset = Some (0, k, km', h', mm') \<and>
    kmem_inv k km' A' \<and> v \<notin> live km \<and> live km' = insert v (live km) \<and> vs = xs @ ys \<and>
    mm_ok h' mm' (xs @ v # ys) \<and> area h' v = (addr, addr + len) \<and> vm_file (h' v) = file \<and> vm_pgoff (h' v) = offset \<and>
    (\<forall>w \<in> set vs. h' w = (h w)\<lparr>vm_next := vm_next (h' w)\<rparr>)"
proof -
  obtain v km' A' where
    al: "kmalloc k km SIZEOF_VMA = Some (v, k, km')" "kmem_inv k km' A'" "v \<notin> live km" "live km' = insert v (live km)" "v \<noteq> 0"
    using kmalloc_vma [OF inv(1)] inv(2) by metis
  have v: "v \<notin> set vs" "v \<noteq> 0" using al(3,5) ok(2) by auto
  obtain h1 mm' xs ys where l: "link_vma (h(v := zero_vma)) mm v addr len = Some (h1, mm', addr)" "vs = xs @ ys"
    "chain h1 (mmap mm') (xs @ v # ys)" "\<forall>w \<in> set vs. h1 w = (h w)\<lparr>vm_next := vm_next (h1 w)\<rparr>"
    "\<forall>w \<in> set xs. vm_end (h w) < addr" "\<forall>w \<in> set ys. unat addr + unat len < unat (vm_start (h w))"
    using link_vma_case [OF ok(1) v free first lim(3)] by blast
  define h' where "h' = h1(v := (h1 v)\<lparr>vm_file := file, vm_pgoff := offset, vm_start := addr, vm_end := addr + len,
       vm_flags := VM_READ OR VM_WRITE OR VM_EXEC, vm_page_prot := prot\<rparr>)"
  have sum: "unat (addr + len) = unat addr + unat len"
    using lim(3) by (intro unat_add_lem [THEN iffD1]) simp
  have nz: "len \<noteq> 0" "addr \<noteq> 0" using lim(1,2) by (auto simp: word_le_nat_alt)
  have e: "addr < addr + len" "addr + len \<le> TASK_SIZE"
    using lim sum by (simp_all add: TASK_SIZE_def word_le_nat_alt word_less_nat_alt)
  have run: "do_mmap k km h mm file addr len prot flag offset = Some (0, k, km', h', mm')"
    using al(1) l(1) e lim(2) nz by (simp add: do_mmap_def h'_def not_less)
  have same: "h' w = (h w)\<lparr>vm_next := vm_next (h' w)\<rparr>" if "w \<in> set vs" for w
    using l(4) that v(1) by (auto simp: h'_def)
  have "area h' w = area h w" if "w \<in> set vs" for w using same [OF that] by (rule area_same)
  then have ar: "map (area h') xs = map (area h) xs" "map (area h') ys = map (area h) ys" "area h' v = (addr, addr + len)"
    using l(2) by (simp_all add: h'_def area_def [of _ v])
  have "chain h' (mmap mm') (xs @ v # ys)"
    using l(3) by (rule chain_cong [THEN iffD2, rotated]) (auto simp: h'_def)
  moreover have "areas_ok (map (area h') (xs @ v # ys))"
  proof -
    have "areas_ok (map (area h) xs @ map (area h) ys)" using ok(1) l(2) by (simp add: mm_ok_def)
    then show ?thesis using e(1) l(5,6) sum
      unfolding map_append list.map ar areas_ok_append areas_ok_Cons
      by (auto simp: area_def word_le_nat_alt word_less_nat_alt dest!: less_imp_le)
  qed
  moreover have "distinct (xs @ v # ys)" using ok(1) l(2) v(1) by (auto simp: mm_ok_def)
  ultimately show ?thesis using run al l(2) ar(3) same
    by - (rule exI [of _ v], rule exI [of _ km'], rule exI [of _ A'], rule exI [of _ h'],
        rule exI [of _ mm'], rule exI [of _ xs], rule exI [of _ ys],
        auto simp: mm_ok_def h'_def)
qed

section \<open>Copying the areas\<close>

text \<open>\<open>ns\<close> is a copy of the structures \<open>vs\<close>, all fields but the link.\<close>

definition copies :: "vmas \<Rightarrow> vmas \<Rightarrow> nat list \<Rightarrow> nat list \<Rightarrow> bool" where
  "copies h h' = list_all2 (\<lambda>v n. h' n = (h v)\<lparr>vm_next := vm_next (h' n)\<rparr>)"

lemma copies_cong: "(\<And>v. v \<in> set vs \<Longrightarrow> h2 v = h v) \<Longrightarrow> copies h2 h' vs ns = copies h h' vs ns"
  by (auto simp: copies_def list_all2_conv_all_nth)

text \<open>A \<open>kmalloc\<close> of a structure finds no memory in a state that holds at least the blocks of \<open>km\<close>.\<close>

definition exhausted :: "'a sys_scheme \<Rightarrow> kmem \<Rightarrow> bool" where
  "exhausted k km \<longleftrightarrow> (\<exists>km1 A1. kmem_inv k km1 A1 \<and> live km \<subseteq> live km1 \<and> kmalloc k km1 SIZEOF_VMA = None)"

lemma dup_loop_case:
  assumes "chain h v (v # vs)" "distinct (v # vs)" "kmem_inv k km A" "set (v # vs) \<subseteq> live km" "n \<in> live km" "n \<noteq> 0"
    "n \<notin> set (v # vs)" "vm_next (h n) = vm_next (h v)"
  shows "(dup_loop k km h v n = None \<and> exhausted k km) \<or>
    (\<exists>ns km' A' h'. dup_loop k km h v n = Some (k, km', h') \<and> kmem_inv k km' A' \<and> distinct (n # ns) \<and>
      set ns \<inter> live km = {} \<and> live km' = live km \<union> set ns \<and> chain h' n (n # ns) \<and> copies h h' vs ns \<and>
      h' n = (h n)\<lparr>vm_next := vm_next (h' n)\<rparr> \<and> (\<forall>w. w \<notin> insert n (set ns) \<longrightarrow> h' w = h w))"
  using assms
proof (induction vs arbitrary: v n km A h)
  case Nil
  then have "dup_loop k km h v n = Some (k, km, h)"
    by (subst dup_loop.simps) (simp add: dup_loop.simps [of _ _ _ 0])
  then show ?case using Nil
    by (intro disjI2 exI [of _ "[]"] exI [of _ km] exI [of _ A] exI [of _ h]) (auto simp: copies_def)
next
  case (Cons w ws)
  have w: "vm_next (h v) = w" "w \<noteq> 0" "v \<noteq> 0" using Cons.prems(1) by auto
  consider "kmalloc k km SIZEOF_VMA = None"
    | p km1 A1 where "kmalloc k km SIZEOF_VMA = Some (p, k, km1)" "kmem_inv k km1 A1" "p \<notin> live km"
      "live km1 = insert p (live km)" "p \<noteq> 0"
    using kmalloc_vma [OF Cons.prems(3)] by metis
  then show ?case
  proof cases
    case 1
    then have "dup_loop k km h v n = None" by (subst dup_loop.simps) (simp add: w)
    moreover have "exhausted k km" using 1 Cons.prems(3) by (auto simp: exhausted_def)
    ultimately show ?thesis by simp
  next
    case (2 p km1 A1)
    let ?h = "h(n := (h n)\<lparr>vm_next := p\<rparr>, p := h w)"
    have ne: "p \<noteq> n" "p \<notin> set (v # w # ws)" "v \<noteq> n" "w \<noteq> n"
      using 2(3) Cons.prems(4,5,7) by auto
    have step: "dup_loop k km h v n = dup_loop k km1 ?h w p"
      by (subst dup_loop.simps) (use w 2(1) ne in \<open>simp add: Let_def\<close>)
    have pre: "chain ?h w (w # ws)" "distinct (w # ws)" "set (w # ws) \<subseteq> live km1" "p \<in> live km1" "p \<notin> set (w # ws)"
      "vm_next (?h p) = vm_next (?h w)"
      using Cons.prems ne 2(4) by auto
    from Cons.IH [OF pre(1,2) 2(2) pre(3,4) 2(5) pre(5,6)] show ?thesis
    proof (elim disjE exE conjE)
      assume "dup_loop k km1 ?h w p = None" "exhausted k km1"
      then show ?thesis using step 2(4) by (auto simp: exhausted_def)
    next
      fix ns km' A' h'
      assume r: "dup_loop k km1 ?h w p = Some (k, km', h')" "kmem_inv k km' A'" "distinct (p # ns)"
        "set ns \<inter> live km1 = {}" "live km' = live km1 \<union> set ns" "chain h' p (p # ns)" "copies ?h h' ws ns"
        "h' p = (?h p)\<lparr>vm_next := vm_next (h' p)\<rparr>" "\<forall>x. x \<notin> insert p (set ns) \<longrightarrow> h' x = ?h x"
      have n: "n \<notin> insert p (set ns)" using Cons.prems(5) ne r(4) 2(4) by auto
      then have hn: "h' n = (h n)\<lparr>vm_next := p\<rparr>" using r(9) ne by simp
      have "copies h h' (w # ws) (p # ns)"
      proof -
        have "copies ?h h' ws ns = copies h h' ws ns"
          by (rule copies_cong) (use ne Cons.prems(7) in auto)
        then have "copies h h' ws ns" using r(7) by simp
        then show ?thesis using r(8) by (simp add: copies_def)
      qed
      moreover have "chain h' n (n # p # ns)" using r(6) hn Cons.prems(6) 2(5) by simp
      moreover have "\<forall>x. x \<notin> insert n (set (p # ns)) \<longrightarrow> h' x = h x" using r(9) by auto
      moreover have "distinct (n # p # ns)" using n r(3) by auto
      moreover have "set (p # ns) \<inter> live km = {}" using r(4) 2(3,4) by auto
      moreover have "live km' = live km \<union> set (p # ns)" using r(5) 2(4) by auto
      ultimately show ?thesis using r(1,2) step hn
        by (intro disjI2 exI [of _ "p # ns"] exI [of _ km'] exI [of _ A'] exI [of _ h']) simp
    qed
  qed
qed

lemma copies_areas: "copies h h' vs ns \<Longrightarrow> map (area h') ns = map (area h) vs \<and> map (\<lambda>n. vm_file (h' n)) ns = map (\<lambda>v. vm_file (h v)) vs \<and>
    map (\<lambda>n. vm_pgoff (h' n)) ns = map (\<lambda>v. vm_pgoff (h v)) vs"
  unfolding copies_def
proof (induction rule: list_all2_induct)
  case (Cons v vs n ns)
  moreover have "area h' n = area h v" "vm_file (h' n) = vm_file (h v)" "vm_pgoff (h' n) = vm_pgoff (h v)"
    unfolding area_def by (subst Cons(1), simp)+
  ultimately show ?case by simp
qed simp

lemma dup_mmap_case:
  assumes inv: "kmem_inv k km A" and ok: "mm_ok h old vs" "set vs \<subseteq> live km" and new: "mmap new = mmap old"
  shows "(dup_mmap k km h old new = None \<and> exhausted k km) \<or>
    (\<exists>ns km' A' h' new'. dup_mmap k km h old new = Some (0, k, km', h', new') \<and> kmem_inv k km' A' \<and>
      mm_ok h' new' ns \<and> mm_ok h' old vs \<and> set ns \<inter> live km = {} \<and> live km' = live km \<union> set ns \<and>
      copies h h' vs ns)"
proof (cases vs)
  case Nil
  then have "dup_mmap k km h old new = Some (0, k, km, h, new)"
    using ok(1) by (simp add: dup_mmap_def mm_ok_def dup_loop.simps)
  then show ?thesis using Nil inv ok(1) new
    by (intro disjI2 exI [of _ "[]"] exI [of _ km] exI [of _ A] exI [of _ h] exI [of _ new])
      (simp add: mm_ok_def copies_def)
next
  case (Cons v us)
  have v: "mmap old = v" "v \<noteq> 0" using ok(1) Cons by (auto simp: mm_ok_def)
  consider "kmalloc k km SIZEOF_VMA = None"
    | p km1 A1 where "kmalloc k km SIZEOF_VMA = Some (p, k, km1)" "kmem_inv k km1 A1" "p \<notin> live km"
      "live km1 = insert p (live km)" "p \<noteq> 0"
    using kmalloc_vma [OF inv] by metis
  then show ?thesis
  proof cases
    case 1
    then show ?thesis using v inv by (auto simp: dup_mmap_def exhausted_def)
  next
    case (2 p km1 A1)
    let ?h = "h(p := h v)"
    have p: "p \<notin> set vs" using 2(3) ok(2) by auto
    have c: "chain ?h v (v # us)" "distinct (v # us)" "set (v # us) \<subseteq> live km1" "p \<in> live km1"
      "p \<notin> set (v # us)" "vm_next (?h p) = vm_next (?h v)"
      using ok p 2(4) Cons v by (auto simp: mm_ok_def)
    have run: "dup_mmap k km h old new = Option.bind (dup_loop k km1 ?h v p) (\<lambda>(k, km, h). Some (0, k, km, h, new\<lparr>mmap := p\<rparr>))"
      using v 2(1) by (simp add: dup_mmap_def)
    from dup_loop_case [OF c(1,2) 2(2) c(3,4) 2(5) c(5,6)] show ?thesis
    proof (elim disjE exE conjE)
      assume "dup_loop k km1 ?h v p = None" "exhausted k km1"
      then show ?thesis using run 2(4) by (auto simp: exhausted_def)
    next
      fix ns km' A' h'
      assume r: "dup_loop k km1 ?h v p = Some (k, km', h')" "kmem_inv k km' A'" "distinct (p # ns)"
        "set ns \<inter> live km1 = {}" "live km' = live km1 \<union> set ns" "chain h' p (p # ns)" "copies ?h h' us ns"
        "h' p = (?h p)\<lparr>vm_next := vm_next (h' p)\<rparr>" "\<forall>x. x \<notin> insert p (set ns) \<longrightarrow> h' x = ?h x"
      have "copies ?h h' us ns = copies h h' us ns"
        by (rule copies_cong) (use p Cons in auto)
      then have "copies h h' us ns" using r(7) by simp
      then have cp: "copies h h' vs (p # ns)" using r(8) Cons by (simp add: copies_def)
      have same: "h' x = h x" if "x \<in> set vs" for x
        using r(4,9) that p ok(2) 2(4) by auto
      have "map (area h') vs = map (area h) vs" using same by (auto simp: area_def)
      moreover have "chain h' (mmap old) vs = chain h (mmap old) vs" using same by (intro chain_cong) auto
      ultimately have "mm_ok h' old vs" using ok(1) unfolding mm_ok_def by argo
      moreover have "mm_ok h' (new\<lparr>mmap := p\<rparr>) (p # ns)"
        using r(3,6) copies_areas [OF cp] ok(1) by (simp add: mm_ok_def)
      moreover have "set (p # ns) \<inter> live km = {}" using r(4) 2(3,4) by auto
      moreover have "live km' = live km \<union> set (p # ns)" using r(5) 2(4) by auto
      ultimately show ?thesis using r(1,2) cp run
        by (intro disjI2 exI [of _ "p # ns"] exI [of _ km'] exI [of _ A'] exI [of _ h'] exI [of _ "new\<lparr>mmap := p\<rparr>"]) simp
    qed
  qed
qed

text \<open>A state in which one structure is allocated and memory for another is at hand.\<close>

lemma kmalloc_part_left:
  assumes inv: "kmem_inv k km A" and sz: "sz \<le> MAX_BLOCK_SIZE" and p: "p \<in> class_pages km (find_class (unat sz) 0)"
    and free: "\<not> blocks_of (find_class (unat sz) 0) p \<subseteq> live km"
  shows "kmalloc k km sz \<noteq> None"
proof -
  define idx where "idx = find_class (unat sz) 0"
  have "unat sz \<le> 2032" using sz by (simp add: MAX_BLOCK_SIZE_def word_le_nat_alt)
  then have i: "idx < 7" using find_class_small by (simp add: idx_def)
  have "p \<notin> set (mblock_full km idx)"
  proof
    assume f: "p \<in> set (mblock_full km idx)"
    then have "block_list (desc km p) = []" using inv i by (simp add: kmem_inv_def class_ok_def)
    then have "blocks_of idx p \<subseteq> live km" using i p unfolding live_def idx_def by fastforce
    then show False using free by (simp add: idx_def)
  qed
  then have "mblock_part km idx \<noteq> []" using p by (auto simp: class_pages_def idx_def)
  then show ?thesis using kmalloc_part_case [OF inv i] kmalloc_small_eq(3) [OF sz idx_def] by fastforce
qed

lemma one_block:
  obtains u km A where "kmem_inv sys0 km A" "u \<in> live km" "u \<noteq> 0" "kmalloc sys0 km SIZEOF_VMA \<noteq> None"
proof -
  have sz: "SIZEOF_VMA \<le> MAX_BLOCK_SIZE" by (simp add: SIZEOF_VMA_def MAX_BLOCK_SIZE_def)
  let ?i = "find_class (unat SIZEOF_VMA) 0"
  have live0: "live kmem0 = {}" by (simp add: live_def class_pages_def kmem0_def)
  from kmalloc_small_case [OF kmem0_inv sz] kmem0_pool obtain u km A p where
    u: "kmem_inv sys0 km A" "live km = insert u (live kmem0)" "?i < 7" "u \<in> blocks_of ?i p" "p \<in> class_pages km ?i" by blast
  have "card (blocks_of ?i p) = mem_block_count ?i" by (rule card_blocks_of [OF u(3)])
  then have "2 \<le> card (blocks_of ?i p)" using class_table [OF u(3)] by simp
  moreover have "card (blocks_of ?i p) \<le> card {u}" if "blocks_of ?i p \<subseteq> {u}" using that by (intro card_mono) auto
  ultimately have "\<not> blocks_of ?i p \<subseteq> live km" unfolding u(2) live0 by fastforce
  from kmalloc_part_left [OF u(1) sz u(5) this] show thesis
    using that [of km A u] u by (auto simp: blocks_of_def)
qed

lemma kmem0_vma: "kmalloc sys0 kmem0 SIZEOF_VMA \<noteq> None"
proof -
  have "SIZEOF_VMA \<le> MAX_BLOCK_SIZE" by (simp add: SIZEOF_VMA_def MAX_BLOCK_SIZE_def)
  from kmalloc_small_case [OF kmem0_inv this] kmem0_pool show ?thesis by fastforce
qed

section \<open>Properties\<close>

text \<open>on a list of areas in order \<open>find_vma\<close> returns the first area that ends above the address, so the
  area of an address that has one, and \<open>find_inter_section\<close> an area of the range exactly when some area
  meets it.\<close>

theorem find_vma_correct:
  assumes "mm_ok h mm vs"
  shows "\<exists>r. find_vma h mm addr = Some r \<and> (r = 0 \<longleftrightarrow> (\<forall>v \<in> set vs. vm_end (h v) \<le> addr)) \<and>
    (r \<noteq> 0 \<longrightarrow> r \<in> set vs \<and> addr < vm_end (h r)) \<and>
    (\<forall>v \<in> set vs. vm_start (h v) \<le> addr \<and> addr < vm_end (h v) \<longrightarrow> r = v) \<and>
    (\<exists>i. find_inter_section h mm addr e = Some i \<and> (i = 0 \<or> i = r) \<and>
      (i \<noteq> 0 \<longleftrightarrow> (\<exists>v \<in> set vs. vm_start (h v) < e \<and> addr < vm_end (h v))))"
proof -
  let ?f = "List.find (\<lambda>v. addr < vm_end (h v)) vs"
  have c: "chain h (mmap mm) vs" "areas_ok (map (area h) vs)" using assms by (simp_all add: mm_ok_def)
  have r: "find_vma h mm addr = Some (case ?f of None \<Rightarrow> 0 | Some v \<Rightarrow> v)"
    unfolding find_vma_def by (rule find_vma_chain [OF c(1)])
  have nz: "0 \<notin> set vs" by (rule chain_not_0 [OF c(1)])
  show ?thesis
  proof (cases ?f)
    case None
    then have "\<forall>v \<in> set vs. vm_end (h v) \<le> addr" by (auto simp: find_None_iff)
    then show ?thesis using r None by (auto simp: find_inter_section_def)
  next
    case (Some v)
    have v: "v \<in> set vs" "addr < vm_end (h v)" "\<forall>w \<in> set vs. addr < vm_end (h w) \<longrightarrow> w = v \<or> vm_end (h v) \<le> vm_start (h w)"
      using find_vma_least [OF c(2) Some] by auto
    have sv: "vm_start (h v) < vm_end (h v)" using areas_ok_less [OF c(2)] v(1) by (auto simp: area_def)
    have "w = v" if "w \<in> set vs" "vm_start (h w) \<le> addr" "addr < vm_end (h w)" for w
      using v that by fastforce
    moreover have "(\<exists>w \<in> set vs. vm_start (h w) < e \<and> addr < vm_end (h w)) \<longleftrightarrow> vm_start (h v) < e"
    proof
      assume "\<exists>w \<in> set vs. vm_start (h w) < e \<and> addr < vm_end (h w)"
      then obtain w where w: "w \<in> set vs" "vm_start (h w) < e" "addr < vm_end (h w)" by blast
      then have "w = v \<or> vm_end (h v) \<le> vm_start (h w)" using v(3) by blast
      then show "vm_start (h v) < e" using w(2) sv by auto
    qed (use v in blast)
    moreover have "v \<noteq> 0" using v(1) nz by metis
    moreover have "find_vma h mm addr = Some v" using r Some by simp
    moreover from this have "find_inter_section h mm addr e = Some (if vm_start (h v) < e then v else 0)"
      using \<open>v \<noteq> 0\<close> by (auto simp: find_inter_section_def not_le)
    ultimately show ?thesis using v(1,2) by (intro exI [of _ v]) (auto simp: not_le)
  qed
qed

definition two_areas :: vmas where
  "two_areas = (\<lambda>_. zero_vma)(100 := zero_vma\<lparr>vm_start := 0x8048000, vm_end := 0x804a000, vm_next := 200\<rparr>,
     200 := zero_vma\<lparr>vm_start := 0x8050000, vm_end := 0x8052000\<rparr>)"

lemma two_areas_ok: "mm_ok two_areas (mm_at 100 0) [100, 200]"
  by (simp add: mm_ok_def two_areas_def area_def zero_vma_def)

theorem find_vma_correct_witness:
  "find_vma two_areas (mm_at 100 0) 0x8051000 = Some 200 \<and>
   find_inter_section two_areas (mm_at 100 0) 0x804b000 0x8050000 = Some 0"
proof -
  note f = find_vma_correct [OF two_areas_ok]
  have a: "vm_start (two_areas 200) = 0x8050000" "vm_end (two_areas 200) = 0x8052000" "vm_end (two_areas 100) = 0x804a000"
    "vm_start (two_areas 100) = 0x8048000" by (simp_all add: two_areas_def)
  show ?thesis using f [of "0x8051000" 0] f [of "0x804b000" "0x8050000"] by (auto simp: a)
qed

text \<open>C32: a request of \<open>do_mmap\<close> in user space that neither meets nor touches an area and lies behind the first
  one is granted where it was asked for: the structure is a new block, the list stays in order and without
  overlap, and the other areas stay as they are.\<close>

theorem do_mmap_correct:
  assumes "kmem_inv k km A" "kmalloc k km SIZEOF_VMA \<noteq> None"
    and "mm_ok h mm vs" "set vs \<subseteq> live km" "\<forall>w \<in> set vs. apart h addr len w" "vs = [] \<or> vm_end (h (hd vs)) < addr"
    and "0 < len" "0x8048000 \<le> addr" "unat addr + unat len \<le> 0xc0000000"
  shows "\<exists>v km' A' h' mm' xs ys. do_mmap k km h mm file addr len prot flag offset = Some (0, k, km', h', mm') \<and>
    kmem_inv k km' A' \<and> v \<notin> live km \<and> live km' = insert v (live km) \<and> vs = xs @ ys \<and>
    mm_ok h' mm' (xs @ v # ys) \<and> area h' v = (addr, addr + len) \<and> vm_file (h' v) = file \<and> vm_pgoff (h' v) = offset \<and>
    (\<forall>w \<in> set vs. h' w = (h w)\<lparr>vm_next := vm_next (h' w)\<rparr>)"
  using assms by (rule do_mmap_case)

theorem do_mmap_correct_witness:
  "\<exists>v km' h' mm'. do_mmap sys0 kmem0 (\<lambda>_. zero_vma) (mm_at 0 0) 7 0x8048000 0x3000 0 0 0
      = Some (0, sys0, km', h', mm') \<and> mm_ok h' mm' [v] \<and> area h' v = (0x8048000, 0x804b000)"
proof -
  have "mm_ok (\<lambda>_. zero_vma) (mm_at 0 0) []" by (simp add: mm_ok_def)
  from do_mmap_correct [OF kmem0_inv kmem0_vma this, of "0x8048000" "0x3000" 7 0 0 0] show ?thesis by auto
qed

text \<open>with one area, a request that starts inside it is granted too: the two areas then overlap.\<close>

theorem do_mmap_overlaps:
  assumes "kmem_inv k km A" "kmalloc k km SIZEOF_VMA \<noteq> None"
    and "mm_ok h mm [u]" "u \<in> live km" "vm_start (h u) \<le> addr" "addr < vm_end (h u)"
    and "0 < len" "0x8048000 \<le> addr" "unat addr + unat len \<le> 0xc0000000" "unat (vm_end (h u)) + unat len < 0xc0000000"
  shows "\<exists>v km' h' mm'. do_mmap k km h mm file addr len prot flag offset = Some (0, k, km', h', mm') \<and>
    chain h' (mmap mm') [u, v] \<and> area h' u = area h u \<and> area h' v = (addr, addr + len) \<and> \<not> areas_ok (map (area h') [u, v])"
proof -
  obtain v km' where al: "kmalloc k km SIZEOF_VMA = Some (v, k, km')" "v \<notin> live km" "v \<noteq> 0"
    using kmalloc_vma [OF assms(1)] assms(2) by metis
  have u: "mmap mm = u" "u \<noteq> 0" "vm_next (h u) = 0" "u \<noteq> v" using assms(3,4) al(2) by (auto simp: mm_ok_def)
  have sum: "unat (addr + len) = unat addr + unat len" "unat (vm_end (h u) + len) = unat (vm_end (h u)) + unat len"
    using assms(9,10) by (auto intro!: unat_add_lem [THEN iffD1])
  have e: "addr < addr + len" "addr + len \<le> TASK_SIZE" "\<not> 0xc0000000 \<le> vm_end (h u) + len" "len \<noteq> 0" "addr \<noteq> 0"
    using assms(7-10) sum by (auto simp: TASK_SIZE_def word_le_nat_alt word_less_nat_alt)
  let ?h0 = "h(v := zero_vma)"
  have g: "gap_loop ?h0 len u addr = Some (u, addr)"
    by (subst gap_loop.simps) (simp add: u(3,4) Let_def)
  define h1 where "h1 = h(v := zero_vma\<lparr>vm_next := 0\<rparr>, u := (h u)\<lparr>vm_next := v\<rparr>)"
  have link: "link_vma ?h0 mm v addr len = Some (h1, mm, addr)"
    using u g e(3) assms(6) by (auto simp: link_vma_def h1_def Let_def)
  define h' where "h' = h1(v := (h1 v)\<lparr>vm_file := file, vm_pgoff := offset, vm_start := addr, vm_end := addr + len,
       vm_flags := VM_READ OR VM_WRITE OR VM_EXEC, vm_page_prot := prot\<rparr>)"
  have "do_mmap k km h mm file addr len prot flag offset = Some (0, k, km', h', mm)"
    using al(1) link e assms(8) by (simp add: do_mmap_def h'_def not_less)
  moreover have "chain h' (mmap mm) [u, v]" using u al(3) by (simp add: h'_def h1_def)
  moreover have "area h' u = area h u" "area h' v = (addr, addr + len)" using u by (simp_all add: h'_def h1_def area_def)
  moreover from this have "\<not> areas_ok (map (area h') [u, v])" using assms(6) by (auto simp: areas_ok_Cons area_def not_le)
  ultimately show ?thesis by blast
qed

theorem do_mmap_overlaps_witness:
  "\<exists>km h mm u v km' h' mm'. do_mmap sys0 km h mm 0 0x8049000 0x1000 0 0 0 = Some (0, sys0, km', h', mm') \<and>
     area h' u = (0x8048000, 0x804b000) \<and> area h' v = (0x8049000, 0x804a000)"
proof -
  obtain u km1 A1 where u: "kmem_inv sys0 km1 A1" "u \<in> live km1" "u \<noteq> 0" "kmalloc sys0 km1 SIZEOF_VMA \<noteq> None"
    by (rule one_block)
  define h :: vmas where "h = (\<lambda>_. zero_vma)(u := zero_vma\<lparr>vm_start := 0x8048000, vm_end := 0x804b000\<rparr>)"
  have ok: "mm_ok h (mm_at u 0) [u]"
    using u(3) by (simp add: mm_ok_def h_def areas_ok_Cons zero_vma_def) (simp add: area_def)
  have a: "vm_start (h u) = 0x8048000" "vm_end (h u) = 0x804b000" by (simp_all add: h_def)
  from do_mmap_overlaps [OF u(1,4) ok u(2), of "0x8049000" "0x1000" 0 0 0 0] show ?thesis
    by (simp add: a area_def) blast
qed

text \<open>\<open>dup_mmap\<close> gives the new address space a list of its own - new blocks, the same areas, files and
  offsets in the same order - and leaves the old list as it was, or stops when \<open>kmalloc\<close> finds no memory.\<close>

theorem dup_mmap_correct:
  assumes "kmem_inv k km A" "mm_ok h old vs" "set vs \<subseteq> live km" "mmap new = mmap old"
  shows "(dup_mmap k km h old new = None \<and> exhausted k km) \<or>
    (\<exists>ns km' A' h' new'. dup_mmap k km h old new = Some (0, k, km', h', new') \<and> kmem_inv k km' A' \<and>
      mm_ok h' new' ns \<and> mm_ok h' old vs \<and> set ns \<inter> live km = {} \<and> live km' = live km \<union> set ns \<and>
      map (area h') ns = map (area h) vs \<and> map (\<lambda>n. vm_file (h' n)) ns = map (\<lambda>v. vm_file (h v)) vs \<and>
      map (\<lambda>n. vm_pgoff (h' n)) ns = map (\<lambda>v. vm_pgoff (h v)) vs)"
  using dup_mmap_case [OF assms] copies_areas by fast

theorem dup_mmap_correct_witness:
  "\<exists>km h u. (\<exists>n km' h' new'. dup_mmap sys0 km h (mm_at u 0) (mm_at u 5)
      = Some (0, sys0, km', h', new') \<and> n \<noteq> u \<and> mm_ok h' new' [n] \<and> area h' n = (0x8048000, 0x804b000))"
proof -
  obtain u km1 A1 where u: "kmem_inv sys0 km1 A1" "u \<in> live km1" "u \<noteq> 0" "kmalloc sys0 km1 SIZEOF_VMA \<noteq> None"
    by (rule one_block)
  define h :: vmas where "h = (\<lambda>_. zero_vma)(u := zero_vma\<lparr>vm_start := 0x8048000, vm_end := 0x804b000\<rparr>)"
  let ?old = "(mm_at u 0)" and ?new = "(mm_at u 5)"
  have ok: "mm_ok h ?old [u]"
    using u(3) by (simp add: mm_ok_def h_def areas_ok_Cons zero_vma_def) (simp add: area_def)
  have a: "area h u = (0x8048000, 0x804b000)" "vm_next (h u) = 0" by (simp_all add: h_def area_def zero_vma_def)
  obtain p km2 where p: "kmalloc sys0 km1 SIZEOF_VMA = Some (p, sys0, km2)" "p \<noteq> 0" "p \<notin> live km1"
    using kmalloc_vma [OF u(1)] u(4) by metis
  have "dup_mmap sys0 km1 h ?old ?new \<noteq> None"
  proof -
    have "p \<noteq> u" using p(3) u(2) by auto
    then have "dup_loop sys0 km2 (h(p := h u)) u p = Some (sys0, km2, h(p := h u))"
      using a(2) u(3) by (subst dup_loop.simps) (simp add: dup_loop.simps [of _ _ _ 0])
    then show ?thesis using u(3) p(1) by (simp add: dup_mmap_def)
  qed
  moreover have "set [u] \<subseteq> live km1" using u(2) by simp
  ultimately obtain ns km' A' h' new' where r: "dup_mmap sys0 km1 h ?old ?new = Some (0, sys0, km', h', new')"
    "mm_ok h' new' ns" "set ns \<inter> live km1 = {}" "map (area h') ns = map (area h) [u]"
    using dup_mmap_correct [OF u(1) ok, of ?new] by auto
  then obtain n where "ns = [n]" by (cases ns) auto
  then show ?thesis using r u(2) a(1)
    by - (rule exI [of _ km1], rule exI [of _ h], rule exI [of _ u], rule exI [of _ n], auto)
qed

end
