(* ===== verification/Descriptors.thy ===== *)
theory Descriptors
  imports Prelude
begin

text \<open>
  The tables the processor reads: kernel/interrupt.c (the interrupt descriptor table, the table of C
  handlers, the 8259A interrupt controllers), user/tss.c (the segment descriptors of user mode and the
  task state segment) and the programming of the 8253 timer in device/timer.c. Addresses that the linker
  fixes - of the assembly entries and of the tables - are parameters. The progress messages are left out.
  What a table or a controller means to the hardware is the reference each property states: the layout of
  gates and descriptors, and the initialisation sequence of the 8259A.
\<close>

section \<open>The interrupt descriptor table\<close>

record gate_desc =
  func_offset_low_word :: u16
  selector :: u16
  dcount :: u8
  attribute :: u8
  func_offset_high_word :: u16

datatype intr_handler = General_intr_handler | Intr_timer_handler | Keyboard_handler | Intr_hd_handler

record intr_state =
  idt :: "nat \<Rightarrow> gate_desc"
  idt_table :: "nat \<Rightarrow> intr_handler"
  intr_name :: "nat \<Rightarrow> string"

text \<open>
  The entries of kernel.S. Its \<open>intr_entry_table\<close> has a word for each of the vectors below 0x30; \<open>behind_table\<close> are the
  words that the linker has put behind it, whatever they are. The last two entries are installed by name.
\<close>

definition INTR_ENTRIES :: nat where "INTR_ENTRIES = 0x30"

record entries =
  intr_entry_table :: "nat \<Rightarrow> u32"
  behind_table :: "nat \<Rightarrow> u32"
  page_fault_handler :: u32
  syscall_handler :: u32

definition IDT_DESC_CNT :: nat where "IDT_DESC_CNT = 0x81"

definition SELECTOR_K_CODE :: u16 where
  "SELECTOR_K_CODE = push_bit 3 1 + push_bit 2 0 + 0"

definition IDT_DESC_ATTR_DPL0 :: u8 where
  "IDT_DESC_ATTR_DPL0 = push_bit 7 1 + push_bit 5 0 + 0xE"

definition IDT_DESC_ATTR_DPL3 :: u8 where
  "IDT_DESC_ATTR_DPL3 = push_bit 7 1 + push_bit 5 3 + 0xE"

definition make_idt_desc :: "gate_desc \<Rightarrow> u8 \<Rightarrow> u32 \<Rightarrow> gate_desc" where
  "make_idt_desc g attr function = g
     \<lparr>func_offset_low_word := ucast (function AND 0x0000FFFF),
      selector := SELECTOR_K_CODE,
      dcount := 0,
      attribute := attr,
      func_offset_high_word := ucast (drop_bit 16 (function AND 0xFFFF0000))\<rparr>"

text \<open>\<open>intr_entry_table[i]\<close>, for which the declaration in C promises 0x81 words.\<close>

definition entry_word :: "entries \<Rightarrow> nat \<Rightarrow> u32" where
  "entry_word e i = (if i < INTR_ENTRIES then intr_entry_table e i else behind_table e (i - INTR_ENTRIES))"

definition idt_desc_init :: "entries \<Rightarrow> intr_state \<Rightarrow> intr_state" where
  "idt_desc_init e s =
     (let lastindex = IDT_DESC_CNT - 1;
          t = fold (\<lambda>i t. t(i := make_idt_desc (t i) IDT_DESC_ATTR_DPL0 (entry_word e i))) [0..<IDT_DESC_CNT] (idt s);
          t = t(14 := make_idt_desc (t 14) IDT_DESC_ATTR_DPL0 (page_fault_handler e));
          t = t(lastindex := make_idt_desc (t lastindex) IDT_DESC_ATTR_DPL3 (syscall_handler e))
      in s\<lparr>idt := t\<rparr>)"

definition exception_names :: "(nat \<times> string) list" where
  "exception_names =
     [(0, ''#DE Divide Error''), (1, ''#DB Debug Exception''), (2, ''NMI Interrupt''),
      (3, ''#BP Breakpoint Exception''), (4, ''#OF Overflow Exception''),
      (5, ''#BR BOUND Range Exceeded Exception''), (6, ''#UD Invalid Opcode Exception''),
      (7, ''#NM Device Not Available Exception''), (8, ''#DF Double Fault Exception''),
      (9, ''Coprocessor Segment Overrun''), (10, ''#TS Invalid TSS Exception''),
      (11, ''#NP Segment Not Present''), (12, ''#SS Stack Fault Exception''),
      (13, ''#GP General Protection Exception''), (14, ''#PF Page-Fault Exception''),
      (16, ''#MF x87 FPU Floating-Point Error''), (17, ''#AC Alignment Check Exception''),
      (18, ''#MC Machine-Check Exception'')] @
     map (\<lambda>i. (i, ''#XF SIMD Floating-Point Exception'')) [19..<50]"

definition exception_init :: "intr_state \<Rightarrow> intr_state" where
  "exception_init s =
     (let s = fold (\<lambda>i s. s\<lparr>idt_table := (idt_table s)(i := General_intr_handler),
                            intr_name := (intr_name s)(i := ''unknown'')\<rparr>) [0..<IDT_DESC_CNT] s
      in fold (\<lambda>(i, n) s. s\<lparr>intr_name := (intr_name s)(i := n)\<rparr>) exception_names s)"

text \<open>A vector outside \<open>idt_table\<close> would write outside the array: \<^const>\<open>None\<close>.\<close>

definition register_handler :: "nat \<Rightarrow> intr_handler \<Rightarrow> intr_state \<Rightarrow> intr_state option" where
  "register_handler vector_no function s =
     (if vector_no < IDT_DESC_CNT then Some (s\<lparr>idt_table := (idt_table s)(vector_no := function)\<rparr>) else None)"

text \<open>It prints the exception and loops for ever, except for the two spurious interrupts.\<close>

definition general_intr_handler :: "u8 \<Rightarrow> unit option" where
  "general_intr_handler vec_nr = (if vec_nr = 0x27 \<or> vec_nr = 0x2f then Some () else None)"

section \<open>The interrupt controllers and the timer\<close>

type_synonym port_writes = "(u16 \<times> u8) list"

definition outb :: "u16 \<Rightarrow> u8 \<Rightarrow> port_writes" where
  "outb port data = [(port, data)]"

definition PIC_M_CTRL :: u16 where "PIC_M_CTRL = 0x20"
definition PIC_M_DATA :: u16 where "PIC_M_DATA = 0x21"
definition PIC_S_CTRL :: u16 where "PIC_S_CTRL = 0xa0"
definition PIC_S_DATA :: u16 where "PIC_S_DATA = 0xa1"

lemmas pic_ports = PIC_M_CTRL_def PIC_M_DATA_def PIC_S_CTRL_def PIC_S_DATA_def

definition pic_init :: port_writes where
  "pic_init =
     outb PIC_M_CTRL 0x11 @ outb PIC_M_DATA 0x20 @ outb PIC_M_DATA 0x04 @ outb PIC_M_DATA 0x01 @
     outb PIC_S_CTRL 0x11 @ outb PIC_S_DATA 0x28 @ outb PIC_S_DATA 0x02 @ outb PIC_S_DATA 0x01 @
     outb PIC_M_DATA 0xf8 @ outb PIC_S_DATA 0xbf"

text \<open>The operand of \<open>lidt\<close>, for an \<open>idt\<close> at address \<open>a\<close>; a gate takes 8 bytes.\<close>

definition idt_init :: "entries \<Rightarrow> u32 \<Rightarrow> intr_state \<Rightarrow> intr_state \<times> port_writes \<times> u64" where
  "idt_init e a s =
     (exception_init (idt_desc_init e s), pic_init,
      of_nat (IDT_DESC_CNT * 8 - 1) OR push_bit 16 (ucast a))"

definition HZ :: u32 where "HZ = 100"
definition CLOCK_TICK_RATE :: u32 where "CLOCK_TICK_RATE = 1193180"

definition LATCH :: u32 where
  "LATCH = (CLOCK_TICK_RATE + HZ div 2) div HZ"

definition init_PIT :: port_writes where
  "init_PIT = outb 0x34 0x43 @ outb (ucast (LATCH AND 0xff)) 0x40 @ outb (ucast (drop_bit 8 LATCH)) 0x40"

definition timer_init :: "intr_state \<Rightarrow> (intr_state \<times> port_writes) option" where
  "timer_init s = do { s \<leftarrow> register_handler 0x20 Intr_timer_handler s; Some (s, init_PIT) }"

section \<open>Segment descriptors and the task state segment\<close>

definition make_desc :: "u32 \<Rightarrow> u32 \<Rightarrow> u32 \<Rightarrow> u32 \<Rightarrow> int \<Rightarrow> bool \<Rightarrow> u32 \<Rightarrow> u64 option" where
  "make_desc base G D_B limit DPL S TYP = do {
     ASSERT (0 \<le> DPL \<and> DPL \<le> 3);
     let low = (limit AND 0xffff) OR push_bit 16 (base AND 0xffff);
     let high = drop_bit 16 (base AND 0xff0000) OR push_bit 8 (TYP AND 0xf) OR push_bit 12 (if S then 1 else 0) OR
           push_bit 13 (word_of_int DPL) OR push_bit 15 1 OR (limit AND 0xf0000) OR push_bit 20 0 OR
           push_bit 22 D_B OR push_bit 23 G OR (base AND 0xff000000);
     Some (push_bit 32 (ucast (high :: u32)) + ucast (low :: u32)) }"

text \<open>The fields of the task state segment that the kernel sets, the descriptors it writes, and the
  operands of \<open>lgdt\<close> and \<open>ltr\<close>.\<close>

record tss_state =
  esp0 :: u32
  ss0 :: u32
  io_map :: u16
  gdt_mem :: "u32 \<Rightarrow> u64"
  gdtr :: u64
  tr :: u16

definition update_esp0 :: "u32 \<Rightarrow> tss_state \<Rightarrow> tss_state" where
  "update_esp0 thread t = t\<lparr>esp0 := (thread AND 0xfffff000) + 4096\<rparr>"

definition SELECTOR_K_DATA :: u32 where "SELECTOR_K_DATA = push_bit 3 2 + push_bit 2 0 + 0"
definition SELECTOR_U_CODE :: u32 where "SELECTOR_U_CODE = push_bit 3 5 + push_bit 2 0 + 3"
definition SELECTOR_U_DATA :: u32 where "SELECTOR_U_DATA = push_bit 3 6 + push_bit 2 0 + 3"
definition SELECTOR_TSS :: u32 where "SELECTOR_TSS = push_bit 3 4 + push_bit 2 0 + 0"

definition TSS_SIZE :: u32 where "TSS_SIZE = 104"

text \<open>\<open>a\<close> is the address of the structure \<open>tss\<close>.\<close>

definition tss_init :: "u32 \<Rightarrow> tss_state \<Rightarrow> tss_state option" where
  "tss_init a t = do {
     let t = t\<lparr>io_map := ucast TSS_SIZE\<rparr>;
     let t = t\<lparr>ss0 := SELECTOR_K_DATA\<rparr>;
     tss_desc \<leftarrow> make_desc a 0 1 (TSS_SIZE - 1) 0 False 9;
     let t = t\<lparr>gdt_mem := (gdt_mem t)(0xc0000920 := tss_desc)\<rparr>;
     user_code \<leftarrow> make_desc 0 1 1 0xfffff 3 True 8;
     let t = t\<lparr>gdt_mem := (gdt_mem t)(0xc0000928 := user_code)\<rparr>;
     user_data \<leftarrow> make_desc 0 1 1 0xfffff 3 True 2;
     let t = t\<lparr>gdt_mem := (gdt_mem t)(0xc0000930 := user_data)\<rparr>;
     let t = t\<lparr>gdtr := (7 * 8 - 1) OR push_bit 16 0xc0000900\<rparr>;
     Some (t\<lparr>tr := ucast SELECTOR_TSS\<rparr>) }"

section \<open>What the hardware reads\<close>

text \<open>The address and privilege level of a 32-bit interrupt gate.\<close>

definition gate_address :: "gate_desc \<Rightarrow> u32" where
  "gate_address g = push_bit 16 (ucast (func_offset_high_word g)) OR ucast (func_offset_low_word g)"

definition gate_ok :: "gate_desc \<Rightarrow> nat \<Rightarrow> bool" where
  "gate_ok g dpl \<longleftrightarrow> selector g = 8 \<and> dcount g = 0 \<and> bit (attribute g) 7 \<and>
     take_bit 5 (attribute g) = 0xE \<and> take_bit 2 (drop_bit 5 (attribute g)) = of_nat dpl"

text \<open>The masks of the code, bit by bit.\<close>

named_theorems masks \<open>the constants of the code as masks of bits\<close>

lemma mask32 [masks]:
  "(0xFFFF :: u32) = mask 16" "(0xFFFF0000 :: u32) = NOT (mask 16)"
  "(0xff0000 :: u32) = push_bit 16 (mask 8)" "(0xf :: u32) = mask 4"
  "(0xf0000 :: u32) = push_bit 16 (mask 4)" "(0xff000000 :: u32) = push_bit 24 (mask 8)"
  "(0xfffff :: u32) = mask 20"
  by (simp_all add: mask_eq_exp_minus_1)

lemma gate_address_make [simp]: "gate_address (make_idt_desc g attr f) = f"
  unfolding gate_address_def make_idt_desc_def masks
  by (intro bit_word_eqI) (auto simp: bit_simps)

lemma gate_ok_make [simp]:
  "gate_ok (make_idt_desc g IDT_DESC_ATTR_DPL0 f) 0" "gate_ok (make_idt_desc g IDT_DESC_ATTR_DPL3 f) 3"
  by (simp_all add: gate_ok_def make_idt_desc_def SELECTOR_K_CODE_def IDT_DESC_ATTR_DPL0_def IDT_DESC_ATTR_DPL3_def)

lemma fold_upd_upt:
  "fold (\<lambda>i t. t(i := f i (t i))) [0..<n] t = (\<lambda>i. if i < n then f i (t i) else t i)"
  by (induction n) (auto simp: fun_eq_iff less_Suc_eq)

lemma idt_desc_init_eq:
  "idt (idt_desc_init e s) = (\<lambda>i.
     if i = 0x80 then make_idt_desc (make_idt_desc (idt s i) IDT_DESC_ATTR_DPL0 (entry_word e i)) IDT_DESC_ATTR_DPL3 (syscall_handler e)
     else if i = 14 then make_idt_desc (make_idt_desc (idt s i) IDT_DESC_ATTR_DPL0 (entry_word e i)) IDT_DESC_ATTR_DPL0 (page_fault_handler e)
     else if i < 0x81 then make_idt_desc (idt s i) IDT_DESC_ATTR_DPL0 (entry_word e i) else idt s i)"
proof -
  note f = fold_upd_upt [of "\<lambda>i g. make_idt_desc g IDT_DESC_ATTR_DPL0 (entry_word e i)" "0x81" "idt s"]
  show ?thesis unfolding idt_desc_init_def Let_def IDT_DESC_CNT_def f by (auto simp: fun_eq_iff)
qed

lemma idt_desc_init_other [simp]:
  "idt_table (idt_desc_init e s) = idt_table s" "intr_name (idt_desc_init e s) = intr_name s"
  by (simp_all add: idt_desc_init_def Let_def)

lemma exception_init_table:
  "idt_table (exception_init s) = (\<lambda>i. if i < 0x81 then General_intr_handler else idt_table s i)"
  "idt (exception_init s) = idt s"
proof -
  have names: "idt_table (fold (\<lambda>(i, n) s. s\<lparr>intr_name := (intr_name s)(i := n)\<rparr>) xs s) = idt_table s \<and>
      idt (fold (\<lambda>(i, n) s. s\<lparr>intr_name := (intr_name s)(i := n)\<rparr>) xs s) = idt s" for xs and s :: intr_state
    by (induction xs arbitrary: s) auto
  have clear: "idt_table (fold (\<lambda>i s. s\<lparr>idt_table := (idt_table s)(i := General_intr_handler),
          intr_name := (intr_name s)(i := ''unknown'')\<rparr>) [0..<n] s) = (\<lambda>i. if i < n then General_intr_handler else idt_table s i) \<and>
      idt (fold (\<lambda>i s. s\<lparr>idt_table := (idt_table s)(i := General_intr_handler),
          intr_name := (intr_name s)(i := ''unknown'')\<rparr>) [0..<n] s) = idt s" for n
    by (induction n) (auto simp: fun_eq_iff less_Suc_eq)
  show "idt_table (exception_init s) = (\<lambda>i. if i < 0x81 then General_intr_handler else idt_table s i)"
    "idt (exception_init s) = idt s"
    unfolding exception_init_def Let_def using names clear [of IDT_DESC_CNT] by (auto simp: IDT_DESC_CNT_def)
qed

text \<open>
  One 8259A, after its data sheet: a write to the command port with bit 4 set (ICW1) starts the
  initialisation and clears the mask; the next writes to the data port are the vector base (ICW2), the
  cascade wiring (ICW3) and the mode (ICW4); after that the data port holds the interrupt mask.
\<close>

record pic =
  next_icw :: nat
  vector_base :: u8
  cascade :: u8
  pic_mode :: u8
  imr :: u8

definition pic_command :: "u8 \<Rightarrow> pic \<Rightarrow> pic" where
  "pic_command v p = (if bit v 4 then p\<lparr>next_icw := 2, imr := 0\<rparr> else p)"

definition pic_data :: "u8 \<Rightarrow> pic \<Rightarrow> pic" where
  "pic_data v p =
     (if next_icw p = 2 then p\<lparr>vector_base := v AND 0xf8, next_icw := 3\<rparr>
      else if next_icw p = 3 then p\<lparr>cascade := v, next_icw := 4\<rparr>
      else if next_icw p = 4 then p\<lparr>pic_mode := v, next_icw := 0\<rparr>
      else p\<lparr>imr := v\<rparr>)"

definition pics_write :: "u16 \<times> u8 \<Rightarrow> pic \<times> pic \<Rightarrow> pic \<times> pic" where
  "pics_write = (\<lambda>(port, v) (mp, sp).
     if port = 0x20 then (pic_command v mp, sp) else if port = 0x21 then (pic_data v mp, sp)
     else if port = 0xa0 then (mp, pic_command v sp) else if port = 0xa1 then (mp, pic_data v sp)
     else (mp, sp))"

text \<open>The vector on which the interrupt line \<open>irq\<close> reaches the processor, when it is not masked: line 2
  of the master is the slave.\<close>

definition irq_vector :: "pic \<times> pic \<Rightarrow> nat \<Rightarrow> nat option" where
  "irq_vector = (\<lambda>(mp, sp) irq.
     if next_icw mp \<noteq> 0 \<or> next_icw sp \<noteq> 0 then None
     else if irq < 8 then (if bit (imr mp) irq \<or> irq = 2 then None else Some (unat (vector_base mp) + irq))
     else if irq < 16 then (if bit (imr sp) (irq - 8) \<or> bit (imr mp) 2 \<or> \<not> bit (cascade mp) 2 \<or> cascade sp \<noteq> 2 then None
       else Some (unat (vector_base sp) + (irq - 8)))
     else None)"

lemma pic_init_state:
  "fold pics_write pic_init (mp, sp) =
     (mp\<lparr>next_icw := 0, vector_base := 0x20, cascade := 4, pic_mode := 1, imr := 0xf8\<rparr>,
      sp\<lparr>next_icw := 0, vector_base := 0x28, cascade := 2, pic_mode := 1, imr := 0xbf\<rparr>)"
  by (simp add: pic_init_def outb_def pic_ports pics_write_def pic_command_def pic_data_def)

lemma irq_vector_init:
  "irq_vector (fold pics_write pic_init ps) irq =
     (if irq = 0 then Some 0x20 else if irq = 1 then Some 0x21 else if irq = 14 then Some 0x2e else None)"
proof -
  obtain mp sp where ps: "ps = (mp, sp)" by (cases ps)
  have "irq < 16 \<Longrightarrow> irq \<in> {0, 1, 2, 3, 4, 5, 6, 7, 8, 9, 10, 11, 12, 13, 14, 15}"
    by (auto simp: less_Suc_eq numeral_eq_Suc)
  then show ?thesis
    by (cases "irq < 16") (auto simp: ps pic_init_state irq_vector_def)
qed

text \<open>A segment descriptor as the processor decodes it.\<close>

definition seg_base :: "u64 \<Rightarrow> u64" where
  "seg_base d = take_bit 24 (drop_bit 16 d) OR push_bit 24 (drop_bit 56 d)"

definition seg_limit :: "u64 \<Rightarrow> u64" where
  "seg_limit d = take_bit 16 d OR push_bit 16 (take_bit 4 (drop_bit 48 d))"

definition seg_dpl :: "u64 \<Rightarrow> u64" where
  "seg_dpl d = take_bit 2 (drop_bit 45 d)"

definition seg_type :: "u64 \<Rightarrow> u64" where
  "seg_type d = take_bit 4 (drop_bit 40 d)"

lemma make_desc_bits:
  assumes "make_desc base (of_bool G) (of_bool D) limit DPL S TYP = Some d"
  shows "0 \<le> DPL \<and> DPL \<le> 3" and
    "bit d n \<longleftrightarrow> (if n < 16 then bit limit n else if n < 40 then bit base (n - 16) else if n < 44 then bit TYP (n - 40)
      else if n = 44 then S else if n < 47 then bit DPL (n - 45) else if n = 47 then True
      else if n < 52 then bit limit (n - 32) else if n = 54 then D else if n = 55 then G
      else 56 \<le> n \<and> n < 64 \<and> bit base (n - 32))"
proof -
  show dpl: "0 \<le> DPL \<and> DPL \<le> 3" using assms by (simp add: make_desc_def)
  define low where "low = (limit AND 0xffff) OR push_bit 16 (base AND 0xffff)"
  define high where "high = drop_bit 16 (base AND 0xff0000) OR push_bit 8 (TYP AND 0xf) OR push_bit 12 (if S then 1 else 0) OR
           push_bit 13 (word_of_int DPL) OR push_bit 15 1 OR (limit AND 0xf0000) OR push_bit 20 0 OR
           push_bit 22 (of_bool D) OR push_bit 23 (of_bool G) OR (base AND 0xff000000)"
  have d: "d = push_bit 32 (ucast high) OR ucast low"
  proof -
    have "push_bit 32 (ucast high) + ucast low = push_bit 32 (ucast high) OR (ucast low :: u64)"
      by (intro disjunctive_add) (auto simp: bit_simps dest: bit_imp_le_length)
    moreover have "d = push_bit 32 (ucast high) + ucast low"
      using assms dpl by (simp add: make_desc_def low_def high_def Let_def)
    ultimately show ?thesis by simp
  qed
  show "bit d n \<longleftrightarrow> (if n < 16 then bit limit n else if n < 40 then bit base (n - 16) else if n < 44 then bit TYP (n - 40)
      else if n = 44 then S else if n < 47 then bit DPL (n - 45) else if n = 47 then True
      else if n < 52 then bit limit (n - 32) else if n = 54 then D else if n = 55 then G
      else 56 \<le> n \<and> n < 64 \<and> bit base (n - 32))"
  proof -
    have two: "bit DPL k \<Longrightarrow> k < 2" for k
    proof (rule ccontr)
      assume b: "bit DPL k" "\<not> k < 2"
      have "(2 :: int) ^ 2 \<le> 2 ^ k" using b(2) by (intro power_increasing) auto
      then have "DPL div 2 ^ k = 0" using dpl by (intro div_pos_pos_trivial) auto
      then show False using b(1) by (simp add: bit_iff_odd)
    qed
    have l: "bit low n \<longleftrightarrow> (if n < 16 then bit limit n else n < 32 \<and> bit base (n - 16))" for n
      unfolding low_def masks by (auto simp: bit_simps)
    have h: "bit high n \<longleftrightarrow> (if n < 8 then bit base (n + 16) else if n < 12 then bit TYP (n - 8) else if n = 12 then S
        else if n < 15 then bit DPL (n - 13) else if n = 15 then True else if n < 20 then bit limit n
        else if n = 22 then D else if n = 23 then G else 24 \<le> n \<and> n < 32 \<and> bit base n)" for n
    proof -
      have p15: "bit (32768 :: int) n \<longleftrightarrow> n = 15"
        using bit_exp_iff [where 'a = int, of 15 n] by auto
      consider "n < 8" | "8 \<le> n \<and> n < 12" | "n = 12" | "n = 13" | "n = 14" | "n = 15" | "16 \<le> n \<and> n < 20"
        | "20 \<le> n \<and> n < 22" | "n = 22" | "n = 23" | "24 \<le> n \<and> n < 32" | "32 \<le> n" by linarith
      then show ?thesis
        unfolding high_def masks
        by cases (auto simp: bit_simps p15 add.commute dest: two bit_imp_le_length)
    qed
    show ?thesis
    proof (cases "n < 32")
      case True
      then have "bit d n = bit low n" unfolding d by (simp add: bit_simps)
      then show ?thesis using True by (simp add: l)
    next
      case False
      then obtain k where k: "n = k + 32" by (metis add.commute le_add_diff_inverse not_less)
      have "bit d n = bit high k" unfolding d k by (auto simp: bit_simps dest: bit_imp_le_length)
      then show ?thesis unfolding k h by (simp add: add.commute)
    qed
  qed
qed

lemma make_desc_fields:
  assumes "make_desc base (of_bool G) (of_bool D) limit DPL S TYP = Some d"
  shows "seg_base d = ucast base \<and> seg_limit d = ucast (limit AND 0xfffff) \<and> seg_dpl d = word_of_int DPL \<and>
    seg_type d = ucast (TYP AND 0xf) \<and> bit d 44 = S \<and> bit d 47 \<and> bit d 54 = D \<and> bit d 55 = G"
proof -
  note dpl = make_desc_bits(1) [OF assms] and b = make_desc_bits(2) [OF assms]
  have "seg_base d = ucast base"
    unfolding seg_base_def by (intro bit_word_eqI) (auto simp: bit_simps b dest: bit_imp_le_length)
  moreover have "seg_limit d = ucast (limit AND 0xfffff)"
    unfolding seg_limit_def masks by (intro bit_word_eqI) (auto simp: bit_simps b)
  moreover have "seg_dpl d = word_of_int DPL"
  proof -
    have "DPL = take_bit 2 DPL" using dpl by (simp add: take_bit_int_eq_self)
    then have "bit DPL n \<longleftrightarrow> n < 2 \<and> bit DPL n" for n by (metis bit_take_bit_iff)
    then show ?thesis unfolding seg_dpl_def by (intro bit_word_eqI) (auto simp: bit_simps b)
  qed
  moreover have "seg_type d = ucast (TYP AND 0xf)"
    unfolding seg_type_def masks by (intro bit_word_eqI) (auto simp: bit_simps b)
  ultimately show ?thesis by (simp add: b)
qed

section \<open>Properties\<close>

text \<open>C33: after \<open>idt_init\<close> every gate of the table is a present 32-bit interrupt gate of the kernel's code
  segment. The gates of the vectors below 0x30, for which kernel.S has entries, lead to the entry of their vector, vector 14
  to the page fault handler; vector 0x80 leads to the system call handler, which alone a user program may call. The gates
  from 0x30 to 0x7F lead wherever the words behind the table of kernel.S point, since \<open>idt_desc_init\<close> reads on behind its end.
  The controllers let exactly the clock, keyboard and disk lines through, on vectors 0x20, 0x21 and 0x2E, whatever state
  they were in: no device raises one of the vectors without an entry.\<close>

theorem idt_init_correct:
  "(\<forall>i. i < 0x81 \<longrightarrow>
      gate_ok (idt (fst (idt_init e a s)) i) (if i = 0x80 then 3 else 0) \<and>
      gate_address (idt (fst (idt_init e a s)) i)
        = (if i < 0x30 then (if i = 14 then page_fault_handler e else intr_entry_table e i)
           else if i < 0x80 then behind_table e (i - 0x30) else syscall_handler e) \<and>
      idt_table (fst (idt_init e a s)) i = General_intr_handler) \<and>
   (\<forall>irq. irq_vector (fold pics_write (fst (snd (idt_init e a s))) ps) irq =
      (if irq = 0 then Some 0x20 else if irq = 1 then Some 0x21 else if irq = 14 then Some 0x2e else None))"
  by (auto simp: idt_init_def idt_desc_init_eq exception_init_table irq_vector_init entry_word_def INTR_ENTRIES_def)

definition entries0 :: entries where
  "entries0 = \<lparr>intr_entry_table = (\<lambda>i. 0xc0100000 + of_nat i * 32), behind_table = (\<lambda>_. 0x90909090), page_fault_handler = 0xc0200000, syscall_handler = 0xc0300000\<rparr>"

definition intr0 :: intr_state where
  "intr0 = \<lparr>idt = (\<lambda>_. \<lparr>func_offset_low_word = 0, selector = 0, dcount = 0, attribute = 0, func_offset_high_word = 0\<rparr>),
     idt_table = (\<lambda>_. General_intr_handler), intr_name = (\<lambda>_. [])\<rparr>"

theorem idt_init_correct_witness:
  "gate_address (idt (fst (idt_init entries0 0xc0010000 intr0)) 0x21) = 0xc0100420 \<and>
   gate_address (idt (fst (idt_init entries0 0xc0010000 intr0)) 0x40) = 0x90909090 \<and>
   gate_address (idt (fst (idt_init entries0 0xc0010000 intr0)) 0x80) = 0xc0300000"
proof -
  note c = idt_init_correct [THEN conjunct1, THEN spec, THEN mp, THEN conjunct2, THEN conjunct1]
  show ?thesis using c [of "0x21" entries0 "0xc0010000" intr0] c [of "0x80" entries0 "0xc0010000" intr0]
      c [of "0x40" entries0 "0xc0010000" intr0]
    by (simp add: entries0_def)
qed

text \<open>\<open>make_desc\<close> builds the descriptor that the processor decodes to the base, limit, privilege, type and
  flags it was given, and panics for a privilege level outside 0 to 3.\<close>

theorem make_desc_roundtrip:
  "(\<not> (0 \<le> DPL \<and> DPL \<le> 3) \<longrightarrow> make_desc base (of_bool G) (of_bool D) limit DPL S TYP = None) \<and>
   (0 \<le> DPL \<and> DPL \<le> 3 \<longrightarrow> (\<exists>d. make_desc base (of_bool G) (of_bool D) limit DPL S TYP = Some d \<and>
      seg_base d = ucast base \<and> seg_limit d = ucast (limit AND 0xfffff) \<and> seg_dpl d = word_of_int DPL \<and>
      seg_type d = ucast (TYP AND 0xf) \<and> bit d 44 = S \<and> bit d 47 \<and> bit d 54 = D \<and> bit d 55 = G))"
proof (cases "0 \<le> DPL \<and> DPL \<le> 3")
  case True
  then obtain d where d: "make_desc base (of_bool G) (of_bool D) limit DPL S TYP = Some d"
    by (simp add: make_desc_def Let_def)
  show ?thesis using True make_desc_fields [OF d] d by auto
next
  case False
  then show ?thesis by (auto simp: make_desc_def)
qed

theorem make_desc_roundtrip_witness:
  "\<exists>d. make_desc 0xc0001000 0 1 103 0 False 9 = Some d \<and> seg_base d = 0xc0001000 \<and> seg_limit d = 103"
  using make_desc_roundtrip [of 0 "0xc0001000" False True 103 False 9, THEN conjunct2] by auto

definition gdt_entry :: "tss_state \<Rightarrow> u32 \<Rightarrow> u64" where
  "gdt_entry t sel = gdt_mem t (ucast (drop_bit 16 (gdtr t)) + push_bit 3 (drop_bit 3 sel))"

definition in_gdt :: "tss_state \<Rightarrow> u32 \<Rightarrow> bool" where
  "in_gdt t sel \<longleftrightarrow> push_bit 3 (drop_bit 3 sel) + 7 \<le> ucast (take_bit 16 (gdtr t))"

text \<open>\<open>tss_init\<close> returns, and the task register then selects a descriptor, inside the limit of the GDT,
  of the task state segment; the user selectors select flat segments of privilege 3.\<close>

theorem tss_init_correct:
  "\<exists>t'. tss_init a t = Some t' \<and> ss0 t' = 16 \<and> esp0 t' = esp0 t \<and>
     ucast (tr t') = SELECTOR_TSS \<and> in_gdt t' SELECTOR_TSS \<and> in_gdt t' SELECTOR_U_CODE \<and> in_gdt t' SELECTOR_U_DATA \<and>
     seg_base (gdt_entry t' SELECTOR_TSS) = ucast a \<and> seg_limit (gdt_entry t' SELECTOR_TSS) = 103 \<and>
     seg_type (gdt_entry t' SELECTOR_TSS) = 9 \<and>
     seg_base (gdt_entry t' SELECTOR_U_CODE) = 0 \<and> seg_limit (gdt_entry t' SELECTOR_U_CODE) = 0xfffff \<and>
     seg_dpl (gdt_entry t' SELECTOR_U_CODE) = 3 \<and> seg_type (gdt_entry t' SELECTOR_U_CODE) = 8 \<and>
     seg_base (gdt_entry t' SELECTOR_U_DATA) = 0 \<and> seg_limit (gdt_entry t' SELECTOR_U_DATA) = 0xfffff \<and>
     seg_dpl (gdt_entry t' SELECTOR_U_DATA) = 3 \<and> seg_type (gdt_entry t' SELECTOR_U_DATA) = 2"
proof -
  obtain d c u where d: "make_desc a 0 1 (TSS_SIZE - 1) 0 False 9 = Some d"
    "make_desc 0 1 1 0xfffff 3 True 8 = Some c" "make_desc 0 1 1 0xfffff 3 True 2 = Some u"
    by (simp add: make_desc_def Let_def)
  note f = make_desc_fields [of a False True "TSS_SIZE - 1" 0 False 9 d] make_desc_fields [of 0 True True "0xfffff" 3 True 8 c]
    make_desc_fields [of 0 True True "0xfffff" 3 True 2 u]
  show ?thesis
    using f d
    by (simp add: tss_init_def gdt_entry_def in_gdt_def SELECTOR_TSS_def SELECTOR_U_CODE_def SELECTOR_U_DATA_def
        SELECTOR_K_DATA_def TSS_SIZE_def)
qed

text \<open>\<open>update_esp0\<close> sets the kernel stack of a thread to the end of the page of its descriptor.\<close>

lemma update_esp0_page: "thread AND 0xfff = 0 \<Longrightarrow> esp0 (update_esp0 thread t) = thread + 4096"
proof -
  assume "thread AND 0xfff = 0"
  then have "thread AND 0xfffff000 = thread"
  proof -
    have m: "(0xfff :: u32) = mask 12" "(0xfffff000 :: u32) = NOT (mask 12)" by (simp_all add: mask_eq_exp_minus_1)
    have "thread AND mask 12 = 0" using \<open>thread AND 0xfff = 0\<close> m by simp
    then have "\<not> (bit thread n \<and> n < 12)" for n
      by (metis bit_0_eq bit_and_iff bit_imp_le_length bit_mask_iff bot_apply bot_bool_def possible_bit_word)
    then show ?thesis unfolding m by (intro bit_word_eqI) (auto simp: bit_simps)
  qed
  then show ?thesis by (simp add: update_esp0_def)
qed

text \<open>\<open>outb\<close> takes the port first: \<open>init_PIT\<close> writes to the ports 0x34, 0x9C and 0x2E, none of them a port of
  the 8253, which so keeps the rate the firmware left.\<close>

theorem init_PIT_misses: "{0x40, 0x41, 0x42, 0x43} \<inter> fst ` set init_PIT = {}"
  by (simp add: init_PIT_def outb_def LATCH_def CLOCK_TICK_RATE_def HZ_def)

end
