(* ===== verification/Threads.thy ===== *)
theory Threads
  imports Vma Descriptors
begin

text \<open>
  kernel/kthread.c, user/process.c (process numbers and activation), kernel/exit.c and the clock of
  device/timer.c: threads, the scheduler and the system clock.

  A thread is the address of its \<open>task_struct\<close>, which fills a page with the kernel stack. The state extends
  \<open>sys\<close> of theory Sync, whose \<open>current\<close>, \<open>ready_list\<close> and \<open>tstate\<close> are the running thread, the ready queue and
  the field \<open>state\<close>. \<open>switch_to\<close> is assembly: it makes \<open>next\<close> the running thread, which goes on behind its own
  call of \<open>schedule\<close>. What that call site does with the interrupt flag - \<open>thread_block\<close> restores the saved
  status, \<open>thread_yield\<close>, \<open>kthread_start\<close> and the return from the clock interrupt enable it - is kept in
  \<open>resume\<close> and done by \<open>continue\<close>.
\<close>

section \<open>State\<close>

record task_struct =
  stack :: u32
  pid :: int
  pname :: "u8 list"
  exit_code :: int
  prio :: u32
  elapsed_ticks :: u32
  ticks :: u32
  t_mm :: nat
  fs :: nat
  files :: nat
  stack_magic :: u32

text \<open>\<open>fd_array\<close> holds the index of an entry of \<open>file_table\<close>, or NULL.\<close>

record files_struct =
  map_file :: nat
  close_on_exec :: u32
  open_fds :: u32
  fd_array :: "nat \<Rightarrow> nat option"

record fs_struct =
  cwd :: nat
  root :: nat

record thread_switch_data =
  sw_kthread_start :: u32
  sw_threadfn :: u32
  sw_data :: u32

record tsys = sys +
  task :: "tid \<Rightarrow> task_struct"
  resume :: "tid \<Rightarrow> intr_status"
  switch_data :: "u32 \<Rightarrow> thread_switch_data"
  idle :: tid
  pid_bitmap :: bitmap
  sys_ticks :: u32
  kmem_st :: kmem
  mms :: "nat \<Rightarrow> mm_struct"
  filess :: "nat \<Rightarrow> files_struct"
  fss :: "nat \<Rightarrow> fs_struct"
  file_count :: "nat \<Rightarrow> atomic_t"
  root_dir :: nat
  mmu_state :: mmu
  tss_st :: tss_state

definition STACK_MAGIC :: u32 where "STACK_MAGIC = 0x12345678"
definition MAX_PID :: nat where "MAX_PID = 65536"

definition set_task :: "tid \<Rightarrow> task_struct \<Rightarrow> 'a tsys_scheme \<Rightarrow> 'a tsys_scheme" where
  "set_task t d k = k\<lparr>task := (task k)(t := d)\<rparr>"

definition set_state :: "tid \<Rightarrow> task_state \<Rightarrow> 'a tsys_scheme \<Rightarrow> 'a tsys_scheme" where
  "set_state t s k = k\<lparr>tstate := (tstate k)(t := s)\<rparr>"

definition push_ready :: "tid \<Rightarrow> 'a tsys_scheme \<Rightarrow> 'a tsys_scheme" where
  "push_ready t k = k\<lparr>ready_list := ready_list k @ [t]\<rparr>"

section \<open>Process numbers\<close>

definition pid_init :: "'a tsys_scheme \<Rightarrow> 'a tsys_scheme option" where
  "pid_init k = do {
     (p, k, m) \<leftarrow> kmalloc k (kmem_st k) (of_nat (DIV_ROUND_UP MAX_PID 8));
     b \<leftarrow> bitmap_init (pid_bitmap k) MAX_PID;
     Some (k\<lparr>kmem_st := m, pid_bitmap := b\<rparr>) }"

definition alloc_pid :: "'a tsys_scheme \<Rightarrow> (int \<times> 'a tsys_scheme) option" where
  "alloc_pid k = do {
     (n, k, b) \<leftarrow> bitmap_scan_set k (pid_bitmap k);
     Some (n, k\<lparr>pid_bitmap := b\<rparr>) }"

definition free_pid :: "int \<Rightarrow> 'a tsys_scheme \<Rightarrow> 'a tsys_scheme option" where
  "free_pid n k = do {
     (k, b) \<leftarrow> bitmap_reset k (pid_bitmap k) (nat n);
     Some (k\<lparr>pid_bitmap := b\<rparr>) }"

section \<open>Switching threads\<close>

definition page_dir_activate :: "tid \<Rightarrow> 'a tsys_scheme \<Rightarrow> 'a tsys_scheme option" where
  "page_dir_activate t k = do {
     p \<leftarrow> (if t_mm (task k t) \<noteq> 0 then get_paddr (mmu_state k) (of_nat (pg_dir (mms k (t_mm (task k t)))))
           else Some 0x100000);
     Some (k\<lparr>mmu_state := (mmu_state k)\<lparr>cr3 := p\<rparr>\<rparr>) }"

definition process_activate :: "tid \<Rightarrow> 'a tsys_scheme \<Rightarrow> 'a tsys_scheme option" where
  "process_activate t k = do {
     ASSERT (t \<noteq> NULL);
     k \<leftarrow> page_dir_activate t k;
     Some (if t_mm (task k t) \<noteq> 0 then k\<lparr>tss_st := update_esp0 t (tss_st k)\<rparr> else k) }"

definition switch_to :: "tid \<Rightarrow> tid \<Rightarrow> 'a tsys_scheme \<Rightarrow> 'a tsys_scheme" where
  "switch_to now next k = k\<lparr>current := next\<rparr>"

definition expire :: "'a tsys_scheme \<Rightarrow> 'a tsys_scheme" where
  "expire k =
     (let cur = current k;
          k = set_task cur ((task k cur)\<lparr>ticks := prio (task k cur)\<rparr>) k;
          k = set_state cur READY k
      in push_ready cur k)"

definition reap :: "'a tsys_scheme \<Rightarrow> 'a tsys_scheme option" where
  "reap k = do {
     let cur = current k;
     k \<leftarrow> free_pid (pid (task k cur)) k;
     (k, b) \<leftarrow> free_page k (bd (kmem_st k)) (mmu_state k) (unat cur);
     Some (k\<lparr>kmem_st := (kmem_st k)\<lparr>bd := b\<rparr>\<rparr>) }"

definition pick_next :: "'a tsys_scheme \<Rightarrow> tid \<times> 'a tsys_scheme" where
  "pick_next k =
     (if ready_list k = [] then (idle k, k)
      else (hd (ready_list k), k\<lparr>ready_list := tl (ready_list k)\<rparr>))"

definition schedule :: "'a tsys_scheme \<Rightarrow> 'a tsys_scheme option" where
  "schedule k = do {
     ASSERT (intr_get_status k = INTR_OFF);
     let cur = current k;
     k \<leftarrow> (if tstate k cur = RUNNING then Some (expire k)
           else if tstate k cur = EXIT then reap k
           else Some k);
     let (next, k) = pick_next k;
     ASSERT (next \<noteq> NULL);
     let k = set_state next RUNNING k;
     k \<leftarrow> process_activate next k;
     Some (switch_to cur next k) }"

definition continue :: "'a tsys_scheme \<Rightarrow> 'a tsys_scheme" where
  "continue k = snd (intr_set_status (resume k (current k)) k)"

definition set_resume :: "intr_status \<Rightarrow> 'a tsys_scheme \<Rightarrow> 'a tsys_scheme" where
  "set_resume s k = k\<lparr>resume := (resume k)(current k := s)\<rparr>"

definition thread_block :: "'a tsys_scheme \<Rightarrow> 'a tsys_scheme option" where
  "thread_block k = do {
     let (old, k) = intr_disable k;
     let k = set_state (current k) BLOCKED k;
     k \<leftarrow> schedule (set_resume old k);
     Some (continue k) }"

definition thread_yield :: "'a tsys_scheme \<Rightarrow> 'a tsys_scheme option" where
  "thread_yield k = do {
     let (old, k) = intr_disable k;
     let k = set_state (current k) READY k;
     let k = push_ready (current k) k;
     k \<leftarrow> schedule (set_resume INTR_ON k);
     Some (continue k) }"

definition sys_exit :: "int \<Rightarrow> 'a tsys_scheme \<Rightarrow> 'a tsys_scheme option" where
  "sys_exit status k = do {
     let cur = current k;
     let k = set_state cur EXIT k;
     let k = set_task cur ((task k cur)\<lparr>exit_code := status\<rparr>) k;
     k \<leftarrow> schedule k;
     Some (continue k) }"

definition sys_getpid :: "'a tsys_scheme \<Rightarrow> u32" where
  "sys_getpid k = word_of_int (pid (task k (current k)))"

section \<open>The clock interrupt\<close>

definition intr_timer_handler :: "'a tsys_scheme \<Rightarrow> 'a tsys_scheme option" where
  "intr_timer_handler k = do {
     let cur = current k;
     ASSERT (stack_magic (task k cur) = STACK_MAGIC);
     let k = set_task cur ((task k cur)\<lparr>elapsed_ticks := elapsed_ticks (task k cur) + 1\<rparr>) k;
     let k = k\<lparr>sys_ticks := sys_ticks k + 1\<rparr>;
     if ticks (task k cur) = 0 then schedule k
     else Some (set_task cur ((task k cur)\<lparr>ticks := ticks (task k cur) - 1\<rparr>) k) }"

text \<open>The interrupt itself: the gate clears the flag, the return restores it. With the flag off it waits.\<close>

definition clock_interrupt :: "'a tsys_scheme \<Rightarrow> 'a tsys_scheme option" where
  "clock_interrupt k =
     (if intr_get_status k = INTR_ON
      then do { k \<leftarrow> intr_timer_handler (set_resume INTR_ON (cli k)); Some (continue k) }
      else Some k)"

section \<open>Creating threads\<close>

definition kzalloc_at :: "u32 \<Rightarrow> 'a tsys_scheme \<Rightarrow> (nat \<times> 'a tsys_scheme) option" where
  "kzalloc_at sz k = do { (p, k, m) \<leftarrow> kmalloc k (kmem_st k) sz; Some (p, k\<lparr>kmem_st := m\<rparr>) }"

definition inc_count :: "nat \<Rightarrow> 'a tsys_scheme \<Rightarrow> 'a tsys_scheme" where
  "inc_count i k = k\<lparr>file_count := (file_count k)(i := atomic_inc (file_count k i))\<rparr>"

definition files_struct_init :: "tid \<Rightarrow> 'a tsys_scheme \<Rightarrow> 'a tsys_scheme option" where
  "files_struct_init t k = do {
     (p, k) \<leftarrow> kzalloc_at 144 k;
     let k = inc_count 2 (inc_count 1 (inc_count 0 k));
     let f = \<lparr>map_file = 0, close_on_exec = 0, open_fds = 7,
              fd_array = (\<lambda>_. None)(0 := Some 0, 1 := Some 1, 2 := Some 2)\<rparr>;
     let k = k\<lparr>filess := (filess k)(p := f)\<rparr>;
     Some (set_task t ((task k t)\<lparr>files := p\<rparr>) k) }"

definition fs_struct_init :: "tid \<Rightarrow> 'a tsys_scheme \<Rightarrow> 'a tsys_scheme option" where
  "fs_struct_init t k = do {
     (p, k) \<leftarrow> kzalloc_at 8 k;
     let k = k\<lparr>fss := (fss k)(p := \<lparr>cwd = root_dir k, root = root_dir k\<rparr>)\<rparr>;
     Some (set_task t ((task k t)\<lparr>fs := p\<rparr>) k) }"

text \<open>\<open>sizeof (struct intr_stack)\<close> is 76, \<open>sizeof (struct thread_switch_data)\<close> is 32; \<open>start\<close> is the address of
  \<open>kthread_start\<close>. The fields that are not set keep what the page held. \<open>name\<close> is a string without its final NUL.
  \<open>strcpy\<close> copies it into the ten bytes of \<open>pname\<close> without a look at its length: a string of ten or more bytes is
  written past the array, over \<open>exit_code\<close> and the fields behind it, and has no result here.\<close>

definition init_thread :: "u32 \<Rightarrow> tid \<Rightarrow> u32 \<Rightarrow> u32 \<Rightarrow> u32 \<Rightarrow> u8 list \<Rightarrow> 'a tsys_scheme \<Rightarrow> 'a tsys_scheme option" where
  "init_thread start t threadfn data pri name k = do {
     let k = set_task t ((task k t)\<lparr>stack_magic := STACK_MAGIC, stack := t + 4096 - 76 - 32\<rparr>) k;
     let k = set_state t READY k;
     ASSERT (length name < 10);
     let k = set_task t ((task k t)\<lparr>pname := name, prio := pri\<rparr>) k;
     (n, k) \<leftarrow> alloc_pid k;
     let k = set_task t ((task k t)\<lparr>pid := n, t_mm := 0\<rparr>) k;
     k \<leftarrow> files_struct_init t k;
     k \<leftarrow> fs_struct_init t k;
     Some (k\<lparr>switch_data := (switch_data k)
       (stack (task k t) := \<lparr>sw_kthread_start = start, sw_threadfn = threadfn, sw_data = data\<rparr>),
       resume := (resume k)(t := INTR_ON)\<rparr>) }"

definition kthread_create :: "u32 \<Rightarrow> u32 \<Rightarrow> u32 \<Rightarrow> u32 \<Rightarrow> u8 list \<Rightarrow> 'a tsys_scheme \<Rightarrow> (tid \<times> 'a tsys_scheme) option" where
  "kthread_create start threadfn data pri name k = do {
     let (old, k) = intr_disable k;
     (p, k, b) \<leftarrow> get_free_page k (bd (kmem_st k)) KERNEL_POOL;
     let t = of_nat p;
     let k = k\<lparr>kmem_st := (kmem_st k)\<lparr>bd := b\<rparr>\<rparr>;
     k \<leftarrow> init_thread start t threadfn data pri name k;
     let k = push_ready t k;
     Some (t, snd (intr_set_status old k)) }"

definition make_main_thread :: "'a tsys_scheme \<Rightarrow> 'a tsys_scheme" where
  "make_main_thread k =
     (let t = 0xc009e000;
          k = set_task t ((task k t)\<lparr>stack_magic := STACK_MAGIC, pname := [109, 97, 105, 110]\<rparr>) k;
          k = set_state t RUNNING k
      in set_task t ((task k t)\<lparr>stack := 0xc009f000 - 76 - 32, prio := 10, pid := 0, t_mm := 0\<rparr>) k)"

definition thread_init :: "u32 \<Rightarrow> u32 \<Rightarrow> 'a tsys_scheme \<Rightarrow> 'a tsys_scheme option" where
  "thread_init start idle_thread k = do {
     let k = make_main_thread k;
     k \<leftarrow> pid_init k;
     (n, k) \<leftarrow> alloc_pid k;
     let k = k\<lparr>ready_list := []\<rparr>;
     (t, k) \<leftarrow> kthread_create start idle_thread 0 10 [105, 100, 108, 101] k;
     let k = k\<lparr>idle := t\<rparr>;
     ASSERT (idle k \<noteq> NULL);
     Some k }"

section \<open>Sleeping\<close>

text \<open>
  The loop of \<open>ticks_to_sleep\<close>. What a sleeper sees of the other threads is the tick counter each time
  \<open>thread_yield\<close> comes back to it; \<open>away\<close> lists how many ticks pass during each of its turns. \<^const>\<open>None\<close>: it
  is still waiting after those turns.
\<close>

fun ticks_to_sleep :: "u32 \<Rightarrow> u32 \<Rightarrow> nat list \<Rightarrow> u32 \<Rightarrow> u32 option" where
  "ticks_to_sleep start sleep_ticks away now =
     (if now - start < sleep_ticks
      then (case away of [] \<Rightarrow> None | d # ds \<Rightarrow> ticks_to_sleep start sleep_ticks ds (now + of_nat d))
      else Some now)"

declare ticks_to_sleep.simps [simp del]

definition mil_seconds_per_intr :: u32 where
  "mil_seconds_per_intr = 1000 div HZ"

definition mtime_sleep :: "u32 \<Rightarrow> nat list \<Rightarrow> u32 \<Rightarrow> u32 option" where
  "mtime_sleep m_seconds away now = do {
     let sleep_ticks = (m_seconds + mil_seconds_per_intr - 1) div mil_seconds_per_intr;
     ASSERT (0 < sleep_ticks);
     ticks_to_sleep now sleep_ticks away now }"

definition sleep :: "u32 \<Rightarrow> nat list \<Rightarrow> u32 \<Rightarrow> u32 option" where
  "sleep seconds away now = mtime_sleep (seconds * 1000) away now"

end
