(* ===== verification/Disk.thy ===== *)
theory Disk
  imports FizzStr Bitmap Descriptors
begin

text \<open>
  device/ide.c: the driver of the hard disks. A channel carries the registers of its ATA interface as the
  driver writes them, and the two drives on it; what a command does is read off the registers the way the
  standard has it for 28-bit addresses (\<open>ata_lba\<close>, \<open>ata_count\<close>, \<open>ata_slave\<close>). A command moves its
  sectors one by one: before each of them the drive sets BSY for a time of its own and then clears BSY and sets
  DRQ, and words may be moved through the data register only then. How long it is busy is the drive's matter:
  \<open>status\<close> gives the value of the status register for each read, and \<open>drive_ok\<close> and \<open>prompt\<close> say what is
  assumed of it. Memory is the byte memory of theory FizzStr.

  A driver call that waits for the drive is woken by \<open>intr_hd_handler\<close>: the wait is the handler's
  \<open>sema_post\<close> followed by the driver's \<open>sema_wait\<close>. \<open>busy_wait\<close> sleeps 10 ms between two reads of the status
  register; the sleep lets other threads run but does not touch the channel, which the caller has locked, and is
  left out: what remains of it is that the next read may find another value.
\<close>

section \<open>The ATA interface\<close>

text \<open>
  \<open>status a due c s i\<close> is what the \<open>i\<close>-th read of the status register gives after \<open>s\<close> sectors of the command
  \<open>c\<close> have been moved; \<open>due\<close> says whether the command has another sector to move. \<open>ident\<close> is the answer of each
  drive to the command IDENTIFY DEVICE.
\<close>

record ata =
  task_file :: "u16 \<Rightarrow> u8"
  media :: "bool \<Rightarrow> nat \<Rightarrow> nat \<Rightarrow> u8"
  ident :: "bool \<Rightarrow> nat \<Rightarrow> u8"
  status :: "bool \<Rightarrow> nat \<Rightarrow> nat \<Rightarrow> nat \<Rightarrow> u8"
  cmd_no :: nat
  secs_moved :: nat
  status_reads :: nat

record ide_channel =
  port_base :: u16
  irq_no :: u8
  ch_lock :: mutex
  expecting_intr :: bool
  disk_done :: sem
  ata_dev :: ata

record disk =
  d_name :: "u8 list"
  dev_no :: u8

definition reg_data :: "ide_channel \<Rightarrow> u16" where "reg_data ch = port_base ch + 0"
definition reg_sect_cnt :: "ide_channel \<Rightarrow> u16" where "reg_sect_cnt ch = port_base ch + 2"
definition reg_lba_l :: "ide_channel \<Rightarrow> u16" where "reg_lba_l ch = port_base ch + 3"
definition reg_lba_m :: "ide_channel \<Rightarrow> u16" where "reg_lba_m ch = port_base ch + 4"
definition reg_lba_h :: "ide_channel \<Rightarrow> u16" where "reg_lba_h ch = port_base ch + 5"
definition reg_dev :: "ide_channel \<Rightarrow> u16" where "reg_dev ch = port_base ch + 6"
definition reg_cmd :: "ide_channel \<Rightarrow> u16" where "reg_cmd ch = port_base ch + 7"

definition BIT_STAT_BSY :: u8 where "BIT_STAT_BSY = 0x80"
definition BIT_STAT_DRQ :: u8 where "BIT_STAT_DRQ = 0x8"
definition BIT_DEV_MBS :: u8 where "BIT_DEV_MBS = 0xa0"
definition BIT_DEV_LBA :: u8 where "BIT_DEV_LBA = 0x40"
definition BIT_DEV_DEV :: u8 where "BIT_DEV_DEV = 0x10"
definition CMD_IDENTITY :: u8 where "CMD_IDENTITY = 0xec"
definition CMD_READ_SECTOR :: u8 where "CMD_READ_SECTOR = 0x20"
definition CMD_WRITE_SECTOR :: u8 where "CMD_WRITE_SECTOR = 0x30"
definition MAX_LBA :: nat where "MAX_LBA = 80 * 1024 * 1024 div 512 - 1"

text \<open>What the interface makes of its registers; a sector count of 0 stands for 256.\<close>

definition ata_lba :: "ide_channel \<Rightarrow> nat" where
  "ata_lba ch = (let r = task_file (ata_dev ch) in
     unat (r (reg_lba_l ch)) + 2 ^ 8 * unat (r (reg_lba_m ch)) + 2 ^ 16 * unat (r (reg_lba_h ch)) +
     2 ^ 24 * unat (r (reg_dev ch) AND 0xf))"

definition ata_count :: "ide_channel \<Rightarrow> nat" where
  "ata_count ch = (let c = task_file (ata_dev ch) (reg_sect_cnt ch) in if c = 0 then 256 else unat c)"

definition ata_slave :: "ide_channel \<Rightarrow> bool" where
  "ata_slave ch \<longleftrightarrow> task_file (ata_dev ch) (reg_dev ch) AND BIT_DEV_DEV \<noteq> 0"

text \<open>A write to the command register starts a command.\<close>

definition write_port :: "u16 \<times> u8 \<Rightarrow> ide_channel \<Rightarrow> ide_channel" where
  "write_port pv ch =
     (let a = (ata_dev ch)\<lparr>task_file := (task_file (ata_dev ch))(fst pv := snd pv)\<rparr>
      in ch\<lparr>ata_dev := (if fst pv = reg_cmd ch then a\<lparr>cmd_no := cmd_no a + 1, secs_moved := 0, status_reads := 0\<rparr> else a)\<rparr>)"

definition write_ports :: "port_writes \<Rightarrow> ide_channel \<Rightarrow> ide_channel" where
  "write_ports ws ch = fold write_port ws ch"

definition ata_cmd :: "ide_channel \<Rightarrow> u8" where
  "ata_cmd ch = task_file (ata_dev ch) (reg_cmd ch)"

definition ata_secs :: "ide_channel \<Rightarrow> nat" where
  "ata_secs ch = (if ata_cmd ch = CMD_READ_SECTOR \<or> ata_cmd ch = CMD_WRITE_SECTOR then ata_count ch
     else if ata_cmd ch = CMD_IDENTITY then 1 else 0)"

definition data_due :: "ide_channel \<Rightarrow> bool" where
  "data_due ch \<longleftrightarrow> secs_moved (ata_dev ch) < ata_secs ch"

definition inb_status :: "ide_channel \<Rightarrow> u8 \<times> ide_channel" where
  "inb_status ch = (let a = ata_dev ch in
     (status a (data_due ch) (cmd_no a) (secs_moved a) (status_reads a),
      ch\<lparr>ata_dev := a\<lparr>status_reads := status_reads a + 1\<rparr>\<rparr>))"

text \<open>
  \<open>insw\<close> and \<open>outsw\<close> on the data register move whole sectors of the command, without a look at the status
  register in between: the first of them must be ready at this moment, each further one as soon as the one before
  it has been moved. Moving words the drive is not ready for has no defined result.
\<close>

definition drq_at :: "ata \<Rightarrow> nat \<Rightarrow> nat \<Rightarrow> bool" where
  "drq_at a s i \<longleftrightarrow> status a True (cmd_no a) s i AND BIT_STAT_BSY = 0 \<and> status a True (cmd_no a) s i AND BIT_STAT_DRQ \<noteq> 0"

definition can_move :: "ide_channel \<Rightarrow> nat \<Rightarrow> bool" where
  "can_move ch n \<longleftrightarrow> (let a = ata_dev ch in secs_moved a + n \<le> ata_secs ch \<and>
     (\<forall>j<n. drq_at a (secs_moved a + j) (if j = 0 then status_reads a else 0)))"

definition have_moved :: "nat \<Rightarrow> ide_channel \<Rightarrow> ide_channel" where
  "have_moved n ch = ch\<lparr>ata_dev := (ata_dev ch)\<lparr>secs_moved := secs_moved (ata_dev ch) + n, status_reads := 0\<rparr>\<rparr>"

definition insw :: "ide_channel \<Rightarrow> nat \<Rightarrow> nat \<Rightarrow> mem \<Rightarrow> (ide_channel \<times> mem) option" where
  "insw ch addr word_cnt m = do {
     let n = word_cnt div 256;
     ASSERT (ata_cmd ch \<noteq> CMD_WRITE_SECTOR \<and> word_cnt = n * 256 \<and> can_move ch n);
     let data = (if ata_cmd ch = CMD_IDENTITY then (\<lambda>l. ident (ata_dev ch) (ata_slave ch))
       else (\<lambda>l. media (ata_dev ch) (ata_slave ch) (ata_lba ch + secs_moved (ata_dev ch) + l)));
     Some (have_moved n ch, \<lambda>a. if addr \<le> a \<and> a < addr + n * 512 then data ((a - addr) div 512) ((a - addr) mod 512) else m a) }"

definition outsw :: "ide_channel \<Rightarrow> nat \<Rightarrow> nat \<Rightarrow> mem \<Rightarrow> ide_channel option" where
  "outsw ch addr word_cnt m = do {
     let n = word_cnt div 256;
     ASSERT (ata_cmd ch = CMD_WRITE_SECTOR \<and> word_cnt = n * 256 \<and> can_move ch n);
     let old = media (ata_dev ch) (ata_slave ch);
     let first = ata_lba ch + secs_moved (ata_dev ch);
     let new = (\<lambda>l i. if first \<le> l \<and> l < first + n \<and> i < 512 then m (addr + (l - first) * 512 + i) else old l i);
     let ch = have_moved n ch;
     Some (ch\<lparr>ata_dev := (ata_dev ch)\<lparr>media := (media (ata_dev ch))(ata_slave ch := new)\<rparr>\<rparr>) }"

section \<open>The driver\<close>

definition select_disk :: "disk \<Rightarrow> ide_channel \<Rightarrow> ide_channel" where
  "select_disk d ch =
     (let reg_device = BIT_DEV_MBS OR BIT_DEV_LBA;
          reg_device = (if dev_no d = 1 then reg_device OR BIT_DEV_DEV else reg_device)
      in write_ports (outb (reg_dev ch) reg_device) ch)"

definition select_sector :: "disk \<Rightarrow> nat \<Rightarrow> u8 \<Rightarrow> ide_channel \<Rightarrow> ide_channel option" where
  "select_sector d lba sec_cnt ch = do {
     ASSERT (lba \<le> MAX_LBA);
     let l = (of_nat lba :: u32);
     Some (write_ports (outb (reg_sect_cnt ch) sec_cnt @
       outb (reg_lba_l ch) (ucast l) @ outb (reg_lba_m ch) (ucast (drop_bit 8 l)) @
       outb (reg_lba_h ch) (ucast (drop_bit 16 l)) @
       outb (reg_dev ch) (BIT_DEV_MBS OR BIT_DEV_LBA OR (if dev_no d = 1 then BIT_DEV_DEV else 0) OR
         ucast (drop_bit 24 l))) ch) }"

definition cmd_out :: "u8 \<Rightarrow> ide_channel \<Rightarrow> ide_channel" where
  "cmd_out cmd ch = write_ports (outb (reg_cmd ch) cmd) (ch\<lparr>expecting_intr := True\<rparr>)"

definition read_from_sector :: "nat \<Rightarrow> u8 \<Rightarrow> ide_channel \<Rightarrow> mem \<Rightarrow> (ide_channel \<times> mem) option" where
  "read_from_sector buf sec_cnt ch m =
     (let size_in_byte = (if sec_cnt = 0 then 256 * 512 else unat sec_cnt * 512)
      in insw ch buf (size_in_byte div 2) m)"

definition write2sector :: "nat \<Rightarrow> u8 \<Rightarrow> ide_channel \<Rightarrow> mem \<Rightarrow> ide_channel option" where
  "write2sector buf sec_cnt ch m =
     (let size_in_byte = (if sec_cnt = 0 then 256 * 512 else unat sec_cnt * 512)
      in outsw ch buf (size_in_byte div 2) m)"

text \<open>\<open>time_limit\<close> is a \<open>uint16_t\<close>: as an \<open>int\<close> it is never negative.\<close>

partial_function (option) busy_loop :: "u16 \<Rightarrow> ide_channel \<Rightarrow> (bool \<times> ide_channel) option" where
  "busy_loop time_limit ch =
     (let time_limit = time_limit - 10
      in if 0 \<le> uint time_limit
         then (let (s, ch) = inb_status ch
           in if s AND BIT_STAT_BSY = 0
              then (let (s, ch) = inb_status ch in Some (s AND BIT_STAT_DRQ \<noteq> 0, ch))
              else busy_loop time_limit ch)
         else Some (False, ch))"

definition busy_wait :: "ide_channel \<Rightarrow> (bool \<times> ide_channel) option" where
  "busy_wait ch = busy_loop (30 * 1000) ch"

text \<open>The interrupt handler after it has found its channel, and the whole handler.\<close>

definition hd_intr :: "'a sys_scheme \<Rightarrow> ide_channel \<Rightarrow> ('a sys_scheme \<times> ide_channel) option" where
  "hd_intr k ch =
     (if expecting_intr ch
      then do {
        let ch = ch\<lparr>expecting_intr := False\<rparr>;
        (k, s) \<leftarrow> sema_post k (disk_done ch);
        Some (k, snd (inb_status (ch\<lparr>disk_done := s\<rparr>))) }
      else Some (k, ch))"

definition intr_hd_handler :: "'a sys_scheme \<Rightarrow> u8 \<Rightarrow> (u8 \<Rightarrow> ide_channel) \<Rightarrow> ('a sys_scheme \<times> (u8 \<Rightarrow> ide_channel)) option" where
  "intr_hd_handler k irq channels = do {
     ASSERT (irq = 0x2e \<or> irq = 0x2f);
     let ch_no = irq - 0x2e;
     ASSERT (irq_no (channels ch_no) = irq);
     (k, ch) \<leftarrow> hd_intr k (channels ch_no);
     Some (k, channels(ch_no := ch)) }"

definition wait_done :: "'a sys_scheme \<Rightarrow> ide_channel \<Rightarrow> ('a sys_scheme \<times> ide_channel) option" where
  "wait_done k ch = do {
     (k, ch) \<leftarrow> hd_intr k ch;
     (k, s) \<leftarrow> sema_wait k (disk_done ch);
     Some (k, ch\<lparr>disk_done := s\<rparr>) }"

definition read_some :: "'a sys_scheme \<Rightarrow> disk \<Rightarrow> nat \<Rightarrow> nat \<Rightarrow> nat \<Rightarrow> ide_channel \<Rightarrow> mem \<Rightarrow>
    ('a sys_scheme \<times> ide_channel \<times> mem) option" where
  "read_some k d lba buf secs_op ch m = do {
     ch \<leftarrow> select_sector d lba (of_nat secs_op) ch;
     let ch = cmd_out CMD_READ_SECTOR ch;
     (k, ch) \<leftarrow> wait_done k ch;
     (ok, ch) \<leftarrow> busy_wait ch;
     if \<not> ok then PANIC
     else do {
       (ch, m) \<leftarrow> read_from_sector buf (of_nat secs_op) ch m;
       Some (k, ch, m) } }"

function read_loop :: "'a sys_scheme \<Rightarrow> disk \<Rightarrow> nat \<Rightarrow> nat \<Rightarrow> nat \<Rightarrow> nat \<Rightarrow> ide_channel \<Rightarrow> mem \<Rightarrow>
    ('a sys_scheme \<times> ide_channel \<times> mem) option" where
  "read_loop k d lba buf sec_cnt secs_done ch m =
     (if secs_done < sec_cnt
      then (let secs_op = (if secs_done + 256 \<le> sec_cnt then 256 else sec_cnt - secs_done)
        in case read_some k d (lba + secs_done) (buf + secs_done * 512) secs_op ch m of
            None \<Rightarrow> None
          | Some (k, ch, m) \<Rightarrow> read_loop k d lba buf sec_cnt (secs_done + secs_op) ch m)
      else Some (k, ch, m))"
  by pat_completeness auto
termination
  by (relation "measure (\<lambda>(k, d, lba, buf, sec_cnt, secs_done, ch, m). sec_cnt - secs_done)") auto

declare read_loop.simps [simp del]

definition ide_read :: "'a sys_scheme \<Rightarrow> disk \<Rightarrow> nat \<Rightarrow> nat \<Rightarrow> nat \<Rightarrow> ide_channel \<Rightarrow> mem \<Rightarrow>
    ('a sys_scheme \<times> ide_channel \<times> mem) option" where
  "ide_read k d lba buf sec_cnt ch m = do {
     ASSERT (\<not> MAX_LBA < lba);
     ASSERT (0 < sec_cnt);
     (k, l) \<leftarrow> mutex_acquire k (ch_lock ch);
     let ch = select_disk d (ch\<lparr>ch_lock := l\<rparr>);
     (k, ch, m) \<leftarrow> read_loop k d lba buf sec_cnt 0 ch m;
     (k, l) \<leftarrow> mutex_release k (ch_lock ch);
     Some (k, ch\<lparr>ch_lock := l\<rparr>, m) }"

definition write_some :: "'a sys_scheme \<Rightarrow> disk \<Rightarrow> nat \<Rightarrow> nat \<Rightarrow> nat \<Rightarrow> ide_channel \<Rightarrow> mem \<Rightarrow>
    ('a sys_scheme \<times> ide_channel) option" where
  "write_some k d lba buf secs_op ch m = do {
     ch \<leftarrow> select_sector d lba (of_nat secs_op) ch;
     let ch = cmd_out CMD_WRITE_SECTOR ch;
     (ok, ch) \<leftarrow> busy_wait ch;
     if \<not> ok then PANIC
     else do {
       ch \<leftarrow> write2sector buf (of_nat secs_op) ch m;
       wait_done k ch } }"

function write_loop :: "'a sys_scheme \<Rightarrow> disk \<Rightarrow> nat \<Rightarrow> nat \<Rightarrow> nat \<Rightarrow> nat \<Rightarrow> ide_channel \<Rightarrow> mem \<Rightarrow>
    ('a sys_scheme \<times> ide_channel) option" where
  "write_loop k d lba buf sec_cnt secs_done ch m =
     (if secs_done < sec_cnt
      then (let secs_op = (if secs_done + 256 \<le> sec_cnt then 256 else sec_cnt - secs_done)
        in case write_some k d (lba + secs_done) (buf + secs_done * 512) secs_op ch m of
            None \<Rightarrow> None
          | Some (k, ch) \<Rightarrow> write_loop k d lba buf sec_cnt (secs_done + secs_op) ch m)
      else Some (k, ch))"
  by pat_completeness auto
termination
  by (relation "measure (\<lambda>(k, d, lba, buf, sec_cnt, secs_done, ch, m). sec_cnt - secs_done)") auto

declare write_loop.simps [simp del]

definition ide_write :: "'a sys_scheme \<Rightarrow> disk \<Rightarrow> nat \<Rightarrow> nat \<Rightarrow> nat \<Rightarrow> ide_channel \<Rightarrow> mem \<Rightarrow>
    ('a sys_scheme \<times> ide_channel) option" where
  "ide_write k d lba buf sec_cnt ch m = do {
     ASSERT (lba \<le> MAX_LBA);
     ASSERT (0 < sec_cnt);
     (k, l) \<leftarrow> mutex_acquire k (ch_lock ch);
     let ch = select_disk d (ch\<lparr>ch_lock := l\<rparr>);
     (k, ch) \<leftarrow> write_loop k d lba buf sec_cnt 0 ch m;
     (k, l) \<leftarrow> mutex_release k (ch_lock ch);
     Some (k, ch\<lparr>ch_lock := l\<rparr>) }"

section \<open>What one command does\<close>

text \<open>
  The drive answers: while a sector of a command is due, it is busy for some number of status reads and then, until
  the sector is moved, not busy and ready to move it. Nothing is assumed of the register when no sector is due.
  A prompt drive is ready at once for every sector of a command but the first.
\<close>

definition ready_value :: "u8 \<Rightarrow> bool" where
  "ready_value s \<longleftrightarrow> s AND BIT_STAT_BSY = 0 \<and> s AND BIT_STAT_DRQ \<noteq> 0"

definition drive_ok :: "ata \<Rightarrow> bool" where
  "drive_ok a \<longleftrightarrow> (\<forall>c s. \<exists>n. \<forall>i. (i < n \<longrightarrow> status a True c s i AND BIT_STAT_BSY \<noteq> 0) \<and>
     (n \<le> i \<longrightarrow> ready_value (status a True c s i)))"

definition prompt :: "ata \<Rightarrow> bool" where
  "prompt a \<longleftrightarrow> (\<forall>c s. 0 < s \<longrightarrow> ready_value (status a True c s 0))"

definition idle_sem :: sem where
  "idle_sem = \<lparr>s_count = \<lparr>counter = 0\<rparr>, s_wait = []\<rparr>"

definition chan_ok :: "ide_channel \<Rightarrow> bool" where
  "chan_ok ch \<longleftrightarrow> drive_ok (ata_dev ch) \<and> disk_done ch = idle_sem"

text \<open>Everything of a channel that outlasts a command but the media.\<close>

definition same_chan :: "ide_channel \<Rightarrow> ide_channel \<Rightarrow> bool" where
  "same_chan ch ch' \<longleftrightarrow> port_base ch' = port_base ch \<and> irq_no ch' = irq_no ch \<and> ch_lock ch' = ch_lock ch \<and>
     disk_done ch' = disk_done ch \<and> status (ata_dev ch') = status (ata_dev ch) \<and> ident (ata_dev ch') = ident (ata_dev ch)"

lemma same_chan_ok: "same_chan ch ch' \<Longrightarrow> chan_ok ch \<Longrightarrow> chan_ok ch'"
  by (simp add: same_chan_def chan_ok_def drive_ok_def)

lemma same_chan_prompt: "same_chan ch ch' \<Longrightarrow> prompt (ata_dev ch) \<Longrightarrow> prompt (ata_dev ch')"
  by (simp add: same_chan_def prompt_def)

lemma same_chan_trans: "same_chan a b \<Longrightarrow> same_chan b c \<Longrightarrow> same_chan a c"
  by (simp add: same_chan_def)

lemmas reg_defs = reg_data_def reg_sect_cnt_def reg_lba_l_def reg_lba_m_def reg_lba_h_def reg_dev_def reg_cmd_def

lemma drq_at_ready: "drq_at a s i \<longleftrightarrow> ready_value (status a True (cmd_no a) s i)"
  by (simp add: drq_at_def ready_value_def)

lemma data_due_reads [simp]: "data_due (ch\<lparr>ata_dev := (ata_dev ch)\<lparr>status_reads := i\<rparr>\<rparr>) = data_due ch"
  by (simp add: data_due_def ata_secs_def ata_cmd_def ata_count_def reg_defs)

lemma busy_loop_returns:
  assumes "data_due ch"
    and "\<And>i. i < n \<Longrightarrow> status (ata_dev ch) True (cmd_no (ata_dev ch)) (secs_moved (ata_dev ch)) i AND BIT_STAT_BSY \<noteq> 0"
    and "\<And>i. n \<le> i \<Longrightarrow> drq_at (ata_dev ch) (secs_moved (ata_dev ch)) i"
  shows "\<exists>j \<ge> n. busy_loop t ch = Some (True, ch\<lparr>ata_dev := (ata_dev ch)\<lparr>status_reads := j\<rparr>\<rparr>)"
  using assms
proof (induction "n - status_reads (ata_dev ch)" arbitrary: ch t)
  case 0
  let ?i = "status_reads (ata_dev ch)"
  have "n \<le> ?i" "n \<le> Suc ?i" using 0(1) by simp_all
  then have ready: "drq_at (ata_dev ch) (secs_moved (ata_dev ch)) ?i" "drq_at (ata_dev ch) (secs_moved (ata_dev ch)) (Suc ?i)"
    using 0(4) by blast+
  show ?case
    by (rule exI [of _ "Suc (Suc ?i)"], subst busy_loop.simps)
      (use ready 0(1,2) in \<open>simp add: drq_at_def inb_status_def Let_def\<close>)
next
  case (Suc x)
  let ?a = "ata_dev ch"
  let ?ch = "ch\<lparr>ata_dev := ?a\<lparr>status_reads := status_reads ?a + 1\<rparr>\<rparr>"
  have busy: "status ?a True (cmd_no ?a) (secs_moved ?a) (status_reads ?a) AND BIT_STAT_BSY \<noteq> 0"
    using Suc.hyps(2) Suc.prems(2) by simp
  have "x = n - status_reads (ata_dev ?ch)" using Suc.hyps(2) by simp
  from Suc.hyps(1) [OF this, of "t - 10"] Suc.prems
  have "\<exists>j \<ge> n. busy_loop (t - 10) ?ch = Some (True, ch\<lparr>ata_dev := ?a\<lparr>status_reads := j\<rparr>\<rparr>)"
    by (simp add: drq_at_def)
  then show ?case using busy Suc.prems(1)
    by (subst busy_loop.simps) (auto simp: inb_status_def Let_def)
qed

lemma busy_wait_ok:
  assumes "chan_ok ch" "data_due ch"
  shows "\<exists>j. busy_wait ch = Some (True, ch\<lparr>ata_dev := (ata_dev ch)\<lparr>status_reads := j\<rparr>\<rparr>) \<and>
    drq_at (ata_dev ch) (secs_moved (ata_dev ch)) j"
proof -
  let ?s = "status (ata_dev ch) True (cmd_no (ata_dev ch)) (secs_moved (ata_dev ch))"
  obtain n where n: "\<And>i. i < n \<Longrightarrow> ?s i AND BIT_STAT_BSY \<noteq> 0" "\<And>i. n \<le> i \<Longrightarrow> ready_value (?s i)"
    using assms(1) unfolding chan_ok_def drive_ok_def by blast
  then show ?thesis using busy_loop_returns [OF assms(2), of n "30 * 1000"]
    by (auto simp: busy_wait_def drq_at_ready)
qed

text \<open>The semaphore goes up in the handler and down in the driver.\<close>

lemma wait_done_ok:
  assumes "expecting_intr ch" "disk_done ch = idle_sem"
  shows "wait_done k ch = Some (k, ch\<lparr>expecting_intr := False,
    ata_dev := (ata_dev ch)\<lparr>status_reads := status_reads (ata_dev ch) + 1\<rparr>\<rparr>)"
proof -
  have p: "sema_post k idle_sem = Some (k, \<lparr>s_count = \<lparr>counter = 1\<rparr>, s_wait = []\<rparr>)" for k :: "'a sys_scheme"
    by (simp add: sema_post_def sema_post_inc_def idle_sem_def atomic_defs incl_def setg_def)
  have w: "sema_wait k \<lparr>s_count = \<lparr>counter = 1\<rparr>, s_wait = []\<rparr> = Some (k, idle_sem)" for k :: "'a sys_scheme"
    by (simp add: sema_wait_def sema_wait_section_def idle_sem_def atomic_defs decl_def setge_def critical_section)
  show ?thesis using assms
    by (simp add: wait_done_def hd_intr_def p w inb_status_def Let_def)
qed

text \<open>The address and the count come back out of the registers.\<close>

lemma lba_bytes:
  assumes "lba \<le> MAX_LBA"
  shows "unat (ucast (of_nat lba :: u32) :: u8) + 2 ^ 8 * unat (ucast (drop_bit 8 (of_nat lba :: u32)) :: u8) +
      2 ^ 16 * unat (ucast (drop_bit 16 (of_nat lba :: u32)) :: u8) = lba"
    "(ucast (drop_bit 24 (of_nat lba :: u32)) :: u8) = 0"
proof -
  have l: "lba < 2 ^ 24" using assms by (simp add: MAX_LBA_def)
  then have u: "unat (of_nat lba :: u32) = lba" by (simp add: unat_of_nat)
  have d: "unat (drop_bit n (of_nat lba :: u32)) = lba div 2 ^ n" for n
    using unat_drop_bit_eq [of n "of_nat lba :: u32"] by (simp only: u drop_bit_eq_div [where 'a = nat])
  have c: "unat (ucast (w :: u32) :: u8) = unat w mod 256" for w
    by (simp add: unsigned_ucast_eq take_bit_eq_mod)
  have "lba div 2 ^ 16 < 256" using l by (simp add: div_less_iff_less_mult)
  moreover have "lba mod 256 + 256 * (lba div 256 mod 256) + 65536 * (lba div 65536) = lba"
    using mod_mult2_eq [of lba 256 256] div_mult_mod_eq [of lba 65536] div_mult_mod_eq [of lba 256] by simp
  ultimately show "unat (ucast (of_nat lba :: u32) :: u8) + 2 ^ 8 * unat (ucast (drop_bit 8 (of_nat lba :: u32)) :: u8) +
      2 ^ 16 * unat (ucast (drop_bit 16 (of_nat lba :: u32)) :: u8) = lba"
    by (simp add: c d u)
  have "unat (ucast (drop_bit 24 (of_nat lba :: u32)) :: u8) = 0"
    unfolding c d using l by simp
  then show "(ucast (drop_bit 24 (of_nat lba :: u32)) :: u8) = 0" by (simp add: unat_eq_zero)
qed

lemma device_bits:
  "((BIT_DEV_MBS OR BIT_DEV_LBA OR (if b then BIT_DEV_DEV else 0) OR 0) AND 0xf :: u8) = 0"
  "(BIT_DEV_MBS OR BIT_DEV_LBA OR (if b then BIT_DEV_DEV else 0) OR 0) AND BIT_DEV_DEV \<noteq> 0 \<longleftrightarrow> b"
  by (simp_all add: BIT_DEV_MBS_def BIT_DEV_LBA_def BIT_DEV_DEV_def)

definition addressed :: "disk \<Rightarrow> nat \<Rightarrow> nat \<Rightarrow> ide_channel \<Rightarrow> bool" where
  "addressed d lba n ch \<longleftrightarrow> ata_lba ch = lba \<and> ata_count ch = n \<and> (ata_slave ch \<longleftrightarrow> dev_no d = 1)"

lemma command_ok:
  assumes "lba \<le> MAX_LBA" "0 < n" "n \<le> 256"
  obtains ch' where "select_sector d lba (of_nat n) ch = Some ch'"
    "addressed d lba n (cmd_out cmd ch')" "same_chan ch (cmd_out cmd ch')" "expecting_intr (cmd_out cmd ch')"
    "media (ata_dev (cmd_out cmd ch')) = media (ata_dev ch)"
    "ata_cmd (cmd_out cmd ch') = cmd" "secs_moved (ata_dev (cmd_out cmd ch')) = 0"
proof -
  define ch' where "ch' = the (select_sector d lba (of_nat n) ch)"
  have sel: "select_sector d lba (of_nat n) ch = Some ch'"
    using assms(1) by (simp add: ch'_def select_sector_def Let_def)
  note defs = ch'_def select_sector_def cmd_out_def write_ports_def write_port_def outb_def reg_defs
  have cnt: "(if (of_nat n :: u8) = 0 then 256 else unat (of_nat n :: u8)) = n"
  proof (cases "n = 256")
    case False
    then have "unat (of_nat n :: u8) = n" using assms(3) by (simp add: unat_of_nat)
    then show ?thesis using assms(2) by (auto simp: unat_eq_zero [symmetric])
  qed simp
  have "addressed d lba n (cmd_out cmd ch')"
    using assms(1) cnt lba_bytes [OF assms(1)] device_bits
    by (simp add: addressed_def ata_lba_def ata_count_def ata_slave_def defs Let_def)
  then show thesis using that [OF sel] assms(1) by (simp add: defs same_chan_def ata_cmd_def Let_def)
qed

text \<open>The sectors of a command can be moved in one go if there is one, or if the drive is prompt.\<close>

lemma can_move_all:
  assumes "addressed d lba n ch" "ata_cmd ch = CMD_READ_SECTOR \<or> ata_cmd ch = CMD_WRITE_SECTOR"
    "secs_moved (ata_dev ch) = 0" "drq_at (ata_dev ch) 0 (status_reads (ata_dev ch))" "n = 1 \<or> prompt (ata_dev ch)"
  shows "can_move ch n"
  using assms by (auto simp: can_move_def addressed_def ata_secs_def drq_at_ready prompt_def)

section \<open>Reading and writing\<close>

text \<open>The sectors of a drive, a buffer filled from sectors, and sectors filled from a buffer.\<close>

definition sectors :: "disk \<Rightarrow> ide_channel \<Rightarrow> nat \<Rightarrow> nat \<Rightarrow> u8" where
  "sectors d ch = media (ata_dev ch) (dev_no d = 1)"

definition fill :: "mem \<Rightarrow> nat \<Rightarrow> nat \<Rightarrow> (nat \<Rightarrow> nat \<Rightarrow> u8) \<Rightarrow> mem" where
  "fill m buf n f = (\<lambda>a. if buf \<le> a \<and> a < buf + n * 512 then f ((a - buf) div 512) ((a - buf) mod 512) else m a)"

definition put_sectors :: "(nat \<Rightarrow> nat \<Rightarrow> u8) \<Rightarrow> nat \<Rightarrow> nat \<Rightarrow> nat \<Rightarrow> mem \<Rightarrow> nat \<Rightarrow> nat \<Rightarrow> u8" where
  "put_sectors s lba n buf m =
     (\<lambda>l i. if lba \<le> l \<and> l < lba + n \<and> i < 512 then m (buf + (l - lba) * 512 + i) else s l i)"

lemma fill_0 [simp]: "fill m buf 0 f = m"
  by (intro ext) (auto simp: fill_def)

lemma fill_more: "fill (fill m buf n f) (buf + n * 512) c (\<lambda>i. f (n + i)) = fill m buf (n + c) f"
proof
  fix a
  show "fill (fill m buf n f) (buf + n * 512) c (\<lambda>i. f (n + i)) a = fill m buf (n + c) f a"
  proof (cases "buf + n * 512 \<le> a")
    case True
    then obtain x where x: "a = buf + n * 512 + x" using le_Suc_ex by blast
    then have "(a - buf) div 512 = n + x div 512" "(a - buf) mod 512 = x mod 512" by simp_all
    then show ?thesis using x by (simp add: fill_def add_mult_distrib)
  qed (simp add: fill_def add_mult_distrib)
qed

lemma put_sectors_0 [simp]: "put_sectors s lba 0 buf m = s"
  by (intro ext) (auto simp: put_sectors_def)

lemma put_sectors_more:
  "put_sectors (put_sectors s lba n buf m) (lba + n) c (buf + n * 512) m = put_sectors s lba (n + c) buf m"
proof (intro ext)
  fix l i
  show "put_sectors (put_sectors s lba n buf m) (lba + n) c (buf + n * 512) m l i = put_sectors s lba (n + c) buf m l i"
  proof (cases "lba + n \<le> l")
    case True
    then obtain x where "l = lba + n + x" using le_Suc_ex by blast
    then show ?thesis by (simp add: put_sectors_def add_mult_distrib add.assoc)
  qed (simp add: put_sectors_def)
qed

lemma count_bytes: "0 < n \<Longrightarrow> n \<le> 256 \<Longrightarrow>
    (if (of_nat n :: u8) = 0 then 256 * 512 else unat (of_nat n :: u8) * 512) = n * 512"
proof (cases "n = 256")
  case False
  assume "0 < n" "n \<le> 256"
  then have "unat (of_nat n :: u8) = n" using False by (simp add: unat_of_nat)
  then show ?thesis using \<open>0 < n\<close> by (auto simp: unat_eq_zero [symmetric])
qed simp

lemma addressed_cong:
  assumes "addressed d lba n ch" "task_file (ata_dev ch') = task_file (ata_dev ch)" "port_base ch' = port_base ch"
  shows "addressed d lba n ch'"
  using assms by (simp add: addressed_def ata_lba_def ata_count_def ata_slave_def reg_defs)

lemma read_some_ok:
  assumes ok: "chan_ok ch" and lba: "lba \<le> MAX_LBA" and n: "0 < n" "n \<le> 256" and pr: "n = 1 \<or> prompt (ata_dev ch)"
  shows "\<exists>ch'. read_some k d lba buf n ch m = Some (k, ch', fill m buf n (\<lambda>i. sectors d ch (lba + i))) \<and>
    same_chan ch ch' \<and> media (ata_dev ch') = media (ata_dev ch)"
proof -
  obtain c1 where c1: "select_sector d lba (of_nat n) ch = Some c1"
    "addressed d lba n (cmd_out CMD_READ_SECTOR c1)" "same_chan ch (cmd_out CMD_READ_SECTOR c1)"
    "expecting_intr (cmd_out CMD_READ_SECTOR c1)"
    "media (ata_dev (cmd_out CMD_READ_SECTOR c1)) = media (ata_dev ch)"
    "ata_cmd (cmd_out CMD_READ_SECTOR c1) = CMD_READ_SECTOR" "secs_moved (ata_dev (cmd_out CMD_READ_SECTOR c1)) = 0"
    by (rule command_ok [OF lba n])
  define c2 where "c2 = cmd_out CMD_READ_SECTOR c1"
  have "chan_ok c2" using same_chan_ok [OF c1(3) ok] by (simp add: c2_def)
  then have s2: "disk_done c2 = idle_sem" by (simp add: chan_ok_def)
  define c3 where "c3 = c2\<lparr>expecting_intr := False, ata_dev := (ata_dev c2)\<lparr>status_reads := status_reads (ata_dev c2) + 1\<rparr>\<rparr>"
  have w: "wait_done k c2 = Some (k, c3)" using wait_done_ok [of c2 k] c1(4) s2 by (simp add: c2_def c3_def)
  have "chan_ok c3" using \<open>chan_ok c2\<close> by (simp add: chan_ok_def drive_ok_def c3_def)
  moreover have "data_due c3" using c1(2,6,7) n(1)
    by (simp add: data_due_def ata_secs_def ata_cmd_def addressed_def ata_count_def c3_def c2_def reg_defs)
  ultimately obtain j where b: "busy_wait c3 = Some (True, c3\<lparr>ata_dev := (ata_dev c3)\<lparr>status_reads := j\<rparr>\<rparr>)"
    "drq_at (ata_dev c3) (secs_moved (ata_dev c3)) j"
    using busy_wait_ok by blast
  define c4 where "c4 = c3\<lparr>ata_dev := (ata_dev c3)\<lparr>status_reads := j\<rparr>\<rparr>"
  have f4: "task_file (ata_dev c4) = task_file (ata_dev c2)" "port_base c4 = port_base c2"
    "media (ata_dev c4) = media (ata_dev ch)" "same_chan c2 c4" "secs_moved (ata_dev c4) = 0"
    using c1(5,7) by (simp_all add: c4_def c3_def same_chan_def c2_def)
  have ad: "addressed d lba n c4" using addressed_cong [OF _ f4(1,2)] c1(2) by (simp add: c2_def)
  have cmd: "ata_cmd c4 = CMD_READ_SECTOR"
    using c1(6) f4(1,2) by (simp add: c2_def ata_cmd_def reg_defs)
  have same: "same_chan ch c4" using same_chan_trans f4(4) c1(3) by (simp add: c2_def)
  have "drq_at (ata_dev c4) 0 (status_reads (ata_dev c4))"
    using b(2) f4(5) by (simp add: c4_def drq_at_def)
  then have can: "can_move c4 n"
    using can_move_all [OF ad _ f4(5)] cmd pr same_chan_prompt [OF same] by blast
  have "read_from_sector buf (of_nat n) c4 m = insw c4 buf (n * 256) m"
    using count_bytes [OF n] by (simp add: read_from_sector_def Let_def mult.commute)
  also have "\<dots> = Some (have_moved n c4, fill m buf n (\<lambda>i. sectors d ch (lba + i)))"
    using ad cmd f4(3,5) can
    by (simp add: insw_def addressed_def fill_def sectors_def Let_def CMD_READ_SECTOR_def CMD_WRITE_SECTOR_def
        CMD_IDENTITY_def cong: if_cong)
  finally have "read_some k d lba buf n ch m = Some (k, have_moved n c4, fill m buf n (\<lambda>i. sectors d ch (lba + i)))"
    using w b by (simp add: read_some_def c1(1) c2_def [symmetric] c4_def)
  moreover have "same_chan ch (have_moved n c4)" "media (ata_dev (have_moved n c4)) = media (ata_dev ch)"
    using same f4(3) by (simp_all add: same_chan_def have_moved_def)
  ultimately show ?thesis by blast
qed

lemma read_loop_ok:
  "chan_ok ch \<Longrightarrow> lba + cnt \<le> Suc MAX_LBA \<Longrightarrow> n \<le> cnt \<Longrightarrow> cnt = 1 \<or> prompt (ata_dev ch) \<Longrightarrow>
   \<exists>ch'. read_loop k d lba buf cnt n ch (fill m buf n (\<lambda>i. sectors d ch (lba + i))) =
       Some (k, ch', fill m buf cnt (\<lambda>i. sectors d ch (lba + i))) \<and>
     same_chan ch ch' \<and> media (ata_dev ch') = media (ata_dev ch)"
proof (induction "cnt - n" arbitrary: n ch rule: less_induct)
  case less
  let ?f = "\<lambda>i. sectors d ch (lba + i)"
  show ?case
  proof (cases "n < cnt")
    case True
    define c where "c = (if n + 256 \<le> cnt then 256 else cnt - n)"
    have c: "0 < c" "c \<le> 256" "n + c \<le> cnt" "lba + n \<le> MAX_LBA" using True less.prems(2) by (auto simp: c_def)
    then have pr: "c = 1 \<or> prompt (ata_dev ch)" using less.prems(4) by auto
    obtain ch1 where 1: "read_some k d (lba + n) (buf + n * 512) c ch (fill m buf n ?f) =
        Some (k, ch1, fill (fill m buf n ?f) (buf + n * 512) c (\<lambda>i. sectors d ch (lba + n + i)))"
      "same_chan ch ch1" "media (ata_dev ch1) = media (ata_dev ch)"
      using read_some_ok [OF less.prems(1) c(4,1,2) pr] by blast
    have f: "fill (fill m buf n ?f) (buf + n * 512) c (\<lambda>i. sectors d ch (lba + n + i)) = fill m buf (n + c) ?f"
      using fill_more [of m buf n ?f c] by (simp add: add.assoc)
    have s: "sectors d ch1 = sectors d ch" using 1(3) by (simp add: sectors_def)
    have "cnt - (n + c) < cnt - n" using c(1,3) True by simp
    from less.hyps [OF this same_chan_ok [OF 1(2) less.prems(1)] less.prems(2) c(3)]
      less.prems(4) same_chan_prompt [OF 1(2)] obtain ch' where
      "read_loop k d lba buf cnt (n + c) ch1 (fill m buf (n + c) ?f) = Some (k, ch', fill m buf cnt ?f)"
      "same_chan ch1 ch'" "media (ata_dev ch') = media (ata_dev ch1)" unfolding s by blast
    then show ?thesis
      using True 1(1) same_chan_trans [OF 1(2)] 1(3) f
      by (intro exI [of _ ch']) (simp add: read_loop.simps [of k d lba buf cnt n] c_def [symmetric] Let_def)
  next
    case False
    then show ?thesis using less.prems(3) by (simp add: read_loop.simps same_chan_def)
  qed
qed

lemma select_disk_same: "same_chan ch (select_disk d ch)" "media (ata_dev (select_disk d ch)) = media (ata_dev ch)"
  by (simp_all add: select_disk_def write_ports_def write_port_def outb_def same_chan_def Let_def)

text \<open>A call of the driver by a thread that holds the channel's lock \<open>h\<close> times (usually 0).\<close>

definition chan_at :: "nat \<Rightarrow> 'a sys_scheme \<Rightarrow> ide_channel \<Rightarrow> bool" where
  "chan_at h k ch \<longleftrightarrow> chan_ok ch \<and> current k \<noteq> NULL \<and> ch_lock ch = mutex_at (current k) h \<and> Suc h < 2 ^ 32"

lemma ide_read_ok:
  assumes "chan_at h k ch" "0 < cnt" "lba + cnt \<le> Suc MAX_LBA" "cnt = 1 \<or> prompt (ata_dev ch)"
  shows "\<exists>ch'. ide_read k d lba buf cnt ch m = Some (k, ch', fill m buf cnt (\<lambda>i. sectors d ch (lba + i))) \<and>
    chan_at h k ch' \<and> same_chan ch ch' \<and> media (ata_dev ch') = media (ata_dev ch)"
proof -
  define c1 where "c1 = select_disk d (ch\<lparr>ch_lock := mutex_at (current k) (Suc h)\<rparr>)"
  have acq: "mutex_acquire k (ch_lock ch) = Some (k, mutex_at (current k) (Suc h))"
    using assms(1) by (simp add: chan_at_def mutex_acquire_at)
  note same = select_disk_same [where d = d and ch = "ch\<lparr>ch_lock := mutex_at (current k) (Suc h)\<rparr>", folded c1_def]
  have s1: "sectors d c1 = sectors d ch" using same(2) by (simp add: sectors_def)
  have ok: "chan_ok c1" using assms(1) same_chan_ok [OF same(1)] by (simp add: chan_at_def chan_ok_def)
  have pr: "cnt = 1 \<or> prompt (ata_dev c1)" using assms(4) same_chan_prompt [OF same(1)] by auto
  obtain c2 where c2: "read_loop k d lba buf cnt 0 c1 m = Some (k, c2, fill m buf cnt (\<lambda>i. sectors d ch (lba + i)))"
    "same_chan c1 c2" "media (ata_dev c2) = media (ata_dev c1)"
    using read_loop_ok [OF ok assms(3), of 0 k d buf m] pr by (auto simp: s1)
  have l: "ch_lock c2 = mutex_at (current k) (Suc h)" using c2(2) same(1) by (simp add: same_chan_def)
  have "mutex_release k (ch_lock c2) = Some (k, mutex_at (current k) h)"
    using assms(1) by (simp add: l chan_at_def mutex_release_at)
  then have "ide_read k d lba buf cnt ch m =
      Some (k, c2\<lparr>ch_lock := mutex_at (current k) h\<rparr>, fill m buf cnt (\<lambda>i. sectors d ch (lba + i)))"
    using assms(2,3) acq c2(1) by (simp add: ide_read_def c1_def [symmetric])
  moreover have "chan_at h k (c2\<lparr>ch_lock := mutex_at (current k) h\<rparr>)"
    using assms(1) same_chan_ok [OF c2(2) ok] by (simp add: chan_at_def chan_ok_def)
  moreover have "same_chan ch (c2\<lparr>ch_lock := mutex_at (current k) h\<rparr>)"
    using assms(1) c2(2) same(1) by (simp add: same_chan_def chan_at_def)
  ultimately show ?thesis using c2(3) same(2) by simp
qed

lemma write_some_ok:
  assumes ok: "chan_ok ch" and lba: "lba \<le> MAX_LBA" and n: "0 < n" "n \<le> 256" and pr: "n = 1 \<or> prompt (ata_dev ch)"
  shows "\<exists>ch'. write_some k d lba buf n ch m = Some (k, ch') \<and> same_chan ch ch' \<and>
    media (ata_dev ch') = (media (ata_dev ch))(dev_no d = 1 := put_sectors (sectors d ch) lba n buf m)"
proof -
  obtain c1 where c1: "select_sector d lba (of_nat n) ch = Some c1"
    "addressed d lba n (cmd_out CMD_WRITE_SECTOR c1)" "same_chan ch (cmd_out CMD_WRITE_SECTOR c1)"
    "expecting_intr (cmd_out CMD_WRITE_SECTOR c1)"
    "media (ata_dev (cmd_out CMD_WRITE_SECTOR c1)) = media (ata_dev ch)"
    "ata_cmd (cmd_out CMD_WRITE_SECTOR c1) = CMD_WRITE_SECTOR" "secs_moved (ata_dev (cmd_out CMD_WRITE_SECTOR c1)) = 0"
    by (rule command_ok [OF lba n])
  define c2 where "c2 = cmd_out CMD_WRITE_SECTOR c1"
  have ok2: "chan_ok c2" using same_chan_ok [OF c1(3) ok] by (simp add: c2_def)
  moreover have "data_due c2" using c1(2,6,7) n(1)
    by (simp add: data_due_def ata_secs_def addressed_def c2_def)
  ultimately obtain j where b: "busy_wait c2 = Some (True, c2\<lparr>ata_dev := (ata_dev c2)\<lparr>status_reads := j\<rparr>\<rparr>)"
    "drq_at (ata_dev c2) (secs_moved (ata_dev c2)) j"
    using busy_wait_ok by blast
  define c3 where "c3 = c2\<lparr>ata_dev := (ata_dev c2)\<lparr>status_reads := j\<rparr>\<rparr>"
  have f3: "task_file (ata_dev c3) = task_file (ata_dev c2)" "port_base c3 = port_base c2"
    "media (ata_dev c3) = media (ata_dev ch)" "same_chan c2 c3" "secs_moved (ata_dev c3) = 0"
    using c1(5,7) by (simp_all add: c3_def same_chan_def c2_def)
  have ad: "addressed d lba n c3" using addressed_cong [OF _ f3(1,2)] c1(2) by (simp add: c2_def)
  have cmd: "ata_cmd c3 = CMD_WRITE_SECTOR"
    using c1(6) f3(1,2) by (simp add: c2_def ata_cmd_def reg_defs)
  have same: "same_chan ch c3" using same_chan_trans f3(4) c1(3) by (simp add: c2_def)
  have "drq_at (ata_dev c3) 0 (status_reads (ata_dev c3))"
    using b(2) f3(5) by (simp add: c3_def drq_at_def)
  then have can: "can_move c3 n"
    using can_move_all [OF ad _ f3(5)] cmd pr same_chan_prompt [OF same] by blast
  define c4 where "c4 = (have_moved n c3)\<lparr>ata_dev := (ata_dev (have_moved n c3))\<lparr>media :=
    (media (ata_dev ch))(dev_no d = 1 := put_sectors (sectors d ch) lba n buf m)\<rparr>\<rparr>"
  have "write2sector buf (of_nat n) c3 m = outsw c3 buf (n * 256) m"
    using count_bytes [OF n] by (simp add: write2sector_def Let_def mult.commute)
  moreover have "media (ata_dev (have_moved n c3)) = media (ata_dev ch)" "ata_slave (have_moved n c3) = ata_slave c3" 
    using f3(3) by (simp_all add: have_moved_def ata_slave_def reg_defs)
  ultimately have w: "write2sector buf (of_nat n) c3 m = Some c4"
    using ad cmd f3(3,5) can
    by (simp add: outsw_def addressed_def sectors_def put_sectors_def c4_def Let_def cong: if_cong)
  have "expecting_intr c4" "disk_done c4 = idle_sem"
    using c1(4) ok2 by (simp_all add: c4_def c3_def c2_def chan_ok_def have_moved_def)
  note wd = wait_done_ok [OF this, of k]
  define c5 where "c5 = c4\<lparr>expecting_intr := False, ata_dev := (ata_dev c4)\<lparr>status_reads := status_reads (ata_dev c4) + 1\<rparr>\<rparr>"
  have "write_some k d lba buf n ch m = Some (k, c5)"
    using b w wd by (simp add: write_some_def c1(1) c2_def [symmetric] c3_def [symmetric] c5_def)
  moreover have "same_chan ch c5" using same
    by (simp add: c5_def c4_def same_chan_def have_moved_def)
  moreover have "media (ata_dev c5) = (media (ata_dev ch))(dev_no d = 1 := put_sectors (sectors d ch) lba n buf m)"
    by (simp add: c5_def c4_def)
  ultimately show ?thesis by blast
qed

lemma write_loop_ok:
  "chan_ok ch \<Longrightarrow> lba + cnt \<le> Suc MAX_LBA \<Longrightarrow> n \<le> cnt \<Longrightarrow> cnt = 1 \<or> prompt (ata_dev ch) \<Longrightarrow>
   media (ata_dev ch) = M(dev_no d = 1 := put_sectors s lba n buf m) \<Longrightarrow>
   \<exists>ch'. write_loop k d lba buf cnt n ch m = Some (k, ch') \<and> same_chan ch ch' \<and>
     media (ata_dev ch') = M(dev_no d = 1 := put_sectors s lba cnt buf m)"
proof (induction "cnt - n" arbitrary: n ch rule: less_induct)
  case less
  show ?case
  proof (cases "n < cnt")
    case True
    define c where "c = (if n + 256 \<le> cnt then 256 else cnt - n)"
    have c: "0 < c" "c \<le> 256" "n + c \<le> cnt" "lba + n \<le> MAX_LBA" using True less.prems(2) by (auto simp: c_def)
    then have pr: "c = 1 \<or> prompt (ata_dev ch)" using less.prems(4) by auto
    obtain ch1 where 1: "write_some k d (lba + n) (buf + n * 512) c ch m = Some (k, ch1)" "same_chan ch ch1"
      "media (ata_dev ch1) = (media (ata_dev ch))(dev_no d = 1 := put_sectors (sectors d ch) (lba + n) c (buf + n * 512) m)"
      using write_some_ok [OF less.prems(1) c(4,1,2) pr] by blast
    have "sectors d ch = put_sectors s lba n buf m" using less.prems(5) by (simp add: sectors_def)
    then have m1: "media (ata_dev ch1) = M(dev_no d = 1 := put_sectors s lba (n + c) buf m)"
      using 1(3) less.prems(5) by (simp add: put_sectors_more)
    have "cnt - (n + c) < cnt - n" using c(1,3) True by simp
    have pr1: "cnt = 1 \<or> prompt (ata_dev ch1)" using less.prems(4) same_chan_prompt [OF 1(2)] by blast
    from less.hyps [OF \<open>cnt - (n + c) < cnt - n\<close> same_chan_ok [OF 1(2) less.prems(1)] less.prems(2) c(3) pr1 m1] obtain ch' where
      "write_loop k d lba buf cnt (n + c) ch1 m = Some (k, ch')" "same_chan ch1 ch'"
      "media (ata_dev ch') = M(dev_no d = 1 := put_sectors s lba cnt buf m)" by blast
    then show ?thesis
      using True 1(1) same_chan_trans [OF 1(2)]
      by (intro exI [of _ ch']) (simp add: write_loop.simps [of k d lba buf cnt n] c_def [symmetric] Let_def)
  next
    case False
    then show ?thesis using less.prems(3,5) by (simp add: write_loop.simps same_chan_def)
  qed
qed

lemma ide_write_ok:
  assumes "chan_at h k ch" "0 < cnt" "lba + cnt \<le> Suc MAX_LBA" "cnt = 1 \<or> prompt (ata_dev ch)"
  shows "\<exists>ch'. ide_write k d lba buf cnt ch m = Some (k, ch') \<and> chan_at h k ch' \<and> same_chan ch ch' \<and>
    media (ata_dev ch') = (media (ata_dev ch))(dev_no d = 1 := put_sectors (sectors d ch) lba cnt buf m)"
proof -
  define c1 where "c1 = select_disk d (ch\<lparr>ch_lock := mutex_at (current k) (Suc h)\<rparr>)"
  have acq: "mutex_acquire k (ch_lock ch) = Some (k, mutex_at (current k) (Suc h))"
    using assms(1) by (simp add: chan_at_def mutex_acquire_at)
  note same = select_disk_same [where d = d and ch = "ch\<lparr>ch_lock := mutex_at (current k) (Suc h)\<rparr>", folded c1_def]
  have ok: "chan_ok c1" using assms(1) same_chan_ok [OF same(1)] by (simp add: chan_at_def chan_ok_def)
  have pr: "cnt = 1 \<or> prompt (ata_dev c1)" using assms(4) same_chan_prompt [OF same(1)] by auto
  have "media (ata_dev c1) = (media (ata_dev ch))(dev_no d = 1 := put_sectors (sectors d ch) lba 0 buf m)"
    using same(2) by (simp add: sectors_def)
  from write_loop_ok [OF ok assms(3) _ pr this, of k] obtain c2 where
    c2: "write_loop k d lba buf cnt 0 c1 m = Some (k, c2)" "same_chan c1 c2"
      "media (ata_dev c2) = (media (ata_dev ch))(dev_no d = 1 := put_sectors (sectors d ch) lba cnt buf m)" by auto
  have l: "ch_lock c2 = mutex_at (current k) (Suc h)" using c2(2) same(1) by (simp add: same_chan_def)
  have "mutex_release k (ch_lock c2) = Some (k, mutex_at (current k) h)"
    using assms(1) by (simp add: l chan_at_def mutex_release_at)
  then have "ide_write k d lba buf cnt ch m = Some (k, c2\<lparr>ch_lock := mutex_at (current k) h\<rparr>)"
    using assms(2,3) acq c2(1) by (simp add: ide_write_def c1_def [symmetric])
  moreover have "chan_at h k (c2\<lparr>ch_lock := mutex_at (current k) h\<rparr>)"
    using assms(1) same_chan_ok [OF c2(2) ok] by (simp add: chan_at_def chan_ok_def)
  moreover have "same_chan ch (c2\<lparr>ch_lock := mutex_at (current k) h\<rparr>)"
    using assms(1) c2(2) same(1) by (simp add: same_chan_def chan_at_def)
  ultimately show ?thesis using c2(3) by simp
qed

section \<open>Properties\<close>

text \<open>
  The data registers are not the driver's to empty at will: the drive may be busy again after every sector, and
  the driver does not look. On such a drive a read of two sectors moves words the drive is not ready for.
\<close>

lemma read_two_not_prompt:
  assumes ok: "chan_ok ch" and lba: "lba \<le> MAX_LBA"
    and busy: "\<And>c. status (ata_dev ch) True c 1 0 AND BIT_STAT_BSY \<noteq> 0"
  shows "read_some k d lba buf 2 ch m = None"
proof -
  have n: "(0 :: nat) < 2" "(2 :: nat) \<le> 256" by simp_all
  obtain c1 where c1: "select_sector d lba (of_nat 2) ch = Some c1"
    "same_chan ch (cmd_out CMD_READ_SECTOR c1)" "expecting_intr (cmd_out CMD_READ_SECTOR c1)"
    "ata_cmd (cmd_out CMD_READ_SECTOR c1) = CMD_READ_SECTOR" "addressed d lba 2 (cmd_out CMD_READ_SECTOR c1)"
    "secs_moved (ata_dev (cmd_out CMD_READ_SECTOR c1)) = 0"
    by (rule command_ok [OF lba n])
  define c2 where "c2 = cmd_out CMD_READ_SECTOR c1"
  have "chan_ok c2" using same_chan_ok [OF c1(2) ok] by (simp add: c2_def)
  define c3 where "c3 = c2\<lparr>expecting_intr := False, ata_dev := (ata_dev c2)\<lparr>status_reads := status_reads (ata_dev c2) + 1\<rparr>\<rparr>"
  have w: "wait_done k c2 = Some (k, c3)"
    using wait_done_ok [of c2 k] c1(3) \<open>chan_ok c2\<close> by (simp add: c2_def c3_def chan_ok_def)
  have "chan_ok c3" using \<open>chan_ok c2\<close> by (simp add: chan_ok_def drive_ok_def c3_def)
  moreover have "data_due c3" using c1(4,5,6)
    by (simp add: data_due_def ata_secs_def ata_cmd_def addressed_def ata_count_def c3_def c2_def reg_defs)
  ultimately obtain j where b: "busy_wait c3 = Some (True, c3\<lparr>ata_dev := (ata_dev c3)\<lparr>status_reads := j\<rparr>\<rparr>)"
    using busy_wait_ok by blast
  let ?c4 = "c3\<lparr>ata_dev := (ata_dev c3)\<lparr>status_reads := j\<rparr>\<rparr>"
  have "status (ata_dev ?c4) = status (ata_dev ch)" "secs_moved (ata_dev ?c4) = 0"
    using c1(2,6) by (simp_all add: same_chan_def c2_def c3_def)
  then have "\<not> can_move ?c4 2" using busy
    by (auto simp: can_move_def drq_at_def Let_def intro!: exI [of _ "1 :: nat"])
  then have "read_from_sector buf 2 ?c4 m = None"
    by (simp add: read_from_sector_def insw_def Let_def)
  moreover have "select_sector d lba 2 ch = Some c1" using c1(1) by simp
  ultimately show ?thesis using w b by (simp add: read_some_def c2_def [symmetric])
qed

text \<open>C9: what \<open>ide_write\<close> puts on a drive, \<open>ide_read\<close> of the same sectors brings back, into any buffer; the other
  sectors and the other drive keep their contents, both calls return, and the channel's lock and semaphore are as
  before. A transfer of one sector needs a drive that becomes ready for it some time (\<open>chan_at\<close>). The driver
  checks BSY and DRQ before the first sector of a command only, so for a transfer of several sectors, in commands of
  up to 256, the drive is assumed to be ready for each further sector at once (\<open>prompt\<close>); with another drive
  the read of two sectors is not defined (\<open>read_two_not_prompt\<close>).\<close>

theorem ide_roundtrip:
  assumes "chan_at h k ch" "0 < cnt" "lba + cnt \<le> Suc MAX_LBA" "cnt = 1 \<or> prompt (ata_dev ch)"
  shows "\<exists>ch' ch''. ide_write k d lba buf cnt ch m = Some (k, ch') \<and> chan_at h k ch' \<and>
    (\<forall>b. b \<noteq> (dev_no d = 1) \<longrightarrow> media (ata_dev ch') b = media (ata_dev ch) b) \<and>
    (\<forall>l i. \<not> (lba \<le> l \<and> l < lba + cnt) \<longrightarrow> sectors d ch' l i = sectors d ch l i) \<and>
    ide_read k d lba dest cnt ch' m' = Some (k, ch'', \<lambda>a. if dest \<le> a \<and> a < dest + cnt * 512 then m (buf + (a - dest)) else m' a) \<and>
    chan_at h k ch'' \<and> media (ata_dev ch'') = media (ata_dev ch')"
proof -
  obtain ch' where w: "ide_write k d lba buf cnt ch m = Some (k, ch')" "chan_at h k ch'" "same_chan ch ch'"
    "media (ata_dev ch') = (media (ata_dev ch))(dev_no d = 1 := put_sectors (sectors d ch) lba cnt buf m)"
    using ide_write_ok [OF assms] by blast
  obtain ch'' where r: "ide_read k d lba dest cnt ch' m' = Some (k, ch'', fill m' dest cnt (\<lambda>i. sectors d ch' (lba + i)))"
    "chan_at h k ch''" "media (ata_dev ch'') = media (ata_dev ch')"
    using ide_read_ok [OF w(2) assms(2,3)] assms(4) same_chan_prompt [OF w(3)] by blast
  have s: "sectors d ch' = put_sectors (sectors d ch) lba cnt buf m" using w(4) by (simp add: sectors_def)
  have "fill m' dest cnt (\<lambda>i. sectors d ch' (lba + i)) =
      (\<lambda>a. if dest \<le> a \<and> a < dest + cnt * 512 then m (buf + (a - dest)) else m' a)"
  proof
    fix a
    have "(a - dest) div 512 < cnt" if "dest \<le> a" "a < dest + cnt * 512"
      using that by (simp add: div_less_iff_less_mult)
    then show "fill m' dest cnt (\<lambda>i. sectors d ch' (lba + i)) a =
        (if dest \<le> a \<and> a < dest + cnt * 512 then m (buf + (a - dest)) else m' a)"
      by (simp add: fill_def s put_sectors_def add.assoc)
  qed
  then show ?thesis using w r s by (auto simp: put_sectors_def)
qed

definition chan0 :: ide_channel where
  "chan0 = \<lparr>port_base = 0x1f0, irq_no = 0x2e, ch_lock = mutex_lock_init, expecting_intr = False, disk_done = idle_sem,
     ata_dev = \<lparr>task_file = (\<lambda>_. 0), media = (\<lambda>_ _ _. 0), ident = (\<lambda>_ _. 0),
     status = (\<lambda>due c s i. if i < 3 \<and> s = 0 then 0x80 else if due then 0x48 else 0x40),
     cmd_no = 0, secs_moved = 0, status_reads = 0\<rparr>\<rparr>"

definition sdb :: disk where "sdb = \<lparr>d_name = [115, 100, 98], dev_no = 1\<rparr>"

lemma chan0_at: "current k \<noteq> NULL \<Longrightarrow> chan_at 0 k chan0"
proof -
  assume k: "current k \<noteq> NULL"
  have "\<exists>n. \<forall>i. (i < n \<longrightarrow> status (ata_dev chan0) True c s i AND BIT_STAT_BSY \<noteq> 0) \<and>
      (n \<le> i \<longrightarrow> ready_value (status (ata_dev chan0) True c s i))" for c s
    by (rule exI [of _ "if s = 0 then 3 else 0"])
      (auto simp: chan0_def ready_value_def BIT_STAT_BSY_def BIT_STAT_DRQ_def)
  then have "drive_ok (ata_dev chan0)" by (simp add: drive_ok_def)
  then show ?thesis using k by (simp add: chan_at_def chan_ok_def) (simp add: chan0_def mutex_init_at [of "current k"])
qed

lemma chan0_prompt: "prompt (ata_dev chan0)"
  by (simp add: prompt_def chan0_def ready_value_def BIT_STAT_BSY_def BIT_STAT_DRQ_def)

theorem ide_roundtrip_witness:
  "\<exists>ch' ch''. ide_write sys0 sdb 100 0 300 chan0 (\<lambda>a. of_nat a) = Some (sys0, ch') \<and>
     ide_read sys0 sdb 100 1024 300 ch' (\<lambda>a. 7) = Some (sys0, ch'',
       \<lambda>a. if 1024 \<le> a \<and> a < 1024 + 300 * 512 then of_nat (0 + (a - 1024)) else 7)"
  using ide_roundtrip [OF chan0_at, of sys0 300 100 sdb 0 "\<lambda>a. of_nat a" 1024 "\<lambda>a. 7"]
  by (auto simp: sys0_def NULL_def MAX_LBA_def chan0_prompt)

end
