(* ===== verification/Inode.thy ===== *)
theory Inode
  imports Threads Disk Keyboard
begin

text \<open>
  fs/inode.c: the inodes of the mounted partition, in memory and on disk, and the numbers of inodes and
  blocks. The state \<open>fsys\<close> extends the kernel's by what the file system keeps: the partition, the channel
  and the drive it is on, the structures in memory by their address, the byte memory of the buffers, and
  the console and keyboard that files 0 and 1 stand for. The bytes of a bitmap are kept in the bitmap.
\<close>

section \<open>State\<close>

definition SECTOR_SIZE :: nat where "SECTOR_SIZE = 512"
definition BITS_PER_SECTOR :: nat where "BITS_PER_SECTOR = 4096"

record inode =
  i_no :: nat
  i_flags :: u32
  i_size :: u32
  i_count :: atomic_t
  i_rwlock :: rwlock
  i_mode :: u16
  i_sectors :: "nat \<Rightarrow> u32"

record super_block =
  magic :: u32
  sb_sec_cnt :: nat
  inode_cnt :: nat
  part_lba_base :: nat
  block_bitmap_lba :: nat
  block_bitmap_sects :: nat
  inode_bitmap_lba :: nat
  inode_bitmap_sects :: nat
  inode_table_lba :: nat
  inode_table_sects :: nat
  data_start_lba :: nat
  root_inode_no :: nat
  dir_entry_size :: nat

record partition =
  start_lba :: nat
  sec_cnt :: nat
  part_name :: "u8 list"
  sb :: super_block
  block_bitmap :: bitmap
  inode_bitmap :: bitmap
  open_inodes :: "nat list"

record file_t =
  pos :: nat
  f_flags :: u32
  f_mode :: u16
  f_dentry :: nat

record dentry =
  d_count :: atomic_t
  d_inode :: nat
  fname_len :: u16
  d_parent :: nat
  d_subdirs :: "nat list"

record fsys = tsys +
  fmem :: mem
  inodes :: "nat \<Rightarrow> inode"
  cur_part :: partition
  chan :: ide_channel
  drive :: disk
  file_table :: "nat \<Rightarrow> file_t"
  dentries :: "nat \<Rightarrow> dentry"
  con :: console
  kbd_st :: kbd
  console_buf :: nat
  va_stack :: "u32 list"

text \<open>Calls of the lower layers on the parts of the state they work on.\<close>

definition kmalloc_fs :: "u32 \<Rightarrow> 'a fsys_scheme \<Rightarrow> (nat \<times> 'a fsys_scheme) option" where
  "kmalloc_fs sz k = do { (p, k, m) \<leftarrow> kmalloc k (kmem_st k) sz; Some (p, k\<lparr>kmem_st := m\<rparr>) }"

definition kfree_fs :: "nat \<Rightarrow> 'a fsys_scheme \<Rightarrow> 'a fsys_scheme option" where
  "kfree_fs p k = do { (k, m) \<leftarrow> kfree k (kmem_st k) (mmu_state k) p; Some (k\<lparr>kmem_st := m\<rparr>) }"

definition read_disk :: "nat \<Rightarrow> nat \<Rightarrow> nat \<Rightarrow> 'a fsys_scheme \<Rightarrow> 'a fsys_scheme option" where
  "read_disk lba dst n k = do {
     (k, ch, m) \<leftarrow> ide_read k (drive k) lba dst n (chan k) (fmem k);
     Some (k\<lparr>chan := ch, fmem := m\<rparr>) }"

definition write_disk :: "nat \<Rightarrow> nat \<Rightarrow> nat \<Rightarrow> 'a fsys_scheme \<Rightarrow> 'a fsys_scheme option" where
  "write_disk lba src n k = do {
     (k, ch) \<leftarrow> ide_write k (drive k) lba src n (chan k) (fmem k);
     Some (k\<lparr>chan := ch\<rparr>) }"

section \<open>The inode table\<close>

record inode_pos =
  two_sec :: bool
  sec_no :: nat
  offset :: nat

definition get_inode_pos :: "nat \<Rightarrow> partition \<Rightarrow> inode_pos" where
  "get_inode_pos n part =
     (let off = n * 64 mod SECTOR_SIZE
      in \<lparr>two_sec = (SECTOR_SIZE - off < 64), sec_no = inode_table_lba (sb part) + n * 64 div SECTOR_SIZE,
          offset = off\<rparr>)"

text \<open>The 64 bytes of an inode on disk, little endian; the first two are padding that nothing reads. The source leaves the
  padding as it is on its stack; the model writes zeros.\<close>

definition bytes32 :: "u32 \<Rightarrow> u8 list" where
  "bytes32 w = map (\<lambda>j. ucast (drop_bit (8 * j) w)) [0..<4]"

definition bytes16 :: "u16 \<Rightarrow> u8 list" where
  "bytes16 w = [ucast w, ucast (drop_bit 8 w)]"

definition half_at :: "mem \<Rightarrow> nat \<Rightarrow> u16" where
  "half_at m a = ucast (m a) OR push_bit 8 (ucast (m (a + 1)))"

definition dinode_bytes :: "inode \<Rightarrow> u8 list" where
  "dinode_bytes i = [0, 0] @ bytes16 (i_mode i) @ bytes32 (i_size i) @ bytes32 (i_flags i) @
     concat (map (\<lambda>j. bytes32 (i_sectors i j)) [0..<13])"

definition inode_sync :: "nat \<Rightarrow> nat \<Rightarrow> 'a fsys_scheme \<Rightarrow> 'a fsys_scheme option" where
  "inode_sync i io_buf k = do {
     let ip = get_inode_pos (i_no (inodes k i)) (cur_part k);
     let n = (if two_sec ip then 2 else 1);
     k \<leftarrow> read_disk (sec_no ip) io_buf n k;
     let k = k\<lparr>fmem := writes (fmem k) (io_buf + offset ip) (dinode_bytes (inodes k i))\<rparr>;
     write_disk (sec_no ip) io_buf n k }"

text \<open>What \<open>inode_open\<close> takes from the buffer at \<open>a\<close>.\<close>

definition load_inode :: "mem \<Rightarrow> nat \<Rightarrow> nat \<Rightarrow> inode" where
  "load_inode m a n =
     \<lparr>i_no = n, i_flags = word32_at m (a + 8), i_size = word32_at m (a + 4), i_count = atomic_set 1 \<lparr>counter = 0\<rparr>,
      i_rwlock = rwlock_init, i_mode = half_at m (a + 2), i_sectors = (\<lambda>j. if j < 13 then word32_at m (a + 12 + 4 * j) else 0)\<rparr>"

definition inode_open :: "nat \<Rightarrow> 'a fsys_scheme \<Rightarrow> (nat \<times> 'a fsys_scheme) option" where
  "inode_open n k = do {
     ASSERT (n < 4096);
     ASSERT (bitmap_is_set (inode_bitmap (cur_part k)) n);
     case find (\<lambda>i. i_no (inodes k i) = n) (open_inodes (cur_part k)) of
       Some i \<Rightarrow> Some (i, k\<lparr>inodes := (inodes k)(i := (inodes k i)\<lparr>i_count := atomic_inc (i_count (inodes k i))\<rparr>)\<rparr>)
     | None \<Rightarrow> do {
         let ip = get_inode_pos n (cur_part k);
         (io_buf, k) \<leftarrow> kmalloc_fs 1024 k;
         k \<leftarrow> read_disk (sec_no ip) io_buf (if two_sec ip then 2 else 1) k;
         (i, k) \<leftarrow> kmalloc_fs 104 k;
         let k = k\<lparr>inodes := (inodes k)(i := load_inode (fmem k) (io_buf + offset ip) n)\<rparr>;
         let k = k\<lparr>cur_part := (cur_part k)\<lparr>open_inodes := i # open_inodes (cur_part k)\<rparr>\<rparr>;
         k \<leftarrow> kfree_fs io_buf k;
         Some (i, k) } }"

text \<open>\<open>list_delete\<close> asserts that the element is in the list.\<close>

definition inode_close :: "nat \<Rightarrow> 'a fsys_scheme \<Rightarrow> 'a fsys_scheme option" where
  "inode_close i k =
     (let (more, c) = atomic_dec_and_setg (i_count (inodes k i));
          k = k\<lparr>inodes := (inodes k)(i := (inodes k i)\<lparr>i_count := c\<rparr>)\<rparr>
      in if \<not> more
         then do {
           ASSERT (i \<in> set (open_inodes (cur_part k)));
           let k = k\<lparr>cur_part := (cur_part k)\<lparr>open_inodes := remove1 i (open_inodes (cur_part k))\<rparr>\<rparr>;
           kfree_fs i k }
         else Some k)"

definition zero_inode :: inode where
  "zero_inode = \<lparr>i_no = 0, i_flags = 0, i_size = 0, i_count = \<lparr>counter = 0\<rparr>, i_rwlock = rwlock_init, i_mode = 0,
     i_sectors = (\<lambda>_. 0)\<rparr>"

definition inode_alloc :: "'a fsys_scheme \<Rightarrow> (nat \<times> 'a fsys_scheme) option" where
  "inode_alloc k = do {
     (i, k) \<leftarrow> kmalloc_fs 104 k;
     (n, k, b) \<leftarrow> bitmap_scan_set k (inode_bitmap (cur_part k));
     let k = k\<lparr>cur_part := (cur_part k)\<lparr>inode_bitmap := b\<rparr>\<rparr>;
     let k = k\<lparr>inodes := (inodes k)(i := zero_inode\<lparr>i_no := unat (of_int n :: u32)\<rparr>)\<rparr>;
     Some (i, k\<lparr>cur_part := (cur_part k)\<lparr>open_inodes := i # open_inodes (cur_part k)\<rparr>\<rparr>) }"

definition inode_delete :: "nat \<Rightarrow> 'a fsys_scheme \<Rightarrow> 'a fsys_scheme option" where
  "inode_delete i k = do {
     ASSERT (atomic_read (i_count (inodes k i)) = 0);
     ASSERT (i \<in> set (open_inodes (cur_part k)));
     let k = k\<lparr>cur_part := (cur_part k)\<lparr>open_inodes := remove1 i (open_inodes (cur_part k))\<rparr>\<rparr>;
     (k, b) \<leftarrow> bitmap_reset k (inode_bitmap (cur_part k)) (i_no (inodes k i));
     let k = k\<lparr>cur_part := (cur_part k)\<lparr>inode_bitmap := b\<rparr>\<rparr>;
     kfree_fs i k }"

section \<open>Bitmaps on disk\<close>

datatype BITMAP_TYPE = BLOCK_BITMAP | INODE_BITMAP

definition bitmap_of :: "BITMAP_TYPE \<Rightarrow> partition \<Rightarrow> bitmap" where
  "bitmap_of t part = (case t of BLOCK_BITMAP \<Rightarrow> block_bitmap part | INODE_BITMAP \<Rightarrow> inode_bitmap part)"

definition set_bitmap :: "BITMAP_TYPE \<Rightarrow> bitmap \<Rightarrow> partition \<Rightarrow> partition" where
  "set_bitmap t b part = (case t of BLOCK_BITMAP \<Rightarrow> part\<lparr>block_bitmap := b\<rparr> | INODE_BITMAP \<Rightarrow> part\<lparr>inode_bitmap := b\<rparr>)"

text \<open>The sector is written from the bytes of the bitmap in memory.\<close>

definition bitmap_sync :: "nat \<Rightarrow> BITMAP_TYPE \<Rightarrow> 'a fsys_scheme \<Rightarrow> 'a fsys_scheme option" where
  "bitmap_sync idx t k = do {
     let s = sb (cur_part k);
     let start_sec = (case t of BLOCK_BITMAP \<Rightarrow> block_bitmap_lba s + idx div BITS_PER_SECTOR
       | INODE_BITMAP \<Rightarrow> inode_bitmap_lba s + idx div BITS_PER_SECTOR);
     ASSERT (idx div SECTOR_SIZE < (case t of BLOCK_BITMAP \<Rightarrow> block_bitmap_sects s | INODE_BITMAP \<Rightarrow> inode_bitmap_sects s));
     let b = bitmap_of t (cur_part k);
     let start = (idx - idx mod BITS_PER_SECTOR) div 8;
     (k, l) \<leftarrow> mutex_acquire k (b_lock b);
     (k, ch) \<leftarrow> ide_write k (drive k) start_sec start 1 (chan k) (bits b);
     (k, l) \<leftarrow> mutex_release k l;
     Some (k\<lparr>chan := ch, cur_part := set_bitmap t (b\<lparr>b_lock := l\<rparr>) (cur_part k)\<rparr>) }"

definition block_bimap_alloc :: "'a fsys_scheme \<Rightarrow> (nat \<times> 'a fsys_scheme) option" where
  "block_bimap_alloc k = do {
     (idx, k, b) \<leftarrow> bitmap_scan_set k (block_bitmap (cur_part k));
     let k = k\<lparr>cur_part := (cur_part k)\<lparr>block_bitmap := b\<rparr>\<rparr>;
     k \<leftarrow> bitmap_sync (nat idx) BLOCK_BITMAP k;
     Some (data_start_lba (sb (cur_part k)) + nat idx, k) }"

definition get_inode_type :: "inode \<Rightarrow> u16" where
  "get_inode_type i = i_mode i AND 0xf000"

section \<open>Numbers in bytes\<close>

lemma bytes32_length [simp]: "length (bytes32 w) = 4"
  by (simp add: bytes32_def)

lemma word32_of_bytes:
  assumes "\<And>j. j < 4 \<Longrightarrow> f (a + j) = ucast (drop_bit (8 * j) w)"
  shows "word32_at f a = w"
proof (rule bit_word_eqI)
  fix n assume n: "n < LENGTH(32)"
  then have "n div 8 < 4" by simp
  from assms [OF this] have "bit (word32_at f a) n \<longleftrightarrow> n < 32 \<and> n mod 8 < 8 \<and> bit w (8 * (n div 8) + n mod 8)"
    by (simp only: bit_word32_at) (simp add: bit_simps del: One_nat_def)
  moreover have "8 * (n div 8) + n mod 8 = n" "n mod 8 < 8" by simp_all
  ultimately show "bit (word32_at f a) n = bit w n" using n by (simp only: len_num1 len_bit0) simp
qed

lemma word32_writes: "word32_at (writes m a (bytes32 w)) a = w"
  by (rule word32_of_bytes) (simp add: writes_def bytes32_def)

lemma word32_cong: "(\<And>j. j < 4 \<Longrightarrow> f (a + j) = g (b + j)) \<Longrightarrow> word32_at f a = word32_at g b"
proof -
  assume e: "\<And>j. j < 4 \<Longrightarrow> f (a + j) = g (b + j)"
  show ?thesis using e [of 0] e [of 1] e [of 2] e [of 3] by (simp add: word32_at_def)
qed

lemma word32_writes_other: "a + 4 \<le> b \<or> b + length xs \<le> a \<Longrightarrow> word32_at (writes m b xs) a = word32_at m a"
  by (rule word32_cong) (auto simp: writes_def)

section \<open>The disk under the file system\<close>

abbreviation dsk :: "'a fsys_scheme \<Rightarrow> nat \<Rightarrow> nat \<Rightarrow> u8" where
  "dsk k \<equiv> sectors (drive k) (chan k)"

text \<open>The numbers of blocks: those that the bitmap can name without failing the assertion of
  \<open>bitmap_sync\<close>, and the sectors of those in use.\<close>

definition lim :: "'a fsys_scheme \<Rightarrow> nat" where
  "lim k = 512 * block_bitmap_sects (sb (cur_part k))"

definition block_used :: "'a fsys_scheme \<Rightarrow> nat \<Rightarrow> bool" where
  "block_used k n \<longleftrightarrow> bit_at (bits (block_bitmap (cur_part k))) n"

definition used_blocks :: "'a fsys_scheme \<Rightarrow> nat set" where
  "used_blocks k = (+) (data_start_lba (sb (cur_part k))) ` {n. n < lim k \<and> block_used k n}"

definition free_blocks :: "'a fsys_scheme \<Rightarrow> nat set" where
  "free_blocks k = (+) (data_start_lba (sb (cur_part k))) ` {n. n < lim k \<and> \<not> block_used k n}"

definition bitmap_area :: "'a fsys_scheme \<Rightarrow> nat set" where
  "bitmap_area k = {block_bitmap_lba (sb (cur_part k))..<block_bitmap_lba (sb (cur_part k)) + block_bitmap_sects (sb (cur_part k))}"

text \<open>The areas of a partition in the order of \<open>partition_format\<close>, inside the disk.\<close>

definition layout_ok :: "super_block \<Rightarrow> bool" where
  "layout_ok s \<longleftrightarrow> 0 < block_bitmap_lba s \<and> block_bitmap_lba s + block_bitmap_sects s \<le> inode_bitmap_lba s \<and>
     inode_bitmap_lba s + inode_bitmap_sects s \<le> inode_table_lba s \<and>
     inode_table_lba s + 512 \<le> data_start_lba s \<and> data_start_lba s + 512 * block_bitmap_sects s \<le> Suc MAX_LBA"

text \<open>What every operation relies on and keeps: the locks are free, and the bitmap on disk is the one in
  memory.\<close>

definition bitmap_stored :: "'a fsys_scheme \<Rightarrow> bool" where
  "bitmap_stored k \<longleftrightarrow> (\<forall>n < lim k.
     dsk k (block_bitmap_lba (sb (cur_part k)) + n div 512) (n mod 512) = bits (block_bitmap (cur_part k)) n)"

definition fs_ok :: "'a fsys_scheme \<Rightarrow> bool" where
  "fs_ok k \<longleftrightarrow> layout_ok (sb (cur_part k)) \<and> chan_at 0 k (chan k) \<and> lock_at 0 k (block_bitmap (cur_part k)) \<and>
     byte_size (block_bitmap (cur_part k)) = lim k \<and> bitmap_stored k"

text \<open>What operations on blocks leave alone: all but the buffers, the inodes, the disk and the block bitmap.\<close>

definition near :: "'a fsys_scheme \<Rightarrow> 'a fsys_scheme \<Rightarrow> bool" where
  "near k k' \<longleftrightarrow> k' = k\<lparr>fmem := fmem k', inodes := inodes k', chan := chan k',
     cur_part := (cur_part k)\<lparr>block_bitmap := block_bitmap (cur_part k')\<rparr>\<rparr>"

lemma near_refl [simp]: "near k k"
  by (simp add: near_def)

lemma nearD:
  assumes "near k k'"
  shows "drive k' = drive k" "sb (cur_part k') = sb (cur_part k)" "current k' = current k" "kmem_st k' = kmem_st k"
    "mmu_state k' = mmu_state k" "dentries k' = dentries k" "file_table k' = file_table k" "lim k' = lim k"
    "bitmap_area k' = bitmap_area k"
proof -
  obtain a b c d where k': "k' = k\<lparr>fmem := a, inodes := b, chan := c, cur_part := (cur_part k)\<lparr>block_bitmap := d\<rparr>\<rparr>"
    using assms unfolding near_def by metis
  show "drive k' = drive k" "sb (cur_part k') = sb (cur_part k)" "current k' = current k" "kmem_st k' = kmem_st k"
    "mmu_state k' = mmu_state k" "dentries k' = dentries k" "file_table k' = file_table k" "lim k' = lim k"
    "bitmap_area k' = bitmap_area k"
    by (simp_all add: k' lim_def bitmap_area_def)
qed

lemma near_trans:
  assumes "near a b" "near b c"
  shows "near a c"
proof -
  obtain p q r s where b: "b = a\<lparr>fmem := p, inodes := q, chan := r, cur_part := (cur_part a)\<lparr>block_bitmap := s\<rparr>\<rparr>"
    using assms(1) unfolding near_def by metis
  obtain p' q' r' s' where c: "c = b\<lparr>fmem := p', inodes := q', chan := r', cur_part := (cur_part b)\<lparr>block_bitmap := s'\<rparr>\<rparr>"
    using assms(2) unfolding near_def by metis
  show ?thesis by (simp add: near_def b c)
qed

lemma used_blocks_range:
  assumes "fs_ok k" "b \<in> used_blocks k \<union> free_blocks k"
  shows "b \<noteq> 0" "b \<le> MAX_LBA" "b \<notin> bitmap_area k" "inode_table_lba (sb (cur_part k)) + 512 \<le> b" "unat (of_nat b :: u32) = b"
proof -
  obtain n where "b = data_start_lba (sb (cur_part k)) + n" "n < lim k"
    using assms(2) by (auto simp: used_blocks_def free_blocks_def)
  moreover have "layout_ok (sb (cur_part k))" using assms(1) by (simp add: fs_ok_def)
  ultimately show r: "b \<noteq> 0" "b \<le> MAX_LBA" "b \<notin> bitmap_area k" "inode_table_lba (sb (cur_part k)) + 512 \<le> b"
    by (auto simp: layout_ok_def lim_def bitmap_area_def)
  show "unat (of_nat b :: u32) = b" using r(2) by (simp add: unat_of_nat MAX_LBA_def)
qed

lemma used_free_disjoint: "b \<in> free_blocks k \<Longrightarrow> b \<notin> used_blocks k"
  by (auto simp: used_blocks_def free_blocks_def)

lemma finite_free_blocks [simp]: "finite (free_blocks k)"
  by (simp add: free_blocks_def)

text \<open>The effect of an operation on the disk that takes the blocks \<open>X\<close> and writes no other block.\<close>

definition takes :: "nat set \<Rightarrow> 'a fsys_scheme \<Rightarrow> 'a fsys_scheme \<Rightarrow> bool" where
  "takes X k k' \<longleftrightarrow> near k k' \<and> fs_ok k' \<and> X \<subseteq> free_blocks k \<and> used_blocks k' = used_blocks k \<union> X \<and>
     free_blocks k' = free_blocks k - X \<and> (\<forall>l. l \<notin> bitmap_area k \<longrightarrow> dsk k' l = dsk k l)"

lemma takes_trans: "takes X a b \<Longrightarrow> takes Y b c \<Longrightarrow> takes (X \<union> Y) a c"
  using near_trans [of a b c] by (auto simp: takes_def nearD)

lemma takes_trans0: "takes {} a b \<Longrightarrow> takes Y b c \<Longrightarrow> takes Y a c" "takes X a b \<Longrightarrow> takes {} b c \<Longrightarrow> takes X a c"
  using takes_trans [of "{}" a b Y c] takes_trans [of X a b "{}" c] by auto

lemma takesD:
  assumes "takes X k k'"
  shows "near k k'" "fs_ok k'" "X \<subseteq> free_blocks k" "used_blocks k' = used_blocks k \<union> X" "free_blocks k' = free_blocks k - X"
    "l \<notin> bitmap_area k \<Longrightarrow> dsk k' l = dsk k l"
  using assms by (auto simp: takes_def)

text \<open>A change of buffers, inodes and the state of the channel takes nothing.\<close>

lemma takes_none:
  assumes "fs_ok k" "chan_at 0 k c" "media (ata_dev c) = media (ata_dev (chan k))"
  shows "takes {} k (k\<lparr>fmem := m, inodes := i, chan := c\<rparr>)"
proof -
  have "sectors (drive k) c = dsk k" using assms(3) by (simp add: sectors_def)
  then show ?thesis
    using assms by (simp add: takes_def near_def fs_ok_def lim_def bitmap_stored_def used_blocks_def free_blocks_def
      block_used_def chan_at_def lock_at_def)
qed

lemma takes_mem: "fs_ok k \<Longrightarrow> takes {} k (k\<lparr>fmem := m\<rparr>)" "fs_ok k \<Longrightarrow> takes {} k (k\<lparr>inodes := i\<rparr>)" "fs_ok k \<Longrightarrow> takes {} k k"
  using takes_none [where k = k and c = "chan k" and m = m and i = "inodes k"]
    takes_none [where k = k and c = "chan k" and m = "fmem k" and i = i]
    takes_none [where k = k and c = "chan k" and m = "fmem k" and i = "inodes k"] by (simp_all add: fs_ok_def)

lemma read_disk_ok:
  assumes "fs_ok k" "0 < n" "lba + n \<le> Suc MAX_LBA" "n = 1 \<or> prompt (ata_dev (chan k))"
  obtains k' where "read_disk lba dst n k = Some k'" "takes {} k k'" "inodes k' = inodes k"
    "fmem k' = fill (fmem k) dst n (\<lambda>i. dsk k (lba + i))" "dsk k' = dsk k"
proof -
  have ch: "chan_at 0 k (chan k)" using assms(1) by (simp add: fs_ok_def)
  obtain ch' where ch': "ide_read k (drive k) lba dst n (chan k) (fmem k) =
      Some (k, ch', fill (fmem k) dst n (\<lambda>i. dsk k (lba + i)))" "chan_at 0 k ch'"
    "media (ata_dev ch') = media (ata_dev (chan k))"
    using ide_read_ok [OF ch assms(2,3,4)] by blast
  let ?k = "k\<lparr>chan := ch', fmem := fill (fmem k) dst n (\<lambda>i. dsk k (lba + i))\<rparr>"
  have "?k = k\<lparr>fmem := fill (fmem k) dst n (\<lambda>i. dsk k (lba + i)), inodes := inodes k, chan := ch'\<rparr>" by simp
  then have "takes {} k ?k" using takes_none [OF assms(1) ch'(2,3)] by metis
  then show thesis using ch' by (intro that [of ?k]) (simp_all add: read_disk_def sectors_def)
qed

section \<open>Taking a block\<close>

lemma bitmap_sync_ok:
  assumes ok: "layout_ok (sb (cur_part k))" "chan_at 0 k (chan k)" "lock_at 0 k (block_bitmap (cur_part k))"
    and idx: "idx < lim k"
    and rest: "\<And>n. n < lim k \<Longrightarrow> n div 512 \<noteq> idx div 4096 \<Longrightarrow>
      dsk k (block_bitmap_lba (sb (cur_part k)) + n div 512) (n mod 512) = bits (block_bitmap (cur_part k)) n"
  obtains k' where "bitmap_sync idx BLOCK_BITMAP k = Some k'" "chan_at 0 k (chan k')" "bitmap_stored k'"
    "k' = k\<lparr>chan := chan k'\<rparr>" "\<And>l. l \<notin> bitmap_area k \<Longrightarrow> dsk k' l = dsk k l"
proof -
  define s where "s = sb (cur_part k)"
  define b where "b = block_bitmap (cur_part k)"
  define sec where "sec = block_bitmap_lba s + idx div 4096"
  have lim: "lim k = 512 * block_bitmap_sects s" by (simp add: lim_def s_def)
  then have i: "idx div 512 < block_bitmap_sects s" "idx div 4096 < block_bitmap_sects s" using idx by linarith+
  have "sec + 1 \<le> Suc MAX_LBA" using ok(1) i(2) by (simp add: layout_ok_def s_def [symmetric] sec_def)
  from ide_write_ok [OF ok(2) _ this, where d = "drive k" and m = "bits b" and buf = "(idx - idx mod 4096) div 8"]
  obtain c where c: "ide_write k (drive k) sec ((idx - idx mod 4096) div 8) 1 (chan k) (bits b) = Some (k, c)"
    "chan_at 0 k c" "media (ata_dev c) = (media (ata_dev (chan k)))(dev_no (drive k) = 1 :=
      put_sectors (dsk k) sec 1 ((idx - idx mod 4096) div 8) (bits b))" by auto
  let ?k = "k\<lparr>chan := c\<rparr>"
  have l: "b_lock b = mutex_at (current k) 0" "current k \<noteq> NULL" using ok(3) by (simp_all add: lock_at_def b_def)
  have "b\<lparr>b_lock := mutex_at (current k) 0\<rparr> = b" using l(1) by (cases b) simp
  then have part: "(cur_part k)\<lparr>block_bitmap := b\<lparr>b_lock := mutex_at (current k) 0\<rparr>\<rparr> = cur_part k" by (simp add: b_def)
  have "idx div BITS_PER_SECTOR = idx div 4096" "(idx - idx mod BITS_PER_SECTOR) div 8 = (idx - idx mod 4096) div 8"
    by (simp_all add: BITS_PER_SECTOR_def)
  then have "bitmap_sync idx BLOCK_BITMAP k = Some (k\<lparr>chan := c, cur_part := cur_part k\<rparr>)"
    using i(1) c(1) l mutex_acquire_at [OF l(2), of 0] mutex_release_at [of 0 k] part
    by (simp add: bitmap_sync_def SECTOR_SIZE_def bitmap_of_def set_bitmap_def s_def [symmetric] b_def [symmetric] sec_def)
  then have 1: "bitmap_sync idx BLOCK_BITMAP k = Some ?k" by simp
  have d: "sectors (drive k) c = put_sectors (dsk k) sec 1 ((idx - idx mod 4096) div 8) (bits b)"
    using c(3) by (simp add: sectors_def)
  have start: "(idx - idx mod 4096) div 8 = 512 * (idx div 4096)" by (simp add: minus_mod_eq_mult_div)
  have "dsk ?k (block_bitmap_lba s + n div 512) (n mod 512) = bits b n" if "n < lim k" for n
  proof (cases "n div 512 = idx div 4096")
    case True
    moreover have "512 * (n div 512) + n mod 512 = n" by simp
    ultimately show ?thesis by (simp add: d put_sectors_def sec_def start)
  next
    case False
    then show ?thesis using rest [OF that] by (auto simp add: d put_sectors_def sec_def s_def b_def)
  qed
  then have "bitmap_stored ?k" by (simp add: bitmap_stored_def lim_def s_def b_def)
  moreover have "dsk ?k l = dsk k l" if "l \<notin> bitmap_area k" for l
    using that i(2) by (auto simp: d put_sectors_def sec_def bitmap_area_def s_def [symmetric])
  ultimately show thesis using 1 c(2) by (intro that [of ?k]) simp_all
qed

lemma block_alloc_ok:
  assumes ok: "fs_ok k" and free: "free_blocks k \<noteq> {}"
  obtains b k' where "block_bimap_alloc k = Some (b, k')" "takes {b} k k'" "fmem k' = fmem k" "inodes k' = inodes k"
proof -
  define s where "s = sb (cur_part k)"
  define m where "m = block_bitmap (cur_part k)"
  have lim: "lim k = 512 * block_bitmap_sects s" "byte_size m = lim k" "layout_ok s" "lock_at 0 k m" "chan_at 0 k (chan k)"
    using ok by (simp_all add: lim_def s_def m_def fs_ok_def)
  then have sz: "byte_size m < 2 ^ 28" by (simp add: layout_ok_def MAX_LBA_def)
  obtain n where n: "n < lim k" "\<not> bit_at (bits m) n" using free by (auto simp: free_blocks_def block_used_def m_def)
  obtain i where i: "first_clear (bits m) 0 (8 * byte_size m) = Some i"
    using n lim(2) first_clear_None [of "bits m" "8 * byte_size m"] by (cases "first_clear (bits m) 0 (8 * byte_size m)") auto
  have i2: "i < lim k" "\<not> bit_at (bits m) i" using first_clear_SomeD [OF i] n by (metis le_less_trans not_le zero_le)+
  define m1 where "m1 = set_bits m [i] True"
  have scan: "bitmap_scan_set k m = Some (int i, k, m1)"
    using bitmap_scan_set_at [OF lim(4) _ sz] i by (simp add: m1_def)
  define k1 where "k1 = k\<lparr>cur_part := (cur_part k)\<lparr>block_bitmap := m1\<rparr>\<rparr>"
  have k1: "sb (cur_part k1) = s" "block_bitmap (cur_part k1) = m1" "chan k1 = chan k" "current k1 = current k"
    "lim k1 = lim k" "drive k1 = drive k" "bitmap_area k1 = bitmap_area k"
    by (simp_all add: k1_def s_def lim_def bitmap_area_def)
  have lk: "lock_at 0 k1 m1" "chan_at 0 k1 (chan k1)" using lim(4,5) by (simp_all add: k1 m1_def lock_at_def chan_at_def)
  have "dsk k1 (block_bitmap_lba s + n div 512) (n mod 512) = bits m1 n" if "n < lim k" "n div 512 \<noteq> i div 4096" for n
  proof -
    have "i div 8 div 512 = i div 4096" by (simp add: div_mult2_eq [symmetric])
    then have "n \<noteq> i div 8" using that(2) by auto
    then have "bits m1 n = bits m n" by (simp add: m1_def set_bits_def bit_put_def)
    moreover have "bitmap_stored k" using ok by (simp add: fs_ok_def)
    ultimately show ?thesis using that(1) by (simp add: bitmap_stored_def k1 s_def m_def)
  qed
  then obtain k' where k': "bitmap_sync i BLOCK_BITMAP k1 = Some k'" "chan_at 0 k1 (chan k')" "bitmap_stored k'"
    "k' = k1\<lparr>chan := chan k'\<rparr>" "\<And>l. l \<notin> bitmap_area k1 \<Longrightarrow> dsk k' l = dsk k1 l"
    using bitmap_sync_ok [of k1 i] lim(3) lk i2(1) by (auto simp: k1)
  obtain c where c: "k' = k1\<lparr>chan := c\<rparr>" using k'(4) by blast
  have part: "cur_part k' = (cur_part k)\<lparr>block_bitmap := m1\<rparr>" "fmem k' = fmem k" "inodes k' = inodes k" "current k' = current k"
    by (simp_all add: c k1_def)
  have "near k k'" by (simp add: near_def c k1_def)
  moreover have "fs_ok k'"
    using k'(2,3) lim lk by (simp add: fs_ok_def part lim_def m1_def chan_at_def lock_at_def k1 s_def)
  moreover have "used_blocks k' = used_blocks k \<union> {data_start_lba s + i}"
    "free_blocks k' = free_blocks k - {data_start_lba s + i}" "data_start_lba s + i \<in> free_blocks k"
    using i2 by (auto simp: used_blocks_def free_blocks_def block_used_def part lim_def s_def m1_def m_def)
  moreover have "block_bimap_alloc k = Some (data_start_lba s + i, k')"
    using k'(1) scan by (simp add: block_bimap_alloc_def m_def [symmetric] k1_def [symmetric] part s_def)
  ultimately show thesis using k'(5) part(2,3) by (intro that [of "data_start_lba s + i" k']) (simp_all add: takes_def k1)
qed

lemma write_disk_ok:
  assumes "fs_ok k" "0 < n" "lba + n \<le> Suc MAX_LBA" "{lba..<lba + n} \<inter> bitmap_area k = {}"
    "n = 1 \<or> prompt (ata_dev (chan k))"
  obtains k' where "write_disk lba src n k = Some k'" "near k k'" "fs_ok k'" "inodes k' = inodes k" "fmem k' = fmem k"
    "used_blocks k' = used_blocks k" "free_blocks k' = free_blocks k" "dsk k' = put_sectors (dsk k) lba n src (fmem k)"
proof -
  have ch: "chan_at 0 k (chan k)" using assms(1) by (simp add: fs_ok_def)
  obtain c where c: "ide_write k (drive k) lba src n (chan k) (fmem k) = Some (k, c)" "chan_at 0 k c"
    "media (ata_dev c) = (media (ata_dev (chan k)))(dev_no (drive k) = 1 := put_sectors (dsk k) lba n src (fmem k))"
    using ide_write_ok [OF ch assms(2,3,5)] by blast
  let ?k = "k\<lparr>chan := c\<rparr>"
  have d: "sectors (drive k) c = put_sectors (dsk k) lba n src (fmem k)" using c(3) by (simp add: sectors_def)
  have "block_bitmap_lba (sb (cur_part k)) + j div 512 \<notin> {lba..<lba + n}" if "j < lim k" for j
    using assms(4) that by (force simp: bitmap_area_def lim_def)
  then have "bitmap_stored ?k" using assms(1)
    by (auto simp: fs_ok_def bitmap_stored_def lim_def d put_sectors_def)
  then have "fs_ok ?k" using assms(1) c(2) by (simp add: fs_ok_def lim_def chan_at_def lock_at_def)
  moreover have "near k ?k" by (simp add: near_def)
  ultimately show thesis using c(1) d
    by (intro that [of ?k]) (simp_all add: write_disk_def used_blocks_def free_blocks_def block_used_def lim_def)
qed

section \<open>Inodes on disk\<close>

lemma length_words [simp]: "length (concat (map (\<lambda>j. bytes32 (f j)) [0..<n])) = 4 * n"
  by (induction n) auto

lemma nth_words: "j < n \<Longrightarrow> r < 4 \<Longrightarrow> concat (map (\<lambda>j. bytes32 (f j)) [0..<n]) ! (4 * j + r) = bytes32 (f j) ! r"
proof (induction n)
  case (Suc n)
  show ?case
  proof (cases "j < n")
    case True
    then have "4 * j + r < 4 * n" using Suc.prems by simp
    then show ?thesis using Suc.IH [OF True] Suc.prems by (simp add: nth_append)
  next
    case False
    then show ?thesis using Suc.prems by (simp add: nth_append less_Suc_eq)
  qed
qed simp

lemma nth_bytes32: "r < 4 \<Longrightarrow> bytes32 w ! r = ucast (drop_bit (8 * r) w)"
  by (simp add: bytes32_def)

lemma length_dinode [simp]: "length (dinode_bytes i) = 64"
  by (simp add: dinode_bytes_def bytes16_def)

lemma dinode_nth:
  "r < 4 \<Longrightarrow> dinode_bytes i ! (4 + r) = bytes32 (i_size i) ! r"
  "r < 4 \<Longrightarrow> dinode_bytes i ! (8 + r) = bytes32 (i_flags i) ! r"
  "j < 13 \<Longrightarrow> r < 4 \<Longrightarrow> dinode_bytes i ! (12 + (4 * j + r)) = bytes32 (i_sectors i j) ! r"
  using nth_words [of j 13 r "i_sectors i"] by (auto simp: dinode_bytes_def bytes16_def nth_append nth_Cons')

lemma dinode_mode: "dinode_bytes i ! 2 = ucast (i_mode i)" "dinode_bytes i ! 3 = ucast (drop_bit 8 (i_mode i))"
  by (simp_all add: dinode_bytes_def bytes16_def)

lemma half_of_bytes: "m a = ucast w \<Longrightarrow> m (a + 1) = ucast (drop_bit 8 w) \<Longrightarrow> half_at m a = w"
  by (rule bit_word_eqI) (auto simp: half_at_def bit_simps)

lemma load_dinode:
  assumes "\<And>j. 2 \<le> j \<Longrightarrow> j < 64 \<Longrightarrow> m (a + j) = dinode_bytes i ! j"
  shows "load_inode m a n = \<lparr>i_no = n, i_flags = i_flags i, i_size = i_size i, i_count = \<lparr>counter = 1\<rparr>,
    i_rwlock = rwlock_init, i_mode = i_mode i, i_sectors = (\<lambda>j. if j < 13 then i_sectors i j else 0)\<rparr>"
proof -
  have "word32_at m (a + 4) = i_size i" "word32_at m (a + 8) = i_flags i"
    using assms [of "4 + _"] assms [of "8 + _"]
    by (auto intro!: word32_of_bytes simp: dinode_nth nth_bytes32 add.assoc)
  moreover have "(if j < 13 then word32_at m (a + 12 + 4 * j) else 0) = (if j < 13 then i_sectors i j else 0)" for j
    using assms [of "12 + 4 * j + _"]
    by (auto intro!: word32_of_bytes simp: dinode_nth nth_bytes32 add.assoc)
  moreover have "half_at m (a + 2) = i_mode i"
  proof (rule half_of_bytes)
    show "m (a + 2) = ucast (i_mode i)" using assms [of 2] by (simp add: dinode_mode)
    have "a + 2 + 1 = a + 3" by simp
    then show "m (a + 2 + 1) = ucast (drop_bit 8 (i_mode i))" using assms [of 3] by (simp only: dinode_mode)
  qed
  ultimately show ?thesis by (simp add: load_inode_def atomic_set_def)
qed

definition inode_sec :: "'a fsys_scheme \<Rightarrow> nat \<Rightarrow> nat" where
  "inode_sec k n = inode_table_lba (sb (cur_part k)) + n div 8"

definition inode_off :: "nat \<Rightarrow> nat" where
  "inode_off n = 64 * (n mod 8)"

lemma inode_pos_eq: "get_inode_pos n (cur_part k) = \<lparr>two_sec = False, sec_no = inode_sec k n, offset = inode_off n\<rparr>"
proof -
  have "n * 64 mod 512 = inode_off n" "n * 64 div 512 = n div 8"
    using mod_mult_mult1 [of 64 n 8] div_mult_mult1 [of 64 n 8] by (simp_all add: inode_off_def mult.commute)
  moreover have "64 * (n mod 8) \<le> 448" by simp
  ultimately show ?thesis by (simp add: get_inode_pos_def SECTOR_SIZE_def inode_sec_def inode_off_def Let_def not_less)
qed

text \<open>Whether the disk has what memory has of an inode, but for the padding.\<close>

definition stored :: "'a fsys_scheme \<Rightarrow> nat \<Rightarrow> bool" where
  "stored k i \<longleftrightarrow> (\<forall>j. 2 \<le> j \<longrightarrow> j < 64 \<longrightarrow>
     dsk k (inode_sec k (i_no (inodes k i))) (inode_off (i_no (inodes k i)) + j) = dinode_bytes (inodes k i) ! j)"

lemma inode_sec_area:
  assumes "fs_ok k" "n < 4096"
  shows "inode_sec k n + 1 \<le> Suc MAX_LBA" "inode_sec k n \<notin> bitmap_area k" "inode_sec k n < inode_table_lba (sb (cur_part k)) + 512"
    "inode_sec k n \<notin> used_blocks k \<union> free_blocks k"
proof -
  have "n div 8 < 512" using assms(2) by linarith
  moreover have "layout_ok (sb (cur_part k))" using assms(1) by (simp add: fs_ok_def)
  ultimately show 1: "inode_sec k n + 1 \<le> Suc MAX_LBA" "inode_sec k n \<notin> bitmap_area k"
    and 2: "inode_sec k n < inode_table_lba (sb (cur_part k)) + 512"
    by (auto simp: layout_ok_def inode_sec_def bitmap_area_def)
  show "inode_sec k n \<notin> used_blocks k \<union> free_blocks k"
    using used_blocks_range(4) [OF assms(1)] 2 leD by blast
qed

lemma inode_sync_ok:
  assumes ok: "fs_ok k" and n: "i_no (inodes k i) < 4096"
  obtains k' where "inode_sync i io k = Some k'" "near k k'" "fs_ok k'" "inodes k' = inodes k" "stored k' i"
    "used_blocks k' = used_blocks k" "free_blocks k' = free_blocks k"
    "\<And>a. a < io \<or> io + 512 \<le> a \<Longrightarrow> fmem k' a = fmem k a"
    "\<And>l b. l \<noteq> inode_sec k (i_no (inodes k i)) \<or> b < inode_off (i_no (inodes k i)) \<or>
      inode_off (i_no (inodes k i)) + 64 \<le> b \<Longrightarrow> b < 512 \<Longrightarrow> dsk k' l b = dsk k l b"
    "\<And>l. l \<noteq> inode_sec k (i_no (inodes k i)) \<Longrightarrow> dsk k' l = dsk k l"
proof -
  define n where "n = i_no (inodes k i)"
  define sec where "sec = inode_sec k n"
  define off where "off = inode_off n"
  note area = inode_sec_area [OF ok n, folded n_def, folded sec_def]
  have off: "off + 64 \<le> 512" by (simp add: off_def inode_off_def)
  obtain k1 where k1: "read_disk sec io 1 k = Some k1" "takes {} k k1" "inodes k1 = inodes k"
    "fmem k1 = fill (fmem k) io 1 (\<lambda>i. dsk k (sec + i))" "dsk k1 = dsk k"
    using read_disk_ok [OF ok zero_less_one area(1) disjI1 [OF refl]] by metis
  note t1 = takesD [OF k1(2)] and n1 = nearD [OF takesD(1) [OF k1(2)]]
  define m where "m = writes (fmem k1) (io + off) (dinode_bytes (inodes k1 i))"
  define k2 where "k2 = k1\<lparr>fmem := m\<rparr>"
  have t2: "takes {} k k2" using takes_trans [OF k1(2) takes_mem(1) [OF t1(2)]] by (simp add: k2_def)
  note n2 = nearD [OF takesD(1) [OF t2]]
  have f2: "fmem k2 = m" "inodes k2 = inodes k" "dsk k2 = dsk k" using k1(3,5) by (simp_all add: k2_def)
  have ok2: "fs_ok k2" using takesD(2) [OF t2] .
  have a2: "{sec..<sec + 1} \<inter> bitmap_area k2 = {}" using area(2) by (simp add: n2)
  obtain k' where k': "write_disk sec io 1 k2 = Some k'" "near k2 k'" "fs_ok k'" "inodes k' = inodes k2" "fmem k' = fmem k2"
    "used_blocks k' = used_blocks k2" "free_blocks k' = free_blocks k2" "dsk k' = put_sectors (dsk k2) sec 1 io (fmem k2)"
    using write_disk_ok [OF ok2 zero_less_one area(1) a2 disjI1 [OF refl]] by metis
  have d: "dsk k' l b = (if l = sec then m (io + b) else dsk k l b)" if "b < 512" for l b
    using that by (auto simp: k'(8) put_sectors_def f2)
  have m: "m (io + b) = (if off \<le> b \<and> b < off + 64 then dinode_bytes (inodes k i) ! (b - off) else dsk k sec b)" if "b < 512" for b
    using that by (simp add: m_def writes_def k1(3,4) fill_def)
  have "inode_sync i io k = Some k'"
    using k1(1) k'(1) by (simp add: inode_sync_def inode_pos_eq n_def [symmetric] sec_def off_def m_def k2_def)
  moreover have "near k k'" using near_trans [OF takesD(1) [OF t2] k'(2)] .
  moreover have "inode_sec k' n = sec" using nearD(2) [OF \<open>near k k'\<close>] by (simp add: inode_sec_def sec_def)
  then have "stored k' i"
    using off by (simp add: stored_def k'(4) f2 n_def [symmetric] off_def [symmetric] d m)
  moreover have "m a = fmem k a" if "a < io \<or> io + 512 \<le> a" for a
  proof -
    have "a < io + off \<or> io + off + 64 \<le> a" using that off by linarith
    then show ?thesis using that by (auto simp: m_def writes_outside k1(4) fill_def)
  qed
  moreover have "dsk k' l b = dsk k l b" if "l \<noteq> sec \<or> b < off \<or> off + 64 \<le> b" "b < 512" for l b
    using that by (auto simp: d m)
  moreover have "dsk k' l = dsk k l" if "l \<noteq> sec" for l using that by (intro ext) (auto simp: k'(8) put_sectors_def f2)
  ultimately show thesis using k'(3-7) takesD(4,5) [OF t2] f2
    by (intro that [of k']) (simp_all add: n_def [symmetric] sec_def [symmetric] off_def [symmetric])
qed

end
