(* ===== verification/Sched.thy ===== *)
theory Sched
  imports Threads
begin

text \<open>
  What the scheduler promises. \<open>sched_inv T\<close> is the invariant of the threads in \<open>T\<close>; an event is what the
  running thread or the clock does to it: an interrupt of the clock, \<open>thread_yield\<close>, \<open>thread_block\<close>, or the
  wake-up of a blocked thread. Every sequence of events runs without a panic, keeps the invariant and
  dispatches the waiting threads in the order of the queue; the clock alone brings each of them to run
  within a bounded number of ticks.
\<close>

section \<open>One call of schedule\<close>

definition activatable :: "'a tsys_scheme \<Rightarrow> tid \<Rightarrow> bool" where
  "activatable k t \<longleftrightarrow> t_mm (task k t) = 0 \<or>
     get_paddr (mmu_state k) (of_nat (pg_dir (mms k (t_mm (task k t))))) \<noteq> None"

definition requeue :: "'a tsys_scheme \<Rightarrow> tid list" where
  "requeue k = ready_list k @ (if tstate k (current k) = RUNNING then [current k] else [])"

definition chosen :: "'a tsys_scheme \<Rightarrow> tid" where
  "chosen k = (if requeue k = [] then idle k else hd (requeue k))"

definition dir_of :: "'a tsys_scheme \<Rightarrow> tid \<Rightarrow> u32" where
  "dir_of k t = (if t_mm (task k t) = 0 then 0x100000
     else the (get_paddr (mmu_state k) (of_nat (pg_dir (mms k (t_mm (task k t)))))))"

text \<open>The state after a call of \<open>schedule\<close> that does not panic.\<close>

definition switched :: "'a tsys_scheme \<Rightarrow> 'a tsys_scheme" where
  "switched k =
     k\<lparr>current := chosen k, ready_list := tl (requeue k),
       tstate := (if tstate k (current k) = RUNNING then (tstate k)(current k := READY) else tstate k)
         (chosen k := RUNNING),
       task := (if tstate k (current k) = RUNNING
         then (task k)(current k := (task k (current k))\<lparr>ticks := prio (task k (current k))\<rparr>) else task k),
       mmu_state := (mmu_state k)\<lparr>cr3 := dir_of k (chosen k)\<rparr>,
       tss_st := (if t_mm (task k (chosen k)) = 0 then tss_st k else update_esp0 (chosen k) (tss_st k))\<rparr>"

lemma page_dir_activate_eq:
  assumes "activatable k t"
  shows "page_dir_activate t k = Some (k\<lparr>mmu_state := (mmu_state k)\<lparr>cr3 := dir_of k t\<rparr>\<rparr>)"
proof (cases "t_mm (task k t) = 0")
  case False
  then have "get_paddr (mmu_state k) (of_nat (pg_dir (mms k (t_mm (task k t))))) = Some (dir_of k t)"
    using assms by (simp add: activatable_def dir_of_def)
  then show ?thesis using False by (simp add: page_dir_activate_def)
qed (simp add: page_dir_activate_def dir_of_def)

lemma process_activate_eq:
  assumes "t \<noteq> NULL" "activatable k t"
  shows "process_activate t k = Some (k\<lparr>mmu_state := (mmu_state k)\<lparr>cr3 := dir_of k t\<rparr>,
    tss_st := if t_mm (task k t) = 0 then tss_st k else update_esp0 t (tss_st k)\<rparr>)"
  using assms(1) by (simp add: process_activate_def page_dir_activate_eq [OF assms(2)])

definition enqueued :: "'a tsys_scheme \<Rightarrow> 'a tsys_scheme" where
  "enqueued k = (if tstate k (current k) = RUNNING then expire k else k)"

lemma enqueued_fields [simp]:
  "current (enqueued k) = current k" "idle (enqueued k) = idle k"
  "ready_list (enqueued k) = requeue k"
  "t_mm (task (enqueued k) t) = t_mm (task k t)" "mms (enqueued k) = mms k" "mmu_state (enqueued k) = mmu_state k"
  by (simp_all add: enqueued_def expire_def set_task_def set_state_def push_ready_def requeue_def Let_def)

lemma schedule_switched:
  assumes "intr_get_status k = INTR_OFF" "tstate k (current k) \<noteq> EXIT"
    and "chosen k \<noteq> NULL" "activatable k (chosen k)"
  shows "schedule k = Some (switched k)"
proof -
  define q where "q = snd (pick_next (enqueued k))"
  have pick: "pick_next (enqueued k) = (chosen k, q)"
    by (simp add: q_def pick_next_def chosen_def)
  have q: "q = (enqueued k)\<lparr>ready_list := tl (requeue k)\<rparr>"
    by (cases "requeue k") (simp_all add: q_def pick_next_def flip: enqueued_fields(3))
  define r where "r = set_state (chosen k) RUNNING q"
  have r: "activatable r (chosen k)" "dir_of r (chosen k) = dir_of k (chosen k)"
    using assms(4) by (simp_all add: r_def q set_state_def activatable_def dir_of_def)
  have "schedule k = Some (switch_to (current k) (chosen k) (r\<lparr>mmu_state := (mmu_state r)\<lparr>cr3 := dir_of k (chosen k)\<rparr>,
      tss_st := if t_mm (task r (chosen k)) = 0 then tss_st r else update_esp0 (chosen k) (tss_st r)\<rparr>))"
    using assms(1,2,3) process_activate_eq [OF assms(3) r(1), unfolded r(2)] pick
    by (simp add: schedule_def r_def enqueued_def split: if_splits)
  also have "\<dots> = Some (switched k)"
    by (simp add: switch_to_def r_def q set_state_def switched_def enqueued_def expire_def set_task_def
      push_ready_def Let_def)
  finally show ?thesis .
qed

text \<open>The rest of \<open>schedule\<close> once the running thread is out of the way.\<close>

lemma dispatch:
  assumes "tstate k (current k) \<noteq> RUNNING" "chosen k \<noteq> NULL" "activatable k (chosen k)"
  shows "do { let (next, s) = pick_next k; ASSERT (next \<noteq> NULL); s \<leftarrow> process_activate next (set_state next RUNNING s);
    Some (switch_to (current k) next s) } = Some (switched k)"
proof -
  have rq: "requeue k = ready_list k" using assms(1) by (simp add: requeue_def)
  define q where "q = k\<lparr>ready_list := tl (ready_list k)\<rparr>"
  have pick: "pick_next k = (chosen k, q)"
    by (cases "ready_list k") (simp_all add: pick_next_def chosen_def rq q_def flip: rq)
  define r where "r = set_state (chosen k) RUNNING q"
  have r: "activatable r (chosen k)" "dir_of r (chosen k) = dir_of k (chosen k)"
    using assms(3) by (simp_all add: r_def q_def set_state_def activatable_def dir_of_def)
  have "process_activate (chosen k) r = Some (r\<lparr>mmu_state := (mmu_state r)\<lparr>cr3 := dir_of k (chosen k)\<rparr>,
      tss_st := if t_mm (task r (chosen k)) = 0 then tss_st r else update_esp0 (chosen k) (tss_st r)\<rparr>)"
    using process_activate_eq [OF assms(2) r(1)] r(2) by simp
  moreover have "switch_to (current k) (chosen k) (r\<lparr>mmu_state := (mmu_state r)\<lparr>cr3 := dir_of k (chosen k)\<rparr>,
      tss_st := if t_mm (task r (chosen k)) = 0 then tss_st r else update_esp0 (chosen k) (tss_st r)\<rparr>) = switched k"
    using assms(1) by (simp add: switch_to_def r_def q_def set_state_def switched_def rq)
  ultimately show ?thesis using assms(2) by (simp add: pick r_def)
qed

lemma switched_fields [simp]:
  "current (switched k) = chosen k"
  "ready_list (switched k) = tl (requeue k)"
  "eflags (switched k) = eflags k"
  "idle (switched k) = idle k"
  "resume (switched k) = resume k"
  "mms (switched k) = mms k"
  "mmu_state (switched k) = (mmu_state k)\<lparr>cr3 := dir_of k (chosen k)\<rparr>"
  "t_mm (task (switched k) t) = t_mm (task k t)"
  "prio (task (switched k) t) = prio (task k t)"
  "stack_magic (task (switched k) t) = stack_magic (task k t)"
  "sys_ticks (switched k) = sys_ticks k"
  by (simp_all add: switched_def)

section \<open>The invariant\<close>

text \<open>
  Every address space of a thread can be loaded from every other: \<open>C\<close> are the physical addresses of the
  directories, the kernel's at 1 MB among them, and each maps all of them.
\<close>

definition dirs_ok :: "tid set \<Rightarrow> 'a tsys_scheme \<Rightarrow> bool" where
  "dirs_ok T k \<longleftrightarrow> (\<exists>C. 0x100000 \<in> C \<and> cr3 (mmu_state k) \<in> C \<and>
     (\<forall>c \<in> C. \<forall>t \<in> T. t_mm (task k t) \<noteq> 0 \<longrightarrow>
       (\<exists>p \<in> C. get_paddr ((mmu_state k)\<lparr>cr3 := c\<rparr>) (of_nat (pg_dir (mms k (t_mm (task k t))))) = Some p)))"

definition threads_ok :: "tid set \<Rightarrow> 'a tsys_scheme \<Rightarrow> bool" where
  "threads_ok T k \<longleftrightarrow> NULL \<notin> T \<and> idle k \<in> T \<and> current k \<in> T \<and>
     (\<forall>t \<in> T. tstate k t \<noteq> EXIT \<and> stack_magic (task k t) = STACK_MAGIC) \<and> dirs_ok T k"

lemma dirs_activatable:
  assumes "dirs_ok T k" "t \<in> T" shows "activatable k t"
proof -
  have "(mmu_state k)\<lparr>cr3 := cr3 (mmu_state k)\<rparr> = mmu_state k" by (cases "mmu_state k") simp
  then show ?thesis using assms by (fastforce simp: dirs_ok_def activatable_def)
qed

lemma dirs_ok_mono: "dirs_ok T k \<Longrightarrow> S \<subseteq> T \<Longrightarrow> dirs_ok S k"
  unfolding dirs_ok_def by (meson subsetD)

lemma dirs_ok_cong:
  assumes "\<And>t. t \<in> T \<Longrightarrow> t_mm (task k' t) = t_mm (task k t)" "mms k' = mms k" "mmu_state k' = mmu_state k"
  shows "dirs_ok T k' = dirs_ok T k"
  using assms by (simp add: dirs_ok_def)

lemma threads_ok_cong:
  assumes "threads_ok T k" "idle k' = idle k" "current k' = current k" "mms k' = mms k" "mmu_state k' = mmu_state k"
    and "\<And>t. tstate k' t = EXIT \<Longrightarrow> tstate k t = EXIT" "\<And>t. stack_magic (task k' t) = stack_magic (task k t)"
    and "\<And>t. t_mm (task k' t) = t_mm (task k t)"
  shows "threads_ok T k'"
  using assms dirs_ok_cong [of T k' k] by (auto simp: threads_ok_def)

lemma dirs_ok_switched:
  assumes "dirs_ok T k" "chosen k \<in> T" shows "dirs_ok T (switched k)"
proof -
  obtain C where C: "0x100000 \<in> C" "cr3 (mmu_state k) \<in> C" "\<And>c t. c \<in> C \<Longrightarrow> t \<in> T \<Longrightarrow> t_mm (task k t) \<noteq> 0 \<Longrightarrow>
      \<exists>p \<in> C. get_paddr ((mmu_state k)\<lparr>cr3 := c\<rparr>) (of_nat (pg_dir (mms k (t_mm (task k t))))) = Some p"
    using assms(1) unfolding dirs_ok_def by blast
  have "(mmu_state k)\<lparr>cr3 := cr3 (mmu_state k)\<rparr> = mmu_state k" by (cases "mmu_state k") simp
  then have "dir_of k (chosen k) \<in> C"
    using C(1) C(3) [OF C(2) assms(2)] by (auto simp: dir_of_def)
  then show ?thesis using C(1,3) unfolding dirs_ok_def by (intro exI [of _ C]) simp
qed

definition sched_inv :: "tid set \<Rightarrow> 'a tsys_scheme \<Rightarrow> bool" where
  "sched_inv T k \<longleftrightarrow> threads_ok T k \<and>
     tstate k (current k) = RUNNING \<and> (\<forall>t \<in> T. t \<noteq> current k \<longrightarrow> tstate k t \<noteq> RUNNING) \<and>
     distinct (ready_list k) \<and> set (ready_list k) = {t \<in> T. tstate k t = READY}"

text \<open>What holds when \<open>schedule\<close> is entered: the running thread may have left the processor by its state.\<close>

definition at_schedule :: "tid set \<Rightarrow> 'a tsys_scheme \<Rightarrow> bool" where
  "at_schedule T k \<longleftrightarrow> threads_ok T k \<and>
     (\<forall>t \<in> T. t \<noteq> current k \<longrightarrow> tstate k t \<noteq> RUNNING) \<and>
     distinct (requeue k) \<and> set (requeue k) = {t \<in> T. tstate k t \<in> {READY, RUNNING}}"

lemma sched_inv_at_schedule: "sched_inv T k \<Longrightarrow> at_schedule T k"
  by (auto simp: sched_inv_def at_schedule_def threads_ok_def requeue_def)

lemma chosen_mem: "at_schedule T k \<Longrightarrow> chosen k \<in> T"
  by (cases "requeue k") (auto simp: at_schedule_def threads_ok_def chosen_def)

lemma threads_ok_switched:
  assumes "threads_ok T k" "chosen k \<in> T"
  shows "threads_ok T (switched k)"
proof -
  have "dirs_ok T (switched k)" using assms dirs_ok_switched by (auto simp: threads_ok_def)
  moreover have "tstate (switched k) t \<noteq> EXIT" if "t \<in> T" for t
    using assms(1) that by (simp add: threads_ok_def switched_def)
  ultimately show ?thesis using assms by (simp add: threads_ok_def)
qed

lemma sched_inv_switched:
  assumes "at_schedule T k" shows "sched_inv T (switched k)"
proof -
  define c where "c = chosen k"
  define st where "st = (if tstate k (current k) = RUNNING then (tstate k)(current k := READY) else tstate k)"
  note a = assms [unfolded at_schedule_def]
  have c: "c \<in> T" "requeue k \<noteq> [] \<Longrightarrow> c = hd (requeue k)"
    using chosen_mem [OF assms] by (auto simp: c_def chosen_def)
  have st: "tstate (switched k) = st(c := RUNNING)" by (simp add: switched_def st_def c_def)
  have none: "\<forall>t \<in> T. st t \<noteq> RUNNING" and q: "set (requeue k) = {t \<in> T. st t = READY}"
    using a by (auto simp: st_def)
  have "set (tl (requeue k)) = {t \<in> T. (st(c := RUNNING)) t = READY}"
  proof (cases "requeue k")
    case Nil
    then show ?thesis using q by auto
  next
    case (Cons x xs)
    then have "x \<notin> set xs" "c = x" using a c by auto
    then show ?thesis using q Cons by auto
  qed
  moreover have "distinct (tl (requeue k))" using a by (simp add: distinct_tl)
  moreover have "threads_ok T (switched k)"
    by (rule threads_ok_switched) (use a c in \<open>simp_all add: c_def\<close>)
  ultimately show ?thesis
    using none by (auto simp: sched_inv_def st c_def [symmetric])
qed

lemma schedule_ok:
  assumes "at_schedule T k" "intr_get_status k = INTR_OFF"
  shows "schedule k = Some (switched k)"
  using assms chosen_mem [OF assms(1)]
  by (intro schedule_switched) (auto simp: at_schedule_def threads_ok_def dirs_activatable)

section \<open>Events\<close>

text \<open>
  What happens to the scheduler. \<open>thread_unblock\<close> is called for threads that a waiter list holds, which are blocked; it
  does not test that itself. Here a \<open>Wake\<close> of a thread that is not blocked is skipped, so the runs below are those in which
  the callers keep to this.
\<close>

datatype sched_event = Tick | Yield | Block | Wake tid

definition do_event :: "sched_event \<Rightarrow> 'a tsys_scheme \<Rightarrow> 'a tsys_scheme option" where
  "do_event e k = (case e of
       Tick \<Rightarrow> clock_interrupt k
     | Yield \<Rightarrow> thread_yield k
     | Block \<Rightarrow> thread_block k
     | Wake t \<Rightarrow> Some (if tstate k t = BLOCKED then thread_unblock t k else k))"

text \<open>\<open>log\<close> lists the threads that \<open>switch_to\<close> went to.\<close>

definition switches :: "sched_event \<Rightarrow> 'a tsys_scheme \<Rightarrow> bool" where
  "switches e k = (case e of
       Tick \<Rightarrow> intr_get_status k = INTR_ON \<and> ticks (task k (current k)) = 0
     | Wake t \<Rightarrow> False
     | _ \<Rightarrow> True)"

fun run_sched :: "sched_event list \<Rightarrow> 'a tsys_scheme \<Rightarrow> ('a tsys_scheme \<times> tid list) option" where
  "run_sched [] k = Some (k, [])"
| "run_sched (e # es) k = do {
     k' \<leftarrow> do_event e k;
     (r, log) \<leftarrow> run_sched es k';
     Some (r, if switches e k then current k' # log else log) }"

text \<open>The state in which the event enters \<open>schedule\<close>.\<close>

definition before_schedule :: "sched_event \<Rightarrow> 'a tsys_scheme \<Rightarrow> 'a tsys_scheme" where
  "before_schedule e k = (case e of
       Tick \<Rightarrow> (let k = set_resume INTR_ON (cli k);
                   cur = current k;
                   k = set_task cur ((task k cur)\<lparr>elapsed_ticks := elapsed_ticks (task k cur) + 1\<rparr>) k
               in k\<lparr>sys_ticks := sys_ticks k + 1\<rparr>)
     | Yield \<Rightarrow> (let k = set_state (current k) READY (snd (intr_disable k)); k = push_ready (current k) k
                in set_resume INTR_ON k)
     | _ \<Rightarrow> set_resume (intr_get_status k) (set_state (current k) BLOCKED (snd (intr_disable k))))"

lemmas event_defs = set_resume_def set_task_def set_state_def push_ready_def intr_disable_eq cli_def Let_def

lemma before_schedule_off:
  "intr_get_status k = INTR_ON \<or> e \<noteq> Tick \<Longrightarrow> intr_get_status (before_schedule e k) = INTR_OFF"
  by (cases e) (simp_all add: before_schedule_def event_defs intr_get_status_bit set_if_def bits_at)

lemma threads_ok_before:
  "threads_ok T k \<Longrightarrow> threads_ok T (before_schedule e k)"
  by (erule threads_ok_cong; cases e; simp add: before_schedule_def event_defs split: if_splits)

lemma before_fields:
  "current (before_schedule e k) = current k"
  "idle (before_schedule e k) = idle k"
  "tstate (before_schedule e k) = (case e of Tick \<Rightarrow> tstate k
     | Yield \<Rightarrow> (tstate k)(current k := READY) | _ \<Rightarrow> (tstate k)(current k := BLOCKED))"
  "ready_list (before_schedule e k) = (case e of Yield \<Rightarrow> ready_list k @ [current k] | _ \<Rightarrow> ready_list k)"
  by (cases e; simp add: before_schedule_def event_defs)+

lemma requeue_before:
  assumes "sched_inv T k"
  shows "requeue (before_schedule e k) = ready_list k @
    (case e of Block \<Rightarrow> [] | Wake t \<Rightarrow> [] | _ \<Rightarrow> [current k])"
  using assms by (cases e) (simp_all add: requeue_def sched_inv_def before_fields)

lemma before_schedule_ok:
  assumes "sched_inv T k" "\<forall>t. e \<noteq> Wake t"
  shows "at_schedule T (before_schedule e k)"
proof -
  have "threads_ok T (before_schedule e k)" and c: "current k \<in> T"
    using assms(1) threads_ok_before [of T k e] by (auto simp: sched_inv_def threads_ok_def)
  moreover have "set (ready_list k) = {t \<in> T. tstate k t = READY}" "distinct (ready_list k)"
    "tstate k (current k) = RUNNING" "\<forall>t \<in> T. t \<noteq> current k \<longrightarrow> tstate k t \<noteq> RUNNING"
    using assms(1) by (simp_all add: sched_inv_def)
  ultimately show ?thesis
    unfolding at_schedule_def requeue_before [OF assms(1)]
    using assms(2) c by (cases e) (auto simp: before_fields)
qed

lemma do_event_switch:
  assumes "sched_inv T k" "switches e k"
  shows "do_event e k = Some (continue (switched (before_schedule e k)))"
proof -
  have w: "\<forall>t. e \<noteq> Wake t" and on: "intr_get_status k = INTR_ON \<or> e \<noteq> Tick"
    using assms(2) by (auto simp: switches_def)
  have "schedule (before_schedule e k) = Some (switched (before_schedule e k))"
    by (rule schedule_ok [OF before_schedule_ok [OF assms(1) w] before_schedule_off [OF on]])
  moreover have "stack_magic (task k (current k)) = STACK_MAGIC"
    using assms(1) by (simp add: sched_inv_def threads_ok_def)
  ultimately show ?thesis
    using assms(2) w
    by (cases e)
      (simp_all add: do_event_def switches_def clock_interrupt_def intr_timer_handler_def thread_yield_def
        thread_block_def before_schedule_def event_defs)
qed

lemma sched_inv_flag:
  "sched_inv T (k\<lparr>eflags := f\<rparr>) = sched_inv T k"
  by (simp add: sched_inv_def threads_ok_def dirs_ok_def)

text \<open>The clock in the middle of a time slice only counts.\<close>

lemma tick_counts:
  assumes "intr_get_status k = INTR_ON" "ticks (task k (current k)) \<noteq> 0"
    and "stack_magic (task k (current k)) = STACK_MAGIC"
  shows "do_event Tick k = Some (k\<lparr>resume := (resume k)(current k := INTR_ON), sys_ticks := sys_ticks k + 1,
     task := (task k)(current k := (task k (current k))\<lparr>
       elapsed_ticks := elapsed_ticks (task k (current k)) + 1, ticks := ticks (task k (current k)) - 1\<rparr>)\<rparr>)"
proof -
  have "set_if INTR_ON (eflags k AND NOT EFLAGS_IF) = eflags k"
    using set_if_restore [of k] assms(1) by (simp add: set_if_def)
  then show ?thesis
    using assms
    by (simp add: do_event_def clock_interrupt_def intr_timer_handler_def continue_def intr_set_status_eq
      event_defs)
qed

lemma do_event_stay:
  assumes "sched_inv T k" "\<not> switches e k" "\<forall>t. e = Wake t \<longrightarrow> t \<in> T"
  shows "\<exists>k'. do_event e k = Some k' \<and> sched_inv T k' \<and> current k' = current k \<and>
    (\<exists>ts. ready_list k' = ready_list k @ ts)"
proof (cases e)
  case Tick
  have magic: "stack_magic (task k (current k)) = STACK_MAGIC"
    using assms(1) by (simp add: sched_inv_def threads_ok_def)
  show ?thesis
  proof (cases "intr_get_status k")
    case INTR_OFF
    then show ?thesis using Tick assms(1) by (simp add: do_event_def clock_interrupt_def)
  next
    case INTR_ON
    then have "ticks (task k (current k)) \<noteq> 0" using assms(2) Tick by (simp add: switches_def)
    note eq = tick_counts [OF INTR_ON this magic]
    have "threads_ok T (the (do_event Tick k))"
      by (rule threads_ok_cong [of T k]) (use assms(1) in \<open>simp_all add: eq sched_inv_def\<close>)
    then show ?thesis using Tick assms(1) by (simp add: eq sched_inv_def)
  qed
next
  case (Wake t)
  show ?thesis
  proof (cases "tstate k t = BLOCKED")
    case True
    have t: "t \<in> T" using assms(3) Wake by simp
    have eq: "do_event e k = Some (k\<lparr>tstate := (tstate k)(t := READY), ready_list := ready_list k @ [t]\<rparr>)"
      using True Wake by (simp add: do_event_def thread_unblock_eq)
    have "threads_ok T (k\<lparr>tstate := (tstate k)(t := READY), ready_list := ready_list k @ [t]\<rparr>)"
      using assms(1) by (auto simp: sched_inv_def threads_ok_def dirs_ok_def)
    then show ?thesis
      using assms(1) t True by (auto simp: eq sched_inv_def)
  next
    case False
    then show ?thesis using Wake assms(1) by (simp add: do_event_def)
  qed
qed (use assms(2) in \<open>simp_all add: switches_def\<close>)

lemma continue_eq: "continue k = k\<lparr>eflags := set_if (resume k (current k)) (eflags k)\<rparr>"
  by (simp add: continue_def intr_set_status_eq)

lemma do_event_switched:
  assumes "sched_inv T k" "switches e k"
  shows "\<exists>k'. do_event e k = Some k' \<and> sched_inv T k' \<and>
    current k' = chosen (before_schedule e k) \<and> ready_list k' = tl (requeue (before_schedule e k))"
proof -
  have "\<forall>t. e \<noteq> Wake t" using assms(2) by (auto simp: switches_def)
  from sched_inv_switched [OF before_schedule_ok [OF assms(1) this]] do_event_switch [OF assms]
  show ?thesis by (simp add: continue_eq sched_inv_flag)
qed

lemma do_event_ok:
  assumes "sched_inv T k" "\<forall>t. e = Wake t \<longrightarrow> t \<in> T"
  obtains k' where "do_event e k = Some k'" "sched_inv T k'"
    "if switches e k then ready_list k \<noteq> [] \<longrightarrow> (\<exists>ts. current k' # ready_list k' = ready_list k @ ts)
     else current k' = current k \<and> (\<exists>ts. ready_list k' = ready_list k @ ts)"
proof (cases "switches e k")
  case True
  from do_event_switched [OF assms(1) True] obtain k' where k': "do_event e k = Some k'" "sched_inv T k'"
    "current k' = chosen (before_schedule e k)" "ready_list k' = tl (requeue (before_schedule e k))" by blast
  have "\<exists>ts. current k' # ready_list k' = ready_list k @ ts" if "ready_list k \<noteq> []"
    using that k'(3,4) by (cases "ready_list k") (auto simp: chosen_def requeue_before [OF assms(1)])
  then show ?thesis using that k' True by simp
next
  case False
  from do_event_stay [OF assms(1) False assms(2)] that False show ?thesis by auto
qed

lemma run_sched_ok:
  "sched_inv T k \<Longrightarrow> \<forall>t. Wake t \<in> set es \<longrightarrow> t \<in> T \<Longrightarrow>
   \<exists>k' log. run_sched es k = Some (k', log) \<and> sched_inv T k' \<and>
     (\<forall>i < length log. i < length (ready_list k) \<longrightarrow> log ! i = ready_list k ! i)"
proof (induction es arbitrary: k)
  case (Cons e es)
  have e: "\<forall>t. e = Wake t \<longrightarrow> t \<in> T" using Cons.prems(2) by auto
  obtain k1 where k1: "do_event e k = Some k1" "sched_inv T k1" and
    q: "if switches e k then ready_list k \<noteq> [] \<longrightarrow> (\<exists>ts. current k1 # ready_list k1 = ready_list k @ ts)
     else current k1 = current k \<and> (\<exists>ts. ready_list k1 = ready_list k @ ts)"
    using do_event_ok [OF Cons.prems(1) e] by metis
  obtain k' log where r: "run_sched es k1 = Some (k', log)" "sched_inv T k'"
    "\<forall>i < length log. i < length (ready_list k1) \<longrightarrow> log ! i = ready_list k1 ! i"
    using Cons.IH [OF k1(2)] Cons.prems(2) by auto
  show ?case
  proof (cases "switches e k \<and> ready_list k \<noteq> []")
    case True
    then obtain ts where "current k1 # ready_list k1 = ready_list k @ ts" using q by auto
    then have "ready_list k ! i = (current k1 # ready_list k1) ! i" if "i < length (ready_list k)" for i
      using that by (metis nth_append)
    moreover have "length (ready_list k) \<le> Suc (length (ready_list k1))"
      using arg_cong [OF \<open>current k1 # _ = _\<close>, of length] by simp
    ultimately show ?thesis using k1 r True by (auto simp: nth_Cons' less_Suc_eq_0_disj)
  next
    case False
    then show ?thesis using k1 r q by (cases "switches e k") (auto simp: nth_append)
  qed
qed simp

section \<open>The clock alone\<close>

text \<open>Nobody sleeps with the interrupts off, and \<open>P\<close> bounds the time slices.\<close>

definition clock_ok :: "tid set \<Rightarrow> nat \<Rightarrow> 'a tsys_scheme \<Rightarrow> bool" where
  "clock_ok T P k \<longleftrightarrow> sched_inv T k \<and> intr_get_status k = INTR_ON \<and>
     (\<forall>t \<in> T. resume k t = INTR_ON \<and> unat (prio (task k t)) \<le> P \<and> unat (ticks (task k t)) \<le> P)"

lemma clock_switch:
  assumes "clock_ok T P k" "ticks (task k (current k)) = 0"
  shows "\<exists>k'. do_event Tick k = Some k' \<and> clock_ok T P k' \<and>
    current k' # ready_list k' = ready_list k @ [current k]"
proof -
  have inv: "sched_inv T k" and sw: "switches Tick k"
    using assms by (simp_all add: clock_ok_def switches_def)
  from do_event_switched [OF inv sw] obtain k' where k': "do_event Tick k = Some k'" "sched_inv T k'"
    "current k' = chosen (before_schedule Tick k)" "ready_list k' = tl (requeue (before_schedule Tick k))" by blast
  have eq: "k' = continue (switched (before_schedule Tick k))"
    using do_event_switch [OF inv sw] k'(1) by simp
  have fields: "resume (before_schedule Tick k) = (resume k)(current k := INTR_ON)"
    "prio (task (before_schedule Tick k) t) = prio (task k t)"
    "ticks (task (before_schedule Tick k) t) = ticks (task k t)" for t
    by (simp_all add: before_schedule_def event_defs)
  have "current k' \<in> T" using k'(2) by (simp add: sched_inv_def threads_ok_def)
  then have "intr_get_status k' = INTR_ON" and "\<forall>t \<in> T. resume k' t = INTR_ON"
    using assms(1) by (auto simp: eq continue_eq fields clock_ok_def)
  moreover have "ticks (task k' t) = ticks (task k t) \<or> ticks (task k' t) = prio (task k t)"
    "prio (task k' t) = prio (task k t)" for t
    by (auto simp: eq continue_eq fields) (auto simp: switched_def fields before_fields)
  then have "\<forall>t \<in> T. unat (prio (task k' t)) \<le> P \<and> unat (ticks (task k' t)) \<le> P"
    using assms(1) unfolding clock_ok_def by metis
  moreover have "current k' # ready_list k' = requeue (before_schedule Tick k)"
    using k'(3,4) by (simp add: chosen_def requeue_before [OF inv])
  ultimately show ?thesis
    using k' by (auto simp: clock_ok_def requeue_before [OF inv])
qed

lemma clock_count:
  assumes "clock_ok T P k" "ticks (task k (current k)) \<noteq> 0"
  shows "\<exists>k'. do_event Tick k = Some k' \<and> clock_ok T P k' \<and> current k' = current k \<and>
    ready_list k' = ready_list k \<and> unat (ticks (task k (current k))) = Suc (unat (ticks (task k' (current k))))"
proof -
  define c where "c = current k"
  have inv: "sched_inv T k" and on: "intr_get_status k = INTR_ON"
    and "stack_magic (task k (current k)) = STACK_MAGIC"
    using assms by (auto simp: clock_ok_def sched_inv_def threads_ok_def)
  note eq = tick_counts [OF on assms(2) this(3), folded c_def]
  have "\<not> switches Tick k" using assms(2) by (simp add: switches_def)
  from do_event_stay [OF inv this] have inv': "sched_inv T (the (do_event Tick k))" by auto
  have less: "unat (ticks (task k c)) = Suc (unat (ticks (task k c) - 1))"
    using assms(2) by (simp add: c_def unat_minus_one unat_gt_0)
  have "clock_ok T P (the (do_event Tick k))"
    using assms(1) inv' less
    by (auto simp: clock_ok_def eq intr_get_status_def)
  then show ?thesis using less c_def by (simp add: eq)
qed

lemma clock_slice:
  "clock_ok T P k \<Longrightarrow> unat (ticks (task k (current k))) = m \<Longrightarrow>
   (\<forall>n \<le> m. \<exists>k'. run_sched (replicate n Tick) k = Some (k', []) \<and> current k' = current k) \<and>
   (\<exists>k'. run_sched (replicate (Suc m) Tick) k = Some (k', [current k']) \<and> clock_ok T P k' \<and>
     current k' # ready_list k' = ready_list k @ [current k])"
proof (induction m arbitrary: k)
  case 0
  then have "ticks (task k (current k)) = 0" by (simp add: unat_eq_zero)
  from clock_switch [OF 0(1) this] 0(1) this show ?case
    by (auto simp: switches_def clock_ok_def)
next
  case (Suc m)
  then have nz: "ticks (task k (current k)) \<noteq> 0" by auto
  obtain k1 where k1: "do_event Tick k = Some k1" "clock_ok T P k1" "current k1 = current k"
    "ready_list k1 = ready_list k" "unat (ticks (task k (current k))) = Suc (unat (ticks (task k1 (current k))))"
    using clock_count [OF Suc.prems(1) nz] by blast
  then have m: "unat (ticks (task k1 (current k1))) = m" using Suc.prems(2) by simp
  note IH = Suc.IH [OF k1(2) m]
  have sw: "\<not> switches Tick k" using nz by (simp add: switches_def)
  have "\<exists>k'. run_sched (replicate n Tick) k = Some (k', []) \<and> current k' = current k" if n: "n \<le> Suc m" for n
  proof (cases n)
    case (Suc n')
    then obtain k' where "run_sched (replicate n' Tick) k1 = Some (k', [])" "current k' = current k1"
      using IH n by auto
    then show ?thesis using Suc k1 sw by simp
  qed simp
  then show ?case using IH k1 sw by fastforce
qed

lemma run_sched_append:
  "run_sched (es @ es2) k = do {
     (k', l) \<leftarrow> run_sched es k; (k'', l') \<leftarrow> run_sched es2 k'; Some (k'', l @ l') }"
  by (induction es arbitrary: k)
    (auto simp: bind_eq_Some_conv split: bind_splits option.splits prod.splits)

lemma clock_reaches:
  "clock_ok T P k \<Longrightarrow> i < length (ready_list k) \<Longrightarrow>
   \<exists>n k' log. n \<le> Suc i * Suc P \<and> run_sched (replicate n Tick) k = Some (k', log) \<and>
     current k' = ready_list k ! i \<and> clock_ok T P k'"
proof (induction i arbitrary: k)
  case 0
  obtain k1 where k1: "run_sched (replicate (Suc (unat (ticks (task k (current k))))) Tick) k = Some (k1, [current k1])"
    "clock_ok T P k1" "current k1 # ready_list k1 = ready_list k @ [current k]"
    using clock_slice [OF 0(1) refl] by blast
  have "current k \<in> T" using 0(1) by (simp add: clock_ok_def sched_inv_def threads_ok_def)
  then have le: "Suc (unat (ticks (task k (current k)))) \<le> Suc 0 * Suc P"
    using 0(1) by (simp add: clock_ok_def)
  have "current k1 = ready_list k ! 0"
    using k1(3) 0(2) by (cases "ready_list k") auto
  then show ?case using k1(1,2) le by blast
next
  case (Suc i)
  define m where "m = Suc (unat (ticks (task k (current k))))"
  obtain k1 where k1: "run_sched (replicate m Tick) k = Some (k1, [current k1])"
    "clock_ok T P k1" "current k1 # ready_list k1 = ready_list k @ [current k]"
    using clock_slice [OF Suc.prems(1) refl] unfolding m_def by blast
  have "current k \<in> T" using Suc.prems(1) by (simp add: clock_ok_def sched_inv_def threads_ok_def)
  then have m: "m \<le> Suc P" using Suc.prems(1) by (simp add: m_def clock_ok_def)
  have len: "length (ready_list k1) = length (ready_list k)" using arg_cong [OF k1(3), of length] by simp
  have at: "ready_list k1 ! i = ready_list k ! Suc i"
    using arg_cong [OF k1(3), of "\<lambda>xs. xs ! Suc i"] Suc.prems(2) by (simp add: nth_append)
  obtain n k' log where r: "n \<le> Suc i * Suc P" "run_sched (replicate n Tick) k1 = Some (k', log)"
    "current k' = ready_list k1 ! i" "clock_ok T P k'"
    using Suc.IH [OF k1(2)] Suc.prems(2) len by auto
  have "run_sched (replicate (m + n) Tick) k = Some (k', current k1 # log)"
    using k1(1) r(2) by (simp add: replicate_add run_sched_append)
  moreover have "m + n \<le> Suc (Suc i) * Suc P" using m r(1) by simp
  ultimately show ?case using r(3,4) at by metis
qed

end
