(* ===== verification/Task_Life.thy ===== *)
theory Task_Life
  imports Sched
begin

text \<open>
  The life of a thread: what \<open>kthread_create\<close> adds to the invariant of the scheduler, the pages and the
  process numbers, and what \<open>sys_exit\<close> takes away again.
\<close>

section \<open>Lemmas\<close>

lemma lock_at_cong: "current k' = current k \<Longrightarrow> lock_at n k' b = lock_at n k b"
  by (simp add: lock_at_def)

lemma lock_free_cong: "current k' \<noteq> NULL \<Longrightarrow> current k \<noteq> NULL \<Longrightarrow> lock_at 0 k' b = lock_at 0 k b"
  by (simp add: lock_at_def mutex_at_def)

lemma area_inv_cong: "current k' \<noteq> NULL \<Longrightarrow> current k \<noteq> NULL \<Longrightarrow> area_inv k' lo hi ar A = area_inv k lo hi ar A"
  by (simp add: area_inv_def area_ok_def lock_free_cong [of k' k])

lemma kmem_inv_cong: "current k' \<noteq> NULL \<Longrightarrow> current k \<noteq> NULL \<Longrightarrow> kmem_inv k' km A = kmem_inv k km A"
  by (simp add: kmem_inv_def buddy_inv_def area_inv_cong [of k' k])

lemma map_inv_cong: "current k' \<noteq> NULL \<Longrightarrow> current k \<noteq> NULL \<Longrightarrow> map_inv sz (k', b) = map_inv sz (k, b)"
  by (simp add: map_inv_def lock_free_cong [of k' k])

text \<open>The pages of the kernel pool that no block handed out covers.\<close>

definition unused :: "blocks \<Rightarrow> kmem \<Rightarrow> nat set" where
  "unused A km = {p. p < user_start_idx (bd km) \<and> (\<forall>b \<in> A. p \<notin> blk b)}"

lemma finite_unused [simp]: "finite (unused A km)"
  by (simp add: unused_def)

lemma unused_insert:
  assumes "user_start_idx (bd km') = user_start_idx (bd km)" "Suc n \<le> card (unused A km)"
  shows "n \<le> card (unused (insert (0, pg) A) km')"
proof -
  have "unused A km \<subseteq> insert pg (unused (insert (0, pg) A) km')"
    using assms(1) by (auto simp: unused_def blk.simps)
  then have "card (unused A km) \<le> card (insert pg (unused (insert (0, pg) A) km'))"
    by (intro card_mono) simp_all
  also have "\<dots> \<le> Suc (card (unused (insert (0, pg) A) km'))" by (rule card_insert_le_m1) simp_all
  finally show ?thesis using assms(2) by simp
qed

lemma pool_not_empty:
  assumes "kmem_inv k km A" "1 \<le> card (unused A km)"
  shows "\<exists>j \<le> MAX_ORDER. pg_list (kernel_area (bd km) j) \<noteq> []"
proof -
  have "unused A km \<noteq> {}" using assms(2) by auto
  then obtain p where p: "p < user_start_idx (bd km)" "\<forall>b \<in> A. p \<notin> blk b" by (auto simp: unused_def)
  have "area_inv k 0 (user_start_idx (bd km)) (kernel_area (bd km)) (blocks_below (user_start_idx (bd km)) A)"
    using assms(1) by (simp add: kmem_inv_def buddy_inv_def)
  from tiles_cover [OF area_inv_tiles [OF this], of p] p(1) obtain ord j where
    j: "(ord, j) \<in> all_blocks (free_sets (kernel_area (bd km))) (blocks_below (user_start_idx (bd km)) A)"
      "p \<in> blk (ord, j)" by auto
  then have "(ord, j) \<notin> A" using p(2) by blast
  then have "j \<in> free_sets (kernel_area (bd km)) ord" using j(1) by (auto simp: all_blocks_def blocks_below_def)
  then show ?thesis by (auto simp: free_sets_def split: if_splits)
qed

lemma get_page_case:
  assumes inv: "kmem_inv k km A" and left: "Suc n \<le> card (unused A km)"
  obtains pg b where "get_free_page k (bd km) KERNEL_POOL = Some (page_addr pg, k, b)"
    "kmem_inv k (km\<lparr>bd := b\<rparr>) (insert (0, pg) A)" "\<forall>x \<in> A. blk x \<inter> blk (0, pg) = {}" "pg < 2 ^ 18"
    "n \<le> card (unused (insert (0, pg) A) (km\<lparr>bd := b\<rparr>))" "pg_cnt b = pg_cnt (bd km)"
    "atomic_read (pg_count (pages b pg)) = 1"
proof -
  have b0: "buddy_inv k (bd km) A" using inv by (simp add: kmem_inv_def)
  note c = alloc_pages_case [OF b0, of 0 "kernel_area (bd km)" KERNEL_POOL]
  have "\<exists>j. 0 \<le> j \<and> j \<le> MAX_ORDER \<and> pg_list (kernel_area (bd km) j) \<noteq> []"
    using pool_not_empty [OF inv] left by auto
  from c(2) [OF _ _ this] obtain pg b where r: "alloc_pages k (bd km) KERNEL_POOL 0 = Some (pg, k, b)"
    "buddy_inv k b (insert (0, pg) A)"
    "\<forall>x \<in> A. blk x \<inter> blk (0, pg) = {}" "user_start_idx b = user_start_idx (bd km)" "pg_cnt b = pg_cnt (bd km)"
    "pages b = page_taken (pages (bd km)) pg 0"
    by (auto simp: KERNEL_POOL_def)
  have sm: "small_mem b" using inv r(4,5) by (simp add: kmem_inv_def small_mem_def)
  have pgs: "pages b q = pages (bd km) q" if "(0, q) \<in> A" for q
  proof -
    have "q \<noteq> pg" using fresh_block_notin [OF r(3)] that by auto
    then show ?thesis by (simp add: r(6) page_taken_def)
  qed
  have "page_ok (km\<lparr>bd := b\<rparr>) (insert (0, pg) A) j q" if "page_ok km A j q" for j q
    using that pgs by (auto simp: page_ok_def)
  then have "class_ok (km\<lparr>bd := b\<rparr>) (insert (0, pg) A) j" if "class_ok km A j" for j
    using that by (auto simp: class_ok_def class_pages_def)
  then have "kmem_inv k (km\<lparr>bd := b\<rparr>) (insert (0, pg) A)"
    using inv r(2) sm by (simp add: kmem_inv_def)
  moreover have "pg < 2 ^ 18"
    using page_index_bound [OF r(2) sm, of 0 pg] sm by (simp add: small_mem_def)
  moreover have "n \<le> card (unused (insert (0, pg) A) (km\<lparr>bd := b\<rparr>))"
    by (rule unused_insert [OF _ left]) (simp add: r(4))
  moreover have "atomic_read (pg_count (pages b pg)) = 1" by (simp add: r(6) page_taken_count)
  ultimately show thesis using that [of pg b] r(1,3,5) by (simp add: get_free_page_def page_addr_def)
qed

lemma page_thread:
  assumes "pg < 2 ^ 18"
  shows "unat (of_nat (page_addr pg) :: tid) = page_addr pg" "(of_nat (page_addr pg) :: tid) \<noteq> NULL"
proof -
  have "page_addr pg < 2 ^ 32" using assms by (simp add: page_addr_def PG_SIZE_def KERNEL_VADDR_START_def)
  then show u: "unat (of_nat (page_addr pg) :: tid) = page_addr pg"
    by (simp only: unat_of_nat) simp
  have "page_addr pg \<noteq> 0" by (simp add: page_addr_def KERNEL_VADDR_START_def)
  then show "(of_nat (page_addr pg) :: tid) \<noteq> NULL" using u by (auto simp: NULL_def)
qed

text \<open>The page of a thread belongs to a block that is handed out.\<close>

definition on_page :: "blocks \<Rightarrow> tid \<Rightarrow> bool" where
  "on_page A t \<longleftrightarrow> (\<exists>pg b. pg < 2 ^ 18 \<and> b \<in> A \<and> pg \<in> blk b \<and> t = of_nat (page_addr pg))"

lemma on_pageI: "pg < 2 ^ 18 \<Longrightarrow> (0, pg) \<in> A \<Longrightarrow> on_page A (of_nat (page_addr pg))"
  unfolding on_page_def by (rule exI [of _ pg], rule exI [of _ "(0, pg)"]) (simp add: blk.simps)

lemma on_page_mono: "on_page A t \<Longrightarrow> A \<subseteq> A' \<Longrightarrow> on_page A' t"
  unfolding on_page_def by blast

lemma on_page_fresh:
  assumes "on_page A t" "\<forall>x \<in> A. blk x \<inter> blk (0, pg) = {}" "pg < 2 ^ 18"
  shows "t \<noteq> of_nat (page_addr pg)"
proof
  assume eq: "t = of_nat (page_addr pg)"
  obtain q b where q: "q < 2 ^ 18" "b \<in> A" "q \<in> blk b" "t = of_nat (page_addr q)"
    using assms(1) unfolding on_page_def by blast
  have "page_addr q = page_addr pg" using page_thread(1) [OF q(1)] page_thread(1) [OF assms(3)] eq q(4) by metis
  then have "q = pg" by simp
  then show False using assms(2) q(2,3) by (auto simp: blk.simps)
qed

section \<open>What a new thread leaves alone\<close>

definition keeps :: "tid \<Rightarrow> 'a tsys_scheme \<Rightarrow> 'a tsys_scheme \<Rightarrow> bool" where
  "keeps t k k' \<longleftrightarrow> current k' = current k \<and> idle k' = idle k \<and> ready_list k' = ready_list k \<and>
     eflags k' = eflags k \<and> mms k' = mms k \<and> mmu_state k' = mmu_state k \<and> sys_ticks k' = sys_ticks k \<and>
     (\<forall>u. u \<noteq> t \<longrightarrow> task k' u = task k u \<and> tstate k' u = tstate k u \<and> resume k' u = resume k u)"

lemma keeps_trans [trans]: "keeps t k k' \<Longrightarrow> keeps t k' k'' \<Longrightarrow> keeps t k k''"
  by (simp add: keeps_def)

lemma alloc_pid_case:
  assumes "map_inv sz (k, pid_bitmap k)" "\<exists>i < 8 * sz. \<not> bit_at (bits (pid_bitmap k)) i"
  obtains n b where "alloc_pid k = Some (int n, k\<lparr>pid_bitmap := b\<rparr>)" "n < 8 * sz" "map_inv sz (k, b)"
    "\<not> bit_at (bits (pid_bitmap k)) n" "\<forall>j < n. bit_at (bits (pid_bitmap k)) j"
    "\<forall>i. bit_at (bits b) i \<longleftrightarrow> i = n \<or> bit_at (bits (pid_bitmap k)) i"
proof -
  have l: "lock_at 0 k (pid_bitmap k)" "byte_size (pid_bitmap k) < 2 ^ 28" "byte_size (pid_bitmap k) = sz"
    using assms(1) by (simp_all add: map_inv_def)
  obtain i where i: "first_clear (bits (pid_bitmap k)) 0 (8 * sz) = Some i"
    using assms(2) first_clear_None [of "bits (pid_bitmap k)" "8 * sz"] by (metis not_None_eq)
  have "alloc_pid k = Some (int i, k\<lparr>pid_bitmap := set_bits (pid_bitmap k) [i] True\<rparr>)"
    using bitmap_scan_set_at [OF l(1) _ l(2)] i by (simp add: alloc_pid_def l(3))
  then show thesis
    using that [of i "set_bits (pid_bitmap k) [i] True"] first_clear_SomeD [OF i] assms(1)
    by (auto simp: map_inv_def)
qed

lemma kzalloc_at_case:
  assumes "kmem_inv k (kmem_st k) A" "sz \<le> MAX_BLOCK_SIZE" "Suc n \<le> card (unused A (kmem_st k))"
  obtains p m A' where "kzalloc_at sz k = Some (p, k\<lparr>kmem_st := m\<rparr>)" "kmem_inv k m A'" "A \<subseteq> A'"
    "p \<notin> live (kmem_st k)" "live m = insert p (live (kmem_st k))" "n \<le> card (unused A' m)"
proof -
  have "\<exists>j \<le> MAX_ORDER. pg_list (kernel_area (bd (kmem_st k)) j) \<noteq> []"
    using pool_not_empty [OF assms(1)] assms(3) by simp
  then obtain p m A' where m: "kmalloc k (kmem_st k) sz = Some (p, k, m)" "kmem_inv k m A'"
    "p \<notin> live (kmem_st k)" "live m = insert p (live (kmem_st k))"
    "user_start_idx (bd m) = user_start_idx (bd (kmem_st k))" "A' = A \<or> (\<exists>pg. A' = insert (0, pg) A)"
    using kmalloc_small_case [OF assms(1,2)] by fastforce
  have "unused A m = unused A (kmem_st k)" using m(5) by (simp add: unused_def)
  then have "n \<le> card (unused A m)" using assms(3) by simp
  then have "n \<le> card (unused A' m)" using m(6) unused_insert [OF m(5) assms(3)] by blast
  then show thesis using that [of p m A'] m by (auto simp: kzalloc_at_def)
qed

lemma files_struct_init_case:
  assumes "kmem_inv k (kmem_st k) A" "Suc n \<le> card (unused A (kmem_st k))"
  obtains p m A' where "kmem_inv k m A'" "A \<subseteq> A'" "p \<notin> live (kmem_st k)" "live m = insert p (live (kmem_st k))"
    "n \<le> card (unused A' m)"
    "files_struct_init t k = Some (set_task t ((task k t)\<lparr>files := p\<rparr>)
      ((inc_count 2 (inc_count 1 (inc_count 0 (k\<lparr>kmem_st := m\<rparr>))))
      \<lparr>filess := (filess k)(p := \<lparr>map_file = 0, close_on_exec = 0, open_fds = 7,
              fd_array = (\<lambda>_. None)(0 := Some 0, 1 := Some 1, 2 := Some 2)\<rparr>)\<rparr>))"
proof -
  have sz: "(144 :: u32) \<le> MAX_BLOCK_SIZE" by (simp add: MAX_BLOCK_SIZE_def)
  obtain p m A' where m: "kzalloc_at 144 k = Some (p, k\<lparr>kmem_st := m\<rparr>)" "kmem_inv k m A'" "A \<subseteq> A'"
    "p \<notin> live (kmem_st k)" "live m = insert p (live (kmem_st k))" "n \<le> card (unused A' m)"
    by (rule kzalloc_at_case [OF assms(1) sz assms(2)])
  show thesis
    using that [OF m(2-6)] m(1) by (simp add: files_struct_init_def inc_count_def Let_def)
qed

lemma fs_struct_init_case:
  assumes "kmem_inv k (kmem_st k) A" "Suc n \<le> card (unused A (kmem_st k))"
  obtains p m A' where "kmem_inv k m A'" "A \<subseteq> A'" "p \<notin> live (kmem_st k)" "live m = insert p (live (kmem_st k))"
    "fs_struct_init t k = Some (set_task t ((task k t)\<lparr>fs := p\<rparr>)
      (k\<lparr>kmem_st := m, fss := (fss k)(p := \<lparr>cwd = root_dir k, root = root_dir k\<rparr>)\<rparr>))"
proof -
  have sz: "(8 :: u32) \<le> MAX_BLOCK_SIZE" by (simp add: MAX_BLOCK_SIZE_def)
  obtain p m A' where m: "kzalloc_at 8 k = Some (p, k\<lparr>kmem_st := m\<rparr>)" "kmem_inv k m A'" "A \<subseteq> A'"
    "p \<notin> live (kmem_st k)" "live m = insert p (live (kmem_st k))" "n \<le> card (unused A' m)"
    by (rule kzalloc_at_case [OF assms(1) sz assms(2)])
  show thesis using that [OF m(2-5)] m(1) by (simp add: fs_struct_init_def Let_def)
qed

text \<open>What a thread has when \<open>init_thread\<close> is done with it.\<close>

definition new_thread :: "u32 \<Rightarrow> u32 \<Rightarrow> u32 \<Rightarrow> u32 \<Rightarrow> u8 list \<Rightarrow> tid \<Rightarrow> 'a tsys_scheme \<Rightarrow> 'a tsys_scheme \<Rightarrow> bool" where
  "new_thread start threadfn data pri name t k k' \<longleftrightarrow>
     (let d = task k' t; f = filess k' (files d) in
       tstate k' t = READY \<and> stack_magic d = STACK_MAGIC \<and> t_mm d = 0 \<and> prio d = pri \<and> pname d = name \<and>
       ticks d = ticks (task k t) \<and> elapsed_ticks d = elapsed_ticks (task k t) \<and>
       switch_data k' (stack d) = \<lparr>sw_kthread_start = start, sw_threadfn = threadfn, sw_data = data\<rparr> \<and>
       stack d = t + 3988 \<and> open_fds f = 7 \<and> fd_array f = [0 \<mapsto> 0, 1 \<mapsto> 1, 2 \<mapsto> 2] \<and>
       files d \<noteq> fs d \<and>
       fss k' (fs d) = \<lparr>cwd = root_dir k, root = root_dir k\<rparr> \<and> resume k' t = INTR_ON)"

lemma init_thread_case:
  assumes inv: "kmem_inv k (kmem_st k) A" "map_inv sz (k, pid_bitmap k)"
    and left: "Suc (Suc N) \<le> card (unused A (kmem_st k))" "\<exists>i < 8 * sz. \<not> bit_at (bits (pid_bitmap k)) i"
    and nm: "length name < 10"
  shows "\<exists>k'. init_thread start t threadfn data pri name k = Some k' \<and>
    keeps t k k' \<and> new_thread start threadfn data pri name t k k' \<and>
    (\<exists>A'. kmem_inv k' (kmem_st k') A' \<and> A \<subseteq> A') \<and> map_inv sz (k', pid_bitmap k') \<and>
    (let n = pid (task k' t) in 0 \<le> n \<and> nat n < 8 * sz \<and> \<not> bit_at (bits (pid_bitmap k)) (nat n) \<and>
      (\<forall>j < nat n. bit_at (bits (pid_bitmap k)) j) \<and>
      (\<forall>i. bit_at (bits (pid_bitmap k')) i \<longleftrightarrow> i = nat n \<or> bit_at (bits (pid_bitmap k)) i))"
proof -
  define k1 where "k1 = set_task t ((task k t)\<lparr>stack_magic := STACK_MAGIC, stack := t + 3988, pname := name, prio := pri\<rparr>)
    (set_state t READY k)"
  have eq: "init_thread start t threadfn data pri name k = do {
     (n, k) \<leftarrow> alloc_pid k1;
     let k = set_task t ((task k t)\<lparr>pid := n, t_mm := 0\<rparr>) k;
     k \<leftarrow> files_struct_init t k;
     k \<leftarrow> fs_struct_init t k;
     Some (k\<lparr>switch_data := (switch_data k)
       (stack (task k t) := \<lparr>sw_kthread_start = start, sw_threadfn = threadfn, sw_data = data\<rparr>),
       resume := (resume k)(t := INTR_ON)\<rparr>) }"
    using nm by (simp add: init_thread_def k1_def set_task_def set_state_def Let_def add.commute [of t])
  have k1: "kmem_st k1 = kmem_st k" "pid_bitmap k1 = pid_bitmap k" "current k1 = current k"
    "root_dir k1 = root_dir k"
    by (simp_all add: k1_def set_task_def set_state_def)
  have cur: "current k \<noteq> NULL" using inv(2) by (simp add: map_inv_def lock_at_def)
  have "map_inv sz (k1, pid_bitmap k1)" using inv(2) map_inv_cong [of k1 k] cur by (simp add: k1)
  then obtain n b where b: "alloc_pid k1 = Some (int n, k1\<lparr>pid_bitmap := b\<rparr>)" "n < 8 * sz" "map_inv sz (k1, b)"
    "\<not> bit_at (bits (pid_bitmap k)) n" "\<forall>j < n. bit_at (bits (pid_bitmap k)) j"
    "\<forall>i. bit_at (bits b) i \<longleftrightarrow> i = n \<or> bit_at (bits (pid_bitmap k)) i"
    using alloc_pid_case [of sz k1] left(2) k1(2) by metis
  define k3 where "k3 = set_task t ((task k1 t)\<lparr>pid := int n, t_mm := 0\<rparr>) (k1\<lparr>pid_bitmap := b\<rparr>)"
  have k3: "kmem_st k3 = kmem_st k" "pid_bitmap k3 = b" "current k3 = current k" "root_dir k3 = root_dir k"
    by (simp_all add: k3_def k1 set_task_def)
  have "kmem_inv k3 (kmem_st k3) A" using inv(1) kmem_inv_cong [of k3 k] cur by (simp add: k3)
  then obtain p m A1 where 4: "kmem_inv k3 m A1" "A \<subseteq> A1" "p \<notin> live (kmem_st k)" "live m = insert p (live (kmem_st k))"
      "Suc N \<le> card (unused A1 m)"
    and e4: "files_struct_init t k3 = Some (set_task t ((task k3 t)\<lparr>files := p\<rparr>)
      ((inc_count 2 (inc_count 1 (inc_count 0 (k3\<lparr>kmem_st := m\<rparr>))))
      \<lparr>filess := (filess k3)(p := \<lparr>map_file = 0, close_on_exec = 0, open_fds = 7,
              fd_array = (\<lambda>_. None)(0 := Some 0, 1 := Some 1, 2 := Some 2)\<rparr>)\<rparr>))"
    using files_struct_init_case [of k3 A "Suc N" t] left(1) k3(1) by metis
  define k4 where "k4 = set_task t ((task k3 t)\<lparr>files := p\<rparr>)
      ((inc_count 2 (inc_count 1 (inc_count 0 (k3\<lparr>kmem_st := m\<rparr>))))
      \<lparr>filess := (filess k3)(p := \<lparr>map_file = 0, close_on_exec = 0, open_fds = 7,
              fd_array = (\<lambda>_. None)(0 := Some 0, 1 := Some 1, 2 := Some 2)\<rparr>)\<rparr>)"
  have f4: "kmem_st k4 = m" "pid_bitmap k4 = b" "current k4 = current k" "root_dir k4 = root_dir k"
    by (simp_all add: k4_def set_task_def inc_count_def k3)
  have "kmem_inv k4 (kmem_st k4) A1" using 4(1) kmem_inv_cong [of k4 k3] cur by (simp add: f4 k3)
  then obtain q m' A2 where 5: "kmem_inv k4 m' A2" "A1 \<subseteq> A2" "q \<notin> live m"
    and e5: "fs_struct_init t k4 = Some (set_task t ((task k4 t)\<lparr>fs := q\<rparr>)
      (k4\<lparr>kmem_st := m', fss := (fss k4)(q := \<lparr>cwd = root_dir k, root = root_dir k\<rparr>)\<rparr>))"
    using fs_struct_init_case [of k4 A1 N t] 4(5) f4 by metis
  define k5 where "k5 = set_task t ((task k4 t)\<lparr>fs := q\<rparr>)
      (k4\<lparr>kmem_st := m', fss := (fss k4)(q := \<lparr>cwd = root_dir k, root = root_dir k\<rparr>)\<rparr>)"
  have pq: "p \<noteq> q" using 4(4) 5(3) by auto
  define k' where "k' = k5\<lparr>switch_data := (switch_data k5)
       (stack (task k5 t) := \<lparr>sw_kthread_start = start, sw_threadfn = threadfn, sw_data = data\<rparr>),
       resume := (resume k5)(t := INTR_ON)\<rparr>"
  have run: "init_thread start t threadfn data pri name k = Some k'"
    using b(1) e4 [folded k4_def] e5 [folded k5_def] unfolding eq by (simp add: k'_def k3_def set_task_def Let_def)
  note all = k'_def k5_def k4_def k3_def k1_def set_task_def set_state_def inc_count_def
  have "kmem_inv k' m' A2" "map_inv sz (k', b)"
    using 5(1) b(3) kmem_inv_cong [of k' k4] map_inv_cong [of k' k1] cur f4 k1 by (simp_all add: k'_def k5_def set_task_def)
  moreover have "kmem_st k' = m'" "pid_bitmap k' = b" "pid (task k' t) = int n" by (simp_all add: all)
  moreover have "A \<subseteq> A2" using 4(2) 5(2) by blast
  moreover have "keeps t k k'" by (simp add: keeps_def all)
  moreover have "new_thread start threadfn data pri name t k k'" using pq by (simp add: new_thread_def all Let_def)
  ultimately show ?thesis using b run by (intro exI [of _ k']) (auto simp: Let_def)
qed

lemma sched_inv_insert:
  assumes inv: "sched_inv T k" and kp: "keeps t k k'" and t: "t \<notin> T" "t \<noteq> NULL"
    and new: "tstate k' t = READY" "stack_magic (task k' t) = STACK_MAGIC" "t_mm (task k' t) = 0"
  shows "sched_inv (insert t T) (push_ready t k')"
proof -
  have same: "task k' u = task k u" "tstate k' u = tstate k u" if "u \<in> T" for u
    using kp t(1) that unfolding keeps_def by metis+
  have "dirs_ok (insert t T) (push_ready t k')"
  proof -
    have "dirs_ok T (push_ready t k') = dirs_ok T k"
      using kp same by (intro dirs_ok_cong) (simp_all add: push_ready_def keeps_def)
    then have "dirs_ok T (push_ready t k')" using inv by (simp add: sched_inv_def threads_ok_def)
    then show ?thesis using new(3) by (simp add: dirs_ok_def push_ready_def)
  qed
  then have "threads_ok (insert t T) (push_ready t k')"
    using inv new t same kp by (simp add: sched_inv_def threads_ok_def keeps_def push_ready_def)
  moreover have cur: "current k \<in> T" and rl: "set (ready_list k) = {u \<in> T. tstate k u = READY}"
    "distinct (ready_list k)" and st: "tstate k (current k) = RUNNING"
    "\<forall>u \<in> T. u \<noteq> current k \<longrightarrow> tstate k u \<noteq> RUNNING"
    using inv by (simp_all add: sched_inv_def threads_ok_def)
  have eqs: "ready_list k' = ready_list k" "current k' = current k" using kp by (simp_all add: keeps_def)
  have "{u \<in> insert t T. tstate k' u = READY} = insert t {u \<in> T. tstate k u = READY}"
    using same(2) new(1) by auto
  moreover have "t \<notin> set (ready_list k)" using rl(1) t(1) by simp
  moreover have "\<forall>u \<in> insert t T. u \<noteq> current k \<longrightarrow> tstate k' u \<noteq> RUNNING" using st(2) same(2) new(1) by simp
  moreover have "tstate k' (current k) = RUNNING" using st(1) same(2) cur by simp
  ultimately show ?thesis using rl unfolding sched_inv_def by (simp add: push_ready_def eqs)
qed

text \<open>The state of the kernel that creating and ending threads keeps.\<close>

definition tasks_inv :: "tid set \<Rightarrow> blocks \<Rightarrow> 'a tsys_scheme \<Rightarrow> bool" where
  "tasks_inv T A k \<longleftrightarrow> sched_inv T k \<and> kmem_inv k (kmem_st k) A \<and> map_inv 8192 (k, pid_bitmap k) \<and>
     (\<forall>t \<in> T. on_page A t) \<and> inj_on (\<lambda>t. pid (task k t)) T \<and>
     (\<forall>t \<in> T. 0 \<le> pid (task k t) \<and> bit_at (bits (pid_bitmap k)) (nat (pid (task k t))))"

lemma kthread_create_case:
  assumes inv: "tasks_inv T A k" and left: "3 \<le> card (unused A (kmem_st k))"
    and free: "\<exists>i < 65536. \<not> bit_at (bits (pid_bitmap k)) i" and nm: "length name < 10"
  shows "\<exists>t k'. kthread_create start threadfn data pri name k = Some (t, k') \<and>
    t \<notin> T \<and> (\<exists>A'. A \<subseteq> A' \<and> tasks_inv (insert t T) A' k') \<and>
    new_thread start threadfn data pri name t k k' \<and>
    ready_list k' = ready_list k @ [t] \<and> keeps t k (k'\<lparr>ready_list := ready_list k\<rparr>) \<and>
    pid (task k' t) < 65536 \<and> (\<forall>j < nat (pid (task k' t)). bit_at (bits (pid_bitmap k)) j)"
proof -
  define k0 where "k0 = k\<lparr>eflags := set_if INTR_OFF (eflags k)\<rparr>"
  have inv': "sched_inv T k" "kmem_inv k (kmem_st k) A" "map_inv 8192 (k, pid_bitmap k)" "\<forall>t \<in> T. on_page A t"
    "inj_on (\<lambda>t. pid (task k t)) T"
    "\<forall>t \<in> T. 0 \<le> pid (task k t) \<and> bit_at (bits (pid_bitmap k)) (nat (pid (task k t)))"
    using inv by (simp_all add: tasks_inv_def)
  have cur: "current k \<noteq> NULL" "current k0 = current k" using inv'(3) by (simp_all add: map_inv_def lock_at_def k0_def)
  have k0: "kmem_inv k0 (kmem_st k) A" "map_inv 8192 (k0, pid_bitmap k)" "kmem_st k0 = kmem_st k"
    using inv'(2,3) kmem_inv_cong [of k0 k] map_inv_cong [of k0 k] cur by (simp_all add: k0_def)
  have "Suc 2 \<le> card (unused A (kmem_st k))" using left by simp
  from get_page_case [OF k0(1) this] obtain pg b where
    pg: "get_free_page k0 (bd (kmem_st k)) KERNEL_POOL = Some (page_addr pg, k0, b)"
      "kmem_inv k0 ((kmem_st k)\<lparr>bd := b\<rparr>) (insert (0, pg) A)" "\<forall>x \<in> A. blk x \<inter> blk (0, pg) = {}" "pg < 2 ^ 18"
      "2 \<le> card (unused (insert (0, pg) A) ((kmem_st k)\<lparr>bd := b\<rparr>))" by metis
  define t :: tid where t: "t = of_nat (page_addr pg)"
  define k2 where "k2 = k0\<lparr>kmem_st := (kmem_st k)\<lparr>bd := b\<rparr>\<rparr>"
  have k2: "kmem_inv k2 (kmem_st k2) (insert (0, pg) A)" "map_inv 8192 (k2, pid_bitmap k2)"
    "Suc (Suc 0) \<le> card (unused (insert (0, pg) A) (kmem_st k2))" "\<exists>i < 8 * 8192. \<not> bit_at (bits (pid_bitmap k2)) i"
    using pg(2,5) k0(2) kmem_inv_cong [of k2 k0] map_inv_cong [of k2 k0] cur free by (simp_all add: k2_def k0_def)
  obtain k3 where k3: "init_thread start t threadfn data pri name k2 = Some k3" and
    it: "keeps t k2 k3 \<and> new_thread start threadfn data pri name t k2 k3 \<and>
    (\<exists>A'. kmem_inv k3 (kmem_st k3) A' \<and> insert (0, pg) A \<subseteq> A') \<and> map_inv 8192 (k3, pid_bitmap k3) \<and>
    0 \<le> pid (task k3 t) \<and> nat (pid (task k3 t)) < 8 * 8192 \<and> \<not> bit_at (bits (pid_bitmap k2)) (nat (pid (task k3 t))) \<and>
      (\<forall>j < nat (pid (task k3 t)). bit_at (bits (pid_bitmap k2)) j) \<and>
      (\<forall>i. bit_at (bits (pid_bitmap k3)) i \<longleftrightarrow> i = nat (pid (task k3 t)) \<or> bit_at (bits (pid_bitmap k2)) i)"
    using init_thread_case [OF k2 nm, of start t threadfn data pri] unfolding Let_def by metis
  define k' where "k' = snd (intr_set_status (intr_get_status k) (push_ready t k3))"
  have run: "kthread_create start threadfn data pri name k = Some (t, k')"
    using pg(1) k3 by (simp add: kthread_create_def intr_disable_eq k0_def [symmetric] k0(3) k2_def t k'_def Let_def)
  have kp: "keeps t k2 k3" and nt: "new_thread start threadfn data pri name t k2 k3" using it by blast+
  obtain A' where A': "kmem_inv k3 (kmem_st k3) A'" "insert (0, pg) A \<subseteq> A'" using it by blast
  have fl: "eflags k3 = set_if INTR_OFF (eflags k)" using kp by (simp add: keeps_def k2_def k0_def)
  have k': "k' = push_ready t (k3\<lparr>eflags := eflags k\<rparr>)"
    by (cases k3) (use fl set_if_restore [of k] in \<open>simp add: k'_def intr_set_status_eq push_ready_def\<close>)
  have kp': "keeps t k (k3\<lparr>eflags := eflags k\<rparr>)"
    using kp by (simp add: keeps_def k2_def k0_def)
  have tT: "t \<notin> T" using on_page_fresh [OF _ pg(3,4)] inv'(4) t by blast
  have nt': "tstate k3 t = READY" "stack_magic (task k3 t) = STACK_MAGIC" "t_mm (task k3 t) = 0"
    using nt by (simp_all add: new_thread_def Let_def)
  have "sched_inv (insert t T) (push_ready t (k3\<lparr>eflags := eflags k\<rparr>))"
    by (rule sched_inv_insert [OF inv'(1) kp' tT]) (use nt' page_thread(2) [OF pg(4)] t in simp_all)
  then have S: "sched_inv (insert t T) k'" by (simp add: k')
  have c3: "current k3 = current k" using kp by (simp add: keeps_def k2_def k0_def)
  have M: "kmem_inv k' (kmem_st k') A'" "map_inv 8192 (k', pid_bitmap k')"
    using A'(1) it kmem_inv_cong [of k' k3] map_inv_cong [of k' k3] cur c3 by (simp_all add: k' push_ready_def)
  have P: "\<forall>u \<in> insert t T. on_page A' u"
  proof
    fix u assume u: "u \<in> insert t T"
    show "on_page A' u"
    proof (cases "u = t")
      case True
      then show ?thesis using A'(2) pg(4) t unfolding on_page_def
        by (intro exI [of _ pg] exI [of _ "(0, pg)"]) (simp add: blk.simps)
    next
      case False
      then show ?thesis using u inv'(4) on_page_mono [of A u A'] A'(2) by blast
    qed
  qed
  have same: "task k' u = task k u" if "u \<in> T" for u
    using kp' tT that unfolding keeps_def k' push_ready_def by auto
  define n where "n = pid (task k' t)"
  have n: "n = pid (task k3 t)" by (simp add: n_def k' push_ready_def)
  have bm: "pid_bitmap k2 = pid_bitmap k" by (simp add: k2_def k0_def)
  have N: "0 \<le> n" "nat n < 65536" "\<not> bit_at (bits (pid_bitmap k)) (nat n)"
    "\<forall>j < nat n. bit_at (bits (pid_bitmap k)) j"
    "\<forall>i. bit_at (bits (pid_bitmap k')) i \<longleftrightarrow> i = nat n \<or> bit_at (bits (pid_bitmap k)) i"
    using it unfolding bm n [symmetric] by (simp_all add: k' push_ready_def)
  have "n \<noteq> pid (task k u) \<and> pid (task k u) \<noteq> n" if "u \<in> T" for u using N(3) inv'(6) that by auto
  then have I: "inj_on (\<lambda>u. pid (task k' u)) (insert t T)"
    using inv'(5) tT same by (auto simp: inj_on_def n_def)
  have B: "\<forall>u \<in> insert t T. 0 \<le> pid (task k' u) \<and> bit_at (bits (pid_bitmap k')) (nat (pid (task k' u)))"
    using N(1,5) inv'(6) same by (auto simp: n_def)
  have "tasks_inv (insert t T) A' k'" using S M P I B by (simp add: tasks_inv_def)
  moreover have "new_thread start threadfn data pri name t k k'"
  proof -
    have "new_thread start threadfn data pri name t k k' = new_thread start threadfn data pri name t k2 k3"
      by (simp add: new_thread_def k' push_ready_def k2_def k0_def Let_def)
    then show ?thesis using nt by simp
  qed
  moreover have "ready_list k' = ready_list k @ [t]" using kp by (simp add: k' push_ready_def keeps_def k2_def k0_def)
  moreover have "keeps t k (k'\<lparr>ready_list := ready_list k\<rparr>)"
    using kp' by (simp add: k' push_ready_def keeps_def)
  ultimately show ?thesis using run tT A'(2) N by (intro exI [of _ t] exI [of _ k']) (auto simp: n_def)
qed

section \<open>Exit\<close>

lemma sched_inv_remove:
  assumes inv: "sched_inv T k" and cur: "current k \<noteq> idle k"
    and ex: "tstate k' = (tstate k)(current k := EXIT)"
    and same: "current k' = current k" "idle k' = idle k" "ready_list k' = ready_list k"
      "mms k' = mms k" "mmu_state k' = mmu_state k" "\<And>u. stack_magic (task k' u) = stack_magic (task k u)"
      "\<And>u. t_mm (task k' u) = t_mm (task k u)"
  shows "requeue k' = ready_list k" "chosen k' \<in> T - {current k}"
    "sched_inv (T - {current k}) (switched k')"
    "\<And>u. u \<in> T \<Longrightarrow> activatable k' u"
proof -
  have rl: "set (ready_list k) = {u \<in> T. tstate k u = READY}" "distinct (ready_list k)"
    and st: "tstate k (current k) = RUNNING" "\<forall>u \<in> T. u \<noteq> current k \<longrightarrow> tstate k u \<noteq> RUNNING"
    and ok: "NULL \<notin> T" "idle k \<in> T" "current k \<in> T"
      "\<And>u. u \<in> T \<Longrightarrow> tstate k u \<noteq> EXIT \<and> stack_magic (task k u) = STACK_MAGIC" "dirs_ok T k"
    using inv by (simp_all add: sched_inv_def threads_ok_def)
  show rq: "requeue k' = ready_list k" using ex same by (simp add: requeue_def)
  have d: "dirs_ok T k'" using ok(5) dirs_ok_cong [of T k' k] same by simp
  then show "activatable k' u" if "u \<in> T" for u using dirs_activatable that by blast
  have "hd (ready_list k) \<in> T - {current k}" if "ready_list k \<noteq> []"
    using hd_in_set [OF that] rl(1) st(1) by auto
  then show ch: "chosen k' \<in> T - {current k}" using ok(2) cur same(2) by (auto simp: chosen_def rq)
  define c where "c = chosen k'"
  have ts: "tstate (switched k') = (tstate k)(current k := EXIT, c := RUNNING)"
    using ex same(1) by (simp add: switched_def c_def)
  have "threads_ok (T - {current k}) (switched k')"
    using ok(1-4) ch cur same dirs_ok_mono [OF dirs_ok_switched [OF d], of "T - {current k}"]
    by (simp add: threads_ok_def ts c_def Diff_subset)
  moreover have "set (tl (ready_list k)) = {u \<in> T - {current k}. tstate (switched k') u = READY}"
  proof (cases "ready_list k")
    case Nil
    then have "{u \<in> T. tstate k u = READY} = {}" using rl(1) by simp
    then show ?thesis using Nil ts by auto
  next
    case (Cons x xs)
    then have "c = x" "x \<notin> set xs" using rl(2) by (simp_all add: c_def chosen_def rq)
    moreover have "insert x (set xs) = {u \<in> T. tstate k u = READY}" using rl(1) Cons by simp
    ultimately show ?thesis using Cons ts st(1) by auto
  qed
  moreover have "distinct (tl (ready_list k))" using rl(2) by (simp add: distinct_tl)
  ultimately show "sched_inv (T - {current k}) (switched k')"
    using st(2) ts by (simp add: sched_inv_def rq c_def [symmetric])
qed

lemma free_pid_case:
  assumes "map_inv sz (k, pid_bitmap k)" "bit_at (bits (pid_bitmap k)) (nat n)"
  shows "free_pid n k = Some (k\<lparr>pid_bitmap := set_bits (pid_bitmap k) [nat n] False\<rparr>)"
  using assms by (simp add: free_pid_def bitmap_reset_at [of 0] map_inv_def)

text \<open>A page that is no page of \<open>kmalloc\<close> goes back to the pool.\<close>

lemma free_page_case:
  assumes inv: "kmem_inv k km A" and dm: "direct_map u (pg_cnt (bd km))" and mem: "(0, pg) \<in> A"
    and one: "atomic_read (pg_count (pages (bd km) pg)) = 1"
    and other: "\<forall>idx < 7. page_addr pg \<notin> class_pages km idx"
  obtains b where "free_page k (bd km) u (page_addr pg) = Some (k, b)" "kmem_inv k (km\<lparr>bd := b\<rparr>) (A - {(0, pg)})"
proof -
  have b: "buddy_inv k (bd km) A" "small_mem (bd km)" using inv by (simp_all add: kmem_inv_def)
  have pg: "pg < pg_cnt (bd km)" by (rule page_index_bound [OF b mem])
  from free_pages_case [OF b(1) mem] one obtain b' where
    b': "free_pages_idx k (bd km) pg 0 = Some (k, b')" "user_start_idx b' = user_start_idx (bd km)"
      "pg_cnt b' = pg_cnt (bd km)" "\<forall>i. i \<noteq> pg \<longrightarrow> pages b' i = pages (bd km) i" "buddy_inv k b' (A - {(0, pg)})"
    by auto
  have "page_ok (km\<lparr>bd := b'\<rparr>) (A - {(0, pg)}) j q" if "page_ok km A j q" "q \<noteq> page_addr pg" for j q
    using that b'(4) by (auto simp: page_ok_def)
  then have "class_ok (km\<lparr>bd := b'\<rparr>) (A - {(0, pg)}) j" if "class_ok km A j" "j < 7" for j
  proof -
    have "\<forall>q \<in> class_pages km j. page_ok km A j q \<and> q \<noteq> page_addr pg" using that other by (auto simp: class_ok_def)
    then show ?thesis using that(1) \<open>\<And>q j. page_ok km A j q \<Longrightarrow> q \<noteq> page_addr pg \<Longrightarrow> _\<close>
      by (simp add: class_ok_def class_pages_def)
  qed
  then have "kmem_inv k (km\<lparr>bd := b'\<rparr>) (A - {(0, pg)})"
    using inv b'(2,3,5) by (simp add: kmem_inv_def small_mem_def)
  then show thesis using that [of b'] b'(1) free_page_addr(1) [OF b(2) dm pg, of k] by simp
qed

lemma sys_exit_case:
  assumes inv: "tasks_inv T A k" and off: "intr_get_status k = INTR_OFF" and cur: "current k \<noteq> idle k"
    and dm: "direct_map (mmu_state k) (pg_cnt (bd (kmem_st k)))"
    and pg: "current k = of_nat (page_addr pg)" "pg < 2 ^ 18" "(0, pg) \<in> A"
    and one: "atomic_read (pg_count (pages (bd (kmem_st k)) pg)) = 1"
    and other: "\<forall>idx < 7. page_addr pg \<notin> class_pages (kmem_st k) idx"
  obtains k' where "sys_exit status k = Some k'" "tasks_inv (T - {current k}) (A - {(0, pg)}) k'"
    "current k' = (if ready_list k = [] then idle k else hd (ready_list k))"
    "\<forall>i. bit_at (bits (pid_bitmap k')) i \<longleftrightarrow>
       bit_at (bits (pid_bitmap k)) i \<and> i \<noteq> nat (pid (task k (current k)))"
proof -
  define c n where "c = current k" and "n = nat (pid (task k (current k)))"
  have inv': "sched_inv T k" "kmem_inv k (kmem_st k) A" "map_inv 8192 (k, pid_bitmap k)"
    "inj_on (\<lambda>t. pid (task k t)) T"
    "\<forall>t \<in> T. 0 \<le> pid (task k t) \<and> bit_at (bits (pid_bitmap k)) (nat (pid (task k t)))"
    using inv by (simp_all add: tasks_inv_def)
  have cT: "c \<in> T" and c0: "c \<noteq> NULL" "idle k \<in> T" and run: "tstate k c = RUNNING"
    using inv'(1) by (auto simp: c_def sched_inv_def threads_ok_def)
  define k1 where "k1 = set_task c ((task k c)\<lparr>exit_code := status\<rparr>) (set_state c EXIT k)"
  define k2 where "k2 = k1\<lparr>pid_bitmap := set_bits (pid_bitmap k) [n] False\<rparr>"
  have k1: "current k1 = c" "pid_bitmap k1 = pid_bitmap k" "kmem_st k1 = kmem_st k" "mmu_state k1 = mmu_state k"
    "pid (task k1 c) = pid (task k c)" "tstate k1 c = EXIT" "intr_get_status k1 = intr_get_status k"
    by (simp_all add: k1_def set_task_def set_state_def c_def intr_get_status_def)
  have k2: "current k2 = c" "kmem_st k2 = kmem_st k" "mmu_state k2 = mmu_state k"
    by (simp_all add: k2_def k1)
  have cc: "current k1 \<noteq> NULL" "current k2 \<noteq> NULL" "current k \<noteq> NULL" using c0 k1 k2 c_def by simp_all
  have fp: "free_pid (pid (task k1 c)) k1 = Some k2"
    using free_pid_case [of 8192 k1 "pid (task k1 c)"] inv'(3,5) cT map_inv_cong [OF cc(1,3)] k1
    by (simp add: k2_def n_def c_def)
  obtain b where b: "free_page k2 (bd (kmem_st k2)) (mmu_state k2) (page_addr pg) = Some (k2, b)"
    "kmem_inv k2 ((kmem_st k2)\<lparr>bd := b\<rparr>) (A - {(0, pg)})"
    using free_page_case [of k2 "kmem_st k2" A "mmu_state k2" pg] inv'(2) dm pg(3) one other
      kmem_inv_cong [OF cc(2,3)] by (metis k2(2,3))
  define k3 where "k3 = k2\<lparr>kmem_st := (kmem_st k2)\<lparr>bd := b\<rparr>\<rparr>"
  have reap: "reap k1 = Some k3"
    using fp b(1) pg(1) page_thread(1) [OF pg(2)] by (simp add: reap_def k1 k2 c_def k3_def)
  have k3: "tstate k3 = (tstate k)(current k := EXIT)" "current k3 = current k" "idle k3 = idle k"
    "ready_list k3 = ready_list k" "mms k3 = mms k" "mmu_state k3 = mmu_state k"
    "stack_magic (task k3 u) = stack_magic (task k u)" "t_mm (task k3 u) = t_mm (task k u)"
    "pid (task k3 u) = pid (task k u)" "resume k3 = resume k" for u
    by (simp_all add: k3_def k2_def k1_def set_task_def set_state_def c_def)
  note rm = sched_inv_remove [OF inv'(1) cur k3(1-8)]
  define k4 where "k4 = switched k3"
  have ch: "chosen k3 \<noteq> NULL" "activatable k3 (chosen k3)"
    using rm(2,4) inv'(1) by (auto simp: sched_inv_def threads_ok_def)
  have "tstate k3 (current k3) \<noteq> RUNNING" using k3(1,2) by simp
  note tail = dispatch [OF this ch]
  have "schedule k1 = Some k4"
    using tail off reap k3(2) k1(6,7) by (simp add: schedule_def k1(1) k4_def c_def [symmetric] Let_def)
  then have ex: "sys_exit status k = Some (continue k4)"
    by (simp add: sys_exit_def k1_def c_def set_task_def set_state_def Let_def)
  have k4: "current k4 = chosen k3" "kmem_st k4 = (kmem_st k)\<lparr>bd := b\<rparr>"
    "pid_bitmap k4 = set_bits (pid_bitmap k) [n] False" "pid (task k4 u) = pid (task k u)" for u
    using k3(1,2,9) by (simp_all add: k4_def switched_def k3_def k2_def k1_def set_task_def set_state_def c_def)
  define k' where "k' = continue k4"
  have k': "current k' = chosen k3" "kmem_st k' = (kmem_st k)\<lparr>bd := b\<rparr>"
    "pid_bitmap k' = set_bits (pid_bitmap k) [n] False" "pid (task k' u) = pid (task k u)" for u
    using k4 by (simp_all add: k'_def continue_eq)
  have c': "current k' \<noteq> NULL" using ch(1) k' by simp
  have S: "sched_inv (T - {current k}) k'"
    using rm(3) by (simp add: k'_def continue_eq sched_inv_flag k4_def)
  have M: "kmem_inv k' (kmem_st k') (A - {(0, pg)})"
    using b(2) kmem_inv_cong [OF c' cc(2)] by (simp add: k' k2)
  have B: "map_inv 8192 (k', pid_bitmap k')"
    using inv'(3) lock_free_cong [OF c' cc(3)] by (simp add: k' map_inv_def)
  have P: "on_page (A - {(0, pg)}) t" if t: "t \<in> T - {current k}" for t
  proof -
    obtain q x where q: "q < 2 ^ 18" "x \<in> A" "q \<in> blk x" "t = of_nat (page_addr q)"
      using inv t unfolding tasks_inv_def on_page_def by blast
    have "x \<noteq> (0, pg)" using q t pg(1) by (auto simp: blk.simps)
    then show ?thesis using q unfolding on_page_def by blast
  qed
  have D: "nat (pid (task k t)) \<noteq> n" if "t \<in> T - {current k}" for t
  proof -
    have "pid (task k t) \<noteq> pid (task k c)" using inv'(4) that cT by (auto simp: inj_on_def c_def)
    moreover have "0 \<le> pid (task k t)" "0 \<le> pid (task k c)" using inv'(5) that cT by simp_all
    ultimately show ?thesis by (simp add: n_def c_def)
  qed
  have "inj_on (\<lambda>t. pid (task k t)) (T - {current k})" using inv'(4) by (rule inj_on_subset) simp
  then have "tasks_inv (T - {current k}) (A - {(0, pg)}) k'"
    using S M B P D inv'(5) unfolding tasks_inv_def k'(4) by (simp add: k'(3))
  moreover have "current k' = (if ready_list k = [] then idle k else hd (ready_list k))"
    by (simp add: k'(1) chosen_def rm(1) k3(3))
  moreover have "\<forall>i. bit_at (bits (pid_bitmap k')) i \<longleftrightarrow> bit_at (bits (pid_bitmap k)) i \<and> i \<noteq> n"
    by (simp add: k'(3))
  ultimately show thesis using that ex by (simp add: k'_def n_def)
qed

section \<open>A machine with three threads\<close>

text \<open>Thread \<open>a\<close> runs, the idle thread \<open>b\<close> is blocked, \<open>c\<close> waits.\<close>

definition task0 :: "int \<Rightarrow> task_struct" where
  "task0 n = \<lparr>stack = 0, pid = n, pname = [], exit_code = 0, prio = 10, elapsed_ticks = 0, ticks = 3,
     t_mm = 0, fs = 0, files = 0, stack_magic = STACK_MAGIC\<rparr>"

definition pid_map0 :: bitmap where
  "pid_map0 = \<lparr>bits = (\<lambda>p. if p = 0 then 7 else 0), byte_size = 8192, b_lock = mutex_lock_init\<rparr>"

definition tsys0 :: "u32 \<Rightarrow> kmem \<Rightarrow> tid \<Rightarrow> tid \<Rightarrow> tid \<Rightarrow> tsys" where
  "tsys0 f m a b c = \<lparr>eflags = f, current = a, ready_list = [c],
     tstate = (\<lambda>_. BLOCKED)(a := RUNNING, c := READY),
     task = (\<lambda>t. task0 (if t = a then 0 else if t = b then 1 else 2)),
     resume = (\<lambda>_. INTR_ON), switch_data = (\<lambda>_. \<lparr>sw_kthread_start = 0, sw_threadfn = 0, sw_data = 0\<rparr>),
     idle = b, pid_bitmap = pid_map0, sys_ticks = 0, kmem_st = m,
     mms = (\<lambda>_. mm_at 0 0),
     filess = (\<lambda>_. \<lparr>map_file = 0, close_on_exec = 0, open_fds = 0, fd_array = (\<lambda>_. None)\<rparr>),
     fss = (\<lambda>_. \<lparr>cwd = 0, root = 0\<rparr>), file_count = (\<lambda>_. \<lparr>counter = 0\<rparr>), root_dir = 4096, mmu_state = mmu32,
     tss_st = \<lparr>esp0 = 0, ss0 = 0, io_map = 0, gdt_mem = (\<lambda>_. 0), gdtr = 0, tr = 0\<rparr>\<rparr>"

lemma tsys0_fields [simp]:
  "current (tsys0 f m a b c) = a" "ready_list (tsys0 f m a b c) = [c]" "idle (tsys0 f m a b c) = b"
  "kmem_st (tsys0 f m a b c) = m" "pid_bitmap (tsys0 f m a b c) = pid_map0" "mmu_state (tsys0 f m a b c) = mmu32"
  "pid (task (tsys0 f m a b c) t) = (if t = a then 0 else if t = b then 1 else 2)"
  "a \<noteq> c \<Longrightarrow> tstate (tsys0 f m a b c) t = (if t = a then RUNNING else if t = c then READY else BLOCKED)"
  "ticks (task (tsys0 f m a b c) t) = 3" "prio (task (tsys0 f m a b c) t) = 10" "t_mm (task (tsys0 f m a b c) t) = 0"
  "stack_magic (task (tsys0 f m a b c) t) = STACK_MAGIC" "resume (tsys0 f m a b c) t = INTR_ON"
  "eflags (tsys0 f m a b c) = f"
  by (simp_all add: tsys0_def task0_def)

lemma tsys0_sched:
  assumes "distinct [a, b, c]" "NULL \<notin> {a, b, c}"
  shows "sched_inv {a, b, c} (tsys0 f m a b c)"
  using assms by (simp add: sched_inv_def threads_ok_def dirs_ok_def) auto

lemma tsys0_clock:
  assumes "distinct [a, b, c]" "NULL \<notin> {a, b, c}"
  shows "clock_ok {a, b, c} 10 (tsys0 0x202 m a b c)"
proof -
  have "intr_get_status (tsys0 0x202 m a b c) = INTR_ON"
    by (simp add: intr_get_status_def EFLAGS_IF_def)
  then show ?thesis using tsys0_sched [OF assms] by (simp add: clock_ok_def)
qed

lemma pid_map0_bits: "bit_at (bits pid_map0) j \<longleftrightarrow> j < 3"
  using map0_bits [of j] by (simp add: bit_at_def pid_map0_def map0_def)

lemma three_pages:
  obtains m A a b c pg where "tasks_inv {a, b, c} A (tsys0 f m a b c)" "distinct [a, b, c]"
    "3 \<le> card (unused A m)" "a = of_nat (page_addr pg)" "pg < 2 ^ 18" "(0, pg) \<in> A" "pg_cnt (bd m) = 8192"
    "atomic_read (pg_count (pages (bd m) pg)) = 1" "\<forall>idx < 7. class_pages m idx = {}"
proof -
  have "unused {} kmem0 = {..<2048}" using bd32_inv by (auto simp: unused_def kmem0_def)
  then have c0: "Suc 5 \<le> card (unused {} kmem0)" by simp
  obtain p1 b1 where g1: "get_free_page sys0 (bd kmem0) KERNEL_POOL = Some (page_addr p1, sys0, b1)"
    "kmem_inv sys0 (kmem0\<lparr>bd := b1\<rparr>) {(0, p1)}" "\<forall>x \<in> {}. blk x \<inter> blk (0, p1) = {}" "p1 < 2 ^ 18"
    "5 \<le> card (unused {(0, p1)} (kmem0\<lparr>bd := b1\<rparr>))" "pg_cnt b1 = pg_cnt (bd kmem0)"
    "atomic_read (pg_count (pages b1 p1)) = 1"
    by (rule get_page_case [OF kmem0_inv c0])
  then have c1: "Suc 4 \<le> card (unused {(0, p1)} (kmem0\<lparr>bd := b1\<rparr>))" by simp
  obtain p2 b2 where g2: "get_free_page sys0 (bd (kmem0\<lparr>bd := b1\<rparr>)) KERNEL_POOL = Some (page_addr p2, sys0, b2)"
    "kmem_inv sys0 (kmem0\<lparr>bd := b1\<rparr>\<lparr>bd := b2\<rparr>) {(0, p2), (0, p1)}"
    "\<forall>x \<in> {(0, p1)}. blk x \<inter> blk (0, p2) = {}" "p2 < 2 ^ 18"
    "4 \<le> card (unused {(0, p2), (0, p1)} (kmem0\<lparr>bd := b1\<rparr>\<lparr>bd := b2\<rparr>))"
    "pg_cnt b2 = pg_cnt (bd (kmem0\<lparr>bd := b1\<rparr>))" "atomic_read (pg_count (pages b2 p2)) = 1"
    by (rule get_page_case [OF g1(2) c1])
  then have c2: "Suc 3 \<le> card (unused {(0, p2), (0, p1)} (kmem0\<lparr>bd := b1\<rparr>\<lparr>bd := b2\<rparr>))" by simp
  obtain p3 b3 where g3:
    "get_free_page sys0 (bd (kmem0\<lparr>bd := b1\<rparr>\<lparr>bd := b2\<rparr>)) KERNEL_POOL = Some (page_addr p3, sys0, b3)"
    "kmem_inv sys0 (kmem0\<lparr>bd := b1\<rparr>\<lparr>bd := b2\<rparr>\<lparr>bd := b3\<rparr>) {(0, p3), (0, p2), (0, p1)}"
    "\<forall>x \<in> {(0, p2), (0, p1)}. blk x \<inter> blk (0, p3) = {}" "p3 < 2 ^ 18"
    "3 \<le> card (unused {(0, p3), (0, p2), (0, p1)} (kmem0\<lparr>bd := b1\<rparr>\<lparr>bd := b2\<rparr>\<lparr>bd := b3\<rparr>))"
    "pg_cnt b3 = pg_cnt (bd (kmem0\<lparr>bd := b1\<rparr>\<lparr>bd := b2\<rparr>))" "atomic_read (pg_count (pages b3 p3)) = 1"
    by (rule get_page_case [OF g2(2) c2])
  have 1: "p1 < 2 ^ 18" and 2: "p2 < 2 ^ 18" "p1 \<noteq> p2"
    and 3: "p3 < 2 ^ 18" "p1 \<noteq> p3" "p2 \<noteq> p3" "pg_cnt b3 = 8192"
    using g1(4,6) g2(3,4,6) g3(3,4,6) bd32_inv(3) by (auto simp: blk.simps kmem0_def)
  define m A where "m = kmem0\<lparr>bd := b3\<rparr>" and "A = {(0 :: nat, p3), (0, p2), (0, p1)}"
  define a b c :: tid where "a = of_nat (page_addr p3)" and "b = of_nat (page_addr p1)" and "c = of_nat (page_addr p2)"
  have inj: "of_nat (page_addr p) \<noteq> (of_nat (page_addr q) :: tid)" if "p \<noteq> q" "p < 2 ^ 18" "q < 2 ^ 18" for p q
    using page_thread(1) [OF that(2)] page_thread(1) [OF that(3)] that(1) page_addr_eq by metis
  have d: "distinct [a, b, c]" using inj 1 2 3(1-3) by (auto simp: a_def b_def c_def)
  have n: "NULL \<notin> {a, b, c}" using page_thread(2) [OF 1] page_thread(2) [OF 2(1)] page_thread(2) [OF 3(1)]
    unfolding a_def b_def c_def by (simp add: eq_commute [of NULL])
  have "lock_at 0 (tsys0 f m a b c) pid_map0"
    using n by (auto simp: lock_at_def pid_map0_def mutex_init_at)
  then have "map_inv 8192 (tsys0 f m a b c, pid_map0)" by (simp add: map_inv_def pid_map0_def)
  moreover have "on_page A a" "on_page A b" "on_page A c"
    using on_pageI 1 2(1) 3(1) by (simp_all add: a_def b_def c_def A_def)
  moreover have "kmem_inv (tsys0 f m a b c) m A"
    using kmem_inv_cong [of "tsys0 f m a b c" sys0 m A] n current_sys0 g3(2) by (auto simp: m_def A_def)
  ultimately have "tasks_inv {a, b, c} A (tsys0 f m a b c)"
    using tsys0_sched [OF d n, of f m] d by (auto simp: tasks_inv_def pid_map0_bits inj_on_def)
  then show thesis
    using that [of a b c A m p3] d 3 g3 by (simp add: m_def A_def a_def class_pages_def kmem0_def)
qed

section \<open>Sleeping\<close>

lemma ticks_to_sleep_bounds:
  "s < 2 ^ 32 \<Longrightarrow> n + D < 2 ^ 32 \<Longrightarrow> \<forall>d \<in> set away. d \<le> D \<Longrightarrow> n \<le> s + sum_list away \<Longrightarrow> s < n + D \<Longrightarrow>
   \<exists>j \<le> length away. ticks_to_sleep start (of_nat n) away (start + of_nat s) = Some (start + of_nat (s + sum_list (take j away))) \<and>
     n \<le> s + sum_list (take j away) \<and> s + sum_list (take j away) < n + D"
proof (induction away arbitrary: s)
  case Nil
  have "\<not> (of_nat s :: u32) < of_nat n"
    using Nil by (simp add: word_less_nat_alt unat_of_nat)
  then show ?case using Nil by (simp add: ticks_to_sleep.simps)
next
  case (Cons d ds)
  have lt: "(of_nat s :: u32) < of_nat n \<longleftrightarrow> s < n"
    using Cons.prems(1,2) by (simp add: word_less_nat_alt unat_of_nat)
  show ?case
  proof (cases "s < n")
    case True
    have d: "d \<le> D" "\<forall>d \<in> set ds. d \<le> D" "n \<le> (s + d) + sum_list ds" using Cons.prems by auto
    then have "s + d < 2 ^ 32" "s + d < n + D" using True Cons.prems(2) by auto
    from Cons.IH [OF this(1) Cons.prems(2) d(2,3) this(2)] obtain j where
      "j \<le> length ds" "ticks_to_sleep start (of_nat n) ds (start + of_nat (s + d)) =
        Some (start + of_nat (s + d + sum_list (take j ds)))"
      "n \<le> s + d + sum_list (take j ds)" "s + d + sum_list (take j ds) < n + D" by blast
    then show ?thesis
      using True lt by (intro exI [of _ "Suc j"]) (simp add: ticks_to_sleep.simps [of _ _ "d # ds"] add.assoc)
  next
    case False
    then show ?thesis
      using lt Cons.prems(5) by (intro exI [of _ 0]) (simp add: ticks_to_sleep.simps)
  qed
qed

section \<open>Properties\<close>

text \<open>C10: the scheduler never panics: whatever sequence of clock interrupts, yields, blocks and wake-ups
  of blocked threads happens, every call of \<open>schedule\<close> finds a thread to run, exactly one thread is running, and the ready
  queue holds exactly the ready threads, each once.\<close>

theorem scheduler_never_stuck:
  assumes "sched_inv T k" "\<forall>t. Wake t \<in> set es \<longrightarrow> t \<in> T"
  shows "\<exists>k' log. run_sched es k = Some (k', log) \<and> sched_inv T k'"
  using run_sched_ok [OF assms] by blast

theorem scheduler_never_stuck_witness:
  "\<exists>k' log. run_sched [Block, Tick, Wake 4096, Yield] (tsys0 0x202 kmem0 4096 8192 12288) = Some (k', log) \<and>
     sched_inv {4096, 8192, 12288} k'"
proof -
  have "sched_inv {4096, 8192, 12288} (tsys0 0x202 kmem0 4096 8192 12288)"
    by (rule tsys0_sched) (simp_all add: NULL_def)
  from scheduler_never_stuck [OF this, of "[Block, Tick, Wake 4096, Yield]"] show ?thesis by auto
qed

text \<open>the ready queue is served in order: the first threads that \<open>switch_to\<close> goes to are those that
  were waiting, in the order of the queue, whatever else happens in between.\<close>

theorem scheduler_fifo:
  assumes "sched_inv T k" "\<forall>t. Wake t \<in> set es \<longrightarrow> t \<in> T" "run_sched es k = Some (k', log)"
    and "i < length (ready_list k)" "i < length log"
  shows "log ! i = ready_list k ! i"
  using run_sched_ok [OF assms(1,2)] assms(3-) by auto

theorem scheduler_fifo_witness:
  "\<exists>k' log. run_sched [Yield, Yield] (tsys0 0x202 kmem0 4096 8192 12288) = Some (k', log) \<and> log ! 0 = 12288"
proof -
  have inv: "sched_inv {4096, 8192, 12288} (tsys0 0x202 kmem0 4096 8192 12288)"
    by (rule tsys0_sched) (simp_all add: NULL_def)
  obtain k' log where r: "run_sched [Yield, Yield] (tsys0 0x202 kmem0 4096 8192 12288) = Some (k', log)"
    using run_sched_ok [OF inv, of "[Yield, Yield]"] by auto
  then have "0 < length log" by (auto simp: switches_def bind_eq_Some_conv)
  from scheduler_fifo [OF inv _ r _ this] r show ?thesis by auto
qed

text \<open>C11: nobody starves: with the clock alone, a thread at place \<open>i\<close> of the ready queue runs after at most
  \<open>(i + 1) * (P + 1)\<close> ticks, where \<open>P\<close> bounds the priorities and what is left of the time slices.\<close>

theorem round_robin:
  assumes "clock_ok T P k" "i < length (ready_list k)"
  shows "\<exists>n k' log. n \<le> Suc i * Suc P \<and> run_sched (replicate n Tick) k = Some (k', log) \<and>
     current k' = ready_list k ! i"
  using clock_reaches [OF assms] by blast

theorem round_robin_witness:
  "\<exists>n k' log. n \<le> 11 \<and> run_sched (replicate n Tick) (tsys0 0x202 kmem0 4096 8192 12288) = Some (k', log) \<and>
     current k' = 12288"
proof -
  have "clock_ok {4096, 8192, 12288} 10 (tsys0 0x202 kmem0 4096 8192 12288)"
    by (rule tsys0_clock) (simp_all add: NULL_def)
  from round_robin [OF this, of 0] show ?thesis by simp
qed

text \<open>a time slice is exact: with \<open>m\<close> ticks left the running thread keeps the processor for \<open>m\<close> clock
  interrupts and loses it to the first of the queue (itself, if nobody waits) at the next.\<close>

theorem time_slice:
  assumes "clock_ok T P k" "unat (ticks (task k (current k))) = m"
  shows "(\<forall>n \<le> m. \<exists>k'. run_sched (replicate n Tick) k = Some (k', []) \<and> current k' = current k) \<and>
    (\<exists>k'. run_sched (replicate (Suc m) Tick) k = Some (k', [current k']) \<and>
      current k' # ready_list k' = ready_list k @ [current k])"
  using clock_slice [OF assms] by blast

theorem time_slice_witness:
  "(\<exists>k'. run_sched [Tick, Tick, Tick] (tsys0 0x202 kmem0 4096 8192 12288) = Some (k', []) \<and> current k' = 4096) \<and>
   (\<exists>k'. run_sched [Tick, Tick, Tick, Tick] (tsys0 0x202 kmem0 4096 8192 12288) = Some (k', [current k']) \<and>
      current k' = 12288)"
proof -
  have ok: "clock_ok {4096, 8192, 12288} 10 (tsys0 0x202 kmem0 4096 8192 12288)"
    by (rule tsys0_clock) (simp_all add: NULL_def)
  have t: "unat (ticks (task (tsys0 0x202 kmem0 4096 8192 12288) (current (tsys0 0x202 kmem0 4096 8192 12288)))) = 3" by simp
  show ?thesis using time_slice [OF ok t] by (auto simp: numeral_eq_Suc)
qed

text \<open>C14: \<open>mtime_sleep\<close> comes back, after at least the ticks the time stands for and before one turn of the
  others more than that, also across a wrap of the tick counter.\<close>

theorem mtime_sleep_bounds:
  assumes "0 < m" "m \<le> 0xFFFFFFF6" and n: "n = (unat m + 9) div 10" and D: "\<forall>d \<in> set away. d \<le> D" "n + D < 2 ^ 32"
    and enough: "n \<le> sum_list away"
  shows "\<exists>j \<le> length away. mtime_sleep m away now = Some (now + of_nat (sum_list (take j away))) \<and>
    n \<le> sum_list (take j away) \<and> sum_list (take j away) < n + D"
proof -
  have m: "unat m \<le> 4294967286" "0 < unat m" using assms(1,2) by (simp_all add: word_le_nat_alt unat_gt_0 word_gt_0)
  then have "unat (m + 9) = unat m + 9" by (simp add: unat_word_ariths)
  then have sl: "(m + mil_seconds_per_intr - 1) div mil_seconds_per_intr = of_nat n"
    by (simp add: mil_seconds_per_intr_def HZ_def n word_arith_nat_div add.commute [of 9])
  have n0: "0 < n" using m n by simp
  moreover have "unat (of_nat n :: u32) = n" using D(2) by (simp add: unat_of_nat)
  ultimately have pos: "0 < (of_nat n :: u32)" by (simp add: word_less_nat_alt)
  have "sum_list away = 0" if "D = 0" using that D(1) by (simp add: sum_list_eq_0_iff)
  then have "0 < n + D" using n0 by simp
  from ticks_to_sleep_bounds [OF _ D(2,1) _ this, of now] enough show ?thesis
    by (simp add: mtime_sleep_def sl pos)
qed

theorem mtime_sleep_bounds_witness:
  "\<exists>j. j \<le> 3 \<and> mtime_sleep 95 [4, 5, 4 :: nat] 0xFFFFFFFE = Some (0xFFFFFFFE + of_nat (sum_list (take j [4, 5, 4]))) \<and>
    10 \<le> sum_list (take j [4, 5, 4 :: nat]) \<and> sum_list (take j [4, 5, 4 :: nat]) < 10 + 5"
  using mtime_sleep_bounds [of 95 10 "[4, 5, 4]" 5 "0xFFFFFFFE"] by (simp add: numeral_3_eq_3)

text \<open>A name that does not fit into \<open>pname\<close> has no result.\<close>

lemma init_thread_long_name: "10 \<le> length name \<Longrightarrow> init_thread start t threadfn data pri name k = None"
  by (simp add: init_thread_def Let_def)

text \<open>C12: with three pages and a process number at hand and a name of at most nine bytes, which fits into \<open>pname\<close>
  with its NUL, \<open>kthread_create\<close> returns a thread on a page of its own, with the lowest free number and the three standard files open, at the end of the ready queue; the
  other threads, the time slice left in the page by its former user included, are as they were.\<close>

theorem kthread_create_correct:
  assumes "tasks_inv T A k" "3 \<le> card (unused A (kmem_st k))" "\<exists>i < 65536. \<not> bit_at (bits (pid_bitmap k)) i"
    and "length name < 10"
  shows "\<exists>t k'. kthread_create start threadfn data pri name k = Some (t, k') \<and>
    t \<notin> T \<and> (\<exists>A'. A \<subseteq> A' \<and> tasks_inv (insert t T) A' k') \<and>
    new_thread start threadfn data pri name t k k' \<and>
    ready_list k' = ready_list k @ [t] \<and> keeps t k (k'\<lparr>ready_list := ready_list k\<rparr>) \<and>
    pid (task k' t) < 65536 \<and> (\<forall>j < nat (pid (task k' t)). bit_at (bits (pid_bitmap k)) j)"
  by (rule kthread_create_case [OF assms])

theorem kthread_create_correct_witness:
  "\<exists>k T A t k' A'. tasks_inv T A (k :: tsys) \<and> kthread_create 0 1 2 10 [97] k = Some (t, k') \<and>
     tasks_inv (insert t T) A' k' \<and> t \<notin> T \<and> ready_list k' = ready_list k @ [t]"
proof -
  obtain m A a b c pg where m: "tasks_inv {a, b, c} A (tsys0 0x202 m a b c)" "distinct [a, b, c]"
    "3 \<le> card (unused A m)" "a = of_nat (page_addr pg)" "pg < 2 ^ 18" "(0, pg) \<in> A" "pg_cnt (bd m) = 8192"
    "atomic_read (pg_count (pages (bd m) pg)) = 1" "\<forall>idx < 7. class_pages m idx = {}"
    by (rule three_pages)
  have "3 \<le> card (unused A (kmem_st (tsys0 0x202 m a b c)))"
    "\<exists>i < 65536. \<not> bit_at (bits (pid_bitmap (tsys0 0x202 m a b c))) i"
    using m(3) by (auto simp: pid_map0_bits intro: exI [of _ 3])
  moreover have "length [97 :: u8] < 10" by simp
  ultimately show ?thesis using kthread_create_correct [OF m(1)] m(1) by blast
qed

text \<open>C13: \<open>sys_exit\<close> of a thread gives its number and its page back, the invariant holds for the others, and
  the first of the ready queue runs, or the idle thread.\<close>

theorem sys_exit_correct:
  assumes "tasks_inv T A k" "intr_get_status k = INTR_OFF" "current k \<noteq> idle k"
    and "direct_map (mmu_state k) (pg_cnt (bd (kmem_st k)))"
    and "current k = of_nat (page_addr pg)" "pg < 2 ^ 18" "(0, pg) \<in> A"
    and "atomic_read (pg_count (pages (bd (kmem_st k)) pg)) = 1"
    and "\<forall>idx < 7. page_addr pg \<notin> class_pages (kmem_st k) idx"
  shows "\<exists>k'. sys_exit status k = Some k' \<and> tasks_inv (T - {current k}) (A - {(0, pg)}) k' \<and>
    current k' = (if ready_list k = [] then idle k else hd (ready_list k)) \<and>
    (\<forall>i. bit_at (bits (pid_bitmap k')) i \<longleftrightarrow> bit_at (bits (pid_bitmap k)) i \<and> i \<noteq> nat (pid (task k (current k))))"
  using sys_exit_case [OF assms] by metis

theorem sys_exit_correct_witness:
  "\<exists>k T A k' A'. tasks_inv T A (k :: tsys) \<and> sys_exit 3 k = Some k' \<and> tasks_inv (T - {current k}) A' k' \<and>
     bit_at (bits (pid_bitmap k)) 0 \<and> \<not> bit_at (bits (pid_bitmap k')) 0"
proof -
  obtain m A a b c pg where m: "tasks_inv {a, b, c} A (tsys0 0 m a b c)" "distinct [a, b, c]"
    "3 \<le> card (unused A m)" "a = of_nat (page_addr pg)" "pg < 2 ^ 18" "(0, pg) \<in> A" "pg_cnt (bd m) = 8192"
    "atomic_read (pg_count (pages (bd m) pg)) = 1" "\<forall>idx < 7. class_pages m idx = {}"
    by (rule three_pages)
  let ?k = "tsys0 0 m a b c"
  have "intr_get_status ?k = INTR_OFF" by (simp add: intr_get_status_def)
  moreover have "current ?k \<noteq> idle ?k" using m(2) by simp
  moreover have "direct_map (mmu_state ?k) (pg_cnt (bd (kmem_st ?k)))" using mmu32_map m(7) by simp
  moreover have "current ?k = of_nat (page_addr pg)" using m(4) by simp
  moreover have "atomic_read (pg_count (pages (bd (kmem_st ?k)) pg)) = 1" using m(8) by simp
  moreover have "\<forall>idx < 7. page_addr pg \<notin> class_pages (kmem_st ?k) idx" using m(9) by simp
  moreover note pg = m(5,6)
  ultimately obtain k' where "sys_exit 3 ?k = Some k'" "tasks_inv ({a, b, c} - {current ?k}) (A - {(0, pg)}) k'"
    "\<forall>i. bit_at (bits (pid_bitmap k')) i \<longleftrightarrow> bit_at (bits (pid_bitmap ?k)) i \<and> i \<noteq> nat (pid (task ?k (current ?k)))"
    using sys_exit_correct [OF m(1), of pg 3] by metis
  then show ?thesis using m(1) by (fastforce simp: pid_map0_bits)
qed

end
