(* ===== verification/File_Io.thy ===== *)
theory File_Io
  imports Inode Task_Life
begin

text \<open>
  \<open>file_write\<close> and \<open>file_read\<close> of fs/file.c: the bytes of a file in 12 sectors named in its inode and up to
  128 more named in the sector \<open>i_sectors[12]\<close>. The buffer \<open>io_buf\<close> holds one sector of data and, behind
  it, that table; \<open>next_lba\<close> is a place in the inode or in the table.
\<close>

section \<open>The code\<close>

definition FT_NORMAL :: u16 where "FT_NORMAL = push_bit 12 1"
definition FT_DIR :: u16 where "FT_DIR = push_bit 12 2"
definition FT_SCREEN :: u16 where "FT_SCREEN = push_bit 12 3"
definition FT_KEYBOARD :: u16 where "FT_KEYBOARD = push_bit 12 4"

datatype lba_ref = In_inode nat | In_table nat

definition get_lba :: "nat \<Rightarrow> nat \<Rightarrow> lba_ref \<Rightarrow> 'a fsys_scheme \<Rightarrow> u32" where
  "get_lba i io_buf next_lba k = (case next_lba of
       In_inode j \<Rightarrow> i_sectors (inodes k i) j
     | In_table j \<Rightarrow> word32_at (fmem k) (io_buf + 512 + j * 4))"

definition set_sector :: "nat \<Rightarrow> nat \<Rightarrow> u32 \<Rightarrow> 'a fsys_scheme \<Rightarrow> 'a fsys_scheme" where
  "set_sector i j w k = k\<lparr>inodes := (inodes k)(i := (inodes k i)\<lparr>i_sectors := (i_sectors (inodes k i))(j := w)\<rparr>)\<rparr>"

definition put_lba :: "nat \<Rightarrow> nat \<Rightarrow> lba_ref \<Rightarrow> u32 \<Rightarrow> 'a fsys_scheme \<Rightarrow> 'a fsys_scheme" where
  "put_lba i io_buf next_lba w k = (case next_lba of
       In_inode j \<Rightarrow> set_sector i j w k
     | In_table j \<Rightarrow> k\<lparr>fmem := writes (fmem k) (io_buf + 512 + j * 4) (bytes32 w)\<rparr>)"

text \<open>The first half of the loop of \<open>file_write\<close>: where the number of sector \<open>sec\<close> is kept.\<close>

definition find_write :: "nat \<Rightarrow> nat \<Rightarrow> nat \<Rightarrow> bool \<Rightarrow> 'a fsys_scheme \<Rightarrow> (lba_ref \<times> bool \<times> 'a fsys_scheme) option" where
  "find_write i io_buf sec is_sync_second k =
     (if sec < 12 then Some (In_inode sec, is_sync_second, k)
      else if sec = 12
      then (if i_sectors (inodes k i) 12 = 0
        then do {
          (lba, k) \<leftarrow> block_bimap_alloc k;
          let k = set_sector i 12 (of_nat lba) k;
          k \<leftarrow> read_disk (unat (i_sectors (inodes k i) 12)) (io_buf + 512) 1 k;
          let k = k\<lparr>fmem := memset (io_buf + 512) 0 512 (fmem k)\<rparr>;
          Some (In_table 0, True, k) }
        else do {
          k \<leftarrow> read_disk (unat (i_sectors (inodes k i) 12)) (io_buf + 512) 1 k;
          Some (In_table 0, is_sync_second, k) })
      else Some (In_table (sec - 12), is_sync_second, k))"

definition sector_for :: "nat \<Rightarrow> nat \<Rightarrow> nat \<Rightarrow> bool \<Rightarrow> 'a fsys_scheme \<Rightarrow> (lba_ref \<times> bool \<times> 'a fsys_scheme) option" where
  "sector_for i io_buf sec is_sync_second k = do {
     (next_lba, is_sync_second, k) \<leftarrow> find_write i io_buf sec is_sync_second k;
     if get_lba i io_buf next_lba k = 0
     then do {
       let is_sync_second = (is_sync_second \<or> 12 < sec);
       (lba, k) \<leftarrow> block_bimap_alloc k;
       Some (next_lba, is_sync_second, put_lba i io_buf next_lba (of_nat lba) k) }
     else Some (next_lba, is_sync_second, k) }"

definition write_sector :: "nat \<Rightarrow> nat \<Rightarrow> nat \<Rightarrow> nat \<Rightarrow> nat \<Rightarrow> nat \<Rightarrow> bool \<Rightarrow> 'a fsys_scheme \<Rightarrow>
    (nat \<times> bool \<times> 'a fsys_scheme) option" where
  "write_sector i io_buf src cnt off sec is_sync_second k = do {
     (next_lba, is_sync_second, k) \<leftarrow> sector_for i io_buf sec is_sync_second k;
     let c = min cnt (SECTOR_SIZE - off);
     let lba = get_lba i io_buf next_lba k;
     ASSERT (lba \<noteq> 0);
     k \<leftarrow> read_disk (unat lba) io_buf 1 k;
     let k = k\<lparr>fmem := memcpy (io_buf + off) src c (fmem k)\<rparr>;
     k \<leftarrow> write_disk (unat (get_lba i io_buf next_lba k)) io_buf 1 k;
     Some (c, is_sync_second, k) }"

function write_loop_fs :: "nat \<Rightarrow> nat \<Rightarrow> nat \<Rightarrow> nat \<Rightarrow> nat \<Rightarrow> nat \<Rightarrow> bool \<Rightarrow> 'a fsys_scheme \<Rightarrow>
    (nat \<times> bool \<times> 'a fsys_scheme) option" where
  "write_loop_fs i io_buf src cnt off sec is_sync_second k =
     (if 0 < cnt \<and> sec < 12 + 128
      then (case write_sector i io_buf src cnt off sec is_sync_second k of
          None \<Rightarrow> None
        | Some (c, is_sync_second, k) \<Rightarrow>
            write_loop_fs i io_buf (src + c) (cnt - c) 0 (sec + 1) is_sync_second k)
      else Some (cnt, is_sync_second, k))"
  by pat_completeness auto
termination
  by (relation "measure (\<lambda>(i, io_buf, src, cnt, off, sec, s, k). 140 - sec)") auto

declare write_loop_fs.simps [simp del]

text \<open>A regular file: everything of \<open>file_write\<close> behind the test for the screen.\<close>

definition write_body :: "nat \<Rightarrow> nat \<Rightarrow> nat \<Rightarrow> nat \<Rightarrow> nat \<Rightarrow> 'a fsys_scheme \<Rightarrow> 'a fsys_scheme option" where
  "write_body i io_buf src cnt p k = do {
     let sec = p div SECTOR_SIZE;
     k \<leftarrow> (if 12 < sec
       then do {
         ASSERT (i_sectors (inodes k i) 12 \<noteq> 0);
         read_disk (unat (i_sectors (inodes k i) 12)) (io_buf + 512) 1 k }
       else Some k);
     (left, is_sync_second, k) \<leftarrow> write_loop_fs i io_buf src cnt (p mod SECTOR_SIZE) sec False k;
     ASSERT (left = 0);
     let is_sync_inode = (unat (i_size (inodes k i)) < p + cnt);
     let k = (if is_sync_inode then k\<lparr>inodes := (inodes k)(i := (inodes k i)\<lparr>i_size := of_nat (p + cnt)\<rparr>)\<rparr> else k);
     k \<leftarrow> (if is_sync_second then write_disk (unat (i_sectors (inodes k i) 12)) (io_buf + 512) 1 k else Some k);
     if is_sync_inode then inode_sync i io_buf k else Some k }"

definition write_inode :: "nat \<Rightarrow> nat \<Rightarrow> nat \<Rightarrow> nat \<Rightarrow> 'a fsys_scheme \<Rightarrow> (int \<times> nat \<times> 'a fsys_scheme) option" where
  "write_inode i src cnt p k = do {
     (io_buf, k) \<leftarrow> kmalloc_fs 1024 k;
     k \<leftarrow> write_body i io_buf src cnt p k;
     k \<leftarrow> kfree_fs io_buf k;
     Some (int cnt, p + cnt, k) }"

definition file_write :: "nat \<Rightarrow> nat \<Rightarrow> nat \<Rightarrow> nat \<Rightarrow> 'a fsys_scheme \<Rightarrow> (int \<times> nat \<times> 'a fsys_scheme) option" where
  "file_write f src cnt p k =
     (if f_mode (file_table k f) AND 0xf000 = FT_SCREEN
      then do {
        (c, k, cn, m) \<leftarrow> console_print (console_buf k) (va_stack k) src (int cnt) k (con k) (fmem k);
        Some (c, p, k\<lparr>con := cn, fmem := m\<rparr>) }
      else write_inode (d_inode (dentries k (f_dentry (file_table k f)))) src cnt p k)"

text \<open>\<open>file_read\<close> copies a number out of the inode to the start of the table.\<close>

definition find_read :: "nat \<Rightarrow> nat \<Rightarrow> nat \<Rightarrow> lba_ref \<Rightarrow> 'a fsys_scheme \<Rightarrow> (lba_ref \<times> 'a fsys_scheme) option" where
  "find_read i io_buf sec next_lba k =
     (if sec < 12 then Some (next_lba, put_lba i io_buf next_lba (i_sectors (inodes k i) sec) k)
      else if sec = 12
      then do {
        k \<leftarrow> read_disk (unat (i_sectors (inodes k i) 12)) (io_buf + 512) 1 k;
        Some (In_table 0, k) }
      else Some (In_table (sec - 12), k))"

definition read_sector :: "nat \<Rightarrow> nat \<Rightarrow> nat \<Rightarrow> nat \<Rightarrow> nat \<Rightarrow> nat \<Rightarrow> lba_ref \<Rightarrow> 'a fsys_scheme \<Rightarrow>
    (nat \<times> lba_ref \<times> 'a fsys_scheme) option" where
  "read_sector i io_buf dest cnt off sec next_lba k = do {
     (next_lba, k) \<leftarrow> find_read i io_buf sec next_lba k;
     let c = min cnt (SECTOR_SIZE - off);
     let lba = get_lba i io_buf next_lba k;
     ASSERT (lba \<noteq> 0);
     k \<leftarrow> read_disk (unat lba) io_buf 1 k;
     let k = k\<lparr>fmem := memcpy dest (io_buf + off) c (fmem k)\<rparr>;
     Some (c, next_lba, k) }"

function read_loop_fs :: "nat \<Rightarrow> nat \<Rightarrow> nat \<Rightarrow> nat \<Rightarrow> nat \<Rightarrow> nat \<Rightarrow> lba_ref \<Rightarrow> 'a fsys_scheme \<Rightarrow>
    (nat \<times> 'a fsys_scheme) option" where
  "read_loop_fs i io_buf dest cnt off sec next_lba k =
     (if 0 < cnt \<and> sec < 12 + 128
      then (case read_sector i io_buf dest cnt off sec next_lba k of
          None \<Rightarrow> None
        | Some (c, next_lba, k) \<Rightarrow> read_loop_fs i io_buf (dest + c) (cnt - c) 0 (sec + 1) next_lba k)
      else Some (cnt, k))"
  by pat_completeness auto
termination
  by (relation "measure (\<lambda>(i, io_buf, dest, cnt, off, sec, s, k). 140 - sec)") auto

declare read_loop_fs.simps [simp del]

definition read_inode :: "nat \<Rightarrow> nat \<Rightarrow> nat \<Rightarrow> nat \<Rightarrow> 'a fsys_scheme \<Rightarrow> (int \<times> nat \<times> 'a fsys_scheme) option" where
  "read_inode i dest cnt p k = do {
     (io_buf, k) \<leftarrow> kmalloc_fs 1024 k;
     ASSERT (p \<le> unat (i_size (inodes k i)));
     let cnt = min (unat (i_size (inodes k i))) (p + cnt) - p;
     let sec = p div SECTOR_SIZE;
     k \<leftarrow> (if 12 < sec then read_disk (unat (i_sectors (inodes k i) 12)) (io_buf + 512) 1 k else Some k);
     (left, k) \<leftarrow> read_loop_fs i io_buf dest cnt (p mod SECTOR_SIZE) sec (In_table 0) k;
     ASSERT (left = 0);
     k \<leftarrow> kfree_fs io_buf k;
     Some (int cnt, p + cnt, k) }"

definition file_read :: "nat \<Rightarrow> nat \<Rightarrow> nat \<Rightarrow> nat \<Rightarrow> 'a fsys_scheme \<Rightarrow> (int \<times> nat \<times> 'a fsys_scheme) option" where
  "file_read f dest cnt p k =
     (if f_mode (file_table k f) AND 0xf000 = FT_KEYBOARD
      then do {
        (n, k, kb, cn, m) \<leftarrow> keyboard_readline dest (int cnt) (k, kbd_st k, con k, fmem k);
        Some (n, p, k\<lparr>kbd_st := kb, con := cn, fmem := m\<rparr>) }
      else read_inode (d_inode (dentries k (f_dentry (file_table k f)))) dest cnt p k)"

section \<open>The sectors of a file\<close>

definition table_of :: "'a fsys_scheme \<Rightarrow> nat \<Rightarrow> nat" where
  "table_of k i = unat (i_sectors (inodes k i) 12)"

definition table_word :: "mem \<Rightarrow> nat \<Rightarrow> nat \<Rightarrow> nat" where
  "table_word f a s = unat (word32_at f (a + (s - 12) * 4))"

definition lba_of :: "'a fsys_scheme \<Rightarrow> nat \<Rightarrow> nat \<Rightarrow> nat" where
  "lba_of k i s = (if s < 12 then unat (i_sectors (inodes k i) s)
     else if table_of k i = 0 then 0 else table_word (dsk k (table_of k i)) 0 s)"

text \<open>The first \<open>G\<close> sectors of a file are different blocks in use, the others have the number 0; the table
  is another such block, there when there are more than 12 sectors.\<close>

definition blocks_ok :: "nat set \<Rightarrow> nat \<Rightarrow> nat \<Rightarrow> (nat \<Rightarrow> nat) \<Rightarrow> bool" where
  "blocks_ok U t G M \<longleftrightarrow> G \<le> 140 \<and> M ` {..<G} \<subseteq> U \<and> inj_on M {..<G} \<and> (\<forall>s. G \<le> s \<longrightarrow> s < 140 \<longrightarrow> M s = 0) \<and>
     (if 12 < G then t \<in> U - M ` {..<G} else t = 0)"

lemma blocks_ok_more:
  assumes "blocks_ok U t G M" "b \<notin> U" "G < 140" "insert b U \<subseteq> U'"
    and "if 12 \<le> G then t' \<in> U' - insert b (M ` {..<G}) else t' = 0"
  shows "blocks_ok U' t' (Suc G) (M(G := b))"
proof -
  have "M(G := b) ` {..<Suc G} = insert b (M ` {..<G})" "inj_on (M(G := b)) {..<Suc G}"
    using assms by (auto simp: blocks_ok_def lessThan_Suc inj_on_def)
  then show ?thesis using assms by (auto simp: blocks_ok_def)
qed

text \<open>Where the loops find the numbers \<open>M\<close> of the sectors before sector \<open>sec\<close>: the table is in the buffer
  once sector 12 has been passed.\<close>

definition loop_map :: "'a fsys_scheme \<Rightarrow> nat \<Rightarrow> nat \<Rightarrow> nat \<Rightarrow> (nat \<Rightarrow> nat) \<Rightarrow> bool" where
  "loop_map k i io sec M \<longleftrightarrow> (\<forall>s < 12. unat (i_sectors (inodes k i) s) = M s) \<and>
     (\<forall>s. 12 \<le> s \<longrightarrow> s < 140 \<longrightarrow> (if 12 < sec then table_word (fmem k) (io + 512) s else lba_of k i s) = M s) \<and>
     (12 < sec \<longrightarrow> table_of k i \<noteq> 0)"

definition table_stored :: "'a fsys_scheme \<Rightarrow> nat \<Rightarrow> (nat \<Rightarrow> nat) \<Rightarrow> bool" where
  "table_stored k i M \<longleftrightarrow> (\<forall>s. 12 \<le> s \<longrightarrow> s < 140 \<longrightarrow> table_word (dsk k (table_of k i)) 0 s = M s)"

text \<open>What finding or taking a sector does: it takes blocks \<open>X\<close> and changes the numbers in inode \<open>i\<close> and the
  buffer.\<close>

definition seeks :: "nat set \<Rightarrow> nat \<Rightarrow> nat \<Rightarrow> 'a fsys_scheme \<Rightarrow> 'a fsys_scheme \<Rightarrow> bool" where
  "seeks X i io k k' \<longleftrightarrow> takes X k k' \<and>
     (\<exists>f. inodes k' = (inodes k)(i := (inodes k i)\<lparr>i_sectors := f\<rparr>)) \<and>
     (\<forall>a. a < io \<or> io + 1024 \<le> a \<longrightarrow> fmem k' a = fmem k a)"

lemma seeksD:
  assumes "seeks X i io k k'"
  shows "fs_ok k'" "takes X k k'" "used_blocks k' = used_blocks k \<union> X" "near k k'"
  using assms by (auto simp: seeks_def takes_def)

lemma seeks_trans:
  assumes "seeks X i io a b" "seeks Y i io b c"
  shows "seeks (X \<union> Y) i io a c"
proof -
  obtain f where f: "inodes b = (inodes a)(i := (inodes a i)\<lparr>i_sectors := f\<rparr>)" using assms(1) by (auto simp: seeks_def)
  obtain g where "inodes c = (inodes b)(i := (inodes b i)\<lparr>i_sectors := g\<rparr>)" using assms(2) by (auto simp: seeks_def)
  then have "inodes c = (inodes a)(i := (inodes a i)\<lparr>i_sectors := g\<rparr>)" by (simp add: f)
  then show ?thesis using assms takes_trans [of X a b Y c] by (auto simp: seeks_def)
qed

lemma seeks_same:
  assumes "takes X k k'" "inodes k' = inodes k" "\<And>a. a < io \<or> io + 1024 \<le> a \<Longrightarrow> fmem k' a = fmem k a"
  shows "seeks X i io k k'"
proof -
  have "\<exists>f. inodes k = (inodes k)(i := (inodes k i)\<lparr>i_sectors := f\<rparr>)"
    by (rule exI [of _ "i_sectors (inodes k i)"]) simp
  then show ?thesis using assms unfolding seeks_def by auto
qed

lemma seeks_mem: "fs_ok k \<Longrightarrow> (\<And>a. a < io \<or> io + 1024 \<le> a \<Longrightarrow> m a = fmem k a) \<Longrightarrow> seeks {} i io k (k\<lparr>fmem := m\<rparr>)"
  by (rule seeks_same) (simp_all add: takes_mem)

lemma seeks_sector: "fs_ok k \<Longrightarrow> seeks {} i io k (set_sector i j w k)"
  using takes_mem(2) [of k] unfolding seeks_def set_sector_def by auto

lemma seeks_alloc:
  assumes "fs_ok k" "free_blocks k \<noteq> {}"
  obtains b k' where "block_bimap_alloc k = Some (b, k')" "seeks {b} i io k k'" "fmem k' = fmem k" "inodes k' = inodes k"
  using block_alloc_ok [OF assms] seeks_same by metis

lemma fill_1: "fill m a 1 f = (\<lambda>x. if a \<le> x \<and> x < a + 512 then f 0 (x - a) else m x)"
proof
  fix x
  consider "a \<le> x \<and> x < a + 512" "x - a < 512" | "\<not> (a \<le> x \<and> x < a + 512)" by linarith
  then show "fill m a 1 f x = (if a \<le> x \<and> x < a + 512 then f 0 (x - a) else m x)" by cases (auto simp: fill_def)
qed

lemma seeks_read:
  assumes "fs_ok k" "b \<in> used_blocks k \<union> free_blocks k"
  obtains k' where "read_disk b (io + 512) 1 k = Some k'" "seeks {} i io k k'" "inodes k' = inodes k" "dsk k' = dsk k"
    "fmem k' = (\<lambda>a. if io + 512 \<le> a \<and> a < io + 1024 then dsk k b (a - (io + 512)) else fmem k a)"
proof -
  have "b + 1 \<le> Suc MAX_LBA" using used_blocks_range(2) [OF assms] by simp
  from read_disk_ok [OF assms(1) zero_less_one this disjI1 [OF refl]] obtain k' where k': "read_disk b (io + 512) 1 k = Some k'"
    "takes {} k k'" "inodes k' = inodes k" "fmem k' = fill (fmem k) (io + 512) 1 (\<lambda>i. dsk k (b + i))" "dsk k' = dsk k"
    by metis
  have m: "fmem k' = (\<lambda>a. if io + 512 \<le> a \<and> a < io + 1024 then dsk k b (a - (io + 512)) else fmem k a)"
    unfolding k'(4) fill_1 by (simp add: add.assoc cong: if_cong)
  show thesis by (rule that [OF k'(1) seeks_same [OF k'(2,3)] k'(3,5) m]) (auto simp: m)
qed

lemma table_word_cong: "(\<And>j. j < 512 \<Longrightarrow> f (a + j) = g (b + j)) \<Longrightarrow> 12 \<le> s \<Longrightarrow> s < 140 \<Longrightarrow> table_word f a s = table_word g b s"
  unfolding table_word_def by (intro arg_cong [of _ _ unat] word32_cong) (simp add: add.assoc)

lemma table_word_zero: "(\<And>j. j < 512 \<Longrightarrow> f (a + j) = 0) \<Longrightarrow> 12 \<le> s \<Longrightarrow> s < 140 \<Longrightarrow> table_word f a s = 0"
proof -
  assume "\<And>j. j < 512 \<Longrightarrow> f (a + j) = 0" "12 \<le> s" "s < 140"
  then have "table_word f a s = table_word (\<lambda>_. 0) 0 s" by (intro table_word_cong) auto
  then show ?thesis by (simp add: table_word_def word32_at_def)
qed

lemma in_inode_part: "loop_map k i io sec M \<Longrightarrow> s < 12 \<Longrightarrow> unat (i_sectors (inodes k i) s) = M s"
  by (simp add: loop_map_def)

text \<open>The first half of a turn finds the place of the number of sector \<open>sec\<close>; it may take the block of the
  table.\<close>

lemma find_ok:
  assumes ok: "fs_ok k" and lm: "loop_map k i io sec M" and bo: "blocks_ok (used_blocks k) (table_of k i) G M"
    and sec: "sec \<le> G" "sec < 140" and free: "sec = 12 \<Longrightarrow> G = 12 \<Longrightarrow> free_blocks k \<noteq> {}"
    and st: "12 < sec \<Longrightarrow> \<not> sync \<Longrightarrow> table_stored k i M" "sync \<Longrightarrow> 12 < sec"
  obtains sync' k' X where
    "find_write i io sec sync k = Some (if sec < 12 then In_inode sec else In_table (sec - 12), sync', k')"
    "seeks X i io k k'" "loop_map k' i io (Suc sec) M" "X = (if sec = 12 \<and> G = 12 then {table_of k' i} else {})"
    "sec \<noteq> 12 \<or> G \<noteq> 12 \<longrightarrow> inodes k' = inodes k" "12 \<le> sec \<longrightarrow> table_of k' i \<noteq> 0"
    "12 \<le> sec \<and> \<not> sync' \<longrightarrow> table_stored k' i M \<and> (sec = 12 \<longrightarrow> G \<noteq> 12)" "sync' \<longrightarrow> 12 \<le> sec"
proof -
  have pos: "t \<noteq> 0" if "t \<in> used_blocks k" for t using used_blocks_range(1) [OF ok] that by blast
  consider "sec < 12" | "12 < sec" | "sec = 12" "G = 12" | "sec = 12" "12 < G" using sec(1) by linarith
  then show thesis
  proof cases
    case 1
    show thesis
      by (rule that [where sync' = sync and X = "{}" and k' = k])
        (use 1 lm ok st in \<open>auto simp: find_write_def loop_map_def seeks_same takes_mem\<close>)
  next
    case 2
    show thesis
      by (rule that [where sync' = sync and X = "{}" and k' = k])
        (use 2 lm ok st in \<open>auto simp: find_write_def loop_map_def seeks_same takes_mem\<close>)
  next
    case 3
    have t0: "table_of k i = 0" using bo 3 by (simp add: blocks_ok_def)
    obtain b k1 where k1: "block_bimap_alloc k = Some (b, k1)" "seeks {b} i io k k1" "fmem k1 = fmem k" "inodes k1 = inodes k"
      using seeks_alloc [OF ok free [OF 3]] by blast
    have ok1: "fs_ok k1" and b: "b \<in> used_blocks k1" using k1(2) by (auto simp: seeks_def takes_def)
    have b32: "unat (of_nat b :: u32) = b" "b \<noteq> 0" using used_blocks_range(5,1) [OF ok1] b by blast+
    define k2 where "k2 = set_sector i 12 (of_nat b) k1"
    have k2: "seeks {} i io k1 k2" "table_of k2 i = b" "inodes k2 i = (inodes k i)\<lparr>i_sectors := (i_sectors (inodes k i))(12 := of_nat b)\<rparr>"
      using seeks_sector [OF ok1] k1(4) b32 by (simp_all add: k2_def set_sector_def table_of_def)
    have ok2: "fs_ok k2" "b \<in> used_blocks k2" using k2(1) b by (auto simp: seeks_def takes_def)
    obtain k3 where k3: "read_disk b (io + 512) 1 k2 = Some k3" "seeks {} i io k2 k3" "inodes k3 = inodes k2"
      using seeks_read [of k2 b io i] ok2 by auto
    define k4 where "k4 = k3\<lparr>fmem := memset (io + 512) 0 512 (fmem k3)\<rparr>"
    have m4: "fmem k4 = (\<lambda>a. if io + 512 \<le> a \<and> a < io + 1024 then 0 else fmem k3 a)"
      unfolding k4_def memset_def memset_from_eq by (simp add: add.assoc cong: if_cong)
    have "seeks {} i io k3 k4" unfolding k4_def
      by (rule seeks_mem [OF seeksD(1) [OF k3(2)]]) (use m4 in \<open>auto simp: k4_def\<close>)
    then have k4: "seeks {} i io k3 k4" "inodes k4 = inodes k3" by (simp_all add: k4_def)
    have sk: "seeks {b} i io k k4"
      using seeks_trans [OF k1(2) seeks_trans [OF k2(1) seeks_trans [OF k3(2) k4(1)]]] by simp
    have t4: "table_of k4 i = b" using k2(2) k3(3) k4(2) by (simp add: table_of_def)
    have "i_sectors (inodes k4 i) s = i_sectors (inodes k i) s" if "s < 12" for s
      using that by (simp add: k4(2) k3(3) k2(3))
    moreover have "table_word (fmem k4) (io + 512) s = M s" if "12 \<le> s" "s < 140" for s
      using that bo 3 by (subst table_word_zero) (auto simp: m4 blocks_ok_def)
    ultimately have "loop_map k4 i io (Suc sec) M"
      using lm 3 b32 by (simp add: loop_map_def t4)
    moreover have "find_write i io sec sync k = Some (In_table 0, True, k4)"
      using 3 t0 k1(1) k3(1) b32(1) k2(2)
      by (simp add: find_write_def table_of_def unat_eq_zero k2_def [symmetric] k4_def)
    ultimately show thesis
      using sk t4 b32 3 by (intro that [where sync' = True and X = "{b}" and k' = k4]) simp_all
  next
    case 4
    have t: "table_of k i \<in> used_blocks k" using bo 4 by (simp add: blocks_ok_def)
    obtain k1 where k1: "read_disk (table_of k i) (io + 512) 1 k = Some k1" "seeks {} i io k k1" "inodes k1 = inodes k"
      "dsk k1 = dsk k" "fmem k1 = (\<lambda>a. if io + 512 \<le> a \<and> a < io + 1024 then dsk k (table_of k i) (a - (io + 512)) else fmem k a)"
      using seeks_read [OF ok, of "table_of k i" io i] t by auto
    have tw: "table_word (dsk k (table_of k i)) 0 s = M s" if "12 \<le> s" "s < 140" for s
      using lm 4 that pos [OF t] by (auto simp: loop_map_def lba_of_def)
    have "table_word (fmem k1) (io + 512) s = M s" if "12 \<le> s" "s < 140" for s
      using tw [OF that] that by (subst table_word_cong [where g = "dsk k (table_of k i)" and b = 0]) (auto simp: k1(5))
    then have "loop_map k1 i io (Suc sec) M" using lm 4 pos [OF t] by (simp add: loop_map_def k1(3) table_of_def)
    moreover have "table_stored k1 i M" using tw k1(3,4) by (simp add: table_stored_def table_of_def)
    moreover have "find_write i io sec sync k = Some (In_table 0, sync, k1)"
      using 4 k1(1) pos [OF t] by (simp add: find_write_def table_of_def unat_eq_zero)
    ultimately show thesis
      using k1(2,3) 4 st(2) pos [OF t] by (intro that [where sync' = sync and X = "{}" and k' = k1]) (simp_all add: table_of_def)
  qed
qed

abbreviation place :: "nat \<Rightarrow> lba_ref" where
  "place sec \<equiv> if sec < 12 then In_inode sec else In_table (sec - 12)"

lemma get_place: "loop_map k i io (Suc sec) M \<Longrightarrow> sec < 140 \<Longrightarrow> unat (get_lba i io (place sec) k) = M sec"
  by (auto simp: get_lba_def loop_map_def table_word_def)

lemma put_place:
  assumes ok: "fs_ok k" and lm: "loop_map k i io (Suc sec) M" and sec: "sec < 140" and w: "unat w = b"
  shows "seeks {} i io k (put_lba i io (place sec) w k)" "loop_map (put_lba i io (place sec) w k) i io (Suc sec) (M(sec := b))"
    "table_of (put_lba i io (place sec) w k) i = table_of k i" "dsk (put_lba i io (place sec) w k) = dsk k"
proof -
  show 1: "table_of (put_lba i io (place sec) w k) i = table_of k i" "dsk (put_lba i io (place sec) w k) = dsk k"
    by (auto simp: table_of_def put_lba_def set_sector_def)
  have out: "writes (fmem k) (io + 512 + (sec - 12) * 4) (bytes32 w) a = fmem k a" if "a < io \<or> io + 1024 \<le> a" for a
    using that sec by (intro writes_outside) auto
  show "seeks {} i io k (put_lba i io (place sec) w k)"
    using seeks_sector [OF ok, of i io sec w] out by (auto simp: put_lba_def intro: seeks_mem [OF ok])
  have "table_word (writes (fmem k) (io + 512 + (sec - 12) * 4) (bytes32 w)) (io + 512) s = (M(sec := b)) s"
    if "12 \<le> s" "s < 140" "12 \<le> sec" for s
  proof (cases "s = sec")
    case True
    then show ?thesis by (simp add: table_word_def word32_writes w)
  next
    case False
    then have "(s - 12) * 4 + 4 \<le> (sec - 12) * 4 \<or> (sec - 12) * 4 + 4 \<le> (s - 12) * 4" using that by auto
    then have "table_word (writes (fmem k) (io + 512 + (sec - 12) * 4) (bytes32 w)) (io + 512) s = table_word (fmem k) (io + 512) s"
      unfolding table_word_def by (subst word32_writes_other) auto
    then show ?thesis using lm that False by (auto simp: loop_map_def)
  qed
  then show "loop_map (put_lba i io (place sec) w k) i io (Suc sec) (M(sec := b))"
    using lm w by (cases "sec < 12")
      (auto simp: put_lba_def set_sector_def loop_map_def lba_of_def table_of_def)
qed

lemma sector_for_ok:
  assumes ok: "fs_ok k" and lm: "loop_map k i io sec M" and bo: "blocks_ok (used_blocks k) (table_of k i) G M"
    and sec: "sec \<le> G" "sec < 140" and free: "sec = G \<Longrightarrow> (if G = 12 then 2 else 1) \<le> card (free_blocks k)"
    and st: "12 < sec \<Longrightarrow> \<not> sync \<Longrightarrow> table_stored k i M" "sync \<Longrightarrow> 12 < sec"
  obtains sync' k' X b where "sector_for i io sec sync k = Some (place sec, sync', k')"
    "seeks X i io k k'" "b \<in> used_blocks k'" "sec < G \<longrightarrow> b = M sec"
    "loop_map k' i io (Suc sec) (M(sec := b))" "blocks_ok (used_blocks k') (table_of k' i) (max G (Suc sec)) (M(sec := b))"
    "X = (if sec < G then {} else if sec = 12 then {b, table_of k' i} else {b})"
    "card X = (if sec < G then 0 else if sec = 12 then 2 else 1)"
    "12 \<le> sec \<and> \<not> sync' \<longrightarrow> table_stored k' i (M(sec := b))" "sync' \<longrightarrow> 12 \<le> sec"
    "sec < G \<longrightarrow> inodes k' = inodes k" "12 < G \<longrightarrow> table_of k' i = table_of k i" "table_of k' i \<in> insert (table_of k i) X"
proof -
  have "finite (free_blocks k)" by simp
  then have ne: "sec = 12 \<Longrightarrow> G = 12 \<Longrightarrow> free_blocks k \<noteq> {}" using free by auto
  obtain s1 k1 X where f: "find_write i io sec sync k = Some (place sec, s1, k1)" "seeks X i io k k1"
    "loop_map k1 i io (Suc sec) M" "X = (if sec = 12 \<and> G = 12 then {table_of k1 i} else {})"
    "sec \<noteq> 12 \<or> G \<noteq> 12 \<longrightarrow> inodes k1 = inodes k" "12 \<le> sec \<longrightarrow> table_of k1 i \<noteq> 0"
    "12 \<le> sec \<and> \<not> s1 \<longrightarrow> table_stored k1 i M \<and> (sec = 12 \<longrightarrow> G \<noteq> 12)" "s1 \<longrightarrow> 12 \<le> sec"
    by (rule find_ok [OF ok lm bo sec ne st])
  note ok1 = seeksD(1) [OF f(2)] and u1 = seeksD(3) [OF f(2)]
  have get: "unat (get_lba i io (place sec) k1) = M sec" by (rule get_place [OF f(3) sec(2)])
  have t1: "sec \<noteq> 12 \<or> G \<noteq> 12 \<longrightarrow> table_of k1 i = table_of k i" using f(5) by (simp add: table_of_def)
  show thesis
  proof (cases "sec < G")
    case True
    then have X: "X = {}" using f(4) by auto
    have m: "M sec \<in> used_blocks k" using bo True by (auto simp: blocks_ok_def)
    then have "M sec \<noteq> 0" using used_blocks_range(1) [OF ok] by blast
    then have "sector_for i io sec sync k = Some (place sec, s1, k1)"
      using f(1) get by (simp add: sector_for_def unat_eq_zero del: split_paired_Ex) (auto simp: unat_eq_zero)
    moreover have "M(sec := M sec) = M" "max G (Suc sec) = G" using True by auto
    moreover have "table_of k1 i = table_of k i" "inodes k1 = inodes k" using f(5) t1 True by auto
    ultimately show thesis
      using f(2,3,7,8) m bo True X u1 by (intro that [where sync' = s1 and X = "{}" and k' = k1 and b = "M sec"]) auto
  next
    case False
    then have G: "G = sec" using sec(1) by simp
    have m0: "M sec = 0" using bo G sec(2) by (simp add: blocks_ok_def)
    have "card (free_blocks k1) = card (free_blocks k) - card X" "X \<subseteq> free_blocks k"
      using f(2) by (auto simp: seeks_def takes_def card_Diff_subset finite_subset [OF _ finite_free_blocks])
    moreover have "card X = (if G = 12 then 1 else 0)" using f(4) G by auto
    ultimately have "0 < card (free_blocks k1)" using free G by (auto split: if_splits)
    then have "free_blocks k1 \<noteq> {}" by auto
    then obtain b k2 where k2: "block_bimap_alloc k1 = Some (b, k2)" "seeks {b} i io k1 k2" "fmem k2 = fmem k1" "inodes k2 = inodes k1"
      using seeks_alloc [OF ok1] by blast
    note ok2 = seeksD(1) [OF k2(2)] and u2 = seeksD(3) [OF k2(2)]
    have b: "b \<in> free_blocks k1" "b \<notin> used_blocks k1" "b \<in> used_blocks k2"
      using k2(2) used_free_disjoint [of b k1] by (auto simp: seeks_def takes_def)
    have b32: "unat (of_nat b :: u32) = b" "b \<noteq> 0" using used_blocks_range(5,1) [OF ok1] b(1) by blast+
    have lm2: "loop_map k2 i io (Suc sec) M"
    proof -
      have "dsk k2 l = dsk k1 l" if "l \<notin> bitmap_area k1" for l using k2(2) that by (auto simp: seeks_def takes_def)
      moreover have "table_of k1 i \<notin> bitmap_area k1" if "\<not> 12 < Suc sec" "table_of k1 i \<noteq> 0"
        using that t1 bo G by (auto simp: blocks_ok_def)
      ultimately show ?thesis using f(3) k2(3,4) by (auto simp: loop_map_def lba_of_def table_of_def)
    qed
    define k3 where "k3 = put_lba i io (place sec) (of_nat b) k2"
    note p = put_place [OF ok2 lm2 sec(2) b32(1), folded k3_def]
    have sk: "seeks (X \<union> {b}) i io k k3" using seeks_trans [OF f(2) seeks_trans [OF k2(2) p(1)]] by simp
    have t3: "table_of k3 i = table_of k1 i" using p(3) k2(4) by (simp add: table_of_def)
    have "sector_for i io sec sync k = Some (place sec, s1 \<or> 12 < sec, k3)"
      using f(1) get m0 k2(1) by (simp add: sector_for_def unat_eq_zero k3_def)
    moreover have u3: "used_blocks k3 = insert b (X \<union> used_blocks k)" using seeksD(3) [OF sk] by auto
    moreover have "blocks_ok (used_blocks k3) (table_of k3 i) (Suc sec) (M(sec := b))"
    proof (rule blocks_ok_more [OF bo [unfolded G] _ sec(2)])
      show "b \<notin> used_blocks k" "insert b (used_blocks k) \<subseteq> used_blocks k3" using b(2) u1 u3 by auto
      have A: "table_of k1 i \<notin> used_blocks k" if "sec = 12"
        using f(2,4) that G used_free_disjoint [of "table_of k1 i" k] by (auto simp: seeks_def takes_def)
      have B: "table_of k1 i \<in> used_blocks k1" if "12 \<le> sec"
        using f(4) t1 that G bo u1 by (cases "sec = 12") (auto simp: blocks_ok_def)
      have C: "M ` {..<sec} \<subseteq> used_blocks k" using bo G by (simp add: blocks_ok_def)
      consider "sec < 12" | "sec = 12" | "12 < sec" by linarith
      then show "if 12 \<le> sec then table_of k3 i \<in> used_blocks k3 - insert b (M ` {..<sec}) else table_of k3 i = 0"
      proof cases
        case 3
        then have "table_of k1 i \<in> used_blocks k - M ` {..<sec}" using bo G t1 by (simp add: blocks_ok_def)
        then show ?thesis using b(2) u1 u3 t3 3 by auto
      qed (use A B C bo G t1 b(2) u1 u3 t3 in \<open>auto simp: blocks_ok_def\<close>)
    qed
    moreover have X: "X \<union> {b} = (if sec = 12 then {b, table_of k3 i} else {b})" using f(4) G t3 by auto
    moreover have "b \<noteq> table_of k1 i" if "sec = 12" using f(4) that G b(2) u1 by auto
    then have "card (X \<union> {b}) = (if sec = 12 then 2 else 1)" unfolding X t3 by auto
    moreover have "table_stored k3 i (M(sec := b))" if "12 \<le> sec" "\<not> (s1 \<or> 12 < sec)"
      using that f(7) G by auto
    moreover have "12 < G \<longrightarrow> table_of k3 i = table_of k i" "table_of k3 i \<in> insert (table_of k i) (X \<union> {b})"
      using t1 t3 f(4) by auto
    ultimately show thesis
      using sk p(2) f(8) G by (intro that [where sync' = "s1 \<or> 12 < sec" and X = "X \<union> {b}" and k' = k3 and b = b]) auto
  qed
qed

section \<open>The loop of file_write\<close>

text \<open>The state before sector \<open>sec\<close> of a file that has \<open>G\<close> sectors by now.\<close>

definition at_sector :: "'a fsys_scheme \<Rightarrow> nat \<Rightarrow> nat \<Rightarrow> nat \<Rightarrow> (nat \<Rightarrow> nat) \<Rightarrow> nat \<Rightarrow> bool \<Rightarrow> bool" where
  "at_sector k i io G M sec sync \<longleftrightarrow> fs_ok k \<and> loop_map k i io sec M \<and>
     blocks_ok (used_blocks k) (table_of k i) G M \<and> sec \<le> G \<and>
     (12 < sec \<and> \<not> sync \<longrightarrow> table_stored k i M) \<and> (sync \<longrightarrow> 12 < sec)"

lemma seek_ok:
  assumes at: "at_sector k i io G M sec sync" and sec: "sec < 140"
    and free: "sec = G \<Longrightarrow> (if G = 12 then 2 else 1) \<le> card (free_blocks k)"
  obtains sync' k' X b where "sector_for i io sec sync k = Some (place sec, sync', k')" "seeks X i io k k'"
    "b \<in> used_blocks k'" "sec < G \<longrightarrow> b = M sec" "at_sector k' i io (max G (Suc sec)) (M(sec := b)) (Suc sec) sync'"
    "card X = (if sec < G then 0 else if sec = 12 then 2 else 1)" "sec = G \<longrightarrow> b \<in> X"
    "sec < G \<longrightarrow> inodes k' = inodes k" "12 < G \<longrightarrow> table_of k' i = table_of k i" "table_of k' i \<in> insert (table_of k i) X"
proof -
  have ok: "fs_ok k" and lm: "loop_map k i io sec M" and bo: "blocks_ok (used_blocks k) (table_of k i) G M" and le: "sec \<le> G"
    and st: "12 < sec \<Longrightarrow> \<not> sync \<Longrightarrow> table_stored k i M" "sync \<Longrightarrow> 12 < sec"
    using at by (auto simp: at_sector_def)
  obtain sync' k' X b where r: "sector_for i io sec sync k = Some (place sec, sync', k')"
    "seeks X i io k k'" "b \<in> used_blocks k'" "sec < G \<longrightarrow> b = M sec"
    "loop_map k' i io (Suc sec) (M(sec := b))" "blocks_ok (used_blocks k') (table_of k' i) (max G (Suc sec)) (M(sec := b))"
    "X = (if sec < G then {} else if sec = 12 then {b, table_of k' i} else {b})"
    "card X = (if sec < G then 0 else if sec = 12 then 2 else 1)"
    "12 \<le> sec \<and> \<not> sync' \<longrightarrow> table_stored k' i (M(sec := b))" "sync' \<longrightarrow> 12 \<le> sec"
    "sec < G \<longrightarrow> inodes k' = inodes k" "12 < G \<longrightarrow> table_of k' i = table_of k i" "table_of k' i \<in> insert (table_of k i) X"
    by (rule sector_for_ok [OF ok lm bo le sec free st])
  have "at_sector k' i io (max G (Suc sec)) (M(sec := b)) (Suc sec) sync'"
    using r(5,6,9,10) seeksD(1) [OF r(2)] by (auto simp: at_sector_def)
  moreover have "sec = G \<longrightarrow> b \<in> X" using r(7) by auto
  ultimately show thesis using that r(1-4,8,11-13) by blast
qed

text \<open>What the loop does to everything but the contents of blocks.\<close>

definition moves :: "nat set \<Rightarrow> nat \<Rightarrow> nat \<Rightarrow> 'a fsys_scheme \<Rightarrow> 'a fsys_scheme \<Rightarrow> bool" where
  "moves X i io k k' \<longleftrightarrow> near k k' \<and> fs_ok k' \<and> X \<subseteq> free_blocks k \<and> used_blocks k' = used_blocks k \<union> X \<and>
     free_blocks k' = free_blocks k - X \<and>
     (\<exists>f. inodes k' = (inodes k)(i := (inodes k i)\<lparr>i_sectors := f\<rparr>)) \<and>
     (\<forall>a. a < io \<or> io + 1024 \<le> a \<longrightarrow> fmem k' a = fmem k a)"

lemma moves_trans:
  assumes "moves X i io a b" "moves Y i io b c"
  shows "moves (X \<union> Y) i io a c"
proof -
  obtain f where f: "inodes b = (inodes a)(i := (inodes a i)\<lparr>i_sectors := f\<rparr>)" using assms(1) by (auto simp: moves_def)
  obtain g where "inodes c = (inodes b)(i := (inodes b i)\<lparr>i_sectors := g\<rparr>)" using assms(2) by (auto simp: moves_def)
  then have "inodes c = (inodes a)(i := (inodes a i)\<lparr>i_sectors := g\<rparr>)" by (simp add: f)
  then show ?thesis using assms near_trans [of a b c] by (auto simp: moves_def)
qed

lemma moves_same:
  assumes "near k k'" "fs_ok k'" "used_blocks k' = used_blocks k" "free_blocks k' = free_blocks k" "inodes k' = inodes k"
    "\<And>a. a < io \<or> io + 1024 \<le> a \<Longrightarrow> fmem k' a = fmem k a"
  shows "moves {} i io k k'"
proof -
  have "\<exists>f. inodes k = (inodes k)(i := (inodes k i)\<lparr>i_sectors := f\<rparr>)"
    by (rule exI [of _ "i_sectors (inodes k i)"]) simp
  then show ?thesis using assms unfolding moves_def by auto
qed

lemma seeks_moves: "seeks X i io k k' \<Longrightarrow> moves X i io k k'"
  by (auto simp: seeks_def moves_def takes_def)

text \<open>The second half of a turn: part of a block is written from memory, the rest is kept.\<close>

lemma rmw_ok:
  assumes ok: "fs_ok k" and b: "b \<in> used_blocks k" and off: "off + c \<le> 512" and src: "src + c \<le> io \<or> io + 1024 \<le> src"
  obtains k1 k2 where "read_disk b io 1 k = Some k1" "inodes k1 = inodes k" "\<And>a. io + 512 \<le> a \<Longrightarrow> fmem k1 a = fmem k a"
    "write_disk b io 1 (k1\<lparr>fmem := memcpy (io + off) src c (fmem k1)\<rparr>) = Some k2" "moves {} i io k k2"
    "inodes k2 = inodes k" "\<And>a. io + 512 \<le> a \<Longrightarrow> fmem k2 a = fmem k a" "\<And>l. l \<noteq> b \<Longrightarrow> dsk k2 l = dsk k l"
    "\<And>j. j < 512 \<Longrightarrow> dsk k2 b j = (if off \<le> j \<and> j < off + c then fmem k (src + (j - off)) else dsk k b j)"
proof -
  note range = used_blocks_range [OF ok UnI1 [OF b]]
  have le: "b + 1 \<le> Suc MAX_LBA" using range(2) by simp
  obtain k1 where k1: "read_disk b io 1 k = Some k1" "takes {} k k1" "inodes k1 = inodes k"
    "fmem k1 = fill (fmem k) io 1 (\<lambda>i. dsk k (b + i))" "dsk k1 = dsk k"
    using read_disk_ok [OF ok zero_less_one le disjI1 [OF refl]] by metis
  have m1: "fmem k1 = (\<lambda>a. if io \<le> a \<and> a < io + 512 then dsk k b (a - io) else fmem k a)"
    unfolding k1(4) fill_1 by (simp cong: if_cong)
  define m where "m = memcpy (io + off) src c (fmem k1)"
  have m: "m a = (if io + off \<le> a \<and> a < io + off + c then fmem k1 (src + (a - (io + off))) else fmem k1 a)" for a
    by (simp add: m_def memcpy_correct)
  let ?k = "k1\<lparr>fmem := m\<rparr>"
  have t: "takes {} k ?k" using takes_trans0(1) [OF k1(2) takes_mem(1) [OF takesD(2) [OF k1(2)]]] .
  have ar: "{b..<b + 1} \<inter> bitmap_area ?k = {}" using range(3) nearD(9) [OF takesD(1) [OF t]] by auto
  obtain k2 where k2: "write_disk b io 1 ?k = Some k2" "near ?k k2" "fs_ok k2" "inodes k2 = inodes ?k" "fmem k2 = fmem ?k"
    "used_blocks k2 = used_blocks ?k" "free_blocks k2 = free_blocks ?k" "dsk k2 = put_sectors (dsk ?k) b 1 io (fmem ?k)"
    using write_disk_ok [OF takesD(2) [OF t] zero_less_one le ar disjI1 [OF refl]] by metis
  have d: "dsk k2 l j = (if l = b \<and> j < 512 then m (io + j) else dsk k l j)" for l j
    by (auto simp: k2(8) put_sectors_def k1(5))
  have fr: "fmem k2 a = fmem k a" if "a < io \<or> io + 512 \<le> a" for a
    using that off by (auto simp: k2(5) m m1)
  have mv: "moves {} i io k k2"
    using near_trans [OF takesD(1) [OF t] k2(2)] k2(3,4,6,7) takesD(4,5) [OF t] fr k1(3) by (intro moves_same) auto
  show thesis
  proof (rule that [of k1 k2])
    show "dsk k2 b j = (if off \<le> j \<and> j < off + c then fmem k (src + (j - off)) else dsk k b j)" if "j < 512" for j
      using that src off by (auto simp: d m m1)
  qed (use k1(1,3) k2(1) mv fr k2(4) in \<open>auto simp: m1 m_def d fun_eq_iff\<close>)
qed

text \<open>What a turn of the loop keeps of the numbers of the sectors when block \<open>b\<close> is written.\<close>

lemma at_sector_rmw:
  assumes at: "at_sector k i io G M (Suc sec) sync" and mv: "moves {} i io k k'" "inodes k' = inodes k"
    and mem: "\<And>a. io + 512 \<le> a \<Longrightarrow> fmem k' a = fmem k a" and d: "\<And>l. l \<noteq> b \<Longrightarrow> dsk k' l = dsk k l" and b: "b \<in> M ` {..<G}"
  shows "at_sector k' i io G M (Suc sec) sync"
proof -
  have u: "used_blocks k' = used_blocks k" "fs_ok k'" using mv(1) by (auto simp: moves_def)
  have t: "table_of k' i = table_of k i" using mv(2) by (simp add: table_of_def)
  have tb: "table_of k i \<noteq> 0 \<longrightarrow> table_of k i \<noteq> b" using at b by (auto simp: at_sector_def blocks_ok_def split: if_splits)
  then have l: "lba_of k' i s = lba_of k i s" for s using d mv(2) by (simp add: lba_of_def t)
  have "table_word (fmem k') (io + 512) s = table_word (fmem k) (io + 512) s" if "12 \<le> s" "s < 140" for s
    using that by (intro table_word_cong mem) auto
  moreover have "12 < Suc sec \<longrightarrow> dsk k' (table_of k i) = dsk k (table_of k i)"
    using tb d at by (auto simp: at_sector_def loop_map_def)
  ultimately show ?thesis
    using at u t l mv(2) by (auto simp: at_sector_def loop_map_def table_stored_def)
qed

lemma write_sector_ok:
  assumes at: "at_sector k i io G M sec sync" and sec: "sec < 140"
    and free: "sec = G \<Longrightarrow> (if G = 12 then 2 else 1) \<le> card (free_blocks k)"
    and off: "off < 512" and src: "src + cnt \<le> io \<or> io + 1024 \<le> src"
  obtains sync' k' X b where
    "write_sector i io src cnt off sec sync k = Some (min cnt (512 - off), sync', k')" "moves X i io k k'"
    "b \<in> used_blocks k'" "sec < G \<longrightarrow> b = M sec" "at_sector k' i io (max G (Suc sec)) (M(sec := b)) (Suc sec) sync'"
    "card X = (if sec < G then 0 else if sec = 12 then 2 else 1)" "sec = G \<longrightarrow> b \<in> X"
    "\<forall>l. l \<notin> bitmap_area k \<and> l \<noteq> b \<longrightarrow> dsk k' l = dsk k l"
    "\<forall>j < 512. dsk k' b j = (if off \<le> j \<and> j < off + cnt then fmem k (src + (j - off)) else dsk k b j)"
    "sec < G \<longrightarrow> inodes k' = inodes k" "12 < G \<longrightarrow> table_of k' i = table_of k i" "table_of k' i \<in> insert (table_of k i) X"
proof -
  obtain sync' k1 X b where s: "sector_for i io sec sync k = Some (place sec, sync', k1)" "seeks X i io k k1"
    "b \<in> used_blocks k1" "sec < G \<longrightarrow> b = M sec" "at_sector k1 i io (max G (Suc sec)) (M(sec := b)) (Suc sec) sync'"
    "card X = (if sec < G then 0 else if sec = 12 then 2 else 1)" "sec = G \<longrightarrow> b \<in> X"
    "sec < G \<longrightarrow> inodes k1 = inodes k" "12 < G \<longrightarrow> table_of k1 i = table_of k i" "table_of k1 i \<in> insert (table_of k i) X"
    by (rule seek_ok [OF at sec free])
  note ok1 = seeksD(1) [OF s(2)]
  note range = used_blocks_range [OF ok1 UnI1 [OF s(3)]]
  define c where "c = min cnt (512 - off)"
  have c: "off + c \<le> 512" "src + c \<le> io \<or> io + 1024 \<le> src" using off src by (auto simp: c_def)
  obtain k2 k3 where r: "read_disk b io 1 k1 = Some k2" "inodes k2 = inodes k1" "\<And>a. io + 512 \<le> a \<Longrightarrow> fmem k2 a = fmem k1 a"
    "write_disk b io 1 (k2\<lparr>fmem := memcpy (io + off) src c (fmem k2)\<rparr>) = Some k3" "moves {} i io k1 k3"
    "inodes k3 = inodes k1" "\<And>a. io + 512 \<le> a \<Longrightarrow> fmem k3 a = fmem k1 a" "\<And>l. l \<noteq> b \<Longrightarrow> dsk k3 l = dsk k1 l"
    "\<And>j. j < 512 \<Longrightarrow> dsk k3 b j = (if off \<le> j \<and> j < off + c then fmem k1 (src + (j - off)) else dsk k1 b j)"
    using rmw_ok [OF ok1 s(3) c] by blast
  have get: "unat (get_lba i io (place sec) q) = b" if "inodes q = inodes k1" "\<And>a. io + 512 \<le> a \<Longrightarrow> fmem q a = fmem k1 a" for q
  proof -
    have "get_lba i io (place sec) q = get_lba i io (place sec) k1"
      using that by (auto simp: get_lba_def intro: word32_cong)
    then show ?thesis using get_place [of k1 i io sec "M(sec := b)"] s(5) sec by (simp add: at_sector_def)
  qed
  have m2: "memcpy (io + off) src c (fmem k2) a = fmem k1 a" if "io + 512 \<le> a" for a
    using that c(1) r(3) by (simp add: memcpy_correct)
  have "write_sector i io src cnt off sec sync k = Some (c, sync', k3)"
    using s(1) r(1,4) get [of k1] get [of "k2\<lparr>fmem := memcpy (io + off) src c (fmem k2)\<rparr>"] range(1) r(2) m2
    by (simp add: write_sector_def SECTOR_SIZE_def c_def [symmetric] unat_eq_zero [symmetric] del: unat_eq_zero)
  moreover have "b \<in> used_blocks k3" using s(3) r(5) by (auto simp: moves_def)
  moreover have "b \<in> M(sec := b) ` {..<max G (Suc sec)}" by (rule image_eqI [of _ _ sec]) auto
  then have "at_sector k3 i io (max G (Suc sec)) (M(sec := b)) (Suc sec) sync'"
    using at_sector_rmw [OF s(5) r(5,6,7,8)] by blast
  moreover have "moves X i io k k3" using moves_trans [OF seeks_moves [OF s(2)] r(5)] by simp
  moreover have "dsk k3 l = dsk k l" if "l \<notin> bitmap_area k" "l \<noteq> b" for l
    using that r(8) takesD(6) [OF seeksD(2) [OF s(2)]] by simp
  moreover have "dsk k3 b j = (if off \<le> j \<and> j < off + cnt then fmem k (src + (j - off)) else dsk k b j)" if "j < 512" for j
  proof -
    have "b \<notin> bitmap_area k" using range(3) nearD(9) [OF seeksD(4) [OF s(2)]] by simp
    then have "dsk k1 b = dsk k b" using takesD(6) [OF seeksD(2) [OF s(2)]] by simp
    moreover have "fmem k1 (src + (j - off)) = fmem k (src + (j - off))" if "j < off + cnt" "off \<le> j"
      using s(2) src that by (auto simp: seeks_def)
    ultimately show ?thesis using r(9) [OF that] that by (auto simp: c_def)
  qed
  moreover have "table_of k3 i = table_of k1 i" using r(6) by (simp add: table_of_def)
  ultimately show thesis
    using s(4,6-10) r(6) by (intro that [where sync' = sync' and k' = k3 and X = X and b = b]) (auto simp: c_def)
qed

text \<open>Blocks that growing from \<open>G\<close> to \<open>E\<close> sectors takes: the sectors, and the table with the thirteenth.\<close>

definition need :: "nat \<Rightarrow> nat \<Rightarrow> nat" where
  "need G E = E - G + (if G \<le> 12 \<and> 12 < E then 1 else 0)"

lemma need_Suc:
  "G < E \<Longrightarrow> need G E = need (Suc G) E + (if G = 12 then 2 else 1)"
  by (auto simp: need_def)

text \<open>Byte \<open>j\<close> of sector \<open>s\<close> when \<open>f 0\<close> to \<open>f (n - 1)\<close> go to the bytes from \<open>p\<close> on.\<close>

definition put_byte :: "nat \<Rightarrow> nat \<Rightarrow> (nat \<Rightarrow> u8) \<Rightarrow> nat \<Rightarrow> nat \<Rightarrow> u8 \<Rightarrow> u8" where
  "put_byte p n f s j old = (if p \<le> 512 * s + j \<and> 512 * s + j < p + n then f (512 * s + j - p) else old)"

lemma put_byte_rest:
  "c \<le> n \<Longrightarrow> p + c \<le> 512 * s \<Longrightarrow> put_byte (p + c) (n - c) (\<lambda>x. f (c + x)) s j old = put_byte p n f s j old"
  by (auto simp: put_byte_def)

lemma put_byte_cong: "(\<And>x. x < n \<Longrightarrow> f x = g x) \<Longrightarrow> put_byte p n f s j old = put_byte p n g s j old"
  by (auto simp: put_byte_def)

lemma write_loop_fs_ok:
  assumes "at_sector k i io G M sec sync" "E \<le> 140" "off < 512" "src + cnt \<le> io \<or> io + 1024 \<le> src"
    "cnt = 0 \<or> 512 * sec + off + cnt \<le> 512 * E" "if cnt = 0 then E = sec else 512 * E < 512 * sec + off + cnt + 512"
    "need G E \<le> card (free_blocks k)"
  shows "\<exists>k' sync' M' X. write_loop_fs i io src cnt off sec sync k = Some (0, sync', k') \<and> moves X i io k k' \<and>
    at_sector k' i io (max G E) M' E sync' \<and> (\<forall>s < G. M' s = M s) \<and> M' ` {G..<E} \<subseteq> X \<and>
    (\<forall>l. l \<notin> bitmap_area k \<and> l \<notin> M' ` {sec..<E} \<longrightarrow> dsk k' l = dsk k l) \<and>
    (\<forall>s j. sec \<le> s \<and> s < E \<and> j < 512 \<longrightarrow>
      dsk k' (M' s) j = put_byte (512 * sec + off) cnt (\<lambda>x. fmem k (src + x)) s j (dsk k (M' s) j)) \<and>
    (E \<le> G \<longrightarrow> inodes k' = inodes k) \<and> (12 < G \<longrightarrow> table_of k' i = table_of k i) \<and> table_of k' i \<in> insert (table_of k i) X"
  using assms
proof (induction "E - sec" arbitrary: k G M sec sync off src cnt)
  case 0
  then have z: "cnt = 0" "E = sec" by (auto split: if_splits)
  have at: "fs_ok k" "sec \<le> G" using 0 by (auto simp: at_sector_def)
  have "moves {} i io k k" using at by (intro moves_same) auto
  moreover have "max G E = G" using at z by simp
  ultimately show ?case
    using 0 z at by (intro exI [of _ k] exI [of _ sync] exI [of _ M] exI [of _ "{}"]) (auto simp: write_loop_fs.simps)
next
  case (Suc d)
  note prems = Suc.prems
  have le: "sec \<le> G" "fs_ok k" and bo: "blocks_ok (used_blocks k) (table_of k i) G M" using prems(1) by (auto simp: at_sector_def)
  have cnt: "0 < cnt" "sec < E" "sec < 140" using Suc.hyps(2) prems(2,6) by (auto split: if_splits)
  define c where "c = min cnt (512 - off)"
  define G' where "G' = max G (Suc sec)"
  have n: "sec = G \<Longrightarrow> (if G = 12 then 2 else 1) \<le> card (free_blocks k)"
    using need_Suc [of G E] cnt(2) prems(7) by simp
  obtain sync1 k1 X b where 1: "write_sector i io src cnt off sec sync k = Some (c, sync1, k1)" "moves X i io k k1"
    "b \<in> used_blocks k1" "sec < G \<longrightarrow> b = M sec" "at_sector k1 i io G' (M(sec := b)) (Suc sec) sync1"
    "card X = (if sec < G then 0 else if sec = 12 then 2 else 1)" "sec = G \<longrightarrow> b \<in> X"
    "\<forall>l. l \<notin> bitmap_area k \<and> l \<noteq> b \<longrightarrow> dsk k1 l = dsk k l"
    "\<forall>j < 512. dsk k1 b j = (if off \<le> j \<and> j < off + cnt then fmem k (src + (j - off)) else dsk k b j)"
    "sec < G \<longrightarrow> inodes k1 = inodes k" "12 < G \<longrightarrow> table_of k1 i = table_of k i" "table_of k1 i \<in> insert (table_of k i) X"
    unfolding c_def G'_def by (rule write_sector_ok [OF prems(1) cnt(3) n prems(3,4)])
  have near: "near k k1" "X \<subseteq> free_blocks k" "free_blocks k1 = free_blocks k - X" "used_blocks k1 = used_blocks k \<union> X"
    "fs_ok k1" "\<And>a. a < io \<or> io + 1024 \<le> a \<Longrightarrow> fmem k1 a = fmem k a" using 1(2) by (auto simp: moves_def)
  have "card (free_blocks k1) = card (free_blocks k) - card X"
    using near(2,3) by (simp add: card_Diff_subset finite_subset [OF near(2) finite_free_blocks])
  moreover have "need G E = need G' E + card X"
  proof (cases "sec < G")
    case True
    then have "G' = G" by (simp add: G'_def)
    then show ?thesis using 1(6) True by simp
  next
    case False
    then have "sec = G" "G' = Suc G" using le(1) by (simp_all add: G'_def)
    then show ?thesis using 1(6) need_Suc [of G E] cnt(2) by simp
  qed
  ultimately have free: "need G' E \<le> card (free_blocks k1)" using prems(7) by simp
  have rest: "cnt - c = 0 \<or> 512 * Suc sec + 0 + (cnt - c) \<le> 512 * E" "if cnt - c = 0 then E = Suc sec else 512 * E < 512 * Suc sec + 0 + (cnt - c) + 512"
    "src + c + (cnt - c) \<le> io \<or> io + 1024 \<le> src + c"
  proof -
    have le: "512 * Suc sec \<le> 512 * E" using cnt(2) by simp
    show "cnt - c = 0 \<or> 512 * Suc sec + 0 + (cnt - c) \<le> 512 * E" using le prems(3,5) cnt(1) by (auto simp: c_def min_def)
    have "E = Suc sec" if "cnt - c = 0"
    proof -
      have "512 * E < 512 * Suc (Suc sec)" using prems(3,6) cnt(1) that by (simp add: c_def min_def split: if_splits)
      then show ?thesis using cnt(2) by simp
    qed
    then show "if cnt - c = 0 then E = Suc sec else 512 * E < 512 * Suc sec + 0 + (cnt - c) + 512"
      using prems(3,6) cnt(1) by (simp add: c_def min_def split: if_splits)
    show "src + c + (cnt - c) \<le> io \<or> io + 1024 \<le> src + c" using prems(4) by (simp add: c_def) linarith
  qed
  have "d = E - Suc sec" using Suc.hyps(2) by simp
  from Suc.hyps(1) [OF this 1(5) prems(2) _ rest(3,1,2) free] obtain k' sync' M' Y where
    2: "write_loop_fs i io (src + c) (cnt - c) 0 (Suc sec) sync1 k1 = Some (0, sync', k')" "moves Y i io k1 k'"
      "at_sector k' i io (max G' E) M' E sync'" "\<forall>s < G'. M' s = (M(sec := b)) s" "M' ` {G'..<E} \<subseteq> Y"
      "\<forall>l. l \<notin> bitmap_area k1 \<and> l \<notin> M' ` {Suc sec..<E} \<longrightarrow> dsk k' l = dsk k1 l"
      "\<forall>s j. Suc sec \<le> s \<and> s < E \<and> j < 512 \<longrightarrow>
        dsk k' (M' s) j = put_byte (512 * Suc sec + 0) (cnt - c) (\<lambda>x. fmem k1 (src + c + x)) s j (dsk k1 (M' s) j)"
      "E \<le> G' \<longrightarrow> inodes k' = inodes k1" "12 < G' \<longrightarrow> table_of k' i = table_of k1 i" "table_of k' i \<in> insert (table_of k1 i) Y"
    by auto
  have Mb: "M' sec = b" using 2(4) by (simp add: G'_def)
  have bo': "blocks_ok (used_blocks k') (table_of k' i) (max G' E) M'" "fs_ok k'" using 2(3) by (auto simp: at_sector_def)
  have used: "M' s \<notin> bitmap_area k" if "s < E" for s
  proof -
    have "M' s \<in> used_blocks k'" using bo'(1) that by (auto simp: blocks_ok_def)
    then show ?thesis using used_blocks_range(3) [OF bo'(2)] nearD(9) [OF near(1)] 2(2) nearD(9) [of k1 k']
      by (auto simp: moves_def)
  qed
  have inj: "inj_on M' {..<max G' E}" using bo'(1) by (simp add: blocks_ok_def)
  have diff: "M' s \<noteq> b" if "Suc sec \<le> s" "s < E" for s
    using inj_onD [OF inj, of s sec] that Mb by (auto simp: less_max_iff_disj)
  have area: "bitmap_area k1 = bitmap_area k" using nearD(9) [OF near(1)] .
  have "max G' E = max G E" using cnt(2) by (auto simp: G'_def)
  moreover have "M' s = M s" if "s < G" for s using 2(4) 1(4) that by (auto simp: G'_def)
  moreover have "M' ` {G..<E} \<subseteq> X \<union> Y"
  proof
    fix x assume "x \<in> M' ` {G..<E}"
    then obtain s where s: "x = M' s" "G \<le> s" "s < E" by auto
    show "x \<in> X \<union> Y"
    proof (cases "s < G'")
      case True
      then have "s = sec" "sec = G" using s(2) le(1) by (auto simp: G'_def)
      then show ?thesis using s(1) Mb 1(7) by simp
    next
      case False
      then show ?thesis using s 2(5) by (auto simp: image_subset_iff)
    qed
  qed
  moreover have "dsk k' l = dsk k l" if "l \<notin> bitmap_area k" "l \<notin> M' ` {sec..<E}" for l
  proof -
    have "l \<noteq> b" using that(2) Mb cnt(2) by (auto simp: image_iff)
    then have "dsk k1 l = dsk k l" using 1(8) that(1) by simp
    moreover have "l \<notin> M' ` {Suc sec..<E}" using that(2) by (auto simp: image_iff)
    ultimately show ?thesis using 2(6) that(1) area by simp
  qed
  moreover have "dsk k' (M' s) j = put_byte (512 * sec + off) cnt (\<lambda>x. fmem k (src + x)) s j (dsk k (M' s) j)"
    if "sec \<le> s" "s < E" "j < 512" for s j
  proof (cases "s = sec")
    case True
    have "b \<notin> M' ` {Suc sec..<E}" using diff Mb by (metis (no_types, lifting) atLeastLessThan_iff imageE)
    then have "dsk k' b = dsk k1 b" using 2(6) area used [OF cnt(2)] Mb by simp
    then show ?thesis using 1(9) that(3) True Mb by (auto simp: put_byte_def)
  next
    case False
    then have s: "Suc sec \<le> s" "s < E" using that by auto
    have "c < cnt" using rest(2) s by (auto split: if_splits)
    then have c: "c = 512 - off" by (auto simp: c_def)
    have "dsk k1 (M' s) = dsk k (M' s)" using 1(8) used [OF s(2)] diff [OF s] by simp
    moreover have "fmem k1 (src + c + x) = fmem k (src + (c + x))" if "x < cnt - c" for x
    proof -
      have "src + (c + x) < io \<or> io + 1024 \<le> src + (c + x)" using prems(4) that by linarith
      then show ?thesis using near(6) by (simp add: add.assoc)
    qed
    then have "put_byte (512 * Suc sec) (cnt - c) (\<lambda>x. fmem k1 (src + c + x)) s j old
        = put_byte (512 * Suc sec) (cnt - c) (\<lambda>x. fmem k (src + (c + x))) s j old" for old by (rule put_byte_cong)
    moreover have e: "512 * Suc sec = 512 * sec + off + c" using c prems(3) by simp
    have "put_byte (512 * Suc sec) (cnt - c) (\<lambda>x. fmem k (src + (c + x))) s j old
        = put_byte (512 * sec + off) cnt (\<lambda>x. fmem k (src + x)) s j old" for old
      unfolding e by (rule put_byte_rest) (use s(1) c prems(3) \<open>c < cnt\<close> in auto)
    ultimately show ?thesis using 2(7) s that(3) by simp
  qed
  moreover have "E \<le> G \<longrightarrow> inodes k' = inodes k" "12 < G \<longrightarrow> table_of k' i = table_of k i"
    "table_of k' i \<in> insert (table_of k i) (X \<union> Y)"
    using 1(10-12) 2(8-10) cnt(2) by (auto simp: G'_def)
  moreover have "write_loop_fs i io src cnt off sec sync k = Some (0, sync', k')"
    using cnt 1(1) 2(1) by (simp add: write_loop_fs.simps [of i io src cnt])
  ultimately show ?case
    using moves_trans [OF 1(2) 2(2)] 2(3)
    by (intro exI [of _ k'] exI [of _ sync'] exI [of _ M'] exI [of _ "X \<union> Y"]) simp
qed

section \<open>Files\<close>

text \<open>The number of sectors of a file, its blocks and its contents. A good file has its inode on disk.\<close>

definition nblk :: "nat \<Rightarrow> nat" where
  "nblk sz = (sz + 511) div 512"

definition fsize :: "'a fsys_scheme \<Rightarrow> nat \<Rightarrow> nat" where
  "fsize k i = unat (i_size (inodes k i))"

definition file_ok :: "'a fsys_scheme \<Rightarrow> nat \<Rightarrow> bool" where
  "file_ok k i \<longleftrightarrow> i_no (inodes k i) < 4096 \<and> stored k i \<and>
     blocks_ok (used_blocks k) (table_of k i) (nblk (fsize k i)) (lba_of k i)"

definition file_blocks :: "'a fsys_scheme \<Rightarrow> nat \<Rightarrow> nat set" where
  "file_blocks k i = lba_of k i ` {..<nblk (fsize k i)} \<union> (if 12 < nblk (fsize k i) then {table_of k i} else {})"

definition file_byte :: "'a fsys_scheme \<Rightarrow> nat \<Rightarrow> nat \<Rightarrow> u8" where
  "file_byte k i q = dsk k (lba_of k i (q div 512)) (q mod 512)"

definition contents :: "'a fsys_scheme \<Rightarrow> nat \<Rightarrow> u8 list" where
  "contents k i = map (file_byte k i) [0..<fsize k i]"

lemma nblk_bounds: "n \<le> 512 * nblk n" "0 < n \<Longrightarrow> 512 * nblk n < n + 512" "q < n \<Longrightarrow> q div 512 < nblk n" "p \<le> n \<Longrightarrow> p div 512 \<le> nblk n"
    "m \<le> n \<Longrightarrow> nblk m \<le> nblk n" "n \<le> 71680 \<Longrightarrow> nblk n \<le> 140"
  unfolding nblk_def by linarith+

lemma blocks_ok_cong: "(\<And>s. s < 140 \<Longrightarrow> M s = M' s) \<Longrightarrow> blocks_ok U t G M \<Longrightarrow> blocks_ok U t G M'"
proof -
  assume e: "\<And>s. s < 140 \<Longrightarrow> M s = M' s" and b: "blocks_ok U t G M"
  have G: "G \<le> 140" using b by (simp add: blocks_ok_def)
  have "M ` {..<G} = M' ` {..<G}" using e G by (intro image_cong) auto
  moreover have "inj_on M {..<G} = inj_on M' {..<G}" using e G by (intro inj_on_cong) auto
  ultimately show ?thesis using b e by (auto simp: blocks_ok_def)
qed

lemma file_blocks_used: "file_ok k i \<Longrightarrow> file_blocks k i \<subseteq> used_blocks k"
  by (auto simp: file_ok_def file_blocks_def blocks_ok_def)

text \<open>A step that writes the blocks \<open>S\<close>, inode \<open>n\<close> and the bitmap.\<close>

definition only_writes :: "nat set \<Rightarrow> nat \<Rightarrow> 'a fsys_scheme \<Rightarrow> 'a fsys_scheme \<Rightarrow> bool" where
  "only_writes S n k k' \<longleftrightarrow> near k k' \<and>
     (\<forall>l. l \<notin> bitmap_area k \<and> l \<notin> S \<and> l \<noteq> inode_sec k n \<longrightarrow> dsk k' l = dsk k l) \<and>
     (\<forall>j < 512. j < inode_off n \<or> inode_off n + 64 \<le> j \<longrightarrow> dsk k' (inode_sec k n) j = dsk k (inode_sec k n) j)"

lemma other_file_kept:
  assumes w: "only_writes S n k k'" and ok: "fs_ok k" and S: "S \<inter> file_blocks k j = {}" "S \<subseteq> used_blocks k \<union> free_blocks k"
    and u: "used_blocks k \<subseteq> used_blocks k'" and f: "file_ok k j" and ino: "inodes k' j = inodes k j" "i_no (inodes k j) \<noteq> n" "n < 4096"
  shows "file_ok k' j" "contents k' j = contents k j" "file_blocks k' j = file_blocks k j"
proof -
  have near: "near k k'" using w by (simp add: only_writes_def)
  have t: "table_of k' j = table_of k j" "fsize k' j = fsize k j" by (simp_all add: table_of_def fsize_def ino)
  have bo: "blocks_ok (used_blocks k) (table_of k j) (nblk (fsize k j)) (lba_of k j)" using f by (simp add: file_ok_def)
  have same: "dsk k' l = dsk k l" if "l \<in> file_blocks k j" for l
  proof -
    have l: "l \<in> used_blocks k" using file_blocks_used [OF f] that by blast
    then have "l \<noteq> inode_sec k n" using inode_sec_area(4) [OF ok ino(3)] by auto
    moreover have "l \<notin> bitmap_area k" using used_blocks_range(3) [OF ok] l by blast
    ultimately show ?thesis using w S(1) that by (auto simp: only_writes_def)
  qed
  have tb: "table_of k j \<in> file_blocks k j" if "table_of k j \<noteq> 0"
    using that bo by (auto simp: file_blocks_def blocks_ok_def split: if_splits)
  then have lba: "lba_of k' j s = lba_of k j s" for s
    using same by (simp add: lba_of_def t ino)
  then have le: "lba_of k' j = lba_of k j" by auto
  show "file_blocks k' j = file_blocks k j" by (simp add: file_blocks_def le t)
  have "file_byte k' j q = file_byte k j q" if "q < fsize k j" for q
  proof -
    have "lba_of k j (q div 512) \<in> file_blocks k j" using nblk_bounds(3) [OF that] by (simp add: file_blocks_def)
    then show ?thesis using same by (simp add: file_byte_def le)
  qed
  then show "contents k' j = contents k j" by (simp add: contents_def t)
  define m where "m = i_no (inodes k j)"
  have m: "m < 4096" "m \<noteq> n" using f ino by (auto simp: file_ok_def m_def)
  have "dsk k' (inode_sec k m) (inode_off m + b) = dsk k (inode_sec k m) (inode_off m + b)" if "b < 64" for b
  proof (cases "inode_sec k m = inode_sec k n")
    case True
    then have "m div 8 = n div 8" by (simp add: inode_sec_def)
    then have "m mod 8 < n mod 8 \<or> n mod 8 < m mod 8" using m(2) by (metis div_mult_mod_eq linorder_neqE_nat)
    then have "inode_off m + b < inode_off n \<or> inode_off n + 64 \<le> inode_off m + b" using that by (auto simp: inode_off_def)
    moreover have "m mod 8 < 8" by simp
    then have "inode_off m + b < 512" using that unfolding inode_off_def by linarith
    ultimately show ?thesis using w unfolding True only_writes_def by blast
  next
    case False
    have "inode_sec k m \<notin> S" using inode_sec_area(4) [OF ok m(1)] S(2) by blast
    then show ?thesis using w False inode_sec_area(2) [OF ok m(1)] by (simp add: only_writes_def)
  qed
  then have "stored k' j" using f nearD(2) [OF near] by (simp add: file_ok_def stored_def ino inode_sec_def m_def)
  moreover have "blocks_ok (used_blocks k') (table_of k' j) (nblk (fsize k' j)) (lba_of k' j)"
    using bo u by (auto simp: blocks_ok_def le t split: if_splits)
  ultimately show "file_ok k' j" using f by (simp add: file_ok_def ino)
qed

section \<open>Before and after the loop\<close>

lemma start_ok:
  assumes ok: "fs_ok k" and f: "file_ok k i" and p: "p \<le> fsize k i"
  obtains k' where "(if 12 < p div 512 then do { ASSERT (i_sectors (inodes k i) 12 \<noteq> 0);
      read_disk (unat (i_sectors (inodes k i) 12)) (io + 512) 1 k } else Some k) = Some k'"
    "takes {} k k'" "inodes k' = inodes k" "dsk k' = dsk k" "\<And>a. a < io \<or> io + 1024 \<le> a \<Longrightarrow> fmem k' a = fmem k a"
    "at_sector k' i io (nblk (fsize k i)) (lba_of k i) (p div 512) False"
proof -
  define G where "G = nblk (fsize k i)"
  have bo: "blocks_ok (used_blocks k) (table_of k i) G (lba_of k i)" and le: "p div 512 \<le> G"
    using f nblk_bounds(4) [OF p] by (simp_all add: file_ok_def G_def)
  show thesis
  proof (cases "12 < p div 512")
    case False
    then have "at_sector k i io G (lba_of k i) (p div 512) False"
      using ok bo le by (auto simp: at_sector_def loop_map_def lba_of_def)
    then show thesis using False takes_mem(3) [OF ok] by (intro that [of k]) (simp_all add: G_def)
  next
    case True
    then have t: "table_of k i \<in> used_blocks k" using bo le by (auto simp: blocks_ok_def)
    then have t0: "table_of k i \<noteq> 0" using used_blocks_range(1) [OF ok] by blast
    obtain k1 where k1: "read_disk (table_of k i) (io + 512) 1 k = Some k1" "seeks {} i io k k1" "inodes k1 = inodes k" "dsk k1 = dsk k"
      "fmem k1 = (\<lambda>a. if io + 512 \<le> a \<and> a < io + 1024 then dsk k (table_of k i) (a - (io + 512)) else fmem k a)"
      using seeks_read [OF ok, of "table_of k i" io i] t by blast
    have tw: "table_word (fmem k1) (io + 512) s = lba_of k i s" if "12 \<le> s" "s < 140" for s
      using that t0 table_word_cong [of "fmem k1" "io + 512" "dsk k (table_of k i)" 0 s] by (simp add: lba_of_def k1(5))
    have t1: "table_of k1 i = table_of k i" using k1(3) by (simp add: table_of_def)
    have "at_sector k1 i io G (lba_of k i) (p div 512) False"
      using bo le True t0 tw seeksD(1,3) [OF k1(2)] k1(3,4)
      by (auto simp: at_sector_def loop_map_def table_stored_def t1) (auto simp: lba_of_def)
    moreover have "(if 12 < p div 512 then do { ASSERT (i_sectors (inodes k i) 12 \<noteq> 0);
      read_disk (unat (i_sectors (inodes k i) 12)) (io + 512) 1 k } else Some k) = Some k1"
      using True k1(1) t0 by (simp add: table_of_def unat_eq_zero [symmetric] del: unat_eq_zero)
    ultimately show thesis using k1 seeksD(2) [OF k1(2)] by (intro that [of k1]) (auto simp: G_def)
  qed
qed

text \<open>Behind the loop the table is written when it has changed, and the inode when the file has grown.\<close>

lemma sync_second_ok:
  assumes at: "at_sector k i io G M E sync" and E: "E \<le> G"
  obtains k' where "(if sync then write_disk (unat (i_sectors (inodes k i) 12)) (io + 512) 1 k else Some k) = Some k'"
    "near k k'" "fs_ok k'" "inodes k' = inodes k" "fmem k' = fmem k" "used_blocks k' = used_blocks k" "free_blocks k' = free_blocks k"
    "\<And>l. \<not> (sync \<and> l = table_of k i) \<Longrightarrow> dsk k' l = dsk k l" "\<And>s. s < 140 \<Longrightarrow> lba_of k' i s = M s" "sync \<longrightarrow> 12 < G"
proof -
  have ok: "fs_ok k" and lm: "loop_map k i io E M" and bo: "blocks_ok (used_blocks k) (table_of k i) G M"
    using at by (simp_all add: at_sector_def)
  show thesis
  proof (cases sync)
    case False
    have "lba_of k i s = M s" if "s < 140" for s
    proof (cases "12 < E")
      case True
      then show ?thesis using at False that by (auto simp: at_sector_def loop_map_def lba_of_def table_stored_def)
    next
      case False
      then show ?thesis using lm that by (cases "s < 12") (auto simp: loop_map_def lba_of_def)
    qed
    then show thesis using ok False by (intro that [of k]) simp_all
  next
    case True
    then have E12: "12 < E" using at by (simp add: at_sector_def)
    then have t: "table_of k i \<in> used_blocks k" using bo E by (auto simp: blocks_ok_def)
    note range = used_blocks_range [OF ok UnI1 [OF t]]
    have le: "table_of k i + 1 \<le> Suc MAX_LBA" "{table_of k i..<table_of k i + 1} \<inter> bitmap_area k = {}" using range by auto
    obtain k' where k': "write_disk (table_of k i) (io + 512) 1 k = Some k'" "near k k'" "fs_ok k'" "inodes k' = inodes k"
      "fmem k' = fmem k" "used_blocks k' = used_blocks k" "free_blocks k' = free_blocks k"
      "dsk k' = put_sectors (dsk k) (table_of k i) 1 (io + 512) (fmem k)"
      using write_disk_ok [OF ok zero_less_one le] by metis
    have d: "dsk k' l j = (if l = table_of k i \<and> j < 512 then fmem k (io + 512 + j) else dsk k l j)" for l j
      by (auto simp: k'(8) put_sectors_def)
    have t': "table_of k' i = table_of k i" using k'(4) by (simp add: table_of_def)
    have "lba_of k' i s = M s" if "s < 140" for s
    proof (cases "s < 12")
      case True
      then show ?thesis using lm k'(4) by (simp add: lba_of_def loop_map_def)
    next
      case False
      have "table_word (dsk k' (table_of k i)) 0 s = table_word (fmem k) (io + 512) s"
        using False that by (intro table_word_cong) (auto simp: d)
      then show ?thesis using lm E12 False that range(1) by (simp add: lba_of_def loop_map_def t')
    qed
    moreover have "dsk k' l = dsk k l" if "l \<noteq> table_of k i" for l using that by (auto simp: fun_eq_iff d)
    moreover have "(if sync then write_disk (unat (i_sectors (inodes k i) 12)) (io + 512) 1 k else Some k) = Some k'"
      using True k'(1) by (simp add: table_of_def)
    moreover have "12 < G" using E12 E by simp
    ultimately show thesis using True k'(2-7) by (intro that [of k']) blast+
  qed
qed

lemma sync_inode_if_ok:
  assumes ok: "fs_ok k" and n: "i_no (inodes k i) < 4096"
  obtains k' where "(if grown then inode_sync i io k else Some k) = Some k'" "near k k'" "fs_ok k'" "inodes k' = inodes k"
    "used_blocks k' = used_blocks k" "grown \<or> stored k i \<Longrightarrow> stored k' i"
    "\<And>a. a < io \<or> io + 1024 \<le> a \<Longrightarrow> fmem k' a = fmem k a" "only_writes {} (i_no (inodes k i)) k k'"
proof (cases grown)
  case True
  show thesis
  proof (rule inode_sync_ok [OF ok n, of io])
    fix k' assume k': "inode_sync i io k = Some k'" "near k k'" "fs_ok k'" "inodes k' = inodes k" "stored k' i"
    "used_blocks k' = used_blocks k" "free_blocks k' = free_blocks k"
    "\<And>a. a < io \<or> io + 512 \<le> a \<Longrightarrow> fmem k' a = fmem k a"
    "\<And>l b. l \<noteq> inode_sec k (i_no (inodes k i)) \<or> b < inode_off (i_no (inodes k i)) \<or>
      inode_off (i_no (inodes k i)) + 64 \<le> b \<Longrightarrow> b < 512 \<Longrightarrow> dsk k' l b = dsk k l b"
    "\<And>l. l \<noteq> inode_sec k (i_no (inodes k i)) \<Longrightarrow> dsk k' l = dsk k l"
    have "only_writes {} (i_no (inodes k i)) k k'" using k'(2,9,10) by (auto simp: only_writes_def)
    then show thesis using True k' by (intro that [of k']) auto
  qed
next
  case False
  then show thesis using ok by (intro that [of k]) (simp_all add: only_writes_def)
qed

lemma stored_cong:
  assumes "near k k'" "inodes k' i = inodes k i" "dsk k' (inode_sec k (i_no (inodes k i))) = dsk k (inode_sec k (i_no (inodes k i)))"
  shows "stored k' i = stored k i"
  using assms(2,3) nearD(2) [OF assms(1)] by (simp add: stored_def inode_sec_def)

lemma at_sector_size:
  "at_sector (k\<lparr>inodes := (inodes k)(i := (inodes k i)\<lparr>i_size := w\<rparr>)\<rparr>) i io G M sec sync = at_sector k i io G M sec sync"
  by (simp add: at_sector_def fs_ok_def lim_def bitmap_stored_def chan_at_def lock_at_def loop_map_def lba_of_def table_of_def
      table_stored_def blocks_ok_def used_blocks_def block_used_def)

section \<open>Writing a file\<close>

text \<open>The sectors that a write of \<open>cnt\<close> bytes at \<open>p\<close> goes up to.\<close>

definition end_sec :: "nat \<Rightarrow> nat \<Rightarrow> nat" where
  "end_sec p cnt = (if cnt = 0 then p div 512 else nblk (p + cnt))"

lemma end_sec_bounds:
  assumes "p \<le> n" "p + cnt \<le> 71680"
  shows "end_sec p cnt \<le> 140" "cnt = 0 \<or> 512 * (p div 512) + p mod 512 + cnt \<le> 512 * end_sec p cnt"
    "if cnt = 0 then end_sec p cnt = p div 512 else 512 * end_sec p cnt < 512 * (p div 512) + p mod 512 + cnt + 512"
    "max (nblk n) (end_sec p cnt) = nblk (max n (p + cnt))" "need (nblk n) (end_sec p cnt) \<le> need (nblk n) (nblk (p + cnt))"
proof -
  have e: "512 * (p div 512) + p mod 512 = p" by simp
  have m: "max (nblk n) (nblk (p + cnt)) = nblk (max n (p + cnt))"
    using nblk_bounds(5) [of "p + cnt" n] nblk_bounds(5) [of n "p + cnt"] by (auto simp: max_def)
  have le: "p div 512 \<le> nblk n" "nblk p \<le> nblk n" using nblk_bounds(4,5) assms(1) by blast+
  have "p div 512 \<le> nblk (p + cnt)" by (rule nblk_bounds(4)) simp
  then show "end_sec p cnt \<le> 140" using nblk_bounds(6) [OF assms(2)] by (simp add: end_sec_def)
  show "cnt = 0 \<or> 512 * (p div 512) + p mod 512 + cnt \<le> 512 * end_sec p cnt"
    using nblk_bounds(1) [of "p + cnt"] unfolding e by (simp add: end_sec_def)
  show "if cnt = 0 then end_sec p cnt = p div 512 else 512 * end_sec p cnt < 512 * (p div 512) + p mod 512 + cnt + 512"
    using nblk_bounds(2) [of "p + cnt"] unfolding e by (simp add: end_sec_def)
  show "max (nblk n) (end_sec p cnt) = nblk (max n (p + cnt))"
    using m le(1) assms(1) by (cases "cnt = 0") (simp_all add: end_sec_def max_absorb1)
  show "need (nblk n) (end_sec p cnt) \<le> need (nblk n) (nblk (p + cnt))"
    using le by (auto simp: end_sec_def need_def)
qed

lemma write_body_ok:
  assumes ok: "fs_ok k" and f: "file_ok k i" and p: "p \<le> fsize k i" "p + cnt \<le> 71680"
    and free: "need (nblk (fsize k i)) (nblk (p + cnt)) \<le> card (free_blocks k)" and src: "src + cnt \<le> io"
  obtains k' S where "write_body i io src cnt p k = Some k'" "only_writes S (i_no (inodes k i)) k k'" "fs_ok k'"
    "S \<subseteq> file_blocks k i \<union> free_blocks k" "used_blocks k \<subseteq> used_blocks k'" "\<forall>j. j \<noteq> i \<longrightarrow> inodes k' j = inodes k j"
    "file_ok k' i" "file_blocks k' i \<subseteq> file_blocks k i \<union> free_blocks k" "fsize k' i = max (fsize k i) (p + cnt)"
    "\<forall>a. a < io \<or> io + 1024 \<le> a \<longrightarrow> fmem k' a = fmem k a"
    "\<forall>q < fsize k' i. file_byte k' i q = (if p \<le> q \<and> q < p + cnt then fmem k (src + (q - p)) else file_byte k i q)"
    "i_no (inodes k' i) = i_no (inodes k i)"
proof -
  define n where "n = i_no (inodes k i)"
  define G where "G = nblk (fsize k i)"
  define M where "M = lba_of k i"
  define sec where "sec = p div 512"
  define off where "off = p mod 512"
  define E where "E = end_sec p cnt"
  note end_b = end_sec_bounds [OF p, folded sec_def off_def E_def G_def]
  have e: "512 * sec + off = p" by (simp add: sec_def off_def)
  have n: "n < 4096" using f by (simp add: file_ok_def n_def)
  note area = inode_sec_area [OF ok n]
  obtain k1 where k1: "(if 12 < sec then do { ASSERT (i_sectors (inodes k i) 12 \<noteq> 0);
      read_disk (unat (i_sectors (inodes k i) 12)) (io + 512) 1 k } else Some k) = Some k1"
    "takes {} k k1" "inodes k1 = inodes k" "dsk k1 = dsk k" "\<And>a. a < io \<or> io + 1024 \<le> a \<Longrightarrow> fmem k1 a = fmem k a"
    "at_sector k1 i io G M sec False"
    using start_ok [OF ok f p(1), of io] unfolding G_def M_def sec_def by metis
  have fr1: "free_blocks k1 = free_blocks k" "used_blocks k1 = used_blocks k" "near k k1" "bitmap_area k1 = bitmap_area k"
    using k1(2) nearD(9) by (auto simp: takes_def)
  have fr: "need G E \<le> card (free_blocks k1)" using free end_b(5) fr1(1) by (simp add: G_def)
  have sep: "off < 512" "src + cnt \<le> io \<or> io + 1024 \<le> src" using src by (simp_all add: off_def)
  from write_loop_fs_ok [OF k1(6) end_b(1) sep end_b(2,3) fr] obtain k2 sync M' X where k2: "write_loop_fs i io src cnt off sec False k1 = Some (0, sync, k2)" "moves X i io k1 k2"
    "at_sector k2 i io (max G E) M' E sync" "\<forall>s < G. M' s = M s" "M' ` {G..<E} \<subseteq> X"
    "\<forall>l. l \<notin> bitmap_area k1 \<and> l \<notin> M' ` {sec..<E} \<longrightarrow> dsk k2 l = dsk k1 l"
    "\<forall>s j. sec \<le> s \<and> s < E \<and> j < 512 \<longrightarrow>
      dsk k2 (M' s) j = put_byte (512 * sec + off) cnt (\<lambda>x. fmem k1 (src + x)) s j (dsk k1 (M' s) j)"
    "E \<le> G \<longrightarrow> inodes k2 = inodes k1" "12 < G \<longrightarrow> table_of k2 i = table_of k1 i" "table_of k2 i \<in> insert (table_of k1 i) X"
    by (elim exE conjE) (rule that)
  define grown where "grown \<longleftrightarrow> unat (i_size (inodes k2 i)) < p + cnt"
  define k3 where "k3 = (if grown then k2\<lparr>inodes := (inodes k2)(i := (inodes k2 i)\<lparr>i_size := of_nat (p + cnt)\<rparr>)\<rparr> else k2)"
  have at3: "at_sector k3 i io (max G E) M' E sync" using k2(3) at_sector_size [of k2 i] by (simp add: k3_def)
  obtain k4 where k4: "(if sync then write_disk (unat (i_sectors (inodes k3 i) 12)) (io + 512) 1 k3 else Some k3) = Some k4"
    "near k3 k4" "fs_ok k4" "inodes k4 = inodes k3" "fmem k4 = fmem k3" "used_blocks k4 = used_blocks k3" "free_blocks k4 = free_blocks k3"
    "\<And>l. \<not> (sync \<and> l = table_of k3 i) \<Longrightarrow> dsk k4 l = dsk k3 l" "\<And>s. s < 140 \<Longrightarrow> lba_of k4 i s = M' s" "sync \<longrightarrow> 12 < max G E"
    by (rule sync_second_ok [OF at3]) auto
  obtain g where g: "inodes k2 = (inodes k1)(i := (inodes k1 i)\<lparr>i_sectors := g\<rparr>)" using k2(2) by (auto simp: moves_def)
  have i4: "i_no (inodes k4 i) = n" "\<And>j. j \<noteq> i \<Longrightarrow> inodes k4 j = inodes k j" "table_of k4 i = table_of k2 i"
    by (auto simp: k4(4) k3_def g k1(3) n_def table_of_def)
  obtain k5 where k5: "(if grown then inode_sync i io k4 else Some k4) = Some k5" "near k4 k5" "fs_ok k5" "inodes k5 = inodes k4"
    "used_blocks k5 = used_blocks k4" "grown \<or> stored k4 i \<Longrightarrow> stored k5 i"
    "\<And>a. a < io \<or> io + 1024 \<le> a \<Longrightarrow> fmem k5 a = fmem k4 a" "only_writes {} n k4 k5"
    using sync_inode_if_ok [OF k4(3), of i grown io] n i4(1) by metis
  define S where "S = M' ` {sec..<E} \<union> (if sync then {table_of k2 i} else {})"
  have bo: "blocks_ok (used_blocks k) (table_of k i) G M" using f by (simp add: file_ok_def G_def M_def)
  have bo2: "blocks_ok (used_blocks k2) (table_of k2 i) (max G E) M'" using k2(3) by (simp add: at_sector_def)
  have X: "X \<subseteq> free_blocks k" "used_blocks k2 = used_blocks k \<union> X" using k2(2) fr1 by (auto simp: moves_def)
  have t1: "table_of k1 i = table_of k i" using k1(3) by (simp add: table_of_def)
  have fb: "M' s \<in> file_blocks k i \<union> free_blocks k" if "s < max G E" for s
  proof (cases "s < G")
    case True
    then show ?thesis using k2(4) by (simp add: file_blocks_def M_def G_def)
  next
    case False
    then have "M' s \<in> M' ` {G..<E}" using that by simp
    then show ?thesis using k2(5) X(1) by blast
  qed
  have tb: "table_of k2 i \<in> file_blocks k i \<union> free_blocks k" if "12 < max G E"
  proof (cases "12 < G")
    case True
    then show ?thesis using k2(9) t1 by (simp add: file_blocks_def G_def)
  next
    case False
    then have "table_of k1 i = 0" using bo t1 by (simp add: blocks_ok_def)
    moreover have "table_of k2 i \<in> used_blocks k2" using bo2 that by (simp add: blocks_ok_def)
    then have "table_of k2 i \<noteq> 0" using used_blocks_range(1) [of k2] k2(3) by (auto simp: at_sector_def)
    ultimately show ?thesis using k2(10) X(1) by auto
  qed
  have SE: "{sec..<E} \<subseteq> {..<max G E}" by auto
  have S: "S \<subseteq> file_blocks k i \<union> free_blocks k" using fb tb k4(10) SE by (auto simp: S_def)
  have fbu: "file_blocks k i \<subseteq> used_blocks k" by (rule file_blocks_used [OF f])
  have iS: "inode_sec k n \<notin> S" using area(4) S fbu by blast
  have d3: "dsk k3 = dsk k2" by (simp add: k3_def)
  have t3: "table_of k3 i = table_of k2 i" by (simp add: k3_def table_of_def)
  have d4: "dsk k4 l = dsk k l" if "l \<notin> bitmap_area k" "l \<notin> S" for l
  proof -
    have "dsk k2 l = dsk k1 l" using k2(6) that fr1(4) by (simp add: S_def)
    moreover have "dsk k4 l = dsk k3 l" using that(2) t3 by (intro k4(8)) (auto simp: S_def)
    ultimately show ?thesis using k1(4) d3 by simp
  qed
  have nk4: "near k k4"
  proof -
    have "near k1 k2" using k2(2) by (simp add: moves_def)
    moreover have "near k2 k3" by (simp add: k3_def near_def)
    ultimately show ?thesis using near_trans fr1(3) k4(2) by blast
  qed
  note sec4 = nearD(2) [OF nk4] and area4 = nearD(9) [OF nk4]
  have is4: "inode_sec k4 n = inode_sec k n" by (simp add: inode_sec_def sec4)
  have ow: "only_writes S n k k5"
    using k5(2,8) nk4 near_trans [of k k4 k5] d4 area area4 is4 iS
    by (auto simp: only_writes_def)
  have d5: "dsk k5 l = dsk k4 l" if "l \<noteq> inode_sec k n" "l \<notin> bitmap_area k" for l
    using k5(8) that is4 area4 by (simp add: only_writes_def)
  have u5: "used_blocks k5 = used_blocks k2" using k5(5) k4(6) by (simp add: k3_def used_blocks_def lim_def block_used_def)
  have t5: "table_of k5 i = table_of k2 i" using i4(3) k5(4) by (simp add: table_of_def)
  have blk: "l \<noteq> inode_sec k n \<and> l \<notin> bitmap_area k" if "l \<in> file_blocks k i \<union> free_blocks k" for l
    using that fbu area(4) used_blocks_range(3) [OF ok, of l] by blast
  have lba5: "lba_of k5 i s = M' s" if "s < 140" for s
  proof -
    have "dsk k5 (table_of k2 i) = dsk k4 (table_of k2 i)" if "table_of k2 i \<noteq> 0"
      using bo2 tb that blk by (intro d5) (auto simp: blocks_ok_def split: if_splits)
    then have "lba_of k5 i s = lba_of k4 i s" using i4(3) t5 k5(4) by (simp add: lba_of_def)
    then show ?thesis using k4(9) [OF that] by simp
  qed
  have w: "unat (of_nat (p + cnt) :: u32) = p + cnt" using p(2) by (simp add: unat_of_nat del: of_nat_add)
  have sz: "fsize k5 i = max (fsize k i) (p + cnt)"
    using w by (simp add: fsize_def k5(4) k4(4) k3_def grown_def g k1(3) del: of_nat_add)
  have nb: "nblk (fsize k5 i) = max G E" unfolding sz using end_b(4) by simp
  have st: "stored k5 i"
  proof (cases grown)
    case False
    then have "p + cnt \<le> fsize k i" by (simp add: grown_def g k1(3) fsize_def)
    then have "E \<le> G" using end_b(4) by (simp add: G_def max_def split: if_splits)
    then have "inodes k4 = inodes k" using k2(8) k1(3) k4(4) False by (simp add: k3_def)
    moreover have "stored k i" using f by (simp add: file_ok_def)
    ultimately have "stored k4 i" using stored_cong [OF nk4, of i] d4 [OF area(2) iS] by (simp add: n_def)
    then show ?thesis using k5(6) by blast
  qed (use k5(6) in blast)
  have bo5: "blocks_ok (used_blocks k5) (table_of k5 i) (max G E) (lba_of k5 i)"
    unfolding u5 t5 by (rule blocks_ok_cong [OF _ bo2]) (simp add: lba5)
  have le140: "max G E \<le> 140" using bo2 by (simp add: blocks_ok_def)
  have "file_ok k5 i" using st bo5 n i4(1) k5(4) by (simp add: file_ok_def nb)
  have byte: "file_byte k5 i q = (if p \<le> q \<and> q < p + cnt then fmem k (src + (q - p)) else file_byte k i q)"
    if q: "q < fsize k5 i" for q
  proof -
    define s where "s = q div 512"
    define j where "j = q mod 512"
    have qe: "512 * s + j = q" "j < 512" by (simp_all add: s_def j_def)
    have s: "s < max G E" using nblk_bounds(3) [OF q] nb by (simp add: s_def)
    have "dsk k5 (M' s) = dsk k4 (M' s)" using d5 blk [OF fb [OF s]] by blast
    also have "\<dots> = dsk k2 (M' s)"
    proof -
      have "M' s \<in> M' ` {..<max G E}" using s by blast
      then have "\<not> (sync \<and> M' s = table_of k3 i)" using bo2 t3 k4(10) by (auto simp: blocks_ok_def)
      then show ?thesis using k4(8) d3 by simp
    qed
    finally have 1: "file_byte k5 i q = dsk k2 (M' s) j"
      using lba5 [OF less_le_trans [OF s le140]] by (simp add: file_byte_def s_def j_def)
    have 2: "file_byte k i q = dsk k (M' s) j" if "s < G" using k2(4) that by (simp add: file_byte_def M_def s_def j_def)
    show ?thesis
    proof (cases "sec \<le> s \<and> s < E")
      case True
      then have "dsk k2 (M' s) j = put_byte p cnt (\<lambda>x. fmem k1 (src + x)) s j (dsk k (M' s) j)"
        using k2(7) qe(2) k1(4) e by simp
      moreover have "s < G" if "\<not> (p \<le> q \<and> q < p + cnt)"
      proof -
        have "q < fsize k i" using q that sz p(1) by auto
        then show ?thesis using nblk_bounds(3) by (simp add: s_def G_def)
      qed
      moreover have "fmem k1 (src + (q - p)) = fmem k (src + (q - p))" if "p \<le> q" "q < p + cnt"
        by (rule k1(5)) (use src that in linarith)
      ultimately show ?thesis using 1 2 qe(1) by (auto simp: put_byte_def)
    next
      case False
      have "s < G" using False s end_b(4) p(1) nblk_bounds(4) [OF p(1)] by (auto simp: G_def sec_def)
      moreover have "M' s \<notin> M' ` {sec..<E}"
        using bo2 False s SE inj_on_image_mem_iff [of M' "{..<max G E}" s "{sec..<E}"] by (simp add: blocks_ok_def)
      then have "dsk k2 (M' s) = dsk k (M' s)" using k2(6) fr1(4) blk [OF fb [OF s]] k1(4) by simp
      moreover have "\<not> (p \<le> q \<and> q < p + cnt)"
      proof
        assume a: "p \<le> q \<and> q < p + cnt"
        then have "sec \<le> s" using div_le_mono by (simp add: sec_def s_def)
        moreover have "s < E" using a nblk_bounds(3) [of q "p + cnt"] by (simp add: s_def E_def end_sec_def)
        ultimately show False using False by simp
      qed
      ultimately show ?thesis using 1 2 by auto
    qed
  qed
  have "write_body i io src cnt p k = Some k5"
  proof -
    have "write_body i io src cnt p k = do {
        k \<leftarrow> (if sync then write_disk (unat (i_sectors (inodes k3 i) 12)) (io + 512) 1 k3 else Some k3);
        if grown then inode_sync i io k else Some k }"
      using k1(1) k2(1)
      by (simp add: write_body_def SECTOR_SIZE_def sec_def [symmetric] off_def [symmetric] grown_def [symmetric]
          k3_def [symmetric] Let_def)
    then show ?thesis unfolding k4(1) using k5(1) by simp
  qed
  moreover have "lba_of k5 i ` {..<max G E} = M' ` {..<max G E}"
    using lba5 le140 by (intro image_cong refl) (metis lessThan_iff less_le_trans)
  then have fb5: "file_blocks k5 i = M' ` {..<max G E} \<union> (if 12 < max G E then {table_of k2 i} else {})"
    by (simp add: file_blocks_def nb t5)
  have "file_blocks k5 i \<subseteq> file_blocks k i \<union> free_blocks k"
    unfolding fb5 using fb tb by (intro Un_least image_subsetI) (auto simp del: max_less_iff_conj less_max_iff_disj)
  moreover have "fmem k5 a = fmem k a" if "a < io \<or> io + 1024 \<le> a" for a
  proof -
    have "fmem k5 a = fmem k2 a" using k5(7) [OF that] k4(5) by (simp add: k3_def)
    also have "\<dots> = fmem k1 a" using k2(2) that by (auto simp: moves_def)
    finally show ?thesis using k1(5) [OF that] by simp
  qed
  moreover have "inodes k5 j = inodes k j" if "j \<noteq> i" for j using i4(2) [OF that] k5(4) by simp
  ultimately show thesis
    using ow k5(3) S u5 X(2) \<open>file_ok k5 i\<close> sz byte i4(1) k5(4) by (intro that [of k5 S]) (simp_all add: n_def)
qed

section \<open>Reading a file\<close>

text \<open>What reading does: it changes the buffer and the memory from \<open>dest\<close> on.\<close>

definition reads :: "nat \<Rightarrow> nat \<Rightarrow> nat \<Rightarrow> (nat \<Rightarrow> u8) \<Rightarrow> 'a fsys_scheme \<Rightarrow> 'a fsys_scheme \<Rightarrow> bool" where
  "reads io dest c f k k' \<longleftrightarrow> takes {} k k' \<and> inodes k' = inodes k \<and> dsk k' = dsk k \<and>
     (\<forall>a. a < io \<or> io + 1024 \<le> a \<longrightarrow> fmem k' a = (if dest \<le> a \<and> a < dest + c then f (a - dest) else fmem k a))"

lemma readsD:
  assumes "reads io dest c f k k'"
  shows "fs_ok k'" "used_blocks k' = used_blocks k" "table_of k' i = table_of k i" "lba_of k' i = lba_of k i" "fsize k' i = fsize k i"
    "file_byte k' i = file_byte k i" "near k k'"
  using assms by (auto simp: reads_def takes_def table_of_def lba_of_def fsize_def file_byte_def intro!: ext)

lemma reads_none: "fs_ok k \<Longrightarrow> reads io d 0 f k k"
  using takes_mem(3) [of k] by (auto simp: reads_def)

definition table_loaded :: "'a fsys_scheme \<Rightarrow> nat \<Rightarrow> nat \<Rightarrow> nat \<Rightarrow> bool" where
  "table_loaded k i io sec \<longleftrightarrow> (12 < sec \<longrightarrow> (\<forall>s. 12 \<le> s \<and> s < 140 \<longrightarrow> table_word (fmem k) (io + 512) s = lba_of k i s))"

lemma load_table:
  assumes ok: "fs_ok k" and bo: "blocks_ok (used_blocks k) (table_of k i) G (lba_of k i)" and G: "12 < G"
  obtains k' where "read_disk (unat (i_sectors (inodes k i) 12)) (io + 512) 1 k = Some k'" "reads io d 0 f k k'"
    "table_loaded k' i io sec"
proof -
  have t: "table_of k i \<in> used_blocks k" using bo G by (simp add: blocks_ok_def)
  then have t0: "table_of k i \<noteq> 0" using used_blocks_range(1) [OF ok] by blast
  obtain k1 where k1: "read_disk (table_of k i) (io + 512) 1 k = Some k1" "seeks {} i io k k1" "inodes k1 = inodes k" "dsk k1 = dsk k"
    "fmem k1 = (\<lambda>a. if io + 512 \<le> a \<and> a < io + 1024 then dsk k (table_of k i) (a - (io + 512)) else fmem k a)"
    using seeks_read [OF ok, of "table_of k i" io i] t by blast
  have l: "lba_of k1 i = lba_of k i" using k1(3,4) by (auto simp: lba_of_def table_of_def)
  have "table_word (fmem k1) (io + 512) s = lba_of k i s" if "12 \<le> s" "s < 140" for s
    using that t0 table_word_cong [of "fmem k1" "io + 512" "dsk k (table_of k i)" 0 s] by (simp add: lba_of_def k1(5))
  then have "table_loaded k1 i io sec" by (simp add: table_loaded_def l)
  moreover have "reads io d 0 f k k1" using k1(2-5) by (auto simp: reads_def seeks_def)
  ultimately show thesis using k1(1) by (intro that [of k1]) (simp_all add: table_of_def)
qed

lemma find_read_ok:
  assumes ok: "fs_ok k" and bo: "blocks_ok (used_blocks k) (table_of k i) G (lba_of k i)" and sec: "sec < G"
    and tl: "table_loaded k i io sec" and nl: "sec < 12 \<longrightarrow> nl = In_table 0"
  obtains k' nl' where "find_read i io sec nl k = Some (nl', k')" "reads io d 0 f k k'" "table_loaded k' i io (Suc sec)"
    "unat (get_lba i io nl' k') = lba_of k i sec" "Suc sec < 12 \<longrightarrow> nl' = In_table 0"
proof -
  have G: "G \<le> 140" using bo by (simp add: blocks_ok_def)
  consider "sec < 12" | "sec = 12" | "12 < sec" by linarith
  then show thesis
  proof cases
    case 1
    define m where "m = writes (fmem k) (io + 512) (bytes32 (i_sectors (inodes k i) sec))"
    have "m a = fmem k a" if "a < io \<or> io + 1024 \<le> a" for a
      using that unfolding m_def by (intro writes_outside) auto
    then have "reads io d 0 f k (k\<lparr>fmem := m\<rparr>)" using takes_mem(1) [OF ok, of m] by (auto simp: reads_def)
    then show thesis
      using 1 nl by (intro that [of "In_table 0" "k\<lparr>fmem := m\<rparr>"])
        (simp_all add: find_read_def put_lba_def get_lba_def m_def word32_writes lba_of_def table_loaded_def)
  next
    case 2
    then have "12 < G" using sec by simp
    from load_table [OF ok bo this, where io = io and d = d and f = f and sec = "Suc sec"]
    obtain k' where k': "read_disk (unat (i_sectors (inodes k i) 12)) (io + 512) 1 k = Some k'" "reads io d 0 f k k'"
      "table_loaded k' i io (Suc sec)" by blast
    have "table_word (fmem k') (io + 512) 12 = lba_of k' i 12" using k'(3) 2 by (simp add: table_loaded_def)
    then have "unat (get_lba i io (In_table 0) k') = lba_of k i sec"
      using readsD(4) [OF k'(2)] 2 by (simp add: table_word_def get_lba_def)
    then show thesis using 2 k' by (intro that [of "In_table 0" k']) (simp_all add: find_read_def)
  next
    case 3
    have "reads io d 0 f k k" by (rule reads_none [OF ok])
    moreover have "unat (get_lba i io (In_table (sec - 12)) k) = lba_of k i sec"
      using tl 3 sec G by (simp add: table_loaded_def table_word_def get_lba_def)
    ultimately show thesis
      using 3 tl by (intro that [of "In_table (sec - 12)" k]) (simp_all add: find_read_def table_loaded_def)
  qed
qed

lemma reads_trans:
  assumes "reads io dest c f a b" "reads io (dest + c) d g b k"
  shows "reads io dest (c + d) (\<lambda>x. if x < c then f x else g (x - c)) a k"
proof -
  have "fmem k x = (if dest \<le> x \<and> x < dest + (c + d) then if x - dest < c then f (x - dest) else g (x - dest - c) else fmem a x)"
    if "x < io \<or> io + 1024 \<le> x" for x
  proof -
    consider "x < dest" | "dest \<le> x" "x < dest + c" | "dest + c \<le> x" "x < dest + c + d" | "dest + c + d \<le> x" by linarith
    then show ?thesis using assms that by cases (auto simp: reads_def diff_diff_left)
  qed
  moreover have "takes {} a k" using assms takes_trans0(1) by (auto simp: reads_def)
  ultimately show ?thesis using assms by (auto simp: reads_def)
qed

lemma reads_cong: "(\<And>x. x < c \<Longrightarrow> f x = g x) \<Longrightarrow> reads io dest c f k k' = reads io dest c g k k'"
  unfolding reads_def by (intro conj_cong refl all_cong) auto

lemma read_sector_ok:
  assumes ok: "fs_ok k" and bo: "blocks_ok (used_blocks k) (table_of k i) G (lba_of k i)" and sec: "sec < G"
    and tl: "table_loaded k i io sec" and nl: "sec < 12 \<longrightarrow> nl = In_table 0" and off: "off < 512" and dest: "dest + cnt \<le> io"
  obtains k' nl' where "read_sector i io dest cnt off sec nl k = Some (min cnt (512 - off), nl', k')"
    "reads io dest (min cnt (512 - off)) (\<lambda>x. file_byte k i (512 * sec + off + x)) k k'" "table_loaded k' i io (Suc sec)"
    "Suc sec < 12 \<longrightarrow> nl' = In_table 0"
proof -
  define c where "c = min cnt (512 - off)"
  define F where "F = (\<lambda>x. file_byte k i (512 * sec + off + x))"
  obtain k1 nl' where 1: "find_read i io sec nl k = Some (nl', k1)" "reads io dest 0 F k k1" "table_loaded k1 i io (Suc sec)"
    "unat (get_lba i io nl' k1) = lba_of k i sec" "Suc sec < 12 \<longrightarrow> nl' = In_table 0"
    using find_read_ok [OF ok bo sec tl nl] by blast
  define b where "b = lba_of k i sec"
  have b: "b \<in> used_blocks k1" using bo sec readsD(2) [OF 1(2)] by (auto simp: blocks_ok_def b_def)
  note ok1 = readsD(1) [OF 1(2)]
  have le: "b \<noteq> 0" "b + 1 \<le> Suc MAX_LBA" using used_blocks_range(1,2) [OF ok1] b by auto
  obtain k2 where k2: "read_disk b io 1 k1 = Some k2" "takes {} k1 k2" "inodes k2 = inodes k1"
    "fmem k2 = fill (fmem k1) io 1 (\<lambda>i. dsk k1 (b + i))" "dsk k2 = dsk k1"
    using read_disk_ok [OF ok1 zero_less_one le(2) disjI1 [OF refl]] by metis
  have m2: "fmem k2 = (\<lambda>a. if io \<le> a \<and> a < io + 512 then dsk k1 b (a - io) else fmem k1 a)"
    unfolding k2(4) fill_1 by (simp cong: if_cong)
  define k3 where "k3 = k2\<lparr>fmem := memcpy dest (io + off) c (fmem k2)\<rparr>"
  have m3: "fmem k3 a = (if dest \<le> a \<and> a < dest + c then fmem k2 (io + off + (a - dest)) else fmem k2 a)" for a
    by (simp add: k3_def memcpy_correct)
  have c: "off + c \<le> 512" "dest + c \<le> io" using off dest by (auto simp: c_def)
  have d1: "dsk k1 = dsk k" using 1(2) by (simp add: reads_def)
  have F: "F x = dsk k b (off + x)" if "x < c" for x
  proof -
    have "off + x < 512" using that c(1) by simp
    then have "(512 * sec + off + x) div 512 = sec" "(512 * sec + off + x) mod 512 = off + x" by (simp_all add: add.assoc)
    then show ?thesis by (simp add: F_def file_byte_def b_def)
  qed
  have "fmem k3 a = (if dest \<le> a \<and> a < dest + c then F (a - dest) else fmem k a)" if a: "a < io \<or> io + 1024 \<le> a" for a
  proof (cases "dest \<le> a \<and> a < dest + c")
    case True
    then obtain y where y: "a = dest + y" "y < c" by (metis le_Suc_ex nat_add_left_cancel_less)
    then have "off + y < 512" using c(1) by simp
    then show ?thesis using y F [OF y(2)] by (simp add: m3 m2 d1 add.assoc)
  next
    case False
    have "fmem k1 a = fmem k a" using 1(2) a by (auto simp: reads_def)
    then show ?thesis using False a by (auto simp: m3 m2)
  qed
  moreover have "takes {} k k3"
    using takes_trans0(1) [OF takes_trans0(1) [OF _ k2(2)] takes_mem(1) [OF takesD(2) [OF k2(2)]], of k] 1(2)
    by (simp add: reads_def k3_def)
  ultimately have r: "reads io dest c F k k3" using k2(3,5) 1(2) by (simp add: reads_def k3_def)
  have "fmem k3 a = fmem k1 a" if "io + 512 \<le> a" for a using that c(2) by (auto simp: m3 m2)
  then have "table_word (fmem k3) (io + 512) s = table_word (fmem k1) (io + 512) s" if "12 \<le> s" "s < 140" for s
    using that by (intro table_word_cong) auto
  then have "table_loaded k3 i io (Suc sec)"
    using 1(3) readsD(4) [OF r] readsD(4) [OF 1(2)] by (simp add: table_loaded_def)
  moreover have "read_sector i io dest cnt off sec nl k = Some (c, nl', k3)"
    using 1(1,4) k2(1) le(1) by (simp add: read_sector_def SECTOR_SIZE_def c_def [symmetric] b_def [symmetric] k3_def
        unat_eq_zero [symmetric] del: unat_eq_zero)
  ultimately show thesis using r 1(5) by (intro that [of nl' k3]) (simp_all add: c_def F_def)
qed

lemma read_loop_fs_ok:
  assumes "fs_ok k" "blocks_ok (used_blocks k) (table_of k i) G (lba_of k i)" "off < 512" "512 * sec + off + cnt \<le> 512 * G"
    "table_loaded k i io sec" "sec < 12 \<longrightarrow> nl = In_table 0" "dest + cnt \<le> io"
  shows "\<exists>k'. read_loop_fs i io dest cnt off sec nl k = Some (0, k') \<and>
    reads io dest cnt (\<lambda>x. file_byte k i (512 * sec + off + x)) k k'"
  using assms
proof (induction cnt arbitrary: k off sec nl dest rule: less_induct)
  case (less cnt)
  show ?case
  proof (cases "cnt = 0")
    case True
    have "reads io dest 0 f k k" for f by (rule reads_none [OF less.prems(1)])
    then show ?thesis using True by (simp add: read_loop_fs.simps)
  next
    case False
    have "512 * sec < 512 * G" using less.prems(4) False by linarith
    then have sec: "sec < G" by simp
    then have s140: "sec < 140" using less.prems(2) by (simp add: blocks_ok_def)
    define c where "c = min cnt (512 - off)"
    have c: "0 < c" "c \<le> cnt" "cnt - c < cnt" using False less.prems(3) by (auto simp: c_def)
    obtain k1 nl1 where 1: "read_sector i io dest cnt off sec nl k = Some (c, nl1, k1)"
      "reads io dest c (\<lambda>x. file_byte k i (512 * sec + off + x)) k k1" "table_loaded k1 i io (Suc sec)" "Suc sec < 12 \<longrightarrow> nl1 = In_table 0"
      using read_sector_ok [OF less.prems(1,2) sec less.prems(5,6,3,7)] unfolding c_def by blast
    note r = readsD [OF 1(2)]
    have p: "512 * Suc sec + 0 + (cnt - c) \<le> 512 * G"
    proof (cases "cnt \<le> 512 - off")
      case True
      then show ?thesis using sec by (simp add: c_def)
    next
      case False
      then show ?thesis using less.prems(3,4) by (simp add: c_def)
    qed
    obtain k2 where 2: "read_loop_fs i io (dest + c) (cnt - c) 0 (Suc sec) nl1 k1 = Some (0, k2)"
      "reads io (dest + c) (cnt - c) (\<lambda>x. file_byte k1 i (512 * Suc sec + 0 + x)) k1 k2"
      using less.IH [OF c(3) r(1) _ _ p 1(3,4), of "dest + c"] less.prems(2,7) c(2) r(2,3,4) by auto
    note reads_trans [OF 1(2) 2(2)]
    moreover have "(if x < c then file_byte k i (512 * sec + off + x) else file_byte k1 i (512 * Suc sec + 0 + (x - c)))
        = file_byte k i (512 * sec + off + x)" if "x < c + (cnt - c)" for x
    proof (cases "x < c")
      case False
      then have "c = 512 - off" using that by (auto simp: c_def)
      then have "512 * Suc sec + 0 + (x - c) = 512 * sec + off + x" using False less.prems(3) by simp
      then show ?thesis using False r(6) by (simp only: if_False)
    qed simp
    ultimately have "reads io dest (c + (cnt - c)) (\<lambda>x. file_byte k i (512 * sec + off + x)) k k2"
      by (subst (asm) reads_cong)
    then have "reads io dest cnt (\<lambda>x. file_byte k i (512 * sec + off + x)) k k2" using c(2) by simp
    moreover have "read_loop_fs i io dest cnt off sec nl k = Some (0, k2)"
      using 1(1) 2(1) False s140 by (simp add: read_loop_fs.simps [of i io dest cnt])
    ultimately show ?thesis by blast
  qed
qed

section \<open>The buffer\<close>

text \<open>The kernel memory that \<open>kmalloc\<close> and \<open>kfree\<close> of the buffer work on; it does not concern files.\<close>

definition kmem_good :: "'a fsys_scheme \<Rightarrow> bool" where
  "kmem_good k \<longleftrightarrow> (\<exists>A. kmem_inv k (kmem_st k) A) \<and> direct_map (mmu_state k) (pg_cnt (bd (kmem_st k)))"

lemma kmem_irrelevant [simp]:
  "fs_ok (k\<lparr>kmem_st := m\<rparr>) = fs_ok k" "used_blocks (k\<lparr>kmem_st := m\<rparr>) = used_blocks k" "free_blocks (k\<lparr>kmem_st := m\<rparr>) = free_blocks k"
  "bitmap_area (k\<lparr>kmem_st := m\<rparr>) = bitmap_area k" "lba_of (k\<lparr>kmem_st := m\<rparr>) = lba_of k" "table_of (k\<lparr>kmem_st := m\<rparr>) = table_of k"
  "fsize (k\<lparr>kmem_st := m\<rparr>) = fsize k" "stored (k\<lparr>kmem_st := m\<rparr>) = stored k" "inode_sec (k\<lparr>kmem_st := m\<rparr>) = inode_sec k"
  "file_byte (k\<lparr>kmem_st := m\<rparr>) = file_byte k"
  by (simp_all add: fs_ok_def used_blocks_def free_blocks_def bitmap_area_def lba_of_def table_of_def fsize_def stored_def
      inode_sec_def lim_def block_used_def bitmap_stored_def chan_at_def lock_at_def fun_eq_iff file_byte_def)

lemma kmem_irrelevant2 [simp]:
  "file_ok (k\<lparr>kmem_st := m\<rparr>) = file_ok k" "file_blocks (k\<lparr>kmem_st := m\<rparr>) = file_blocks k" "contents (k\<lparr>kmem_st := m\<rparr>) = contents k"
  by (simp_all add: fun_eq_iff file_ok_def file_blocks_def contents_def)

lemma buffer_ok:
  fixes k :: "'a fsys_scheme"
  assumes good: "kmem_good k" "current k \<noteq> NULL" and al: "kmalloc k (kmem_st k) 1024 \<noteq> None"
  obtains io m where "kmalloc_fs 1024 k = Some (io, k\<lparr>kmem_st := m\<rparr>)" "KERNEL_VADDR_START \<le> io"
    "\<forall>k' :: 'a fsys_scheme. current k' \<noteq> NULL \<and> mmu_state k' = mmu_state k \<and> kmem_st k' = m \<longrightarrow>
      (\<exists>m'. kfree_fs io k' = Some (k'\<lparr>kmem_st := m'\<rparr>) \<and> kmem_good (k'\<lparr>kmem_st := m'\<rparr>) \<and> live m' = live (kmem_st k))"
proof -
  obtain A where A: "kmem_inv k (kmem_st k) A" using good(1) by (auto simp: kmem_good_def)
  have "(1024 :: u32) \<le> MAX_BLOCK_SIZE" by (simp add: MAX_BLOCK_SIZE_def)
  from kmalloc_small_case [OF A this] al obtain io m A' idx p where
    m: "kmalloc k (kmem_st k) 1024 = Some (io, k, m)" "kmem_inv k m A'" "io \<notin> live (kmem_st k)"
      "live m = insert io (live (kmem_st k))" "idx < 7" "io \<in> blocks_of idx p" "p \<in> class_pages m idx"
      "pg_cnt (bd m) = pg_cnt (bd (kmem_st k))" by blast
  have "page_ok m A' idx p" by (rule class_page_ok [OF m(2,5,7)])
  then have "KERNEL_VADDR_START \<le> io" using m(6) by (auto simp: page_ok_def page_addr_def blocks_of_def)
  moreover have "\<exists>m'. kfree_fs io k' = Some (k'\<lparr>kmem_st := m'\<rparr>) \<and> kmem_good (k'\<lparr>kmem_st := m'\<rparr>) \<and> live m' = live (kmem_st k)"
    if k': "current k' \<noteq> NULL" "mmu_state k' = mmu_state k" "kmem_st k' = m" for k' :: "'a fsys_scheme"
  proof -
    have inv: "kmem_inv k' m A'" using m(2) kmem_inv_cong [OF k'(1) good(2)] by simp
    have dm: "direct_map (mmu_state k) (pg_cnt (bd m))" using good(1) m(8) by (simp add: kmem_good_def)
    from kfree_case [OF inv dm, of io] m(4) obtain m' B where
      f: "kfree k' m (mmu_state k) io = Some (k', m')" "kmem_inv k' m' B" "live m' = live m - {io}" "pg_cnt (bd m') = pg_cnt (bd m)"
      by auto
    have "kmem_inv (k'\<lparr>kmem_st := m'\<rparr>) m' B" using f(2) kmem_inv_cong [of "k'\<lparr>kmem_st := m'\<rparr>" k'] k'(1) by simp
    then show ?thesis
      using f k' m(3,4) dm by (intro exI [of _ m']) (auto simp: kfree_fs_def kmem_good_def)
  qed
  ultimately show thesis using m(1) that [of io m] by (simp add: kmalloc_fs_def)
qed

section \<open>Properties\<close>

text \<open>The bytes of memory from \<open>a\<close> on.\<close>

definition bytes_at :: "mem \<Rightarrow> nat \<Rightarrow> nat \<Rightarrow> u8 list" where
  "bytes_at m a n = map (\<lambda>x. m (a + x)) [0..<n]"

text \<open>Files that have nothing to do with each other.\<close>

definition apart :: "'a fsys_scheme \<Rightarrow> nat \<Rightarrow> nat \<Rightarrow> bool" where
  "apart k i j \<longleftrightarrow> j \<noteq> i \<and> i_no (inodes k j) \<noteq> i_no (inodes k i) \<and> file_blocks k j \<inter> file_blocks k i = {}"

text \<open>C7: a write of \<open>cnt\<close> bytes at \<open>p\<close> inside or at the end of a file, with room on the disk and the file not
  growing over 71680 bytes, returns \<open>cnt\<close> and leaves exactly these bytes in the file from \<open>p\<close> on, the rest of
  the file as it was; the inode and the block bitmap on disk are up to date, every other good file keeps its
  contents and shares no block with the written one, user memory is not touched and the buffer is given back.\<close>

theorem file_write_correct:
  fixes k :: "'a fsys_scheme"
  assumes "fs_ok k" "file_ok k i" "p \<le> fsize k i" "p + cnt \<le> 71680"
    and "need (nblk (fsize k i)) (nblk (p + cnt)) \<le> card (free_blocks k)" "src + cnt \<le> KERNEL_VADDR_START"
    and "kmem_good k" "kmalloc k (kmem_st k) 1024 \<noteq> None"
    and "f_mode (file_table k f) AND 0xf000 \<noteq> FT_SCREEN" "d_inode (dentries k (f_dentry (file_table k f))) = i"
  shows "\<exists>k'. file_write f src cnt p k = Some (int cnt, p + cnt, k') \<and> fs_ok k' \<and> file_ok k' i \<and>
    contents k' i = take p (contents k i) @ bytes_at (fmem k) src cnt @ drop (p + cnt) (contents k i) \<and>
    (\<forall>j. file_ok k j \<and> apart k i j \<longrightarrow> file_ok k' j \<and> contents k' j = contents k j \<and> apart k' i j) \<and>
    (\<forall>a < KERNEL_VADDR_START. fmem k' a = fmem k a) \<and> kmem_good k' \<and> live (kmem_st k') = live (kmem_st k)"
proof -
  have cur: "current k \<noteq> NULL" using assms(1) by (simp add: fs_ok_def lock_at_def)
  obtain io m where b: "kmalloc_fs 1024 k = Some (io, k\<lparr>kmem_st := m\<rparr>)" "KERNEL_VADDR_START \<le> io"
    "\<forall>k' :: 'a fsys_scheme. current k' \<noteq> NULL \<and> mmu_state k' = mmu_state k \<and> kmem_st k' = m \<longrightarrow>
      (\<exists>m'. kfree_fs io k' = Some (k'\<lparr>kmem_st := m'\<rparr>) \<and> kmem_good (k'\<lparr>kmem_st := m'\<rparr>) \<and> live m' = live (kmem_st k))"
    using buffer_ok [OF assms(7) cur assms(8)] by blast
  let ?k = "k\<lparr>kmem_st := m\<rparr>"
  have io: "src + cnt \<le> io" using assms(6) b(2) by linarith
  have h: "fs_ok ?k" "file_ok ?k i" "p \<le> fsize ?k i" "need (nblk (fsize ?k i)) (nblk (p + cnt)) \<le> card (free_blocks ?k)"
    using assms(1,2,3,5) by simp_all
  obtain k1 S where w: "write_body i io src cnt p ?k = Some k1" "only_writes S (i_no (inodes ?k i)) ?k k1" "fs_ok k1"
    "S \<subseteq> file_blocks ?k i \<union> free_blocks ?k" "used_blocks ?k \<subseteq> used_blocks k1" "\<forall>j. j \<noteq> i \<longrightarrow> inodes k1 j = inodes ?k j"
    "file_ok k1 i" "file_blocks k1 i \<subseteq> file_blocks ?k i \<union> free_blocks ?k" "fsize k1 i = max (fsize ?k i) (p + cnt)"
    "\<forall>a. a < io \<or> io + 1024 \<le> a \<longrightarrow> fmem k1 a = fmem ?k a"
    "\<forall>q < fsize k1 i. file_byte k1 i q = (if p \<le> q \<and> q < p + cnt then fmem ?k (src + (q - p)) else file_byte ?k i q)"
    "i_no (inodes k1 i) = i_no (inodes ?k i)"
    by (rule write_body_ok [OF h(1,2,3) assms(4) h(4) io])
  have "near ?k k1" using w(2) by (simp add: only_writes_def)
  note near = nearD [OF this]
  obtain m' where f: "kfree_fs io k1 = Some (k1\<lparr>kmem_st := m'\<rparr>)" "kmem_good (k1\<lparr>kmem_st := m'\<rparr>)" "live m' = live (kmem_st k)"
    using b(3) [rule_format, of k1] near(3,4,5) cur by auto
  have c: "contents k1 i = take p (contents k i) @ bytes_at (fmem k) src cnt @ drop (p + cnt) (contents k i)"
  proof (rule nth_equalityI)
    show "length (contents k1 i) = length (take p (contents k i) @ bytes_at (fmem k) src cnt @ drop (p + cnt) (contents k i))"
      using w(9) assms(3) by (simp add: contents_def bytes_at_def)
    fix q assume "q < length (contents k1 i)"
    then have q: "q < fsize k1 i" by (simp add: contents_def)
    then have "q < fsize k i" if "p + cnt \<le> q" using that w(9) by simp
    then show "contents k1 i ! q = (take p (contents k i) @ bytes_at (fmem k) src cnt @ drop (p + cnt) (contents k i)) ! q"
      using q w(11) assms(3) by (auto simp: contents_def bytes_at_def nth_append)
  qed
  have other: "file_ok k1 j \<and> contents k1 j = contents k j \<and> apart k1 i j" if j: "file_ok k j" "apart k i j" for j
  proof -
    have "file_blocks k j \<subseteq> used_blocks k" using file_blocks_used [OF j(1)] .
    then have "free_blocks k \<inter> file_blocks k j = {}" using used_free_disjoint by blast
    then have d: "(file_blocks k i \<union> free_blocks k) \<inter> file_blocks k j = {}" using j(2) by (auto simp: apart_def)
    have sub: "S \<subseteq> used_blocks ?k \<union> free_blocks ?k" using w(4) file_blocks_used [OF h(2)] by blast
    have ij: "inodes k1 j = inodes ?k j" "i_no (inodes ?k j) \<noteq> i_no (inodes ?k i)" "i_no (inodes ?k i) < 4096"
      using j(2) w(6) assms(2) by (auto simp: apart_def file_ok_def)
    have ne: "S \<inter> file_blocks ?k j = {}" using w(4) d by auto
    have fj: "file_ok ?k j" using j(1) by simp
    note o = other_file_kept [OF w(2) h(1) ne sub w(5) fj ij]
    have "file_blocks k1 j \<inter> file_blocks k1 i = {}" using o(3) w(8) d by auto
    moreover have "i_no (inodes k1 i) = i_no (inodes k i)" using w(12) by simp
    ultimately show ?thesis using o j(2) ij(1) by (simp add: apart_def)
  qed
  have "file_write f src cnt p k = Some (int cnt, p + cnt, k1\<lparr>kmem_st := m'\<rparr>)"
    using assms(9,10) b(1) w(1) f(1) by (simp add: file_write_def write_inode_def)
  moreover have "fmem k1 a = fmem k a" if "a < KERNEL_VADDR_START" for a using w(10) b(2) that by simp
  moreover have "apart (k1\<lparr>kmem_st := m'\<rparr>) i j = apart k1 i j" for j by (simp add: apart_def)
  ultimately show ?thesis using w(3,7) c other f by (intro exI [of _ "k1\<lparr>kmem_st := m'\<rparr>"]) simp
qed

text \<open>C8: a read of \<open>cnt\<close> bytes at \<open>p\<close> returns the number of bytes that are there and puts exactly these into
  memory; files, disk and the rest of user memory stay as they are, and the buffer is given back.\<close>

theorem file_read_correct:
  fixes k :: "'a fsys_scheme"
  assumes "fs_ok k" "file_ok k i" "p \<le> fsize k i" "dest + cnt \<le> KERNEL_VADDR_START"
    and "kmem_good k" "kmalloc k (kmem_st k) 1024 \<noteq> None"
    and "f_mode (file_table k f) AND 0xf000 \<noteq> FT_KEYBOARD" "d_inode (dentries k (f_dentry (file_table k f))) = i"
    and "n = min cnt (fsize k i - p)"
  shows "\<exists>k'. file_read f dest cnt p k = Some (int n, p + n, k') \<and> fs_ok k' \<and>
    bytes_at (fmem k') dest n = take cnt (drop p (contents k i)) \<and>
    (\<forall>a < KERNEL_VADDR_START. \<not> (dest \<le> a \<and> a < dest + n) \<longrightarrow> fmem k' a = fmem k a) \<and>
    (\<forall>j. contents k' j = contents k j \<and> file_ok k' j = file_ok k j) \<and> inodes k' = inodes k \<and> dsk k' = dsk k \<and>
    kmem_good k' \<and> live (kmem_st k') = live (kmem_st k)"
proof -
  have cur: "current k \<noteq> NULL" using assms(1) by (simp add: fs_ok_def lock_at_def)
  obtain io m where b: "kmalloc_fs 1024 k = Some (io, k\<lparr>kmem_st := m\<rparr>)" "KERNEL_VADDR_START \<le> io"
    "\<forall>k' :: 'a fsys_scheme. current k' \<noteq> NULL \<and> mmu_state k' = mmu_state k \<and> kmem_st k' = m \<longrightarrow>
      (\<exists>m'. kfree_fs io k' = Some (k'\<lparr>kmem_st := m'\<rparr>) \<and> kmem_good (k'\<lparr>kmem_st := m'\<rparr>) \<and> live m' = live (kmem_st k))"
    using buffer_ok [OF assms(5) cur assms(6)] by blast
  let ?k = "k\<lparr>kmem_st := m\<rparr>"
  define G where "G = nblk (fsize k i)"
  have ok: "fs_ok ?k" and bo: "blocks_ok (used_blocks ?k) (table_of ?k i) G (lba_of ?k i)"
    using assms(1,2) by (simp_all add: file_ok_def G_def)
  have G: "p div 512 \<le> G" using nblk_bounds(4) [OF assms(3)] by (simp add: G_def)
  obtain k1 where k1: "(if 12 < p div 512 then read_disk (unat (i_sectors (inodes ?k i) 12)) (io + 512) 1 ?k else Some ?k) = Some k1"
    "reads io dest 0 (\<lambda>x. 0) ?k k1" "table_loaded k1 i io (p div 512)"
  proof (cases "12 < p div 512")
    case True
    then have "12 < G" using G by simp
    from load_table [OF ok bo this, where io = io and d = dest and f = "\<lambda>x. 0" and sec = "p div 512"] True that
    show thesis by auto
  next
    case False
    then show thesis using that [of ?k] reads_none [OF ok] by (simp add: table_loaded_def)
  qed
  note r1 = readsD [OF k1(2)]
  have n: "512 * (p div 512) + p mod 512 + n \<le> 512 * G" "dest + n \<le> io"
    using nblk_bounds(1) [of "fsize k i"] assms(3,4,9) b(2) by (auto simp: G_def)
  have bo1: "blocks_ok (used_blocks k1) (table_of k1 i) G (lba_of k1 i)" using bo r1(2,3,4) by simp
  obtain k2 where k2: "read_loop_fs i io dest n (p mod 512) (p div 512) (In_table 0) k1 = Some (0, k2)"
    "reads io dest n (\<lambda>x. file_byte k1 i (512 * (p div 512) + p mod 512 + x)) k1 k2"
    using read_loop_fs_ok [OF r1(1) bo1 _ n(1) k1(3) _ n(2)] by auto
  have e: "512 * (p div 512) + p mod 512 + x = p + x" for x by simp
  have "reads io dest (0 + n) (\<lambda>x. if x < 0 then 0 else file_byte k1 i (512 * (p div 512) + p mod 512 + (x - 0))) ?k k2"
    by (rule reads_trans [OF k1(2)]) (use k2(2) in simp)
  then have rd: "reads io dest n (\<lambda>x. file_byte k i (p + x)) ?k k2" unfolding e using r1(6) by simp
  note r2 = readsD [OF rd]
  note near = nearD [OF r2(7)]
  obtain m' where f: "kfree_fs io k2 = Some (k2\<lparr>kmem_st := m'\<rparr>)" "kmem_good (k2\<lparr>kmem_st := m'\<rparr>)" "live m' = live (kmem_st k)"
    using b(3) [rule_format, of k2] near(3,4,5) cur by auto
  have cnt: "min (unat (i_size (inodes ?k i))) (p + cnt) - p = n"
    using assms(3,9) by (auto simp: fsize_def min_def)
  have "read_inode i dest cnt p k = Some (int n, p + n, k2\<lparr>kmem_st := m'\<rparr>)"
    using b(1) k1(1) k2(1) f(1) assms(3) cnt
    by (simp add: read_inode_def SECTOR_SIZE_def fsize_def Let_def)
  then have "file_read f dest cnt p k = Some (int n, p + n, k2\<lparr>kmem_st := m'\<rparr>)"
    using assms(7,8) by (simp add: file_read_def)
  moreover have m2: "fmem k2 a = (if dest \<le> a \<and> a < dest + n then file_byte k i (p + (a - dest)) else fmem k a)"
    if "a < KERNEL_VADDR_START" for a
    using rd that b(2) by (simp add: reads_def)
  have "bytes_at (fmem k2) dest n = take cnt (drop p (contents k i))"
  proof (rule nth_equalityI)
    show "length (bytes_at (fmem k2) dest n) = length (take cnt (drop p (contents k i)))"
      using assms(9) by (simp add: bytes_at_def contents_def min.commute)
    fix x assume "x < length (bytes_at (fmem k2) dest n)"
    then have x: "x < n" by (simp add: bytes_at_def)
    have "dest + x < KERNEL_VADDR_START" "p + x < fsize k i" using x assms(4,9) by (simp, simp add: min_less_iff_conj less_diff_conv2 [symmetric] less_diff_conv)
    then show "bytes_at (fmem k2) dest n ! x = take cnt (drop p (contents k i)) ! x"
      using x \<open>p + x < fsize k i\<close> assms(3,9) m2 [of "dest + x"] by (simp add: bytes_at_def contents_def)
  qed
  moreover have "fsize k2 j = fsize k j" "lba_of k2 j = lba_of k j" "table_of k2 j = table_of k j" "file_byte k2 j = file_byte k j" for j
    using r2(3,4,5,6) [of j] by simp_all
  then have c: "contents k2 j = contents k j" "blocks_ok U (table_of k2 j) (nblk (fsize k2 j)) (lba_of k2 j) =
      blocks_ok U (table_of k j) (nblk (fsize k j)) (lba_of k j)" for j U
    by (simp_all add: contents_def)
  have i2: "inodes k2 = inodes k" "dsk k2 = dsk k" using rd by (simp_all add: reads_def)
  then have "file_ok k2 j = file_ok k j" for j
    using c(2) r2(2) near(2) by (simp add: file_ok_def stored_def inode_sec_def)
  ultimately show ?thesis
    using r2(1) c(1) i2 f m2 by (intro exI [of _ "k2\<lparr>kmem_st := m'\<rparr>"]) auto
qed

section \<open>A file system\<close>

text \<open>An empty file on a disk with 512 blocks, for the witnesses.\<close>

definition sb0 :: super_block where
  "sb0 = \<lparr>magic = 0x20010528, sb_sec_cnt = 4096, inode_cnt = 4096, part_lba_base = 63, block_bitmap_lba = 65,
     block_bitmap_sects = 1, inode_bitmap_lba = 66, inode_bitmap_sects = 1, inode_table_lba = 67,
     inode_table_sects = 512, data_start_lba = 579, root_inode_no = 0, dir_entry_size = 32\<rparr>"

definition part0 :: partition where
  "part0 = \<lparr>start_lba = 63, sec_cnt = 4096, part_name = [115, 100, 98, 49], sb = sb0,
     block_bitmap = \<lparr>bits = (\<lambda>_. 0), byte_size = 512, b_lock = mutex_lock_init\<rparr>,
     inode_bitmap = \<lparr>bits = (\<lambda>_. 0), byte_size = 512, b_lock = mutex_lock_init\<rparr>, open_inodes = [7]\<rparr>"

definition fsys0 :: "tid \<Rightarrow> fsys" where
  "fsys0 a = tsys.extend (tsys0 0 kmem0 a a a) (fsys.fields (\<lambda>a. of_nat a) (\<lambda>_. zero_inode) part0 chan0 sdb
     (\<lambda>_. \<lparr>pos = 0, f_flags = 0, f_mode = 0, f_dentry = 8\<rparr>)
     (\<lambda>_. \<lparr>d_count = \<lparr>counter = 0\<rparr>, d_inode = 7, fname_len = 0, d_parent = 0, d_subdirs = []\<rparr>) con0 kb0 0 [])"

lemma fsys0_fields [simp]:
  "current (fsys0 a) = a" "kmem_st (fsys0 a) = kmem0" "mmu_state (fsys0 a) = mmu32" "fmem (fsys0 a) = (\<lambda>a. of_nat a)"
  "inodes (fsys0 a) i = zero_inode" "cur_part (fsys0 a) = part0" "chan (fsys0 a) = chan0" "drive (fsys0 a) = sdb"
  "file_table (fsys0 a) f = \<lparr>pos = 0, f_flags = 0, f_mode = 0, f_dentry = 8\<rparr>"
  "dentries (fsys0 a) d = \<lparr>d_count = \<lparr>counter = 0\<rparr>, d_inode = 7, fname_len = 0, d_parent = 0, d_subdirs = []\<rparr>"
  by (simp_all add: fsys0_def tsys.extend_def fsys.defs tsys0_def)

lemma fsys0_free: "free_blocks (fsys0 a) = (+) 579 ` {..<512}" "used_blocks (fsys0 a) = {}" "card (free_blocks (fsys0 a)) = 512"
proof -
  show f: "free_blocks (fsys0 a) = (+) 579 ` {..<512}" "used_blocks (fsys0 a) = {}"
    by (simp_all add: free_blocks_def used_blocks_def lim_def block_used_def part0_def sb0_def bit_at_def lessThan_def)
  show "card (free_blocks (fsys0 a)) = 512" unfolding f by (simp add: card_image)
qed

lemma fsys0_ok:
  assumes "a \<noteq> NULL"
  shows "fs_ok (fsys0 a)" "file_ok (fsys0 a) i" "fsize (fsys0 a) i = 0" "kmem_good (fsys0 a)"
    "kmalloc (fsys0 a) (kmem_st (fsys0 a)) 1024 \<noteq> None"
proof -
  have d: "dsk (fsys0 a) l j = 0" for l j by (simp add: sectors_def chan0_def sdb_def)
  have "lock_at 0 (fsys0 a) (block_bitmap part0)"
    using assms mutex_init_at [of a] by (simp add: lock_at_def part0_def)
  then show "fs_ok (fsys0 a)"
    using chan0_at [of "fsys0 a"] assms d
    by (simp add: fs_ok_def layout_ok_def lim_def bitmap_stored_def MAX_LBA_def) (simp add: part0_def sb0_def)
  show sz: "fsize (fsys0 a) i = 0" by (simp add: fsize_def zero_inode_def)
  have "dinode_bytes zero_inode ! j = 0" if "j < 64" for j
  proof -
    have "set (dinode_bytes zero_inode) \<subseteq> {0}"
      by (auto simp: dinode_bytes_def zero_inode_def bytes16_def bytes32_def)
    then show ?thesis using nth_mem [of j "dinode_bytes zero_inode"] that by (metis length_dinode singletonD subsetD)
  qed
  then have "stored (fsys0 a) i" using d by (simp add: stored_def)
  moreover have "blocks_ok (used_blocks (fsys0 a)) (table_of (fsys0 a) i) (nblk 0) (lba_of (fsys0 a) i)"
    by (simp add: blocks_ok_def nblk_def table_of_def lba_of_def zero_inode_def)
  ultimately show "file_ok (fsys0 a) i" using sz by (simp add: file_ok_def) (simp add: zero_inode_def)
  have inv: "kmem_inv (fsys0 a) kmem0 {}" using kmem0_inv kmem_inv_cong [of "fsys0 a" sys0] assms by (simp add: sys0_def NULL_def)
  moreover have "direct_map mmu32 (pg_cnt (bd kmem0))" using kmem0_usable by (simp add: kmem_usable_def)
  ultimately show "kmem_good (fsys0 a)" by (auto simp: kmem_good_def)
  have "(1024 :: u32) \<le> MAX_BLOCK_SIZE" by (simp add: MAX_BLOCK_SIZE_def)
  from kmalloc_small_case [OF inv this] kmem0_pool show "kmalloc (fsys0 a) (kmem_st (fsys0 a)) 1024 \<noteq> None" by fastforce
qed

theorem file_write_correct_witness:
  "\<exists>k'. file_write 3 1000 600 0 (fsys0 4096) = Some (600, 600, k') \<and> contents k' 7 = bytes_at (\<lambda>a. of_nat a) 1000 600"
proof -
  have a: "(4096 :: tid) \<noteq> NULL" by (simp add: NULL_def)
  note h = fsys0_ok [OF a]
  have f: "f_mode (file_table (fsys0 4096) 3) AND 0xf000 \<noteq> FT_SCREEN" "d_inode (dentries (fsys0 4096) (f_dentry (file_table (fsys0 4096) 3))) = 7"
    "(0 :: nat) + 600 \<le> 71680" "(1000 :: nat) + 600 \<le> KERNEL_VADDR_START"
    "need (nblk (fsize (fsys0 4096) 7)) (nblk (0 + 600)) \<le> card (free_blocks (fsys0 4096))" "0 \<le> fsize (fsys0 4096) 7"
    unfolding fsys0_free(3) h(3) by (simp_all add: FT_SCREEN_def KERNEL_VADDR_START_def need_def nblk_def)
  obtain k' where "file_write 3 1000 600 0 (fsys0 4096) = Some (int 600, 0 + 600, k')"
    "contents k' 7 = take 0 (contents (fsys0 4096) 7) @ bytes_at (fmem (fsys0 4096)) 1000 600 @ drop (0 + 600) (contents (fsys0 4096) 7)"
    using file_write_correct [OF h(1,2) f(6,3,5,4) h(4,5) f(1,2)] by blast
  moreover have "contents (fsys0 4096) 7 = []" using h(3) by (simp add: contents_def)
  ultimately show ?thesis by simp
qed

text \<open>A disk with a file of 700 bytes in the first two blocks.\<close>

definition ino1 :: inode where
  "ino1 = zero_inode\<lparr>i_size := 700, i_sectors := (\<lambda>_. 0)(0 := 579, 1 := 580)\<rparr>"

definition media1 :: "bool \<Rightarrow> nat \<Rightarrow> nat \<Rightarrow> u8" where
  "media1 b l j = (if l = 65 \<and> j = 0 then 3 else if l = 67 \<and> j < 64 then dinode_bytes ino1 ! j
     else if 579 \<le> l then of_nat (l + j) else 0)"

definition fsys1 :: "tid \<Rightarrow> fsys" where
  "fsys1 a = (fsys0 a)\<lparr>inodes := (\<lambda>_. ino1),
     cur_part := part0\<lparr>block_bitmap := \<lparr>bits = (\<lambda>_. 0)(0 := 3), byte_size = 512, b_lock = mutex_lock_init\<rparr>\<rparr>,
     chan := chan0\<lparr>ata_dev := (ata_dev chan0)\<lparr>media := media1\<rparr>\<rparr>\<rparr>"

lemma fsys1_ok:
  assumes "a \<noteq> NULL"
  shows "fs_ok (fsys1 a)" "file_ok (fsys1 a) i" "fsize (fsys1 a) i = 700" "kmem_good (fsys1 a)"
    "kmalloc (fsys1 a) (kmem_st (fsys1 a)) 1024 \<noteq> None" "lba_of (fsys1 a) i 0 = 579" "lba_of (fsys1 a) i 1 = 580"
proof -
  have d: "dsk (fsys1 a) l j = media1 True l j" for l j by (simp add: sectors_def chan0_def sdb_def fsys1_def)
  have ds: "sectors sdb (chan0\<lparr>ata_dev := (ata_dev chan0)\<lparr>media := media1\<rparr>\<rparr>) l j = media1 True l j" for l j
    by (simp add: sectors_def sdb_def)
  have bm: "bit_at ((\<lambda>_. 0 :: u8)(0 := 3)) n \<longleftrightarrow> n = 0 \<or> n = 1" for n
  proof (cases "n < 8")
    case True
    then have "n \<in> {0, 1, 2, 3, 4, 5, 6, 7}" by auto
    then show ?thesis by (auto simp: bit_at_def bit_numeral_rec) 
  qed (auto simp: bit_at_def)
  have u: "used_blocks (fsys1 a) = {579, 580}"
    by (auto simp: used_blocks_def lim_def block_used_def fsys1_def bm part0_def sb0_def image_iff)
  have "lock_at 0 (fsys1 a) (block_bitmap (cur_part (fsys1 a)))"
    using assms mutex_init_at [of a] by (simp add: lock_at_def fsys1_def)
  moreover have "chan_at 0 (fsys1 a) (chan (fsys1 a))"
    using chan0_at [of "fsys0 a"] assms by (simp add: chan_at_def chan_ok_def drive_ok_def fsys1_def)
  moreover have "bitmap_stored (fsys1 a)"
    by (simp add: bitmap_stored_def lim_def fsys1_def ds part0_def sb0_def media1_def)
  moreover have "layout_ok (sb (cur_part (fsys1 a)))" "byte_size (block_bitmap (cur_part (fsys1 a))) = lim (fsys1 a)"
    by (simp_all add: layout_ok_def lim_def fsys1_def part0_def sb0_def MAX_LBA_def)
  ultimately show "fs_ok (fsys1 a)" by (simp add: fs_ok_def)
  show sz: "fsize (fsys1 a) i = 700" by (simp add: fsize_def fsys1_def ino1_def)
  show l: "lba_of (fsys1 a) i 0 = 579" "lba_of (fsys1 a) i 1 = 580"
    by (simp_all add: lba_of_def fsys1_def ino1_def)
  have "stored (fsys1 a) i"
    unfolding stored_def d by (simp add: fsys1_def inode_sec_def inode_off_def part0_def sb0_def media1_def ino1_def zero_inode_def)
  moreover have "blocks_ok {579, 580} (table_of (fsys1 a) i) 2 (lba_of (fsys1 a) i)"
  proof -
    have "{..<2} = {0, 1 :: nat}" by auto
    moreover have "lba_of (fsys1 a) i s = 0" if "2 \<le> s" for s
      using that by (simp add: lba_of_def fsys1_def ino1_def zero_inode_def table_of_def)
    ultimately show ?thesis using l by (auto simp: blocks_ok_def table_of_def fsys1_def ino1_def)
  qed
  ultimately show "file_ok (fsys1 a) i"
    using sz u by (simp add: file_ok_def nblk_def) (simp add: fsys1_def ino1_def zero_inode_def)
  have k: "kmem_inv (fsys1 a) m A = kmem_inv (fsys0 a) m A" for m A
    using kmem_inv_cong [of "fsys1 a" "fsys0 a"] assms by (simp add: fsys1_def)
  have s: "kmem_st (fsys1 a) = kmem0" "mmu_state (fsys1 a) = mmu32" by (simp_all add: fsys1_def)
  show "kmem_good (fsys1 a)" using fsys0_ok(4) [OF assms] k s by (simp add: kmem_good_def)
  obtain A where A: "kmem_inv (fsys1 a) kmem0 A" using fsys0_ok(4) [OF assms] k by (auto simp: kmem_good_def)
  have "(1024 :: u32) \<le> MAX_BLOCK_SIZE" by (simp add: MAX_BLOCK_SIZE_def)
  from kmalloc_small_case [OF A this] kmem0_pool show "kmalloc (fsys1 a) (kmem_st (fsys1 a)) 1024 \<noteq> None"
    unfolding s by fastforce
qed

theorem file_read_correct_witness:
  "\<exists>k'. file_read 3 1000 600 500 (fsys1 4096) = Some (200, 700, k') \<and>
     bytes_at (fmem k') 1000 200 = map (\<lambda>x. if x < 12 then of_nat (1079 + x) else of_nat (568 + x)) [0..<200]"
proof -
  have a: "(4096 :: tid) \<noteq> NULL" by (simp add: NULL_def)
  note h = fsys1_ok(1) [OF a] fsys1_ok(2,3) [OF a, where i = 7] fsys1_ok(4,5) [OF a] fsys1_ok(6,7) [OF a, where i = 7]
  have f: "f_mode (file_table (fsys1 4096) 3) AND 0xf000 \<noteq> FT_KEYBOARD" "d_inode (dentries (fsys1 4096) (f_dentry (file_table (fsys1 4096) 3))) = 7"
    "(1000 :: nat) + 600 \<le> KERNEL_VADDR_START" "500 \<le> fsize (fsys1 4096) 7" "200 = min 600 (fsize (fsys1 4096) 7 - 500)"
    unfolding h(3) by (simp_all add: FT_KEYBOARD_def KERNEL_VADDR_START_def fsys1_def)
  obtain k' where k': "file_read 3 1000 600 500 (fsys1 4096) = Some (int 200, 500 + 200, k')"
    "bytes_at (fmem k') 1000 200 = take 600 (drop 500 (contents (fsys1 4096) 7))"
    using file_read_correct [OF h(1,2) f(4,3) h(4,5) f(1,2,5)] by blast
  have "file_byte (fsys1 4096) 7 q = (if q < 512 then of_nat (579 + q) else of_nat (580 + (q - 512)))" if "q < 700" for q
  proof -
    have "q div 512 = (if q < 512 then 0 else 1)" "q mod 512 = (if q < 512 then q else q - 512)"
      using that by (simp_all add: div_nat_eqI) (simp add: mod_if)
    then show ?thesis
      using h(6,7) by (simp add: file_byte_def sectors_def sdb_def fsys1_def media1_def)
  qed
  then have "take 600 (drop 500 (contents (fsys1 4096) 7)) = map (\<lambda>x. if x < 12 then of_nat (1079 + x) else of_nat (568 + x)) [0..<200]"
    unfolding contents_def h(3) by (intro nth_equalityI) (auto simp: h(3))
  then show ?thesis using k' by auto
qed

end
