(* ===== verification/Page_Fault.thy ===== *)
theory Page_Fault
  imports File_Io
begin

text \<open>
  \<open>page_not_present\<close> and \<open>page_protect_fault\<close> of kernel/memory.c: pages brought in on the first access, and copied
  on the first write after a fork. The state adds the areas of theory Vma and the registers that an interrupt
  saves at the top of a kernel stack. The words of page directories and tables are in \<open>pm\<close> of theory Paging, all
  other bytes in \<open>fmem\<close>; physical memory is mapped at \<open>KERNEL_VADDR_START\<close>. An entry \<open>i\<close> of \<open>file_table\<close> has the
  address \<open>file_ptr i\<close>.
\<close>

record intr_stack =
  st_vec_no :: u32
  st_edi :: u32
  st_esi :: u32
  st_ebp :: u32
  st_esp_dummy :: u32
  st_ebx :: u32
  st_edx :: u32
  st_ecx :: u32
  st_eax :: u32
  st_gs :: u32
  st_fs :: u32
  st_es :: u32
  st_ds :: u32
  st_error_code :: u32
  eip_old :: u32
  cs_old :: u32
  st_eflags :: u32
  esp_old :: u32
  ss_old :: u32

record psys = fsys +
  areas :: vmas
  frames :: "tid \<Rightarrow> intr_stack"

definition PG_RWE :: u32 where "PG_RWE = 2"
definition PG_USER :: u32 where "PG_USER = 4"

definition file_ptr :: "nat \<Rightarrow> nat" where "file_ptr i = i + 1"

text \<open>The lower layers on the whole state.\<close>

definition load_at :: "u32 \<Rightarrow> 'a tsys_scheme \<Rightarrow> u32 option" where
  "load_at v k = load (mmu_state k) v"

definition store_at :: "u32 \<Rightarrow> u32 \<Rightarrow> 'a tsys_scheme \<Rightarrow> 'a tsys_scheme option" where
  "store_at v x k = do { m \<leftarrow> store (mmu_state k) v x; Some (k\<lparr>mmu_state := m\<rparr>) }"

definition paddr_at :: "nat \<Rightarrow> 'a tsys_scheme \<Rightarrow> u32 option" where
  "paddr_at v k = get_paddr (mmu_state k) (of_nat v)"

definition new_page :: "u32 \<Rightarrow> 'a tsys_scheme \<Rightarrow> (nat \<times> 'a tsys_scheme) option" where
  "new_page flag k = do {
     (p, k, b) \<leftarrow> get_free_page k (bd (kmem_st k)) flag;
     Some (p, k\<lparr>kmem_st := (kmem_st k)\<lparr>bd := b\<rparr>\<rparr>) }"

definition drop_page :: "nat \<Rightarrow> 'a tsys_scheme \<Rightarrow> 'a tsys_scheme option" where
  "drop_page p k = do {
     (k, b) \<leftarrow> free_page k (bd (kmem_st k)) (mmu_state k) p;
     Some (k\<lparr>kmem_st := (kmem_st k)\<lparr>bd := b\<rparr>\<rparr>) }"

text \<open>\<open>get_zeroed_page\<close> for bytes, and for a page table.\<close>

definition zero_page :: "u32 \<Rightarrow> 'a fsys_scheme \<Rightarrow> (nat \<times> 'a fsys_scheme) option" where
  "zero_page flag k = do {
     (p, k, b, m) \<leftarrow> get_zeroed_page k (bd (kmem_st k)) (fmem k) flag;
     Some (p, k\<lparr>kmem_st := (kmem_st k)\<lparr>bd := b\<rparr>, fmem := m\<rparr>) }"

definition clear_words :: "u32 \<Rightarrow> mmu \<Rightarrow> mmu" where
  "clear_words p m = m\<lparr>pm := (\<lambda>a. if frame_of a = p \<and> a AND 3 = 0 then 0 else pm m a)\<rparr>"

definition new_table :: "'a fsys_scheme \<Rightarrow> (u32 \<times> 'a fsys_scheme) option" where
  "new_table k = do {
     (p, k) \<leftarrow> zero_page KERNEL_POOL k;
     let k = k\<lparr>mmu_state := clear_words (of_nat (p - KERNEL_VADDR_START)) (mmu_state k)\<rparr>;
     a \<leftarrow> paddr_at p k;
     Some (a, k) }"

text \<open>A page table for the address, if there is none.\<close>

definition ensure_table :: "u32 \<Rightarrow> 'a fsys_scheme \<Rightarrow> 'a fsys_scheme option" where
  "ensure_table addr k = do {
     e \<leftarrow> load_at (get_pde addr) k;
     if e AND 1 = 0
     then do {
       (a, k) \<leftarrow> new_table k;
       store_at (get_pde addr) (a OR PG_USER OR PG_P OR PG_RWE) k }
     else Some k }"

definition map_user_page :: "u32 \<Rightarrow> nat \<Rightarrow> 'a fsys_scheme \<Rightarrow> 'a fsys_scheme option" where
  "map_user_page addr p k = do {
     e \<leftarrow> load_at (get_pte addr) k;
     ASSERT (e AND 1 = 0);
     a \<leftarrow> paddr_at p k;
     store_at (get_pte addr) (a OR PG_USER OR PG_P OR PG_RWE) k }"

definition my_mm :: "'a tsys_scheme \<Rightarrow> nat" where
  "my_mm k = t_mm (task k (current k))"

definition file_offset :: "vm_area_struct \<Rightarrow> u32 \<Rightarrow> u32" where
  "file_offset v addr = vm_pgoff v + (addr - vm_start v) div of_nat PG_SIZE * of_nat PG_SIZE"

text \<open>A fault outside of the user's addresses hangs in \<open>while (1)\<close>: \<^const>\<open>None\<close>.\<close>

definition page_not_present :: "u32 \<Rightarrow> 'a psys_scheme \<Rightarrow> 'a psys_scheme option" where
  "page_not_present addr k = do {
     ASSERT (\<not> (0xc0000000 \<le> addr \<or> addr < 0x08048000));
     ASSERT (my_mm k \<noteq> 0);
     v \<leftarrow> find_vma_from (areas k) (mmap (mms k (my_mm k))) addr;
     k \<leftarrow> (if v = 0 then Some k
       else do {
         k \<leftarrow> ensure_table addr k;
         (p, k) \<leftarrow> zero_page USER_POOL k;
         k \<leftarrow> (if vm_file (areas k v) \<noteq> 0
           then do {
             (ret, off, k) \<leftarrow> file_read (vm_file (areas k v) - 1) p PG_SIZE (unat (file_offset (areas k v) addr)) k;
             Some k }
           else Some k);
         map_user_page addr p k });
     ASSERT (v \<noteq> 0);
     Some k }"

section \<open>Copy on write\<close>

definition page_users :: "u32 \<Rightarrow> 'a tsys_scheme \<Rightarrow> int" where
  "page_users e k = atomic_read (pg_count (pages (bd (kmem_st k)) (paddr2pg (unat e))))"

definition copy_page :: "u32 \<Rightarrow> 'a fsys_scheme \<Rightarrow> 'a fsys_scheme option" where
  "copy_page addr k = do {
     e \<leftarrow> load_at (get_pte addr) k;
     let n = page_users e k;
     if 1 < n
     then do {
       let old_pg = unat (frame_of e) + KERNEL_VADDR_START;
       (new_pg, k) \<leftarrow> new_page USER_POOL k;
       let k = k\<lparr>fmem := memcpy new_pg old_pg PG_SIZE (fmem k)\<rparr>;
       k \<leftarrow> drop_page old_pg k;
       a \<leftarrow> paddr_at new_pg k;
       let e = a OR PG_RWE OR PG_P OR PG_USER;
       k \<leftarrow> store_at (get_pte addr) e k;
       ASSERT (n = page_users e k + 1);
       Some k }
     else store_at (get_pte addr) (e OR PG_RWE OR PG_USER) k }"

definition page_protect_fault :: "u32 \<Rightarrow> 'a psys_scheme \<Rightarrow> 'a psys_scheme option" where
  "page_protect_fault addr k = do {
     ASSERT (my_mm k \<noteq> 0);
     v \<leftarrow> find_vma (areas k) (mms k (my_mm k)) addr;
     ASSERT (v \<noteq> 0);
     ASSERT (vm_start (areas k v) \<le> addr);
     if vm_flags (areas k v) AND VM_WRITE \<noteq> 0
     then do {
       e \<leftarrow> load_at (get_pde addr) k;
       ASSERT (e AND PG_RWE \<noteq> 0);
       copy_page addr k }
     else PANIC }"

section \<open>kernel/fork.c\<close>

definition CLONE_VM :: u32 where "CLONE_VM = 0x100"

definition kphys :: "nat \<Rightarrow> u32" where "kphys v = of_nat (v - KERNEL_VADDR_START)"

text \<open>\<open>memcpy\<close> of a page of words, through the map of physical memory.\<close>

definition copy_words :: "nat \<Rightarrow> nat \<Rightarrow> mmu \<Rightarrow> mmu" where
  "copy_words dest src m = m\<lparr>pm := (\<lambda>a.
     if frame_of a = kphys dest \<and> a AND 3 = 0 then pm m (kphys src + (a - kphys dest)) else pm m a)\<rparr>"

definition word_at :: "nat \<Rightarrow> nat \<Rightarrow> 'a tsys_scheme \<Rightarrow> u32 option" where
  "word_at p i k = load_at (of_nat (p + 4 * i)) k"

definition set_word :: "nat \<Rightarrow> nat \<Rightarrow> u32 \<Rightarrow> 'a tsys_scheme \<Rightarrow> 'a tsys_scheme option" where
  "set_word p i x k = store_at (of_nat (p + 4 * i)) x k"

definition inc_page :: "u32 \<Rightarrow> 'a tsys_scheme \<Rightarrow> 'a tsys_scheme" where
  "inc_page e k =
     (let b = bd (kmem_st k); pg = paddr2pg (unat e)
      in k\<lparr>kmem_st := (kmem_st k)\<lparr>bd := b\<lparr>pages := (pages b)(pg := (pages b pg)\<lparr>pg_count := atomic_inc (pg_count (pages b pg))\<rparr>)\<rparr>\<rparr>\<rparr>)"

text \<open>The entries of one page table: read-only from now on, with one more user.\<close>

fun share_entries :: "nat \<Rightarrow> nat list \<Rightarrow> 'a tsys_scheme \<Rightarrow> 'a tsys_scheme option" where
  "share_entries pt [] k = Some k"
| "share_entries pt (j # js) k = do {
     e \<leftarrow> word_at pt j k;
     k \<leftarrow> (if e AND 3 \<noteq> 0
       then do {
         k \<leftarrow> set_word pt j (e AND NOT PG_RWE) k;
         Some (inc_page (e AND NOT PG_RWE) k) }
       else Some k);
     share_entries pt js k }"

fun copy_tables :: "nat \<Rightarrow> nat \<Rightarrow> nat list \<Rightarrow> 'a tsys_scheme \<Rightarrow> 'a tsys_scheme option" where
  "copy_tables old_pgdir new_pgdir [] k = Some k"
| "copy_tables old_pgdir new_pgdir (i # ls) k = do {
     e \<leftarrow> word_at old_pgdir i k;
     k \<leftarrow> (if e AND 3 \<noteq> 0
       then do {
         let pt = unat (frame_of e) + KERNEL_VADDR_START;
         k \<leftarrow> share_entries pt [0..<1024] k;
         (new_pt, k) \<leftarrow> new_page KERNEL_POOL k;
         let k = k\<lparr>mmu_state := copy_words new_pt pt (mmu_state k)\<rparr>;
         a \<leftarrow> paddr_at new_pt k;
         set_word new_pgdir i (a OR PG_P OR PG_RWE OR PG_USER) k }
       else Some k);
     copy_tables old_pgdir new_pgdir ls k }"

definition copy_pt :: "nat \<Rightarrow> nat \<Rightarrow> 'a tsys_scheme \<Rightarrow> 'a tsys_scheme option" where
  "copy_pt old_pgdir new_pgdir k = do {
     let k = k\<lparr>mmu_state := copy_words new_pgdir old_pgdir (mmu_state k)\<rparr>;
     a \<leftarrow> paddr_at new_pgdir k;
     k \<leftarrow> set_word new_pgdir 1023 (a OR PG_P OR PG_RWE) k;
     copy_tables old_pgdir new_pgdir [0..<768] k }"

definition copy_mm :: "u32 \<Rightarrow> tid \<Rightarrow> 'a psys_scheme \<Rightarrow> (int \<times> 'a psys_scheme) option" where
  "copy_mm clone_flags t k = do {
     ASSERT (clone_flags AND CLONE_VM = 0);
     let old_mm = t_mm (task k t);
     (mm, k) \<leftarrow> kmalloc_fs 76 k;
     ASSERT (old_mm \<noteq> 0);
     (ret, k, m, h, new) \<leftarrow> dup_mmap k (kmem_st k) (areas k) (mms k old_mm) (mms k old_mm);
     let k = k\<lparr>kmem_st := m, areas := h\<rparr>;
     (p, k) \<leftarrow> new_page KERNEL_POOL k;
     let k = k\<lparr>mms := (mms k)(mm := new\<lparr>pg_dir := p\<rparr>)\<rparr>;
     k \<leftarrow> copy_pt (pg_dir (mms k old_mm)) p k;
     Some (0, set_task t ((task k t)\<lparr>t_mm := mm\<rparr>) k) }"

text \<open>The copy of the page of the running thread: its structure, its state and its stack. The child goes on in
  \<open>intr_exit\<close>, whose \<open>iretd\<close> loads the flags of the copied frame.\<close>

definition copy_thread :: "tid \<Rightarrow> tid \<Rightarrow> 'a psys_scheme \<Rightarrow> 'a psys_scheme" where
  "copy_thread t new k = k\<lparr>task := (task k)(new := task k t), tstate := (tstate k)(new := tstate k t),
     frames := (frames k)(new := frames k t),
     resume := (resume k)(new := if st_eflags (frames k t) AND EFLAGS_IF \<noteq> 0 then INTR_ON else INTR_OFF)\<rparr>"

definition do_fork :: "u32 \<Rightarrow> 'a psys_scheme \<Rightarrow> (int \<times> 'a psys_scheme) option" where
  "do_fork clone_flags k = do {
     let cur = current k;
     (p, k) \<leftarrow> new_page KERNEL_POOL k;
     let new = of_nat p;
     let k = copy_thread cur new k;
     (n, k) \<leftarrow> alloc_pid k;
     let k = set_task new ((task k new)\<lparr>pid := n\<rparr>) k;
     (ret, k) \<leftarrow> copy_mm clone_flags new k;
     let k = set_task new ((task k new)\<lparr>stack := new + of_nat PG_SIZE - 76 - 4 * 5\<rparr>) k;
     let k = k\<lparr>frames := (frames k)(new := (frames k new)\<lparr>st_eax := 0\<rparr>)\<rparr>;
     let k = set_state new READY k;
     let k = k\<lparr>ready_list := new # ready_list k\<rparr>;
     k \<leftarrow> schedule (set_resume (intr_get_status k) k);
     Some (pid (task k new), continue k) }"

definition sys_fork :: "'a psys_scheme \<Rightarrow> (int \<times> 'a psys_scheme) option" where
  "sys_fork k = do_fork 0 k"

end
