(* ===== verification/Dir.thy ===== *)
theory Dir
  imports File_Io
begin

text \<open>
  fs/dir.c: directories. The cache is a tree of \<open>struct dentry\<close> by their addresses, of which the name (25 bytes)
  is kept in the byte memory at \<open>d_fname d\<close>; a directory on disk is a file of 32-byte entries
  (\<open>struct dentry_disk\<close>: 24 bytes of name, its length, the type, the number of the inode).
\<close>

section \<open>Looking up a name\<close>

definition MAX_FILE_NAME_LEN :: nat where "MAX_FILE_NAME_LEN = 24"
definition MAX_PATH_LEN :: nat where "MAX_PATH_LEN = 127"
definition MAX_FILE_SIZE :: u32 where "MAX_FILE_SIZE = 71680"
definition AT_FDCWD :: int where "AT_FDCWD = - 100"
definition ENOTDIR :: int where "ENOTDIR = 20"

definition d_fname :: "nat \<Rightarrow> nat" where "d_fname d = d + 8"

definition zero_dentry :: dentry where
  "zero_dentry = \<lparr>d_count = \<lparr>counter = 0\<rparr>, d_inode = 0, fname_len = 0, d_parent = 0, d_subdirs = []\<rparr>"

definition set_dentry :: "nat \<Rightarrow> dentry \<Rightarrow> 'a fsys_scheme \<Rightarrow> 'a fsys_scheme" where
  "set_dentry d e k = k\<lparr>dentries := (dentries k)(d := e)\<rparr>"

text \<open>The entry \<open>j\<close> of the sector in the buffer.\<close>

definition dd_fname :: "nat \<Rightarrow> nat \<Rightarrow> nat" where "dd_fname io j = io + 32 * j"

definition dd_fname_len :: "mem \<Rightarrow> nat \<Rightarrow> nat \<Rightarrow> u16" where "dd_fname_len m io j = half_at m (io + 32 * j + 24)"
definition dd_i_mode :: "mem \<Rightarrow> nat \<Rightarrow> nat \<Rightarrow> u16" where "dd_i_mode m io j = half_at m (io + 32 * j + 26)"
definition dd_i_no :: "mem \<Rightarrow> nat \<Rightarrow> nat \<Rightarrow> u32" where "dd_i_no m io j = word32_at m (io + 32 * j + 28)"

definition dd_used :: "mem \<Rightarrow> nat \<Rightarrow> nat \<Rightarrow> bool" where
  "dd_used m io j \<longleftrightarrow> dd_i_mode m io j AND 0xf000 \<noteq> 0"

definition dd_match :: "nat \<Rightarrow> u16 \<Rightarrow> mem \<Rightarrow> nat \<Rightarrow> nat \<Rightarrow> bool" where
  "dd_match dname dname_len m io j \<longleftrightarrow> dd_used m io j \<and> dd_fname_len m io j = dname_len \<and>
     strncmp m (dd_fname io j) dname (unat dname_len) = 0"

text \<open>\<open>memset (d, 0, sizeof (struct dentry))\<close> on the fields and on the name.\<close>

definition clear_dentry :: "nat \<Rightarrow> 'a fsys_scheme \<Rightarrow> 'a fsys_scheme" where
  "clear_dentry d k = set_dentry d zero_dentry (k\<lparr>fmem := memset (d_fname d) 0 (MAX_FILE_NAME_LEN + 1) (fmem k)\<rparr>)"

definition push_subdir :: "nat \<Rightarrow> nat \<Rightarrow> 'a fsys_scheme \<Rightarrow> 'a fsys_scheme" where
  "push_subdir p d k = set_dentry p ((dentries k p)\<lparr>d_subdirs := d # d_subdirs (dentries k p)\<rparr>) k"

definition load_dentry :: "nat \<Rightarrow> nat \<Rightarrow> u16 \<Rightarrow> u32 \<Rightarrow> 'a fsys_scheme \<Rightarrow> (nat \<times> 'a fsys_scheme) option" where
  "load_dentry p dname dname_len ino k = do {
     (i, k) \<leftarrow> inode_open (unat ino) k;
     (d, k) \<leftarrow> kmalloc_fs 64 k;
     let k = clear_dentry d k;
     let k = k\<lparr>fmem := strncpy (d_fname d) dname (unat dname_len) (fmem k)\<rparr>;
     let k = set_dentry d ((dentries k d)\<lparr>fname_len := dname_len, d_count := atomic_set 1 \<lparr>counter = 0\<rparr>,
       d_inode := i, d_parent := p\<rparr>) k;
     let k = push_subdir p d k;
     Some (d, set_dentry d ((dentries k d)\<lparr>d_subdirs := []\<rparr>) k) }"

text \<open>The loop over one sector, or over the 128 that the table in the buffer names.\<close>

function search_sectors :: "nat \<Rightarrow> nat \<Rightarrow> u16 \<Rightarrow> nat \<Rightarrow> nat \<Rightarrow> nat \<Rightarrow> u32 \<Rightarrow> 'a fsys_scheme \<Rightarrow>
    (nat option \<times> 'a fsys_scheme) option" where
  "search_sectors p dname dname_len io n cnt lba k =
     (if n < cnt
      then (case read_disk (unat lba) io 1 k of
          None \<Rightarrow> None
        | Some k \<Rightarrow>
            (case find (dd_match dname dname_len (fmem k) io) [0..<SECTOR_SIZE div 32] of
              Some j \<Rightarrow> map_option (\<lambda>(d, k). (Some d, k)) (load_dentry p dname dname_len (dd_i_no (fmem k) io j) k)
            | None \<Rightarrow> search_sectors p dname dname_len io (n + 1) cnt
                (word32_at (fmem k) (io + SECTOR_SIZE + 4 * (n + 1))) k))
      else Some (None, k))"
  by pat_completeness auto
termination
  by (relation "measure (\<lambda>(p, dname, dname_len, io, n, cnt, lba, k). cnt - n)") auto

declare search_sectors.simps [simp del]

definition search_idx :: "nat \<Rightarrow> nat \<Rightarrow> u16 \<Rightarrow> nat \<Rightarrow> nat \<Rightarrow> 'a fsys_scheme \<Rightarrow> (nat option \<times> 'a fsys_scheme) option" where
  "search_idx p dname dname_len io idx k =
     (let lba = i_sectors (inodes k (d_inode (dentries k p))) idx
      in if lba = 0 then Some (None, k)
         else if idx = 12
         then do {
           k \<leftarrow> read_disk (unat lba) (io + SECTOR_SIZE) 1 k;
           search_sectors p dname dname_len io 0 (SECTOR_SIZE div 4) (word32_at (fmem k) (io + SECTOR_SIZE)) k }
         else search_sectors p dname dname_len io 0 1 lba k)"

fun search_disk :: "nat \<Rightarrow> nat \<Rightarrow> u16 \<Rightarrow> nat \<Rightarrow> nat list \<Rightarrow> 'a fsys_scheme \<Rightarrow> (nat option \<times> 'a fsys_scheme) option" where
  "search_disk p dname dname_len io [] k = Some (None, k)"
| "search_disk p dname dname_len io (idx # idxs) k =
     (case search_idx p dname dname_len io idx k of
        None \<Rightarrow> None
      | Some (Some d, k) \<Rightarrow> Some (Some d, k)
      | Some (None, k) \<Rightarrow> search_disk p dname dname_len io idxs k)"

definition cached_child :: "nat \<Rightarrow> nat \<Rightarrow> u16 \<Rightarrow> 'a fsys_scheme \<Rightarrow> nat option" where
  "cached_child p dname dname_len k =
     find (\<lambda>d. strncmp (fmem k) (d_fname d) dname (unat dname_len) = 0) (d_subdirs (dentries k p))"

definition search_dentry :: "nat \<Rightarrow> nat \<Rightarrow> u16 \<Rightarrow> nat \<Rightarrow> 'a fsys_scheme \<Rightarrow> (nat option \<times> 'a fsys_scheme) option" where
  "search_dentry p dname dname_len io k =
     (if dname_len = 1 \<and> fmem k dname = 0x2e then Some (Some p, k)
      else if dname_len = 2 \<and> fmem k dname = 0x2e \<and> fmem k (dname + 1) = 0x2e
      then Some (Some (d_parent (dentries k p)), k)
      else (case cached_child p dname dname_len k of
          Some d \<Rightarrow> Some (Some d, set_dentry d ((dentries k d)\<lparr>d_count := atomic_inc (d_count (dentries k d))\<rparr>) k)
        | None \<Rightarrow> search_disk p dname dname_len io [0..<13] k))"

definition open_root_dir :: "'a fsys_scheme \<Rightarrow> 'a fsys_scheme option" where
  "open_root_dir k = do {
     (i, k) \<leftarrow> inode_open (root_inode_no (sb (cur_part k))) k;
     let d = root_dir k;
     let k = set_dentry d ((dentries k d)\<lparr>d_inode := i, d_parent := d, fname_len := 1\<rparr>) k;
     Some (k\<lparr>fmem := (fmem k)(d_fname d := 0x2f)\<rparr>) }"

section \<open>Writing an entry\<close>

definition put_entry :: "nat \<Rightarrow> nat \<Rightarrow> nat \<Rightarrow> nat \<Rightarrow> u16 \<Rightarrow> 'a fsys_scheme \<Rightarrow> 'a fsys_scheme" where
  "put_entry io j i name len k =
     (let m = writes (fmem k) (io + 32 * j + 26) (bytes16 (i_mode (inodes k i)));
          m = writes m (io + 32 * j + 28) (bytes32 (of_nat (i_no (inodes k i))));
          m = strncpy (dd_fname io j) name (unat len) m
      in k\<lparr>fmem := writes m (io + 32 * j + 24) (bytes16 len)\<rparr>)"

text \<open>A new directory gets its entries \<open>.\<close> and \<open>..\<close> at once.\<close>

definition dot_entries :: "nat \<Rightarrow> inode \<Rightarrow> inode \<Rightarrow> mem \<Rightarrow> mem" where
  "dot_entries io i dir m =
     (let m = memset io 0 SECTOR_SIZE m;
          m = m(io := 0x2e);
          m = writes m (io + 24) (bytes16 1);
          m = writes m (io + 26) (bytes16 (i_mode i));
          m = writes m (io + 28) (bytes32 (of_nat (i_no i)));
          m = m(io + 32 := 0x2e, io + 33 := 0x2e);
          m = writes m (io + 56) (bytes16 2);
          m = writes m (io + 58) (bytes16 (i_mode dir))
      in writes m (io + 60) (bytes32 (of_nat (i_no dir))))"

definition init_dir :: "nat \<Rightarrow> nat \<Rightarrow> nat \<Rightarrow> 'a fsys_scheme \<Rightarrow> 'a fsys_scheme option" where
  "init_dir dir i io k = do {
     (lba, k) \<leftarrow> block_bimap_alloc k;
     let k = set_sector i 0 (of_nat lba) k;
     let k = k\<lparr>fmem := dot_entries io (inodes k i) (inodes k dir) (fmem k)\<rparr>;
     let k = k\<lparr>inodes := (inodes k)(i := (inodes k i)\<lparr>i_size := 32 * 2\<rparr>)\<rparr>;
     write_disk (unat (i_sectors (inodes k i) 0)) io 1 k }"

definition cache_entry :: "nat \<Rightarrow> nat \<Rightarrow> nat \<Rightarrow> u16 \<Rightarrow> 'a fsys_scheme \<Rightarrow> (nat \<times> 'a fsys_scheme) option" where
  "cache_entry p i name len k = do {
     (d, k) \<leftarrow> kmalloc_fs 64 k;
     let k = clear_dentry d k;
     let k = k\<lparr>fmem := strncpy (d_fname d) name (unat len) (fmem k)\<rparr>;
     let k = set_dentry d ((dentries k d)\<lparr>d_parent := p, fname_len := len, d_inode := i,
       d_count := atomic_set 1 \<lparr>counter = 0\<rparr>\<rparr>) k;
     Some (d, push_subdir p d k) }"

definition fill_slot :: "nat \<Rightarrow> nat \<Rightarrow> nat \<Rightarrow> nat \<Rightarrow> u16 \<Rightarrow> nat \<Rightarrow> bool \<Rightarrow> lba_ref \<Rightarrow> nat \<Rightarrow> 'a fsys_scheme \<Rightarrow>
    (nat \<times> 'a fsys_scheme) option" where
  "fill_slot p i io name len idx is_second next_lba j k = do {
     let dir = d_inode (dentries k p);
     let k = put_entry io j i name len k;
     k \<leftarrow> write_disk (unat (get_lba dir io next_lba k)) io 1 k;
     k \<leftarrow> (if is_second
       then do {
         ASSERT (idx = 12);
         write_disk (unat (i_sectors (inodes k dir) 12)) (io + SECTOR_SIZE) 1 k }
       else Some k);
     k \<leftarrow> (if i_mode (inodes k i) AND 0xf000 = FT_DIR then init_dir dir i io k else Some k);
     (d, k) \<leftarrow> cache_entry p i name len k;
     Some (d, k\<lparr>inodes := (inodes k)(dir := (inodes k dir)\<lparr>i_size := i_size (inodes k dir) + 32\<rparr>)\<rparr>) }"

definition entry_sector :: "nat \<Rightarrow> nat \<Rightarrow> lba_ref \<Rightarrow> 'a fsys_scheme \<Rightarrow> 'a fsys_scheme option" where
  "entry_sector dir io next_lba k =
     (if get_lba dir io next_lba k = 0
      then do {
        (lba, k) \<leftarrow> block_bimap_alloc k;
        let k = put_lba dir io next_lba (of_nat lba) k;
        Some (k\<lparr>fmem := memset io 0 SECTOR_SIZE (fmem k)\<rparr>) }
      else read_disk (unat (get_lba dir io next_lba k)) io 1 k)"

text \<open>The places of sector numbers in the order of the two loops: 12 in the inode, then 128 in the table.\<close>

definition dir_slots :: "nat \<Rightarrow> lba_ref list" where
  "dir_slots idx = (if idx = 12 then map In_table [0..<SECTOR_SIZE div 4] else [In_inode idx])"

fun write_slots :: "nat \<Rightarrow> nat \<Rightarrow> nat \<Rightarrow> nat \<Rightarrow> u16 \<Rightarrow> nat \<Rightarrow> bool \<Rightarrow> lba_ref list \<Rightarrow> 'a fsys_scheme \<Rightarrow>
    (nat option \<times> 'a fsys_scheme) option" where
  "write_slots p i io name len idx is_second [] k = Some (None, k)"
| "write_slots p i io name len idx is_second (next_lba # rest) k =
     (case entry_sector (d_inode (dentries k p)) io next_lba k of
        None \<Rightarrow> None
      | Some k \<Rightarrow>
          (case find (\<lambda>j. \<not> dd_used (fmem k) io j) [0..<SECTOR_SIZE div 32] of
            Some j \<Rightarrow> map_option (\<lambda>(d, k). (Some d, k)) (fill_slot p i io name len idx is_second next_lba j k)
          | None \<Rightarrow> write_slots p i io name len idx is_second rest k))"

definition second_table :: "nat \<Rightarrow> nat \<Rightarrow> nat \<Rightarrow> 'a fsys_scheme \<Rightarrow> (bool \<times> 'a fsys_scheme) option" where
  "second_table dir io idx k =
     (if idx \<noteq> 12 then Some (False, k)
      else if i_sectors (inodes k dir) 12 = 0
      then do {
        (lba, k) \<leftarrow> block_bimap_alloc k;
        let k = set_sector dir 12 (of_nat lba) k;
        Some (True, k\<lparr>fmem := memset io 0 SECTOR_SIZE (fmem k)\<rparr>) }
      else do {
        k \<leftarrow> read_disk (unat (i_sectors (inodes k dir) 12)) (io + SECTOR_SIZE) 1 k;
        Some (False, k) })"

fun write_idxs :: "nat \<Rightarrow> nat \<Rightarrow> nat \<Rightarrow> nat \<Rightarrow> u16 \<Rightarrow> nat list \<Rightarrow> 'a fsys_scheme \<Rightarrow>
    (nat option \<times> 'a fsys_scheme) option" where
  "write_idxs p i io name len [] k = PANIC"
| "write_idxs p i io name len (idx # idxs) k = do {
     (is_second, k) \<leftarrow> second_table (d_inode (dentries k p)) io idx k;
     case write_slots p i io name len idx is_second (dir_slots idx) k of
       None \<Rightarrow> None
     | Some (Some d, k) \<Rightarrow> Some (Some d, k)
     | Some (None, k) \<Rightarrow> write_idxs p i io name len idxs k }"

definition dir_write :: "nat \<Rightarrow> nat \<Rightarrow> nat \<Rightarrow> nat \<Rightarrow> u16 \<Rightarrow> 'a fsys_scheme \<Rightarrow> (nat option \<times> 'a fsys_scheme) option" where
  "dir_write p i io name len k =
     (if i_size (inodes k (d_inode (dentries k p))) = MAX_FILE_SIZE then Some (None, k)
      else write_idxs p i io name len [0..<13] k)"

definition dentry_close :: "nat \<Rightarrow> 'a fsys_scheme \<Rightarrow> 'a fsys_scheme option" where
  "dentry_close d k =
     (if d = root_dir k then Some k
      else do {
        ASSERT (0 < atomic_read (d_count (dentries k d)));
        let (zero, c) = atomic_dec_and_sete (d_count (dentries k d));
        Some (set_dentry d ((dentries k d)\<lparr>d_count := c\<rparr>) k) })"

end
