(* ===== verification/Path.thy ===== *)
theory Path
  imports Dir
begin

text \<open>
  The rest of fs/dir.c: paths. \<open>parse_path\<close> walks from the root, the working directory or an open directory
  along the components of a path, cutting the path at each \<open>/\<close>; \<open>get_path\<close> walks back up and writes the names in
  front of each other. On them the system calls on directories.
\<close>

section \<open>Walking down\<close>

record search_res =
  sr_parent :: nat
  sr_child :: "nat option"
  sr_curdir :: nat
  sr_curdir_len :: u16
  sr_nextdir :: "nat option"

definition my_fs :: "'a fsys_scheme \<Rightarrow> fs_struct" where
  "my_fs k = fss k (fs (task k (current k)))"

definition my_files :: "'a fsys_scheme \<Rightarrow> files_struct" where
  "my_files k = filess k (files (task k (current k)))"

text \<open>One turn of the loop: \<open>n\<close> is where \<open>next\<close> points.\<close>

definition path_step :: "nat \<Rightarrow> nat \<Rightarrow> nat \<Rightarrow> 'a fsys_scheme \<Rightarrow>
    (nat option \<times> nat option \<times> u16 \<times> 'a fsys_scheme) option" where
  "path_step p n io k = do {
     slash \<leftarrow> strchr (fmem k) n 0x2f;
     (case slash of
       Some s \<Rightarrow> do {
         let k = k\<lparr>fmem := (fmem k)(s := 0)\<rparr>;
         let curlen = of_nat (s - n);
         (c, k) \<leftarrow> search_dentry p n curlen io k;
         Some (c, Some (s + 1), curlen, k) }
     | None \<Rightarrow> do {
         let curlen = ucast (strlen n (fmem k));
         (c, k) \<leftarrow> search_dentry p n curlen io k;
         Some (c, None, curlen, k) }) }"

partial_function (option) path_walk :: "nat \<Rightarrow> nat option \<Rightarrow> nat \<Rightarrow> nat option \<Rightarrow> u16 \<Rightarrow> nat \<Rightarrow> 'a fsys_scheme \<Rightarrow>
    (search_res \<times> 'a fsys_scheme) option" where
  "path_walk p child cur nx curlen io k =
     (if nx \<noteq> None \<and> fmem k (the nx) \<noteq> 0 \<and> child \<noteq> None
      then Option.bind (path_step (the child) (the nx) io k)
        (\<lambda>(c, n, l, k). path_walk (the child) c (the nx) n l io k)
      else Some (\<lparr>sr_parent = p, sr_child = child, sr_curdir = cur, sr_curdir_len = curlen, sr_nextdir = nx\<rparr>, k))"

text \<open>Where the walk starts; \<^const>\<open>None\<close> in the result: not a directory.\<close>

definition path_start :: "int \<Rightarrow> nat \<Rightarrow> 'a fsys_scheme \<Rightarrow> (nat \<times> nat) option option" where
  "path_start dirfd path k =
     (if fmem k path = 0x2f then Some (Some (root (my_fs k), path + 1))
      else if dirfd = AT_FDCWD then Some (Some (cwd (my_fs k), path))
      else do {
        ASSERT (0 \<le> dirfd \<and> dirfd < 32);
        f \<leftarrow> fd_array (my_files k) (nat dirfd);
        let d = f_dentry (file_table k f);
        Some (if i_mode (inodes k (d_inode (dentries k d))) AND FT_DIR = 0 then None else Some (d, path)) })"

definition parse_path :: "int \<Rightarrow> nat \<Rightarrow> nat \<Rightarrow> 'a fsys_scheme \<Rightarrow> (int \<times> search_res option \<times> 'a fsys_scheme) option" where
  "parse_path dirfd path io k = do {
     start \<leftarrow> path_start dirfd path k;
     case start of
       None \<Rightarrow> Some (- ENOTDIR, None, k)
     | Some (d, cur) \<Rightarrow> do {
         (r, k) \<leftarrow> path_walk d (Some d) cur (Some cur) 0 io k;
         Some (0, Some r, k) } }"

section \<open>Walking up\<close>

text \<open>The string is given by its bytes.\<close>

definition prepend :: "nat \<times> int \<times> mem \<Rightarrow> u8 list \<Rightarrow> nat \<times> int \<times> mem" where
  "prepend = (\<lambda>(buffer, buflen, m) xs.
     (buffer - length xs, buflen - int (length xs), writes m (buffer - length xs) xs))"

definition d_bytes :: "mem \<Rightarrow> nat \<Rightarrow> nat \<Rightarrow> u8 list" where
  "d_bytes m d n = map (\<lambda>j. m (d_fname d + j)) [0..<n]"

partial_function (option) get_path_up :: "(nat \<Rightarrow> dentry) \<Rightarrow> nat \<Rightarrow> nat \<times> int \<times> mem \<Rightarrow> (nat \<times> int \<times> mem) option" where
  "get_path_up ds d b =
     (if d_parent (ds d) \<noteq> d
      then get_path_up ds (d_parent (ds d))
        (prepend (prepend b (d_bytes (snd (snd b)) d (unat (fname_len (ds d))))) [0x2f])
      else Some b)"

definition get_path :: "(nat \<Rightarrow> dentry) \<Rightarrow> nat \<Rightarrow> nat \<times> int \<times> mem \<Rightarrow> (nat \<times> int \<times> mem) option" where
  "get_path ds d b =
     (if d_parent (ds d) = d then Some (prepend b [0x2f]) else get_path_up ds d b)"

definition sys_getcwd :: "nat \<Rightarrow> u32 \<Rightarrow> 'a fsys_scheme \<Rightarrow> (int \<times> 'a fsys_scheme) option" where
  "sys_getcwd dest sz k = do {
     (path, k) \<leftarrow> kmalloc_fs (of_nat (MAX_PATH_LEN + 1)) k;
     let b = prepend (path + MAX_PATH_LEN + 1, int (MAX_PATH_LEN + 1), fmem k) [0];
     (pbuf, n, m) \<leftarrow> get_path (dentries k) (cwd (my_fs k)) b;
     let n = int (MAX_PATH_LEN + 1) - n;
     let (n, m) = (if sz < word_of_int n then (sint sz, m(nat (int pbuf + sint sz - 1) := 0)) else (n, m));
     let (c, m) = copy_to_user dest pbuf (unat (word_of_int n :: u32)) m;
     k \<leftarrow> kfree_fs path (k\<lparr>fmem := m\<rparr>);
     Some (n, k) }"

section \<open>Directories by path\<close>

definition dir_create :: "nat \<Rightarrow> u16 \<Rightarrow> nat \<Rightarrow> nat \<Rightarrow> u16 \<Rightarrow> 'a fsys_scheme \<Rightarrow> (int \<times> 'a fsys_scheme) option" where
  "dir_create p mode io name len k = do {
     (i, k) \<leftarrow> inode_alloc k;
     let k = k\<lparr>inodes := (inodes k)(i := (inodes k i)\<lparr>i_mode := (mode AND 0x0fff) OR FT_DIR\<rparr>)\<rparr>;
     (d, k) \<leftarrow> dir_write p i io name len k;
     case d of
       Some d \<Rightarrow> do {
         let k = set_dentry d ((dentries k d)\<lparr>d_inode := i\<rparr>) k;
         let k = k\<lparr>inodes := (inodes k)(i := (inodes k i)\<lparr>i_count := atomic_inc (i_count (inodes k i))\<rparr>)\<rparr>;
         k \<leftarrow> inode_sync i io k;
         k \<leftarrow> bitmap_sync (i_no (inodes k i)) INODE_BITMAP k;
         Some (0, k) }
     | None \<Rightarrow> do { k \<leftarrow> inode_delete i k; Some (- 1, k) } }"

text \<open>The copy of a user's path: \<open>strncpy_from_user\<close> returns the limit, so the last byte is cleared.\<close>

definition copy_path :: "nat \<Rightarrow> 'a fsys_scheme \<Rightarrow> (nat \<times> 'a fsys_scheme) option" where
  "copy_path pathname k = do {
     (path, k) \<leftarrow> kmalloc_fs (of_nat (MAX_PATH_LEN + 1)) k;
     let (n, m) = strncpy_from_user path pathname MAX_PATH_LEN (fmem k);
     Some (path, k\<lparr>fmem := m(path + n := 0)\<rparr>) }"

definition sys_mkdirat :: "int \<Rightarrow> nat \<Rightarrow> u16 \<Rightarrow> 'a fsys_scheme \<Rightarrow> (int \<times> 'a fsys_scheme) option" where
  "sys_mkdirat dirfd pathname mode k = do {
     (path, k) \<leftarrow> copy_path pathname k;
     ASSERT (fmem k path = 0x2f \<or> dirfd = AT_FDCWD);
     (io, k) \<leftarrow> kmalloc_fs 1024 k;
     (ret, r, k) \<leftarrow> parse_path dirfd path io k;
     r \<leftarrow> r;
     ASSERT (sr_child r = None);
     (ret, k) \<leftarrow> dir_create (sr_parent r) mode io (sr_curdir r) (sr_curdir_len r) k;
     k \<leftarrow> kfree_fs io k;
     k \<leftarrow> kfree_fs path k;
     Some (ret, k) }"

definition sys_mkdir :: "nat \<Rightarrow> u16 \<Rightarrow> 'a fsys_scheme \<Rightarrow> (int \<times> 'a fsys_scheme) option" where
  "sys_mkdir pathname mode k = sys_mkdirat AT_FDCWD pathname mode k"

text \<open>\<open>sys_chdir\<close> walks along the user's string, not along its copy.\<close>

definition sys_chdir :: "nat \<Rightarrow> 'a fsys_scheme \<Rightarrow> (int \<times> 'a fsys_scheme) option" where
  "sys_chdir pathname k = do {
     (path, k) \<leftarrow> copy_path pathname k;
     (io, k) \<leftarrow> kmalloc_fs 1024 k;
     (e, r, k) \<leftarrow> parse_path AT_FDCWD pathname io k;
     r \<leftarrow> r;
     (ret, k) \<leftarrow> (case sr_child r of
         None \<Rightarrow> Some (- 1 :: int, k)
       | Some d \<Rightarrow> do {
           ASSERT (i_mode (inodes k (d_inode (dentries k d))) AND FT_DIR \<noteq> 0);
           let p = fs (task k (current k));
           Some (0, k\<lparr>fss := (fss k)(p := (fss k p)\<lparr>cwd := d\<rparr>)\<rparr>) });
     k \<leftarrow> kfree_fs path k;
     k \<leftarrow> kfree_fs io k;
     Some (ret, k) }"

section \<open>Listing\<close>

text \<open>\<open>func\<close> gets the memory and the address of an entry and what it keeps; false ends the sector.\<close>

type_synonym ('s, 'a) visitor = "nat \<Rightarrow> 's \<Rightarrow> 'a fsys_scheme \<Rightarrow> (bool \<times> 's \<times> 'a fsys_scheme) option"

fun visit_entries :: "('s, 'a) visitor \<Rightarrow> nat \<Rightarrow> nat list \<Rightarrow> 's \<Rightarrow> 'a fsys_scheme \<Rightarrow> ('s \<times> 'a fsys_scheme) option" where
  "visit_entries func io [] s k = Some (s, k)"
| "visit_entries func io (j # js) s k =
     (if dd_used (fmem k) io j
      then (case func (dd_fname io j) s k of
          None \<Rightarrow> None
        | Some (go, s, k) \<Rightarrow> if go then visit_entries func io js s k else Some (s, k))
      else visit_entries func io js s k)"

function visit_sectors :: "('s, 'a) visitor \<Rightarrow> nat \<Rightarrow> nat \<Rightarrow> nat \<Rightarrow> u32 \<Rightarrow> 's \<Rightarrow> 'a fsys_scheme \<Rightarrow>
    ('s \<times> 'a fsys_scheme) option" where
  "visit_sectors func io n cnt lba s k =
     (if n < cnt
      then (case read_disk (unat lba) io 1 k of
          None \<Rightarrow> None
        | Some k \<Rightarrow>
            (case visit_entries func io [0..<SECTOR_SIZE div 32] s k of
              None \<Rightarrow> None
            | Some (s, k) \<Rightarrow> visit_sectors func io (n + 1) cnt (word32_at (fmem k) (io + SECTOR_SIZE + 4 * (n + 1))) s k))
      else Some (s, k))"
  by pat_completeness auto
termination
  by (relation "measure (\<lambda>(func, io, n, cnt, lba, s, k). cnt - n)") auto

declare visit_sectors.simps [simp del]

definition visit_idx :: "('s, 'a) visitor \<Rightarrow> nat \<Rightarrow> nat \<Rightarrow> nat \<Rightarrow> 's \<Rightarrow> 'a fsys_scheme \<Rightarrow> ('s \<times> 'a fsys_scheme) option" where
  "visit_idx func i io idx s k =
     (let lba = i_sectors (inodes k i) idx
      in if lba = 0 then Some (s, k)
         else if idx = 12
         then do {
           k \<leftarrow> read_disk (unat lba) (io + SECTOR_SIZE) 1 k;
           visit_sectors func io 0 (SECTOR_SIZE div 4) (word32_at (fmem k) (io + SECTOR_SIZE)) s k }
         else visit_sectors func io 0 1 lba s k)"

fun visit_idxs :: "('s, 'a) visitor \<Rightarrow> nat \<Rightarrow> nat \<Rightarrow> nat list \<Rightarrow> 's \<Rightarrow> 'a fsys_scheme \<Rightarrow> ('s \<times> 'a fsys_scheme) option" where
  "visit_idxs func i io [] s k = Some (s, k)"
| "visit_idxs func i io (idx # idxs) s k =
     (case visit_idx func i io idx s k of None \<Rightarrow> None | Some (s, k) \<Rightarrow> visit_idxs func i io idxs s k)"

definition dir_search_disk :: "nat \<Rightarrow> ('s, 'a) visitor \<Rightarrow> 's \<Rightarrow> 'a fsys_scheme \<Rightarrow> ('s \<times> 'a fsys_scheme) option" where
  "dir_search_disk i func s k = do {
     ASSERT (get_inode_type (inodes k i) = FT_DIR);
     (io, k) \<leftarrow> kmalloc_fs 1024 k;
     (s, k) \<leftarrow> visit_idxs func i io [0..<13] s k;
     k \<leftarrow> kfree_fs io k;
     Some (s, k) }"

text \<open>The list of copies, each in a block of its own.\<close>

definition add_dentry :: "(nat list, 'a) visitor" where
  "add_dentry e ds k = do {
     (p, k) \<leftarrow> kmalloc_fs 40 k;
     Some (True, ds @ [p], k\<lparr>fmem := memcpy p e 32 (fmem k)\<rparr>) }"

text \<open>One line: the name filled up with blanks, then the type. \<open>line\<close> is the address of the buffer.\<close>

definition print_line :: "nat \<Rightarrow> nat \<Rightarrow> mem \<Rightarrow> mem" where
  "print_line line p m =
     (let m = memset line 0 (MAX_FILE_NAME_LEN + 10) m;
          n = unat (half_at m (p + 24));
          m = memcpy line p n m;
          m = (\<lambda>a. if line + n \<le> a \<and> a < line + MAX_FILE_NAME_LEN then 0x20 else m a);
          type = half_at m (p + 26) AND 0xf000
      in if type = FT_NORMAL then writes m (line + MAX_FILE_NAME_LEN) [110, 111, 114, 109, 97, 108, 10]
         else if type = FT_DIR then writes m (line + MAX_FILE_NAME_LEN) [100, 105, 114, 10]
         else m)"

fun print_entries :: "nat \<Rightarrow> nat list \<Rightarrow> int \<Rightarrow> 'a fsys_scheme \<Rightarrow> (int \<times> 'a fsys_scheme) option" where
  "print_entries line [] c k = Some (c, k)"
| "print_entries line (p # ps) c k =
     (case console_printk (console_buf k) line (va_stack k) k (con k) (print_line line p (fmem k)) of
        None \<Rightarrow> None
      | Some (k, cn, m) \<Rightarrow>
          (case kfree_fs p (k\<lparr>con := cn, fmem := m\<rparr>) of
            None \<Rightarrow> None
          | Some k \<Rightarrow> print_entries line ps (c + 1) k))"

definition sys_printdir :: "nat \<Rightarrow> 'a fsys_scheme \<Rightarrow> (int \<times> 'a fsys_scheme) option" where
  "sys_printdir line k = do {
     (ps, k) \<leftarrow> dir_search_disk (d_inode (dentries k (cwd (my_fs k)))) add_dentry [] k;
     print_entries line ps 0 k }"

end
