(* ===== verification/Open.thy ===== *)
theory Open
  imports Path
begin

text \<open>
  The rest of fs/file.c, fs/namei.c, include/err.h and the system calls on files of fs/fs.c: descriptors (bits of
  \<open>open_fds\<close> and entries of \<open>fd_array\<close>), the table of open files, opening and closing. An entry of \<open>file_table\<close> is
  its index, with its counter in \<open>file_count\<close>. \<open>1 << fd\<close> is the shift of the machine, which takes \<open>fd\<close> modulo 32.
\<close>

section \<open>Error pointers\<close>

definition MAX_ERRNO :: int where "MAX_ERRNO = 34"
definition ENOENT :: int where "ENOENT = 2"
definition EBADF :: int where "EBADF = 9"

definition PTR_ERR :: "u32 \<Rightarrow> int" where "PTR_ERR p = sint p"
definition IS_ERR :: "u32 \<Rightarrow> bool" where "IS_ERR p \<longleftrightarrow> word_of_int (- MAX_ERRNO) \<le> p"
definition ERR_PTR :: "int \<Rightarrow> u32" where "ERR_PTR e = word_of_int e"

section \<open>Descriptors\<close>

definition MAX_FILE_COUNT :: nat where "MAX_FILE_COUNT = 64"

definition fd_bit :: "int \<Rightarrow> u32" where "fd_bit fd = push_bit (nat (fd mod 32)) 1"

definition set_files :: "files_struct \<Rightarrow> 'a fsys_scheme \<Rightarrow> 'a fsys_scheme" where
  "set_files f k = k\<lparr>filess := (filess k)(files (task k (current k)) := f)\<rparr>"

fun fd_scan :: "nat list \<Rightarrow> u32 \<Rightarrow> int" where
  "fd_scan [] fds = - 1"
| "fd_scan (i # is') fds = (if fd_bit (int i) AND fds = 0 then int i else fd_scan is' fds)"

definition alloc_fd :: "'a fsys_scheme \<Rightarrow> int \<times> 'a fsys_scheme" where
  "alloc_fd k =
     (let f = my_files k; i = fd_scan [0..<32] (open_fds f)
      in if i = - 1 then (- 1, k) else (i, set_files (f\<lparr>open_fds := open_fds f OR fd_bit i\<rparr>) k))"

definition free_fd :: "int \<Rightarrow> 'a fsys_scheme \<Rightarrow> 'a fsys_scheme option" where
  "free_fd fd k = do {
     ASSERT (0 \<le> fd);
     let f = my_files k;
     ASSERT (open_fds f AND fd_bit fd \<noteq> 0);
     Some (set_files (f\<lparr>open_fds := open_fds f AND NOT (fd_bit fd)\<rparr>) k) }"

definition install_fd :: "int \<Rightarrow> nat option \<Rightarrow> 'a fsys_scheme \<Rightarrow> 'a fsys_scheme" where
  "install_fd fd p k = (let f = my_files k in set_files (f\<lparr>fd_array := (fd_array f)(nat fd := p)\<rparr>) k)"

text \<open>Reading \<open>fd_array[fd]\<close>: the array has 32 entries.\<close>

definition fd_file :: "int \<Rightarrow> 'a fsys_scheme \<Rightarrow> nat option option" where
  "fd_file fd k = do { ASSERT (0 \<le> fd \<and> fd < 32); Some (fd_array (my_files k) (nat fd)) }"

section \<open>The table of open files\<close>

definition zero_file :: file_t where
  "zero_file = \<lparr>pos = 0, f_flags = 0, f_mode = 0, f_dentry = 0\<rparr>"

definition get_free_file_of_table :: "'a fsys_scheme \<Rightarrow> nat option" where
  "get_free_file_of_table k = find (\<lambda>i. atomic_read (file_count k i) = 0) [0..<MAX_FILE_COUNT]"

definition file_init :: "'a fsys_scheme \<Rightarrow> 'a fsys_scheme" where
  "file_init k =
     (let k = k\<lparr>file_table := (\<lambda>i. if i < MAX_FILE_COUNT then zero_file else file_table k i),
                file_count := (\<lambda>i. if i < MAX_FILE_COUNT then \<lparr>counter = 0\<rparr> else file_count k i)\<rparr>;
          k = inc_count 0 (k\<lparr>file_table := (file_table k)(0 := (file_table k 0)\<lparr>f_mode := FT_KEYBOARD\<rparr>)\<rparr>)
      in inc_count 1 (k\<lparr>file_table := (file_table k)(1 := (file_table k 1)\<lparr>f_mode := FT_SCREEN\<rparr>)\<rparr>))"

text \<open>What opening gives: NULL, an entry of the table, or an error pointer.\<close>

datatype filp = Null | Filp nat | Err_ptr u32

definition open_entry :: "nat \<Rightarrow> 'a fsys_scheme \<Rightarrow> (nat \<times> 'a fsys_scheme) option" where
  "open_entry d k = do {
     f \<leftarrow> get_free_file_of_table k;
     let k = k\<lparr>file_table := (file_table k)(f := (file_table k f)\<lparr>pos := 0, f_dentry := d\<rparr>)\<rparr>;
     Some (f, inc_count f k) }"

definition file_create :: "nat \<Rightarrow> u16 \<Rightarrow> nat \<Rightarrow> nat \<Rightarrow> 'a fsys_scheme \<Rightarrow> (filp \<times> 'a fsys_scheme) option" where
  "file_create name len p io k = do {
     (i, k) \<leftarrow> inode_alloc k;
     let k = k\<lparr>inodes := (inodes k)(i := (inodes k i)\<lparr>i_mode := FT_NORMAL\<rparr>)\<rparr>;
     (d, k) \<leftarrow> dir_write p i io name len k;
     case d of
       Some d \<Rightarrow> do {
         let k = k\<lparr>inodes := (inodes k)(i := (inodes k i)\<lparr>i_count := atomic_inc (i_count (inodes k i))\<rparr>)\<rparr>;
         let k = set_dentry d ((dentries k d)\<lparr>d_inode := i\<rparr>) k;
         (f, k) \<leftarrow> open_entry d k;
         k \<leftarrow> inode_sync i io k;
         k \<leftarrow> bitmap_sync (i_no (inodes k i)) INODE_BITMAP k;
         Some (Filp f, k) }
     | None \<Rightarrow> do { k \<leftarrow> inode_delete i k; Some (Null, k) } }"

definition O_CREAT :: u32 where "O_CREAT = 64"

text \<open>\<open>res\<close> is not initialised when \<open>parse_path\<close> fails, and what it holds is used: not modelled further.\<close>

definition filp_openat :: "int \<Rightarrow> nat \<Rightarrow> u32 \<Rightarrow> 'a fsys_scheme \<Rightarrow> (filp \<times> 'a fsys_scheme) option" where
  "filp_openat dirfd pathname flags k = do {
     (io, k) \<leftarrow> kmalloc_fs 1024 k;
     (e, r, k) \<leftarrow> parse_path dirfd pathname io k;
     r \<leftarrow> r;
     (f, k) \<leftarrow> (case sr_child r of
         None \<Rightarrow>
           if sr_nextdir r = None \<and> flags AND O_CREAT \<noteq> 0
           then file_create (sr_curdir r) (sr_curdir_len r) (sr_parent r) io k
           else Some (Err_ptr (ERR_PTR (- ENOENT)), k)
       | Some d \<Rightarrow>
           if sr_nextdir r = None
           then do {
             (f, k) \<leftarrow> open_entry d k;
             Some (Filp f, k\<lparr>file_table := (file_table k)(f := (file_table k f)\<lparr>f_flags := flags\<rparr>)\<rparr>) }
           else PANIC);
     k \<leftarrow> kfree_fs io k;
     Some (f, k) }"

definition file_close :: "nat \<Rightarrow> 'a fsys_scheme \<Rightarrow> (int \<times> 'a fsys_scheme) option" where
  "file_close f k = do {
     ASSERT (0 < atomic_read (file_count k f));
     let (zero, c) = atomic_dec_and_sete (file_count k f);
     let k = k\<lparr>file_count := (file_count k)(f := c)\<rparr>;
     k \<leftarrow> (if zero then dentry_close (f_dentry (file_table k f)) k else Some k);
     Some (0, k) }"

section \<open>System calls\<close>

definition getname :: "nat \<Rightarrow> 'a fsys_scheme \<Rightarrow> (nat \<times> 'a fsys_scheme) option" where
  "getname pathname k = do {
     (p, k) \<leftarrow> kmalloc_fs (of_nat (MAX_PATH_LEN + 1)) k;
     let (n, m) = strncpy_from_user p pathname MAX_PATH_LEN (fmem k);
     Some (p, k\<lparr>fmem := m(p + MAX_PATH_LEN := 0)\<rparr>) }"

definition putname :: "nat \<Rightarrow> 'a fsys_scheme \<Rightarrow> 'a fsys_scheme option" where
  "putname pathname k = kfree_fs pathname k"

definition set_pos :: "nat \<Rightarrow> nat \<Rightarrow> 'a fsys_scheme \<Rightarrow> 'a fsys_scheme" where
  "set_pos f p k = k\<lparr>file_table := (file_table k)(f := (file_table k f)\<lparr>pos := p\<rparr>)\<rparr>"

text \<open>\<open>count < 0\<close> is false for every \<open>size_t\<close>.\<close>

definition sys_read :: "int \<Rightarrow> nat \<Rightarrow> u32 \<Rightarrow> 'a fsys_scheme \<Rightarrow> (int \<times> 'a fsys_scheme) option" where
  "sys_read fd dest cnt k =
     (if fd < 0 then Some (- 1, k)
      else do {
        ASSERT (open_fds (my_files k) AND fd_bit fd \<noteq> 0);
        f \<leftarrow> fd_file fd k;
        case f of
          None \<Rightarrow> Some (- 1, k)
        | Some f \<Rightarrow> do {
            (ret, p, k) \<leftarrow> file_read f dest (unat cnt) (pos (file_table k f)) k;
            Some (ret, set_pos f p k) } })"

definition sys_write :: "int \<Rightarrow> nat \<Rightarrow> u32 \<Rightarrow> 'a fsys_scheme \<Rightarrow> (int \<times> 'a fsys_scheme) option" where
  "sys_write fd src cnt k =
     (if fd < 0 then Some (- 1, k)
      else do {
        ASSERT (open_fds (my_files k) AND fd_bit fd \<noteq> 0);
        f \<leftarrow> fd_file fd k;
        case f of
          None \<Rightarrow> Some (- 1, k)
        | Some f \<Rightarrow> do {
            (ret, p, k) \<leftarrow> file_write f src (unat cnt) (pos (file_table k f)) k;
            Some (ret, set_pos f p k) } })"

definition install_or_free :: "int \<Rightarrow> filp \<Rightarrow> 'a fsys_scheme \<Rightarrow> (int \<times> 'a fsys_scheme) option" where
  "install_or_free fd f k = (case f of
       Err_ptr e \<Rightarrow> do { k \<leftarrow> free_fd fd k; Some (PTR_ERR e, k) }
     | Filp f \<Rightarrow> Some (fd, install_fd fd (Some f) k)
     | Null \<Rightarrow> Some (fd, install_fd fd None k))"

definition sys_openat :: "int \<Rightarrow> nat \<Rightarrow> u32 \<Rightarrow> int \<Rightarrow> 'a fsys_scheme \<Rightarrow> (int \<times> 'a fsys_scheme) option" where
  "sys_openat dirfd pathname flags mode k = do {
     (tmp, k) \<leftarrow> getname pathname k;
     let fd = PTR_ERR (of_nat tmp);
     if \<not> IS_ERR (of_nat tmp)
     then do {
       let (fd, k) = alloc_fd k;
       (fd, k) \<leftarrow> (if 0 \<le> fd
         then do {
           (f, k) \<leftarrow> filp_openat dirfd tmp flags k;
           install_or_free fd f k }
         else Some (fd, k));
       k \<leftarrow> putname tmp k;
       Some (fd, k) }
     else Some (fd, k) }"

definition sys_open :: "nat \<Rightarrow> u32 \<Rightarrow> int \<Rightarrow> 'a fsys_scheme \<Rightarrow> (int \<times> 'a fsys_scheme) option" where
  "sys_open pathname flags mode k = sys_openat AT_FDCWD pathname flags mode k"

definition sys_close :: "int \<Rightarrow> 'a fsys_scheme \<Rightarrow> (int \<times> 'a fsys_scheme) option" where
  "sys_close fd k =
     (if fd < 0 \<or> int MAX_FILE_COUNT \<le> fd \<or> open_fds (my_files k) AND fd_bit fd = 0 then Some (- EBADF, k)
      else do {
        f \<leftarrow> fd_file fd k;
        f \<leftarrow> f;
        (ret, k) \<leftarrow> file_close f k;
        k \<leftarrow> (if ret = 0 then free_fd fd k else Some k);
        Some (ret, k) })"

end
