(* ===== verification/Exec.thy ===== *)
theory Exec
  imports Page_Fault Open
begin

text \<open>
  kernel/exec.c: a process takes up a new program. \<open>elf_head\<close>, the static buffer of the ELF header, is given by
  its address. Pointers of the user (\<open>argv\<close> and its strings) are addresses in \<open>fmem\<close>.
\<close>

section \<open>The frame of the new program\<close>

definition EFLAGS_MBS :: u32 where "EFLAGS_MBS = push_bit 1 1"
definition EFLAGS_IF_1 :: u32 where "EFLAGS_IF_1 = push_bit 9 1"

definition start_thread :: "u32 \<Rightarrow> u32 \<Rightarrow> 'a psys_scheme \<Rightarrow> 'a psys_scheme" where
  "start_thread new_eip new_esp k =
     (let f = (frames k (current k))\<lparr>st_edi := 0, st_esi := 0, st_ebp := 0, st_esp_dummy := 0, st_ebx := 0,
           st_edx := 0, st_ecx := 0, st_eax := 0\<rparr>;
          f = f\<lparr>cs_old := SELECTOR_U_CODE, st_gs := 0, st_ds := SELECTOR_U_DATA, st_es := SELECTOR_U_DATA,
           st_fs := SELECTOR_U_DATA, eip_old := new_eip, st_eflags := 0 OR EFLAGS_MBS OR EFLAGS_IF_1,
           esp_old := new_esp, ss_old := SELECTOR_U_DATA\<rparr>
      in k\<lparr>frames := (frames k)(current k := f)\<rparr>)"

section \<open>Giving up the old program\<close>

definition PAGE_ALIGN :: "u32 \<Rightarrow> u32" where "PAGE_ALIGN addr = addr div 4096 * 4096"

definition is_mapped :: "u32 \<Rightarrow> 'a tsys_scheme \<Rightarrow> bool option" where
  "is_mapped addr k = do {
     e \<leftarrow> load_at (get_pde addr) k;
     if e AND 1 = 1 then do { e \<leftarrow> load_at (get_pte addr) k; Some (e AND 1 = 1) } else Some False }"

definition free_mapped :: "u32 \<Rightarrow> 'a tsys_scheme \<Rightarrow> 'a tsys_scheme option" where
  "free_mapped addr k = do {
     b \<leftarrow> is_mapped addr k;
     if b then drop_page (unat addr) k else Some k }"

partial_function (option) free_range :: "u32 \<Rightarrow> u32 \<Rightarrow> 'a tsys_scheme \<Rightarrow> (u32 \<times> 'a tsys_scheme) option" where
  "free_range addr end_addr k =
     (if addr < end_addr
      then Option.bind (free_mapped addr k) (\<lambda>k. free_range (addr + of_nat PG_SIZE) end_addr k)
      else Some (addr, k))"

partial_function (option) free_areas :: "nat \<Rightarrow> u32 \<Rightarrow> 'a psys_scheme \<Rightarrow> 'a psys_scheme option" where
  "free_areas cur tmp k =
     (if cur \<noteq> 0
      then do {
        let addr = PAGE_ALIGN (vm_start (areas k cur));
        (addr, k) \<leftarrow> (if tmp \<le> addr
          then do { k \<leftarrow> free_mapped addr k; Some (addr + of_nat PG_SIZE, k) }
          else Some (addr, k));
        (addr, k) \<leftarrow> free_range addr (vm_end (areas k cur)) k;
        let tmp = addr;
        let next = vm_next (areas k cur);
        k \<leftarrow> kfree_fs cur k;
        free_areas next tmp k }
      else Some k)"

fun free_tables :: "nat \<Rightarrow> nat list \<Rightarrow> 'a tsys_scheme \<Rightarrow> 'a tsys_scheme option" where
  "free_tables pgdir [] k = Some k"
| "free_tables pgdir (i # ls) k = do {
     e \<leftarrow> word_at pgdir i k;
     k \<leftarrow> (if e AND 1 = 1
       then do {
         k \<leftarrow> drop_page (unat (frame_of e) + KERNEL_VADDR_START) k;
         set_word pgdir i 0 k }
       else Some k);
     free_tables pgdir ls k }"

definition exec_mmap :: "nat \<Rightarrow> 'a psys_scheme \<Rightarrow> 'a psys_scheme option" where
  "exec_mmap mm k =
     (if mm = 0 then Some k
      else do {
        let cur = mmap (mms k mm);
        let k = k\<lparr>mms := (mms k)(mm := (mms k mm)\<lparr>mmap := 0\<rparr>)\<rparr>;
        k \<leftarrow> free_areas cur 0 k;
        free_tables (pg_dir (mms k mm)) [0..<768] k })"

text \<open>\<open>(close_on_exec & (1 << i)) == 1\<close>, as written.\<close>

fun flush_files :: "nat list \<Rightarrow> u32 \<Rightarrow> 'a fsys_scheme \<Rightarrow> (u32 \<times> 'a fsys_scheme) option" where
  "flush_files [] ce k = Some (ce, k)"
| "flush_files (i # ls) ce k =
     (if ce AND fd_bit (int i) = 1
      then (case fd_array (my_files k) i of
          None \<Rightarrow> None
        | Some f \<Rightarrow>
            (case file_close f k of
              None \<Rightarrow> None
            | Some (ret, k) \<Rightarrow> flush_files ls (ce AND NOT (fd_bit (int i)))
                (set_files ((my_files k)\<lparr>open_fds := open_fds (my_files k) AND NOT (fd_bit (int i))\<rparr>) k)))
      else flush_files ls ce k)"

definition flush_old_files :: "'a fsys_scheme \<Rightarrow> 'a fsys_scheme option" where
  "flush_old_files k = do {
     (ce, k) \<leftarrow> flush_files [0..<32] (close_on_exec (my_files k)) k;
     Some (set_files ((my_files k)\<lparr>close_on_exec := ce\<rparr>) k) }"

definition flush_old_exec :: "'a psys_scheme \<Rightarrow> 'a psys_scheme option" where
  "flush_old_exec k = do {
     k \<leftarrow> exec_mmap (my_mm k) k;
     flush_old_files k }"

section \<open>Arguments\<close>

text \<open>Each string goes below the one before; \<open>s\<close> collects where the user will find them.\<close>

partial_function (option) copy_args :: "nat \<Rightarrow> nat \<Rightarrow> u32 \<Rightarrow> nat \<Rightarrow> nat \<Rightarrow> mem \<Rightarrow> (nat \<times> u32 \<times> nat \<times> mem) option" where
  "copy_args argv arg stk argc s m =
     (if argv \<noteq> 0 \<and> word32_at m argv \<noteq> 0
      then (if 10 \<le> argc then PANIC
        else do {
          let p = unat (word32_at m argv);
          let len = sint (strlen p m);
          let room = c_div (len + 1 + 3) 4 * 4;
          let arg = nat (int arg - room);
          let stk = stk - word_of_int room;
          m \<leftarrow> strcpy arg p m;
          let m = writes m (s + 4 * argc) (bytes32 stk);
          copy_args (argv + 4) arg stk (argc + 1) s m })
      else Some (arg, stk, argc, m))"

definition push_args :: "nat \<Rightarrow> 'a fsys_scheme \<Rightarrow> (nat \<times> u32 \<times> 'a fsys_scheme) option" where
  "push_args argv k = do {
     (p, k) \<leftarrow> Option.bind (get_zeroed_page k (bd (kmem_st k)) (fmem k) USER_POOL)
       (\<lambda>(p, k, b, m). Some (p, k\<lparr>kmem_st := (kmem_st k)\<lparr>bd := b\<rparr>, fmem := m\<rparr>));
     (s, k, km, m) \<leftarrow> kzalloc k (kmem_st k) (fmem k) 40;
     (arg, stk, argc, m) \<leftarrow> copy_args argv (p + PG_SIZE) TASK_SIZE 0 s m;
     let arg = arg - 4 * 11;
     let stk = stk - 4 * 11;
     let m = writes m arg (bytes32 (of_nat argc));
     let m = memcpy (arg + 4) s 40 m;
     Some (arg, stk, k\<lparr>kmem_st := km, fmem := m\<rparr>) }"

section \<open>Segments\<close>

definition elf_magic :: "u8 list" where
  "elf_magic = [0x7f, 0x45, 0x4c, 0x46, 1, 1, 1, 0, 0, 0, 0, 0, 0, 0, 0, 0]"

definition ELF_LOAD :: u32 where "ELF_LOAD = 1"
definition ELF_READ :: u32 where "ELF_READ = 4"
definition ELF_WRITE :: u32 where "ELF_WRITE = 2"
definition ELF_EXEC :: u32 where "ELF_EXEC = 1"

definition e_entry :: "mem \<Rightarrow> nat \<Rightarrow> u32" where "e_entry m h = word32_at m (h + 24)"
definition e_phoff :: "mem \<Rightarrow> nat \<Rightarrow> u32" where "e_phoff m h = word32_at m (h + 28)"
definition e_phnum :: "mem \<Rightarrow> nat \<Rightarrow> u16" where "e_phnum m h = half_at m (h + 44)"

record Elf32_phdr =
  p_type :: u32
  p_offset :: u32
  p_vaddr :: u32
  p_memsz :: u32
  p_flags :: u32

definition phdr_at :: "mem \<Rightarrow> nat \<Rightarrow> Elf32_phdr" where
  "phdr_at m a = \<lparr>p_type = word32_at m a, p_offset = word32_at m (a + 4), p_vaddr = word32_at m (a + 8),
     p_memsz = word32_at m (a + 20), p_flags = word32_at m (a + 24)\<rparr>"

definition mmap_at :: "nat \<Rightarrow> u32 \<Rightarrow> u32 \<Rightarrow> u32 \<Rightarrow> u32 \<Rightarrow> 'a psys_scheme \<Rightarrow> 'a psys_scheme option" where
  "mmap_at file addr len flag off k = do {
     let p = my_mm k;
     (ret, k, km, h, mm) \<leftarrow> do_mmap k (kmem_st k) (areas k) (mms k p) file addr len 0 flag off;
     Some (k\<lparr>kmem_st := km, areas := h, mms := (mms k)(p := mm)\<rparr>) }"

definition set_mm :: "mm_struct \<Rightarrow> 'a psys_scheme \<Rightarrow> 'a psys_scheme" where
  "set_mm mm k = k\<lparr>mms := (mms k)(my_mm k := mm)\<rparr>"

definition load_segment :: "nat \<Rightarrow> Elf32_phdr \<Rightarrow> 'a psys_scheme \<Rightarrow> 'a psys_scheme option" where
  "load_segment file ph k =
     (let mm = mms k (my_mm k)
      in if p_type ph \<noteq> ELF_LOAD then Some k
         else if p_flags ph = ELF_READ
         then mmap_at file (p_vaddr ph) (p_memsz ph) VM_READ (p_offset ph) k
         else if p_flags ph = ELF_READ OR ELF_WRITE
         then mmap_at file (p_vaddr ph) (p_memsz ph) (VM_READ OR VM_WRITE) (p_offset ph)
           (set_mm (mm\<lparr>start_data := p_vaddr ph, end_data := p_vaddr ph + p_memsz ph\<rparr>) k)
         else if p_flags ph = ELF_READ OR ELF_EXEC
         then mmap_at file (p_vaddr ph) (p_memsz ph) (VM_READ OR VM_EXEC) (p_offset ph)
           (set_mm (mm\<lparr>start_code := p_vaddr ph, end_code := p_vaddr ph + p_memsz ph\<rparr>) k)
         else Some k)"

fun load_segments :: "nat \<Rightarrow> nat \<Rightarrow> nat list \<Rightarrow> 'a psys_scheme \<Rightarrow> 'a psys_scheme option" where
  "load_segments file phead [] k = Some k"
| "load_segments file phead (i # ls) k = do {
     k \<leftarrow> load_segment file (phdr_at (fmem k) (phead + 32 * i)) k;
     load_segments file phead ls k }"

text \<open>A kernel thread gets a memory descriptor and a directory with the kernel's half of the first one.\<close>

definition pdt_addr :: nat where "pdt_addr = 0x100000 + KERNEL_VADDR_START"

definition ensure_mm :: "'a psys_scheme \<Rightarrow> 'a psys_scheme option" where
  "ensure_mm k =
     (if my_mm k \<noteq> 0 then Some k
      else do {
        let t = current k;
        (p, k, km, m) \<leftarrow> kzalloc k (kmem_st k) (fmem k) 76;
        let k = k\<lparr>kmem_st := km, fmem := m, mms := (mms k)(p := (mm_at 0 0)\<lparr>users := 0\<rparr>)\<rparr>;
        let k = set_task t ((task k t)\<lparr>t_mm := p\<rparr>) k;
        (d, k) \<leftarrow> zero_page KERNEL_POOL k;
        let m = clear_words (kphys d) (mmu_state k);
        let m = m\<lparr>pm := (\<lambda>a. if frame_of a = kphys d \<and> a AND 3 = 0 \<and> 3072 \<le> a AND 0xfff
          then pm m (kphys pdt_addr + (a - kphys d)) else pm m a)\<rparr>;
        let k = k\<lparr>mmu_state := m\<rparr>;
        a \<leftarrow> paddr_at d k;
        k \<leftarrow> set_word d 1023 (a OR PG_P OR PG_RWE) k;
        let k = k\<lparr>mms := (mms k)(p := (mms k p)\<lparr>pg_dir := d\<rparr>)\<rparr>;
        a \<leftarrow> paddr_at d k;
        Some (k\<lparr>mmu_state := (mmu_state k)\<lparr>cr3 := a\<rparr>\<rparr>) })"

text \<open>The page with the arguments becomes the first page of the stack. \<open>arg\<close> points into the page: the low bits of
  its address come out of \<open>get_paddr\<close> and into the entry.\<close>

definition map_args :: "nat \<Rightarrow> 'a psys_scheme \<Rightarrow> 'a psys_scheme option" where
  "map_args arg k = do {
     let v = TASK_SIZE - of_nat PG_SIZE;
     e \<leftarrow> load_at (get_pde v) k;
     k \<leftarrow> (if e AND 1 = 0
       then do {
         (a, k) \<leftarrow> new_table k;
         store_at (get_pde v) (a OR PG_P OR PG_RWE OR PG_USER) k }
       else Some k);
     a \<leftarrow> paddr_at arg k;
     store_at (get_pte v) (a OR PG_P OR PG_RWE OR PG_USER) k }"

definition set_map_file :: "nat \<Rightarrow> 'a fsys_scheme \<Rightarrow> 'a fsys_scheme option" where
  "set_map_file file k =
     (if map_file (my_files k) \<noteq> 0
      then do {
        (ret, k) \<leftarrow> file_close (map_file (my_files k) - 1) k;
        Some (set_files ((my_files k)\<lparr>map_file := file\<rparr>) k) }
      else Some k)"

definition O_RDWR :: u32 where "O_RDWR = 2"

definition do_exec :: "nat \<Rightarrow> nat \<Rightarrow> nat \<Rightarrow> 'a psys_scheme \<Rightarrow> (int \<times> 'a psys_scheme) option" where
  "do_exec elf_head pathname argv k = do {
     (f, k) \<leftarrow> filp_openat AT_FDCWD pathname O_RDWR k;
     case f of
       Err_ptr e \<Rightarrow> Some (PTR_ERR e, k)
     | Null \<Rightarrow> None
     | Filp f \<Rightarrow> do {
         (arg, stk, k) \<leftarrow> push_args argv k;
         (ret, p, k) \<leftarrow> file_read f elf_head 200 0 k;
         ASSERT (map (\<lambda>j. fmem k (elf_head + j)) [0..<16] = elf_magic);
         let phead = elf_head + unat (e_phoff (fmem k) elf_head);
         k \<leftarrow> flush_old_exec k;
         k \<leftarrow> set_map_file (file_ptr f) k;
         k \<leftarrow> ensure_mm k;
         k \<leftarrow> load_segments (file_ptr f) phead [0..<unat (e_phnum (fmem k) elf_head)] k;
         k \<leftarrow> mmap_at 0 (TASK_SIZE - of_nat PG_SIZE * 2) (of_nat PG_SIZE * 2) (VM_READ OR VM_WRITE) 0 k;
         k \<leftarrow> map_args arg k;
         Some (0, start_thread (e_entry (fmem k) elf_head) stk k) } }"

definition sys_execve :: "nat \<Rightarrow> nat \<Rightarrow> nat \<Rightarrow> nat \<Rightarrow> 'a psys_scheme \<Rightarrow> (int \<times> 'a psys_scheme) option" where
  "sys_execve elf_head pathname argv envp k = do_exec elf_head pathname argv k"

end
