(* ===== verification/Syscalls.thy ===== *)
theory Syscalls
  imports Exec
begin

text \<open>
  System calls from the program to the kernel and back: the stubs of lib/user/syscall.c, made by the macros of
  include/lib/user/syscall.h, the entry \<open>syscall_handler\<close> of kernel/kernel.S and the table of user/syscall-init.c.
  A stub loads the number into eax and its arguments into ebx, ecx, edx and esi; the entry pushes these four and calls
  through the table; a negative result becomes \<open>errno\<close>. Registers that a stub does not load keep what they held.
\<close>

section \<open>The kernel's side\<close>

datatype sys_fn = Sys_exit | Sys_fork | Sys_read | Sys_write | Sys_open | Sys_close | Sys_execve | Sys_chdir
  | Sys_getpid | Sys_mkdir | Sys_getcwd | Sys_openat | Sys_mkdirat | Sys_printdir

definition syscall_nr :: nat where "syscall_nr = 400"

definition syscall_table :: "nat \<Rightarrow> sys_fn option" where
  "syscall_table = (\<lambda>_. None)(1 := Some Sys_exit, 2 := Some Sys_fork, 3 := Some Sys_read, 4 := Some Sys_write,
     5 := Some Sys_open, 6 := Some Sys_close, 11 := Some Sys_execve, 12 := Some Sys_chdir, 20 := Some Sys_getpid,
     39 := Some Sys_mkdir, 48 := Some Sys_getcwd, 243 := Some Sys_openat, 244 := Some Sys_mkdirat,
     300 := Some Sys_printdir)"

record regs =
  r_ebx :: u32
  r_ecx :: u32
  r_edx :: u32
  r_esi :: u32

text \<open>The handlers with their arguments as they lie on the stack; \<open>elf_head\<close> and \<open>line\<close> are the places of two buffers.
  \<open>sys_exit\<close> does not come back to its caller: the state is the one in which the next thread goes on, and the result 0 beside
  it is returned to nobody.\<close>

definition run_handler :: "nat \<Rightarrow> nat \<Rightarrow> sys_fn \<Rightarrow> u32 \<Rightarrow> u32 \<Rightarrow> u32 \<Rightarrow> u32 \<Rightarrow> 'a psys_scheme \<Rightarrow> (int \<times> 'a psys_scheme) option" where
  "run_handler elf_head line f a b c d k = (case f of
       Sys_exit \<Rightarrow> map_option (\<lambda>k. (0, k)) (sys_exit (sint a) k)
     | Sys_fork \<Rightarrow> sys_fork k
     | Sys_read \<Rightarrow> sys_read (sint a) (unat b) c k
     | Sys_write \<Rightarrow> sys_write (sint a) (unat b) c k
     | Sys_open \<Rightarrow> sys_open (unat a) b (sint c) k
     | Sys_close \<Rightarrow> sys_close (sint a) k
     | Sys_execve \<Rightarrow> sys_execve elf_head (unat a) (unat b) (unat c) k
     | Sys_chdir \<Rightarrow> sys_chdir (unat a) k
     | Sys_getpid \<Rightarrow> Some (sint (sys_getpid k), k)
     | Sys_mkdir \<Rightarrow> sys_mkdir (unat a) (ucast b) k
     | Sys_getcwd \<Rightarrow> sys_getcwd (unat a) b k
     | Sys_openat \<Rightarrow> sys_openat (sint a) (unat b) c (sint d) k
     | Sys_mkdirat \<Rightarrow> sys_mkdirat (sint a) (unat b) (ucast c) k
     | Sys_printdir \<Rightarrow> sys_printdir line k)"

text \<open>The entry: no test of eax. An empty slot of the table calls address 0, a number behind it what lies there:
  \<^const>\<open>None\<close>.\<close>

definition syscall_entry :: "nat \<Rightarrow> nat \<Rightarrow> u32 \<Rightarrow> regs \<Rightarrow> 'a psys_scheme \<Rightarrow> (int \<times> 'a psys_scheme) option" where
  "syscall_entry elf_head line eax r k = do {
     ASSERT (unat eax < syscall_nr);
     f \<leftarrow> syscall_table (unat eax);
     (ret, k) \<leftarrow> run_handler elf_head line f (r_ebx r) (r_ecx r) (r_edx r) (r_esi r) k;
     Some (to_int32 ret, k) }"

section \<open>The program's side\<close>

record usys = psys +
  errno :: int

definition NR_exit :: u32 where "NR_exit = 1"
definition NR_fork :: u32 where "NR_fork = 2"
definition NR_read :: u32 where "NR_read = 3"
definition NR_write :: u32 where "NR_write = 4"
definition NR_open :: u32 where "NR_open = 5"
definition NR_close :: u32 where "NR_close = 6"
definition NR_execve :: u32 where "NR_execve = 11"
definition NR_chdir :: u32 where "NR_chdir = 12"
definition NR_getpid :: u32 where "NR_getpid = 20"
definition NR_mkdir :: u32 where "NR_mkdir = 39"
definition NR_getcwd :: u32 where "NR_getcwd = 48"
definition NR_openat :: u32 where "NR_openat = 243"
definition NR_mkdirat :: u32 where "NR_mkdirat = 244"
definition NR_printdir :: u32 where "NR_printdir = 300"

definition set_errno :: "(int \<times> 'a usys_scheme) option \<Rightarrow> (int \<times> 'a usys_scheme) option" where
  "set_errno r = do {
     (res, k) \<leftarrow> r;
     Some (if 0 \<le> res then (res, k) else (- 1, k\<lparr>errno := to_int32 (- res)\<rparr>)) }"

definition syscall0 :: "nat \<Rightarrow> nat \<Rightarrow> regs \<Rightarrow> u32 \<Rightarrow> 'a usys_scheme \<Rightarrow> (int \<times> 'a usys_scheme) option" where
  "syscall0 elf_head line r nr k = set_errno (syscall_entry elf_head line nr r k)"

definition syscall1 :: "nat \<Rightarrow> nat \<Rightarrow> regs \<Rightarrow> u32 \<Rightarrow> u32 \<Rightarrow> 'a usys_scheme \<Rightarrow> (int \<times> 'a usys_scheme) option" where
  "syscall1 elf_head line r nr a k = set_errno (syscall_entry elf_head line nr (r\<lparr>r_ebx := a\<rparr>) k)"

definition syscall2 :: "nat \<Rightarrow> nat \<Rightarrow> regs \<Rightarrow> u32 \<Rightarrow> u32 \<Rightarrow> u32 \<Rightarrow> 'a usys_scheme \<Rightarrow> (int \<times> 'a usys_scheme) option" where
  "syscall2 elf_head line r nr a b k = set_errno (syscall_entry elf_head line nr (r\<lparr>r_ebx := a, r_ecx := b\<rparr>) k)"

definition syscall3 :: "nat \<Rightarrow> nat \<Rightarrow> regs \<Rightarrow> u32 \<Rightarrow> u32 \<Rightarrow> u32 \<Rightarrow> u32 \<Rightarrow> 'a usys_scheme \<Rightarrow> (int \<times> 'a usys_scheme) option" where
  "syscall3 elf_head line r nr a b c k =
     set_errno (syscall_entry elf_head line nr (r\<lparr>r_ebx := a, r_ecx := b, r_edx := c\<rparr>) k)"

definition syscall4 :: "nat \<Rightarrow> nat \<Rightarrow> regs \<Rightarrow> u32 \<Rightarrow> u32 \<Rightarrow> u32 \<Rightarrow> u32 \<Rightarrow> u32 \<Rightarrow> 'a usys_scheme \<Rightarrow> (int \<times> 'a usys_scheme) option" where
  "syscall4 elf_head line r nr a b c d k =
     set_errno (syscall_entry elf_head line nr (r\<lparr>r_ebx := a, r_ecx := b, r_edx := c, r_esi := d\<rparr>) k)"

text \<open>The calls as a program makes them, one for each line of lib/user/syscall.c.\<close>

datatype ucall = U_fork | U_exit u32 | U_read u32 u32 u32 | U_write u32 u32 u32 | U_open u32 u32 u32 | U_close u32
  | U_execve u32 u32 u32 | U_chdir u32 | U_getpid | U_mkdir u32 u32 | U_getcwd u32 u32 | U_openat u32 u32 u32 u32
  | U_mkdirat u32 u32 u32 | U_printdir

fun ustub :: "nat \<Rightarrow> nat \<Rightarrow> regs \<Rightarrow> ucall \<Rightarrow> 'a usys_scheme \<Rightarrow> (int \<times> 'a usys_scheme) option" where
  "ustub e l r U_fork k = syscall0 e l r NR_fork k"
| "ustub e l r (U_exit a) k = syscall1 e l r NR_exit a k"
| "ustub e l r (U_read a b c) k = syscall3 e l r NR_read a b c k"
| "ustub e l r (U_write a b c) k = syscall3 e l r NR_write a b c k"
| "ustub e l r (U_open a b c) k = syscall3 e l r NR_open a b c k"
| "ustub e l r (U_close a) k = syscall1 e l r NR_close a k"
| "ustub e l r (U_execve a b c) k = syscall3 e l r NR_execve a b c k"
| "ustub e l r (U_chdir a) k = syscall1 e l r NR_chdir a k"
| "ustub e l r U_getpid k = syscall0 e l r NR_getpid k"
| "ustub e l r (U_mkdir a b) k = syscall2 e l r NR_mkdir a b k"
| "ustub e l r (U_getcwd a b) k = syscall2 e l r NR_getcwd a b k"
| "ustub e l r (U_openat a b c d) k = syscall4 e l r NR_openat a b c d k"
| "ustub e l r (U_mkdirat a b c) k = syscall3 e l r NR_mkdirat a b c k"
| "ustub e l r U_printdir k = syscall0 e l r NR_printdir k"

end
