(* ===== verification/Walk.thy ===== *)
theory Walk
  imports Path
begin

text \<open>
  What fs/dir.c does with entries that are in memory: the search of a directory, the walk of \<open>parse_path\<close>, the way
  up of \<open>get_path\<close>, and \<open>sys_getcwd\<close>. \<open>tree\<close> is the invariant of the cached entries; \<open>lookup\<close> is what a
  path means in the tree of names, the specification that \<open>parse_path\<close> refines.
\<close>

section \<open>The cached tree\<close>

text \<open>\<open>N\<close> gives the names of the entries \<open>D\<close>; every entry that the code reaches from \<open>D\<close> is in \<open>D\<close>.\<close>

definition tree :: "(nat \<Rightarrow> u8 list) \<Rightarrow> nat set \<Rightarrow> 'a fsys_scheme \<Rightarrow> bool" where
  "tree N D k \<longleftrightarrow> (\<forall>d \<in> D. cstr (fmem k) (d_fname d) (N d) \<and> length (N d) \<le> MAX_FILE_NAME_LEN \<and>
     d_parent (dentries k d) \<in> D \<and> set (d_subdirs (dentries k d)) \<subseteq> D)"

definition lookup1 :: "(nat \<Rightarrow> u8 list) \<Rightarrow> (nat \<Rightarrow> dentry) \<Rightarrow> nat \<Rightarrow> u8 list \<Rightarrow> nat option" where
  "lookup1 N ds d xs = (if xs = [0x2e] then Some d else if xs = [0x2e, 0x2e] then Some (d_parent (ds d))
     else find (\<lambda>c. N c = xs) (d_subdirs (ds d)))"

fun lookup :: "(nat \<Rightarrow> u8 list) \<Rightarrow> (nat \<Rightarrow> dentry) \<Rightarrow> nat \<Rightarrow> u8 list list \<Rightarrow> nat option" where
  "lookup N ds d [] = Some d"
| "lookup N ds d (x # xs) = Option.bind (lookup1 N ds d x) (\<lambda>c. lookup N ds c xs)"

definition comp_ok :: "u8 list \<Rightarrow> bool" where
  "comp_ok xs \<longleftrightarrow> xs \<noteq> [] \<and> 0 \<notin> set xs \<and> 0x2f \<notin> set xs \<and> length xs < 100"

fun join :: "u8 list list \<Rightarrow> u8 list" where
  "join [] = []"
| "join [x] = x"
| "join (x # y # xs) = x @ 0x2f # join (y # xs)"

text \<open>What a walk changes of the state: bytes and the counters of entries.\<close>

definition walked :: "'a fsys_scheme \<Rightarrow> 'a fsys_scheme \<Rightarrow> bool" where
  "walked k k' \<longleftrightarrow> k' = k\<lparr>fmem := fmem k', dentries := dentries k'\<rparr> \<and>
     (\<forall>d. dentries k' d = (dentries k d)\<lparr>d_count := d_count (dentries k' d)\<rparr>)"

lemma walkedD:
  assumes "walked k k'"
  shows "d_parent (dentries k' d) = d_parent (dentries k d)" "d_subdirs (dentries k' d) = d_subdirs (dentries k d)"
    "d_inode (dentries k' d) = d_inode (dentries k d)" "fname_len (dentries k' d) = fname_len (dentries k d)"
    "my_fs k' = my_fs k" "my_files k' = my_files k" "inodes k' = inodes k" "file_table k' = file_table k"
    "file_count k' = file_count k" "current k' = current k" "root_dir k' = root_dir k" "kmem_st k' = kmem_st k" "mmu_state k' = mmu_state k"
    "chan k' = chan k" "drive k' = drive k" "cur_part k' = cur_part k" "task k' = task k" "fss k' = fss k" "filess k' = filess k"
proof -
  obtain m ds where k': "k' = k\<lparr>fmem := m, dentries := ds\<rparr>" using assms unfolding walked_def by blast
  have d: "dentries k' d = (dentries k d)\<lparr>d_count := d_count (dentries k' d)\<rparr>" using assms by (simp add: walked_def)
  show "d_parent (dentries k' d) = d_parent (dentries k d)" "d_subdirs (dentries k' d) = d_subdirs (dentries k d)"
    "d_inode (dentries k' d) = d_inode (dentries k d)" "fname_len (dentries k' d) = fname_len (dentries k d)"
    by (subst d, simp)+
  show "my_fs k' = my_fs k" "my_files k' = my_files k" "inodes k' = inodes k" "file_table k' = file_table k"
    "file_count k' = file_count k" "current k' = current k" "root_dir k' = root_dir k" "kmem_st k' = kmem_st k" "mmu_state k' = mmu_state k"
    "chan k' = chan k" "drive k' = drive k" "cur_part k' = cur_part k" "task k' = task k" "fss k' = fss k" "filess k' = filess k"
    by (simp_all add: k' my_fs_def my_files_def)
qed

lemma walked_mem [simp]: "walked k (k\<lparr>fmem := m\<rparr>)"
  by (simp add: walked_def)

lemma walked_trans:
  assumes "walked a b" "walked b c" shows "walked a c"
proof -
  obtain m ds where b: "b = a\<lparr>fmem := m, dentries := ds\<rparr>" using assms(1) unfolding walked_def by blast
  obtain m' ds' where c: "c = b\<lparr>fmem := m', dentries := ds'\<rparr>" using assms(2) unfolding walked_def by blast
  have "dentries c d = (dentries a d)\<lparr>d_count := d_count (dentries c d)\<rparr>" for d
  proof -
    have "dentries c d = (dentries b d)\<lparr>d_count := d_count (dentries c d)\<rparr>" using assms(2) by (simp add: walked_def)
    moreover have "dentries b d = (dentries a d)\<lparr>d_count := d_count (dentries b d)\<rparr>" using assms(1) by (simp add: walked_def)
    ultimately show ?thesis by (metis dentry.surjective dentry.update_convs(1))
  qed
  then show ?thesis by (simp add: walked_def b c)
qed

lemma lookup1_walked: "walked k k' \<Longrightarrow> lookup1 N (dentries k') d xs = lookup1 N (dentries k) d xs"
  by (simp add: lookup1_def walkedD)

lemma lookup_walked: "walked k k' \<Longrightarrow> lookup N (dentries k') d xs = lookup N (dentries k) d xs"
  by (induction xs arbitrary: d) (simp_all add: lookup1_walked split: bind_split)

lemma tree_walked:
  assumes "tree N D k" "walked k k'" "\<And>d j. d \<in> D \<Longrightarrow> j \<le> MAX_FILE_NAME_LEN \<Longrightarrow> fmem k' (d_fname d + j) = fmem k (d_fname d + j)"
  shows "tree N D k'"
  unfolding tree_def
proof
  fix d assume d: "d \<in> D"
  then have h: "cstr (fmem k) (d_fname d) (N d)" "length (N d) \<le> MAX_FILE_NAME_LEN"
     "d_parent (dentries k d) \<in> D" "set (d_subdirs (dentries k d)) \<subseteq> D" using assms(1) by (auto simp: tree_def)
  have "cstr (fmem k') (d_fname d) (N d) = cstr (fmem k) (d_fname d) (N d)"
    using h(2) assms(3) [OF d] by (intro cstr_cong) simp
  then show "cstr (fmem k') (d_fname d) (N d) \<and> length (N d) \<le> MAX_FILE_NAME_LEN \<and>
     d_parent (dentries k' d) \<in> D \<and> set (d_subdirs (dentries k' d)) \<subseteq> D"
    using h walkedD(1,2) [OF assms(2)] by simp
qed

text \<open>With the length of a whole string \<open>strncmp\<close> tells whether the strings are equal.\<close>

lemma strncmp_whole: "cstr m p xs \<Longrightarrow> cstr m q ys \<Longrightarrow> strncmp m p q (length ys) = 0 \<longleftrightarrow> xs = ys"
proof (induction ys arbitrary: p q xs)
  case Nil
  then show ?case using sint_eq_iff_u8 [of "m p" 0]
    by (subst strncmp.simps) (cases xs; auto simp: cstr_Cons)
next
  case (Cons y ys)
  then have y: "m q = y" "y \<noteq> 0" "cstr m (q + 1) ys" by (simp_all add: cstr_Cons)
  show ?case
  proof (cases "m p = y")
    case True
    then obtain xs' where xs: "xs = y # xs'" "cstr m (p + 1) xs'" using Cons.prems(1) y(2) by (cases xs) (auto simp: cstr_Cons)
    then show ?thesis using Cons.IH [OF xs(2) y(3)] y True by (subst strncmp.simps) simp
  next
    case False
    then have "strncmp m p q (length (y # ys)) = sint (m p) - sint y" using y by (subst strncmp.simps) auto
    moreover have "xs \<noteq> y # ys" using False Cons.prems(1) by (auto simp: cstr_Cons)
    ultimately show ?thesis using False sint_eq_iff_u8 [of "m p" y] by simp
  qed
qed

lemma len16: "length xs < 100 \<Longrightarrow> unat (of_nat (length xs) :: u16) = length xs"
  by (simp add: unat_of_nat)

lemma len16_eq: "length xs < 100 \<Longrightarrow> n < 100 \<Longrightarrow> (of_nat (length xs) :: u16) = of_nat n \<longleftrightarrow> length xs = n"
  using len16 [of xs] by (metis len16 length_replicate)

text \<open>The counters of entries along a walk of \<open>n\<close> components that ends at \<open>d\<close>; \<open>.\<close> and \<open>..\<close> take no reference.\<close>

definition took :: "nat \<Rightarrow> bool \<Rightarrow> nat \<Rightarrow> 'a fsys_scheme \<Rightarrow> 'a fsys_scheme \<Rightarrow> bool" where
  "took n r d k k' \<longleftrightarrow> (\<forall>e. \<exists>m \<le> n. counter (d_count (dentries k' e)) = counter (d_count (dentries k e)) + of_nat m \<and>
     (r \<and> e = d \<longrightarrow> 0 < m))"

definition dots :: "u8 list set" where
  "dots = {[0x2e], [0x2e, 0x2e]}"

lemma took_trans:
  assumes "took n r d k1 k2" "took n' r' d' k2 k3" shows "took (n + n') r' d' k1 k3"
  unfolding took_def
proof
  fix e
  obtain m m' where m: "m \<le> n" "counter (d_count (dentries k2 e)) = counter (d_count (dentries k1 e)) + of_nat m"
    "m' \<le> n'" "counter (d_count (dentries k3 e)) = counter (d_count (dentries k2 e)) + of_nat m'" "r' \<and> e = d' \<longrightarrow> 0 < m'"
    using assms unfolding took_def by metis
  then show "\<exists>m\<le>n + n'. counter (d_count (dentries k3 e)) = counter (d_count (dentries k1 e)) + of_nat m \<and> (r' \<and> e = d' \<longrightarrow> 0 < m)"
    by (intro exI [of _ "m + m'"]) simp
qed

lemma took_same: "dentries k' = dentries k \<Longrightarrow> took n False d k k'"
  by (auto simp: took_def intro: exI [of _ 0])

lemma search_cached:
  fixes k :: "'a fsys_scheme"
  assumes t: "tree N D k" "p \<in> D" and c: "cstr (fmem k) n c" "comp_ok c" and l: "lookup1 N (dentries k) p c = Some d"
  shows "d \<in> D \<and> (\<exists>k'. search_dentry p n (of_nat (length c)) io k = Some (Some d, k') \<and> walked k k' \<and> fmem k' = fmem k \<and>
    took 1 (c \<notin> dots) d k k')"
proof -
  have lc: "length c < 100" "c \<noteq> []" using c(2) by (auto simp: comp_ok_def)
  have p: "d_parent (dentries k p) \<in> D" "set (d_subdirs (dentries k p)) \<subseteq> D" using t by (auto simp: tree_def)
  have first: "fmem k n = hd c" using c(1) lc(2) by (cases c) (auto simp: cstr_Cons)
  have dot: "(of_nat (length c) :: u16) = 1 \<and> fmem k n = 0x2e \<longleftrightarrow> c = [0x2e]"
    using len16_eq [OF lc(1), of 1] first lc(2) by (cases c) auto
  have dd: "(of_nat (length c) :: u16) = 2 \<and> fmem k n = 0x2e \<and> fmem k (n + 1) = 0x2e \<longleftrightarrow> c = [0x2e, 0x2e]"
  proof -
    have "length c = 2 \<longleftrightarrow> (\<exists>x y. c = [x, y])" by (auto simp: numeral_2_eq_2 length_Suc_conv)
    then show ?thesis using len16_eq [OF lc(1), of 2] c(1) by (auto simp: cstr_Cons)
  qed
  consider "c = [0x2e]" | "c = [0x2e, 0x2e]" | "c \<noteq> [0x2e]" "c \<noteq> [0x2e, 0x2e]" by blast
  then show ?thesis
  proof cases
    case 1
    then have "search_dentry p n (of_nat (length c)) io k = Some (Some p, k)" using dot by (simp add: search_dentry_def)
    then show ?thesis using 1 l t(2) took_same [of k k 1 d] by (auto simp: lookup1_def walked_def dots_def)
  next
    case 2
    then have "search_dentry p n (of_nat (length c)) io k = Some (Some (d_parent (dentries k p)), k)"
      using dot dd by (simp add: search_dentry_def)
    then show ?thesis using 2 l p took_same [of k k 1 d] by (auto simp: lookup1_def walked_def dots_def)
  next
    case 3
    have "find (\<lambda>d. strncmp (fmem k) (d_fname d) n (unat (of_nat (length c) :: u16)) = 0) (d_subdirs (dentries k p)) =
      find (\<lambda>d. N d = c) (d_subdirs (dentries k p))"
    proof (rule find_cong [OF refl])
      fix x assume "x \<in> set (d_subdirs (dentries k p))"
      then have "cstr (fmem k) (d_fname x) (N x)" using p(2) t(1) by (auto simp: tree_def)
      from strncmp_whole [OF this c(1)]
      show "(strncmp (fmem k) (d_fname x) n (unat (of_nat (length c) :: u16)) = 0) = (N x = c)" by (simp add: len16 [OF lc(1)])
    qed
    then have f: "cached_child p n (of_nat (length c)) k = Some d" using 3 l by (simp add: cached_child_def lookup1_def)
    moreover have "d \<in> D" using 3 l p(2) by (auto simp: lookup1_def find_Some_iff)
    moreover have "took 1 (c \<notin> dots) d k (set_dentry d ((dentries k d)\<lparr>d_count := atomic_inc (d_count (dentries k d))\<rparr>) k)"
      unfolding took_def
    proof
      fix e
      show "\<exists>m\<le>1. counter (d_count (dentries (set_dentry d ((dentries k d)\<lparr>d_count := atomic_inc (d_count (dentries k d))\<rparr>) k) e)) =
          counter (d_count (dentries k e)) + of_nat m \<and> (c \<notin> dots \<and> e = d \<longrightarrow> 0 < m)"
        by (rule exI [of _ "if e = d then 1 else 0"]) (simp add: set_dentry_def atomic_inc_def incl_def Let_def)
    qed
    ultimately show ?thesis using 3 dot dd
      by (auto simp: search_dentry_def walked_def set_dentry_def)
  qed
qed


lemma sint_slash: "sint (x :: u8) = 0x2f \<longleftrightarrow> x = 0x2f"
  using sint_eq_iff_u8 [of x "0x2f"] by simp

lemma takeWhile_slash: "0x2f \<notin> set c \<Longrightarrow> takeWhile (\<lambda>x. x \<noteq> (0x2f :: u8)) (c @ 0x2f # r) = c"
  "0x2f \<notin> set c \<Longrightarrow> takeWhile (\<lambda>x. x \<noteq> (0x2f :: u8)) c = c"
  by (induction c) auto

lemma cstr_appendD: "cstr m n (xs @ ys) \<Longrightarrow> cstr m (n + length xs) ys"
  by (simp add: cstr_append)

lemma cstr_append_at: "cstr m n (xs @ y # ys) \<Longrightarrow> m (n + length xs) = y"
  using cstr_appendD [of m n xs "y # ys"] by (simp add: cstr_Cons)

lemma strchr_last: "cstr m n c \<Longrightarrow> 0x2f \<notin> set c \<Longrightarrow> strchr m n 0x2f = Some None"
  by (simp add: strchr_def strchr_from_cstr sint_slash takeWhile_slash(2)) (simp add: cstr_def)

lemma strchr_mid: "cstr m n (c @ 0x2f # r) \<Longrightarrow> 0x2f \<notin> set c \<Longrightarrow> strchr m n 0x2f = Some (Some (n + length c))"
  using cstr_append_at [of m n c "0x2f" r] by (simp add: strchr_def strchr_from_cstr sint_slash takeWhile_slash(1))

lemma cstr_cut: "cstr m n (c @ 0x2f # r) \<Longrightarrow> cstr (m(n + length c := 0)) n c" 
  "cstr m n (c @ 0x2f # r) \<Longrightarrow> cstr (m(n + length c := 0)) (n + length c + 1) r"
proof -
  assume c: "cstr m n (c @ 0x2f # r)"
  then show "cstr (m(n + length c := 0)) n c" by (auto simp: cstr_def nth_append)
  have "cstr m (n + length c + 1) r" using cstr_appendD [OF c] by (simp add: cstr_Cons)
  then show "cstr (m(n + length c := 0)) (n + length c + 1) r" by (subst cstr_cong [of _ _ _ m]) simp_all
qed

lemma join_Cons: "cs \<noteq> [] \<Longrightarrow> join (c # cs) = c @ 0x2f # join cs"
  by (cases cs) simp_all

text \<open>Where the last component begins.\<close>

definition last_at :: "nat \<Rightarrow> u8 list list \<Rightarrow> nat" where
  "last_at n cs = n + length (join cs) - length (last cs)"

lemma length_join_last: "cs \<noteq> [] \<Longrightarrow> length (last cs) \<le> length (join cs)"
  by (induction cs rule: join.induct) auto

lemma walk_cached:
  fixes k :: "'a fsys_scheme"
  assumes "tree N D k" "p \<in> D" "cs \<noteq> []" "\<forall>c \<in> set cs. comp_ok c" "cstr (fmem k) n (join cs)"
    "\<forall>d \<in> D. \<forall>j \<le> MAX_FILE_NAME_LEN. d_fname d + j < n \<or> n + length (join cs) < d_fname d + j"
    "lookup N (dentries k) p cs = Some d"
  shows "\<exists>k' q. lookup N (dentries k) p (butlast cs) = Some q \<and>
    path_walk p0 (Some p) cur (Some n) l io k =
      Some (\<lparr>sr_parent = q, sr_child = Some d, sr_curdir = last_at n cs, sr_curdir_len = of_nat (length (last cs)), sr_nextdir = None\<rparr>, k') \<and>
    walked k k' \<and> (\<forall>a. a < n \<or> n + length (join cs) \<le> a \<longrightarrow> fmem k' a = fmem k a) \<and> took (length cs) (last cs \<notin> dots) d k k'"
  using assms
proof (induction cs arbitrary: p0 p cur n l k)
  case (Cons c cs)
  have ck: "comp_ok c" "0x2f \<notin> set c" "c \<noteq> []" "length c < 100" using Cons.prems(4) by (simp_all add: comp_ok_def)
  have nz: "fmem k n \<noteq> 0" using Cons.prems(5) ck(3) by (cases cs; cases c) (auto simp: cstr_Cons join_Cons)
  obtain t where t: "lookup1 N (dentries k) p c = Some t" "lookup N (dentries k) t cs = Some d"
    using Cons.prems(7) by (auto simp: bind_eq_Some_conv)
  show ?case
  proof (cases "cs = []")
    case True
    then have c: "cstr (fmem k) n c" using Cons.prems(5) by simp
    obtain k' where k': "search_dentry p n (of_nat (length c)) io k = Some (Some t, k')" "walked k k'" "fmem k' = fmem k"
        "took 1 (c \<notin> dots) t k k'"
      using search_cached [OF Cons.prems(1,2) c ck(1) t(1)] by blast
    have "strlen n (fmem k) = of_nat (length c)" using strlen_from_cstr [of "fmem k" n 0 c] c ck(4) by (simp add: strlen_def)
    moreover have "(ucast (of_nat (length c) :: u32) :: u16) = of_nat (length c)"
      using ck(4) by (simp add: unsigned_of_nat take_bit_nat_eq_self)
    ultimately have "path_step p n io k = Some (Some t, None, of_nat (length c), k')"
      using strchr_last [OF c ck(2)] k'(1) by (simp add: path_step_def)
    then show ?thesis using nz True t(2) k'(2,3,4)
      by (subst path_walk.simps, simp) (subst path_walk.simps, simp add: last_at_def)
  next
    case False
    define s where "s = n + length c"
    define k1 where "k1 = k\<lparr>fmem := (fmem k)(s := 0)\<rparr>"
    have j: "join (c # cs) = c @ 0x2f # join cs" using False by (rule join_Cons)
    note str = Cons.prems(5) [unfolded j]
    have w1: "walked k k1" by (simp add: k1_def)
    have sep: "d_fname e + i < n \<or> n + length c + 1 + length (join cs) < d_fname e + i" if "e \<in> D" "i \<le> MAX_FILE_NAME_LEN" for e i
      using Cons.prems(6) that by (simp add: j add.assoc)
    have t1: "tree N D k1"
      by (rule tree_walked [OF Cons.prems(1) w1]) (use sep in \<open>force simp: k1_def s_def\<close>)
    have c1: "cstr (fmem k1) n c" using cstr_cut(1) [OF str] by (simp add: k1_def s_def)
    have l1: "lookup1 N (dentries k1) p c = Some t" using t(1) by (simp add: k1_def)
    obtain k2 where k2: "t \<in> D" "search_dentry p n (of_nat (length c)) io k1 = Some (Some t, k2)" "walked k1 k2" "fmem k2 = fmem k1"
        "took 1 (c \<notin> dots) t k1 k2"
      using search_cached [OF t1 Cons.prems(2) c1 ck(1) l1] by blast
    have step: "path_step p n io k = Some (Some t, Some (s + 1), of_nat (length c), k2)"
      using strchr_mid [OF str ck(2)] k2(2) by (simp add: path_step_def k1_def s_def)
    have w2: "walked k k2" using w1 k2(3) by (rule walked_trans)
    have t2: "tree N D k2" by (rule tree_walked [OF t1 k2(3)]) (simp add: k2(4))
    have c2: "cstr (fmem k2) (s + 1) (join cs)" using cstr_cut(2) [OF str] by (simp add: k2(4) k1_def s_def)
    have sep2: "\<forall>d \<in> D. \<forall>j \<le> MAX_FILE_NAME_LEN. d_fname d + j < s + 1 \<or> s + 1 + length (join cs) < d_fname d + j"
      using sep by (force simp: s_def)
    have l2: "lookup N (dentries k2) t cs = Some d" using t(2) lookup_walked [OF w2] by simp
    have ok2: "\<forall>c \<in> set cs. comp_ok c" using Cons.prems(4) by simp
    obtain k' q where k': "lookup N (dentries k2) t (butlast cs) = Some q"
      "path_walk p (Some t) n (Some (s + 1)) (of_nat (length c)) io k2 =
        Some (\<lparr>sr_parent = q, sr_child = Some d, sr_curdir = last_at (s + 1) cs, sr_curdir_len = of_nat (length (last cs)), sr_nextdir = None\<rparr>, k')"
      "walked k2 k'" "\<And>a. a < s + 1 \<or> s + 1 + length (join cs) \<le> a \<Longrightarrow> fmem k' a = fmem k2 a"
      "took (length cs) (last cs \<notin> dots) d k2 k'"
      using Cons.IH [OF t2 k2(1) False ok2 c2 sep2 l2, of p n "of_nat (length c)"] by blast
    have "last_at (s + 1) cs = last_at n (c # cs)" using False by (simp add: last_at_def j s_def)
    moreover have "path_walk p0 (Some p) cur (Some n) l io k = path_walk p (Some t) n (Some (s + 1)) (of_nat (length c)) io k2"
      using nz step by (subst path_walk.simps) simp
    moreover have "lookup N (dentries k) p (butlast (c # cs)) = Some q"
      using False t(1) k'(1) lookup_walked [OF w2] by simp
    moreover have "fmem k' a = fmem k a" if "a < n \<or> n + length (join (c # cs)) \<le> a" for a
      using that k'(4) [of a] by (auto simp: k2(4) k1_def j s_def)
    moreover have "took (length (c # cs)) (last (c # cs) \<notin> dots) d k k'"
      using took_trans [OF took_trans [OF took_same [of k1 k 0 t] k2(5)] k'(5)] False by (simp add: k1_def)
    ultimately show ?thesis using False k'(2) walked_trans [OF w2 k'(3)] by auto
  qed
qed simp

lemma my_simps [simp]:
  "my_fs (k\<lparr>kmem_st := m\<rparr>) = my_fs k" "my_files (k\<lparr>kmem_st := m\<rparr>) = my_files k"
  "my_fs (k\<lparr>fmem := f\<rparr>) = my_fs k" "my_files (k\<lparr>fmem := f\<rparr>) = my_files k"
  "my_fs (k\<lparr>dentries := d\<rparr>) = my_fs k" "my_files (k\<lparr>dentries := d\<rparr>) = my_files k"
  by (simp_all add: my_fs_def my_files_def)

section \<open>The way up\<close>

text \<open>\<open>es\<close>: the entry and the directories above it, up to below the root.\<close>

fun up_chain :: "(nat \<Rightarrow> dentry) \<Rightarrow> nat \<Rightarrow> nat list \<Rightarrow> bool" where
  "up_chain ds d [] \<longleftrightarrow> d_parent (ds d) = d"
| "up_chain ds d (e # es) \<longleftrightarrow> e = d \<and> d_parent (ds d) \<noteq> d \<and> up_chain ds (d_parent (ds d)) es"

definition path_of :: "(nat \<Rightarrow> u8 list) \<Rightarrow> nat list \<Rightarrow> u8 list" where
  "path_of N es = (if es = [] then [0x2f] else concat (map (\<lambda>e. 0x2f # N e) (rev es)))"

definition named :: "(nat \<Rightarrow> u8 list) \<Rightarrow> mem \<Rightarrow> (nat \<Rightarrow> dentry) \<Rightarrow> nat \<Rightarrow> bool" where
  "named N m ds d \<longleftrightarrow> d_bytes m d (length (N d)) = N d \<and> unat (fname_len (ds d)) = length (N d)"

lemma writes_above: "a < p \<Longrightarrow> writes m p xs a = m a" "p + length xs \<le> a \<Longrightarrow> writes m p xs a = m a"
  by (auto simp: writes_def)

lemma d_bytes_cong: "(\<And>j. j < n \<Longrightarrow> m' (d_fname d + j) = m (d_fname d + j)) \<Longrightarrow> d_bytes m' d n = d_bytes m d n"
  by (simp add: d_bytes_def)

lemma get_path_up_chain:
  assumes "up_chain ds d es" "\<forall>e \<in> set es. named N m ds e"
    and "n = length (concat (map (\<lambda>e. 0x2f # N e) (rev es)))" "n \<le> b"
    and "\<forall>e \<in> set es. \<forall>j < length (N e). d_fname e + j < b - n \<or> b \<le> d_fname e + j"
  shows "\<exists>m'. get_path_up ds d (b, len, m) = Some (b - n, len - int n, m') \<and>
    (\<forall>j < n. m' (b - n + j) = concat (map (\<lambda>e. 0x2f # N e) (rev es)) ! j) \<and>
    (\<forall>a. a < b - n \<or> b \<le> a \<longrightarrow> m' a = m a)"
  using assms
proof (induction es arbitrary: d n b len m)
  case Nil
  then show ?case by (subst get_path_up.simps) simp
next
  case (Cons e es)
  define c where "c = length (N d)"
  define n1 where "n1 = length (concat (map (\<lambda>e. 0x2f # N e) (rev es)))"
  have ed: "e = d" "d_parent (ds d) \<noteq> d" "up_chain ds (d_parent (ds d)) es" using Cons.prems(1) by simp_all
  have n: "n = n1 + Suc c" using Cons.prems(3) by (simp add: n1_def c_def ed)
  have nd: "d_bytes m d c = N d" "unat (fname_len (ds d)) = c" using Cons.prems(2) ed by (simp_all add: named_def c_def)
  define b1 where "b1 = b - c - 1"
  define m1 where "m1 = writes (writes m (b - c) (N d)) b1 [0x2f]"
  have b1: "b1 = b - Suc c" "n1 \<le> b1" "b1 - n1 = b - n" "Suc c \<le> b" using Cons.prems(4) n by (simp_all add: b1_def)
  have m1: "m1 a = (if b1 \<le> a \<and> a < b then (0x2f # N d) ! (a - b1) else m a)" for a
  proof -
    have "b - c = Suc b1" using b1 by simp
    then show ?thesis using b1(1,4) by (auto simp: m1_def writes_def c_def nth_Cons' Suc_diff_Suc not_less less_Suc_eq)
  qed
  have step: "prepend (prepend (b, len, m) (d_bytes m d c)) [0x2f] = (b1, len - int (Suc c), m1)"
    using nd by (simp add: prepend_def b1_def m1_def c_def)
  have nm: "\<forall>e \<in> set es. named N m1 ds e"
  proof
    fix f assume f: "f \<in> set es"
    then have "named N m ds f" "\<forall>j < length (N f). d_fname f + j < b - n \<or> b \<le> d_fname f + j"
      using Cons.prems(2,5) by simp_all
    moreover from this(2) have "d_bytes m1 f (length (N f)) = d_bytes m f (length (N f))"
      by (intro d_bytes_cong) (use b1 n in \<open>auto simp: m1\<close>)
    ultimately show "named N m1 ds f" by (simp add: named_def)
  qed
  have sep: "\<forall>e \<in> set es. \<forall>j < length (N e). d_fname e + j < b1 - n1 \<or> b1 \<le> d_fname e + j"
    using Cons.prems(5) b1 n by fastforce
  from Cons.IH [OF ed(3) nm n1_def b1(2) sep, of "len - int (Suc c)"] obtain m' where
    m': "get_path_up ds (d_parent (ds d)) (b1, len - int (Suc c), m1) = Some (b1 - n1, len - int (Suc c) - int n1, m')"
    "\<And>j. j < n1 \<Longrightarrow> m' (b1 - n1 + j) = concat (map (\<lambda>e. 0x2f # N e) (rev es)) ! j"
    "\<And>a. a < b1 - n1 \<or> b1 \<le> a \<Longrightarrow> m' a = m1 a" by blast
  have "get_path_up ds d (b, len, m) = Some (b - n, len - int n, m')"
    using ed(2) m'(1) step nd(2) b1(3) n by (subst get_path_up.simps) simp
  moreover have "m' (b - n + j) = concat (map (\<lambda>e. 0x2f # N e) (rev (e # es))) ! j" if "j < n" for j
  proof (cases "j < n1")
    case True
    then show ?thesis using m'(2) b1(3) by (simp add: nth_append n1_def)
  next
    case False
    then obtain x where x: "j = n1 + x" by (metis le_add_diff_inverse not_less)
    have "b - n + j = b1 + x" "b1 + x < b" using that x n b1(1,2,4) by linarith+
    moreover have "m' (b1 + x) = m1 (b1 + x)" using m'(3) by simp
    ultimately have "m' (b - n + j) = (0x2f # N d) ! x" using m1 [of "b1 + x"] by simp
    then show ?thesis by (simp add: nth_append ed n1_def [symmetric] x)
  qed
  moreover have "m' a = m a" if "a < b - n \<or> b \<le> a" for a
  proof -
    have "a < b1 - n1 \<or> b1 \<le> a" "\<not> (b1 \<le> a \<and> a < b)" using that b1 n by linarith+
    then show ?thesis using m'(3) [of a] by (auto simp: m1)
  qed
  ultimately show ?case by auto
qed


text \<open>What \<open>get_path\<close> leaves at the end of the buffer.\<close>

lemma get_path_text:
  assumes "up_chain ds d es" "\<forall>e \<in> set es. named N m ds e" "n = length (path_of N es)" "n \<le> b"
    and "\<forall>e \<in> set es. \<forall>j < length (N e). d_fname e + j < b - n \<or> b \<le> d_fname e + j"
  shows "\<exists>m'. get_path ds d (b, len, m) = Some (b - n, len - int n, m') \<and>
    (\<forall>j < n. m' (b - n + j) = path_of N es ! j) \<and> (\<forall>a. a < b - n \<or> b \<le> a \<longrightarrow> m' a = m a)"
proof (cases "es = []")
  case True
  then have "d_parent (ds d) = d" "n = 1" using assms(1,3) by (simp_all add: path_of_def)
  then show ?thesis using True assms(4) by (auto simp: get_path_def prepend_def path_of_def writes_def)
next
  case False
  then have "d_parent (ds d) \<noteq> d" using assms(1) by (cases es) auto
  moreover have "path_of N es = concat (map (\<lambda>e. 0x2f # N e) (rev es))" using False by (simp add: path_of_def)
  ultimately show ?thesis using get_path_up_chain [OF assms(1,2) _ assms(4,5)] assms(3) by (simp add: get_path_def)
qed

lemma path_of_nonempty: "0 < length (path_of N es)"
proof (cases "es = []")
  case False
  then show ?thesis by (cases es rule: rev_cases) (simp_all add: path_of_def)
qed (simp add: path_of_def)

lemma getcwd_run:
  fixes k :: "'a fsys_scheme"
  assumes up: "up_chain (dentries k) (cwd (my_fs k)) es" "\<forall>e \<in> set es. named N (fmem k) (dentries k) e"
    and len: "n = length (path_of N es)" "n \<le> MAX_PATH_LEN" "0 < sz" "sz \<le> 0x7fffffff"
    and blk: "kmalloc_fs 128 k = Some (path, k1)" "k1 = k\<lparr>kmem_st := km\<rparr>" "KERNEL_VADDR_START \<le> path"
    and sep: "\<forall>e \<in> set es. \<forall>j < length (N e). d_fname e + j < path \<or> path + 128 \<le> d_fname e + j"
  shows "\<exists>m'. (\<forall>km2. kfree_fs path (k1\<lparr>fmem := m'\<rparr>) = Some (k1\<lparr>fmem := m', kmem_st := km2\<rparr>) \<longrightarrow>
      sys_getcwd dest sz k = Some (int (min (unat sz) (n + 1)), k\<lparr>fmem := m', kmem_st := km2\<rparr>)) \<and>
    bytes_at m' dest (min (unat sz) (n + 1)) = (if n + 1 \<le> unat sz then path_of N es @ [0] else take (unat sz - 1) (path_of N es) @ [0]) \<and>
    (\<forall>a < KERNEL_VADDR_START. \<not> (dest \<le> a \<and> a < dest + min (unat sz) (n + 1)) \<longrightarrow> m' a = fmem k a) \<and>
    (\<forall>a. \<not> (dest \<le> a \<and> a < dest + min (unat sz) (n + 1)) \<longrightarrow> \<not> (path \<le> a \<and> a < path + 128) \<longrightarrow> m' a = fmem k a)"
proof -
  define b where "b = path + 127"
  define m0 where "m0 = (fmem k)(b := 0)"
  have n: "n \<le> 127" "0 < n" "n \<le> b" using len(1,2) path_of_nonempty [of N es] by (simp_all add: MAX_PATH_LEN_def b_def)
  have pre: "prepend (path + MAX_PATH_LEN + 1, int (MAX_PATH_LEN + 1), fmem k) [0] = (b, 127, m0)"
    by (simp add: prepend_def MAX_PATH_LEN_def b_def m0_def writes_def fun_eq_iff)
  have nm: "\<forall>e \<in> set es. named N m0 (dentries k) e"
  proof
    fix e assume e: "e \<in> set es"
    then have "d_bytes m0 e (length (N e)) = d_bytes (fmem k) e (length (N e))"
      using sep by (intro d_bytes_cong) (force simp: m0_def b_def)
    then show "named N m0 (dentries k) e" using up(2) e by (simp add: named_def)
  qed
  have "\<forall>e \<in> set es. \<forall>j < length (N e). d_fname e + j < b - n \<or> b \<le> d_fname e + j"
    using sep n by (fastforce simp: b_def)
  from get_path_text [OF up(1) nm len(1) n(3) this, of 127] obtain m1 where
    m1: "get_path (dentries k) (cwd (my_fs k)) (b, 127, m0) = Some (b - n, 127 - int n, m1)"
    "\<And>j. j < n \<Longrightarrow> m1 (b - n + j) = path_of N es ! j" "\<And>a. a < b - n \<or> b \<le> a \<Longrightarrow> m1 a = m0 a" by blast
  have k1: "dentries k1 = dentries k" "my_fs k1 = my_fs k" "fmem k1 = fmem k" by (simp_all add: blk(2) my_fs_def)
  define c where "c = min (unat sz) (n + 1)"
  define m2 where "m2 = (if unat sz < n + 1 then m1(b - n + unat sz - 1 := 0) else m1)"
  define m3 where "m3 = memcpy dest (b - n) c m2"
  have w: "(word_of_int (int n + 1) :: u32) = of_nat (n + 1)" by simp
  have lt: "sz < word_of_int (int n + 1) \<longleftrightarrow> unat sz < n + 1"
    unfolding w word_less_nat_alt using n(1) by (subst unat_of_nat) simp
  have s: "unat sz < 2 ^ 31" using len(4) by (simp add: word_le_nat_alt)
  then have "uint sz < 2 ^ 31" by (metis of_nat_less_iff of_nat_numeral of_nat_power of_nat_unat)
  then have "sint sz = uint sz" by (simp add: sint_uint) (rule signed_take_bit_int_eq_self, simp_all add: order_trans [OF _ uint_ge_0])
  then have s: "sint sz = int (unat sz)" "0 < unat sz" using len(3) by (simp_all add: word_less_nat_alt)
  define u where "u = unat sz"
  note s = s [folded u_def]
  have c: "c \<le> 128" using n(1) by (simp add: c_def)
  have run: "sys_getcwd dest sz k = Some (int c, k\<lparr>fmem := m3, kmem_st := km2\<rparr>)"
    if fr: "kfree_fs path (k1\<lparr>fmem := m3\<rparr>) = Some (k1\<lparr>fmem := m3, kmem_st := km2\<rparr>)" for km2
  proof (cases "u < n + 1")
    case True
    have "nat (int (b - n) + int u - 1) = b - n + u - 1" using s(2) by linarith
    moreover have "c = u" "m2 = m1(b - n + u - 1 := 0)" using True by (simp_all add: c_def m2_def u_def)
    moreover have "sz < 1 + of_nat n" using True lt by (simp add: u_def add.commute)
    moreover have "unat sz = u" "unat (of_nat u :: u32) = u" by (simp_all add: u_def)
    ultimately show ?thesis using blk(1) m1(1) fr pre s(1)
      by (simp add: sys_getcwd_def MAX_PATH_LEN_def k1 copy_to_user_def m3_def blk(2))
  next
    case False
    have "unat (1 + of_nat n :: u32) = n + 1" using n(1) w by (simp add: unat_word_ariths unat_of_nat)
    moreover have "c = n + 1" "m2 = m1" using False by (simp_all add: c_def m2_def u_def)
    moreover have "\<not> sz < 1 + of_nat n" using False lt by (simp add: u_def add.commute)
    ultimately show ?thesis using blk(1) m1(1) fr pre
      by (simp add: sys_getcwd_def MAX_PATH_LEN_def k1 copy_to_user_def m3_def blk(2))
  qed
  have src: "KERNEL_VADDR_START \<le> b - n" using blk(3) n by (simp add: b_def)
  have m3: "m3 a = (if dest \<le> a \<and> a < dest + c then m2 (b - n + (a - dest)) else m2 a)" for a
    by (simp add: m3_def memcpy_correct)
  have out: "m2 a = fmem k a" if "\<not> (path \<le> a \<and> a < path + 128)" for a
  proof -
    have "a < b - n \<or> b < a" "unat sz < n + 1 \<Longrightarrow> a \<noteq> b - n + unat sz - 1" using that n s(2) by (auto simp: u_def b_def)
    then show ?thesis using m1(3) [of a] by (auto simp: m2_def m0_def)
  qed
  then have low: "m2 a = fmem k a" if "a < KERNEL_VADDR_START" for a
    using blk(3) that by simp
  have "bytes_at m3 dest c = map (\<lambda>j. m2 (b - n + j)) [0..<c]" by (simp add: bytes_at_def m3)
  also have "\<dots> = (if n + 1 \<le> unat sz then path_of N es @ [0] else take (unat sz - 1) (path_of N es) @ [0])"
  proof (rule nth_equalityI)
    show "length (map (\<lambda>j. m2 (b - n + j)) [0..<c]) =
      length (if n + 1 \<le> unat sz then path_of N es @ [0] else take (unat sz - 1) (path_of N es) @ [0])"
      using len(1) s(2) by (auto simp: c_def u_def)
    fix j assume "j < length (map (\<lambda>j. m2 (b - n + j)) [0..<c])"
    then have j: "j < c" by simp
    show "map (\<lambda>j. m2 (b - n + j)) [0..<c] ! j =
      (if n + 1 \<le> unat sz then path_of N es @ [0] else take (unat sz - 1) (path_of N es) @ [0]) ! j"
    proof (cases "j + 1 = c")
      case True
      then show ?thesis using len(1) n m1(3) [of b] by (auto simp: c_def m2_def m0_def nth_append)
    next
      case False
      then have "j + 1 < c" "j < n" using j by (auto simp: c_def)
      then show ?thesis using len(1) m1(2) [of j] by (auto simp: c_def m2_def nth_append)
    qed
  qed
  finally show ?thesis using run m3 low out by (intro exI [of _ m3]) (auto simp: c_def)
qed

section \<open>Blocks\<close>

text \<open>A block keeps its room while others are taken.\<close>

lemma kmalloc_room:
  assumes inv: "kmem_inv k km A" and sz: "sz \<le> MAX_BLOCK_SIZE" and al: "kmalloc k km sz = Some (a, k', km')" and q: "q \<in> live km"
  shows "room km' q = room km q"
proof -
  define idx where "idx = find_class (unat sz) 0"
  have "unat sz \<le> 2032" using sz by (simp add: MAX_BLOCK_SIZE_def word_le_nat_alt)
  then have i: "idx < 7" using find_class_small by (simp add: idx_def)
  note eq = kmalloc_small_eq [OF sz idx_def]
  define P where "P = q div PG_SIZE * PG_SIZE"
  have "mlist_idx (desc km' P) = mlist_idx (desc km P)"
  proof (cases "mblock_part km idx = []")
    case False
    from kmalloc_part_case [OF inv i(1) False] obtain p km1 where
      p: "kmalloc_part km idx = (p, km1)" "block_list (desc km1 p) \<noteq> []" by blast
    then have "km' = pop_first p km1" using eq(3) [where k = k, OF False p] al by simp
    moreover have "mlist_idx (desc km1 P) = mlist_idx (desc km P)"
      using p(1) by (auto simp: kmalloc_part_def set_desc_def Let_def split: if_splits)
    ultimately show ?thesis by (auto simp: pop_first_def set_desc_def)
  next
    case True
    define k0 where "k0 = k\<lparr>eflags := set_if INTR_OFF (eflags k)\<rparr>"
    have inv0: "kmem_inv k0 km A" using inv by (simp add: k0_def kmem_inv_def)
    have bi: "buddy_inv k0 (bd km) A" using inv0 by (simp add: kmem_inv_def)
    obtain x where x: "kmalloc_new k0 km idx = Some x" using eq(1) [where k = k, OF True] al by (cases "kmalloc_new k0 km idx") (auto simp: k0_def)
    then have "alloc_pages k0 (bd km) KERNEL_POOL 0 \<noteq> None"
      by (cases "alloc_pages k0 (bd km) KERNEL_POOL 0") (simp_all add: kmalloc_new_def get_free_page_def)
    have pool: "\<exists>j \<le> MAX_ORDER. pg_list (kernel_area (bd km) j) \<noteq> []"
    proof (rule ccontr)
      assume no: "\<not> ?thesis"
      from alloc_pages_case(1) [OF bi, of 0 "kernel_area (bd km)" KERNEL_POOL] no
      have "alloc_pages k0 (bd km) KERNEL_POOL 0 = None" by (auto simp: KERNEL_POOL_def)
      then show False using \<open>alloc_pages k0 (bd km) KERNEL_POOL 0 \<noteq> None\<close> by simp
    qed
    from alloc_pages_case(2) [OF bi, of 0 "kernel_area (bd km)" KERNEL_POOL] pool
    obtain pg b where pg: "alloc_pages k0 (bd km) KERNEL_POOL 0 = Some (pg, k0, b)" "\<forall>b \<in> A. blk b \<inter> blk (0, pg) = {}"
      by (auto simp: KERNEL_POOL_def)
    from kmalloc_new_case [OF inv0 i True pool] obtain p km1 where
      p: "kmalloc_new k0 km idx = Some (p, k0, km1)" "block_list (desc km1 p) \<noteq> []" by blast
    have "p = page_addr pg" using p(1) pg(1) by (auto simp: kmalloc_new_def get_free_page_def page_addr_def)
    moreover obtain j qg where "j < 7" "page_addr qg \<in> class_pages km j" "q \<in> blocks_of j (page_addr qg)" "(0, qg) \<in> A"
      using live_blockE [OF inv q] by metis
    then have "P = page_addr qg" "(0, qg) \<in> A"
      using page_base_of [OF class_page_ok [OF inv]] by (auto simp: P_def)
    ultimately have "P \<noteq> p" using fresh_block_notin [OF pg(2)] by auto
    moreover have "km' = pop_first p km1" using eq(2) [OF True p(1) [unfolded k0_def] p(2)] al by simp
    ultimately show ?thesis using p(1) pg(1)
      by (auto simp: pop_first_def set_desc_def kmalloc_new_def get_free_page_def)
  qed
  then show ?thesis by (simp add: room_def P_def)
qed

text \<open>A small block as the callers of \<open>kmalloc\<close> use it: taken, apart from every block in use, and given back.\<close>

lemma small_block:
  fixes k :: "'a fsys_scheme"
  assumes good: "kmem_good k" "current k \<noteq> NULL" and sz: "sz \<le> MAX_BLOCK_SIZE" and al: "kmalloc k (kmem_st k) sz \<noteq> None"
  obtains p m where "kmalloc_fs sz k = Some (p, k\<lparr>kmem_st := m\<rparr>)" "KERNEL_VADDR_START \<le> p" "kmem_good (k\<lparr>kmem_st := m\<rparr>)"
    "live m = insert p (live (kmem_st k))" "p \<notin> live (kmem_st k)" "{p..<p + unat sz} \<subseteq> room m p"
    "\<forall>q \<in> live (kmem_st k). room m q = room (kmem_st k) q \<and> room m q \<inter> {p..<p + unat sz} = {}"
proof -
  obtain A where A: "kmem_inv k (kmem_st k) A" using good(1) by (auto simp: kmem_good_def)
  from kmalloc_small_case [OF A sz] al obtain p m A' idx pg where
    m: "kmalloc k (kmem_st k) sz = Some (p, k, m)" "kmem_inv k m A'" "p \<notin> live (kmem_st k)"
      "live m = insert p (live (kmem_st k))" "idx < 7" "unat sz \<le> mem_block_size idx" "p \<in> blocks_of idx pg" "pg \<in> class_pages m idx"
      "pg_cnt (bd m) = pg_cnt (bd (kmem_st k))" by blast
  have "page_ok m A' idx pg" by (rule class_page_ok [OF m(2,5,8)])
  then have b: "KERNEL_VADDR_START \<le> p" using m(7) by (auto simp: page_ok_def page_addr_def blocks_of_def)
  have g: "kmem_good (k\<lparr>kmem_st := m\<rparr>)"
    using m(2,9) good kmem_inv_cong [of "k\<lparr>kmem_st := m\<rparr>" k] by (auto simp: kmem_good_def)
  have r: "{p..<p + unat sz} \<subseteq> room m p" using room_eq [OF m(2,5,8,7)] m(6) by auto
  have d: "room m q = room (kmem_st k) q \<and> room m q \<inter> {p..<p + unat sz} = {}" if q: "q \<in> live (kmem_st k)" for q
    using kmalloc_room [OF A sz m(1) q] rooms_disjoint [OF m(2), of q p] q m(3,4) r by blast
  have "kmalloc_fs sz k = Some (p, k\<lparr>kmem_st := m\<rparr>)" using m(1) by (simp add: kmalloc_fs_def)
  then show thesis using that [OF _ b g m(4,3) r] d by blast
qed

lemma block_free:
  fixes k :: "'a fsys_scheme"
  assumes "kmem_good k" "current k \<noteq> NULL" "p \<in> live (kmem_st k)"
  obtains m where "kfree_fs p k = Some (k\<lparr>kmem_st := m\<rparr>)" "kmem_good (k\<lparr>kmem_st := m\<rparr>)" "live m = live (kmem_st k) - {p}"
proof -
  obtain A where A: "kmem_inv k (kmem_st k) A" and dm: "direct_map (mmu_state k) (pg_cnt (bd (kmem_st k)))"
    using assms(1) by (auto simp: kmem_good_def)
  from kfree_case [OF A dm assms(3)] obtain m B where
    f: "kfree k (kmem_st k) (mmu_state k) p = Some (k, m)" "kmem_inv k m B" "live m = live (kmem_st k) - {p}" "pg_cnt (bd m) = pg_cnt (bd (kmem_st k))"
    by auto
  have "kmem_good (k\<lparr>kmem_st := m\<rparr>)"
    using f(2,4) dm assms(2) kmem_inv_cong [of "k\<lparr>kmem_st := m\<rparr>" k] by (auto simp: kmem_good_def)
  then show thesis using f(1,3) that [of m] by (simp add: kfree_fs_def)
qed

lemma kmem_good_cong: "kmem_st k' = kmem_st k \<Longrightarrow> mmu_state k' = mmu_state k \<Longrightarrow> current k' \<noteq> NULL \<Longrightarrow> current k \<noteq> NULL \<Longrightarrow> kmem_good k' = kmem_good k"
  using kmem_inv_cong [of k' k] by (simp add: kmem_good_def)

text \<open>A small block from an allocator with two pages left, which leaves one.\<close>

lemma small_again:
  assumes inv: "kmem_inv k km A" and sz: "sz \<le> MAX_BLOCK_SIZE" and two: "2 \<le> card (unused A km)"
  obtains p m A' where "kmalloc k km sz = Some (p, k, m)" "kmem_inv k m A'" "p \<notin> live km" "live m = insert p (live km)"
    "\<exists>j \<le> MAX_ORDER. pg_list (kernel_area (bd m) j) \<noteq> []" "pg_cnt (bd m) = pg_cnt (bd km)"
proof -
  have "\<exists>j \<le> MAX_ORDER. pg_list (kernel_area (bd km) j) \<noteq> []" using pool_not_empty [OF inv] two by simp
  with kmalloc_small_case [OF inv sz] obtain p m A' where m: "kmalloc k km sz = Some (p, k, m)" "kmem_inv k m A'" "p \<notin> live km"
    "live m = insert p (live km)" "pg_cnt (bd m) = pg_cnt (bd km)" "user_start_idx (bd m) = user_start_idx (bd km)"
    "A' = A \<or> (\<exists>pg. A' = insert (0, pg) A)" by blast
  have "unused A m = unused A km" using m(6) by (simp add: unused_def)
  then have "1 \<le> card (unused A' m)" using m(7) two unused_insert [OF m(6), of 1 A] by auto
  then show thesis using that m pool_not_empty [OF m(2)] by blast
qed

lemma live_low:
  assumes "kmem_inv k km A" "a \<in> live km"
  shows "KERNEL_VADDR_START \<le> a" "a + 32 \<le> KERNEL_VADDR_START + 4096 * pg_cnt (bd km)"
proof -
  obtain idx pg where i: "idx < 7" "page_addr pg \<in> class_pages km idx" "a \<in> blocks_of idx (page_addr pg)" "(0, pg) \<in> A"
    using live_blockE [OF assms] by metis
  have "buddy_inv k (bd km) A" "small_mem (bd km)" using assms(1) by (simp_all add: kmem_inv_def)
  then have pg: "pg < pg_cnt (bd km)" using page_index_bound i(4) by blast
  note b = block_in_page [OF i(3,1)]
  have "32 \<le> mem_block_size idx" using i(1) by (auto simp: mem_block_size_def lt7)
  then show "KERNEL_VADDR_START \<le> a" "a + 32 \<le> KERNEL_VADDR_START + 4096 * pg_cnt (bd km)"
    using b pg by (auto simp: page_addr_def PG_SIZE_def)
qed

section \<open>The path of the working directory\<close>

text \<open>An entry lies in a block in use, or elsewhere but not in the block \<open>p\<close> that \<open>sys_getcwd\<close> builds the path in.\<close>

definition entry_at :: "kmem \<Rightarrow> nat \<Rightarrow> nat \<Rightarrow> bool" where
  "entry_at km p d \<longleftrightarrow> d \<in> live km \<and> {d..<d + 64} \<subseteq> room km d \<or> d + 64 \<le> p \<or> p + 128 \<le> d"

lemma getcwd_ok:
  fixes k :: "'a fsys_scheme"
  assumes "up_chain (dentries k) (cwd (my_fs k)) es" "\<forall>e \<in> set es. named N (fmem k) (dentries k) e \<and> length (N e) \<le> MAX_FILE_NAME_LEN"
    and "kmalloc k (kmem_st k) 128 = Some (p, k0, km)" "\<forall>e \<in> set es. entry_at (kmem_st k) p e"
    and "length (path_of N es) \<le> MAX_PATH_LEN" "0 < sz" "sz \<le> 0x7fffffff"
    and "kmem_good k" "current k \<noteq> NULL"
    and "text = path_of N es" "n = min (unat sz) (length text + 1)"
  shows "\<exists>k'. sys_getcwd dest sz k = Some (int n, k') \<and> k' = k\<lparr>fmem := fmem k', kmem_st := kmem_st k'\<rparr> \<and>
    bytes_at (fmem k') dest n = (if length text < unat sz then text @ [0] else take (unat sz - 1) text @ [0]) \<and>
    (\<forall>a < KERNEL_VADDR_START. \<not> (dest \<le> a \<and> a < dest + n) \<longrightarrow> fmem k' a = fmem k a) \<and>
    (\<forall>d. entry_at (kmem_st k) p d \<longrightarrow> dest + n \<le> d \<longrightarrow> (\<forall>j < 64. fmem k' (d + j) = fmem k (d + j))) \<and>
    kmem_good k' \<and> live (kmem_st k') = live (kmem_st k)"
proof -
  have s: "(128 :: u32) \<le> MAX_BLOCK_SIZE" by (simp add: MAX_BLOCK_SIZE_def)
  have al: "kmalloc k (kmem_st k) 128 \<noteq> None" using assms(3) by simp
  obtain km where b: "kmalloc_fs 128 k = Some (p, k\<lparr>kmem_st := km\<rparr>)" "KERNEL_VADDR_START \<le> p" "kmem_good (k\<lparr>kmem_st := km\<rparr>)"
    "live km = insert p (live (kmem_st k))" "p \<notin> live (kmem_st k)"
    "\<forall>q \<in> live (kmem_st k). room km q = room (kmem_st k) q \<and> room km q \<inter> {p..<p + unat (128 :: u32)} = {}"
  proof (rule small_block [OF assms(8,9) s al])
    fix q m assume q: "kmalloc_fs 128 k = Some (q, k\<lparr>kmem_st := m\<rparr>)" "KERNEL_VADDR_START \<le> q" "kmem_good (k\<lparr>kmem_st := m\<rparr>)"
      "live m = insert q (live (kmem_st k))" "q \<notin> live (kmem_st k)"
      "\<forall>x \<in> live (kmem_st k). room m x = room (kmem_st k) x \<and> room m x \<inter> {q..<q + unat (128 :: u32)} = {}"
    have "q = p" using q(1) assms(3) by (simp add: kmalloc_fs_def)
    then show thesis using that [of m] q by blast
  qed
  have apart: "d + 64 \<le> p \<or> p + 128 \<le> d" if "entry_at (kmem_st k) p d" for d
  proof (cases "d \<in> live (kmem_st k) \<and> {d..<d + 64} \<subseteq> room (kmem_st k) d")
    case True
    then have dis: "{d..<d + 64} \<inter> {p..<p + 128} = {}" using b(6) by fastforce
    show ?thesis
    proof (rule ccontr)
      assume "\<not> ?thesis"
      then have "max d p \<in> {d..<d + 64} \<inter> {p..<p + 128}" by auto
      then show False using dis by simp
    qed
  next
    case False
    then show ?thesis using that by (auto simp: entry_at_def)
  qed
  have sep: "\<forall>e \<in> set es. \<forall>j < length (N e). d_fname e + j < p \<or> p + 128 \<le> d_fname e + j"
  proof (intro ballI allI impI)
    fix e j assume e: "e \<in> set es" and j: "j < length (N e)"
    have "length (N e) \<le> 24" using assms(2) e by (simp add: MAX_FILE_NAME_LEN_def)
    then show "d_fname e + j < p \<or> p + 128 \<le> d_fname e + j"
      using j apart [of e] assms(4) e by (auto simp: d_fname_def)
  qed
  have "\<forall>e \<in> set es. named N (fmem k) (dentries k) e" using assms(2) by blast
  from getcwd_run [OF assms(1) this refl assms(5,6,7) b(1) refl b(2) sep, of dest] obtain m' where
    m': "\<And>km2. kfree_fs p (k\<lparr>kmem_st := km, fmem := m'\<rparr>) = Some (k\<lparr>kmem_st := km, fmem := m', kmem_st := km2\<rparr>) \<Longrightarrow>
       sys_getcwd dest sz k = Some (int n, k\<lparr>fmem := m', kmem_st := km2\<rparr>)"
     "bytes_at m' dest n = (if length text + 1 \<le> unat sz then text @ [0] else take (unat sz - 1) text @ [0])"
     "\<forall>a < KERNEL_VADDR_START. \<not> (dest \<le> a \<and> a < dest + n) \<longrightarrow> m' a = fmem k a"
     "\<forall>a. \<not> (dest \<le> a \<and> a < dest + n) \<longrightarrow> \<not> (p \<le> a \<and> a < p + 128) \<longrightarrow> m' a = fmem k a"
    unfolding assms(10,11) by blast
  have keep: "m' (d + j) = fmem k (d + j)" if "entry_at (kmem_st k) p d" "dest + n \<le> d" "j < 64" for d j
    using m'(4) apart [OF that(1)] that(2,3) by auto
  let ?k = "k\<lparr>kmem_st := km, fmem := m'\<rparr>"
  have "kmem_good ?k = kmem_good (k\<lparr>kmem_st := km\<rparr>)" by (rule kmem_good_cong) (simp_all add: assms(9))
  then obtain km2 where f: "kfree_fs p ?k = Some (?k\<lparr>kmem_st := km2\<rparr>)" "kmem_good (?k\<lparr>kmem_st := km2\<rparr>)" "live km2 = live km - {p}"
    using block_free [of ?k p] b(3,4) assms(9) by auto
  then show ?thesis using m'(1) [of km2] m'(2,3) b(4,5) keep
    by (intro exI [of _ "k\<lparr>fmem := m', kmem_st := km2\<rparr>"]) (simp add: Suc_le_eq)
qed

section \<open>A small tree\<close>

text \<open>The root at 0 and its entry \<open>a\<close> at \<open>e\<close>, the working directory; the path /a at 0x2000.\<close>

definition home :: "nat \<Rightarrow> kmem \<Rightarrow> fsys" where
  "home e km = (fsys0 4096)\<lparr>kmem_st := km, fmem := (\<lambda>_. 0)(e + 8 := 0x61, 0x2000 := 0x2f, 0x2001 := 0x61),
     dentries := (\<lambda>_. \<lparr>d_count = \<lparr>counter = 1\<rparr>, d_inode = 7, fname_len = 0, d_parent = 0, d_subdirs = [e]\<rparr>)
       (e := \<lparr>d_count = \<lparr>counter = 1\<rparr>, d_inode = 8, fname_len = 1, d_parent = 0, d_subdirs = []\<rparr>),
     fss := (\<lambda>_. \<lparr>cwd = e, root = 0\<rparr>)\<rparr>"

definition home_name :: "nat \<Rightarrow> nat \<Rightarrow> u8 list" where
  "home_name e = (\<lambda>_. [])(e := [0x61])"

lemma home_simps [simp]:
  "my_fs (home e km) = \<lparr>cwd = e, root = 0\<rparr>" "kmem_st (home e km) = km" "mmu_state (home e km) = mmu32" "current (home e km) = 4096"
  "fmem (home e km) = (\<lambda>_. 0)(e + 8 := 0x61, 0x2000 := 0x2f, 0x2001 := 0x61)"
  "dentries (home e km) = (\<lambda>_. \<lparr>d_count = \<lparr>counter = 1\<rparr>, d_inode = 7, fname_len = 0, d_parent = 0, d_subdirs = [e]\<rparr>)
       (e := \<lparr>d_count = \<lparr>counter = 1\<rparr>, d_inode = 8, fname_len = 1, d_parent = 0, d_subdirs = []\<rparr>)"
  "open_fds (my_files (home e km)) = 0" "file_count (home e km) = (\<lambda>_. \<lparr>counter = 0\<rparr>)"
  by (simp_all add: home_def my_fs_def my_files_def) (simp_all add: fsys0_def tsys.extend_def fsys.defs tsys0_def)

lemma home_tree: "0x3000 \<le> e \<Longrightarrow> tree (home_name e) {0, e} (home e km)"
  by (simp add: tree_def home_name_def d_fname_def MAX_FILE_NAME_LEN_def cstr_Cons)

lemma home_path: "0x3000 \<le> e \<Longrightarrow> cstr (fmem (home e km)) 0x2000 [0x2f, 0x61]"
  by (simp add: cstr_Cons)

lemma home_good: "kmem_inv sys0 km A \<Longrightarrow> pg_cnt (bd km) = 8192 \<Longrightarrow> kmem_good (home e km)"
  using kmem_inv_cong [of "home e km" sys0] mmu32_map by (auto simp: kmem_good_def sys0_def NULL_def)

lemma kmem0_pages: "2 \<le> card (unused {} kmem0)" "pg_cnt (bd kmem0) = 8192" "live kmem0 = {}"
proof -
  have "unused {} kmem0 = {..<2048}" using bd32_inv by (auto simp: unused_def kmem0_def)
  then show "2 \<le> card (unused {} kmem0)" by simp
  show "pg_cnt (bd kmem0) = 8192" using bd32_inv by (simp add: kmem0_def)
  show "live kmem0 = {}" by (simp add: live_def class_pages_def kmem0_def)
qed

definition path_text :: "bool \<Rightarrow> u8 list list \<Rightarrow> u8 list" where
  "path_text absolute cs = (if absolute then [0x2f] else []) @ join cs"

fun chain_root :: "(nat \<Rightarrow> dentry) \<Rightarrow> nat \<Rightarrow> nat list \<Rightarrow> nat" where
  "chain_root ds d [] = d"
| "chain_root ds d (e # es) = chain_root ds (d_parent (ds d)) es"

lemma lookup_append: "lookup N ds d (xs @ [x]) = Option.bind (lookup N ds d xs) (\<lambda>c. lookup1 N ds c x)"
  by (induction xs arbitrary: d) (auto split: bind_split)

lemma lookup_up_chain:
  "up_chain ds d es \<Longrightarrow> \<forall>e \<in> set es. lookup1 N ds (d_parent (ds e)) (N e) = Some e \<Longrightarrow>
   lookup N ds (chain_root ds d es) (map N (rev es)) = Some d"
  by (induction es arbitrary: d) (auto simp: lookup_append)

lemma path_of_join: "es \<noteq> [] \<Longrightarrow> path_of N es = path_text True (map N (rev es))"
proof -
  have "concat (map (\<lambda>x. 0x2f # x) xs) = 0x2f # join xs" if "xs \<noteq> []" for xs
    using that by (induction xs rule: join.induct) auto
  from this [of "map N (rev es)"] show "es \<noteq> [] \<Longrightarrow> path_of N es = path_text True (map N (rev es))"
    by (simp add: path_of_def path_text_def comp_def)
qed

lemma chain_in_tree:
  assumes "tree N D k"
  shows "d \<in> D \<Longrightarrow> up_chain (dentries k) d es \<Longrightarrow> set es \<subseteq> D" "d \<in> D \<Longrightarrow> up_chain (dentries k) d es \<Longrightarrow> chain_root (dentries k) d es \<in> D"
proof -
  have p: "d_parent (dentries k d) \<in> D" if "d \<in> D" for d using assms that by (simp add: tree_def)
  show "d \<in> D \<Longrightarrow> up_chain (dentries k) d es \<Longrightarrow> set es \<subseteq> D" by (induction es arbitrary: d) (use p in auto)
  show "d \<in> D \<Longrightarrow> up_chain (dentries k) d es \<Longrightarrow> chain_root (dentries k) d es \<in> D" by (induction es arbitrary: d) (use p in auto)
qed

lemma cstr_bytes: "bytes_at m p (length xs + 1) = xs @ [0] \<Longrightarrow> 0 \<notin> set xs \<Longrightarrow> cstr m p xs"
proof -
  assume b: "bytes_at m p (length xs + 1) = xs @ [0]" and z: "0 \<notin> set xs"
  have "m (p + i) = (xs @ [0]) ! i" if "i \<le> length xs" for i
    using arg_cong [OF b, of "\<lambda>ys. ys ! i"] that by (simp add: bytes_at_def del: upt_Suc)
  then show ?thesis using z by (simp add: cstr_def nth_append)
qed

lemma cstr_d_bytes: "cstr m (d_fname d) xs \<Longrightarrow> d_bytes m d (length xs) = xs"
  by (rule nth_equalityI) (simp_all add: d_bytes_def cstr_def)

lemma tree_named:
  "tree N D k \<Longrightarrow> d \<in> D \<Longrightarrow> unat (fname_len (dentries k d)) = length (N d) \<Longrightarrow>
   named N (fmem k) (dentries k) d \<and> length (N d) \<le> MAX_FILE_NAME_LEN"
  by (simp add: tree_def named_def cstr_d_bytes)

lemma parse_cached:
  fixes k :: "'a fsys_scheme"
  assumes "tree N D k" "d0 = (if absolute then root (my_fs k) else cwd (my_fs k))" "d0 \<in> D"
    and "cs \<noteq> []" "\<forall>c \<in> set cs. comp_ok c" "cstr (fmem k) path (path_text absolute cs)"
    and "\<forall>d \<in> D. d_fname d + MAX_FILE_NAME_LEN < path \<or> path + length (path_text absolute cs) < d_fname d"
    and "lookup N (dentries k) d0 cs = Some d"
  shows "\<exists>k' q. lookup N (dentries k) d0 (butlast cs) = Some q \<and>
    parse_path AT_FDCWD path io k = Some (0, Some \<lparr>sr_parent = q, sr_child = Some d,
      sr_curdir = path + length (path_text absolute cs) - length (last cs),
      sr_curdir_len = of_nat (length (last cs)), sr_nextdir = None\<rparr>, k') \<and>
    walked k k' \<and> (\<forall>a. a < path \<or> path + length (path_text absolute cs) \<le> a \<longrightarrow> fmem k' a = fmem k a) \<and>
    took (length cs) (last cs \<notin> dots) d k k'"
proof -
  define n where "n = (if absolute then path + 1 else path)"
  have len: "n + length (join cs) = path + length (path_text absolute cs)" "path \<le> n" by (simp_all add: n_def path_text_def)
  have j: "cstr (fmem k) n (join cs)" using assms(6) by (auto simp: path_text_def n_def cstr_Cons split: if_splits)
  have c1: "comp_ok (hd cs)" using assms(4,5) by simp
  have "fmem k path = 0x2f \<longleftrightarrow> absolute"
  proof (cases absolute)
    case False
    obtain x xs where x: "hd cs = x # xs" "x \<noteq> 0x2f" using c1 by (cases "hd cs") (auto simp: comp_ok_def)
    then have "\<exists>ys. join cs = x # ys" using assms(4) by (cases cs rule: join.cases) auto
    then show ?thesis using j x False by (auto simp: n_def cstr_Cons)
  qed (use assms(6) in \<open>simp add: path_text_def cstr_Cons\<close>)
  then have start: "path_start AT_FDCWD path k = Some (Some (d0, n))"
    by (simp add: path_start_def assms(2) n_def AT_FDCWD_def)
  have sep: "\<forall>d \<in> D. \<forall>j \<le> MAX_FILE_NAME_LEN. d_fname d + j < n \<or> n + length (join cs) < d_fname d + j"
    using assms(7) len by fastforce
  from walk_cached [OF assms(1,3,4,5) j sep assms(8), of d0 n 0 io] obtain k' q where
    w: "lookup N (dentries k) d0 (butlast cs) = Some q"
      "path_walk d0 (Some d0) n (Some n) 0 io k = Some (\<lparr>sr_parent = q, sr_child = Some d, sr_curdir = last_at n cs,
        sr_curdir_len = of_nat (length (last cs)), sr_nextdir = None\<rparr>, k')"
      "walked k k'" "\<forall>a. a < n \<or> n + length (join cs) \<le> a \<longrightarrow> fmem k' a = fmem k a"
      "took (length cs) (last cs \<notin> dots) d k k'" by blast
  have "last_at n cs = path + length (path_text absolute cs) - length (last cs)" by (simp add: last_at_def len(1))
  then show ?thesis using w start len by (intro exI [of _ k'] exI [of _ q]) (simp add: parse_path_def)
qed

section \<open>Properties\<close>

text \<open>C18: \<open>sys_getcwd\<close> writes the path of the working directory - the names from the root down, each behind a slash,
  then a NUL - into the user's buffer and returns its length with the NUL; a buffer of fewer bytes gets as many, the last
  of them a NUL. Nothing else below the kernel changes. The path must be at most 127 bytes long: the kernel's
  buffer has no more, and nothing tests it.\<close>

theorem getcwd_text:
  fixes k :: "'a fsys_scheme"
  assumes "up_chain (dentries k) (cwd (my_fs k)) es" "\<forall>e \<in> set es. named N (fmem k) (dentries k) e \<and> length (N e) \<le> MAX_FILE_NAME_LEN"
    and "\<forall>e \<in> set es. e \<in> live (kmem_st k) \<and> {e..<e + 64} \<subseteq> room (kmem_st k) e"
    and "length (path_of N es) \<le> MAX_PATH_LEN" "0 < sz" "sz \<le> 0x7fffffff"
    and "kmem_good k" "current k \<noteq> NULL" "kmalloc k (kmem_st k) 128 \<noteq> None"
    and "text = path_of N es" "n = min (unat sz) (length text + 1)"
  shows "\<exists>k'. sys_getcwd dest sz k = Some (int n, k') \<and> k' = k\<lparr>fmem := fmem k', kmem_st := kmem_st k'\<rparr> \<and>
    bytes_at (fmem k') dest n = (if length text < unat sz then text @ [0] else take (unat sz - 1) text @ [0]) \<and>
    (\<forall>a < KERNEL_VADDR_START. \<not> (dest \<le> a \<and> a < dest + n) \<longrightarrow> fmem k' a = fmem k a) \<and>
    kmem_good k' \<and> live (kmem_st k') = live (kmem_st k)"
proof -
  obtain p k0 km where p: "kmalloc k (kmem_st k) 128 = Some (p, k0, km)" using assms(9) by auto
  have e: "\<forall>e \<in> set es. entry_at (kmem_st k) p e" using assms(3) by (simp add: entry_at_def)
  show ?thesis using getcwd_ok [OF assms(1,2) p e assms(4-8,10,11), of dest] by blast
qed

lemma getcwd_text_witness: "\<exists>(k :: fsys) k'. sys_getcwd 0x5000 64 k = Some (3, k') \<and> bytes_at (fmem k') 0x5000 3 = [0x2f, 0x61, 0]"
proof -
  have sz: "(64 :: u32) \<le> MAX_BLOCK_SIZE" "(128 :: u32) \<le> MAX_BLOCK_SIZE" by (simp_all add: MAX_BLOCK_SIZE_def)
  let ?h = "home 0x3000 kmem0"
  have h: "kmem_inv ?h (kmem_st ?h) {}" using kmem0_inv kmem_inv_cong [of ?h sys0] by (simp add: sys0_def NULL_def)
  obtain e km A where e: "kmalloc ?h kmem0 64 = Some (e, ?h, km)" "kmem_inv ?h km A" "live km = insert e (live kmem0)"
    "\<exists>j \<le> MAX_ORDER. pg_list (kernel_area (bd km) j) \<noteq> []" "pg_cnt (bd km) = pg_cnt (bd kmem0)"
    using small_again [OF h [simplified] sz(1) kmem0_pages(1)] by metis
  have good: "kmem_good ?h" using home_good [OF kmem0_inv kmem0_pages(2)] .
  have cur: "current ?h \<noteq> NULL" "kmalloc ?h (kmem_st ?h) 64 \<noteq> None" using e(1) by (simp_all add: NULL_def)
  obtain p m where p: "kmalloc_fs 64 ?h = Some (p, ?h\<lparr>kmem_st := m\<rparr>)" "{p..<p + unat (64 :: u32)} \<subseteq> room m p"
    using small_block [OF good cur(1) sz(1) cur(2)] by metis
  then have "e = p" "?h\<lparr>kmem_st := km\<rparr> = ?h\<lparr>kmem_st := m\<rparr>" using e(1) by (simp_all add: kmalloc_fs_def)
  from arg_cong [OF this(2), of kmem_st] this(1) have room: "{e..<e + 64} \<subseteq> room km e" using p(2) by simp
  let ?k = "home e km"
  have "kmem_inv sys0 km A" using e(2) kmem_inv_cong [of ?h sys0] by (simp add: sys0_def NULL_def)
  then have g: "kmem_good ?k" using home_good e(5) kmem0_pages(2) by simp
  then obtain A' where A': "kmem_inv ?k km A'" by (auto simp: kmem_good_def)
  have al: "kmalloc ?k (kmem_st ?k) 128 \<noteq> None" using kmalloc_small_case [OF A' sz(2)] e(4) by auto
  have le: "0x3000 \<le> e" using live_low(1) [OF e(2), of e] e(3) by (simp add: KERNEL_VADDR_START_def)
  have up: "up_chain (dentries ?k) (cwd (my_fs ?k)) [e]" "path_of (home_name e) [e] = [0x2f, 0x61]"
    "\<forall>d \<in> set [e]. named (home_name e) (fmem ?k) (dentries ?k) d \<and> length (home_name e d) \<le> MAX_FILE_NAME_LEN"
    "\<forall>d \<in> set [e]. d \<in> live (kmem_st ?k) \<and> {d..<d + 64} \<subseteq> room (kmem_st ?k) d"
    using le room e(3) by (simp_all add: path_of_def home_name_def named_def d_bytes_def d_fname_def MAX_FILE_NAME_LEN_def)
  have len: "length (path_of (home_name e) [e]) \<le> MAX_PATH_LEN" "(0 :: u32) < 64" "(64 :: u32) \<le> 0x7fffffff" "current ?k \<noteq> NULL"
    "3 = min (unat (64 :: u32)) (length (path_of (home_name e) [e]) + 1)"
    by (simp_all add: up(2) MAX_PATH_LEN_def NULL_def)
  have "\<exists>k'. sys_getcwd 0x5000 64 ?k = Some (3, k') \<and> bytes_at (fmem k') 0x5000 3 = [0x2f, 0x61, 0]"
    using getcwd_text [OF up(1,3,4) len(1-3) g len(4) al refl len(5), where dest = "0x5000"] by (auto simp: up(2))
  then show ?thesis by blast
qed

text \<open>C16: Along cached entries \<open>parse_path\<close> is the lookup of one component after the other, \<open>.\<close> and \<open>..\<close> included: it
  starts at the root for a path that begins with a slash and at the working directory otherwise, and gives the entry of the
  last component, the directory it is in, and where the last component is in the path. Besides the bytes of the path (the
  slashes are cut) and the counters of entries it changes nothing.\<close>

theorem parse_path_cached:
  fixes k :: "'a fsys_scheme"
  assumes "tree N D k" "d0 = (if absolute then root (my_fs k) else cwd (my_fs k))" "d0 \<in> D"
    and "cs \<noteq> []" "\<forall>c \<in> set cs. comp_ok c" "cstr (fmem k) path (path_text absolute cs)"
    and "\<forall>d \<in> D. d_fname d + MAX_FILE_NAME_LEN < path \<or> path + length (path_text absolute cs) < d_fname d"
    and "lookup N (dentries k) d0 cs = Some d"
  shows "\<exists>k' q. lookup N (dentries k) d0 (butlast cs) = Some q \<and>
    parse_path AT_FDCWD path io k = Some (0, Some \<lparr>sr_parent = q, sr_child = Some d,
      sr_curdir = path + length (path_text absolute cs) - length (last cs),
      sr_curdir_len = of_nat (length (last cs)), sr_nextdir = None\<rparr>, k') \<and>
    walked k k' \<and> (\<forall>a. a < path \<or> path + length (path_text absolute cs) \<le> a \<longrightarrow> fmem k' a = fmem k a) \<and>
    took (length cs) (last cs \<notin> dots) d k k'"
  by (rule parse_cached [OF assms])

lemma parse_path_cached_witness: "\<exists>k'. parse_path AT_FDCWD 0x2000 0x9000 (home 0x3000 kmem0) =
  Some (0, Some \<lparr>sr_parent = 0, sr_child = Some 0x3000, sr_curdir = 0x2001, sr_curdir_len = 1, sr_nextdir = None\<rparr>, k')"
proof -
  let ?k = "home 0x3000 kmem0" and ?N = "home_name 0x3000"
  have 1: "path_text True [[0x61]] = [0x2f, 0x61]" by (simp add: path_text_def)
  have 2: "\<forall>d \<in> {0, 0x3000}. d_fname d + MAX_FILE_NAME_LEN < 0x2000 \<or> 0x2000 + length (path_text True [[0x61]]) < d_fname d"
    by (simp add: 1 d_fname_def MAX_FILE_NAME_LEN_def)
  have 3: "lookup ?N (dentries ?k) 0 [[0x61]] = Some 0x3000" by (simp add: lookup1_def home_name_def)
  have 4: "0 = (if True then root (my_fs ?k) else cwd (my_fs ?k))" "(0 :: nat) \<in> {0, 0x3000}" "[[0x61 :: u8]] \<noteq> []"
    "\<forall>c \<in> set [[0x61]]. comp_ok c" by (simp_all add: comp_ok_def)
  have 5: "cstr (fmem ?k) 0x2000 (path_text True [[0x61]])" unfolding 1 by (rule home_path) simp
  show ?thesis
    using parse_path_cached [OF home_tree 4(1-4) 5 2 3, where io = "0x9000"] by (auto simp: 1)
qed

text \<open>C17: What \<open>sys_getcwd\<close> writes into a large enough buffer of the process, \<open>parse_path\<close> leads back to the working
  directory: the two calls one after the other return, the second with the working directory as the entry found.
  Each directory on the way must be the entry that its parent finds under its name, the way up must end at the root
  of the process, and the path must fit into the kernel's buffer of 128 bytes, with its NUL.\<close>

theorem cwd_path_leads_back:
  fixes k :: "'a fsys_scheme"
  assumes "tree N D k" "cwd (my_fs k) \<in> D" "up_chain (dentries k) (cwd (my_fs k)) es"
    and "chain_root (dentries k) (cwd (my_fs k)) es = root (my_fs k)"
    and "\<forall>e \<in> set es. comp_ok (N e) \<and> unat (fname_len (dentries k e)) = length (N e) \<and>
      lookup1 N (dentries k) (d_parent (dentries k e)) (N e) = Some e"
    and "length (path_of N es) \<le> MAX_PATH_LEN" "length (path_of N es) < unat sz" "sz \<le> 0x7fffffff"
    and "dest + length (path_of N es) < KERNEL_VADDR_START"
    and "kmalloc k (kmem_st k) 128 = Some (p, k0, km)" "\<forall>d \<in> D. entry_at (kmem_st k) p d \<and> KERNEL_VADDR_START \<le> d"
    and "kmem_good k" "current k \<noteq> NULL"
  shows "\<exists>n k1 r k2. sys_getcwd dest sz k = Some (n, k1) \<and> parse_path AT_FDCWD dest io k1 = Some (0, Some r, k2) \<and>
    sr_child r = Some (cwd (my_fs k))"
proof -
  let ?t = "path_of N es" and ?d = "cwd (my_fs k)"
  note D = chain_in_tree [OF assms(1,2,3)]
  have up: "\<forall>e \<in> set es. named N (fmem k) (dentries k) e \<and> length (N e) \<le> MAX_FILE_NAME_LEN"
    using tree_named [OF assms(1)] D(1) assms(5) by blast
  have at: "\<forall>e \<in> set es. entry_at (kmem_st k) p e" using assms(11) D(1) by blast
  have sz: "0 < sz" using assms(7) by (auto simp: word_less_nat_alt)
  have n: "length ?t + 1 = min (unat sz) (length ?t + 1)" using assms(7) by simp
  from getcwd_ok [OF assms(3) up assms(10) at assms(6) sz assms(8,12,13) refl n, of dest] assms(7) obtain k1 where
    g: "sys_getcwd dest sz k = Some (int (length ?t + 1), k1)" "k1 = k\<lparr>fmem := fmem k1, kmem_st := kmem_st k1\<rparr>"
      "bytes_at (fmem k1) dest (length ?t + 1) = ?t @ [0]"
      "\<forall>d. entry_at (kmem_st k) p d \<longrightarrow> dest + (length ?t + 1) \<le> d \<longrightarrow> (\<forall>j < 64. fmem k1 (d + j) = fmem k (d + j))"
    by auto
  obtain f m where k1: "k1 = k\<lparr>fmem := f, kmem_st := m\<rparr>" using g(2) by blast
  have same: "dentries k1 = dentries k" "my_fs k1 = my_fs k" by (simp_all add: k1 my_fs_def)
  have keep: "fmem k1 (d + j) = fmem k (d + j)" if "d \<in> D" "j < 64" for d j
    using g(4) assms(9,11) that by fastforce
  have t1: "tree N D k1"
  proof -
    have "cstr (fmem k1) (d_fname d) (N d)" if d: "d \<in> D" for d
    proof -
      have c: "cstr (fmem k) (d_fname d) (N d)" "length (N d) \<le> 24"
        using assms(1) d by (auto simp: tree_def MAX_FILE_NAME_LEN_def)
      have "fmem k1 (d_fname d + j) = fmem k (d_fname d + j)" if "j \<le> length (N d)" for j
        using keep [OF d, of "8 + j"] c(2) that by (simp add: d_fname_def add.assoc)
      then show ?thesis using c(1) cstr_cong by blast
    qed
    then show ?thesis using assms(1) by (simp add: tree_def same)
  qed
  have nz: "0 \<notin> set ?t" using assms(5) by (auto simp: path_of_def comp_ok_def)
  have path: "cstr (fmem k1) dest ?t" by (rule cstr_bytes [OF g(3) nz])
  have away: "\<forall>d \<in> D. d_fname d + MAX_FILE_NAME_LEN < dest \<or> dest + length ?t < d_fname d"
    using assms(9,11) by (fastforce simp: d_fname_def)
  have "\<exists>r k2. parse_path AT_FDCWD dest io k1 = Some (0, Some r, k2) \<and> sr_child r = Some ?d"
  proof (cases "es = []")
    case True
    then have "fmem k1 dest = 0x2f" "fmem k1 (dest + 1) = 0" "root (my_fs k1) = ?d"
      using assms(4) path by (simp_all add: path_of_def cstr_Cons same)
    moreover from this have "path_walk ?d (Some ?d) (dest + 1) (Some (dest + 1)) 0 io k1 =
      Some (\<lparr>sr_parent = ?d, sr_child = Some ?d, sr_curdir = dest + 1, sr_curdir_len = 0, sr_nextdir = Some (dest + 1)\<rparr>, k1)"
      by (subst path_walk.simps) simp
    ultimately show ?thesis by (simp add: parse_path_def path_start_def)
  next
    case False
    have l: "lookup N (dentries k1) (root (my_fs k1)) (map N (rev es)) = Some ?d"
      using lookup_up_chain [OF assms(3), of N] assms(4,5) by (simp add: same)
    have r: "root (my_fs k1) \<in> D" using D(2) assms(4) by (simp add: same)
    have cs: "map N (rev es) \<noteq> []" "\<forall>c \<in> set (map N (rev es)). comp_ok c" using False assms(5) by auto
    from parse_cached [OF t1 _ r cs path [unfolded path_of_join [OF False]] away [unfolded path_of_join [OF False]] l, where io = io]
    show ?thesis by auto
  qed
  then show ?thesis using g(1) by blast
qed

text \<open>The root, which is not a block of \<open>kmalloc\<close>, and its entry \<open>a\<close> at \<open>e\<close>, the working directory.\<close>

definition home_top :: "nat \<Rightarrow> kmem \<Rightarrow> fsys" where
  "home_top e km = (home e km)\<lparr>
     dentries := (\<lambda>_. \<lparr>d_count = \<lparr>counter = 1\<rparr>, d_inode = 7, fname_len = 0, d_parent = 0xc3000000, d_subdirs = [e]\<rparr>)
       (e := \<lparr>d_count = \<lparr>counter = 1\<rparr>, d_inode = 8, fname_len = 1, d_parent = 0xc3000000, d_subdirs = []\<rparr>),
     fss := (\<lambda>_. \<lparr>cwd = e, root = 0xc3000000\<rparr>)\<rparr>"

lemma home_top_simps [simp]:
  "my_fs (home_top e km) = \<lparr>cwd = e, root = 0xc3000000\<rparr>" "kmem_st (home_top e km) = km" "mmu_state (home_top e km) = mmu32"
  "current (home_top e km) = 4096" "fmem (home_top e km) = (\<lambda>_. 0)(e + 8 := 0x61, 0x2000 := 0x2f, 0x2001 := 0x61)"
  "dentries (home_top e km) = (\<lambda>_. \<lparr>d_count = \<lparr>counter = 1\<rparr>, d_inode = 7, fname_len = 0, d_parent = 0xc3000000, d_subdirs = [e]\<rparr>)
       (e := \<lparr>d_count = \<lparr>counter = 1\<rparr>, d_inode = 8, fname_len = 1, d_parent = 0xc3000000, d_subdirs = []\<rparr>)"
  by (simp_all add: home_top_def my_fs_def)

lemma cwd_path_leads_back_witness: "\<exists>(k :: fsys) n k1 r k2. sys_getcwd 0x5000 64 k = Some (n, k1) \<and>
  parse_path AT_FDCWD 0x5000 0x9000 k1 = Some (0, Some r, k2) \<and> sr_child r = Some (cwd (my_fs k)) \<and> cwd (my_fs k) \<noteq> root (my_fs k)"
proof -
  have sz: "(64 :: u32) \<le> MAX_BLOCK_SIZE" "(128 :: u32) \<le> MAX_BLOCK_SIZE" by (simp_all add: MAX_BLOCK_SIZE_def)
  let ?h = "home_top 0x3000 kmem0"
  have h: "kmem_inv ?h (kmem_st ?h) {}" using kmem0_inv kmem_inv_cong [of ?h sys0] by (simp add: sys0_def NULL_def)
  obtain e km A where e: "kmalloc ?h kmem0 64 = Some (e, ?h, km)" "kmem_inv ?h km A" "live km = insert e (live kmem0)"
    "\<exists>j \<le> MAX_ORDER. pg_list (kernel_area (bd km) j) \<noteq> []" "pg_cnt (bd km) = pg_cnt (bd kmem0)"
    using small_again [OF h [simplified] sz(1) kmem0_pages(1)] by metis
  have good: "kmem_good ?h" using h mmu32_map kmem0_pages(2) by (auto simp: kmem_good_def)
  have cur: "current ?h \<noteq> NULL" "kmalloc ?h (kmem_st ?h) 64 \<noteq> None" using e(1) by (simp_all add: NULL_def)
  obtain q m where q: "kmalloc_fs 64 ?h = Some (q, ?h\<lparr>kmem_st := m\<rparr>)" "{q..<q + unat (64 :: u32)} \<subseteq> room m q"
    using small_block [OF good cur(1) sz(1) cur(2)] by metis
  then have "e = q" "?h\<lparr>kmem_st := km\<rparr> = ?h\<lparr>kmem_st := m\<rparr>" using e(1) by (simp_all add: kmalloc_fs_def)
  from arg_cong [OF this(2), of kmem_st] this(1) have room: "{e..<e + 64} \<subseteq> room km e" using q(2) by simp
  let ?k = "home_top e km" and ?N = "home_name e"
  have inv: "kmem_inv ?k km A" using e(2) kmem_inv_cong [of ?k ?h] by (simp add: NULL_def)
  have g: "kmem_good ?k" using inv mmu32_map e(5) kmem0_pages(2) by (auto simp: kmem_good_def)
  obtain p km' A' where p: "kmalloc ?k km 128 = Some (p, ?k, km')" "kmem_inv ?k km' A'" "live km' = insert p (live km)"
    "pg_cnt (bd km') = pg_cnt (bd km)"
    using kmalloc_small_case [OF inv sz(2)] e(4) by blast
  have "p + 32 \<le> KERNEL_VADDR_START + 4096 * 8192" using live_low(2) [OF p(2), of p] p(3,4) e(5) kmem0_pages(2) by simp
  then have hi: "p + 128 \<le> 0xc3000000" by (simp add: KERNEL_VADDR_START_def)
  have le: "KERNEL_VADDR_START \<le> e" "e + 32 \<le> KERNEL_VADDR_START + 4096 * 8192"
    using live_low [OF e(2), of e] e(3,5) kmem0_pages(2) by simp_all
  then have ne: "0x3000 \<le> e" "e < 0xc3000000" by (simp_all add: KERNEL_VADDR_START_def)
  have t: "tree ?N {0xc3000000, e} ?k"
    using ne by (simp add: tree_def home_name_def d_fname_def MAX_FILE_NAME_LEN_def cstr_Cons)
  have path: "path_of ?N [e] = [0x2f, 0x61]" by (simp add: path_of_def home_name_def)
  have up: "cwd (my_fs ?k) \<in> {0xc3000000, e}" "up_chain (dentries ?k) (cwd (my_fs ?k)) [e]"
    "chain_root (dentries ?k) (cwd (my_fs ?k)) [e] = root (my_fs ?k)"
    "\<forall>d \<in> set [e]. comp_ok (?N d) \<and> unat (fname_len (dentries ?k d)) = length (?N d) \<and>
      lookup1 ?N (dentries ?k) (d_parent (dentries ?k d)) (?N d) = Some d"
    using ne by (simp_all add: comp_ok_def home_name_def lookup1_def)
  have len: "length (path_of ?N [e]) \<le> MAX_PATH_LEN" "length (path_of ?N [e]) < unat (64 :: u32)" "(64 :: u32) \<le> 0x7fffffff"
    "0x5000 + length (path_of ?N [e]) < KERNEL_VADDR_START"
    by (simp_all add: path MAX_PATH_LEN_def KERNEL_VADDR_START_def)
  have al: "kmalloc ?k (kmem_st ?k) 128 = Some (p, ?k, km')" using p(1) by simp
  have at: "\<forall>d \<in> {0xc3000000, e}. entry_at (kmem_st ?k) p d \<and> KERNEL_VADDR_START \<le> d"
    using room e(3) hi le(1) by (simp add: entry_at_def KERNEL_VADDR_START_def)
  have cur: "current ?k \<noteq> NULL" by (simp add: NULL_def)
  from cwd_path_leads_back [OF t up len al at g cur, where io = "0x9000"] have
    "\<exists>n k1 r k2. sys_getcwd 0x5000 64 ?k = Some (n, k1) \<and> parse_path AT_FDCWD 0x5000 0x9000 k1 = Some (0, Some r, k2) \<and>
      sr_child r = Some (cwd (my_fs ?k))" .
  moreover have "cwd (my_fs ?k) \<noteq> root (my_fs ?k)" using ne by simp
  ultimately show ?thesis by blast
qed

end
