(* ===== verification/Open_Close.thy ===== *)
theory Open_Close
  imports Walk Open
begin

text \<open>
  What opening and closing do: the copy of the path (fs/namei.c), the bits of the descriptors and the entries of the
  table of open files (fs/file.c), and \<open>sys_open\<close> with \<open>sys_close\<close> (fs/fs.c) along the walk of theory Walk.
\<close>

section \<open>Copying a path\<close>

lemma strncpy_from_cstr:
  "cstr m (src + i) ys \<Longrightarrow> i + length ys \<le> n \<Longrightarrow> \<forall>j \<le> n. \<forall>j' \<le> n. src + j \<noteq> dest + j' \<Longrightarrow>
   strncpy_from i dest src n m = (i + length ys, writes m (dest + i) ys)"
proof (induction ys arbitrary: i m)
  case Nil
  then show ?case by (subst strncpy_from.simps) (auto simp: writes_def fun_eq_iff)
next
  case (Cons y ys)
  have y: "m (src + i) = y" "y \<noteq> 0" "cstr m (src + (i + 1)) ys" "i < n" using Cons.prems(1,2) by (simp_all add: cstr_Cons)
  let ?m = "m(dest + i := y)"
  have "cstr ?m (src + (i + 1)) ys = cstr m (src + (i + 1)) ys"
  proof (rule cstr_cong)
    fix j assume "j \<le> length ys"
    then have "src + (i + 1 + j) \<noteq> dest + i" using Cons.prems(2) Cons.prems(3) [rule_format, of "i + 1 + j" i] by simp
    then show "?m (src + (i + 1) + j) = m (src + (i + 1) + j)" by (simp add: add.assoc)
  qed
  then have c: "cstr ?m (src + (i + 1)) ys" using y(3) by (simp only:)
  have "strncpy_from (i + 1) dest src n ?m = (i + 1 + length ys, writes ?m (dest + (i + 1)) ys)"
    by (rule Cons.IH [OF c _ Cons.prems(3)]) (use Cons.prems(2) in simp)
  moreover have "writes ?m (dest + (i + 1)) ys = writes m (dest + i) (y # ys)"
    by (auto simp: writes_def fun_eq_iff nth_Cons')
  ultimately show ?case using y by (subst strncpy_from.simps) simp
qed

lemma strncpy_cstr:
  assumes "cstr m src ys" "length ys \<le> n" "\<forall>j \<le> n. \<forall>j' \<le> n. src + j \<noteq> dest + j'"
  shows "strncpy dest src n m = (\<lambda>a. if dest \<le> a \<and> a < dest + n then (if a < dest + length ys then ys ! (a - dest) else 0) else m a)"
  using strncpy_from_cstr [of m src 0 ys n dest] assms
  by (auto simp: strncpy_def memset_from_eq writes_def fun_eq_iff)

lemma getname_ok:
  fixes k :: "'a fsys_scheme"
  assumes "kmalloc_fs 128 k = Some (p, k1)" "k1 = k\<lparr>kmem_st := km\<rparr>" "cstr (fmem k) pathname text" "length text \<le> 127"
    and "pathname + 128 \<le> p \<or> p + 128 \<le> pathname"
  shows "\<exists>m. getname pathname k = Some (p, k1\<lparr>fmem := m\<rparr>) \<and> cstr m p text \<and> (\<forall>a. a < p \<or> p + 128 \<le> a \<longrightarrow> m a = fmem k a)"
proof -
  let ?m = "(strncpy p pathname 127 (fmem k))(p + 127 := 0)"
  have "\<forall>j \<le> 127. \<forall>j' \<le> 127. pathname + j \<noteq> p + j'" using assms(5) by auto
  note m = strncpy_cstr [OF assms(3,4) this]
  have "cstr ?m p text" using assms(3,4) by (auto simp: m cstr_def)
  moreover have "\<forall>a. a < p \<or> p + 128 \<le> a \<longrightarrow> ?m a = fmem k a" by (simp add: m)
  moreover have "getname pathname k = Some (p, k1\<lparr>fmem := ?m\<rparr>)"
    using assms(1,2) by (simp add: getname_def MAX_PATH_LEN_def strncpy_from_user_def)
  ultimately show ?thesis by blast
qed

section \<open>Descriptors\<close>

lemma fd_bit_eq: "fd_bit fd = 2 ^ nat (fd mod 32)"
  by (simp add: fd_bit_def)

lemma fd_bit_and: "fd_bit fd AND w = 0 \<longleftrightarrow> \<not> bit w (nat (fd mod 32))" "w AND fd_bit fd = 0 \<longleftrightarrow> \<not> bit w (nat (fd mod 32))"
  by (simp_all add: fd_bit_eq and_push_eq_0 and.commute [of "2 ^ _"])

lemma bit_fd_put:
  "bit (w OR fd_bit fd) n \<longleftrightarrow> bit w n \<or> n = nat (fd mod 32)"
  "bit (w AND NOT (fd_bit fd)) n \<longleftrightarrow> bit w n \<and> n \<noteq> nat (fd mod 32)"
  using pos_mod_bound [of 32 fd] by (auto simp: fd_bit_eq bits_at)

lemma fd_scan_eq:
  "set xs \<subseteq> {..<32} \<Longrightarrow> fd_scan xs w = (case find (\<lambda>i. \<not> bit w i) xs of None \<Rightarrow> - 1 | Some i \<Rightarrow> int i)"
  by (induction xs) (auto simp: fd_bit_and)

lemma set_files_simps [simp]:
  "my_files (set_files f k) = f" "set_files f (set_files g k) = set_files f k" "set_files (my_files k) k = k"
  "my_fs (set_files f k) = my_fs k" "file_table (set_files f k) = file_table k" "file_count (set_files f k) = file_count k"
  "dentries (set_files f k) = dentries k" "fmem (set_files f k) = fmem k" "kmem_st (set_files f k) = kmem_st k"
  "mmu_state (set_files f k) = mmu_state k" "current (set_files f k) = current k"
  by (simp_all add: my_files_def set_files_def my_fs_def)

lemma alloc_fd_cases:
  fixes k :: "'a fsys_scheme"
  obtains "\<forall>i < 32. bit (open_fds (my_files k)) i" "alloc_fd k = (- 1, k)"
  | i where "i < 32" "\<not> bit (open_fds (my_files k)) i" "\<forall>j < i. bit (open_fds (my_files k)) j"
      "alloc_fd k = (int i, set_files ((my_files k)\<lparr>open_fds := open_fds (my_files k) OR fd_bit (int i)\<rparr>) k)"
proof -
  let ?w = "open_fds (my_files k)"
  have s: "fd_scan [0..<32] ?w = (case find (\<lambda>i. \<not> bit ?w i) [0..<32] of None \<Rightarrow> - 1 | Some i \<Rightarrow> int i)"
    by (rule fd_scan_eq) auto
  show thesis
  proof (cases "find (\<lambda>i. \<not> bit ?w i) [0..<32]")
    case None
    then have "\<forall>i < 32. bit ?w i" by (auto simp: find_None_iff)
    then show thesis using s None that(1) by (simp add: alloc_fd_def)
  next
    case (Some i)
    then have i: "i < 32" "\<not> bit ?w i" "\<forall>j < i. bit ?w j" by (auto simp: find_Some_iff)
    have "alloc_fd k = (int i, set_files ((my_files k)\<lparr>open_fds := ?w OR fd_bit (int i)\<rparr>) k)"
      using s Some by (simp add: alloc_fd_def Let_def)
    then show thesis using that(2) i by blast
  qed
qed


section \<open>Opening what is cached\<close>

lemma my_simps2 [simp]:
  "my_files (k\<lparr>file_table := t\<rparr>) = my_files k" "my_files (k\<lparr>file_count := c\<rparr>) = my_files k"
  "my_fs (k\<lparr>file_table := t\<rparr>) = my_fs k" "my_fs (k\<lparr>file_count := c\<rparr>) = my_fs k"
  by (simp_all add: my_fs_def my_files_def)

text \<open>The state after \<open>open_entry\<close>.\<close>

definition opened :: "nat \<Rightarrow> nat \<Rightarrow> u32 \<Rightarrow> 'a fsys_scheme \<Rightarrow> 'a fsys_scheme" where
  "opened f d flags k = k\<lparr>file_count := (file_count k)(f := atomic_inc (file_count k f)),
     file_table := (file_table k)(f := (file_table k f)\<lparr>pos := 0, f_dentry := d, f_flags := flags\<rparr>)\<rparr>"

lemma opened_simps [simp]:
  "fmem (opened f d fl k) = fmem k" "dentries (opened f d fl k) = dentries k" "kmem_st (opened f d fl k) = kmem_st k"
  "mmu_state (opened f d fl k) = mmu_state k" "current (opened f d fl k) = current k" "my_files (opened f d fl k) = my_files k"
  "my_fs (opened f d fl k) = my_fs k" "root_dir (opened f d fl k) = root_dir k"
  by (simp_all add: opened_def)

lemma filp_openat_cached:
  fixes k :: "'a fsys_scheme"
  assumes t: "tree N D k" "d0 = (if absolute then root (my_fs k) else cwd (my_fs k))" "d0 \<in> D"
      "cs \<noteq> []" "\<forall>c \<in> set cs. comp_ok c" "cstr (fmem k) path (path_text absolute cs)"
      "\<forall>d \<in> D. d_fname d + MAX_FILE_NAME_LEN < path \<or> path + length (path_text absolute cs) < d_fname d"
      "lookup N (dentries k) d0 cs = Some d"
    and m: "kmem_good k" "current k \<noteq> NULL" "kmalloc k (kmem_st k) 1024 \<noteq> None"
    and f: "get_free_file_of_table k = Some f"
  shows "\<exists>k1 m. filp_openat AT_FDCWD path flags k = Some (Filp f, (opened f d flags k1)\<lparr>kmem_st := m\<rparr>) \<and> walked k k1 \<and>
    (\<forall>a. a < path \<or> path + length (path_text absolute cs) \<le> a \<longrightarrow> fmem k1 a = fmem k a) \<and>
    kmem_good ((opened f d flags k1)\<lparr>kmem_st := m\<rparr>) \<and> live m = live (kmem_st k) \<and> took (length cs) (last cs \<notin> dots) d k k1"
proof -
  have "(1024 :: u32) \<le> MAX_BLOCK_SIZE" by (simp add: MAX_BLOCK_SIZE_def)
  from small_block [OF m(1,2) this m(3)] obtain io m1 where
    b: "kmalloc_fs 1024 k = Some (io, k\<lparr>kmem_st := m1\<rparr>)" "kmem_good (k\<lparr>kmem_st := m1\<rparr>)" "live m1 = insert io (live (kmem_st k))"
      "io \<notin> live (kmem_st k)" by metis
  let ?k = "k\<lparr>kmem_st := m1\<rparr>"
  have t': "tree N D ?k" using t(1) by (simp add: tree_def)
  have d0: "d0 = (if absolute then root (my_fs ?k) else cwd (my_fs ?k))" using t(2) by simp
  have c: "cstr (fmem ?k) path (path_text absolute cs)" "lookup N (dentries ?k) d0 cs = Some d" using t(6,8) by simp_all
  from parse_path_cached [OF t' d0 t(3,4,5) c(1) t(7) c(2), of io] obtain k1 r where
    p: "parse_path AT_FDCWD path io ?k = Some (0, Some r, k1)" "sr_child r = Some d" "sr_nextdir r = None" "walked ?k k1"
      "\<forall>a. a < path \<or> path + length (path_text absolute cs) \<le> a \<longrightarrow> fmem k1 a = fmem k a"
    "took (length cs) (last cs \<notin> dots) d ?k k1" by fastforce
  note w = walkedD [OF p(4)]
  have f1: "get_free_file_of_table k1 = Some f" using f by (simp add: get_free_file_of_table_def w)
  let ?o = "opened f d flags k1"
  have g: "kmem_good ?o" using kmem_good_cong [of ?o ?k] b(2) w m(2) by simp
  obtain m2 where m2: "kfree_fs io ?o = Some (?o\<lparr>kmem_st := m2\<rparr>)" "kmem_good (?o\<lparr>kmem_st := m2\<rparr>)" "live m2 = live (kmem_st ?o) - {io}"
    using block_free [OF g, of io] w m(2) b(3) by auto
  define k2 where "k2 = k1\<lparr>kmem_st := kmem_st k\<rparr>"
  obtain a ds where k1: "k1 = k\<lparr>kmem_st := m1, fmem := a, dentries := ds\<rparr>" using p(4) unfolding walked_def by blast
  have "walked k k2" using p(4) by (simp add: walked_def k2_def k1)
  moreover have "took (length cs) (last cs \<notin> dots) d k k2" using p(6) by (simp add: took_def k2_def)
  moreover have "?o\<lparr>kmem_st := m2\<rparr> = (opened f d flags k2)\<lparr>kmem_st := m2\<rparr>" by (simp add: opened_def k2_def)
  moreover have "filp_openat AT_FDCWD path flags k = Some (Filp f, ?o\<lparr>kmem_st := m2\<rparr>)"
    using b(1) p(1,2,3) f1 m2(1) by (simp add: filp_openat_def open_entry_def inc_count_def opened_def)
  ultimately show ?thesis using p(5) m2(2,3) b(3,4) w by (intro exI [of _ k2] exI [of _ m2]) (simp add: k2_def)
qed


lemma atomic_read_plus: "counter v' = counter v + of_nat m \<Longrightarrow> 0 \<le> atomic_read v \<Longrightarrow> atomic_read v + int m < 2 ^ 31 \<Longrightarrow>
   atomic_read v' = atomic_read v + int m"
proof -
  assume a: "counter v' = counter v + of_nat m" "0 \<le> atomic_read v" "atomic_read v + int m < 2 ^ 31"
  have "counter v' = word_of_int (sint (counter v) + int m)" unfolding a(1) by simp
  moreover have "sint (word_of_int (sint (counter v) + int m) :: u32) = sint (counter v) + int m"
    using a(2,3) by (simp add: signed_of_int signed_take_bit_int_eq_self atomic_read_def del: of_int_add)
  ultimately show ?thesis by (simp only: atomic_read_def)
qed

lemma atomic_inc_free:
  assumes "atomic_read v = 0"
  shows "atomic_read (atomic_inc v) = 1" "snd (atomic_dec_and_sete (atomic_inc v)) = v"
proof -
  have "counter v = 0" using assms signed_word_eqI [of "counter v" 0] by (simp add: atomic_read_def)
  then show "atomic_read (atomic_inc v) = 1" "snd (atomic_dec_and_sete (atomic_inc v)) = v"
    by (simp_all add: atomic_defs incl_def decl_def Let_def)
qed

lemma close_run:
  fixes k :: "'a fsys_scheme"
  assumes "i < 32" "bit (open_fds (my_files k)) i" "fd_array (my_files k) i = Some f" "atomic_read (file_count k f) = 1"
    "d = f_dentry (file_table k f)" "d = root_dir k \<or> 0 < atomic_read (d_count (dentries k d))"
  shows "\<exists>k2. sys_close (int i) k = Some (0, k2) \<and> open_fds (my_files k2) = open_fds (my_files k) AND NOT (fd_bit (int i)) \<and>
    file_count k2 = (file_count k)(f := snd (atomic_dec_and_sete (file_count k f)))"
proof -
  define c where "c = snd (atomic_dec_and_sete (file_count k f))"
  have dec: "atomic_dec_and_sete (file_count k f) = (True, c)"
    using atomic_dec_and_sete_fst [of "file_count k f"] assms(4) by (simp add: c_def prod_eq_iff)
  let ?k = "k\<lparr>file_count := (file_count k)(f := c)\<rparr>"
  obtain k1 where k1: "dentry_close d ?k = Some k1" "my_files k1 = my_files k" "file_count k1 = file_count ?k"
    using assms(6) by (cases "d = root_dir k") (auto simp: dentry_close_def set_dentry_def Let_def split_def my_files_def)
  have n: "nat (int i mod 32) = i" using assms(1) by simp
  have "fd_file (int i) k = Some (Some f)" using assms(1,3) by (simp add: fd_file_def)
  moreover have "file_close f k = Some (0, k1)" using assms(4,5) k1(1) dec by (simp add: file_close_def)
  moreover have "open_fds (my_files k) AND fd_bit (int i) \<noteq> 0" using assms(2) fd_bit_and(2) [of "open_fds (my_files k)" "int i"] n by simp
  moreover from this have "free_fd (int i) k1 = Some (set_files ((my_files k)\<lparr>open_fds := open_fds (my_files k) AND NOT (fd_bit (int i))\<rparr>) k1)"
    by (simp add: free_fd_def k1(2) Let_def)
  ultimately show ?thesis using assms(1) k1(3) by (simp add: sys_close_def MAX_FILE_COUNT_def c_def)
qed

lemma open_run:
  fixes k :: "'a fsys_scheme"
  assumes t: "tree N D k" "d0 = (if absolute then root (my_fs k) else cwd (my_fs k))" "d0 \<in> D" "cs \<noteq> []" "\<forall>c \<in> set cs. comp_ok c"
      "lookup N (dentries k) d0 cs = Some d"
    and s: "cstr (fmem k) pathname (path_text absolute cs)" "length (path_text absolute cs) \<le> MAX_PATH_LEN" "pathname + 128 \<le> KERNEL_VADDR_START"
    and m: "kmem_good k" "current k \<noteq> NULL" "kmalloc_fs 128 k = Some (p, k0)" "\<exists>j \<le> MAX_ORDER. pg_list (kernel_area (bd (kmem_st k0)) j) \<noteq> []"
      "p < 2 ^ 32 - 34" "\<forall>e \<in> D. {e..<e + 64} \<inter> {p..<p + 128} = {}"
    and f: "i < 32" "\<not> bit (open_fds (my_files k)) i" "\<forall>j < i. bit (open_fds (my_files k)) j" "get_free_file_of_table k = Some f"
  shows "\<exists>k1. sys_open pathname flags mode k = Some (int i, k1) \<and>
    my_files k1 = (my_files k)\<lparr>open_fds := open_fds (my_files k) OR fd_bit (int i), fd_array := (fd_array (my_files k))(i := Some f)\<rparr> \<and>
    file_table k1 = (file_table k)(f := (file_table k f)\<lparr>pos := 0, f_dentry := d, f_flags := flags\<rparr>) \<and>
    file_count k1 = (file_count k)(f := atomic_inc (file_count k f)) \<and>
    (\<forall>a < KERNEL_VADDR_START. fmem k1 a = fmem k a) \<and> kmem_good k1 \<and> live (kmem_st k1) = live (kmem_st k) \<and>
    took (length cs) (last cs \<notin> dots) d k k1 \<and> root_dir k1 = root_dir k"
proof -
  define tx where "tx = path_text absolute cs"
  have sz: "(128 :: u32) \<le> MAX_BLOCK_SIZE" by (simp add: MAX_BLOCK_SIZE_def)
  have "kmalloc k (kmem_st k) 128 \<noteq> None" using m(3) by (cases "kmalloc k (kmem_st k) 128") (simp_all add: kmalloc_fs_def)
  from small_block [OF m(1,2) sz this] m(3) obtain m0 where
    b: "k0 = k\<lparr>kmem_st := m0\<rparr>" "KERNEL_VADDR_START \<le> p" "kmem_good k0" "live m0 = insert p (live (kmem_st k))" "p \<notin> live (kmem_st k)"
    by (metis option.inject prod.inject)
  have "pathname + 128 \<le> p" using s(3) b(2) by simp
  with getname_ok [OF m(3) b(1) s(1)] s(2) obtain m1 where
    g: "getname pathname k = Some (p, k0\<lparr>fmem := m1\<rparr>)" "cstr m1 p tx" "\<And>a. a < p \<or> p + 128 \<le> a \<Longrightarrow> m1 a = fmem k a"
    unfolding tx_def MAX_PATH_LEN_def by auto
  define kA where "kA = k0\<lparr>fmem := m1\<rparr>"
  define F where "F = (my_files k)\<lparr>open_fds := open_fds (my_files k) OR fd_bit (int i)\<rparr>"
  define kB where "kB = set_files F kA"
  have kA: "my_files kA = my_files k" "my_fs kA = my_fs k" by (simp_all add: kA_def b(1))
  have al: "alloc_fd kA = (int i, kB)"
  proof (cases kA rule: alloc_fd_cases)
    case 1
    then show ?thesis using f(1,2) by (simp add: kA)
  next
    case (2 i')
    then have "i' = i" using f(2,3) by (metis kA(1) linorder_less_linear)
    then show ?thesis using 2(4) by (simp add: kB_def F_def kA)
  qed
  have kB: "fmem kB = m1" "dentries kB = dentries k" "kmem_st kB = m0" "mmu_state kB = mmu_state k" "current kB = current k"
    "my_fs kB = my_fs k" "my_files kB = F" "file_table kB = file_table k" "file_count kB = file_count k" "root_dir kB = root_dir k"
    by (simp_all add: kB_def kA_def b(1)) (simp add: set_files_def)
  have apart: "e + 64 \<le> p \<or> p + 128 \<le> e" if "e \<in> D" for e
  proof (rule ccontr)
    assume "\<not> ?thesis"
    then have "max e p \<in> {e..<e + 64} \<inter> {p..<p + 128}" by auto
    then show False using m(6) that by blast
  qed
  have keep: "m1 (d_fname e + j) = fmem k (d_fname e + j)" if "e \<in> D" "j \<le> MAX_FILE_NAME_LEN" for e j
    using apart [OF that(1)] that(2) by (intro g(3)) (auto simp: d_fname_def MAX_FILE_NAME_LEN_def)
  have tB: "tree N D kB"
    unfolding tree_def
  proof
    fix e assume e: "e \<in> D"
    then have h: "cstr (fmem k) (d_fname e) (N e)" "length (N e) \<le> MAX_FILE_NAME_LEN"
       "d_parent (dentries k e) \<in> D" "set (d_subdirs (dentries k e)) \<subseteq> D" using t(1) by (auto simp: tree_def)
    have "cstr m1 (d_fname e) (N e) = cstr (fmem k) (d_fname e) (N e)"
      using h(2) keep [OF e] by (intro cstr_cong) simp
    then show "cstr (fmem kB) (d_fname e) (N e) \<and> length (N e) \<le> MAX_FILE_NAME_LEN \<and>
       d_parent (dentries kB e) \<in> D \<and> set (d_subdirs (dentries kB e)) \<subseteq> D" using h by (simp add: kB)
  qed
  have sep: "\<forall>e \<in> D. d_fname e + MAX_FILE_NAME_LEN < p \<or> p + length (path_text absolute cs) < d_fname e"
    using apart s(2) by (fastforce simp: d_fname_def MAX_FILE_NAME_LEN_def MAX_PATH_LEN_def)
  have gB: "kmem_good kB" using kmem_good_cong [of kB k0] b(3) m(2) by (simp add: kB b(1))
  obtain A where A: "kmem_inv kB m0 A" using gB by (auto simp: kmem_good_def kB)
  have "(1024 :: u32) \<le> MAX_BLOCK_SIZE" by (simp add: MAX_BLOCK_SIZE_def)
  from kmalloc_small_case [OF A this] m(4) have al2: "kmalloc kB (kmem_st kB) 1024 \<noteq> None" by (auto simp: kB b(1))
  have "d0 = (if absolute then root (my_fs kB) else cwd (my_fs kB))" "cstr (fmem kB) p (path_text absolute cs)"
    "lookup N (dentries kB) d0 cs = Some d" "current kB \<noteq> NULL" "get_free_file_of_table kB = Some f"
    using t(2,6) g(2) m(2) f(4) by (simp_all add: kB tx_def get_free_file_of_table_def)
  note pre = this
  obtain k1 m2 where o: "filp_openat AT_FDCWD p flags kB = Some (Filp f, (opened f d flags k1)\<lparr>kmem_st := m2\<rparr>)" "walked kB k1"
    "\<And>a. a < p \<or> p + length (path_text absolute cs) \<le> a \<Longrightarrow> fmem k1 a = fmem kB a"
    "kmem_good ((opened f d flags k1)\<lparr>kmem_st := m2\<rparr>)" "live m2 = live m0" "took (length cs) (last cs \<notin> dots) d kB k1"
    using filp_openat_cached [OF tB pre(1) t(3,4,5) pre(2) sep pre(3) gB pre(4) al2 pre(5), of flags] unfolding kB(3) by blast
  note w = walkedD [OF o(2)]
  define kC where "kC = (opened f d flags k1)\<lparr>kmem_st := m2\<rparr>"
  define kD where "kD = install_fd (int i) (Some f) kC"
  have kC: "my_files kC = F" "kmem_st kC = m2" "fmem kC = fmem k1" "current kC = current k" "root_dir kC = root_dir k"
     "file_table kC = (file_table k)(f := (file_table k f)\<lparr>pos := 0, f_dentry := d, f_flags := flags\<rparr>)"
     "file_count kC = (file_count k)(f := atomic_inc (file_count k f))" "dentries kC = dentries k1"
    using w kB by (simp_all add: kC_def) (simp_all add: opened_def)
  have kD: "my_files kD = F\<lparr>fd_array := (fd_array F)(i := Some f)\<rparr>" "kmem_st kD = m2" "fmem kD = fmem k1" "current kD = current k"
     "mmu_state kD = mmu_state kC" "file_table kD = file_table kC" "file_count kD = file_count kC" "dentries kD = dentries k1" "root_dir kD = root_dir k"
    using kC by (simp_all add: kD_def install_fd_def Let_def) (simp add: set_files_def)
  have gD: "kmem_good kD" using kmem_good_cong [of kD kC] o(4) m(2) by (simp add: kD kC kC_def [symmetric])
  have "p \<in> live (kmem_st kD)" using o(5) b(4) by (simp add: kD)
  from block_free [OF gD _ this] m(2) obtain m3 where
    m3: "kfree_fs p kD = Some (kD\<lparr>kmem_st := m3\<rparr>)" "kmem_good (kD\<lparr>kmem_st := m3\<rparr>)" "live m3 = live m2 - {p}"
    by (auto simp: kD)
  have "unat (of_nat p :: u32) = p" using m(5) by (simp add: unat_of_nat)
  then have "\<not> IS_ERR (of_nat p)" using m(5) by (simp add: IS_ERR_def MAX_ERRNO_def word_le_nat_alt)
  then have "sys_open pathname flags mode k = Some (int i, kD\<lparr>kmem_st := m3\<rparr>)"
    using g(1) al o(1) m3(1)
    by (simp add: sys_open_def sys_openat_def putname_def install_or_free_def kA_def [symmetric] kC_def [symmetric] kD_def [symmetric])
  moreover have "\<forall>a < KERNEL_VADDR_START. fmem k1 a = fmem k a" using o(3) g(3) b(2) by (simp add: kB)
  moreover have "took (length cs) (last cs \<notin> dots) d k kD" using o(6) by (simp add: took_def kD kB)
  moreover have "live m3 = live (kmem_st k)" using m3(3) o(5) b(4,5) by simp
  ultimately show ?thesis using m3(2) by (intro exI [of _ "kD\<lparr>kmem_st := m3\<rparr>"]) (simp add: kD kC F_def took_def)
qed

section \<open>Properties\<close>

text \<open>C25: \<open>alloc_fd\<close> takes the lowest free descriptor and no other, or fails with -1 exactly when all 32 are in use and then
  changes nothing; \<open>free_fd\<close> of the descriptor undoes it.\<close>

theorem alloc_fd_lowest:
  fixes k :: "'a fsys_scheme"
  shows "(alloc_fd k = (- 1, k) \<and> (\<forall>i < 32. bit (open_fds (my_files k)) i)) \<or>
    (\<exists>i k'. alloc_fd k = (int i, k') \<and> i < 32 \<and> \<not> bit (open_fds (my_files k)) i \<and> (\<forall>j < i. bit (open_fds (my_files k)) j) \<and>
      (\<forall>j. bit (open_fds (my_files k')) j \<longleftrightarrow> bit (open_fds (my_files k)) j \<or> j = i) \<and> free_fd (int i) k' = Some k)"
proof (cases k rule: alloc_fd_cases)
  case (2 i)
  have i: "nat (int i mod 32) = i" using 2(1) by simp
  let ?w = "open_fds (my_files k)" and ?k = "set_files ((my_files k)\<lparr>open_fds := open_fds (my_files k) OR fd_bit (int i)\<rparr>) k"
  have "(?w OR fd_bit (int i)) AND NOT (fd_bit (int i)) = ?w"
    using 2(2) by (intro bit_word_eqI) (auto simp: bit_fd_put i)
  moreover have "(?w OR fd_bit (int i)) AND fd_bit (int i) \<noteq> 0" unfolding fd_bit_and(2) by (simp add: bit_fd_put i)
  ultimately have "free_fd (int i) ?k = Some k" by (simp add: free_fd_def)
  moreover have "\<forall>j. bit (open_fds (my_files ?k)) j \<longleftrightarrow> bit ?w j \<or> j = i" by (simp add: bit_fd_put i)
  ultimately show ?thesis using 2 by blast
qed simp

lemma alloc_fd_lowest_witness:
  "let k = set_files ((my_files (home 0x3000 kmem0))\<lparr>open_fds := 3\<rparr>) (home 0x3000 kmem0)
   in \<exists>k'. alloc_fd k = (2, k') \<and> open_fds (my_files k') = 7 \<and> free_fd 2 k' = Some k"
proof -
  define k where "k = set_files ((my_files (home 0x3000 kmem0))\<lparr>open_fds := 3\<rparr>) (home 0x3000 kmem0)"
  have o: "open_fds (my_files k) = 3" by (simp add: k_def)
  have m: "(3 :: u32) = mask 2" "(7 :: u32) = mask 3" by (simp_all add: mask_eq_exp_minus_1)
  have b: "bit (3 :: u32) j \<longleftrightarrow> j < 2" "bit (7 :: u32) j \<longleftrightarrow> j < 3" for j unfolding m by (auto simp: bit_mask_iff)
  obtain i k' where i: "alloc_fd k = (int i, k')" "\<not> i < 2" "\<forall>j < i. j < 2"
    "\<forall>j. bit (open_fds (my_files k')) j \<longleftrightarrow> j < 2 \<or> j = i" "free_fd (int i) k' = Some k"
    using alloc_fd_lowest [of k] unfolding o b
  proof (elim disjE conjE exE)
    assume "\<forall>i < 32. i < (2 :: nat)"
    then have "(2 :: nat) < 2" by (rule allE [of _ 2]) simp
    then show thesis by simp
  qed (rule that)
  have "i = 2" using i(2) i(3) [rule_format, of 2] by linarith
  moreover have "open_fds (my_files k') = 7"
  proof (rule bit_eqI)
    fix j
    show "bit (open_fds (my_files k')) j \<longleftrightarrow> bit (7 :: u32) j"
      unfolding b i(4) [rule_format, of j] \<open>i = 2\<close> by linarith
  qed
  ultimately show ?thesis using i(1,5) unfolding Let_def k_def [symmetric] by (intro exI [of _ k']) simp
qed

text \<open>C19: Opening a cached entry by its path gives the lowest free descriptor, which stands for the first free entry of the
  table of open files, at position 0 of that entry; the blocks taken on the way are given back and nothing of the user's memory
  changes. Closing the descriptor then frees it and the table's entry again. An entry found under its name takes the
  reference that \<open>dentry_close\<close> needs; the root needs none, and under the names . and .. none is taken.\<close>

theorem open_close:
  fixes k :: "'a fsys_scheme"
  assumes "tree N D k" "d0 = (if absolute then root (my_fs k) else cwd (my_fs k))" "d0 \<in> D" "cs \<noteq> []" "\<forall>c \<in> set cs. comp_ok c"
    and "lookup N (dentries k) d0 cs = Some d"
    and "cstr (fmem k) pathname (path_text absolute cs)" "length (path_text absolute cs) \<le> MAX_PATH_LEN"
    and "pathname + 128 \<le> KERNEL_VADDR_START"
    and "kmem_good k" "current k \<noteq> NULL" "kmalloc_fs 128 k = Some (p, k0)"
    and "\<exists>j \<le> MAX_ORDER. pg_list (kernel_area (bd (kmem_st k0)) j) \<noteq> []"
    and "p < 2 ^ 32 - 34" "\<forall>e \<in> D. {e..<e + 64} \<inter> {p..<p + 128} = {}"
    and "i < 32" "\<not> bit (open_fds (my_files k)) i" "\<forall>j < i. bit (open_fds (my_files k)) j"
    and "get_free_file_of_table k = Some f"
    and "d = root_dir k \<or> last cs \<notin> dots \<and> 0 \<le> atomic_read (d_count (dentries k d)) \<and>
      atomic_read (d_count (dentries k d)) + int (length cs) < 2 ^ 31"
  shows "\<exists>k1 k2. sys_open pathname flags mode k = Some (int i, k1) \<and>
    fd_array (my_files k1) i = Some f \<and> (\<forall>j. bit (open_fds (my_files k1)) j \<longleftrightarrow> bit (open_fds (my_files k)) j \<or> j = i) \<and>
    file_table k1 f = (file_table k f)\<lparr>pos := 0, f_dentry := d, f_flags := flags\<rparr> \<and>
    (\<forall>a < KERNEL_VADDR_START. fmem k1 a = fmem k a) \<and> kmem_good k1 \<and> live (kmem_st k1) = live (kmem_st k) \<and>
    sys_close (int i) k1 = Some (0, k2) \<and> open_fds (my_files k2) = open_fds (my_files k) \<and> get_free_file_of_table k2 = Some f"
proof -
  note run = open_run [OF assms(1-19), where flags = flags and mode = mode]
  then obtain k1 where k1: "sys_open pathname flags mode k = Some (int i, k1)"
    "my_files k1 = (my_files k)\<lparr>open_fds := open_fds (my_files k) OR fd_bit (int i), fd_array := (fd_array (my_files k))(i := Some f)\<rparr>"
    "file_table k1 = (file_table k)(f := (file_table k f)\<lparr>pos := 0, f_dentry := d, f_flags := flags\<rparr>)"
    "file_count k1 = (file_count k)(f := atomic_inc (file_count k f))"
    "\<forall>a < KERNEL_VADDR_START. fmem k1 a = fmem k a" "kmem_good k1" "live (kmem_st k1) = live (kmem_st k)"
    "took (length cs) (last cs \<notin> dots) d k k1" "root_dir k1 = root_dir k" by blast
  have i: "nat (int i mod 32) = i" using assms(16) by simp
  have free: "atomic_read (file_count k f) = 0" using assms(19) by (auto simp: get_free_file_of_table_def find_Some_iff)
  note inc = atomic_inc_free [OF free]
  have "d = root_dir k1 \<or> 0 < atomic_read (d_count (dentries k1 d))"
  proof (cases "d = root_dir k")
    case False
    obtain m where m: "m \<le> length cs" "counter (d_count (dentries k1 d)) = counter (d_count (dentries k d)) + of_nat m" "0 < m"
      using k1(8) False assms(20) unfolding took_def by blast
    then show ?thesis using atomic_read_plus [OF m(2)] False assms(20) by simp
  qed (simp add: k1(9))
  then obtain k2 where k2: "sys_close (int i) k1 = Some (0, k2)" "open_fds (my_files k2) = open_fds (my_files k1) AND NOT (fd_bit (int i))"
    "file_count k2 = (file_count k1)(f := snd (atomic_dec_and_sete (file_count k1 f)))"
    using close_run [of i k1 f d] assms(16) k1(2-4) inc(1) by (auto simp: bit_fd_put i)
  have "file_count k2 = file_count k" using k2(3) k1(4) inc(2) by simp
  then have "get_free_file_of_table k2 = Some f" using assms(19) by (simp add: get_free_file_of_table_def)
  moreover have "open_fds (my_files k2) = open_fds (my_files k)"
    using assms(17) by (intro bit_word_eqI) (auto simp: k2(2) k1(2) bit_fd_put i)
  moreover have "\<forall>j. bit (open_fds (my_files k1)) j \<longleftrightarrow> bit (open_fds (my_files k)) j \<or> j = i" by (simp add: k1(2) bit_fd_put i)
  ultimately show ?thesis using k1(1,2,3,5,6,7) k2(1) by (intro exI [of _ k1] exI [of _ k2]) simp
qed

lemma open_close_witness: "\<exists>k1 k2. sys_open 0x2000 0 0 (home 0x3000 kmem0) = Some (0, k1) \<and> sys_close 0 k1 = Some (0, k2)"
proof -
  let ?k = "home 0x3000 kmem0" and ?N = "home_name 0x3000"
  have 1: "path_text True [[0x61]] = [0x2f, 0x61]" by (simp add: path_text_def)
  have 2: "lookup ?N (dentries ?k) 0 [[0x61]] = Some 0x3000" by (simp add: lookup1_def home_name_def)
  have 3: "0 = (if True then root (my_fs ?k) else cwd (my_fs ?k))" "(0 :: nat) \<in> {0, 0x3000}" "[[0x61 :: u8]] \<noteq> []"
    "\<forall>c \<in> set [[0x61]]. comp_ok c" by (simp_all add: comp_ok_def)
  have 4: "cstr (fmem ?k) 0x2000 (path_text True [[0x61]])" unfolding 1 by (rule home_path) simp
  have 5: "length (path_text True [[0x61]]) \<le> MAX_PATH_LEN" "0x2000 + 128 \<le> KERNEL_VADDR_START" "current ?k \<noteq> NULL"
    by (simp_all add: 1 MAX_PATH_LEN_def KERNEL_VADDR_START_def NULL_def)
  have sz: "(128 :: u32) \<le> MAX_BLOCK_SIZE" by (simp add: MAX_BLOCK_SIZE_def)
  have h: "kmem_inv ?k kmem0 {}" using kmem0_inv kmem_inv_cong [of ?k sys0] by (simp add: sys0_def NULL_def)
  obtain p m A where p: "kmalloc ?k kmem0 128 = Some (p, ?k, m)" "kmem_inv ?k m A" "live m = insert p (live kmem0)"
    "\<exists>j \<le> MAX_ORDER. pg_list (kernel_area (bd m) j) \<noteq> []" "pg_cnt (bd m) = pg_cnt (bd kmem0)"
    using small_again [OF h sz kmem0_pages(1)] by metis
  have b: "KERNEL_VADDR_START \<le> p" "p + 32 \<le> KERNEL_VADDR_START + 4096 * 8192"
    using live_low [OF p(2), of p] p(3,5) kmem0_pages(2) by simp_all
  have 6: "kmalloc_fs 128 ?k = Some (p, ?k\<lparr>kmem_st := m\<rparr>)"
    "\<exists>j \<le> MAX_ORDER. pg_list (kernel_area (bd (kmem_st (?k\<lparr>kmem_st := m\<rparr>))) j) \<noteq> []" using p(1,4) by (simp_all add: kmalloc_fs_def)
  have 7: "p < 2 ^ 32 - 34" "\<forall>e \<in> {0, 0x3000}. {e..<e + 64} \<inter> {p..<p + 128} = {}" using b by (auto simp: KERNEL_VADDR_START_def)
  have "get_free_file_of_table ?k = Some 0" by (simp add: get_free_file_of_table_def MAX_FILE_COUNT_def upt_conv_Cons atomic_read_def)
  note 8 = this
  have 9: "(0 :: nat) < 32" "\<not> bit (open_fds (my_files ?k)) 0" "\<forall>j < 0. bit (open_fds (my_files ?k)) j" by simp_all
  have 10: "0x3000 = root_dir ?k \<or> last [[0x61]] \<notin> dots \<and> 0 \<le> atomic_read (d_count (dentries ?k 0x3000)) \<and>
      atomic_read (d_count (dentries ?k 0x3000)) + int (length [[0x61 :: u8]]) < 2 ^ 31"
    by (simp add: dots_def atomic_read_def)
  show ?thesis
    using open_close [OF home_tree 3(1-4) 2 4 5(1,2) home_good 5(3) 6 7 9 8 10, where flags = 0 and mode = 0] kmem0_inv kmem0_pages(2) by fastforce
qed

end
