(* ===== verification/Copy_On_Write.thy ===== *)
theory Copy_On_Write
  imports Page_Fault
begin

text \<open>
  What \<open>page_protect_fault\<close> of kernel/memory.c does for a page that several processes share after a fork: the page
  tables of theory Paging, the page allocator of theory Buddy and the bytes of the pages together.
\<close>

section \<open>Copy on write\<close>

lemma page_of: "unat (e :: u32) div 4096 = unat (drop_bit 12 e)"
proof -
  have "unat (drop_bit 12 e) = drop_bit 12 (unat e)" by (simp only: unsigned_drop_bit_eq) (simp add: take_unat_u32)
  then show ?thesis by (simp add: drop_bit_eq_div)
qed

lemma frame_page: "frame_of e = of_nat (unat e div 4096 * 4096)" "unat (frame_of e) = unat e div 4096 * 4096"
proof -
  have "frame_of e = push_bit 12 (drop_bit 12 e)"
    by (intro bit_word_eqI) (auto simp: bits_at bit_simps)
  also have "\<dots> = of_nat (unat (drop_bit 12 e) * 4096)" by (simp add: push_bit_eq_mult mult.commute)
  finally show f: "frame_of e = of_nat (unat e div 4096 * 4096)" by (simp only: page_of)
  have "unat e < 2 ^ 32" using unsigned_less [where 'a = nat and w = e] by simp
  then have "unat e div 4096 * 4096 < 2 ^ 32" by (simp add: order_le_less_trans [OF div_times_less_eq_dividend])
  then show "unat (frame_of e) = unat e div 4096 * 4096" unfolding f unat_of_nat by simp
qed

lemma page_of_or:
  assumes n: "n < 2 ^ 20" and c: "drop_bit 12 c = 0" shows "unat ((of_nat (n * 4096) :: u32) OR c) div 4096 = n"
proof -
  have "drop_bit 12 ((of_nat (n * 4096) :: u32) OR c) = drop_bit 12 (of_nat (n * 4096) :: u32)" using c by simp
  then have "unat ((of_nat (n * 4096) :: u32) OR c) div 4096 = unat (of_nat (n * 4096) :: u32) div 4096" by (simp only: page_of)
  also have "unat (of_nat (n * 4096) :: u32) = n * 4096" using n unfolding unat_of_nat by simp
  finally show ?thesis by simp
qed

text \<open>The page of \<open>addr\<close>: its entry \<open>e\<close>, which stands for the page \<open>pg\<close> of the user's pool.\<close>

definition maps_page :: "u32 \<Rightarrow> u32 \<Rightarrow> nat \<Rightarrow> 'a tsys_scheme \<Rightarrow> bool" where
  "maps_page addr e pg k \<longleftrightarrow> (let m = mmu_state k in
     recursive m \<and> present (pm m (pde_at m addr)) \<and> e = pm m (pte_at m addr) \<and> pg = unat e div 4096 \<and>
     direct_map m (pg_cnt (bd (kmem_st k))) \<and> small_mem (bd (kmem_st k)))"

definition set_pte :: "u32 \<Rightarrow> u32 \<Rightarrow> 'a tsys_scheme \<Rightarrow> 'a tsys_scheme" where
  "set_pte addr x k = k\<lparr>mmu_state := (mmu_state k)\<lparr>pm := (pm (mmu_state k))(pte_at (mmu_state k) addr := x)\<rparr>\<rparr>"

lemma pte_access:
  assumes "maps_page addr e pg k"
  shows "load_at (get_pte addr) k = Some e" "store_at (get_pte addr) x k = Some (set_pte addr x k)"
    "page_users e k = atomic_read (pg_count (pages (bd (kmem_st k)) pg))"
  using assms by (simp_all add: maps_page_def Let_def load_at_def load_def store_at_def store_def walk_get_pte set_pte_def
      page_users_def paddr2pg_def PG_SIZE_def)

lemma copy_page_shared:
  fixes k :: "'a fsys_scheme"
  assumes m: "maps_page addr e pg k" and inv: "buddy_inv k (bd (kmem_st k)) A" "(0, pg) \<in> A"
    and n: "1 < page_users e k" and pool: "\<exists>j \<le> MAX_ORDER. pg_list (user_area (bd (kmem_st k)) j) \<noteq> []"
  obtains new b m' where "user_start_idx (bd (kmem_st k)) \<le> new" "\<forall>x \<in> A. blk x \<inter> blk (0, new) = {}"
    "buddy_inv k b (insert (0, new) A)" "atomic_read (pg_count (pages b new)) = 1"
    "atomic_read (pg_count (pages b pg)) = page_users e k - 1"
    "m' = memcpy (page_addr new) (page_addr pg) PG_SIZE (fmem k)"
    "copy_page addr k = (if page_users e k = 2 then
       Some (set_pte addr (of_nat (new * 4096) OR 7) (k\<lparr>kmem_st := (kmem_st k)\<lparr>bd := b\<rparr>, fmem := m'\<rparr>)) else None)"
proof -
  let ?b = "bd (kmem_st k)"
  have sm: "small_mem ?b" and dm: "direct_map (mmu_state k) (pg_cnt ?b)" and pg: "pg = unat e div 4096"
    using m by (simp_all add: maps_page_def Let_def)
  obtain new b1 where a: "alloc_pages k ?b USER_POOL 0 = Some (new, k, b1)" "buddy_inv k b1 (insert (0, new) A)"
    "\<forall>x \<in> A. blk x \<inter> blk (0, new) = {}" "user_start_idx b1 = user_start_idx ?b" "pg_cnt b1 = pg_cnt ?b"
    "pages b1 = page_taken (pages ?b) new 0" "user_start_idx ?b \<le> new"
    using alloc_pages_case(2) [OF inv(1), of 0 "user_area ?b" USER_POOL] pool by (auto simp: USER_POOL_def)
  have "new \<noteq> pg" using fresh_block_notin [OF a(3)] inv(2) by auto
  then have c1: "pages b1 pg = pages ?b pg" "atomic_read (pg_count (pages b1 new)) = 1"
    by (simp_all add: a(6) page_taken_def atomic_read_def)
  have us: "page_users e k = atomic_read (pg_count (pages ?b pg))" by (rule pte_access(3) [OF m])
  obtain b2 where b2us: "user_start_idx b2 = user_start_idx b1" and f: "free_pages_idx k b1 pg 0 = Some (k, b2)" "pg_cnt b2 = pg_cnt b1" "\<forall>i. i \<noteq> pg \<longrightarrow> pages b2 i = pages b1 i"
    "buddy_inv k b2 (insert (0, new) A)" "atomic_read (pg_count (pages b2 pg)) = page_users e k - 1"
    using free_pages_case [OF a(2), of 0 pg] inv(2) n by (auto simp: us c1)
  have sm1: "small_mem b1" using sm a(4,5) by (simp add: small_mem_def)
  have lt: "pg < pg_cnt b1" "new < pg_cnt b1" using page_index_bound [OF a(2) sm1, of 0] inv(2) by auto
  then have new: "new < 2 ^ 20" using sm1 by (simp add: small_mem_def)
  let ?m = "memcpy (page_addr new) (page_addr pg) PG_SIZE (fmem k)"
  let ?k = "k\<lparr>kmem_st := (kmem_st k)\<lparr>bd := b1\<rparr>, fmem := ?m\<rparr>" and ?k2 = "k\<lparr>kmem_st := (kmem_st k)\<lparr>bd := b2\<rparr>, fmem := ?m\<rparr>"
  have g: "new_page USER_POOL k = Some (page_addr new, k\<lparr>kmem_st := (kmem_st k)\<lparr>bd := b1\<rparr>\<rparr>)"
    using a(1) by (simp add: new_page_def get_free_page_def page_addr_def)
  have old: "unat (frame_of e) + KERNEL_VADDR_START = page_addr pg"
    by (simp add: frame_page(2) pg page_addr_def PG_SIZE_def)
  have "fst (atomic_dec_and_setg (pg_count (pages b1 pg)))" using n by (simp add: atomic_dec_and_setg_fst us c1)
  then have "free_pages_idx (k'::'a fsys_scheme) b1 pg 0 = Some (k', snd (the (free_pages_idx k b1 pg 0)))" for k'
    by (simp add: free_pages_idx_def split_def Let_def)
  then have f': "free_pages_idx ?k b1 pg 0 = Some (?k, b2)" by (simp add: f(1))
  have dm1: "direct_map (mmu_state k) (pg_cnt b1)" using dm a(5) by simp
  have drop: "drop_page (page_addr pg) ?k = Some ?k2"
    using free_page_addr(1) [OF sm1 dm1 lt(1), of ?k] f' by (simp add: drop_page_def)
  define y x :: u32 where "y = of_nat (new * 4096)" and "x = y OR 7"
  have pa: "paddr_at (page_addr new) ?k2 = Some y"
    using dm1 lt(2) by (simp add: paddr_at_def direct_map_def PG_SIZE_def y_def)
  have x: "y OR PG_RWE OR PG_P OR PG_USER = x"
    by (simp add: PG_RWE_def PG_P_def PG_USER_def x_def)
  have m2: "maps_page addr e pg ?k2" using m a(5) f(2) sm1 f(1) by (simp add: maps_page_def Let_def small_mem_def a(4) b2us)
  have st: "store_at (get_pte addr) x ?k2 = Some (set_pte addr x ?k2)" by (rule pte_access(2) [OF m2])
  have px: "page_users x (set_pte addr x ?k2) = 1"
    using \<open>new \<noteq> pg\<close> f(3) c1(2) page_of_or [OF new, of 7] by (simp add: page_users_def set_pte_def paddr2pg_def PG_SIZE_def x_def y_def)
  have "copy_page addr k = (if page_users e k = 2 then Some (set_pte addr x ?k2) else None)"
    using n pte_access(1) [OF m] g drop pa st px
    by (simp add: copy_page_def old x Let_def split_def cong: if_cong)
  moreover have "atomic_read (pg_count (pages b2 new)) = 1" using \<open>new \<noteq> pg\<close> f(3) c1(2) by simp
  ultimately show thesis using that [OF a(7,3) f(4) _ f(5) refl] by (simp add: x_def y_def)
qed

text \<open>A user page is left when some page of the user's pool is in no block handed out.\<close>

lemma user_pool_left:
  assumes "buddy_inv k b A" "user_start_idx b \<le> p" "p < pool_end b" "\<forall>x \<in> A. p \<notin> blk x"
  shows "\<exists>j \<le> MAX_ORDER. pg_list (user_area b j) \<noteq> []"
proof -
  have "area_inv k (user_start_idx b) (pool_end b) (user_area b) (blocks_from (user_start_idx b) A)"
    using assms(1) by (simp add: buddy_inv_def)
  from tiles_cover [OF area_inv_tiles [OF this] assms(2,3)] obtain ord j where
    j: "(ord, j) \<in> all_blocks (free_sets (user_area b)) (blocks_from (user_start_idx b) A)" "p \<in> blk (ord, j)" by auto
  then have "(ord, j) \<notin> A" using assms(4) by blast
  then have "j \<in> free_sets (user_area b) ord" using j(1) by (auto simp: all_blocks_def blocks_from_def)
  then show ?thesis by (auto simp: free_sets_def split: if_splits)
qed

section \<open>Properties\<close>

text \<open>C20: A write to a read-only page of a writable area. The last user of the page gets it writable where it stands. Of
  two users the one that writes gets a fresh page of the user's pool with the same bytes, mapped writable for it
  alone, and the other stays the only user of the old page, which keeps its bytes. With more than two users the
  handler panics: it asserts that the old page had exactly one user more than the new one.\<close>

theorem copy_on_write:
  fixes k :: "'a psys_scheme"
  assumes "my_mm k \<noteq> 0" "find_vma (areas k) (mms k (my_mm k)) addr = Some v" "v \<noteq> 0" "vm_start (areas k v) \<le> addr"
    and "vm_flags (areas k v) AND VM_WRITE \<noteq> 0" "pm (mmu_state k) (pde_at (mmu_state k) addr) AND PG_RWE \<noteq> 0"
    and "maps_page addr e pg k" "buddy_inv k (bd (kmem_st k)) A" "(0, pg) \<in> A"
    and "\<exists>j \<le> MAX_ORDER. pg_list (user_area (bd (kmem_st k)) j) \<noteq> []"
  shows "(page_users e k = 1 \<longrightarrow> page_protect_fault addr k = Some (set_pte addr (e OR PG_RWE OR PG_USER) k)) \<and>
    (page_users e k = 2 \<longrightarrow> (\<exists>new b m'.
      page_protect_fault addr k = Some (set_pte addr (of_nat (new * 4096) OR 7) (k\<lparr>kmem_st := (kmem_st k)\<lparr>bd := b\<rparr>, fmem := m'\<rparr>)) \<and>
      user_start_idx (bd (kmem_st k)) \<le> new \<and> (\<forall>x \<in> A. blk x \<inter> blk (0, new) = {}) \<and> buddy_inv k b (insert (0, new) A) \<and>
      atomic_read (pg_count (pages b new)) = 1 \<and> atomic_read (pg_count (pages b pg)) = 1 \<and>
      (\<forall>a. m' a = (if page_addr new \<le> a \<and> a < page_addr new + 4096 then fmem k (page_addr pg + (a - page_addr new)) else fmem k a)))) \<and>
    (2 < page_users e k \<longrightarrow> page_protect_fault addr k = None)"
proof -
  have pde: "load_at (get_pde addr) k = Some (pm (mmu_state k) (pde_at (mmu_state k) addr))"
    using assms(7) by (simp add: maps_page_def Let_def load_at_def load_def walk_get_pde)
  have run: "page_protect_fault addr k = copy_page addr k"
    using assms(1-6) pde by (simp add: page_protect_fault_def)
  note acc = pte_access [OF assms(7)]
  have "copy_page addr k = Some (set_pte addr (e OR PG_RWE OR PG_USER) k)" if "page_users e k = 1"
    using that acc by (simp add: copy_page_def Let_def)
  moreover have "copy_page addr k = None" if "2 < page_users e k"
    using copy_page_shared [OF assms(7-9) _ assms(10)] that by fastforce
  moreover have "\<exists>new b m'.
      copy_page addr k = Some (set_pte addr (of_nat (new * 4096) OR 7) (k\<lparr>kmem_st := (kmem_st k)\<lparr>bd := b\<rparr>, fmem := m'\<rparr>)) \<and>
      user_start_idx (bd (kmem_st k)) \<le> new \<and> (\<forall>x \<in> A. blk x \<inter> blk (0, new) = {}) \<and> buddy_inv k b (insert (0, new) A) \<and>
      atomic_read (pg_count (pages b new)) = 1 \<and> atomic_read (pg_count (pages b pg)) = 1 \<and>
      (\<forall>a. m' a = (if page_addr new \<le> a \<and> a < page_addr new + 4096 then fmem k (page_addr pg + (a - page_addr new)) else fmem k a))"
    if two: "page_users e k = 2"
  proof -
    have "1 < page_users e k" using two by simp
    from copy_page_shared [OF assms(7-9) this assms(10)] obtain new b m' where
      "user_start_idx (bd (kmem_st k)) \<le> new" "\<forall>x \<in> A. blk x \<inter> blk (0, new) = {}"
      "buddy_inv k b (insert (0, new) A)" "atomic_read (pg_count (pages b new)) = 1" "atomic_read (pg_count (pages b pg)) = 1"
      "m' = memcpy (page_addr new) (page_addr pg) PG_SIZE (fmem k)"
      "copy_page addr k = Some (set_pte addr (of_nat (new * 4096) OR 7) (k\<lparr>kmem_st := (kmem_st k)\<lparr>bd := b\<rparr>, fmem := m'\<rparr>))"
      unfolding two by (metis one_add_one add_diff_cancel_right')
    then show ?thesis by (intro exI [of _ new] exI [of _ b] exI [of _ m']) (simp add: memcpy_correct PG_SIZE_def)
  qed
  ultimately show ?thesis unfolding run by blast
qed

text \<open>A process with one area at 0x8048000, whose first page is the page of the entry \<open>e\<close>.\<close>

definition user_mmu :: "u32 \<Rightarrow> mmu" where
  "user_mmu e = mmu32\<lparr>pm := (pm mmu32)(0x100080 := 0x500007, 0x500120 := e)\<rparr>"

definition area0 :: vm_area_struct where
  "area0 = zero_vma\<lparr>vm_start := 0x8048000, vm_end := 0x8049000, vm_flags := VM_WRITE\<rparr>"

definition shared0 :: "u32 \<Rightarrow> buddy \<Rightarrow> (tid \<Rightarrow> intr_stack) \<Rightarrow> psys" where
  "shared0 e b fr = fsys.extend ((fsys0 4096)\<lparr>task := (\<lambda>_. (task0 0)\<lparr>t_mm := 9\<rparr>), mms := (\<lambda>_. mm_at 8 0),
     kmem_st := kmem0\<lparr>bd := b\<rparr>, mmu_state := user_mmu e\<rparr>) (psys.fields (\<lambda>_. area0) fr)"

lemma shared0_fields [simp]:
  "areas (shared0 e b fr) = (\<lambda>_. area0)" "mms (shared0 e b fr) = (\<lambda>_. mm_at 8 0)" "my_mm (shared0 e b fr) = 9"
  "bd (kmem_st (shared0 e b fr)) = b" "mmu_state (shared0 e b fr) = user_mmu e" "current (shared0 e b fr) = 4096"
  by (simp_all add: shared0_def fsys.extend_def psys.defs my_mm_def)

lemma user_mmu_tables: "kernel_tables (user_mmu e) 8192"
proof -
  have "512 * 4096 < (0x2000000 :: nat)" "(0x2000000 :: nat) \<le> 1020 * 1024 * 1024" by simp_all
  from pool_tables_map [OF boot_mmu_tables this] have t: "kernel_tables mmu32 8192" by (auto simp: mmu32_def)
  have n: "(of_nat x :: u32) \<noteq> of_nat y" if "x < 2 ^ 32" "y < 2 ^ 32" "x \<noteq> y" for x y :: nat
    using that by (simp add: word_unat_eq_iff unat_of_nat)
  have i: "pm (user_mmu e) (of_nat (0x100c00 + 4 * i)) = pm mmu32 (of_nat (0x100c00 + 4 * i))" if "i < 255" for i
    using that n [of "0x100c00 + 4 * i" "0x100080"] n [of "0x100c00 + 4 * i" "0x500120"] by (simp add: user_mmu_def)
  have p: "pm (user_mmu e) (of_nat (0x101000 + 4 * pg)) = pm mmu32 (of_nat (0x101000 + 4 * pg))" if "pg < 8192" for pg
    using that n [of "0x101000 + 4 * pg" "0x100080"] n [of "0x101000 + 4 * pg" "0x500120"] by (simp add: user_mmu_def)
  have c: "cr3 (user_mmu e) = cr3 mmu32" by (simp add: user_mmu_def)
  have f: "frame_of (cr3 mmu32) = 0x100000" using t by (simp add: kernel_tables_def)
  have "recursive mmu32" using t by (simp add: kernel_tables_def)
  then have "recursive (user_mmu e)" unfolding recursive_def c f by (simp add: user_mmu_def push_bit_eq_mult)
  then show ?thesis using t unfolding kernel_tables_def c Let_def by (simp only: i p simp_thms cong: imp_cong)
qed

lemma user_mmu_map: "direct_map (user_mmu e) 8192" "recursive (user_mmu e)"
proof -
  show r: "recursive (user_mmu e)" using user_mmu_tables by (simp add: kernel_tables_def)
  have "walk (user_mmu e) (of_nat (page_addr pg)) = Some (of_nat (pg * PG_SIZE))" if "pg < 8192" for pg
    using direct_walk [OF user_mmu_tables _ that] by (simp add: page_addr_def PG_SIZE_def KERNEL_VADDR_START_def)
  then show "direct_map (user_mmu e) 8192" unfolding direct_map_def using get_paddr_eq [OF r] by blast
qed

lemma user_mmu_at: "pde_at (user_mmu e) 0x8048000 = 0x100080" "pte_at (user_mmu e) 0x8048000 = 0x500120"
proof -
  have f: "frame_of (cr3 (user_mmu e)) = 0x100000" using user_mmu_tables by (simp add: kernel_tables_def)
  show d: "pde_at (user_mmu e) 0x8048000 = 0x100080" unfolding pde_at_def f by (simp add: PDE_IDX_def push_bit_eq_mult)
  show "pte_at (user_mmu e) 0x8048000 = 0x500120" unfolding pte_at_def d
    by (simp add: user_mmu_def PTE_IDX_def frame_of_def push_bit_eq_mult)
qed

lemma copy_on_write_witness: "\<exists>(k :: psys) k' e. load_at (get_pte 0x8048000) k = Some e \<and> e AND PG_RWE = 0 \<and> page_users e k = 2 \<and>
  page_protect_fault 0x8048000 k = Some k'"
proof -
  have "area_inv sys0 2048 (pool_end bd32) (user_area bd32) {}" and pe: "pool_end bd32 = 8192"
    using bd32_inv by (simp_all add: buddy_inv_def blocks_from_def pool_end_def MAX_ORDER_def)
  have "\<exists>j \<le> MAX_ORDER. pg_list (user_area bd32 j) \<noteq> []"
    using user_pool_left [OF bd32_inv(1), of 4000] bd32_inv pe by simp
  then obtain pg b where a: "buddy_inv sys0 b {(0, pg)}" "2048 \<le> pg" "user_start_idx b = 2048" "pg_cnt b = 8192"
    "pages b = page_taken (pages bd32) pg 0"
    using alloc_pages_case(2) [OF bd32_inv(1), of 0 "user_area bd32" USER_POOL] bd32_inv by (auto simp: USER_POOL_def)
  define b2 where "b2 = b\<lparr>pages := (pages b)(pg := \<lparr>pg_count = \<lparr>counter = 2\<rparr>, pg_private = 0\<rparr>)\<rparr>"
  define e :: u32 where "e = of_nat (pg * 4096) OR 5"
  let ?k = "shared0 e b2 (\<lambda>_. undefined)"
  have sm: "small_mem b2" by (simp add: small_mem_def b2_def a(3,4))
  have pe2: "pool_end b2 = 8192" by (simp add: pool_end_def b2_def a(4) MAX_ORDER_def)
  have inv0: "buddy_inv sys0 b2 {(0, pg)}"
    using a(1) by (simp add: buddy_inv_def b2_def pool_end_def atomic_read_def)
  then have inv: "buddy_inv ?k (bd (kmem_st ?k)) {(0, pg)}"
    using area_inv_cong [of ?k sys0] by (simp add: buddy_inv_def sys0_def NULL_def)
  have lt: "pg < 8192" using page_index_bound [OF inv0 sm, of 0 pg] by (simp add: b2_def a(4))
  then have pg: "unat e div 4096 = pg" using page_of_or [of pg 5] by (simp add: e_def)
  have e: "pm (user_mmu e) 0x500120 = e" "pm (user_mmu e) 0x100080 = 0x500007" by (simp_all add: user_mmu_def)
  have m: "maps_page 0x8048000 e pg ?k"
    using user_mmu_map sm by (simp add: maps_page_def Let_def user_mmu_at e pg b2_def a(4) present_def)
  have two: "page_users e ?k = 2" using pte_access(3) [OF m] by (simp add: b2_def atomic_read_def)
  have left: "\<exists>j \<le> MAX_ORDER. pg_list (user_area (bd (kmem_st ?k)) j) \<noteq> []"
    using user_pool_left [OF inv0, of "if pg = 4000 then 4001 else 4000"] pe2 by (auto simp: b2_def a(3) blk.simps)
  have "find_vma (areas ?k) (mms ?k (my_mm ?k)) 0x8048000 = Some 8"
    unfolding find_vma_def by (subst find_vma_from.simps) (simp add: area0_def)
  from copy_on_write [OF _ this _ _ _ _ m inv _ left] two have "\<exists>k'. page_protect_fault 0x8048000 ?k = Some k'"
    by (force simp: area0_def VM_WRITE_def user_mmu_at e PG_RWE_def)
  moreover have es: "e = push_bit 12 (of_nat pg) OR 5" by (simp add: e_def push_bit_eq_mult mult.commute)
  have "e AND PG_RWE = 0"
  proof (intro bit_word_eqI)
    fix n show "bit (e AND PG_RWE) n \<longleftrightarrow> bit (0 :: u32) n"
      by (cases "n = 1") (auto simp: es PG_RWE_def bit_simps)
  qed
  ultimately show ?thesis using pte_access(1) [OF m] two by blast
qed

end
