(* ===== verification/User_Calls.thy ===== *)
theory User_Calls
  imports Syscalls Open_Close Copy_On_Write
begin

text \<open>What the system calls of theory Syscalls are for the program that makes them.\<close>

section \<open>Properties\<close>

text \<open>What each call of a program means: the kernel's function with the arguments in their types.\<close>

fun called :: "nat \<Rightarrow> nat \<Rightarrow> ucall \<Rightarrow> 'a psys_scheme \<Rightarrow> (int \<times> 'a psys_scheme) option" where
  "called e l U_fork = sys_fork"
| "called e l (U_exit st) = (\<lambda>k. map_option (\<lambda>k. (0, k)) (sys_exit (sint st) k))"
| "called e l (U_read fd p n) = sys_read (sint fd) (unat p) n"
| "called e l (U_write fd p n) = sys_write (sint fd) (unat p) n"
| "called e l (U_open path flags mode) = sys_open (unat path) flags (sint mode)"
| "called e l (U_close fd) = sys_close (sint fd)"
| "called e l (U_execve path argv envp) = sys_execve e (unat path) (unat argv) (unat envp)"
| "called e l (U_chdir path) = sys_chdir (unat path)"
| "called e l U_getpid = (\<lambda>k. Some (sint (sys_getpid k), k))"
| "called e l (U_mkdir path mode) = sys_mkdir (unat path) (ucast mode)"
| "called e l (U_getcwd p sz) = sys_getcwd (unat p) sz"
| "called e l (U_openat fd path flags mode) = sys_openat (sint fd) (unat path) flags (sint mode)"
| "called e l (U_mkdirat fd path mode) = sys_mkdirat (sint fd) (unat path) (ucast mode)"
| "called e l U_printdir = sys_printdir l"

text \<open>C21: Every stub of the program's library reaches its own function of the kernel with all its arguments in their
  places, whatever the other registers hold; the program gets the result, or -1 with the error in \<open>errno\<close>.\<close>

theorem stub_reaches_handler:
  "ustub e l r c k = (case called e l c k of None \<Rightarrow> None
     | Some (ret, k') \<Rightarrow> if 0 \<le> to_int32 ret then Some (to_int32 ret, k') else Some (- 1, k'\<lparr>errno := to_int32 (- to_int32 ret)\<rparr>))"
proof -
  have n: "unat NR_exit = 1" "unat NR_fork = 2" "unat NR_read = 3" "unat NR_write = 4" "unat NR_open = 5" "unat NR_close = 6"
    "unat NR_execve = 11" "unat NR_chdir = 12" "unat NR_getpid = 20" "unat NR_mkdir = 39" "unat NR_getcwd = 48"
    "unat NR_openat = 243" "unat NR_mkdirat = 244" "unat NR_printdir = 300"
    by (simp_all add: NR_exit_def NR_fork_def NR_read_def NR_write_def NR_open_def NR_close_def NR_execve_def NR_chdir_def
        NR_getpid_def NR_mkdir_def NR_getcwd_def NR_openat_def NR_mkdirat_def NR_printdir_def)
  note d = syscall0_def syscall1_def syscall2_def syscall3_def syscall4_def syscall_entry_def set_errno_def n syscall_nr_def
  have t: "syscall_table 1 = Some Sys_exit" "syscall_table 2 = Some Sys_fork" "syscall_table 3 = Some Sys_read"
    "syscall_table 4 = Some Sys_write" "syscall_table 5 = Some Sys_open" "syscall_table 6 = Some Sys_close"
    "syscall_table 11 = Some Sys_execve" "syscall_table 12 = Some Sys_chdir" "syscall_table 20 = Some Sys_getpid"
    "syscall_table 39 = Some Sys_mkdir" "syscall_table 48 = Some Sys_getcwd" "syscall_table 243 = Some Sys_openat"
    "syscall_table 244 = Some Sys_mkdirat" "syscall_table 300 = Some Sys_printdir"
    by (simp_all add: syscall_table_def)
  show ?thesis
    by (cases c) (simp_all only: ustub.simps d t ASSERT_bind_Some Option.bind.bind_lunit run_handler_def sys_fn.case called.simps
      regs.select_convs regs.update_convs, simp_all split: option.split)
qed

text \<open>C26: Closing a number that is no open descriptor - negative, not below 64, or with its bit clear - gives the program -1
  and the error \<open>EBADF\<close>, and changes nothing else.\<close>

theorem close_bad_descriptor:
  fixes k :: "'a usys_scheme"
  assumes "sint fd < 0 \<or> 64 \<le> sint fd \<or> \<not> bit (open_fds (my_files k)) (nat (sint fd mod 32))"
  shows "ustub e l r (U_close fd) k = Some (- 1, k\<lparr>errno := EBADF\<rparr>)"
proof -
  have "sys_close (sint fd) k = Some (- EBADF, k)"
    using assms by (auto simp: sys_close_def MAX_FILE_COUNT_def fd_bit_and)
  moreover have "to_int32 (- EBADF) = - EBADF" "to_int32 EBADF = EBADF" "0 < EBADF"
    by (simp_all add: EBADF_def to_int32_id)
  moreover have "unat NR_close < syscall_nr" "syscall_table (unat NR_close) = Some Sys_close"
    by (simp_all add: NR_close_def syscall_nr_def syscall_table_def)
  ultimately show ?thesis
    by (simp add: syscall1_def syscall_entry_def run_handler_def set_errno_def)
qed

lemma close_bad_descriptor_witness:
  "\<forall>r. \<exists>(k :: usys) k'. ustub 0 0 r (U_close 5) k = Some (- 1, k') \<and> errno k' = EBADF \<and> kmem_st k' = kmem_st k"
proof
  fix r
  let ?k = "psys.extend (shared0 0 bd32 (\<lambda>_. undefined)) (usys.fields 0)"
  have "\<not> bit (open_fds (my_files ?k)) (nat (sint (5 :: u32) mod 32))"
    by (simp add: psys.extend_def usys.defs my_files_def shared0_def fsys.extend_def psys.defs fsys0_def tsys.extend_def fsys.defs tsys0_def)
  then have "ustub 0 0 r (U_close 5) ?k = Some (- 1, ?k\<lparr>errno := EBADF\<rparr>)" by (intro close_bad_descriptor) blast
  then show "\<exists>(k :: usys) k'. ustub 0 0 r (U_close 5) k = Some (- 1, k') \<and> errno k' = EBADF \<and> kmem_st k' = kmem_st k"
    by (intro exI [of _ ?k] exI [of _ "?k\<lparr>errno := EBADF\<rparr>"]) simp
qed

end
