(* ===== verification/Disk_Scan.thy ===== *)
theory Disk_Scan
  imports File_Io
begin

text \<open>
  The start of device/ide.c: finding the disks and their partitions. The state adds the two channels with their
  disks (channel, device), the partitions of each disk and \<open>partition_list\<close>. While a disk is worked on, its channel
  is \<open>chan\<close> and the disk is \<open>drive\<close> of theory Inode. Names are byte strings.
\<close>

type_synonym disk_id = "nat \<times> nat"

datatype part_id = Prim nat | Logic nat

record dsys = fsys +
  irqs :: intr_state
  channel_cnt :: nat
  channels :: "nat \<Rightarrow> ide_channel"
  ch_name :: "nat \<Rightarrow> u8 list"
  devices :: "disk_id \<Rightarrow> disk"
  parts :: "disk_id \<times> part_id \<Rightarrow> partition"
  partition_list :: "(disk_id \<times> part_id) list"
  ext_lba_base :: u32
  p_no :: u8
  l_no :: u8

definition enter_disk :: "disk_id \<Rightarrow> 'a dsys_scheme \<Rightarrow> 'a dsys_scheme" where
  "enter_disk d k = k\<lparr>chan := channels k (fst d), drive := devices k d\<rparr>"

definition leave_disk :: "disk_id \<Rightarrow> 'a dsys_scheme \<Rightarrow> 'a dsys_scheme" where
  "leave_disk d k = k\<lparr>channels := (channels k)(fst d := chan k)\<rparr>"

section \<open>Identification\<close>

text \<open>\<open>idx\<close> is a \<open>uint8_t\<close>: for more than 254 bytes the loop would not end.\<close>

partial_function (option) swap_from :: "u8 \<Rightarrow> nat \<Rightarrow> nat \<Rightarrow> nat \<Rightarrow> mem \<Rightarrow> mem option" where
  "swap_from idx dst to len m =
     (if unat idx < len
      then swap_from (idx + 2) (dst + 2) to len (m(to + unat idx + 1 := m dst, to + unat idx := m (dst + 1)))
      else Some (m(to + unat idx := 0)))"

definition swap_pairs_bytes :: "nat \<Rightarrow> nat \<Rightarrow> nat \<Rightarrow> mem \<Rightarrow> mem option" where
  "swap_pairs_bytes dst to len m = swap_from 0 dst to len m"

text \<open>\<open>id_info\<close> and \<open>text\<close> are the two arrays on the stack. What becomes of the strings is only printed in a debug
  build.\<close>

definition identify_disk :: "nat \<Rightarrow> nat \<Rightarrow> 'a dsys_scheme \<Rightarrow> 'a dsys_scheme option" where
  "identify_disk id_info text k = do {
     let ch = cmd_out CMD_IDENTITY (select_disk (drive k) (chan k));
     (k, ch) \<leftarrow> wait_done k ch;
     (ok, ch) \<leftarrow> busy_wait ch;
     if \<not> ok then PANIC
     else do {
       (ch, m) \<leftarrow> read_from_sector id_info 1 ch (fmem k);
       m \<leftarrow> swap_pairs_bytes (id_info + 20) text 20 m;
       let m = memset text 0 64 m;
       m \<leftarrow> swap_pairs_bytes (id_info + 54) text 40 m;
       Some (k\<lparr>chan := ch, fmem := m\<rparr>) } }"

section \<open>Partition tables\<close>

definition pt_entry :: "nat \<Rightarrow> nat \<Rightarrow> nat" where "pt_entry bs j = bs + 446 + 16 * j"
definition pt_fs_type :: "mem \<Rightarrow> nat \<Rightarrow> nat \<Rightarrow> u8" where "pt_fs_type m bs j = m (pt_entry bs j + 4)"
definition pt_start_lba :: "mem \<Rightarrow> nat \<Rightarrow> nat \<Rightarrow> u32" where "pt_start_lba m bs j = word32_at m (pt_entry bs j + 8)"
definition pt_sec_cnt :: "mem \<Rightarrow> nat \<Rightarrow> nat \<Rightarrow> u32" where "pt_sec_cnt m bs j = word32_at m (pt_entry bs j + 12)"

definition dec_digits :: "nat \<Rightarrow> u8 list" where "dec_digits n = show_nat 10 n"

definition zero_part :: partition where
  "zero_part = \<lparr>start_lba = 0, sec_cnt = 0, part_name = [],
     sb = \<lparr>magic = 0, sb_sec_cnt = 0, inode_cnt = 0, part_lba_base = 0, block_bitmap_lba = 0, block_bitmap_sects = 0,
       inode_bitmap_lba = 0, inode_bitmap_sects = 0, inode_table_lba = 0, inode_table_sects = 0, data_start_lba = 0,
       root_inode_no = 0, dir_entry_size = 0\<rparr>,
     block_bitmap = \<lparr>bits = (\<lambda>_. 0), byte_size = 0, b_lock = mutex_lock_init\<rparr>,
     inode_bitmap = \<lparr>bits = (\<lambda>_. 0), byte_size = 0, b_lock = mutex_lock_init\<rparr>, open_inodes = []\<rparr>"

definition add_part :: "disk_id \<Rightarrow> part_id \<Rightarrow> u32 \<Rightarrow> u32 \<Rightarrow> nat \<Rightarrow> 'a dsys_scheme \<Rightarrow> 'a dsys_scheme" where
  "add_part dk i lba cnt no k =
     (let p = (parts k (dk, i))\<lparr>start_lba := unat lba, sec_cnt := unat cnt, part_name := d_name (devices k dk) @ dec_digits no\<rparr>
      in k\<lparr>parts := (parts k)((dk, i) := p), partition_list := partition_list k @ [(dk, i)]\<rparr>)"

definition add_prim :: "disk_id \<Rightarrow> u32 \<Rightarrow> nat \<Rightarrow> nat \<Rightarrow> 'a dsys_scheme \<Rightarrow> 'a dsys_scheme option" where
  "add_prim dk ext_lba bs j k = do {
     let n = unat (p_no k);
     let k = add_part dk (Prim n) (ext_lba + pt_start_lba (fmem k) bs j) (pt_sec_cnt (fmem k) bs j) (n + 1) k;
     let k = k\<lparr>p_no := p_no k + 1\<rparr>;
     ASSERT (p_no k < 4);
     Some k }"

definition add_logic :: "disk_id \<Rightarrow> u32 \<Rightarrow> nat \<Rightarrow> nat \<Rightarrow> 'a dsys_scheme \<Rightarrow> 'a dsys_scheme" where
  "add_logic dk ext_lba bs j k =
     (let n = unat (l_no k);
          k = add_part dk (Logic n) (ext_lba + pt_start_lba (fmem k) bs j) (pt_sec_cnt (fmem k) bs j) (n + 5) k
      in k\<lparr>l_no := l_no k + 1\<rparr>)"

text \<open>\<open>partition_scan\<close> from the entry \<open>j\<close> of the sector in \<open>bs\<close> on; \<open>read_boot\<close> is its start. With eight logical
  partitions it returns at once, without \<open>kfree\<close>.\<close>

definition read_boot :: "u32 \<Rightarrow> 'a dsys_scheme \<Rightarrow> (nat \<times> 'a dsys_scheme) option" where
  "read_boot ext_lba k = do {
     (bs, k) \<leftarrow> kmalloc_fs 512 k;
     k \<leftarrow> read_disk (unat ext_lba) bs 1 k;
     Some (bs, k) }"

definition sub_lba :: "u32 \<Rightarrow> 'a dsys_scheme \<Rightarrow> u32 \<times> 'a dsys_scheme" where
  "sub_lba lba k =
     (if ext_lba_base k \<noteq> 0 then (lba + ext_lba_base k, k) else (lba, k\<lparr>ext_lba_base := lba\<rparr>))"

partial_function (option) scan_entries :: "disk_id \<Rightarrow> u32 \<Rightarrow> nat \<Rightarrow> nat \<Rightarrow> 'a dsys_scheme \<Rightarrow> 'a dsys_scheme option" where
  "scan_entries dk ext_lba bs j k =
     (if 4 \<le> j then kfree_fs bs k
      else if pt_fs_type (fmem k) bs j = 5
      then do {
        let (lba, k) = sub_lba (pt_start_lba (fmem k) bs j) k;
        (bs', k) \<leftarrow> read_boot lba k;
        k \<leftarrow> scan_entries dk lba bs' 0 k;
        scan_entries dk ext_lba bs (j + 1) k }
      else if pt_fs_type (fmem k) bs j \<noteq> 0
      then (if ext_lba = 0
        then do {
          k \<leftarrow> add_prim dk ext_lba bs j k;
          scan_entries dk ext_lba bs (j + 1) k }
        else (let k = add_logic dk ext_lba bs j k
          in if 8 \<le> l_no k then Some k else scan_entries dk ext_lba bs (j + 1) k))
      else scan_entries dk ext_lba bs (j + 1) k)"

definition partition_scan :: "disk_id \<Rightarrow> u32 \<Rightarrow> 'a dsys_scheme \<Rightarrow> 'a dsys_scheme option" where
  "partition_scan dk ext_lba k = do {
     (bs, k) \<leftarrow> read_boot ext_lba k;
     scan_entries dk ext_lba bs 0 k }"

section \<open>Initialisation\<close>

definition init_channel :: "nat \<Rightarrow> 'a dsys_scheme \<Rightarrow> 'a dsys_scheme option" where
  "init_channel n k = do {
     (base, irq) \<leftarrow> (if n = 0 then Some (0x1f0, 0x20 + 14) else if n = 1 then Some (0x170, 0x20 + 15) else PANIC);
     let ch = (channels k n)\<lparr>port_base := base, irq_no := irq, expecting_intr := False, ch_lock := mutex_lock_init,
       disk_done := sema_init 0\<rparr>;
     let k = k\<lparr>channels := (channels k)(n := ch), ch_name := (ch_name k)(n := [105, 100, 101] @ dec_digits n)\<rparr>;
     s \<leftarrow> register_handler (unat irq) Intr_hd_handler (irqs k);
     Some (k\<lparr>irqs := s\<rparr>) }"

definition init_disk :: "nat \<Rightarrow> nat \<Rightarrow> disk_id \<Rightarrow> 'a dsys_scheme \<Rightarrow> 'a dsys_scheme option" where
  "init_disk id_info text d k = do {
     let dk = \<lparr>d_name = [115, 100, of_nat (97 + fst d * 2 + snd d)], dev_no = of_nat (snd d)\<rparr>;
     let k = enter_disk d (k\<lparr>devices := (devices k)(d := dk)\<rparr>);
     k \<leftarrow> identify_disk id_info text k;
     k \<leftarrow> (if snd d \<noteq> 0 then partition_scan d 0 k else Some k);
     Some (leave_disk d (k\<lparr>p_no := 0, l_no := 0\<rparr>)) }"

fun init_channels :: "nat \<Rightarrow> nat \<Rightarrow> nat list \<Rightarrow> 'a dsys_scheme \<Rightarrow> 'a dsys_scheme option" where
  "init_channels id_info text [] k = Some k"
| "init_channels id_info text (n # ns) k = do {
     k \<leftarrow> init_channel n k;
     k \<leftarrow> init_disk id_info text (n, 0) k;
     k \<leftarrow> init_disk id_info text (n, 1) k;
     init_channels id_info text ns k }"

text \<open>\<open>hd_cnt\<close> is the number of disks that the BIOS has left at 0x475.\<close>

definition ide_init :: "nat \<Rightarrow> nat \<Rightarrow> u8 \<Rightarrow> 'a dsys_scheme \<Rightarrow> 'a dsys_scheme option" where
  "ide_init id_info text hd_cnt k = do {
     ASSERT (0 < hd_cnt);
     let k = k\<lparr>partition_list := [], parts := (\<lambda>_. zero_part), channel_cnt := DIV_ROUND_UP (unat hd_cnt) 2\<rparr>;
     init_channels id_info text [0..<channel_cnt k] k }"

end
