(* ===== verification/Format.thy ===== *)
theory Format
  imports Disk_Scan Open
begin

text \<open>
  The rest of fs/fs.c: formatting a partition, mounting one, and the start of the file system. The super block
  is 13 words of a sector; its place on the stack is a parameter, and the 460 bytes of padding behind it go to
  the disk as they are.
\<close>

definition FIZZ_FILE_SYSTEM :: u32 where "FIZZ_FILE_SYSTEM = 0x20000504"
definition MAX_FILES_PER_PART :: u32 where "MAX_FILES_PER_PART = 4096"

definition sb_bytes :: "super_block \<Rightarrow> u8 list" where
  "sb_bytes s = bytes32 (magic s) @ concat (map (\<lambda>n. bytes32 (of_nat n))
     [sb_sec_cnt s, inode_cnt s, part_lba_base s, block_bitmap_lba s, block_bitmap_sects s, inode_bitmap_lba s,
      inode_bitmap_sects s, inode_table_lba s, inode_table_sects s, data_start_lba s, root_inode_no s, dir_entry_size s])"

definition load_sb :: "mem \<Rightarrow> nat \<Rightarrow> super_block" where
  "load_sb m a = (let w = (\<lambda>j. unat (word32_at m (a + 4 * j))) in
     \<lparr>magic = word32_at m a, sb_sec_cnt = w 1, inode_cnt = w 2, part_lba_base = w 3, block_bitmap_lba = w 4,
      block_bitmap_sects = w 5, inode_bitmap_lba = w 6, inode_bitmap_sects = w 7, inode_table_lba = w 8,
      inode_table_sects = w 9, data_start_lba = w 10, root_inode_no = w 11, dir_entry_size = w 12\<rparr>)"

section \<open>Formatting\<close>

definition div_up :: "u32 \<Rightarrow> u32 \<Rightarrow> u32" where "div_up x step = (x + step - 1) div step"

text \<open>How many sectors the bitmap of blocks takes, and how many blocks there are.\<close>

definition format_sizes :: "u32 \<Rightarrow> u32 \<times> u32" where
  "format_sizes cnt =
     (let used_sects = 1 + 1 + div_up MAX_FILES_PER_PART (of_nat BITS_PER_SECTOR) + div_up (MAX_FILES_PER_PART * 64) (of_nat SECTOR_SIZE);
          free_sects = cnt - used_sects;
          block_bitmap_sects = div_up free_sects (of_nat BITS_PER_SECTOR);
          bit_len = free_sects - block_bitmap_sects
      in (div_up bit_len (of_nat BITS_PER_SECTOR), bit_len))"

definition format_sb :: "partition \<Rightarrow> super_block" where
  "format_sb part =
     (let base = of_nat (start_lba part) :: u32;
          bsects = fst (format_sizes (of_nat (sec_cnt part)));
          isects = div_up MAX_FILES_PER_PART (of_nat BITS_PER_SECTOR);
          tsects = div_up (MAX_FILES_PER_PART * 64) (of_nat SECTOR_SIZE);
          bmap = base + 2; imap = bmap + bsects; table = imap + isects
      in \<lparr>magic = FIZZ_FILE_SYSTEM, sb_sec_cnt = sec_cnt part, inode_cnt = unat MAX_FILES_PER_PART,
          part_lba_base = unat base, block_bitmap_lba = unat bmap, block_bitmap_sects = unat bsects,
          inode_bitmap_lba = unat imap, inode_bitmap_sects = unat isects, inode_table_lba = unat table,
          inode_table_sects = unat tsects, data_start_lba = unat (table + tsects), root_inode_no = 0, dir_entry_size = 32\<rparr>)"

fun clear_bits :: "nat \<Rightarrow> nat list \<Rightarrow> mem \<Rightarrow> mem" where
  "clear_bits a [] m = m"
| "clear_bits a (n # ns) m = clear_bits a ns (m(a := m a AND NOT (push_bit n 1)))"

text \<open>The last loop runs up to and with \<open>block_bitmap_last_bit\<close>.\<close>

definition block_map_bytes :: "nat \<Rightarrow> nat \<Rightarrow> nat \<Rightarrow> mem \<Rightarrow> mem" where
  "block_map_bytes io size_b bit_len m =
     (let m = memset io 0 size_b m;
          m = m(io := m io OR 0x01);
          last_byte = bit_len div 8;
          last_bit = bit_len mod 8;
          m = memset (io + last_byte) 0xff (SECTOR_SIZE - last_byte mod SECTOR_SIZE) m
      in clear_bits (io + last_byte) [0..<last_bit + 1] m)"

definition inode_map_bytes :: "nat \<Rightarrow> nat \<Rightarrow> mem \<Rightarrow> mem" where
  "inode_map_bytes io size_b m = (let m = memset io 0 size_b m in m(io := m io OR 0x1))"

definition inode_table_bytes :: "super_block \<Rightarrow> nat \<Rightarrow> nat \<Rightarrow> mem \<Rightarrow> mem" where
  "inode_table_bytes s io size_b m =
     (let m = memset io 0 size_b m;
          m = writes m (io + 2) (bytes16 FT_DIR);
          m = writes m (io + 4) (bytes32 (of_nat (dir_entry_size s * 2)))
      in writes m (io + 12) (bytes32 (of_nat (data_start_lba s))))"

definition root_dir_bytes :: "nat \<Rightarrow> nat \<Rightarrow> mem \<Rightarrow> mem" where
  "root_dir_bytes io size_b m =
     (let m = memset io 0 size_b m;
          m = m(io := 0x2e);
          m = writes m (io + 28) (bytes32 0);
          m = writes m (io + 26) (bytes16 FT_DIR);
          m = writes m (io + 24) (bytes16 1);
          m = m(io + 32 := 0x2e, io + 33 := 0x2e);
          m = writes m (io + 60) (bytes32 0);
          m = writes m (io + 58) (bytes16 FT_DIR)
      in writes m (io + 56) (bytes16 2))"

definition format_buf_size :: "super_block \<Rightarrow> nat" where
  "format_buf_size s = max (max (block_bitmap_sects s) (inode_bitmap_sects s)) (inode_table_sects s) * SECTOR_SIZE"

text \<open>What goes to the disk once there is a buffer.\<close>

definition format_areas :: "super_block \<Rightarrow> nat \<Rightarrow> nat \<Rightarrow> 'a fsys_scheme \<Rightarrow> 'a fsys_scheme option" where
  "format_areas s bit_len io k = do {
     let n = format_buf_size s;
     let k = k\<lparr>fmem := block_map_bytes io n bit_len (fmem k)\<rparr>;
     k \<leftarrow> write_disk (block_bitmap_lba s) io (block_bitmap_sects s) k;
     let k = k\<lparr>fmem := inode_map_bytes io n (fmem k)\<rparr>;
     k \<leftarrow> write_disk (inode_bitmap_lba s) io (inode_bitmap_sects s) k;
     let k = k\<lparr>fmem := inode_table_bytes s io n (fmem k)\<rparr>;
     k \<leftarrow> write_disk (inode_table_lba s) io (inode_table_sects s) k;
     let k = k\<lparr>fmem := root_dir_bytes io n (fmem k)\<rparr>;
     write_disk (data_start_lba s) io 1 k }"

text \<open>A block of more than 2032 bytes may be smaller than asked for: the buffer of 262144 bytes is 32 bytes longer than its
  64 pages. What the code writes there hits the page behind them; that is defined here if this page has no user.\<close>

definition tail_free :: "nat \<Rightarrow> nat \<Rightarrow> kmem \<Rightarrow> bool" where
  "tail_free p n km =
     (let z = (p + n - 1 - KERNEL_VADDR_START) div PG_SIZE
      in z = (p - KERNEL_VADDR_START) div PG_SIZE \<or> atomic_read (pg_count (pages (bd km) z)) = 0)"

definition partition_format :: "nat \<Rightarrow> partition \<Rightarrow> 'a fsys_scheme \<Rightarrow> 'a fsys_scheme option" where
  "partition_format sb_at part k = do {
     let s = format_sb part;
     let k = k\<lparr>fmem := writes (fmem k) sb_at (sb_bytes s)\<rparr>;
     k \<leftarrow> write_disk (start_lba part + 1) sb_at 1 k;
     (io, k) \<leftarrow> kmalloc_fs (of_nat (format_buf_size s)) k;
     ASSERT (tail_free io (format_buf_size s) (kmem_st k));
     k \<leftarrow> format_areas s (unat (snd (format_sizes (of_nat (sec_cnt part))))) io k;
     kfree_fs io k }"

section \<open>Mounting\<close>

text \<open>\<open>bits\<close> becomes a pointer to a block of \<open>kmalloc\<close> filled from the disk; a bitmap of the model carries the
  bytes from that address on.\<close>

definition load_bitmap :: "nat \<Rightarrow> nat \<Rightarrow> bitmap \<Rightarrow> 'a fsys_scheme \<Rightarrow> (bitmap \<times> 'a fsys_scheme) option" where
  "load_bitmap lba sects b k = do {
     (p, k) \<leftarrow> kmalloc_fs (of_nat (sects * SECTOR_SIZE)) k;
     k \<leftarrow> read_disk lba p sects k;
     Some (b\<lparr>bits := (\<lambda>j. fmem k (p + j)), byte_size := sects * SECTOR_SIZE\<rparr>, k) }"

definition mount_super :: "partition \<Rightarrow> 'a fsys_scheme \<Rightarrow> 'a fsys_scheme option" where
  "mount_super part k = do {
     (sb_buf, k) \<leftarrow> kmalloc_fs (of_nat SECTOR_SIZE) k;
     (p, k) \<leftarrow> kmalloc_fs 512 k;
     let k = k\<lparr>fmem := memset sb_buf 0 SECTOR_SIZE (fmem k)\<rparr>;
     k \<leftarrow> read_disk (start_lba part + 1) sb_buf 1 k;
     let s = load_sb (fmem k) sb_buf;
     (bb, k) \<leftarrow> load_bitmap (block_bitmap_lba s) (block_bitmap_sects s) (block_bitmap part) k;
     (ib, k) \<leftarrow> load_bitmap (inode_bitmap_lba s) (inode_bitmap_sects s) (inode_bitmap part) k;
     Some (k\<lparr>cur_part := part\<lparr>sb := s, block_bitmap := bb, inode_bitmap := ib, open_inodes := []\<rparr>\<rparr>) }"

fun mount_partition :: "u8 list \<Rightarrow> (disk_id \<times> part_id) list \<Rightarrow> 'a dsys_scheme \<Rightarrow> 'a dsys_scheme option" where
  "mount_partition name [] k = None"
| "mount_partition name (p # ps) k =
     (if part_name (parts k p) = name then mount_super (parts k p) (enter_disk (fst p) k)
      else mount_partition name ps k)"

section \<open>The start\<close>

definition format_part :: "nat \<Rightarrow> nat \<Rightarrow> disk_id \<Rightarrow> nat \<Rightarrow> 'a dsys_scheme \<Rightarrow> 'a dsys_scheme option" where
  "format_part sb_at sb_buf dk i k =
     (let part = parts k (dk, if i < 4 then Prim i else Logic (i - 4))
      in if sec_cnt part = 0 then Some k
         else do {
           let k = k\<lparr>fmem := memset sb_buf 0 SECTOR_SIZE (fmem k)\<rparr>;
           k \<leftarrow> read_disk (start_lba part + 1) sb_buf 1 k;
           if magic (load_sb (fmem k) sb_buf) = FIZZ_FILE_SYSTEM then Some k
           else partition_format sb_at part k })"

fun format_parts :: "nat \<Rightarrow> nat \<Rightarrow> disk_id \<Rightarrow> nat list \<Rightarrow> 'a dsys_scheme \<Rightarrow> 'a dsys_scheme option" where
  "format_parts sb_at sb_buf dk [] k = Some k"
| "format_parts sb_at sb_buf dk (i # ls) k = do {
     k \<leftarrow> format_part sb_at sb_buf dk i k;
     format_parts sb_at sb_buf dk ls k }"

text \<open>\<open>part_idx\<close> is not reset: the loop over the partitions runs for the first channel only.\<close>

fun format_disks :: "nat \<Rightarrow> nat \<Rightarrow> nat list \<Rightarrow> nat \<Rightarrow> 'a dsys_scheme \<Rightarrow> 'a dsys_scheme option" where
  "format_disks sb_at sb_buf [] part_idx k = Some k"
| "format_disks sb_at sb_buf (c # cs) part_idx k = do {
     k \<leftarrow> format_parts sb_at sb_buf (c, 1) [part_idx..<12] (enter_disk (c, 1) k);
     format_disks sb_at sb_buf cs 12 (leave_disk (c, 1) k) }"

definition filesys_init :: "nat \<Rightarrow> 'a dsys_scheme \<Rightarrow> 'a dsys_scheme option" where
  "filesys_init sb_at k = do {
     (sb_buf, k) \<leftarrow> kmalloc_fs (of_nat SECTOR_SIZE) k;
     ASSERT (sb_buf \<noteq> 0);
     k \<leftarrow> format_disks sb_at sb_buf [0..<channel_cnt k] 0 k;
     k \<leftarrow> kfree_fs sb_buf k;
     k \<leftarrow> mount_partition [115, 100, 98, 49] (partition_list k) k;
     open_root_dir (file_init k) }"

end
