(* ===== verification/Format_Mount.thy ===== *)
theory Format_Mount
  imports Format
begin

text \<open>What formatting and mounting of fs/fs.c promise: which blocks the bitmap has as free, and that mounting finds on
  the disk what formatting put there.\<close>

section \<open>Lemmas\<close>

lemma clear_bits_at:
  "set ns \<subseteq> {..<8} \<Longrightarrow> clear_bits a ns m x = (if x = a then clear_bits a ns m a else m x)"
  "set ns \<subseteq> {..<8} \<Longrightarrow> i < 8 \<Longrightarrow> bit (clear_bits a ns m a) i \<longleftrightarrow> bit (m a) i \<and> i \<notin> set ns"
  by (induction ns arbitrary: m) (auto simp: bit_simps split: if_splits)

lemma memset_at: "memset s c n m a = (if s \<le> a \<and> a < s + n then c else m a)"
  using memset_from_eq [of 0 s c n m] by (simp add: memset_def)

lemma bit_ff: assumes "i < 8" shows "bit (0xff :: u8) i"
proof -
  have e: "(0xff :: u8) = - 1" by simp
  show ?thesis unfolding e using assms by simp
qed

lemma map_arith:
  fixes n q i L r l T E :: nat
  assumes "n = 8 * q + i" "i < 8" "l = 8 * L + r" "r < 8" "T = 512 * E" "L < T"
  shows "(if q = L then r < i else if L < q \<and> q < T then True else q = 0 \<and> i = 0) \<longleftrightarrow> n = 0 \<and> 8 \<le> l \<or> l < n \<and> n < 4096 * E"
proof -
  consider "q = L" | "q < L" | "L < q" "q < T" | "L < q" "T \<le> q" by linarith
  then show ?thesis
  proof cases
    case 1
    have "n < 4096 * E" using assms 1 by linarith
    then show ?thesis using assms 1 by (cases "L = 0") auto
  next
    case 2
    then show ?thesis using assms by auto
  next
    case 3
    have "l < n" "n < 4096 * E" using assms 3 by linarith+
    then show ?thesis using 3 by simp
  next
    case 4
    have "\<not> n < 4096 * E" "n \<noteq> 0" using assms 4 by linarith+
    then show ?thesis using 4 by simp
  qed
qed

lemma format_map_bits:
  assumes "(bit_len div 4096 + 1) * 512 \<le> size_b" "n < 8 * size_b"
  shows "bit_at (\<lambda>j. block_map_bytes io size_b bit_len m (io + j)) n \<longleftrightarrow>
    n = 0 \<and> 8 \<le> bit_len \<or> bit_len < n \<and> n < 4096 * (bit_len div 4096 + 1)"
proof -
  define L i where "L = bit_len div 8" and "i = n mod 8"
  have i: "i < 8" "n = 8 * (n div 8) + i" "n div 8 < size_b" using assms(2) by (simp_all add: i_def less_mult_imp_div_less mult.commute)
  have bl: "bit_len = 8 * L + bit_len mod 8" by (simp add: L_def)
  define ns where "ns = [0..<bit_len mod 8 + 1]"
  have "bit_len mod 8 < 8" by simp
  then have ns: "set ns \<subseteq> {..<8}" "\<And>j. j \<in> set ns \<longleftrightarrow> j \<le> bit_len mod 8" by (auto simp: ns_def)
  note cb = clear_bits_at [OF ns(1)]
  have sec: "L div 512 = bit_len div 4096" by (simp add: L_def div_mult2_eq [symmetric])
  then have e: "L + (512 - L mod 512) = 512 * (bit_len div 4096 + 1)"
    using mod_less_divisor [of 512 L] div_mult_mod_eq [of L 512] by (simp add: algebra_simps)
  have lt: "0 < 512 - L mod 512" by simp
  define b where "b = block_map_bytes io size_b bit_len m (io + n div 8)"
  have b: "bit b i \<longleftrightarrow> (if n div 8 = L then bit_len mod 8 < i
      else if L < n div 8 \<and> n div 8 < L + (512 - L mod 512) then True else n div 8 = 0 \<and> i = 0)"
    using i lt bit_ff [OF i(1)] unfolding b_def block_map_bytes_def Let_def L_def [symmetric] ns_def [symmetric]
      cb(1) [of _ _ "io + n div 8"]
    by (auto simp: cb(2) ns(2) memset_at SECTOR_SIZE_def bit_1_iff not_le)
  have "bit_at (\<lambda>j. block_map_bytes io size_b bit_len m (io + j)) n \<longleftrightarrow> bit b i" by (simp add: bit_at_def b_def i_def)
  moreover have "bit_len mod 8 < 8" "L < L + (512 - L mod 512)" using lt by simp_all
  ultimately show ?thesis using b map_arith [OF i(2,1) bl _ e] by simp
qed

lemma unat_div_up: "unat x + unat step < 2 ^ 32 \<Longrightarrow> 0 < unat step \<Longrightarrow> unat (div_up x step) = DIV_ROUND_UP (unat x) (unat step)"
proof -
  assume b: "unat x + unat step < 2 ^ 32" "0 < unat step"
  have "x + step - 1 = of_nat (unat x + unat step - 1)" using b(2) by (simp add: of_nat_diff)
  then have "unat (x + step - 1) = unat x + unat step - 1" using b by (simp only: unat_of_nat) simp
  then show ?thesis by (simp add: div_up_def DIV_ROUND_UP_def unat_div)
qed

text \<open>The sizes of a partition of \<open>n\<close> sectors: \<open>free\<close> without the areas of fixed size, \<open>len\<close> without the bitmap.\<close>

lemma format_sizes_nat:
  assumes "1000 \<le> n" "n \<le> 2 ^ 21"
  defines "len \<equiv> n - 515 - DIV_ROUND_UP (n - 515) 4096"
  shows "unat (snd (format_sizes (of_nat n))) = len" "unat (fst (format_sizes (of_nat n))) = DIV_ROUND_UP len 4096"
proof -
  have u: "unat (of_nat x :: u32) = x" if "x \<le> 2 ^ 21" for x using that by (simp add: unat_of_nat)
  have 1: "div_up MAX_FILES_PER_PART (of_nat BITS_PER_SECTOR) = 1" "div_up (MAX_FILES_PER_PART * 64) (of_nat SECTOR_SIZE) = 512"
    by (simp_all add: div_up_def MAX_FILES_PER_PART_def BITS_PER_SECTOR_def SECTOR_SIZE_def)
  define fr where "fr = n - 515"
  have fr: "(of_nat n :: u32) - (1 + 1 + 1 + 512) = of_nat fr" using assms(1) by (simp add: fr_def of_nat_diff)
  have b: "DIV_ROUND_UP fr 4096 \<le> fr" using assms(1) by (simp add: DIV_ROUND_UP_le_iff fr_def)
  have "unat (div_up (of_nat fr) 4096) = DIV_ROUND_UP fr 4096"
    using u [of fr] assms(2) by (simp add: unat_div_up fr_def)
  then have d: "div_up (of_nat fr) 4096 = of_nat (DIV_ROUND_UP fr 4096)" by (rule of_unat)
  have l: "(of_nat fr :: u32) - of_nat (DIV_ROUND_UP fr 4096) = of_nat len"
    unfolding len_def fr_def [symmetric] by (simp only: of_nat_diff [OF b])
  have ul: "unat (of_nat len :: u32) = len" using assms(2) by (intro u) (simp add: len_def)
  have "unat (div_up (of_nat len) 4096) = DIV_ROUND_UP len 4096"
    using ul assms(2) by (simp add: unat_div_up len_def)
  then show "unat (snd (format_sizes (of_nat n))) = len" "unat (fst (format_sizes (of_nat n))) = DIV_ROUND_UP len 4096"
    using ul unfolding format_sizes_def Let_def 1 fr by (simp_all add: d l BITS_PER_SECTOR_def)
qed

text \<open>The super block as words.\<close>

definition sb_word :: "super_block \<Rightarrow> nat \<Rightarrow> u32" where
  "sb_word s j = [magic s, of_nat (sb_sec_cnt s), of_nat (inode_cnt s), of_nat (part_lba_base s), of_nat (block_bitmap_lba s),
     of_nat (block_bitmap_sects s), of_nat (inode_bitmap_lba s), of_nat (inode_bitmap_sects s), of_nat (inode_table_lba s),
     of_nat (inode_table_sects s), of_nat (data_start_lba s), of_nat (root_inode_no s), of_nat (dir_entry_size s)] ! j"

definition sb_fits :: "super_block \<Rightarrow> bool" where
  "sb_fits s \<longleftrightarrow> (\<forall>n \<in> {sb_sec_cnt s, inode_cnt s, part_lba_base s, block_bitmap_lba s, block_bitmap_sects s, inode_bitmap_lba s,
     inode_bitmap_sects s, inode_table_lba s, inode_table_sects s, data_start_lba s, root_inode_no s, dir_entry_size s}. n < 2 ^ 32)"

lemma sb_bytes_words: "sb_bytes s = concat (map (\<lambda>j. bytes32 (sb_word s j)) [0..<13])"
  by (simp add: sb_bytes_def upt_conv_Cons sb_word_def)

lemma load_sb_bytes:
  assumes "sb_fits s" "\<And>j. j < 52 \<Longrightarrow> m (a + j) = sb_bytes s ! j"
  shows "load_sb m a = s"
proof -
  have w: "word32_at m (a + 4 * j) = sb_word s j" if "j < 13" for j
  proof (rule word32_of_bytes)
    fix r :: nat assume r: "r < 4"
    have "m (a + 4 * j + r) = sb_bytes s ! (4 * j + r)" using assms(2) [of "4 * j + r"] that r by (simp add: add.assoc)
    then show "m (a + 4 * j + r) = ucast (drop_bit (8 * r) (sb_word s j))"
      using that r by (simp add: sb_bytes_words nth_words nth_bytes32)
  qed
  have u: "unat (of_nat n :: u32) = n" if "n < 2 ^ 32" for n using that by (simp add: unat_of_nat)
  show ?thesis
    using assms(1) w [of 0] w [of 1] w [of 2] w [of 3] w [of 4] w [of 5] w [of 6] w [of 7] w [of 8] w [of 9] w [of 10] w [of 11] w [of 12]
    by (cases s) (simp add: load_sb_def Let_def sb_word_def sb_fits_def u)
qed

section \<open>Formatting and mounting on the disk\<close>

text \<open>All that formatting and mounting change before the last step: the allocator, the memory and the channel.\<close>

definition upd3 :: "'a fsys_scheme \<Rightarrow> kmem \<Rightarrow> mem \<Rightarrow> ide_channel \<Rightarrow> 'a fsys_scheme" where
  "upd3 k m f c = k\<lparr>kmem_st := m, fmem := f, chan := c\<rparr>"

lemma upd3_simps [simp]:
  "kmem_st (upd3 k m f c) = m" "fmem (upd3 k m f c) = f" "chan (upd3 k m f c) = c" "drive (upd3 k m f c) = drive k"
  "current (upd3 k m f c) = current k" "mmu_state (upd3 k m f c) = mmu_state k"
  "(upd3 k m f c)\<lparr>kmem_st := m'\<rparr> = upd3 k m' f c" "(upd3 k m f c)\<lparr>fmem := f'\<rparr> = upd3 k m f' c"
  "(upd3 k m f c)\<lparr>chan := c'\<rparr> = upd3 k m f c'" "(upd3 k m f c)\<lparr>chan := c', fmem := f'\<rparr> = upd3 k m f' c'"
  "chan_at h (upd3 k m f c) x = chan_at h k x"
  by (simp_all add: upd3_def chan_at_def)

lemma upd3_self: "upd3 k (kmem_st k) (fmem k) (chan k) = k"
  by (simp add: upd3_def)

lemma upd3_inv: "current k \<noteq> NULL \<Longrightarrow> kmem_inv (upd3 k m f c) m' A = kmem_inv k m' A"
  by (rule kmem_inv_cong) simp_all

lemma write_run:
  assumes "chan_at 0 k c" "0 < n" "lba + n \<le> Suc MAX_LBA" "prompt (ata_dev c)"
  obtains c' where "write_disk lba src n (upd3 k m f c) = Some (upd3 k m f c')" "chan_at 0 k c'" "prompt (ata_dev c')"
    "sectors (drive k) c' = put_sectors (sectors (drive k) c) lba n src f"
proof -
  have c: "chan_at 0 (upd3 k m f c) c" "n = 1 \<or> prompt (ata_dev c)" using assms(1,4) by simp_all
  obtain c' where c': "ide_write (upd3 k m f c) (drive k) lba src n c f = Some (upd3 k m f c, c')"
    "chan_at 0 (upd3 k m f c) c'" "same_chan c c'"
    "media (ata_dev c') = (media (ata_dev c))(dev_no (drive k) = 1 := put_sectors (sectors (drive k) c) lba n src f)"
    using ide_write_ok [OF c(1) assms(2,3) c(2)] by blast
  then show thesis using that [of c'] same_chan_prompt [OF c'(3) assms(4)]
    by (simp add: write_disk_def sectors_def)
qed

lemma read_run:
  assumes "chan_at 0 k c" "0 < n" "lba + n \<le> Suc MAX_LBA" "prompt (ata_dev c)"
  obtains c' where "read_disk lba dst n (upd3 k m f c) = Some (upd3 k m (fill f dst n (\<lambda>i. sectors (drive k) c (lba + i))) c')"
    "chan_at 0 k c'" "prompt (ata_dev c')" "sectors (drive k) c' = sectors (drive k) c"
proof -
  have c: "chan_at 0 (upd3 k m f c) c" "n = 1 \<or> prompt (ata_dev c)" using assms(1,4) by simp_all
  obtain c' where c': "ide_read (upd3 k m f c) (drive k) lba dst n c f =
      Some (upd3 k m f c, c', fill f dst n (\<lambda>i. sectors (drive k) c (lba + i)))"
    "chan_at 0 (upd3 k m f c) c'" "same_chan c c'" "media (ata_dev c') = media (ata_dev c)"
    using ide_read_ok [OF c(1) assms(2,3) c(2)] by blast
  then show thesis using that [of c'] same_chan_prompt [OF c'(3) assms(4)]
    by (simp add: read_disk_def sectors_def)
qed

lemma small_run:
  assumes "kmem_inv k m A" "current k \<noteq> NULL" "sz \<le> MAX_BLOCK_SIZE" "Suc n \<le> card (unused A m)"
  obtains p m' A' where "kmalloc_fs sz (upd3 k m f c) = Some (p, upd3 k m' f c)" "kmem_inv k m' A'" "n \<le> card (unused A' m')"
proof -
  have inv: "kmem_inv (upd3 k m f c) m A" using assms(1,2) by (simp add: upd3_inv)
  have "\<exists>j \<le> MAX_ORDER. pg_list (kernel_area (bd m) j) \<noteq> []" using pool_not_empty [OF assms(1)] assms(4) by simp
  with kmalloc_small_case [OF inv assms(3)] obtain p m' A' where
    m: "kmalloc (upd3 k m f c) m sz = Some (p, upd3 k m f c, m')" "kmem_inv (upd3 k m f c) m' A'"
      "user_start_idx (bd m') = user_start_idx (bd m)" "A' = A \<or> (\<exists>pg. A' = insert (0, pg) A)" by blast
  have "unused A m' = unused A m" using m(3) by (simp add: unused_def)
  then have "n \<le> card (unused A' m')" using m(4) assms(4) unused_insert [OF m(3) assms(4)] by auto
  then show thesis using that [of p m' A'] m(1,2) assms(2) by (simp add: kmalloc_fs_def upd3_inv)
qed

text \<open>The buffer of \<open>partition_format\<close>: 64 pages, taken and given back.\<close>

lemma page_ends: "(262175 + page_addr pg - KERNEL_VADDR_START) div PG_SIZE = pg + 64"
  by (simp add: page_addr_def PG_SIZE_def)

lemma buffer_run:
  assumes inv: "kmem_inv k m A" and cur: "current k \<noteq> NULL" and u: "direct_map (mmu_state k) (pg_cnt (bd m))"
    and pool: "\<exists>j. 6 \<le> j \<and> j \<le> MAX_ORDER \<and> pg_list (kernel_area (bd m) j) \<noteq> []"
    and behind: "\<forall>pg. 64 dvd pg \<and> {pg..<pg + 64} \<subseteq> unused A m \<longrightarrow> atomic_read (pg_count (pages (bd m) (pg + 64))) = 0"
  obtains p m1 where "kmalloc_fs 262144 (upd3 k m f0 c0) = Some (p, upd3 k m1 f0 c0)" "tail_free p 262144 m1"
    "\<And>f c. \<exists>m2. kfree_fs p (upd3 k m1 f c) = Some (upd3 k m2 f c) \<and> kmem_inv k m2 A \<and> unused A m2 = unused A m"
proof -
  have sz: "MAX_BLOCK_SIZE < 262144" "(262144 :: u32) < 0x40000000" by (simp_all add: MAX_BLOCK_SIZE_def)
  have o: "large_order 262144 = 6"
    by (simp add: large_order_def DIV_ROUND_UP_def PG_SIZE_def order_loop.simps)
  let ?k = "upd3 k m f0 c0"
  have inv0: "kmem_inv ?k m A" using inv cur by (simp add: upd3_inv)
  have pool6: "\<exists>j. large_order 262144 \<le> j \<and> j \<le> MAX_ORDER \<and> pg_list (kernel_area (bd m) j) \<noteq> []" using pool by (simp add: o)
  obtain pg m1 where m1: "kmalloc ?k m 262144 = Some (page_addr pg + 32, ?k, m1)" "kmem_inv ?k m1 (insert (6, pg) A)"
    "\<forall>b \<in> A. blk b \<inter> blk (6, pg) = {}" "large (desc m1 (page_addr pg))" "count (desc m1 (page_addr pg)) = int 6"
    "atomic_read (pg_count (pages (bd m1) pg)) = 1" "pg_cnt (bd m1) = pg_cnt (bd m)" "user_start_idx (bd m1) = user_start_idx (bd m)"
    "pages (bd m1) = page_taken (pages (bd m)) pg 6" "2 ^ 6 dvd pg" "pg + 2 ^ 6 \<le> user_start_idx (bd m)"
    using kmalloc_large_case [OF inv0 sz pool6] unfolding o by blast
  have u1: "direct_map (mmu_state k) (pg_cnt (bd m1))" using u m1(7) by simp
  have "(6, pg) \<notin> A" using m1(3) blk_nonempty [of pg 6] by blast
  then have A: "insert (6, pg) A - {(6, pg)} = A" by simp
  have "\<exists>m2. kfree_fs (page_addr pg + 32) (upd3 k m1 f c) = Some (upd3 k m2 f c) \<and> kmem_inv k m2 A \<and> unused A m2 = unused A m" for f c
  proof -
    let ?k1 = "upd3 k m1 f c"
    have "kmem_inv ?k1 m1 (insert (6, pg) A)" using m1(2) cur by (simp add: upd3_inv)
    from kfree_large_case [OF this u1 insertI1 m1(4,5,6)] obtain m2 where
      m2: "kfree ?k1 m1 (mmu_state k) (page_addr pg + 32) = Some (?k1, m2)" "kmem_inv ?k1 m2 (insert (6, pg) A - {(6, pg)})"
        "user_start_idx (bd m2) = user_start_idx (bd m1)" by blast
    then show ?thesis using A m1(8) cur by (intro exI [of _ m2]) (simp add: kfree_fs_def unused_def upd3_inv)
  qed
  moreover have "{pg..<pg + 64} \<subseteq> unused A m" using m1(3,11) by (auto simp: unused_def blk.simps)
  then have "atomic_read (pg_count (pages (bd m) (pg + 64))) = 0" using behind m1(10) by simp
  then have "tail_free (page_addr pg + 32) 262144 m1"
    using page_ends [of pg] by (simp add: tail_free_def m1(9) page_taken_def Let_def)
  ultimately show thesis using that [of "page_addr pg + 32" m1] m1(1) by (simp add: kmalloc_fs_def)
qed

text \<open>What \<open>mount_partition\<close> reads back.\<close>

lemma fill_read: "j < n * 512 \<Longrightarrow> fill m p n f (p + j) = f (j div 512) (j mod 512)"
  by (simp add: fill_def)

lemma put_sectors_at: "i < 512 \<Longrightarrow> put_sectors s lba n p m l i = (if lba \<le> l \<and> l < lba + n then m (p + (l - lba) * 512 + i) else s l i)"
  by (simp add: put_sectors_def)

lemma load_bitmap_run:
  assumes "kmem_inv k m A" "current k \<noteq> NULL" "Suc n \<le> card (unused A m)" "0 < sects" "sects \<le> 3"
    and "chan_at 0 k c" "lba + sects \<le> Suc MAX_LBA" "prompt (ata_dev c)"
  obtains f' m' c' A' bs where "load_bitmap lba sects b (upd3 k m f c) =
      Some (b\<lparr>bits := bs, byte_size := sects * 512\<rparr>, upd3 k m' f' c')"
    "\<And>j. j < sects * 512 \<Longrightarrow> bs j = sectors (drive k) c (lba + j div 512) (j mod 512)"
    "kmem_inv k m' A'" "n \<le> card (unused A' m')" "chan_at 0 k c'" "prompt (ata_dev c')" "sectors (drive k) c' = sectors (drive k) c"
proof -
  have "sects = 1 \<or> sects = 2 \<or> sects = 3" using assms(4,5) by linarith
  then have "(of_nat (sects * 512) :: u32) \<le> MAX_BLOCK_SIZE"
    by (auto simp: MAX_BLOCK_SIZE_def word_le_nat_alt)
  from small_run [OF assms(1,2) this assms(3)] obtain p m' A' where
    m: "kmalloc_fs (of_nat (sects * 512)) (upd3 k m f c) = Some (p, upd3 k m' f c)" "kmem_inv k m' A'" "n \<le> card (unused A' m')"
    by metis
  obtain c' where c': "read_disk lba p sects (upd3 k m' f c) = Some (upd3 k m' (fill f p sects (\<lambda>i. sectors (drive k) c (lba + i))) c')"
    "chan_at 0 k c'" "prompt (ata_dev c')" "sectors (drive k) c' = sectors (drive k) c"
    by (rule read_run [OF assms(6,4,7,8)])
  let ?f = "fill f p sects (\<lambda>i. sectors (drive k) c (lba + i))"
  have "load_bitmap lba sects b (upd3 k m f c) =
      Some (b\<lparr>bits := \<lambda>j. ?f (p + j), byte_size := sects * 512\<rparr>, upd3 k m' ?f c')"
    using m(1) c'(1) by (simp add: load_bitmap_def SECTOR_SIZE_def)
  then show thesis using that [of "\<lambda>j. ?f (p + j)"] m(2,3) c'(2-4) by (simp add: fill_read)
qed

text \<open>Where formatting puts the areas: super block, bitmap of blocks, bitmap and table of inodes, data.\<close>

lemma format_layout:
  assumes "1000 \<le> sec_cnt part" "sec_cnt part \<le> 2 ^ 21" "start_lba part + sec_cnt part < 2 ^ 32"
    and s: "s = format_sb part" and len: "len = unat (snd (format_sizes (of_nat (sec_cnt part))))"
    and b: "b = start_lba part"
  shows "block_bitmap_lba s = b + 2" "inode_bitmap_lba s = b + 2 + block_bitmap_sects s" "inode_bitmap_sects s = 1"
    "inode_table_lba s = b + 3 + block_bitmap_sects s" "inode_table_sects s = 512" "dir_entry_size s = 32"
    "data_start_lba s = b + 515 + block_bitmap_sects s" "format_buf_size s = 262144" "sb_fits s"
    "0 < block_bitmap_sects s" "block_bitmap_sects s \<le> 512" "data_start_lba s < b + sec_cnt part"
    "len < 4096 * 512" "8 \<le> len" "block_bitmap_sects s \<le> len div 4096 + 1" "magic s = FIZZ_FILE_SYSTEM"
proof -
  note z = format_sizes_nat [OF assms(1,2)]
  let ?fr = "sec_cnt part - 515"
  define bs where "bs = DIV_ROUND_UP len 4096"
  have ln: "len = ?fr - DIV_ROUND_UP ?fr 4096" using z(1) len by simp
  have 1: "div_up MAX_FILES_PER_PART (of_nat BITS_PER_SECTOR) = 1" "div_up (MAX_FILES_PER_PART * 64) (of_nat SECTOR_SIZE) = 512"
    by (simp_all add: div_up_def MAX_FILES_PER_PART_def BITS_PER_SECTOR_def SECTOR_SIZE_def)
  have bs: "unat (fst (format_sizes (of_nat (sec_cnt part)))) = bs" using z(2) by (simp add: bs_def ln)
  have "DIV_ROUND_UP ?fr 4096 \<le> ?fr div 2" using assms(1) by (simp add: DIV_ROUND_UP_le_iff)
  then have l8: "8 \<le> len" "len \<le> ?fr" using assms(1) ln by linarith+
  have l: "len < 4096 * 512" using l8(2) assms(1,2) by simp
  have bd: "0 < bs" "bs \<le> 512" "bs \<le> len div 4096 + 1"
    using l8(1) l by (simp_all add: bs_def DIV_ROUND_UP_le_iff) (simp add: DIV_ROUND_UP_def div_greater_zero_iff)
  have "bs \<le> len div 2" using l8(1) by (simp add: bs_def DIV_ROUND_UP_le_iff)
  then have fit: "515 + bs < sec_cnt part" using l8 assms(1) by linarith
  have u: "unat (of_nat x :: u32) = x" if "x \<le> b + 515 + bs" for x
    using that fit assms(3) b by (simp add: unat_of_nat)
  have fs: "fst (format_sizes (of_nat (sec_cnt part))) = of_nat bs" by (rule of_unat [OF bs])
  have sc: "sec_cnt part < 2 ^ 32" using assms(2) by simp
  note d = s format_sb_def Let_def 1 fs b [symmetric]
  have e: "(of_nat b :: u32) + 2 = of_nat (b + 2)" "(of_nat (b + 2) :: u32) + of_nat bs = of_nat (b + 2 + bs)"
    "(of_nat (b + 2 + bs) :: u32) + 1 = of_nat (b + 3 + bs)" "(of_nat (b + 3 + bs) :: u32) + 512 = of_nat (b + 515 + bs)"
    by simp_all
  have v: "unat ((of_nat b :: u32) + 2) = b + 2" "unat ((of_nat b :: u32) + 2 + of_nat bs) = b + 2 + bs"
    "unat ((of_nat b :: u32) + 2 + of_nat bs + 1) = b + 3 + bs" "unat ((of_nat b :: u32) + 2 + of_nat bs + 1 + 512) = b + 515 + bs"
    "unat (of_nat b :: u32) = b" "unat (of_nat bs :: u32) = bs" "unat MAX_FILES_PER_PART = 4096" "unat (1 :: u32) = 1" "unat (512 :: u32) = 512"
    unfolding e by (simp_all only: u le_add1 add_le_mono le_refl) (use u [of "b + 2"] u [of "b + 2 + bs"] u [of "b + 3 + bs"]
      u [of "b + 515 + bs"] u [of b] u [of bs] in \<open>simp_all add: MAX_FILES_PER_PART_def del: of_nat_add\<close>)
  have f: "block_bitmap_sects s = bs" "block_bitmap_lba s = b + 2" "inode_bitmap_lba s = b + 2 + bs" "inode_bitmap_sects s = 1"
    "inode_table_lba s = b + 3 + bs" "inode_table_sects s = 512" "data_start_lba s = b + 515 + bs" "dir_entry_size s = 32"
    "magic s = FIZZ_FILE_SYSTEM" "part_lba_base s = b" "sb_sec_cnt s = sec_cnt part" "inode_cnt s = 4096" "root_inode_no s = 0"
    unfolding d super_block.simps v by (rule refl)+
  then show "block_bitmap_lba s = b + 2" "inode_bitmap_lba s = b + 2 + block_bitmap_sects s" "inode_bitmap_sects s = 1"
    "inode_table_lba s = b + 3 + block_bitmap_sects s" "inode_table_sects s = 512" "dir_entry_size s = 32"
    "data_start_lba s = b + 515 + block_bitmap_sects s" "format_buf_size s = 262144"
    "0 < block_bitmap_sects s" "block_bitmap_sects s \<le> 512" "data_start_lba s < b + sec_cnt part"
    "len < 4096 * 512" "8 \<le> len" "block_bitmap_sects s \<le> len div 4096 + 1" "magic s = FIZZ_FILE_SYSTEM"
    using bd fit l l8 by (simp_all add: format_buf_size_def SECTOR_SIZE_def)
  show "sb_fits s" using f fit assms(3) b sc by (simp add: sb_fits_def)
qed

text \<open>The contents of the sectors as formatting leaves them; the rest of the disk is as it was.\<close>

definition formatted :: "super_block \<Rightarrow> nat \<Rightarrow> (nat \<Rightarrow> nat \<Rightarrow> u8) \<Rightarrow> bool" where
  "formatted s len D \<longleftrightarrow>
     (\<forall>j < 52. D (block_bitmap_lba s - 1) j = sb_bytes s ! j) \<and>
     (\<exists>io m. \<forall>j < block_bitmap_sects s * 512. D (block_bitmap_lba s + j div 512) (j mod 512) = block_map_bytes io 262144 len m (io + j)) \<and>
     (\<exists>io m. \<forall>j < 512. D (inode_bitmap_lba s) j = inode_map_bytes io 262144 m (io + j)) \<and>
     (\<exists>io m. \<forall>j < 512. D (inode_table_lba s) j = inode_table_bytes s io 262144 m (io + j)) \<and>
     (\<exists>io m. \<forall>j < 512. D (data_start_lba s) j = root_dir_bytes io 262144 m (io + j))"

lemma format_run:
  fixes k :: "'a fsys_scheme"
  assumes "1000 \<le> sec_cnt part" "sec_cnt part \<le> 2 ^ 21" "start_lba part + sec_cnt part \<le> Suc MAX_LBA"
    and s: "s = format_sb part" and len: "len = unat (snd (format_sizes (of_nat (sec_cnt part))))"
    and ch: "chan_at 0 k (chan k)" "prompt (ata_dev (chan k))"
    and inv: "kmem_inv k (kmem_st k) A" "direct_map (mmu_state k) (pg_cnt (bd (kmem_st k)))"
    and pool: "\<exists>j. 6 \<le> j \<and> j \<le> MAX_ORDER \<and> pg_list (kernel_area (bd (kmem_st k)) j) \<noteq> []"
    and behind: "\<forall>pg. 64 dvd pg \<and> {pg..<pg + 64} \<subseteq> unused A (kmem_st k) \<longrightarrow>
      atomic_read (pg_count (pages (bd (kmem_st k)) (pg + 64))) = 0"
  obtains m f c where "partition_format sb_at part k = Some (upd3 k m f c)" "kmem_inv k m A" "unused A m = unused A (kmem_st k)"
    "chan_at 0 k c" "prompt (ata_dev c)" "formatted s len (sectors (drive k) c)"
    "\<And>l i. l \<le> start_lba part \<or> data_start_lba s < l \<Longrightarrow> sectors (drive k) c l i = dsk k l i"
proof -
  define b bs where "b = start_lba part" and "bs = block_bitmap_sects s"
  have "start_lba part + sec_cnt part < 2 ^ 32" using assms(3) by (simp add: MAX_LBA_def)
  note L = format_layout [OF assms(1,2) this s len b_def, folded bs_def]
  have cur: "current k \<noteq> NULL" using ch(1) by (simp add: chan_at_def)
  have lim: "b + 1 + 1 \<le> Suc MAX_LBA" "b + 2 + bs \<le> Suc MAX_LBA" "b + 2 + bs + 1 \<le> Suc MAX_LBA"
    "b + 3 + bs + 512 \<le> Suc MAX_LBA" "b + 515 + bs + 1 \<le> Suc MAX_LBA"
    using L(7,12) assms(3) b_def by linarith+
  let ?m = "kmem_st k" and ?D = "\<lambda>c. sectors (drive k) c"
  define f1 where "f1 = writes (fmem k) sb_at (sb_bytes s)"
  have k1: "k\<lparr>fmem := f1\<rparr> = upd3 k ?m f1 (chan k)" by (simp add: upd3_def)
  obtain c1 where c1: "write_disk (b + 1) sb_at 1 (upd3 k ?m f1 (chan k)) = Some (upd3 k ?m f1 c1)" "chan_at 0 k c1"
    "prompt (ata_dev c1)" "?D c1 = put_sectors (dsk k) (b + 1) 1 sb_at f1"
    by (rule write_run [OF ch(1) zero_less_one lim(1) ch(2), of sb_at ?m f1])
  from buffer_run [OF inv(1) cur inv(2) pool behind, of f1 c1] obtain io m1 where m1:
    "kmalloc_fs 262144 (upd3 k ?m f1 c1) = Some (io, upd3 k m1 f1 c1)" "tail_free io 262144 m1"
    "\<And>f c. \<exists>m2. kfree_fs io (upd3 k m1 f c) = Some (upd3 k m2 f c) \<and> kmem_inv k m2 A \<and> unused A m2 = unused A ?m"
    by metis
  define f2 f3 f4 f5 where "f2 = block_map_bytes io 262144 len f1" and "f3 = inode_map_bytes io 262144 f2"
    and "f4 = inode_table_bytes s io 262144 f3" and "f5 = root_dir_bytes io 262144 f4"
  obtain c2 where c2: "write_disk (b + 2) io bs (upd3 k m1 f2 c1) = Some (upd3 k m1 f2 c2)" "chan_at 0 k c2"
    "prompt (ata_dev c2)" "?D c2 = put_sectors (?D c1) (b + 2) bs io f2"
    by (rule write_run [OF c1(2) L(10) lim(2) c1(3), of io m1 f2])
  obtain c3 where c3: "write_disk (b + 2 + bs) io 1 (upd3 k m1 f3 c2) = Some (upd3 k m1 f3 c3)" "chan_at 0 k c3"
    "prompt (ata_dev c3)" "?D c3 = put_sectors (?D c2) (b + 2 + bs) 1 io f3"
    by (rule write_run [OF c2(2) zero_less_one lim(3) c2(3), of io m1 f3])
  have "(0 :: nat) < 512" by simp
  from write_run [OF c3(2) this lim(4) c3(3), of io m1 f4] obtain c4 where
    c4: "write_disk (b + 3 + bs) io 512 (upd3 k m1 f4 c3) = Some (upd3 k m1 f4 c4)" "chan_at 0 k c4"
    "prompt (ata_dev c4)" "?D c4 = put_sectors (?D c3) (b + 3 + bs) 512 io f4" by metis
  obtain c5 where c5: "write_disk (b + 515 + bs) io 1 (upd3 k m1 f5 c4) = Some (upd3 k m1 f5 c5)" "chan_at 0 k c5"
    "prompt (ata_dev c5)" "?D c5 = put_sectors (?D c4) (b + 515 + bs) 1 io f5"
    by (rule write_run [OF c4(2) zero_less_one lim(5) c4(3), of io m1 f5])
  obtain m2 where m2: "kfree_fs io (upd3 k m1 f5 c5) = Some (upd3 k m2 f5 c5)" "kmem_inv k m2 A" "unused A m2 = unused A ?m"
    using m1(3) by blast
  have areas: "format_areas s len io (upd3 k m1 f1 c1) = Some (upd3 k m1 f5 c5)"
    using c2(1) c3(1) c4(1) c5(1)
    by (simp add: format_areas_def L Let_def bs_def [symmetric] f2_def [symmetric] f3_def [symmetric] f4_def [symmetric] f5_def [symmetric])
  have "partition_format sb_at part k = Some (upd3 k m2 f5 c5)"
    using c1(1) m1(1,2) m2(1) areas
    by (simp add: partition_format_def s [symmetric] L(8) Let_def f1_def [symmetric] k1 b_def [symmetric] len [symmetric])
  moreover have "formatted s len (?D c5)"
  proof -
    have at: "?D c5 l i = (if l = b + 515 + bs then f5 (io + i) else if b + 3 + bs \<le> l \<and> l < b + 515 + bs then f4 (io + (l - (b + 3 + bs)) * 512 + i)
        else if l = b + 2 + bs then f3 (io + i) else if b + 2 \<le> l \<and> l < b + 2 + bs then f2 (io + (l - (b + 2)) * 512 + i)
        else if l = b + 1 then f1 (sb_at + i) else dsk k l i)" if "i < 512" for l i
      using that unfolding c5(4) c4(4) c3(4) c2(4) c1(4) by (auto simp: put_sectors_at)
    have len52: "length (sb_bytes s) = 52" by (simp add: sb_bytes_words)
    have "?D c5 (b + 1) j = sb_bytes s ! j" if "j < 52" for j
      using that len52 by (simp add: at f1_def writes_def)
    moreover have "?D c5 (b + 2 + j div 512) (j mod 512) = f2 (io + j)" if "j < bs * 512" for j
    proof -
      have "j div 512 < bs" using that by (simp add: div_less_iff_less_mult)
      then show ?thesis by (simp add: at add.assoc)
    qed
    moreover have "?D c5 (b + 2 + bs) j = f3 (io + j)" "?D c5 (b + 3 + bs) j = f4 (io + j)" "?D c5 (b + 515 + bs) j = f5 (io + j)" if "j < 512" for j
      using that by (simp_all add: at)
    ultimately show ?thesis unfolding formatted_def L bs_def [symmetric] f2_def f3_def f4_def f5_def by auto
  qed
  moreover have "?D c5 l i = dsk k l i" if "l \<le> start_lba part \<or> data_start_lba s < l" for l i
    using that L(7) unfolding c5(4) c4(4) c3(4) c2(4) c1(4) by (auto simp: put_sectors_def b_def)
  ultimately show thesis using that m2(2,3) c5(2,3) by blast
qed

text \<open>What the parts of the new file system say when they are read back.\<close>

lemma bit_at_cong: "f (n div 8) = g (n div 8) \<Longrightarrow> bit_at f n = bit_at g n"
  by (simp add: bit_at_def)

lemma formatted_block_map:
  assumes "1000 \<le> sec_cnt part" "sec_cnt part \<le> 2 ^ 21" "start_lba part + sec_cnt part < 2 ^ 32"
    and s: "s = format_sb part" and len: "len = unat (snd (format_sizes (of_nat (sec_cnt part))))"
    and D: "formatted s len D" and bs: "\<And>j. j < block_bitmap_sects s * 512 \<Longrightarrow> bs j = D (block_bitmap_lba s + j div 512) (j mod 512)"
    and n: "n < 4096 * block_bitmap_sects s"
  shows "bit_at bs n \<longleftrightarrow> \<not> (1 \<le> n \<and> n \<le> len)"
proof -
  note L = format_layout [OF assms(1-3) s len refl]
  obtain io m where m: "\<And>j. j < block_bitmap_sects s * 512 \<Longrightarrow>
      D (block_bitmap_lba s + j div 512) (j mod 512) = block_map_bytes io 262144 len m (io + j)"
    using D by (auto simp: formatted_def)
  have "n div 8 < block_bitmap_sects s * 512" using n by (simp add: div_less_iff_less_mult)
  then have e: "bit_at bs n = bit_at (\<lambda>j. block_map_bytes io 262144 len m (io + j)) n"
    using bs [of "n div 8"] m [of "n div 8"] by (intro bit_at_cong) simp
  have "len div 4096 < 512" using L(13) by (simp add: less_mult_imp_div_less mult.commute)
  then have sz: "(len div 4096 + 1) * 512 \<le> 262144" "n < 8 * 262144" using L(11) n by (simp, linarith)
  have "n < 4096 * (len div 4096 + 1)" using n L(15) by (meson mult_le_mono2 order_less_le_trans)
  then show ?thesis unfolding e format_map_bits [OF sz] using L(14) by auto
qed

lemma formatted_inode_map:
  assumes D: "formatted s len D" and bs: "\<And>j. j < 512 \<Longrightarrow> bs j = D (inode_bitmap_lba s + j div 512) (j mod 512)"
    and n: "n < 4096"
  shows "bit_at bs n \<longleftrightarrow> n = 0"
proof -
  have j: "n div 8 < 512" using n by simp
  have "bs (n div 8) = (if n div 8 = 0 then 1 else 0)"
    using bs [OF j] D j by (auto simp: formatted_def inode_map_bytes_def Let_def memset_at)
  then show ?thesis by (auto simp: bit_at_def bit_1_iff) 
qed

lemma formatted_root:
  assumes D: "formatted s len D"
  shows "i_size (load_inode (D (inode_table_lba s)) 0 0) = of_nat (dir_entry_size s * 2)"
    "i_mode (load_inode (D (inode_table_lba s)) 0 0) = FT_DIR"
    "i_sectors (load_inode (D (inode_table_lba s)) 0 0) 0 = of_nat (data_start_lba s)"
proof -
  obtain io m where m: "\<And>j. j < 512 \<Longrightarrow> D (inode_table_lba s) j = inode_table_bytes s io 262144 m (io + j)"
    using D by (auto simp: formatted_def)
  note d = m inode_table_bytes_def Let_def writes_def
  show "i_size (load_inode (D (inode_table_lba s)) 0 0) = of_nat (dir_entry_size s * 2)"
    unfolding load_inode_def inode.simps by (rule word32_of_bytes) (simp add: d nth_bytes32)
  show "i_mode (load_inode (D (inode_table_lba s)) 0 0) = FT_DIR"
    unfolding load_inode_def inode.simps by (simp add: half_at_def d bytes16_def FT_DIR_def)
  have "word32_at (D (inode_table_lba s)) 12 = of_nat (data_start_lba s)"
    by (rule word32_of_bytes) (simp add: d nth_bytes32)
  then show "i_sectors (load_inode (D (inode_table_lba s)) 0 0) 0 = of_nat (data_start_lba s)"
    unfolding load_inode_def inode.simps by simp
qed

section \<open>Properties\<close>

text \<open>C23: The bitmap of blocks that formatting writes marks as free exactly the numbers from 1 to the number of blocks,
  though the blocks are those below it: every block behind the first one is free, and so is one number more. Its sector is the
  one behind the partition, unless the bitmap needed one sector less than the estimate that the length comes from.\<close>

theorem format_free_numbers:
  assumes "1000 \<le> sec_cnt part" "sec_cnt part \<le> 2 ^ 21" "start_lba part + sec_cnt part < 2 ^ 32"
    and "s = format_sb part" "len = unat (snd (format_sizes (of_nat (sec_cnt part))))"
    and "n < 4096 * block_bitmap_sects s"
  shows "(\<not> bit_at (\<lambda>j. block_map_bytes io (format_buf_size s) len m (io + j)) n \<longleftrightarrow> 1 \<le> n \<and> n \<le> len) \<and>
    data_start_lba s + len + DIV_ROUND_UP (sec_cnt part - 515) 4096 = start_lba part + sec_cnt part + block_bitmap_sects s"
proof -
  note z = format_sizes_nat [OF assms(1,2)]
  let ?fr = "sec_cnt part - 515"
  have len: "len = ?fr - DIV_ROUND_UP ?fr 4096" using z(1) assms(5) by simp
  have 1: "div_up MAX_FILES_PER_PART (of_nat BITS_PER_SECTOR) = 1" "div_up (MAX_FILES_PER_PART * 64) (of_nat SECTOR_SIZE) = 512"
    by (simp_all add: div_up_def MAX_FILES_PER_PART_def BITS_PER_SECTOR_def SECTOR_SIZE_def)
  define bs where "bs = DIV_ROUND_UP len 4096"
  have bs: "unat (fst (format_sizes (of_nat (sec_cnt part)))) = bs" using z(2) by (simp add: bs_def len)
  have le: "DIV_ROUND_UP ?fr 4096 \<le> ?fr" "bs \<le> 512" "len \<le> ?fr"
    using assms(1,2) by (simp_all add: DIV_ROUND_UP_le_iff bs_def len)
  have "bs \<le> len" by (simp add: DIV_ROUND_UP_le_iff bs_def)
  then have tot: "start_lba part + 515 + bs < 2 ^ 32" using assms(1,3) le by linarith
  have "of_nat (start_lba part) + 2 + fst (format_sizes (of_nat (sec_cnt part))) + 1 + 512 = (of_nat (start_lba part + 515 + bs) :: u32)"
    using bs of_unat [OF bs] by simp
  then have ds: "data_start_lba s = start_lba part + 515 + bs" and sects: "block_bitmap_sects s = bs" "inode_bitmap_sects s = 1" "inode_table_sects s = 512"
    using tot bs by (simp_all add: assms(4) format_sb_def Let_def 1 unat_of_nat del: of_nat_add)
  have sz: "format_buf_size s = 512 * 512" using le(2) by (simp add: format_buf_size_def sects SECTOR_SIZE_def)
  have "len < 512 * 4096" using assms(2) len by simp
  then have "(len div 4096 + 1) * 512 \<le> format_buf_size s" unfolding sz by simp
  moreover have "n < 8 * format_buf_size s" using assms(6) le(2) by (simp add: sz sects)
  ultimately have bits: "bit_at (\<lambda>j. block_map_bytes io (format_buf_size s) len m (io + j)) n \<longleftrightarrow>
    n = 0 \<and> 8 \<le> len \<or> len < n \<and> n < 4096 * (len div 4096 + 1)" by (rule format_map_bits)
  have "DIV_ROUND_UP ?fr 4096 \<le> ?fr div 2" using assms(1) by (simp add: DIV_ROUND_UP_le_iff)
  then have "8 \<le> len" using assms(1) len by linarith
  moreover have "bs \<le> len div 4096 + 1" unfolding bs_def by (simp add: DIV_ROUND_UP_le_iff)
  ultimately have "\<not> bit_at (\<lambda>j. block_map_bytes io (format_buf_size s) len m (io + j)) n \<longleftrightarrow> 1 \<le> n \<and> n \<le> len"
    using bits assms(6) sects(1) by auto
  moreover have "data_start_lba s + len + DIV_ROUND_UP ?fr 4096 = start_lba part + sec_cnt part + block_bitmap_sects s"
    using ds sects(1) len le assms(1) by linarith
  ultimately show ?thesis by blast
qed

lemma format_free_numbers_witness: "\<exists>s. s = format_sb (part0\<lparr>start_lba := 1, sec_cnt := 10000\<rparr>) \<and>
  \<not> bit_at (\<lambda>j. block_map_bytes 0 (format_buf_size s) 9482 (\<lambda>_. 0) j) 9482 \<and> data_start_lba s + 9482 = 1 + 10000"
proof -
  let ?p = "part0\<lparr>start_lba := 1, sec_cnt := 10000\<rparr>"
  have z: "unat (snd (format_sizes (of_nat 10000))) = 9482" "unat (fst (format_sizes (of_nat 10000))) = 3"
    using format_sizes_nat [of 10000] by (simp_all add: DIV_ROUND_UP_def)
  have b: "block_bitmap_sects (format_sb ?p) = 3" using z(2) by (simp add: format_sb_def Let_def)
  have "9482 < 4096 * block_bitmap_sects (format_sb ?p)" unfolding b by simp
  from format_free_numbers [OF _ _ _ refl refl this, of 0 "\<lambda>_. 0"] z(1) b show ?thesis
    by (simp add: DIV_ROUND_UP_def)
qed

text \<open>C24: Mounting a partition that was just formatted succeeds and finds what formatting laid out: the super block, the bitmap of
  blocks with the numbers from 1 to the number of blocks free, the bitmap of inodes with only the root directory taken, no open
  inode, and on the disk a root inode that is a directory of two entries in the first data block; outside the file system the
  disk is as it was. The partition's bitmap has at most three sectors, so that its copy is a small block of \<open>kmalloc\<close>;
  the pool has a run of 64 pages for the buffer and four more pages, and the drive is prompt. The buffer is 32 bytes
  longer than its 64 pages, so the page behind such a run must have no user.\<close>

theorem format_then_mount:
  fixes k :: "'a fsys_scheme"
  assumes "1000 \<le> sec_cnt part" "sec_cnt part \<le> 2 ^ 21" "start_lba part + sec_cnt part \<le> Suc MAX_LBA"
    and "s = format_sb part" "len = unat (snd (format_sizes (of_nat (sec_cnt part))))" "block_bitmap_sects s \<le> 3"
    and "chan_at 0 k (chan k)" "prompt (ata_dev (chan k))"
    and "kmem_inv k (kmem_st k) A" "direct_map (mmu_state k) (pg_cnt (bd (kmem_st k)))"
    and "\<exists>j. 6 \<le> j \<and> j \<le> MAX_ORDER \<and> pg_list (kernel_area (bd (kmem_st k)) j) \<noteq> []" "4 \<le> card (unused A (kmem_st k))"
    and "\<forall>pg. 64 dvd pg \<and> {pg..<pg + 64} \<subseteq> unused A (kmem_st k) \<longrightarrow>
      atomic_read (pg_count (pages (bd (kmem_st k)) (pg + 64))) = 0"
  shows "\<exists>k1 k2. partition_format sb_at part k = Some k1 \<and> mount_super part k1 = Some k2 \<and>
    sb (cur_part k2) = s \<and> byte_size (block_bitmap (cur_part k2)) = block_bitmap_sects s * 512 \<and>
    (\<forall>n < 4096 * block_bitmap_sects s. bit_at (bits (block_bitmap (cur_part k2))) n \<longleftrightarrow> \<not> (1 \<le> n \<and> n \<le> len)) \<and>
    byte_size (inode_bitmap (cur_part k2)) = 512 \<and> (\<forall>n < 4096. bit_at (bits (inode_bitmap (cur_part k2))) n \<longleftrightarrow> n = 0) \<and>
    open_inodes (cur_part k2) = [] \<and>
    i_mode (load_inode (dsk k2 (inode_table_lba s)) 0 0) = FT_DIR \<and> i_size (load_inode (dsk k2 (inode_table_lba s)) 0 0) = 64 \<and>
    i_sectors (load_inode (dsk k2 (inode_table_lba s)) 0 0) 0 = of_nat (data_start_lba s) \<and>
    (\<forall>l i. l \<le> start_lba part \<or> data_start_lba s < l \<longrightarrow> dsk k2 l i = dsk k l i)"
proof -
  have lt: "start_lba part + sec_cnt part < 2 ^ 32" using assms(3) by (simp add: MAX_LBA_def)
  note L = format_layout [OF assms(1,2) lt assms(4,5) refl]
  have cur: "current k \<noteq> NULL" using assms(7) by (simp add: chan_at_def)
  from format_run [OF assms(1-5,7-11,13)] obtain m f c where F: "partition_format sb_at part k = Some (upd3 k m f c)" "kmem_inv k m A" "unused A m = unused A (kmem_st k)"
    "chan_at 0 k c" "prompt (ata_dev c)" "formatted s len (sectors (drive k) c)"
    "\<And>l i. l \<le> start_lba part \<or> data_start_lba s < l \<Longrightarrow> sectors (drive k) c l i = dsk k l i"
    by metis
  define D where "D = sectors (drive k) c"
  have lim: "start_lba part + 1 + 1 \<le> Suc MAX_LBA" "start_lba part + 2 + block_bitmap_sects s \<le> Suc MAX_LBA"
    "start_lba part + 2 + block_bitmap_sects s + 1 \<le> Suc MAX_LBA" using L(7,12) assms(3) by linarith+
  have sz: "(of_nat SECTOR_SIZE :: u32) \<le> MAX_BLOCK_SIZE" "(512 :: u32) \<le> MAX_BLOCK_SIZE"
    by (simp_all add: SECTOR_SIZE_def MAX_BLOCK_SIZE_def)
  have four: "Suc 3 \<le> card (unused A m)" using F(3) assms(12) by simp
  obtain p1 m1 A1 where 1: "kmalloc_fs (of_nat SECTOR_SIZE) (upd3 k m f c) = Some (p1, upd3 k m1 f c)" "kmem_inv k m1 A1"
    "3 \<le> card (unused A1 m1)" by (rule small_run [OF F(2) cur sz(1) four])
  from 1(3) have 13: "Suc 2 \<le> card (unused A1 m1)" by simp
  obtain p2 m2 A2 where 2: "kmalloc_fs 512 (upd3 k m1 f c) = Some (p2, upd3 k m2 f c)" "kmem_inv k m2 A2"
    "2 \<le> card (unused A2 m2)" by (rule small_run [OF 1(2) cur sz(2) 13])
  from 2(3) have 23: "Suc 1 \<le> card (unused A2 m2)" by simp
  let ?f = "memset p1 0 SECTOR_SIZE f"
  define g where "g = fill ?f p1 1 (\<lambda>i. D (start_lba part + 1 + i))"
  obtain c1 where c1: "read_disk (start_lba part + 1) p1 1 (upd3 k m2 ?f c) = Some (upd3 k m2 g c1)" "chan_at 0 k c1"
    "prompt (ata_dev c1)" "sectors (drive k) c1 = D"
    unfolding g_def D_def by (rule read_run [OF F(4) zero_less_one lim(1) F(5), of p1 m2 ?f])
  have sb: "load_sb g p1 = s"
  proof (rule load_sb_bytes [OF L(9)])
    show "g (p1 + j) = sb_bytes s ! j" if "j < 52" for j
      using that F(6) L(1) by (simp add: g_def fill_def formatted_def D_def)
  qed
  from load_bitmap_run [OF 2(2) cur 23 L(10) assms(6) c1(2) lim(2) c1(3), of "block_bitmap part" g] obtain f2 m3 c2 A3 bs where 3: "load_bitmap (start_lba part + 2) (block_bitmap_sects s) (block_bitmap part) (upd3 k m2 g c1) =
      Some (block_bitmap part\<lparr>bits := bs, byte_size := block_bitmap_sects s * 512\<rparr>, upd3 k m3 f2 c2)"
    "\<And>j. j < block_bitmap_sects s * 512 \<Longrightarrow> bs j = sectors (drive k) c1 (start_lba part + 2 + j div 512) (j mod 512)"
    "kmem_inv k m3 A3" "1 \<le> card (unused A3 m3)" "chan_at 0 k c2" "prompt (ata_dev c2)" "sectors (drive k) c2 = sectors (drive k) c1"
    by metis
  from 3(4) have 33: "Suc 0 \<le> card (unused A3 m3)" by simp
  have one: "(0 :: nat) < 1" "(1 :: nat) \<le> 3" by simp_all
  from load_bitmap_run [OF 3(3) cur 33 one 3(5) lim(3) 3(6), of "inode_bitmap part" f2] obtain f3 m4 c3 A4 is' where 4: "load_bitmap (start_lba part + 2 + block_bitmap_sects s) 1 (inode_bitmap part) (upd3 k m3 f2 c2) =
      Some (inode_bitmap part\<lparr>bits := is', byte_size := 1 * 512\<rparr>, upd3 k m4 f3 c3)"
    "\<And>j. j < 1 * 512 \<Longrightarrow> is' j = sectors (drive k) c2 (start_lba part + 2 + block_bitmap_sects s + j div 512) (j mod 512)"
    "kmem_inv k m4 A4" "0 \<le> card (unused A4 m4)" "chan_at 0 k c3" "prompt (ata_dev c3)" "sectors (drive k) c3 = sectors (drive k) c2"
    by metis
  let ?p = "part\<lparr>sb := s, block_bitmap := block_bitmap part\<lparr>bits := bs, byte_size := block_bitmap_sects s * 512\<rparr>,
    inode_bitmap := inode_bitmap part\<lparr>bits := is', byte_size := 512\<rparr>, open_inodes := []\<rparr>"
  let ?k2 = "(upd3 k m4 f3 c3)\<lparr>cur_part := ?p\<rparr>"
  have mount: "mount_super part (upd3 k m f c) = Some ?k2"
    using 1(1) 2(1) c1(1) sb 3(1) 4(1) by (simp add: mount_super_def L(1-3))
  have dsk: "dsk ?k2 = D" using 4(7) 3(7) c1(4) by (simp add: upd3_def)
  have "bit_at bs n \<longleftrightarrow> \<not> (1 \<le> n \<and> n \<le> len)" if "n < 4096 * block_bitmap_sects s" for n
    using formatted_block_map [OF assms(1,2) lt assms(4,5) F(6) _ that, of bs] 3(2) c1(4) L(1) by (simp add: D_def)
  moreover have "bit_at is' n \<longleftrightarrow> n = 0" if "n < 4096" for n
    using formatted_inode_map [OF F(6) _ that, of is'] 4(2) 3(7) c1(4) L(2) by (simp add: D_def)
  moreover note formatted_root [OF F(6)]
  ultimately show ?thesis using F(1,7) mount dsk L(6) by (intro exI [of _ "upd3 k m f c"] exI [of _ ?k2]) (simp add: D_def)
qed

lemma bd32_pages: "pages bd32 = (\<lambda>_. \<lparr>pg_count = \<lparr>counter = 0\<rparr>, pg_private = 0\<rparr>)"
proof -
  have keep: "pages b = pages bd" if "buddy_init bd s n = Some (x, b)" for bd s n x b
    using that by (auto simp: buddy_init_def Let_def split_def bind_eq_Some_conv)
  obtain x b where "buddy_init bd_zero 0x101000 0x2000000 = Some (x, b)"
    using buddy_init_case(2) [OF areas_zero_bd current_sys0, of "0x2000000" "0x101000"]
    by (auto simp: PG_SIZE_def MAX_ORDER_def)
  then show ?thesis using keep [of bd_zero] by (simp add: bd32_def bd_zero_def)
qed

lemma format_then_mount_witness: "\<exists>k1 k2. partition_format 0x7000 (part0\<lparr>start_lba := 1, sec_cnt := 10000\<rparr>) (fsys0 4096) = Some k1 \<and>
  mount_super (part0\<lparr>start_lba := 1, sec_cnt := 10000\<rparr>) k1 = Some k2 \<and> data_start_lba (sb (cur_part k2)) = 519 \<and>
  open_inodes (cur_part k2) = []"
proof -
  let ?p = "part0\<lparr>start_lba := 1, sec_cnt := 10000\<rparr>"
  have z: "unat (fst (format_sizes (of_nat 10000))) = 3"
    using format_sizes_nat [of 10000] by (simp_all add: DIV_ROUND_UP_def)
  have b: "block_bitmap_sects (format_sb ?p) = 3" using z by (simp add: format_sb_def Let_def)
  have d: "data_start_lba (format_sb ?p) = 519" using format_layout(7) [of ?p, OF _ _ _ refl refl refl] b by simp
  have c: "chan_at 0 (fsys0 4096) (chan (fsys0 4096))" "prompt (ata_dev (chan (fsys0 4096)))"
    using chan0_at [of "fsys0 4096"] chan0_prompt by (simp_all add: NULL_def)
  have "current (fsys0 4096) \<noteq> NULL" "current sys0 \<noteq> NULL" by (simp_all add: NULL_def sys0_def)
  then have inv: "kmem_inv (fsys0 4096) (kmem_st (fsys0 4096)) {}" using kmem0_inv kmem_inv_cong [of "fsys0 4096" sys0] by simp
  have map: "direct_map (mmu_state (fsys0 4096)) (pg_cnt (bd (kmem_st (fsys0 4096))))" using mmu32_map by (simp add: kmem0_def bd32_inv)
  have pool: "\<exists>j. 6 \<le> j \<and> j \<le> MAX_ORDER \<and> pg_list (kernel_area (bd (kmem_st (fsys0 4096))) j) \<noteq> []"
    using bd32_kernel_top by (intro exI [of _ MAX_ORDER]) (simp add: kmem0_def MAX_ORDER_def)
  have "unused {} kmem0 = {..<2048}" using bd32_inv by (auto simp: unused_def kmem0_def)
  then have u: "4 \<le> card (unused {} (kmem_st (fsys0 4096)))" by simp
  have n: "1000 \<le> sec_cnt ?p" "sec_cnt ?p \<le> 2 ^ 21" "start_lba ?p + sec_cnt ?p \<le> Suc MAX_LBA" "block_bitmap_sects (format_sb ?p) \<le> 3"
    using b by (simp_all add: MAX_LBA_def)
  have "pages (bd (kmem_st (fsys0 4096))) q = \<lparr>pg_count = \<lparr>counter = 0\<rparr>, pg_private = 0\<rparr>" for q
    by (simp add: kmem0_def bd32_pages)
  then have behind: "\<forall>pg. 64 dvd pg \<and> {pg..<pg + 64} \<subseteq> unused {} (kmem_st (fsys0 4096)) \<longrightarrow>
      atomic_read (pg_count (pages (bd (kmem_st (fsys0 4096))) (pg + 64))) = 0" by (simp add: atomic_read_def)
  from format_then_mount [where sb_at = "0x7000", OF n(1-3) refl refl n(4) c inv map pool u behind] obtain k1 k2 where
    "partition_format 0x7000 ?p (fsys0 4096) = Some k1" "mount_super ?p k1 = Some k2" "sb (cur_part k2) = format_sb ?p"
    "open_inodes (cur_part k2) = []" by blast
  then show ?thesis using d by (intro exI [of _ k1] exI [of _ k2]) simp
qed

end
