(* ===== verification/Partitions.thy ===== *)
theory Partitions
  imports Disk_Scan Walk
begin

text \<open>What \<open>partition_scan\<close> of device/ide.c makes of a master boot record without an extended partition.\<close>

text \<open>The entries \<open>js\<close> of the sector in \<open>bs\<close>, registered one after the other.\<close>

fun reg_prims :: "disk_id \<Rightarrow> nat \<Rightarrow> nat list \<Rightarrow> 'a dsys_scheme \<Rightarrow> 'a dsys_scheme" where
  "reg_prims dk bs [] k = k"
| "reg_prims dk bs (j # js) k = reg_prims dk bs js
     ((add_part dk (Prim (unat (p_no k))) (pt_start_lba (fmem k) bs j) (pt_sec_cnt (fmem k) bs j) (unat (p_no k) + 1) k)
       \<lparr>p_no := p_no k + 1\<rparr>)"

lemma unat_p_no: "unat (p :: u8) \<le> 3 \<Longrightarrow> unat (p + 1) = unat p + 1"
  by (simp add: unat_word_ariths)

lemma add_part_simps [simp]:
  "fmem (add_part dk i lba cnt no k) = fmem k" "kmem_st (add_part dk i lba cnt no k) = kmem_st k"
  "mmu_state (add_part dk i lba cnt no k) = mmu_state k" "current (add_part dk i lba cnt no k) = current k"
  "devices (add_part dk i lba cnt no k) = devices k" "p_no (add_part dk i lba cnt no k) = p_no k"
  "partition_list (add_part dk i lba cnt no k) = partition_list k @ [(dk, i)]"
  "parts (add_part dk i lba cnt no k) = (parts k)((dk, i) := (parts k (dk, i))\<lparr>start_lba := unat lba, sec_cnt := unat cnt,
     part_name := d_name (devices k dk) @ dec_digits no\<rparr>)"
  by (simp_all add: add_part_def)

lemma scan_prims:
  assumes "j \<le> 4" "\<forall>i. j \<le> i \<and> i < 4 \<longrightarrow> pt_fs_type (fmem k) bs i \<noteq> 5" "unat (p_no k) \<le> 3"
  shows "scan_entries dk 0 bs j k =
    (if unat (p_no k) + length (filter (\<lambda>i. pt_fs_type (fmem k) bs i \<noteq> 0) [j..<4]) \<le> 3
     then kfree_fs bs (reg_prims dk bs (filter (\<lambda>i. pt_fs_type (fmem k) bs i \<noteq> 0) [j..<4]) k) else None)"
  using assms
proof (induction "4 - j" arbitrary: j k)
  case 0
  then have "j = 4" by simp
  then show ?case using 0(4) by (subst scan_entries.simps) simp
next
  case (Suc d)
  then have j: "j < 4" "[j..<4] = j # [j + 1..<4]" "d = 4 - (j + 1)" "j + 1 \<le> 4" by (simp_all add: upt_conv_Cons)
  have t: "pt_fs_type (fmem k) bs j \<noteq> 5" "\<forall>i. j + 1 \<le> i \<and> i < 4 \<longrightarrow> pt_fs_type (fmem k) bs i \<noteq> 5" using Suc.prems(2) j(1) by simp_all
  show ?case
  proof (cases "pt_fs_type (fmem k) bs j = 0")
    case True
    then have "scan_entries dk 0 bs j k = scan_entries dk 0 bs (j + 1) k"
      using j(1) t(1) by (subst scan_entries.simps) simp
    then show ?thesis using Suc.hyps(1) [OF j(3,4) t(2) Suc.prems(3)] True unfolding j(2) by simp
  next
    case False
    define k1 where "k1 = (add_part dk (Prim (unat (p_no k))) (pt_start_lba (fmem k) bs j) (pt_sec_cnt (fmem k) bs j) (unat (p_no k) + 1) k)
       \<lparr>p_no := p_no k + 1\<rparr>"
    have p1: "p_no k1 = p_no k + 1" "fmem k1 = fmem k" by (simp_all add: k1_def)
    have n1: "unat (p_no k1) = unat (p_no k) + 1" using unat_p_no [OF Suc.prems(3)] by (simp add: p1)
    have rp: "reg_prims dk bs (j # ls) k = reg_prims dk bs ls k1" for ls by (simp add: k1_def)
    have run: "scan_entries dk 0 bs j k = (if unat (p_no k) < 3 then scan_entries dk 0 bs (j + 1) k1 else None)"
      using j(1) t(1) False n1 by (subst scan_entries.simps) (simp add: add_prim_def k1_def Let_def word_less_nat_alt cong: if_cong)
    show ?thesis
    proof (cases "unat (p_no k) < 3")
      case True
      then have "unat (p_no k1) \<le> 3" using n1 by simp
      from Suc.hyps(1) [OF j(3,4) _ this] t(2) True run False show ?thesis
        unfolding j(2) by (simp add: p1(2) n1 rp del: reg_prims.simps)
    next
      case no: False
      then show ?thesis using run False unfolding j(2) by simp
    qed
  qed
qed

lemma reg_prims_ok:
  "unat (p_no k) + length js \<le> 3 \<Longrightarrow> k' = reg_prims dk bs js k \<Longrightarrow>
   partition_list k' = partition_list k @ map (\<lambda>i. (dk, Prim i)) [unat (p_no k)..<unat (p_no k) + length js] \<and>
   (\<forall>i < length js. let p = parts k' (dk, Prim (unat (p_no k) + i)) in
      start_lba p = unat (pt_start_lba (fmem k) bs (js ! i)) \<and> sec_cnt p = unat (pt_sec_cnt (fmem k) bs (js ! i)) \<and>
      part_name p = d_name (devices k dk) @ dec_digits (unat (p_no k) + i + 1)) \<and>
   (\<forall>x. (\<forall>i < length js. x \<noteq> (dk, Prim (unat (p_no k) + i))) \<longrightarrow> parts k' x = parts k x) \<and>
   kmem_st k' = kmem_st k \<and> mmu_state k' = mmu_state k \<and> current k' = current k"
proof (induction js arbitrary: k)
  case (Cons j js)
  define k1 where "k1 = (add_part dk (Prim (unat (p_no k))) (pt_start_lba (fmem k) bs j) (pt_sec_cnt (fmem k) bs j) (unat (p_no k) + 1) k)
     \<lparr>p_no := p_no k + 1\<rparr>"
  have n1: "unat (p_no k1) = unat (p_no k) + 1" using unat_p_no [of "p_no k"] Cons.prems(1) by (simp add: k1_def)
  have "unat (p_no k1) + length js \<le> 3" "k' = reg_prims dk bs js k1" using Cons.prems n1 by (simp_all add: k1_def)
  note ih = Cons.IH [OF this, unfolded n1]
  have f: "fmem k1 = fmem k" "devices k1 = devices k" "kmem_st k1 = kmem_st k" "mmu_state k1 = mmu_state k" "current k1 = current k"
    "partition_list k1 = partition_list k @ [(dk, Prim (unat (p_no k)))]" by (simp_all add: k1_def)
  let ?n = "unat (p_no k)"
  have p1: "parts k1 = (parts k)((dk, Prim ?n) := (parts k (dk, Prim ?n))\<lparr>start_lba := unat (pt_start_lba (fmem k) bs j),
     sec_cnt := unat (pt_sec_cnt (fmem k) bs j), part_name := d_name (devices k dk) @ dec_digits (?n + 1)\<rparr>)"
    by (simp add: k1_def)
  have rest: "\<forall>x. (\<forall>i < length js. x \<noteq> (dk, Prim (?n + 1 + i))) \<longrightarrow> parts k' x = parts k1 x" using ih by blast
  have first: "parts k' (dk, Prim ?n) = parts k1 (dk, Prim ?n)" by (rule rest [rule_format]) simp
  have "let p = parts k' (dk, Prim (?n + i)) in
      start_lba p = unat (pt_start_lba (fmem k) bs ((j # js) ! i)) \<and> sec_cnt p = unat (pt_sec_cnt (fmem k) bs ((j # js) ! i)) \<and>
      part_name p = d_name (devices k dk) @ dec_digits (?n + i + 1)" if "i < length (j # js)" for i
  proof (cases i)
    case 0
    then show ?thesis using first p1 by simp
  next
    case (Suc i')
    then have "i' < length js" using that by simp
    then have "let p = parts k' (dk, Prim (?n + 1 + i')) in start_lba p = unat (pt_start_lba (fmem k1) bs (js ! i')) \<and>
      sec_cnt p = unat (pt_sec_cnt (fmem k1) bs (js ! i')) \<and> part_name p = d_name (devices k1 dk) @ dec_digits (?n + 1 + i' + 1)"
      using ih by blast
    then show ?thesis by (simp add: Suc f Let_def)
  qed
  moreover have "parts k' x = parts k x" if "\<forall>i < length (j # js). x \<noteq> (dk, Prim (?n + i))" for x
  proof -
    have 1: "\<forall>i < length js. x \<noteq> (dk, Prim (?n + 1 + i))" using that by (metis Suc_less_eq add_Suc_right add_Suc length_Cons plus_1_eq_Suc add.commute)
    have "x \<noteq> (dk, Prim ?n)" using that by (metis add_0_right length_Cons zero_less_Suc)
    then have "parts k1 x = parts k x" unfolding p1 by simp
    moreover have "parts k' x = parts k1 x" by (rule rest [rule_format]) (use 1 in blast)
    ultimately show ?thesis by simp
  qed
  moreover have "partition_list k' = partition_list k @ map (\<lambda>i. (dk, Prim i)) [?n..<?n + length (j # js)]"
    using ih f(6) by (simp add: upt_conv_Cons del: upt_Suc)
  ultimately show ?case using ih f by simp
qed simp

lemma boot_entry:
  assumes "\<And>x. x < 512 \<Longrightarrow> m (bs + x) = f x" "j < 4"
  shows "pt_fs_type m bs j = pt_fs_type f 0 j" "pt_start_lba m bs j = pt_start_lba f 0 j" "pt_sec_cnt m bs j = pt_sec_cnt f 0 j"
proof -
  have e: "m (pt_entry bs j + x) = f (pt_entry 0 j + x)" if "x < 16" for x
    using assms(1) [of "446 + 16 * j + x"] assms(2) that by (simp add: pt_entry_def add.assoc)
  show "pt_fs_type m bs j = pt_fs_type f 0 j" using e by (simp add: pt_fs_type_def)
  show "pt_start_lba m bs j = pt_start_lba f 0 j" "pt_sec_cnt m bs j = pt_sec_cnt f 0 j"
    unfolding pt_start_lba_def pt_sec_cnt_def by (rule word32_cong; simp add: e add.assoc)+
qed

section \<open>Properties\<close>

text \<open>C22: Scanning a master boot record without an extended partition registers its used entries in their order as the
  disk's primary partitions, with their places, sizes and names, and no others; the sector's buffer is given back. With
  all four entries used the kernel panics: the assertion allows three.\<close>

theorem partition_scan_primaries:
  fixes k :: "'a dsys_scheme"
  assumes "chan_at 0 k (chan k)" "kmem_good k" "kmalloc k (kmem_st k) 512 \<noteq> None" "p_no k = 0"
    and "f = sectors (drive k) (chan k) 0" "\<forall>j < 4. pt_fs_type f 0 j \<noteq> 5" "js = filter (\<lambda>j. pt_fs_type f 0 j \<noteq> 0) [0..<4]"
  shows "(length js \<le> 3 \<longrightarrow> (\<exists>k'. partition_scan dk 0 k = Some k' \<and>
      partition_list k' = partition_list k @ map (\<lambda>i. (dk, Prim i)) [0..<length js] \<and>
      (\<forall>i < length js. let p = parts k' (dk, Prim i) in start_lba p = unat (pt_start_lba f 0 (js ! i)) \<and>
        sec_cnt p = unat (pt_sec_cnt f 0 (js ! i)) \<and> part_name p = d_name (devices k dk) @ show_nat 10 (i + 1)) \<and>
      (\<forall>x. (\<forall>i < length js. x \<noteq> (dk, Prim i)) \<longrightarrow> parts k' x = parts k x) \<and>
      kmem_good k' \<and> live (kmem_st k') = live (kmem_st k))) \<and>
    (3 < length js \<longrightarrow> partition_scan dk 0 k = None)"
proof -
  have cur: "current k \<noteq> NULL" using assms(1) by (simp add: chan_at_def)
  have sz: "(512 :: u32) \<le> MAX_BLOCK_SIZE" by (simp add: MAX_BLOCK_SIZE_def)
  obtain bs km where b: "kmalloc_fs 512 k = Some (bs, k\<lparr>kmem_st := km\<rparr>)" "kmem_good (k\<lparr>kmem_st := km\<rparr>)"
    "live km = insert bs (live (kmem_st k))" "bs \<notin> live (kmem_st k)"
    using small_block [OF assms(2) cur sz assms(3)] by metis
  let ?k = "k\<lparr>kmem_st := km\<rparr>"
  have c: "chan_at 0 ?k (chan k)" using assms(1) by (simp add: chan_at_def)
  have lba: "(0 :: nat) < 1" "0 + 1 \<le> Suc MAX_LBA" by simp_all
  obtain c' where c': "ide_read ?k (drive k) 0 bs 1 (chan k) (fmem k) =
      Some (?k, c', fill (fmem k) bs 1 (\<lambda>i. sectors (drive k) (chan k) (0 + i)))"
    using ide_read_ok [OF c lba, of "drive k" bs "fmem k"] by blast
  define m where "m = fill (fmem k) bs 1 (\<lambda>i. sectors (drive k) (chan k) i)"
  define k1 where "k1 = ?k\<lparr>chan := c', fmem := m\<rparr>"
  have rb: "read_boot 0 k = Some (bs, k1)" using b(1) c' by (simp add: read_boot_def read_disk_def k1_def m_def)
  have k1: "fmem k1 = m" "p_no k1 = 0" "parts k1 = parts k" "partition_list k1 = partition_list k" "devices k1 = devices k"
    "kmem_st k1 = km" "current k1 = current k" "mmu_state k1 = mmu_state k" using assms(4) by (simp_all add: k1_def)
  have mf: "m (bs + x) = f x" if "x < 512" for x using that by (simp add: m_def fill_def assms(5))
  note e = boot_entry [of m bs f, OF mf]
  have js: "filter (\<lambda>i. pt_fs_type (fmem k1) bs i \<noteq> 0) [0..<4] = js"
    unfolding assms(7) k1(1) by (intro filter_cong refl) (simp add: e(1))
  have in4: "js ! i < 4" if "i < length js" for i using nth_mem [OF that] by (simp add: assms(7))
  have "\<forall>i. 0 \<le> i \<and> i < 4 \<longrightarrow> pt_fs_type (fmem k1) bs i \<noteq> 5" using assms(6) e(1) by (simp add: k1(1))
  from scan_prims [OF _ this, of dk] have scan: "partition_scan dk 0 k =
      (if length js \<le> 3 then kfree_fs bs (reg_prims dk bs js k1) else None)"
    unfolding partition_scan_def rb js using k1(2) by simp
  have "\<exists>k'. partition_scan dk 0 k = Some k' \<and>
      partition_list k' = partition_list k @ map (\<lambda>i. (dk, Prim i)) [0..<length js] \<and>
      (\<forall>i < length js. let p = parts k' (dk, Prim i) in start_lba p = unat (pt_start_lba f 0 (js ! i)) \<and>
        sec_cnt p = unat (pt_sec_cnt f 0 (js ! i)) \<and> part_name p = d_name (devices k dk) @ show_nat 10 (i + 1)) \<and>
      (\<forall>x. (\<forall>i < length js. x \<noteq> (dk, Prim i)) \<longrightarrow> parts k' x = parts k x) \<and>
      kmem_good k' \<and> live (kmem_st k') = live (kmem_st k)" if len: "length js \<le> 3"
  proof -
    define k2 where "k2 = reg_prims dk bs js k1"
    have "unat (p_no k1) + length js \<le> 3" using len k1(2) by simp
    note rg = reg_prims_ok [OF this k2_def]
    have "kmem_good k2 = kmem_good ?k" by (rule kmem_good_cong) (use rg k1 cur in simp_all)
    then obtain m2 where f: "kfree_fs bs k2 = Some (k2\<lparr>kmem_st := m2\<rparr>)" "kmem_good (k2\<lparr>kmem_st := m2\<rparr>)" "live m2 = live (kmem_st k2) - {bs}"
      using block_free [of k2 bs] b(2,3) rg k1 cur by auto
    have "partition_scan dk 0 k = Some (k2\<lparr>kmem_st := m2\<rparr>)" using scan len f(1) by (simp add: k2_def)
    moreover have "live m2 = live (kmem_st k)" using f(3) rg k1(6) b(3,4) by simp
    ultimately show ?thesis using rg f(2) in4
      by (intro exI [of _ "k2\<lparr>kmem_st := m2\<rparr>"]) (simp add: k1 e Let_def dec_digits_def)
  qed
  then show ?thesis using scan by auto
qed

text \<open>A disk whose master boot record has one entry: 1000 sectors from sector 63 on.\<close>

definition mbr0 :: "nat \<Rightarrow> u8" where
  "mbr0 = (\<lambda>_. 0)(450 := 0x83, 454 := 63, 458 := 0xe8, 459 := 3)"

definition scan0 :: "intr_state \<Rightarrow> dsys" where
  "scan0 s = fsys.extend ((fsys0 4096)\<lparr>chan := chan0\<lparr>ata_dev := (ata_dev chan0)\<lparr>media := (\<lambda>_ _. mbr0)\<rparr>\<rparr>\<rparr>)
     (dsys.fields s 1 (\<lambda>_. chan0) (\<lambda>_. []) (\<lambda>_. sdb) (\<lambda>_. zero_part) [] 0 0 0)"

lemma partition_scan_primaries_witness: "\<forall>s. \<exists>k'. partition_scan (0, 1) 0 (scan0 s) = Some k' \<and>
  partition_list k' = [((0, 1), Prim 0)] \<and> start_lba (parts k' ((0, 1), Prim 0)) = 63 \<and> sec_cnt (parts k' ((0, 1), Prim 0)) = 1000"
proof
  fix s
  let ?k = "scan0 s"
  have k: "current ?k = 4096" "kmem_st ?k = kmem0" "mmu_state ?k = mmu32" "p_no ?k = 0" "partition_list ?k = []" "drive ?k = sdb"
    "chan ?k = chan0\<lparr>ata_dev := (ata_dev chan0)\<lparr>media := (\<lambda>_ _. mbr0)\<rparr>\<rparr>"
    by (simp_all add: scan0_def fsys.extend_def dsys.defs)
  have c: "chan_at 0 ?k (chan ?k)"
    using chan0_at [of ?k] unfolding k(7) by (simp add: chan_at_def chan_ok_def drive_ok_def NULL_def k(1))
  have h: "kmem_inv ?k kmem0 {}" using kmem0_inv kmem_inv_cong [of ?k sys0] by (simp add: k sys0_def NULL_def)
  then have g: "kmem_good ?k" using mmu32_map kmem0_pages(2) by (auto simp: kmem_good_def k)
  have "(512 :: u32) \<le> MAX_BLOCK_SIZE" by (simp add: MAX_BLOCK_SIZE_def)
  from kmalloc_small_case [OF h this] kmem0_pool have al: "kmalloc ?k (kmem_st ?k) 512 \<noteq> None" by (auto simp: k)
  have f: "mbr0 = sectors (drive ?k) (chan ?k) 0" by (simp add: k sectors_def)
  have t: "pt_fs_type mbr0 0 j = (if j = 0 then 0x83 else 0)" if "j < 4" for j
    using that by (simp add: pt_fs_type_def pt_entry_def mbr0_def)
  then have t5: "\<forall>j < 4. pt_fs_type mbr0 0 j \<noteq> 5" by simp
  have js: "[0] = filter (\<lambda>j. pt_fs_type mbr0 0 j \<noteq> 0) [0..<4]" by (simp add: t upt_conv_Cons)
  have e: "pt_start_lba mbr0 0 0 = 63" "pt_sec_cnt mbr0 0 0 = 1000"
    by (simp_all add: pt_start_lba_def pt_sec_cnt_def pt_entry_def word32_at_def mbr0_def)
  show "\<exists>k'. partition_scan (0, 1) 0 ?k = Some k' \<and> partition_list k' = [((0, 1), Prim 0)] \<and>
    start_lba (parts k' ((0, 1), Prim 0)) = 63 \<and> sec_cnt (parts k' ((0, 1), Prim 0)) = 1000"
    using partition_scan_primaries [OF c g al k(4) f t5 js, of "(0, 1)"] by (auto simp: e k(5) Let_def)
qed

end
