(* ===== verification/Panic.thy ===== *)
theory Panic
  imports Printk
begin

text \<open>
  \<open>panic\<close> of kernel/debug.c. It prints the number of the line with \<open>put_int\<close>, which writes hexadecimal; so it first
  makes the number whose hexadecimal digits are the decimal digits of the line.
\<close>

text \<open>\<open>n\<close> is unsigned, \<open>line\<close> and \<open>count\<close> are ints.\<close>

function push_digits :: "int \<Rightarrow> u32 \<Rightarrow> nat \<Rightarrow> u32 \<times> nat" where
  "push_digits line n cnt =
     (if line \<noteq> 0 then push_digits (c_div line 10) (n * 16 + word_of_int (c_mod line 10)) (cnt + 1) else (n, cnt))"
  by pat_completeness auto
termination
proof (relation "measure (\<lambda>(line, n, cnt). nat \<bar>line\<bar>)", goal_cases)
  case (2 line n cnt)
  have "\<bar>c_div line 10\<bar> < \<bar>line\<bar>" using 2 by (auto simp: c_div_def abs_mult abs_if)
  then show ?case by simp
qed simp

primrec pop_digits :: "nat \<Rightarrow> int \<Rightarrow> u32 \<Rightarrow> int" where
  "pop_digits 0 line n = line"
| "pop_digits (Suc cnt) line n = pop_digits cnt (to_int32 (line * 16 + uint (n mod 16))) (n div 16)"

definition panic_line :: "int \<Rightarrow> int" where
  "panic_line line = (let (n, cnt) = push_digits line 0 0 in pop_digits cnt 0 n)"

declare push_digits.simps [simp del]

section \<open>The digits\<close>

fun hex_digits :: "nat \<Rightarrow> nat" where
  "hex_digits l = (if l = 0 then 0 else 16 * hex_digits (l div 10) + l mod 10)"

fun ndigits :: "nat \<Rightarrow> nat" where
  "ndigits l = (if l = 0 then 0 else ndigits (l div 10) + 1)"

declare hex_digits.simps [simp del] ndigits.simps [simp del]

lemma hex_digits_0 [simp]: "hex_digits 0 = 0" "ndigits 0 = 0"
  by (subst hex_digits.simps ndigits.simps, simp)+

lemma hex_digits_less: "hex_digits l < 16 ^ ndigits l"
proof (induction l rule: hex_digits.induct)
  case (1 l)
  show ?case
  proof (cases "l = 0")
    case False
    then have "hex_digits (l div 10) + 1 \<le> 16 ^ ndigits (l div 10)" using 1 by simp
    then have "16 * hex_digits (l div 10) + 16 \<le> 16 * 16 ^ ndigits (l div 10)" by linarith
    moreover have "l mod 10 < 16" by (rule less_trans [of _ 10]) simp_all
    ultimately have "16 * hex_digits (l div 10) + l mod 10 < 16 * 16 ^ ndigits (l div 10)" by linarith
    then show ?thesis using False by (subst hex_digits.simps, subst ndigits.simps) simp
  qed simp
qed

lemma ndigits_le: "l < 10 ^ n \<Longrightarrow> ndigits l \<le> n"
proof (induction l arbitrary: n rule: ndigits.induct)
  case (1 l)
  show ?case
  proof (cases "l = 0")
    case False
    then obtain m where m: "n = Suc m" using 1(2) by (cases n) auto
    then have "l div 10 < 10 ^ m" using 1(2) by (simp add: less_mult_imp_div_less mult.commute)
    then show ?thesis using 1(1) [OF False] m False by (subst ndigits.simps) simp
  qed simp
qed

lemma hex_digits_pos: "0 < l \<Longrightarrow> 0 < hex_digits l"
proof (induction l rule: hex_digits.induct)
  case (1 l)
  have "0 < l div 10 \<or> 0 < l mod 10" using 1(2) by (metis div_mult_mod_eq gr0I mult_0_right mult.commute add_0)
  then show ?case using 1 by (subst hex_digits.simps) auto
qed

lemma show_hex_digits: "show_nat 16 (hex_digits l) = show_nat 10 l"
proof (induction l rule: hex_digits.induct)
  case (1 l)
  show ?case
  proof (cases "l < 10")
    case True
    then have "hex_digits l = l" by (subst hex_digits.simps) simp
    then show ?thesis using True by (subst (1 2) show_nat.simps) simp
  next
    case False
    then have h: "hex_digits l = 16 * hex_digits (l div 10) + l mod 10" by (subst hex_digits.simps) simp
    have "l mod 10 < 16" by (rule less_trans [of _ 10]) simp_all
    then have d: "hex_digits l div 16 = hex_digits (l div 10)" "hex_digits l mod 16 = l mod 10" by (simp_all add: h)
    have "0 < hex_digits (l div 10)" using False by (intro hex_digits_pos) simp
    then have "\<not> hex_digits l < 16" using h by simp
    then have "show_nat 16 (hex_digits l) = show_nat 16 (hex_digits (l div 10)) @ [digit_char (int (l mod 10))]"
      by (subst show_nat.simps) (simp add: d)
    also have "\<dots> = show_nat 10 l" using 1 False by (subst (2) show_nat.simps) simp
    finally show ?thesis .
  qed
qed

lemma pop_push:
  "unat n < 16 ^ i \<Longrightarrow> i + ndigits l \<le> 7 \<Longrightarrow>
   \<exists>n'. push_digits (int l) n c = (n', c + ndigits l) \<and>
     (\<forall>m. pop_digits (ndigits l + m) 0 n' = pop_digits m (int (hex_digits l)) n)"
proof (induction l arbitrary: n i c rule: hex_digits.induct)
  case (1 l)
  show ?case
  proof (cases "l = 0")
    case True
    then show ?thesis by (subst push_digits.simps) simp
  next
    case False
    define d where "d = l mod 10"
    define n1 where "n1 = n * 16 + word_of_int (int d)"
    have d: "d < 16" unfolding d_def by (rule less_trans [of _ 10]) simp_all
    have nd: "ndigits l = ndigits (l div 10) + 1" using False by (subst ndigits.simps) simp
    have "(16 :: nat) ^ i \<le> 16 ^ 6" using 1(3) nd by (intro power_increasing) simp_all
    then have n: "unat n * 16 + d < 2 ^ 32" using 1(2) d by simp
    have "n1 = of_nat (unat n * 16 + d)" by (simp add: n1_def)
    then have u: "unat n1 = unat n * 16 + d" using n by (simp only: unat_of_nat) simp
    have "unat n1 < 16 ^ Suc i" using u 1(2) d by simp
    moreover have "Suc i + ndigits (l div 10) \<le> 7" using 1(3) nd by simp
    ultimately obtain n' where n': "push_digits (int (l div 10)) n1 (c + 1) = (n', c + 1 + ndigits (l div 10))"
      "\<And>m. pop_digits (ndigits (l div 10) + m) 0 n' = pop_digits m (int (hex_digits (l div 10))) n1"
      using 1(1) [OF False, of n1 "Suc i" "c + 1"] by blast
    have "push_digits (int l) n c = push_digits (int (l div 10)) n1 (c + 1)"
      using False by (subst push_digits.simps) (simp add: c_div_nonneg c_mod_nonneg n1_def d_def zdiv_int zmod_int)
    moreover have "pop_digits (ndigits l + m) 0 n' = pop_digits m (int (hex_digits l)) n" for m
    proof -
      have "unat (n1 mod 16) = d" "n1 div 16 = n"
        using u d by (simp_all add: unat_mod word_unat_eq_iff unat_div)
      then have nm: "uint (n1 mod 16) = int d" "n1 div 16 = n" by (simp_all add: uint_nat)
      have hl: "hex_digits l = 16 * hex_digits (l div 10) + d" using False by (subst hex_digits.simps) (simp add: d_def)
      have "(16 :: nat) ^ ndigits l \<le> 16 ^ 7" using 1(3) by (intro power_increasing) simp_all
      then have "hex_digits l < 16 ^ 7" using hex_digits_less [of l] by linarith
      then have "to_int32 (int (hex_digits (l div 10)) * 16 + int d) = int (hex_digits l)"
        by (subst to_int32_id) (simp_all add: hl)
      then show ?thesis using n'(2) [of "Suc m"] by (simp add: nd nm)
    qed
    ultimately show ?thesis using n'(1) nd by auto
  qed
qed

section \<open>Properties\<close>

text \<open>C39: The number that \<open>panic\<close> hands to the hexadecimal \<open>put_int\<close> shows as the decimal number of the line, for
  lines of up to seven digits.\<close>

theorem panic_line_decimal:
  assumes "line < 10 ^ 7"
  shows "0 \<le> panic_line (int line) \<and> show_nat 16 (nat (panic_line (int line))) = show_nat 10 line"
proof -
  obtain n' where n': "push_digits (int line) 0 0 = (n', ndigits line)"
    "\<And>m. pop_digits (ndigits line + m) 0 n' = pop_digits m (int (hex_digits line)) 0"
    using pop_push [of 0 0 line 0] ndigits_le [OF assms] by auto
  then have "panic_line (int line) = int (hex_digits line)"
    using n'(2) [of 0] by (simp add: panic_line_def)
  then show ?thesis using show_hex_digits by simp
qed

theorem panic_line_decimal_witness: "show_nat 16 (nat (panic_line 1205)) = show_nat 10 1205"
  using panic_line_decimal [of 1205] by simp

end
