(* ===== verification/Spec2Isabelle.thy ===== *)
theory Spec2Isabelle
  imports Lock_Protocol Pool_Init Keyboard User_Calls Format_Mount Partitions Panic
begin

text \<open>
  A verification of the kernel of fizzos, a small operating system for 32-bit x86 in C. The sources are
  under src/; the theories follow their files.

  \<^bold>\<open>The program.\<close> \<open>init_all\<close> (kernel/init.c) sets up the interrupt tables, the memory, the threads, the clock,
  the console, the keyboard, the disk and the file system; after that the kernel runs in interrupts and
  system calls. The lower layers are lists with links inside the elements, counters, locks and bitmaps;
  on them the page allocator, the page tables and \<open>kmalloc\<close>; on those the threads, the address spaces, the
  input queue and the file system.

  \<^bold>\<open>Conventions\<close> (theory Prelude). A C function becomes a definition of the same name over the state it works
  on, which it returns updated. A function that may not return to its caller has an option type: \<^const>\<open>None\<close>
  is a call that panics (\<open>ASSERT\<close>, \<open>PANIC\<close>), dereferences NULL, writes outside an array, or sleeps on a lock.
  Machine integers are words of their width; addresses and indices that the code keeps far below the width
  are natural numbers. Loops are recursive functions: structural or with a termination proof where the
  bound is in the code, \<open>partial_function (option)\<close> where the code has none (strings without a NUL, chains of
  pointers), and then the properties state that the loop returns. No fuel is used.

  \<^bold>\<open>Theories and sources.\<close>
  \<^item> Cpu: the interrupt flag of kernel/interrupt.c and include/kernel/atomic.h, with the flags of the x86
    instructions.
  \<^item> DList: lib/kernel/list.c over a heap of \<open>prev\<close> and \<open>next\<close> links; the functions refine operations on
    sequences, so later theories keep wait queues, the ready queue and free lists as sequences.
  \<^item> Sync, Lock_Protocol: kernel/sync.c. Sync has the calls; Lock_Protocol interleaves their critical sections
    as step relations, with invariants over all reachable states.
  \<^item> Id_Alloc: the contract of an allocator of numbers, a chain of locales that Bitmap and Kmalloc_Clients
    interpret.
  \<^item> Bitmap: lib/kernel/bitmap.c. Buddy: kernel/buddy.c, the page allocator.
  \<^item> Paging, Kernel_Map, Pool_Init: the accessors of the page tables, the direct map and \<open>pool_init\<close> of
    kernel/memory.c. Kmalloc, Kmalloc_Clients: \<open>kmalloc\<close>, \<open>kzalloc\<close>, \<open>kfree\<close> there.
  \<^item> FizzStr: lib/fizzstr.c and user/usercopy.c over a byte memory. Printk: lib/fizzlib.c, lib/kernel/printk.c
    and the user's copy of the formatting loop in lib/user/fizzio.c.
  \<^item> IoQueue, Console, Keyboard: device/ioqueue.c, device/console.c, device/keyboard.c.
  \<^item> Descriptors: the tables and controllers set up by kernel/interrupt.c, user/tss.c and device/timer.c.
  \<^item> Vma: kernel/vma.c. Threads: kernel/kthread.c, user/process.c, kernel/exit.c and the clock of
    device/timer.c; Sched has the invariant of the ready queue and runs of the scheduler, Task_Life the
    creation and the end of threads.
  \<^item> Disk: the transfers of device/ide.c over a model of the drive, its registers and its sectors; Disk_Scan:
    the start of that file, with the partition tables; Partitions: what a scan registers.
  \<^item> Inode, File_Io: fs/inode.c, \<open>file_write\<close> and \<open>file_read\<close> of fs/file.c. Dir, Path: fs/dir.c, the entries of
    a directory and paths; Walk: paths along the cached tree. Open: the rest of fs/file.c, fs/namei.c and the calls
    on files of fs/fs.c; Open_Close: their properties. Format, Format_Mount: formatting and mounting in fs/fs.c.
  \<^item> Page_Fault: the page faults of kernel/memory.c and kernel/fork.c; Copy_On_Write: a write to a shared page.
    Exec: kernel/exec.c.
  \<^item> Syscalls: user/syscall-init.c, include/lib/user/syscall.h, lib/user/syscall.c and the entry between them;
    User_Calls: what a call is for the program. Panic: kernel/debug.c.

  \<^bold>\<open>The state\<close> grows with the layers, each record extending the one before: \<open>cpu\<close> (flags), \<open>sys\<close> (threads and
  their wait states, theory Sync), \<open>tsys\<close> (ready queue, tasks, memory; Threads), \<open>fsys\<close> (byte memory, inodes,
  partition, drive, open files, entries; Inode), and on it \<open>dsys\<close> (channels and partitions while the kernel starts;
  Disk_Scan) and \<open>psys\<close> (areas and saved registers; Page_Fault). Definitions work on the smallest state they
  need and on every extension of it.

  \<^bold>\<open>What the groups of lemmas show.\<close> Each theory first proves what its operations do on every branch under the
  invariant of its state (\<open>_case\<close>, \<open>_eq\<close>, \<open>_at\<close>), then its properties, whose text blocks carry the claim
  numbers: a refinement of sequences (DList), mutual exclusion, no lost wake-ups and bounds over all
  interleavings (Lock_Protocol), the tiling invariant of the page allocator and disjointness of the blocks
  handed out (Buddy, Kmalloc_Clients), the direct map (Kernel_Map), read-back of printed numbers (Printk),
  queue and keyboard as an edited line (IoQueue, Keyboard), the descriptors as the processor decodes them
  (Descriptors), sorted disjoint areas (Vma), a scheduler that is never stuck, and fair (Task_Life), drives and
  files as sequences of bytes that reads and writes address (Disk, File_Io), paths as walks in a tree of names and the
  path of the working directory as one that leads back to it (Walk), descriptors (Open_Close), private pages after a
  fork (Copy_On_Write), formatting followed by mounting (Format_Mount), the meaning of each system call (User_Calls).
  Where the code is wrong the property states what it does, or the range in which it is right: \<open>list_pop_back\<close> and
  \<open>list_backward\<close> are not among the operations of the refinement of DList, and \<open>kmalloc\<close> of more than 2032 bytes
  gives room for the request only if it needs a power of two of pages (Kmalloc_Clients). The bounds of blocks of \<open>kmalloc\<close>
  are not checked at each access; \<open>partition_format\<close>, whose buffer is always too long, is defined only when the page
  behind the buffer has no user (\<open>tail_free\<close>, Format).

  \<^bold>\<open>The machine\<close> is modelled as far as the code sees it. A drive (record \<open>ata\<close>, Disk) has its registers, its sectors and a
  status that depends on the command, the sectors moved and how often it was read; a sector can be moved only while BSY
  is clear and DRQ set. That a command gets there some time is the hypothesis \<open>drive_ok\<close>. The driver checks the
  status before the first sector of a command only, so transfers of several sectors rest on the hypothesis
  \<open>prompt\<close>, a drive that is ready for each further sector at once. The waiting between two reads of the status
  (\<open>mtime_sleep\<close>) is left out of \<open>busy_wait\<close>. The ticks that pass while a sleeping thread is away are a parameter of
  \<open>mtime_sleep\<close> (\<open>ticks_to_sleep\<close>). The words of kernel.S behind its table of 0x30 interrupt entries, which \<open>idt_desc_init\<close>
  reads, are the parameter \<open>behind_table\<close> (Descriptors).

  \<^bold>\<open>Bounds.\<close> The properties state the ranges in which they hold: 16 MB to 1020 MB of memory (Pool_Init), the first 80 MB
  of a drive (\<open>MAX_LBA\<close>, Disk), files of at most 71680 bytes (File_Io), paths of at most 127 bytes (Walk, Open_Close),
  partitions of 1000 to 2097152 sectors, for mounting with at most three sectors of block bitmap (Format_Mount), requests
  to \<open>kmalloc\<close> below 1 GB (Kmalloc_Clients), names of threads of at most nine bytes, which \<open>pname\<close> holds (Threads, Task_Life),
  lines of up to seven digits (Panic).

  \<^bold>\<open>Not modelled.\<close> The assembly files (boot/, kernel.S, switch.S, page.S, print.S, print2.S): what the C code relies
  on of them is stated where it is used (the entries of the interrupt table, the frame an interrupt saves, the switch
  of stacks, \<open>syscall_handler\<close>, \<open>put_str\<close>). The start-up code that only calls what is modelled (kernel/init.c,
  kernel/main.c, \<open>init_proc\<close> of user/process.c). lib/kernel/print1.c, which the kernel does not use, fs/dcache.c and
  the parts of fs/namei.c and kernel/memory.c that are commented out. The programs of the user (my_program/) and the
  tests (test/). Of the modelled parts exec, fork, page faults for missing pages, the writing of directory
  entries and the start of the file system are definitions, so far without properties of their own. Progress
  messages are left out everywhere.
\<close>

end
